(* ===== verification/Prelude.thy ===== *)
theory Prelude
  imports Main "HOL-Library.Word"
begin

unbundle bit_operations_syntax

text \<open>
  Shared vocabulary of the development: the machine integers of the C++ sources as words,
  byte strings as lists of bytes, the library's big-endian stores and loads, and the lemmas
  on lists and words that several components use.

  A \<open>std::vector<uint8_t>\<close>, a \<open>std::string\<close> and a pointer with its length are all a
  \<open>bytes\<close> value. An offset or length of type \<open>size_t\<close> is a \<open>nat\<close>: it
  indexes an object in memory, and every addition the sources make to one is of a value below
  \<open>2 ^ 32\<close> unless a theory says otherwise. Integers that are data keep their width.
\<close>

section \<open>Machine integers and byte strings\<close>

type_synonym u8 = "8 word"
type_synonym u16 = "16 word"
type_synonym u32 = "32 word"
type_synonym u64 = "64 word"
type_synonym bytes = "u8 list"

text \<open>An ASCII literal of the sources, as the bytes it stands for.\<close>

definition ascii :: "string \<Rightarrow> bytes" where
  "ascii s = map of_char s"

lemma length_ascii [simp]: "length (ascii s) = length s"
  by (simp add: ascii_def)

text \<open>Collections of the facts the component proofs share.\<close>

named_theorems byte_simps \<open>loads, stores and shifts of bytes\<close>
named_theorems reads \<open>what a reader returns on the bytes its writer produced\<close>
named_theorems len_simps \<open>lengths of encodings\<close>

lemma unat_u8_less [simp]: "unat (b :: u8) < 256"
  using unsigned_less [of b] by simp

lemma bit_u8_ge [simp]: "8 \<le> n \<Longrightarrow> bit (b :: u8) n = False"
  using bit_imp_le_length [of b n] by auto

lemma bit_u16_ge [simp]: "16 \<le> n \<Longrightarrow> bit (b :: u16) n = False"
  using bit_imp_le_length [of b n] by auto

lemma bit_u32_ge [simp]: "32 \<le> n \<Longrightarrow> bit (b :: u32) n = False"
  using bit_imp_le_length [of b n] by auto

lemma bit_u64_ge [simp]: "64 \<le> n \<Longrightarrow> bit (b :: u64) n = False"
  using bit_imp_le_length [of b n] by auto

lemma u8_eqI:
  fixes x y :: u8
  assumes "bit x 0 = bit y 0" "bit x 1 = bit y 1" "bit x 2 = bit y 2" "bit x 3 = bit y 3"
    "bit x 4 = bit y 4" "bit x 5 = bit y 5" "bit x 6 = bit y 6" "bit x 7 = bit y 7"
  shows "x = y"
proof (rule bit_word_eqI)
  fix n
  assume "n < LENGTH(8)"
  then have "n \<in> {0, 1, 2, 3, 4, 5, 6, 7}" by auto
  with assms show "bit x n = bit y n" by auto
qed

lemma uint_neq_minus [simp]: "uint (w :: 'a :: len word) \<noteq> - 1" "uint (w :: 'a :: len word) \<noteq> - 2"
proof -
  have "0 \<le> uint w" by simp
  then show "uint w \<noteq> - 1" "uint w \<noteq> - 2" by linarith+
qed

section \<open>Big-endian values of byte strings\<close>

text \<open>
  \<open>be_val\<close> is the number a byte string denotes, most significant byte first, and
  \<open>be_bytes n x\<close> the \<open>n\<close> bytes that denote \<open>x\<close> modulo \<open>256 ^ n\<close>.
  They are the specification against which the loads and stores of the code are proved.
\<close>

definition be_val :: "bytes \<Rightarrow> nat" where
  "be_val bs = foldl (\<lambda>acc b. acc * 256 + unat b) 0 bs"

primrec be_bytes :: "nat \<Rightarrow> nat \<Rightarrow> bytes" where
  "be_bytes 0 x = []"
| "be_bytes (Suc n) x = be_bytes n (x div 256) @ [word_of_nat x]"

lemma length_be_bytes [simp, len_simps]: "length (be_bytes n x) = n"
  by (induction n arbitrary: x) simp_all

lemma be_val_Nil [simp]: "be_val [] = 0"
  by (simp add: be_val_def)

lemma be_val_snoc [simp]: "be_val (bs @ [b]) = be_val bs * 256 + unat b"
  by (simp add: be_val_def)

lemma unat_u8_of_nat [simp]: "unat (word_of_nat x :: u8) = x mod 256"
  by (simp add: unat_of_nat)

lemma be_val_be_bytes: "be_val (be_bytes n x) = x mod 256 ^ n"
proof (induction n arbitrary: x)
  case 0
  then show ?case by simp
next
  case (Suc n)
  have "x mod 256 ^ Suc n = (x div 256) mod 256 ^ n * 256 + x mod 256"
    by (metis (no_types, lifting) mod_mult2_eq mult.commute power_Suc)
  with Suc show ?case by simp
qed

lemma be_val_less: "be_val bs < 256 ^ length bs"
proof (induction bs rule: rev_induct)
  case Nil
  then show ?case by simp
next
  case (snoc b bs)
  have "unat b < 256" by simp
  then have "be_val bs * 256 + unat b < (be_val bs + 1) * 256" by simp
  also have "\<dots> \<le> 256 ^ length bs * 256"
    using snoc by (intro mult_le_mono1) simp
  finally show ?case by (simp add: mult.commute)
qed

lemma be_bytes_be_val: "be_bytes (length bs) (be_val bs) = bs"
proof (induction bs rule: rev_induct)
  case Nil
  then show ?case by simp
next
  case (snoc b bs)
  have b: "unat b < 256" by simp
  then have "(be_val bs * 256 + unat b) div 256 = be_val bs" by simp
  moreover have "(word_of_nat (be_val bs * 256 + unat b) :: u8) = b"
    using b by (intro word_unat_eq_iff [THEN iffD2]) (simp only: unat_u8_of_nat, simp)
  ultimately show ?case using snoc by simp
qed

section \<open>Writes into fixed-size buffers\<close>

text \<open>
  \<open>memcpy_at buf off src\<close> is the buffer after \<open>memcpy(buf + off, src, n)\<close> for the
  \<open>n\<close> bytes \<open>src\<close>, and \<open>memset_at\<close> the one after \<open>memset\<close> or a loop
  that stores one byte at \<open>n\<close> successive places. Both keep the size of the buffer when the
  write is within it.
\<close>

definition memcpy_at :: "'a list \<Rightarrow> nat \<Rightarrow> 'a list \<Rightarrow> 'a list" where
  "memcpy_at buf off src = take off buf @ src @ drop (off + length src) buf"

definition memset_at :: "'a list \<Rightarrow> nat \<Rightarrow> nat \<Rightarrow> 'a \<Rightarrow> 'a list" where
  "memset_at buf off n v = memcpy_at buf off (replicate n v)"

lemma length_memcpy_at [simp]:
  "off + length src \<le> length buf \<Longrightarrow> length (memcpy_at buf off src) = length buf"
  by (simp add: memcpy_at_def)

lemma length_memset_at [simp]:
  "off + n \<le> length buf \<Longrightarrow> length (memset_at buf off n v) = length buf"
  by (simp add: memset_at_def)

lemma take_memcpy_at:
  "off + length src \<le> length buf \<Longrightarrow>
   take (off + length src) (memcpy_at buf off src) = take off buf @ src"
  by (simp add: memcpy_at_def)

lemma memcpy_at_fill:
  "off + length src = length buf \<Longrightarrow> memcpy_at buf off src = take off buf @ src"
  by (simp add: memcpy_at_def)

lemma take_memset_at:
  "off + n \<le> length buf \<Longrightarrow> take (off + n) (memset_at buf off n v) = take off buf @ replicate n v"
  using take_memcpy_at [of off "replicate n v" buf] by (simp add: memset_at_def)

lemma take_memcpy_at_0: "take (length src) (memcpy_at buf 0 src) = src"
  by (simp add: memcpy_at_def)

section \<open>Loads, stores and rotations\<close>

text \<open>
  \<open>load_be32 d o\<close> is \<open>(d[o] << 24) | (d[o+1] << 16) | (d[o+2] << 8) | d[o+3]\<close>;
  the stores are the bytes \<open>(uint8_t)(x >> 24), \<dots>\<close> of a word, most significant first.
\<close>

definition load_be32 :: "bytes \<Rightarrow> nat \<Rightarrow> u32" where
  "load_be32 d i = push_bit 24 (ucast (d ! i)) OR push_bit 16 (ucast (d ! (i + 1)))
     OR push_bit 8 (ucast (d ! (i + 2))) OR ucast (d ! (i + 3))"

definition load_be64 :: "bytes \<Rightarrow> nat \<Rightarrow> u64" where
  "load_be64 d i = push_bit 56 (ucast (d ! i)) OR push_bit 48 (ucast (d ! (i + 1)))
     OR push_bit 40 (ucast (d ! (i + 2))) OR push_bit 32 (ucast (d ! (i + 3)))
     OR push_bit 24 (ucast (d ! (i + 4))) OR push_bit 16 (ucast (d ! (i + 5)))
     OR push_bit 8 (ucast (d ! (i + 6))) OR ucast (d ! (i + 7))"

definition store_be16 :: "u16 \<Rightarrow> bytes" where
  "store_be16 x = [ucast (drop_bit 8 x), ucast x]"

definition store_be32 :: "u32 \<Rightarrow> bytes" where
  "store_be32 x = [ucast (drop_bit 24 x), ucast (drop_bit 16 x), ucast (drop_bit 8 x), ucast x]"

definition store_be64 :: "u64 \<Rightarrow> bytes" where
  "store_be64 x =
     [ucast (drop_bit 56 x), ucast (drop_bit 48 x), ucast (drop_bit 40 x), ucast (drop_bit 32 x),
      ucast (drop_bit 24 x), ucast (drop_bit 16 x), ucast (drop_bit 8 x), ucast x]"

text \<open>Little-endian, least significant byte first.\<close>

definition load_le32 :: "bytes \<Rightarrow> nat \<Rightarrow> u32" where
  "load_le32 d i = ucast (d ! i) OR push_bit 8 (ucast (d ! (i + 1)))
     OR push_bit 16 (ucast (d ! (i + 2))) OR push_bit 24 (ucast (d ! (i + 3)))"

definition load_le64 :: "bytes \<Rightarrow> nat \<Rightarrow> u64" where
  "load_le64 d i = ucast (load_le32 d i) OR push_bit 32 (ucast (load_le32 d (i + 4)))"

definition store_le32 :: "u32 \<Rightarrow> bytes" where
  "store_le32 x = rev (store_be32 x)"

definition store_le64 :: "u64 \<Rightarrow> bytes" where
  "store_le64 x = rev (store_be64 x)"

lemma length_store_le [simp, len_simps]:
  "length (store_le32 w) = 4" "length (store_le64 x) = 8"
  by (simp_all add: store_le32_def store_le64_def store_be32_def store_be64_def)

lemma length_store_be [simp, len_simps]:
  "length (store_be16 v) = 2" "length (store_be32 w) = 4" "length (store_be64 x) = 8"
  by (simp_all add: store_be16_def store_be32_def store_be64_def)

text \<open>\<open>(x << n) | (x >> (w - n))\<close> and its mirror image, for \<open>0 < n < w\<close>.\<close>

definition rol32 :: "u32 \<Rightarrow> nat \<Rightarrow> u32" where
  "rol32 x n = push_bit n x OR drop_bit (32 - n) x"

definition ror32 :: "u32 \<Rightarrow> nat \<Rightarrow> u32" where
  "ror32 x n = drop_bit n x OR push_bit (32 - n) x"

definition rol64 :: "u64 \<Rightarrow> nat \<Rightarrow> u64" where
  "rol64 x n = push_bit n x OR drop_bit (64 - n) x"

definition ror64 :: "u64 \<Rightarrow> nat \<Rightarrow> u64" where
  "ror64 x n = drop_bit n x OR push_bit (64 - n) x"

lemma length_concat_const: "(\<And>x. length (f x) = k) \<Longrightarrow> length (concat (map f xs)) = k * length xs"
  by (induction xs) simp_all

lemma take_memcpy_prefix:
  "off + length src \<le> n \<Longrightarrow> n \<le> length buf \<Longrightarrow>
   take n (memcpy_at buf off src) = memcpy_at (take n buf) off src"
  by (simp add: memcpy_at_def min_absorb1 drop_take)

lemma list_update_memcpy: "i < length buf \<Longrightarrow> buf[i := v] = memcpy_at buf i [v]"
  by (simp add: memcpy_at_def upd_conv_take_nth_drop)

end
