(* ===== verification/Base64.thy ===== *)
theory Base64
  imports Prelude
begin

text \<open>
  RFC 4648 base64: the portable code of \<open>src/base64.cpp\<close>, with \<open>b64_level() == 0\<close>
  (a build with neither \<open>JP_AVX2\<close> nor \<open>JP_AVX512\<close>), where the dispatch leaves the
  whole input to the scalar loops. Characters are bytes, as in the code's
  \<open>b64_value(uint8_t)\<close>.
\<close>

section \<open>Alphabet and character values\<close>

definition B64_ALPHABET :: bytes where
  "B64_ALPHABET = ascii ''ABCDEFGHIJKLMNOPQRSTUVWXYZabcdefghijklmnopqrstuvwxyz0123456789+/''"

text \<open>\<open>A\<close>..\<open>Z\<close> are 65..90, \<open>a\<close>..\<open>z\<close> are 97..122, \<open>0\<close>..\<open>9\<close>
  are 48..57, \<open>+\<close> is 43, \<open>/\<close> is 47 and \<open>=\<close> is 61.\<close>

definition b64_value :: "u8 \<Rightarrow> int" where
  "b64_value c =
     (if 65 \<le> c \<and> c \<le> 90 then uint c - 65
      else if 97 \<le> c \<and> c \<le> 122 then uint c - 97 + 26
      else if 48 \<le> c \<and> c \<le> 57 then uint c - 48 + 52
      else if c = 43 then 62
      else if c = 47 then 63
      else - 1)"

definition b64_sym :: "u32 \<Rightarrow> u8" where
  "b64_sym x = B64_ALPHABET ! unat (x AND 0x3F)"

section \<open>Encoding\<close>

text \<open>The word \<open>v\<close> the loop builds from three bytes, and the tail from two or one.\<close>

definition b64_pack3 :: "u8 \<Rightarrow> u8 \<Rightarrow> u8 \<Rightarrow> u32" where
  "b64_pack3 a b c = push_bit 16 (ucast a) OR push_bit 8 (ucast b) OR ucast c"

definition b64_pack2 :: "u8 \<Rightarrow> u8 \<Rightarrow> u32" where
  "b64_pack2 a b = push_bit 16 (ucast a) OR push_bit 8 (ucast b)"

definition b64_pack1 :: "u8 \<Rightarrow> u32" where
  "b64_pack1 a = push_bit 16 (ucast a)"

fun base64_encode_scalar :: "bytes \<Rightarrow> bytes" where
  "base64_encode_scalar (a # b # c # rest) =
     (let v = b64_pack3 a b c
      in [b64_sym (drop_bit 18 v), b64_sym (drop_bit 12 v), b64_sym (drop_bit 6 v), b64_sym v]
         @ base64_encode_scalar rest)"
| "base64_encode_scalar [a, b] =
     (let v = b64_pack2 a b
      in [b64_sym (drop_bit 18 v), b64_sym (drop_bit 12 v), b64_sym (drop_bit 6 v), 61])"
| "base64_encode_scalar [a] =
     (let v = b64_pack1 a in [b64_sym (drop_bit 18 v), b64_sym (drop_bit 12 v), 61, 61])"
| "base64_encode_scalar [] = []"

definition base64_encode :: "bytes \<Rightarrow> bytes" where
  "base64_encode d = base64_encode_scalar d"

section \<open>Decoding\<close>

text \<open>
  \<open>b64_or_pad\<close> is the value the general decoder gives the third and fourth character of a
  group: \<open>-2\<close> for \<open>=\<close>. \<open>b64_join\<close> is its word \<open>v\<close>, which leaves out a
  negative third or fourth value.
\<close>

definition b64_or_pad :: "u8 \<Rightarrow> int" where
  "b64_or_pad t = (if t = 61 then - 2 else b64_value t)"

definition b64_join :: "int \<Rightarrow> int \<Rightarrow> int \<Rightarrow> int \<Rightarrow> u32" where
  "b64_join a b c d =
     (let v = push_bit 18 (word_of_int a) OR push_bit 12 (word_of_int b);
          v = (if c \<ge> 0 then v OR push_bit 6 (word_of_int c) else v)
      in if d \<ge> 0 then v OR word_of_int d else v)"

text \<open>
  The loop of \<open>base64_decode\<close>: \<open>out\<close> is the vector built so far, the list argument is
  \<open>text[i..n)\<close>, so \<open>i + 4 != n\<close> is \<open>rest \<noteq> []\<close>. The last equation is not reached:
  the caller has checked that the length is a multiple of four.
\<close>

fun b64_decode_loop :: "bytes \<Rightarrow> bytes \<Rightarrow> bytes option" where
  "b64_decode_loop out (t0 # t1 # t2 # t3 # rest) =
     (let a = b64_value t0; b = b64_value t1; c = b64_or_pad t2; d = b64_or_pad t3
      in if a < 0 \<or> b < 0 \<or> c = - 1 \<or> d = - 1 then None
         else
           let v = b64_join a b c d;
               out = out @ [ucast (drop_bit 16 v)];
               out = (if c \<ge> 0 then out @ [ucast (drop_bit 8 v)] else out);
               out = (if d \<ge> 0 then out @ [ucast v] else out);
               padded = (t2 = 61 \<or> t3 = 61)
           in if padded \<and> rest \<noteq> [] then None
              else b64_decode_loop out rest)"
| "b64_decode_loop out [] = Some out"
| "b64_decode_loop out _ = None"

definition base64_decode :: "bytes \<Rightarrow> bytes option" where
  "base64_decode t = (if length t mod 4 \<noteq> 0 then None else b64_decode_loop [] t)"

text \<open>
  \<open>detail::base64_decode_scalar\<close>, the decoder for text without padding: it writes through
  \<open>out\<close> and returns false at the first invalid character.
\<close>

fun base64_decode_scalar :: "bytes \<Rightarrow> bytes option" where
  "base64_decode_scalar (t0 # t1 # t2 # t3 # rest) =
     (let a = b64_value t0; b = b64_value t1; c = b64_value t2; d = b64_value t3
      in if a < 0 \<or> b < 0 \<or> c < 0 \<or> d < 0 then None
         else let v = push_bit 18 (word_of_int a :: u32) OR push_bit 12 (word_of_int b)
                        OR push_bit 6 (word_of_int c) OR word_of_int d
              in map_option (\<lambda>out. [ucast (drop_bit 16 v), ucast (drop_bit 8 v), ucast v] @ out)
                   (base64_decode_scalar rest))"
| "base64_decode_scalar [] = Some []"
| "base64_decode_scalar _ = None"

section \<open>The alphabet is inverted by the character values\<close>

lemma B64_ALPHABET_eq:
  "B64_ALPHABET = [65, 66, 67, 68, 69, 70, 71, 72, 73, 74, 75, 76, 77, 78, 79, 80, 81, 82, 83,
    84, 85, 86, 87, 88, 89, 90, 97, 98, 99, 100, 101, 102, 103, 104, 105, 106, 107, 108, 109,
    110, 111, 112, 113, 114, 115, 116, 117, 118, 119, 120, 121, 122, 48, 49, 50, 51, 52, 53,
    54, 55, 56, 57, 43, 47]"
  by (simp add: B64_ALPHABET_def ascii_def)

lemma map_b64_value_alphabet: "map b64_value B64_ALPHABET = map int [0..<64]"
  by (simp add: B64_ALPHABET_eq b64_value_def upt_rec)

lemma length_B64_ALPHABET: "length B64_ALPHABET = 64"
  by (simp add: B64_ALPHABET_eq)

lemma b64_value_alphabet: "k < 64 \<Longrightarrow> b64_value (B64_ALPHABET ! k) = int k"
  using arg_cong [OF map_b64_value_alphabet, of "\<lambda>xs. xs ! k"]
  by (simp add: length_B64_ALPHABET)

lemma pad_notin_alphabet: "61 \<notin> set B64_ALPHABET"
  by (simp add: B64_ALPHABET_eq)

lemma unat_sextet: "unat (x AND 0x3F :: u32) < 64"
proof -
  have "x AND 0x3F = take_bit 6 x"
    by (simp add: take_bit_eq_mask mask_eq_exp_minus_1)
  then show ?thesis
    using take_bit_nat_less_exp [of 6 "unat x"] by (simp add: unsigned_take_bit_eq)
qed

lemma b64_value_sym: "b64_value (b64_sym x) = uint (x AND 0x3F)"
  by (simp add: b64_sym_def b64_value_alphabet [OF unat_sextet])

lemma b64_sym_not_pad: "b64_sym x \<noteq> 61"
proof -
  have "b64_sym x \<in> set B64_ALPHABET"
    by (simp add: b64_sym_def length_B64_ALPHABET unat_sextet)
  then show ?thesis using pad_notin_alphabet by metis
qed

lemma b64_or_pad_sym: "b64_or_pad (b64_sym x) = uint (x AND 0x3F)"
  by (simp add: b64_or_pad_def b64_sym_not_pad b64_value_sym)

lemma b64_or_pad_pad: "b64_or_pad 61 = - 2"
  by (simp add: b64_or_pad_def)

lemmas b64_char_simps = b64_value_sym b64_sym_not_pad b64_or_pad_sym b64_or_pad_pad

section \<open>Four sextets and three bytes\<close>

text \<open>A sextet is a \<open>take_bit 6\<close>; the byte equations are checked bit by bit.\<close>

lemma and_3F: "x AND 0x3F = take_bit 6 (x :: u32)"
  by (simp add: take_bit_eq_mask mask_eq_exp_minus_1)

lemma b64_join_pack3:
  defines "w a b c \<equiv> b64_join (uint (take_bit 6 (drop_bit 18 (b64_pack3 a b c))))
    (uint (take_bit 6 (drop_bit 12 (b64_pack3 a b c))))
    (uint (take_bit 6 (drop_bit 6 (b64_pack3 a b c)))) (uint (take_bit 6 (b64_pack3 a b c)))"
  shows "ucast (drop_bit 16 (w a b c)) = a" "ucast (drop_bit 8 (w a b c)) = b" "ucast (w a b c) = c"
  unfolding w_def b64_join_def b64_pack3_def
  by (rule u8_eqI; simp add: bit_simps)+

lemma b64_join_pack2:
  defines "w a b \<equiv> b64_join (uint (take_bit 6 (drop_bit 18 (b64_pack2 a b))))
    (uint (take_bit 6 (drop_bit 12 (b64_pack2 a b))))
    (uint (take_bit 6 (drop_bit 6 (b64_pack2 a b)))) (- 2)"
  shows "ucast (drop_bit 16 (w a b)) = a" "ucast (drop_bit 8 (w a b)) = b"
  unfolding w_def b64_join_def b64_pack2_def
  by (rule u8_eqI; simp add: bit_simps)+

lemma b64_join_pack1:
  "ucast (drop_bit 16 (b64_join (uint (take_bit 6 (drop_bit 18 (b64_pack1 a))))
     (uint (take_bit 6 (drop_bit 12 (b64_pack1 a)))) (- 2) (- 2))) = a"
  unfolding b64_join_def b64_pack1_def
  by (rule u8_eqI; simp add: bit_simps)

lemmas b64_join_pack = b64_join_pack3 b64_join_pack2 b64_join_pack1

section \<open>Round trip\<close>

lemma b64_decode_loop_encode:
  "b64_decode_loop out (base64_encode_scalar d) = Some (out @ d)"
  by (induction d arbitrary: out rule: base64_encode_scalar.induct)
    (simp_all add: Let_def b64_char_simps and_3F b64_join_pack)

lemma length_base64_encode_scalar:
  "length (base64_encode_scalar d) = 4 * ((length d + 2) div 3)"
proof (induction d rule: base64_encode_scalar.induct)
  case (1 a b c rest)
  have "(5 + length rest) div 3 = Suc ((length rest + 2) div 3)" by arith
  with 1 show ?case by (simp add: Let_def)
qed (simp_all add: Let_def)


section \<open>What the decoder accepts\<close>

lemma unat_B64_ALPHABET:
  "set (map unat B64_ALPHABET) = {65..<91} \<union> {97..<123} \<union> {48..<58} \<union> {43, 47}"
proof -
  have "set (map unat B64_ALPHABET)
      = set [65..<91] \<union> set [97..<123] \<union> set [48..<58] \<union> {43, 47}"
    by (simp add: B64_ALPHABET_eq upt_rec insert_commute)
  then show ?thesis by (simp only: set_upt)
qed

lemma b64_value_mem:
  assumes "0 \<le> b64_value c"
  shows "c \<in> set B64_ALPHABET"
proof -
  have "unat c \<in> {65..<91} \<union> {97..<123} \<union> {48..<58} \<union> {43, 47}"
    using assms by (auto simp: b64_value_def word_le_nat_alt word_unat_eq_iff split: if_splits)
  then have "unat c \<in> unat ` set B64_ALPHABET"
    unfolding unat_B64_ALPHABET [symmetric] by simp
  then show ?thesis by (auto dest: word_unat_eq_iff [THEN iffD2])
qed

lemma b64_value_inverse:
  assumes "0 \<le> b64_value c"
  shows "b64_value c < 64" and "B64_ALPHABET ! nat (b64_value c) = c"
proof -
  obtain k where "k < 64" "c = B64_ALPHABET ! k"
    using b64_value_mem [OF assms] by (auto simp: in_set_conv_nth length_B64_ALPHABET)
  then show "b64_value c < 64" and "B64_ALPHABET ! nat (b64_value c) = c"
    by (simp_all add: b64_value_alphabet)
qed

lemma b64_value_pad: "b64_value 61 = - 1"
  by (simp add: b64_value_def)

lemma b64_value_ge: "- 1 \<le> b64_value c"
  by (simp add: b64_value_def word_le_def)

lemma b64_value_mem': "b64_value c \<noteq> - 1 \<Longrightarrow> c \<in> set B64_ALPHABET"
  using b64_value_ge [of c] by (intro b64_value_mem) linarith

text \<open>
  One group of an accepted text: its characters, that padding means it is the last group, and
  the rest accepted in turn.
\<close>

lemma b64_decode_loop_group:
  assumes "b64_decode_loop out (t0 # t1 # t2 # t3 # rest) = Some d"
  obtains out' where "b64_decode_loop out' rest = Some d"
    and "length out + 1 \<le> length out'" "length out' \<le> length out + 3"
    and "t0 \<in> set B64_ALPHABET" "t1 \<in> set B64_ALPHABET"
    and "t2 \<in> set B64_ALPHABET \<union> {61}" "t3 \<in> set B64_ALPHABET \<union> {61}"
    and "rest \<noteq> [] \<Longrightarrow> t2 \<noteq> 61 \<and> t3 \<noteq> 61"
proof -
  have v: "0 \<le> b64_value t0" "0 \<le> b64_value t1" "b64_or_pad t2 \<noteq> - 1" "b64_or_pad t3 \<noteq> - 1"
    and pad: "rest \<noteq> [] \<Longrightarrow> t2 \<noteq> 61 \<and> t3 \<noteq> 61"
    using assms by (auto simp: Let_def split: if_splits)
  have mem: "t2 \<in> set B64_ALPHABET \<union> {61}" "t3 \<in> set B64_ALPHABET \<union> {61}"
    using v b64_value_mem' by (auto simp: b64_or_pad_def split: if_splits)
  show thesis
    using assms v pad mem b64_value_mem
    by (intro that) (auto simp: Let_def split: if_splits)
qed

declare b64_decode_loop.simps(1) [simp del]

text \<open>Induction over the groups of four characters of a text.\<close>

lemma groups4_induct [consumes 1, case_names Nil Group]:
  assumes "length t mod 4 = 0" "P []"
    "\<And>t0 t1 t2 t3 rest. length rest mod 4 = 0 \<Longrightarrow> P rest \<Longrightarrow> P (t0 # t1 # t2 # t3 # rest)"
  shows "P t"
  using assms(1)
proof (induction t rule: measure_induct_rule [of length])
  case (less t)
  show ?case
  proof (cases "length t \<ge> 4")
    case True
    then obtain t0 t1 t2 t3 rest where "t = t0 # t1 # t2 # t3 # rest"
      by (auto simp: Suc_le_length_iff numeral_eq_Suc)
    with less assms(3) show ?thesis by simp
  next
    case False
    with less.prems assms(2) show ?thesis by simp
  qed
qed

lemma b64_decode_loop_chars:
  assumes "length t mod 4 = 0" "b64_decode_loop out t = Some d"
  shows "set t \<subseteq> set B64_ALPHABET \<union> {61}"
  using assms
proof (induction t arbitrary: out rule: groups4_induct)
  case (Group t0 t1 t2 t3 rest)
  then show ?case by (auto elim!: b64_decode_loop_group)
qed simp

lemma b64_decode_loop_padding:
  assumes "length t mod 4 = 0" "b64_decode_loop out t = Some d"
  shows "61 \<notin> set (take (length t - 2) t)"
  using assms
proof (induction t arbitrary: out rule: groups4_induct)
  case (Group t0 t1 t2 t3 rest)
  from Group.prems obtain out' where o: "b64_decode_loop out' rest = Some d"
    and m: "t0 \<noteq> 61" "t1 \<noteq> 61" and pad: "rest \<noteq> [] \<Longrightarrow> t2 \<noteq> 61 \<and> t3 \<noteq> 61"
    using pad_notin_alphabet by (elim b64_decode_loop_group) blast
  show ?case
  proof (cases "rest = []")
    case False
    then obtain n where "length rest = Suc (Suc n)"
      using Group.hyps by (cases rest; cases "tl rest") auto
    with Group.IH [OF o] m pad [OF False] show ?thesis by simp
  qed (use m in simp)
qed simp

lemma b64_decode_loop_length:
  assumes "length t mod 4 = 0" "b64_decode_loop out t = Some d"
  shows "length out + length t div 4 \<le> length d \<and> length d \<le> length out + 3 * (length t div 4)"
  using assms
proof (induction t arbitrary: out rule: groups4_induct)
  case (Group t0 t1 t2 t3 rest)
  from Group.prems obtain out' where "b64_decode_loop out' rest = Some d"
    "length out + 1 \<le> length out'" "length out' \<le> length out + 3"
    by (rule b64_decode_loop_group)
  moreover have "(4 + length rest) div 4 = Suc (length rest div 4)" by simp
  ultimately show ?case using Group.IH [of out'] by simp
qed simp

text \<open>Without padding the general loop and the padding-free decoder agree.\<close>

lemma b64_join_nonneg:
  "0 \<le> c \<Longrightarrow> 0 \<le> d \<Longrightarrow> b64_join a b c d = push_bit 18 (word_of_int a) OR push_bit 12 (word_of_int b)
     OR push_bit 6 (word_of_int c) OR word_of_int d"
  by (simp add: b64_join_def Let_def or.assoc)

lemma b64_decode_loop_scalar:
  assumes "length t mod 4 = 0" "61 \<notin> set t"
  shows "b64_decode_loop out t = map_option (\<lambda>d. out @ d) (base64_decode_scalar t)"
  using assms
proof (induction t arbitrary: out rule: groups4_induct)
  case (Group t0 t1 t2 t3 rest)
  have np: "t2 \<noteq> 61" "t3 \<noteq> 61" "61 \<notin> set rest" using Group.prems by auto
  have neg: "b64_value t = - 1 \<longleftrightarrow> b64_value t < 0" for t using b64_value_ge [of t] by linarith
  show ?case
    using np b64_value_ge
    by (cases "base64_decode_scalar rest") (simp_all add: b64_decode_loop.simps(1) Group.IH b64_or_pad_def Let_def b64_join_nonneg neg comp_def)
qed simp

section \<open>Canonical texts\<close>

lemma b64_value_word:
  assumes "0 \<le> b64_value t"
  defines "w \<equiv> word_of_int (b64_value t) :: u32"
  shows "take_bit 6 w = w" and "B64_ALPHABET ! unat w = t"
proof -
  obtain k where k: "k < 64" "b64_value t = int k"
    using b64_value_inverse(1) [OF assms(1)] assms(1) nonneg_int_cases [of "b64_value t"] by auto
  then have u: "unat w = k" by (simp add: w_def unat_of_nat)
  show "take_bit 6 w = w"
    using k(1) by (simp add: word_unat_eq_iff unsigned_take_bit_eq u take_bit_nat_eq_self)
  show "B64_ALPHABET ! unat w = t"
    using b64_value_inverse(2) [OF assms(1)] k by (simp add: u)
qed

lemma bit_sextet: "take_bit 6 A = A \<Longrightarrow> bit (A :: u32) n \<Longrightarrow> n < 6"
  by (metis bit_take_bit_iff)

lemma pack3_join:
  fixes A B C D :: u32
  assumes "take_bit 6 A = A" "take_bit 6 B = B" "take_bit 6 C = C" "take_bit 6 D = D"
  defines "v \<equiv> push_bit 18 A OR push_bit 12 B OR push_bit 6 C OR D"
  shows "b64_pack3 (ucast (drop_bit 16 v)) (ucast (drop_bit 8 v)) (ucast v) = v"
proof (rule bit_word_eqI)
  fix n
  assume "n < LENGTH(32)"
  have high: "\<not> bit v n" if "24 \<le> n" for n
    using that assms(1-4) by (auto simp: v_def bit_simps dest: bit_sextet)
  consider "n < 8" | "8 \<le> n" "n < 16" | "16 \<le> n" "n < 24" | "24 \<le> n" by linarith
  then show "bit (b64_pack3 (ucast (drop_bit 16 v)) (ucast (drop_bit 8 v)) (ucast v)) n = bit v n"
    by cases (auto simp: b64_pack3_def bit_simps high)
qed

lemma sextets_of_join:
  fixes A B C D :: u32
  assumes "take_bit 6 A = A" "take_bit 6 B = B" "take_bit 6 C = C" "take_bit 6 D = D"
  defines "v \<equiv> push_bit 18 A OR push_bit 12 B OR push_bit 6 C OR D"
  shows "take_bit 6 (drop_bit 18 v) = A" "take_bit 6 (drop_bit 12 v) = B"
    "take_bit 6 (drop_bit 6 v) = C" "take_bit 6 v = D"
proof -
  have high: "\<not> bit X (k + n)" if "take_bit 6 X = X" "6 \<le> k" for X :: u32 and k n
    using bit_sextet [OF that(1), of "k + n"] that(2) by linarith
  show "take_bit 6 (drop_bit 18 v) = A" "take_bit 6 (drop_bit 12 v) = B"
    "take_bit 6 (drop_bit 6 v) = C" "take_bit 6 v = D"
    using assms(1-4) unfolding v_def
    by (auto intro!: bit_word_eqI simp: bit_simps high dest: bit_sextet)
qed

lemma encode_decode_scalar:
  assumes "length t mod 4 = 0" "base64_decode_scalar t = Some d"
  shows "base64_encode_scalar d = t"
  using assms
proof (induction t arbitrary: d rule: groups4_induct)
  case (Group t0 t1 t2 t3 rest)
  then have v: "0 \<le> b64_value t0" "0 \<le> b64_value t1" "0 \<le> b64_value t2" "0 \<le> b64_value t3"
    by (auto simp: Let_def split: if_splits)
  define v where "v = push_bit 18 (word_of_int (b64_value t0) :: u32)
    OR push_bit 12 (word_of_int (b64_value t1)) OR push_bit 6 (word_of_int (b64_value t2))
    OR word_of_int (b64_value t3)"
  obtain d' where d: "d = [ucast (drop_bit 16 v), ucast (drop_bit 8 v), ucast v] @ d'"
    and r: "base64_decode_scalar rest = Some d'"
    using Group.prems v by (auto simp: Let_def v_def)
  note b = b64_value_word(1) [OF v(1)] b64_value_word(1) [OF v(2)]
    b64_value_word(1) [OF v(3)] b64_value_word(1) [OF v(4)]
  have "b64_pack3 (ucast (drop_bit 16 v)) (ucast (drop_bit 8 v)) (ucast v) = v"
    unfolding v_def by (rule pack3_join [OF b])
  moreover have "b64_sym (drop_bit 18 v) = t0" "b64_sym (drop_bit 12 v) = t1"
      "b64_sym (drop_bit 6 v) = t2" "b64_sym v = t3"
    unfolding v_def b64_sym_def and_3F sextets_of_join [OF b]
    by (rule b64_value_word(2) [OF v(1)], rule b64_value_word(2) [OF v(2)],
        rule b64_value_word(2) [OF v(3)], rule b64_value_word(2) [OF v(4)])
  ultimately show ?case using Group.IH [OF r] by (simp add: d Let_def)
qed simp

section \<open>Properties\<close>

text \<open>
  Decoding an encoding gives the bytes back, for every byte string: the padding the encoder
  writes is the padding the decoder accepts.
\<close>

theorem base64_roundtrip: "base64_decode (base64_encode d) = Some d"
  by (simp add: base64_decode_def base64_encode_def b64_decode_loop_encode
      length_base64_encode_scalar)

text \<open>
  Every text the decoder accepts is a whole number of groups over the alphabet with
  \<open>=\<close> only in the last two places, and the output has one to three bytes per group.
\<close>

theorem base64_decode_accepts:
  assumes "base64_decode t = Some d"
  shows "length t mod 4 = 0 \<and> set t \<subseteq> set B64_ALPHABET \<union> {61}
    \<and> 61 \<notin> set (take (length t - 2) t)
    \<and> length t div 4 \<le> length d \<and> length d \<le> 3 * (length t div 4)"
proof -
  have t: "length t mod 4 = 0" "b64_decode_loop [] t = Some d"
    using assms by (auto simp: base64_decode_def split: if_splits)
  from b64_decode_loop_chars [OF t] b64_decode_loop_padding [OF t] b64_decode_loop_length [OF t] t(1)
  show ?thesis by simp
qed

theorem base64_decode_accepts_witness:
  "base64_decode (ascii ''TWE='') = Some [77, 97]
    \<and> 61 \<notin> set (take 2 (ascii ''TWE=''))"
proof -
  have d: "base64_decode (ascii ''TWE='') = Some [77, 97]"
    by (simp add: base64_decode_def b64_decode_loop.simps ascii_def b64_value_def b64_or_pad_def b64_join_def)
  from base64_decode_accepts [OF d] d show ?thesis by (simp add: ascii_def)
qed

text \<open>
  On text without padding the decoder is injective and inverts the encoder: an accepted
  text without \<open>=\<close> is the encoding of its value, and the padding-free decoder
  \<open>detail::base64_decode_scalar\<close> computes the same.
\<close>

theorem base64_unpadded_canonical:
  assumes "61 \<notin> set t" "base64_decode t = Some d"
  shows "base64_encode d = t \<and> base64_decode_scalar t = Some d"
proof -
  have t: "length t mod 4 = 0" "b64_decode_loop [] t = Some d"
    using assms(2) by (auto simp: base64_decode_def split: if_splits)
  then have s: "base64_decode_scalar t = Some d"
    using b64_decode_loop_scalar [OF t(1) assms(1), of "[]"] by (auto simp: map_option_case split: option.splits)
  with encode_decode_scalar [OF t(1) s] show ?thesis by (simp add: base64_encode_def)
qed

theorem base64_unpadded_canonical_witness:
  "base64_encode [77, 97, 110] = ascii ''TWFu''"
proof -
  have "base64_decode (ascii ''TWFu'') = Some [77, 97, 110]" by (simp add: base64_decode_def b64_decode_loop.simps ascii_def b64_value_def b64_or_pad_def b64_join_def)
  from base64_unpadded_canonical [OF _ this] show ?thesis by (simp add: ascii_def)
qed

text \<open>
  With padding the decoder is not injective, and it accepts groups RFC 4648 does not have:
  unused bits of the last character are not checked to be zero, and a \<open>=\<close> in the third
  place may be followed by a character.
\<close>

theorem base64_noncanonical_accepted:
  "base64_decode (ascii ''QR=='') = Some [65] \<and> base64_encode [65] = ascii ''QQ==''
    \<and> base64_decode (ascii ''QQ=B'') = Some [65, 1]
    \<and> base64_decode (ascii ''QQ'') = None"
proof (intro conjI)
  show "base64_decode (ascii ''QR=='') = Some [65]" 
    by (simp add: base64_decode_def b64_decode_loop.simps ascii_def b64_value_def b64_or_pad_def b64_join_def)
  show "base64_encode [65] = ascii ''QQ==''"
    by (simp add: base64_encode_def b64_pack1_def b64_sym_def B64_ALPHABET_eq ascii_def)
  show "base64_decode (ascii ''QQ=B'') = Some [65, 1]" 
    by (simp add: base64_decode_def b64_decode_loop.simps ascii_def b64_value_def b64_or_pad_def b64_join_def)
  show "base64_decode (ascii ''QQ'') = None" 
    by (simp add: base64_decode_def b64_decode_loop.simps ascii_def b64_value_def b64_or_pad_def b64_join_def)
qed

end
