(* ===== verification/MdStream.thy ===== *)
theory MdStream
  imports Prelude
begin

text \<open>
  What the streaming hash functions of the library have in common. \<open>absorb\<close> runs a
  compression function over the whole blocks of a byte string, \<open>md_loop\<close> is the loop the
  update functions use for that, \<open>md_pad\<close> the padding of FIPS 180-4 and GM/T 0004.
  The locale \<open>md_stream\<close> relates the buffered state of such a function to the message it
  has read; \<open>streaming_hash\<close> is the contract the users of a hash function rely on.
\<close>

section \<open>Running a compression function over the blocks of a message\<close>

function absorb :: "nat \<Rightarrow> ('h \<Rightarrow> bytes \<Rightarrow> 'h) \<Rightarrow> 'h \<Rightarrow> bytes \<Rightarrow> 'h" where
  "absorb B cf h xs =
     (if 0 < B \<and> B \<le> length xs then absorb B cf (cf h (take B xs)) (drop B xs) else h)"
  by pat_completeness auto
termination
  by (relation "measure (\<lambda>(B, cf, h, xs). length xs)") auto

declare absorb.simps [simp del]

text \<open>The bytes after the last whole block.\<close>

definition partial_block :: "nat \<Rightarrow> bytes \<Rightarrow> bytes" where
  "partial_block B xs = drop (B * (length xs div B)) xs"

lemma length_partial_block [simp]: "length (partial_block B xs) = length xs mod B"
  by (simp add: partial_block_def minus_mult_div_eq_mod)

lemma absorb_short: "length xs < B \<Longrightarrow> absorb B cf h xs = h"
  by (simp add: absorb.simps)

lemma absorb_block:
  "0 < B \<Longrightarrow> length b = B \<Longrightarrow> absorb B cf h (b @ xs) = absorb B cf (cf h b) xs"
  by (subst absorb.simps) simp

lemma absorb_one: "0 < B \<Longrightarrow> length b = B \<Longrightarrow> absorb B cf h b = cf h b"
  using absorb_block [of B b cf h "[]"] by (simp add: absorb_short)

lemma partial_block_short: "length xs < B \<Longrightarrow> partial_block B xs = xs"
  by (simp add: partial_block_def)

lemma partial_block_step:
  "0 < B \<Longrightarrow> length b = B \<Longrightarrow> partial_block B (b @ xs) = partial_block B xs"
  by (simp add: partial_block_def div_add_self1)

text \<open>Splitting off the first block, for inductions over the blocks of a message.\<close>

lemma blocks_induct [consumes 1, case_names short block]:
  assumes "0 < B" "\<And>xs. length xs < B \<Longrightarrow> P xs"
    "\<And>b xs. length b = B \<Longrightarrow> P xs \<Longrightarrow> P (b @ xs)"
  shows "P xs"
proof (induction xs rule: measure_induct_rule [of length])
  case (less xs)
  show ?case
  proof (cases "length xs < B")
    case False
    then have "P (take B xs @ drop B xs)"
      using less assms(1,3) by (intro assms(3)) auto
    then show ?thesis by simp
  qed (rule assms(2))
qed

lemma absorb_append:
  assumes "0 < B"
  shows "absorb B cf h (xs @ ys) = absorb B cf (absorb B cf h xs) (partial_block B xs @ ys)"
  using assms
proof (induction xs arbitrary: h rule: blocks_induct)
  case (short xs)
  then show ?case by (simp add: absorb_short partial_block_short)
next
  case (block b xs)
  with assms show ?case by (simp add: absorb_block partial_block_step)
qed

lemma partial_block_append:
  assumes "0 < B"
  shows "partial_block B (xs @ ys) = partial_block B (partial_block B xs @ ys)"
  using assms
proof (induction xs rule: blocks_induct)
  case (short xs)
  then show ?case by (simp add: partial_block_short)
next
  case (block b xs)
  with assms show ?case by (simp add: partial_block_step)
qed

section \<open>The block loop of the update functions\<close>

text \<open>
  \<open>while (off + B <= len) { transform(h, data + off); off += B; }\<close>, returning the chaining
  value and the final \<open>off\<close>.
\<close>

function md_loop :: "nat \<Rightarrow> ('h \<Rightarrow> bytes \<Rightarrow> 'h) \<Rightarrow> 'h \<Rightarrow> bytes \<Rightarrow> nat \<Rightarrow> 'h \<times> nat" where
  "md_loop B cf h data off =
     (if 0 < B \<and> off + B \<le> length data
      then md_loop B cf (cf h (take B (drop off data))) data (off + B) else (h, off))"
  by pat_completeness auto
termination
  by (relation "measure (\<lambda>(B, cf, h, data, off). length data - off)") auto

declare md_loop.simps [simp del]

lemma md_loop_absorb:
  assumes "0 < B" "off \<le> length data"
  shows "md_loop B cf h data off
    = (absorb B cf h (drop off data), off + B * ((length data - off) div B))"
  using assms
proof (induction B cf h data off rule: md_loop.induct)
  case (1 B cf h data off)
  show ?case
  proof (cases "off + B \<le> length data")
    case True
    then have len: "length data - off = B + (length data - (off + B))" by simp
    have d: "(length data - off) div B = Suc ((length data - (off + B)) div B)"
      using 1 by (subst len) (simp add: div_add_self1)
    from True 1 have "md_loop B cf h data off
        = (absorb B cf (cf h (take B (drop off data))) (drop (off + B) data),
           off + B + B * ((length data - (off + B)) div B))"
      by (simp add: md_loop.simps [of B cf h])
    moreover have "absorb B cf h (drop off data)
        = absorb B cf (cf h (take B (drop off data))) (drop (off + B) data)"
    proof -
      have "B \<le> length data - off" using True by simp
      then show ?thesis using 1 by (simp add: absorb.simps [of B cf h] add.commute)
    qed
    ultimately show ?thesis by (simp add: d)
  next
    case False
    then have "\<not> B \<le> length data - off" using 1 by simp
    with False 1 show ?thesis
      by (simp add: md_loop.simps [of B cf h] absorb.simps [of B cf h])
  qed
qed

lemma md_loop_rest:
  assumes "0 < B" "off \<le> length data"
  shows "drop (snd (md_loop B cf h data off)) data = partial_block B (drop off data)"
  using assms by (simp add: md_loop_absorb partial_block_def add.commute)

lemma length_absorb_iv:
  assumes "length iv = n" "\<And>h d. length (cf h d) = n" "0 < B"
  shows "length (absorb B cf iv m) = n"
  using assms(3,1)
  by (induction m arbitrary: iv rule: blocks_induct) (simp_all add: absorb_short absorb_block assms(2,3))

text \<open>
  The other form of the loop, \<open>while (len >= B) { transform(h, data); data += B; len -= B; }\<close>,
  returning the chaining value and the data left.
\<close>

function md_drain :: "nat \<Rightarrow> ('h \<Rightarrow> bytes \<Rightarrow> 'h) \<Rightarrow> 'h \<Rightarrow> bytes \<Rightarrow> 'h \<times> bytes" where
  "md_drain B cf h data =
     (if 0 < B \<and> B \<le> length data then md_drain B cf (cf h (take B data)) (drop B data)
      else (h, data))"
  by pat_completeness auto
termination
  by (relation "measure (\<lambda>(B, cf, h, data). length data)") auto

declare md_drain.simps [simp del]

lemma md_drain_eq:
  assumes "0 < B"
  shows "md_drain B cf h data = (absorb B cf h data, partial_block B data)"
  using assms
proof (induction data arbitrary: h rule: blocks_induct)
  case (short xs)
  then show ?case by (simp add: md_drain.simps absorb_short partial_block_short)
next
  case (block b xs)
  with assms show ?case
    by (simp add: md_drain.simps [of B cf h] absorb_block partial_block_step)
qed

section \<open>Padding\<close>

text \<open>
  The message, a \<open>0x80\<close> byte, zeros up to the length field, and the length field:
  \<open>lenf\<close> is its bytes, eight of them for 64-byte blocks and sixteen for 128-byte blocks.
\<close>

definition md_pad :: "nat \<Rightarrow> bytes \<Rightarrow> bytes \<Rightarrow> bytes" where
  "md_pad B lenf m =
     (let n = length m mod B + 1 + length lenf
      in m @ [0x80] @ replicate (if n \<le> B then B - n else 2 * B - n) 0 @ lenf)"

lemma length_md_pad:
  assumes "length lenf < B"
  shows "length (md_pad B lenf m) mod B = 0"
proof -
  define k where "k = B * (length m div B)"
  define r where "r = length m mod B"
  have "r < B" using assms by (simp add: r_def)
  moreover have "length m = k + r" by (simp add: k_def r_def)
  ultimately have "length (md_pad B lenf m) = k + B \<or> length (md_pad B lenf m) = k + 2 * B"
    using assms unfolding md_pad_def Let_def r_def [symmetric] by auto
  then show ?thesis by (auto simp: k_def)
qed

text \<open>
  The tail of the final functions: store \<open>0x80\<close>; if the length field no longer fits, fill
  the buffer with zeros, compress it and start again; fill with zeros up to the length field,
  store that, compress. The result is the chaining value and the buffer.
\<close>

definition md_finish ::
  "nat \<Rightarrow> ('h \<Rightarrow> bytes \<Rightarrow> 'h) \<Rightarrow> 'h \<Rightarrow> bytes \<Rightarrow> nat \<Rightarrow> bytes \<Rightarrow> 'h \<times> bytes" where
  "md_finish B cf h buf n lenf =
     (let L = length lenf;
          buf = memcpy_at buf n [0x80];
          n = n + 1;
          (h, buf, n) = (if n > B - L
            then let buf = memset_at buf n (B - n) 0 in (cf h buf, buf, 0)
            else (h, buf, n));
          buf = memset_at buf n (B - L - n) 0;
          buf = memcpy_at buf (B - L) lenf
      in (cf h buf, buf))"

section \<open>The context struct and the update function\<close>

text \<open>
  \<open>sha1_ctx\<close>, \<open>sha256_ctx\<close>, \<open>sha512_ctx\<close> and \<open>sm3_ctx\<close> have the same
  fields: the chaining value, the bytes read so far, the block buffer and the number of bytes
  in it (the SHA-512 context has one more).
\<close>

record 'w md_ctx =
  ctx_h :: "'w list"
  ctx_len :: u64
  ctx_buf :: bytes
  ctx_buf_len :: nat

text \<open>The update function three of them share word for word.\<close>

definition md_update ::
  "nat \<Rightarrow> ('w list \<Rightarrow> bytes \<Rightarrow> 'w list) \<Rightarrow> ('w, 'z) md_ctx_scheme \<Rightarrow> bytes \<Rightarrow> ('w, 'z) md_ctx_scheme" where
  "md_update B cf ctx data =
     (if data = [] then ctx
      else
        let ctx = ctx\<lparr>ctx_len := ctx_len ctx + word_of_nat (length data)\<rparr>;
            n = ctx_buf_len ctx
        in if n + length data < B then
             ctx\<lparr>ctx_buf := memcpy_at (ctx_buf ctx) n data, ctx_buf_len := n + length data\<rparr>
           else
             let off = B - n;
                 buf = memcpy_at (ctx_buf ctx) n (take off data);
                 h = cf (ctx_h ctx) buf;
                 (h, off) = md_loop B cf h data off
             in ctx\<lparr>ctx_h := h, ctx_buf_len := length data - off,
                    ctx_buf := memcpy_at buf 0 (drop off data)\<rparr>)"

section \<open>The buffered state of a streaming hash function\<close>

text \<open>
  \<open>holds h buf n m\<close>: a context with chaining value \<open>h\<close>, buffer \<open>buf\<close> and
  \<open>n\<close> valid bytes in it has read the message \<open>m\<close>. The bytes of the buffer past
  \<open>n\<close> are whatever earlier blocks left there.
\<close>

locale md_stream =
  fixes B :: nat and cf :: "'w list \<Rightarrow> bytes \<Rightarrow> 'w list" and iv :: "'w list"
  assumes B_pos: "0 < B"
begin

definition holds :: "'w list \<Rightarrow> bytes \<Rightarrow> nat \<Rightarrow> bytes \<Rightarrow> bool" where
  "holds h buf n m \<longleftrightarrow> length buf = B \<and> n = length m mod B
     \<and> h = absorb B cf iv m \<and> take n buf = partial_block B m"

lemma holdsD:
  assumes "holds h buf n m"
  shows "length buf = B" "n < B" "h = absorb B cf iv m" "take n buf = partial_block B m"
    "n = length m mod B"
  using assms B_pos by (auto simp: holds_def)

lemma holds_init: "length buf = B \<Longrightarrow> holds iv buf 0 []"
  using B_pos by (simp add: holds_def absorb_short partial_block_def)

text \<open>Data that does not fill the buffer is appended to it.\<close>

lemma holds_buffer:
  assumes "holds h buf n m" "n + length d < B"
  shows "holds h (memcpy_at buf n d) (n + length d) (m @ d)"
proof -
  note h = holdsD [OF assms(1)]
  have "absorb B cf iv (m @ d) = absorb B cf h (partial_block B m @ d)"
    using absorb_append [OF B_pos] h(3) by simp
  also have "\<dots> = h"
    using assms(2) h(5) by (intro absorb_short) simp
  finally have 1: "h = absorb B cf iv (m @ d)" by simp
  have "partial_block B (m @ d) = partial_block B (partial_block B m @ d)"
    by (rule partial_block_append [OF B_pos])
  also have "\<dots> = partial_block B m @ d"
    using assms(2) h(5) by (intro partial_block_short) simp
  finally have 2: "partial_block B (m @ d) = partial_block B m @ d" .
  then have 3: "n + length d = length (m @ d) mod B"
    using h(5) by (metis length_append length_partial_block)
  have "take (n + length d) (memcpy_at buf n d) = partial_block B (m @ d)"
    unfolding 2 h(4) [symmetric] using assms(2) h(1) by (intro take_memcpy_at) simp
  with 1 3 show ?thesis
    using h(1) assms(2) unfolding holds_def by simp
qed

text \<open>
  Data that fills it: the buffer is completed and compressed, whole blocks are compressed in
  place, and the rest goes to the start of the buffer.
\<close>

lemma holds_blocks:
  assumes "holds h buf n m" "B \<le> n + length d"
    and "off = B - n"
    and "h1 = cf h (memcpy_at buf n (take off d))"
    and "md_loop B cf h1 d off = (h2, off2)"
  shows "holds h2 (memcpy_at (memcpy_at buf n (take off d)) 0 (drop off2 d))
           (length d - off2) (m @ d)"
proof -
  note h = holdsD [OF assms(1)]
  have off: "off \<le> length d" using assms(2,3) by simp
  have buf1: "memcpy_at buf n (take off d) = partial_block B m @ take off d"
    using h off assms(3) by (simp add: memcpy_at_fill)
  have len1: "length (partial_block B m @ take off d) = B"
    using h(2,5) off assms(3) by simp
  have "partial_block B (m @ d)
      = partial_block B ((partial_block B m @ take off d) @ drop off d)"
    using partial_block_append [OF B_pos, of m d] by simp
  also have "\<dots> = partial_block B (drop off d)"
    by (rule partial_block_step [OF B_pos len1])
  finally have part: "partial_block B (m @ d) = partial_block B (drop off d)" .
  have "absorb B cf iv (m @ d) = absorb B cf h ((partial_block B m @ take off d) @ drop off d)"
    using absorb_append [OF B_pos, of cf iv m d] h(3) by simp
  also have "\<dots> = absorb B cf (cf h (partial_block B m @ take off d)) (drop off d)"
    by (rule absorb_block [OF B_pos len1])
  finally have "absorb B cf iv (m @ d)
      = absorb B cf (cf h (partial_block B m @ take off d)) (drop off d)" .
  then have h2: "h2 = absorb B cf iv (m @ d)"
    using assms(4,5) off by (simp add: buf1 md_loop_absorb [OF B_pos])
  have rest: "drop off2 d = partial_block B (m @ d)"
    using md_loop_rest [OF B_pos off, of cf h1] assms(5) part by simp
  then have 3: "length d - off2 = length (m @ d) mod B"
    by (metis length_drop length_partial_block)
  have l: "length (drop off2 d) \<le> B"
    using 3 B_pos by simp
  have "take (length d - off2) (memcpy_at (memcpy_at buf n (take off d)) 0 (drop off2 d))
      = partial_block B (m @ d)"
    using take_memcpy_at_0 [of "partial_block B (m @ d)" "memcpy_at buf n (take off d)"]
    unfolding rest 3 length_partial_block .
  moreover have "length (memcpy_at (memcpy_at buf n (take off d)) 0 (drop off2 d)) = B"
    using l len1 unfolding buf1 by (subst length_memcpy_at) simp_all
  ultimately show ?thesis
    using h2 3 unfolding holds_def by simp
qed

text \<open>With an empty buffer, blocks are compressed in place and the rest is stored.\<close>

lemma holds_aligned:
  assumes "holds h buf 0 m"
  shows "holds (absorb B cf h d) (memcpy_at buf 0 (partial_block B d)) (length d mod B) (m @ d)"
proof -
  note h = holdsD [OF assms]
  have p: "partial_block B m = []" using h(4) by simp
  then have "absorb B cf iv (m @ d) = absorb B cf h d"
    using h(3) by (simp add: absorb_append [OF B_pos])
  moreover have "partial_block B (m @ d) = partial_block B d"
    using partial_block_append [OF B_pos, of m d] p by simp
  ultimately show ?thesis
    using h(1) B_pos take_memcpy_at_0 [of "partial_block B d" buf]
    unfolding holds_def by (metis add_0 length_memcpy_at length_partial_block mod_le_divisor)
qed

text \<open>Data that exactly completes the buffer.\<close>

lemma holds_fill:
  assumes "holds h buf n m" "n + length d = B"
  shows "holds (cf h (memcpy_at buf n d)) (memcpy_at buf n d) 0 (m @ d)"
proof -
  have "md_loop B cf h' d (length d) = (h', length d)" for h'
    using B_pos by (simp add: md_loop.simps)
  then show ?thesis
    using holds_blocks [OF assms(1), of d "length d" _ _ "length d"] assms(2)
    by (auto simp: memcpy_at_def)
qed

text \<open>The tail of the final function absorbs the padded message.\<close>

lemma holds_finish:
  assumes "holds h buf n m" "length lenf < B"
  shows "fst (md_finish B cf h buf n lenf) = absorb B cf iv (md_pad B lenf m)"
proof -
  note h = holdsD [OF assms(1)]
  let ?p = "partial_block B m"
  have p: "length ?p = n" using h(5) by simp
  have split: "absorb B cf iv (m @ xs) = absorb B cf h (?p @ xs)" for xs
    using absorb_append [OF B_pos] h(3) by simp
  have b1: "memcpy_at buf n [0x80] = ?p @ [0x80] @ drop (n + 1) buf"
    by (simp add: memcpy_at_def h(4))
  show ?thesis
  proof (cases "n + 1 > B - length lenf")
    case False
    let ?z = "replicate (B - (n + 1 + length lenf)) (0 :: u8)"
    let ?blk = "?p @ [0x80] @ ?z @ lenf"
    have len: "length ?blk = B" using False p assms(2) by simp
    have "fst (md_finish B cf h buf n lenf) = cf h ?blk"
      using False p h(1) assms(2) unfolding md_finish_def Let_def b1
      by (simp add: memset_at_def memcpy_at_def add.commute)
    also have "\<dots> = absorb B cf iv (m @ [0x80] @ ?z @ lenf)"
      unfolding split by (rule absorb_one [OF B_pos len, symmetric])
    also have "m @ [0x80] @ ?z @ lenf = md_pad B lenf m"
      using False h(5) assms(2) by (simp add: md_pad_def Let_def)
    finally show ?thesis .
  next
    case True
    let ?z1 = "replicate (B - (n + 1)) (0 :: u8)"
    let ?z2 = "replicate (B - length lenf) (0 :: u8)"
    let ?blk1 = "?p @ [0x80] @ ?z1" and ?blk2 = "?z2 @ lenf"
    have len: "length ?blk1 = B" "length ?blk2 = B" using p h(2) assms(2) by simp_all
    have "fst (md_finish B cf h buf n lenf) = cf (cf h ?blk1) ?blk2"
      using True p h(1,2) assms(2) unfolding md_finish_def Let_def b1
      by (simp add: memset_at_def memcpy_at_def)
    also have "\<dots> = absorb B cf iv (m @ [0x80] @ ?z1 @ ?z2 @ lenf)"
      unfolding split using absorb_block [OF B_pos len(1), of cf h ?blk2]
        absorb_one [OF B_pos len(2), of cf "cf h ?blk1"] by simp
    also have "m @ [0x80] @ ?z1 @ ?z2 @ lenf = md_pad B lenf m"
    proof -
      have "\<not> length m mod B + 1 + length lenf \<le> B" using True h(5) by simp
      then have "md_pad B lenf m = m @ [0x80] @ replicate (2 * B - (n + 1 + length lenf)) 0 @ lenf"
        using h(5) by (simp add: md_pad_def Let_def)
      also have "2 * B - (n + 1 + length lenf) = (B - (n + 1)) + (B - length lenf)"
        using h(2) assms(2) by simp
      finally show ?thesis by (simp add: replicate_add)
    qed
    finally show ?thesis .
  qed
qed

text \<open>The same for a whole context, with the length it counts.\<close>

definition ctx_absorbed :: "('w, 'z) md_ctx_scheme \<Rightarrow> bytes \<Rightarrow> bool" where
  "ctx_absorbed s m \<longleftrightarrow> holds (ctx_h s) (ctx_buf s) (ctx_buf_len s) m
     \<and> ctx_len s = word_of_nat (length m)"

lemma ctx_absorbed_init:
  "length (ctx_buf s) = B \<Longrightarrow> ctx_h s = iv \<Longrightarrow> ctx_len s = 0 \<Longrightarrow> ctx_buf_len s = 0 \<Longrightarrow>
   ctx_absorbed s []"
  by (simp add: ctx_absorbed_def holds_init)

lemma ctx_absorbed_update:
  assumes "ctx_absorbed s m"
  shows "ctx_absorbed (md_update B cf s d) (m @ d)"
proof (cases "d = [] \<or> ctx_buf_len s + length d < B")
  case True
  then show ?thesis
    using assms holds_buffer [of "ctx_h s" "ctx_buf s" "ctx_buf_len s" m d]
    by (auto simp: md_update_def ctx_absorbed_def Let_def)
next
  case False
  obtain h2 off2 where l: "md_loop B cf (cf (ctx_h s) (memcpy_at (ctx_buf s) (ctx_buf_len s)
      (take (B - ctx_buf_len s) d))) d (B - ctx_buf_len s) = (h2, off2)"
    by fastforce
  show ?thesis
    using assms False holds_blocks [OF _ _ refl refl l]
    by (auto simp: md_update_def ctx_absorbed_def Let_def l)
qed

lemma length_md_finish:
  assumes "length buf = B" "n < B" "length lenf < B"
  shows "length (snd (md_finish B cf h buf n lenf)) = B"
  using assms by (simp add: md_finish_def Let_def memset_at_def memcpy_at_def)

lemma ctx_absorbed_raw:
  assumes "ctx_absorbed s m" "length lenf < B"
  shows "length (snd (md_finish B cf (ctx_h s) (ctx_buf s) (ctx_buf_len s) lenf)) = B"
  using assms holdsD by (intro length_md_finish) (auto simp: ctx_absorbed_def)

lemma ctx_absorbed_finish:
  assumes "ctx_absorbed s m" "length lenf < B"
  shows "fst (md_finish B cf (ctx_h s) (ctx_buf s) (ctx_buf_len s) lenf)
    = absorb B cf iv (md_pad B lenf m)"
  using assms by (auto simp: ctx_absorbed_def intro: holds_finish)

end

section \<open>The contract of a streaming hash function\<close>

text \<open>
  \<open>absorbed s m\<close>: the context \<open>s\<close> has read \<open>m\<close>. A provider shows that its
  initialisation, update and final functions keep to this reading; \<open>hash\<close> is then the hash
  of the message as one function, and a user may feed the message in any pieces.
\<close>

locale streaming_hash =
  fixes init :: "'s \<Rightarrow> 's" and update :: "'s \<Rightarrow> bytes \<Rightarrow> 's" and final :: "'s \<Rightarrow> 's \<times> bytes"
    and raw :: "'s \<Rightarrow> bool" and absorbed :: "'s \<Rightarrow> bytes \<Rightarrow> bool"
    and hash :: "bytes \<Rightarrow> bytes" and dlen :: nat
  assumes absorbed_init: "raw s \<Longrightarrow> absorbed (init s) []"
    and absorbed_update: "absorbed s m \<Longrightarrow> absorbed (update s d) (m @ d)"
    and final_hash: "absorbed s m \<Longrightarrow> snd (final s) = hash m"
    and final_raw: "absorbed s m \<Longrightarrow> raw (fst (final s))"
    and length_hash: "length (hash m) = dlen"
begin

lemma absorbed_fold: "absorbed s m \<Longrightarrow> absorbed (foldl update s ds) (m @ concat ds)"
proof (induction ds arbitrary: s m)
  case (Cons d ds)
  from Cons.IH [OF absorbed_update [OF Cons.prems, of d]] show ?case by simp
qed simp

lemma final_fold: "raw s \<Longrightarrow> snd (final (foldl update (init s) ds)) = hash (concat ds)"
  using absorbed_fold [OF absorbed_init, of s ds] by (auto intro: final_hash)

lemma final_update1: "raw s \<Longrightarrow> snd (final (update (init s) a)) = hash a"
  using final_fold [of s "[a]"] by simp

lemma final_update2: "raw s \<Longrightarrow> snd (final (update (update (init s) a) b)) = hash (a @ b)"
  using final_fold [of s "[a, b]"] by simp

lemma final_update3:
  "raw s \<Longrightarrow> snd (final (update (update (update (init s) a) b) c)) = hash (a @ b @ c)"
  using final_fold [of s "[a, b, c]"] by simp

lemma final_init: "raw s \<Longrightarrow> snd (final (init s)) = hash []"
  using final_fold [of s "[]"] by simp

text \<open>The context may be initialised again after its digest has been taken.\<close>

lemma run1: "raw s \<Longrightarrow> \<exists>s'. final (update (init s) a) = (s', hash a) \<and> raw s'"
  using absorbed_update [OF absorbed_init, of s a] final_hash final_raw
  by (metis append_Nil fst_conv prod.collapse)

lemma run2: "raw s \<Longrightarrow> \<exists>s'. final (update (update (init s) a) b) = (s', hash (a @ b)) \<and> raw s'"
  using absorbed_update [OF absorbed_update [OF absorbed_init], of s a b] final_hash final_raw
  by (metis append_Nil fst_conv prod.collapse)

lemmas final_simps = final_init final_update1 final_update2 final_update3 length_hash

end

end
