(* ===== verification/Sha1.thy ===== *)
theory Sha1
  imports MdStream
begin

text \<open>
  SHA-1: \<open>src/sha1.cpp\<close> and the one-shot function of \<open>include/sha1.hpp\<close>, in a
  build without the ARMv8 and AVX transforms.
\<close>

section \<open>The compression function\<close>

text \<open>The table \<open>K[80]\<close>: four constants, twenty entries each.\<close>

definition sha1_K :: "u32 list" where
  "sha1_K = replicate 20 0x5A827999 @ replicate 20 0x6ED9EBA1 @ replicate 20 0x8F1BBCDC
     @ replicate 20 0xCA62C1D6"

definition sha1_schedule :: "bytes \<Rightarrow> u32 list" where
  "sha1_schedule data =
     foldl (\<lambda>w i. w @ [rol32 (w ! (i - 3) XOR w ! (i - 8) XOR w ! (i - 14) XOR w ! (i - 16)) 1])
       (map (\<lambda>i. load_be32 data (i * 4)) [0..<16]) [16..<80]"

definition sha1_round ::
  "u32 list \<Rightarrow> u32 \<times> u32 \<times> u32 \<times> u32 \<times> u32 \<Rightarrow> nat \<Rightarrow> u32 \<times> u32 \<times> u32 \<times> u32 \<times> u32" where
  "sha1_round w v i =
     (let (a, b, c, d, e) = v;
          f = (if i < 20 then (b AND c) OR (NOT b AND d)
               else if i < 40 then b XOR c XOR d
               else if i < 60 then (b AND c) OR (b AND d) OR (c AND d)
               else b XOR c XOR d);
          t = rol32 a 5 + f + e + sha1_K ! i + w ! i
      in (t, a, rol32 b 30, c, d))"

definition sha1_transform :: "u32 list \<Rightarrow> bytes \<Rightarrow> u32 list" where
  "sha1_transform h data =
     (let (a, b, c, d, e) =
            foldl (sha1_round (sha1_schedule data)) (h ! 0, h ! 1, h ! 2, h ! 3, h ! 4) [0..<80]
      in [h ! 0 + a, h ! 1 + b, h ! 2 + c, h ! 3 + d, h ! 4 + e])"

section \<open>The streaming interface\<close>

type_synonym sha1_ctx = "u32 md_ctx"

definition sha1_iv :: "u32 list" where
  "sha1_iv = [0x67452301, 0xEFCDAB89, 0x98BADCFE, 0x10325476, 0xC3D2E1F0]"

definition sha1_init :: "sha1_ctx \<Rightarrow> sha1_ctx" where
  "sha1_init ctx = ctx\<lparr>ctx_h := sha1_iv, ctx_len := 0, ctx_buf_len := 0\<rparr>"

definition sha1_update :: "sha1_ctx \<Rightarrow> bytes \<Rightarrow> sha1_ctx" where
  "sha1_update ctx data =
     (if data = [] then ctx
      else
        let ctx = ctx\<lparr>ctx_len := ctx_len ctx + word_of_nat (length data)\<rparr>;
            n = ctx_buf_len ctx
        in if n + length data < 64 then
             ctx\<lparr>ctx_buf := memcpy_at (ctx_buf ctx) n data, ctx_buf_len := n + length data\<rparr>
           else
             let off = 64 - n;
                 buf = memcpy_at (ctx_buf ctx) n (take off data);
                 h = sha1_transform (ctx_h ctx) buf;
                 (h, off) = md_loop 64 sha1_transform h data off
             in ctx\<lparr>ctx_h := h, ctx_buf_len := length data - off,
                    ctx_buf := memcpy_at buf 0 (drop off data)\<rparr>)"

definition sha1_finalize_tail :: "sha1_ctx \<Rightarrow> sha1_ctx" where
  "sha1_finalize_tail ctx =
     (let bits = ctx_len ctx * 8;
          (h, buf) = md_finish 64 sha1_transform (ctx_h ctx) (ctx_buf ctx) (ctx_buf_len ctx)
            (store_be64 bits)
      in ctx\<lparr>ctx_h := h, ctx_buf := buf, ctx_buf_len := 64\<rparr>)"

definition sha1_final :: "sha1_ctx \<Rightarrow> sha1_ctx \<times> bytes" where
  "sha1_final ctx =
     (let ctx = sha1_finalize_tail ctx in (ctx, concat (map store_be32 (ctx_h ctx))))"

definition sha1 :: "bytes \<Rightarrow> bytes" where
  "sha1 data =
     (let ctx = sha1_init \<lparr>ctx_h = [], ctx_len = 0, ctx_buf = replicate 64 0, ctx_buf_len = 0\<rparr>;
          ctx = (if data \<noteq> [] then sha1_update ctx data else ctx)
      in snd (sha1_final ctx))"

text \<open>\<open>sha1_batch\<close> of messages of equal length, through its scalar loop.\<close>

definition sha1_batch :: "bytes list \<Rightarrow> bytes" where
  "sha1_batch msgs = concat (map sha1 msgs)"

section \<open>The contract\<close>

definition sha1_spec :: "bytes \<Rightarrow> bytes" where
  "sha1_spec m = concat (map store_be32
     (absorb 64 sha1_transform sha1_iv (md_pad 64 (store_be64 (word_of_nat (length m) * 8)) m)))"

interpretation sha1_md: md_stream 64 sha1_transform sha1_iv
  by unfold_locales simp

lemma sha1_update_md: "sha1_update = md_update 64 sha1_transform"
  by (intro ext) (simp add: sha1_update_def md_update_def)

lemma length_sha1_transform: "length (sha1_transform h d) = 5"
  by (simp add: sha1_transform_def split: prod.split)

interpretation sha1_stream: streaming_hash sha1_init sha1_update sha1_final
  "\<lambda>s. length (ctx_buf s) = 64" sha1_md.ctx_absorbed sha1_spec 20
proof unfold_locales
  show "length (ctx_buf s) = 64 \<Longrightarrow> sha1_md.ctx_absorbed (sha1_init s) []" for s :: sha1_ctx
    by (rule sha1_md.ctx_absorbed_init) (simp_all add: sha1_init_def)
  show "sha1_md.ctx_absorbed s m \<Longrightarrow> sha1_md.ctx_absorbed (sha1_update s d) (m @ d)"
    for s :: sha1_ctx and m d
    unfolding sha1_update_md by (rule sha1_md.ctx_absorbed_update)
  show "sha1_md.ctx_absorbed s m \<Longrightarrow> snd (sha1_final s) = sha1_spec m" for s :: sha1_ctx and m
    using sha1_md.ctx_absorbed_finish [of s m "store_be64 (ctx_len s * 8)"]
    by (auto simp: sha1_final_def sha1_finalize_tail_def sha1_spec_def sha1_md.ctx_absorbed_def
        Let_def split: prod.splits)
  show "sha1_md.ctx_absorbed s m \<Longrightarrow> length (ctx_buf (fst (sha1_final s))) = 64"
    for s :: sha1_ctx and m
    using sha1_md.ctx_absorbed_raw [of s m "store_be64 (ctx_len s * 8)"]
    by (simp add: sha1_final_def sha1_finalize_tail_def Let_def case_prod_beta)
  show "length (sha1_spec m) = 20" for m
    by (simp add: sha1_spec_def length_concat_const [where k = 4]
        length_absorb_iv [where n = 5] length_sha1_transform sha1_iv_def)
qed

lemma sha1_eq_spec: "sha1 m = sha1_spec m"
proof -
  define c :: sha1_ctx
    where "c = \<lparr>ctx_h = [], ctx_len = 0, ctx_buf = replicate 64 0, ctx_buf_len = 0\<rparr>"
  have raw: "length (ctx_buf c) = 64" by (simp add: c_def)
  show ?thesis
    unfolding sha1_def Let_def c_def [symmetric]
    using sha1_stream.final_init [OF raw] sha1_stream.final_update1 [OF raw, of m] by simp
qed

text \<open>
  C34. The pieces a message is fed to \<open>sha1_update\<close> in do not matter: \<open>sha1_final\<close>
  returns the twenty bytes of the SHA-1 of the whole message.
\<close>

theorem sha1_streaming:
  assumes "length (ctx_buf ctx) = 64"
  shows "snd (sha1_final (foldl sha1_update (sha1_init ctx) pieces)) = sha1 (concat pieces)
    \<and> sha1 (concat pieces) = sha1_spec (concat pieces) \<and> length (sha1 (concat pieces)) = 20"
  using sha1_stream.final_fold [OF assms, of pieces] sha1_stream.length_hash
  by (simp add: sha1_eq_spec)

theorem sha1_streaming_witness:
  "snd (sha1_final (foldl sha1_update (sha1_init
     \<lparr>ctx_h = [], ctx_len = 7, ctx_buf = replicate 64 9, ctx_buf_len = 3\<rparr>) [[97], [], [98, 99]]))
   = sha1 [97, 98, 99]"
  using sha1_streaming [of "\<lparr>ctx_h = [], ctx_len = 7, ctx_buf = replicate 64 9, ctx_buf_len = 3\<rparr>"
      "[[97], [], [98, 99]]"]
  by simp

end
