(* ===== verification/Sha3.thy ===== *)
theory Sha3
  imports MdStream
begin

text \<open>
  SHA-3 and SHAKE: \<open>src/sha3.cpp\<close> on a little-endian host, where the cast of the
  state to bytes puts byte \<open>8 j + k\<close> at bits \<open>8 k\<close> of word \<open>j\<close>, and with
  \<open>keccak_f1600_ptr\<close> the scalar permutation. Every rate is a multiple of eight, so a block
  is added to the state word by word.
\<close>

section \<open>The permutation\<close>

definition RC :: "u64 list" where
  "RC = [
    0x0000000000000001, 0x0000000000008082, 0x800000000000808A, 0x8000000080008000,
    0x000000000000808B, 0x0000000080000001, 0x8000000080008081, 0x8000000000008009,
    0x000000000000008A, 0x0000000000000088, 0x0000000080008009, 0x000000008000000A,
    0x000000008000808B, 0x800000000000008B, 0x8000000000008089, 0x8000000000008003,
    0x8000000000008002, 0x8000000000000080, 0x000000000000800A, 0x800000008000000A,
    0x8000000080008081, 0x8000000000008080, 0x0000000080000001, 0x8000000080008008]"

definition ROTS :: "nat list list" where
  "ROTS = [[0, 36, 3, 41, 18], [1, 44, 10, 45, 2], [62, 6, 43, 15, 61], [28, 55, 25, 21, 56],
     [27, 20, 39, 8, 14]]"

definition keccak_round :: "u64 list \<Rightarrow> nat \<Rightarrow> u64 list" where
  "keccak_round s r =
     (let C = map (\<lambda>x. s ! x XOR s ! (x + 5) XOR s ! (x + 10) XOR s ! (x + 15) XOR s ! (x + 20)) [0..<5];
          D = map (\<lambda>x. C ! ((x + 4) mod 5) XOR rol64 (C ! ((x + 1) mod 5)) 1) [0..<5];
          s = map (\<lambda>i. s ! i XOR D ! (i mod 5)) [0..<25];
          b = foldl (\<lambda>b i.
                let x = i mod 5; y = i div 5; nx = y; ny = (2 * x + 3 * y) mod 5;
                    v = s ! (x + 5 * y); rot = ROTS ! x ! y
                in b[nx + 5 * ny := (if rot \<noteq> 0 then rol64 v rot else v)])
              (replicate 25 0) [0..<25];
          s = map (\<lambda>i.
                let x = i mod 5; y = i div 5
                in b ! i XOR (NOT (b ! ((x + 1) mod 5 + 5 * y)) AND b ! ((x + 2) mod 5 + 5 * y))) [0..<25]
      in s[0 := s ! 0 XOR RC ! r])"

definition keccak_f1600 :: "u64 list \<Rightarrow> u64 list" where
  "keccak_f1600 s = foldl keccak_round s [0..<24]"

text \<open>\<open>st[i] ^= blk[i]\<close> for the bytes of a block, then the permutation.\<close>

definition xor_block :: "u64 list \<Rightarrow> bytes \<Rightarrow> u64 list" where
  "xor_block st blk =
     map (\<lambda>j. if 8 * j + 8 \<le> length blk then st ! j XOR load_le64 blk (8 * j) else st ! j) [0..<25]"

definition keccak_block :: "u64 list \<Rightarrow> bytes \<Rightarrow> u64 list" where
  "keccak_block st blk = keccak_f1600 (xor_block st blk)"

definition state_bytes :: "u64 list \<Rightarrow> bytes" where
  "state_bytes st = concat (map store_le64 st)"

section \<open>SHA-3\<close>

record sha3_ctx =
  k_state :: "u64 list"
  k_buf :: bytes
  k_rate :: nat
  k_output_len :: nat
  k_buf_len :: nat

text \<open>The initialisations clear the whole struct.\<close>

definition sha3_zero :: sha3_ctx where
  "sha3_zero = \<lparr>k_state = replicate 25 0, k_buf = replicate 200 0, k_rate = 0, k_output_len = 0,
     k_buf_len = 0\<rparr>"

definition sha3_256_init :: "sha3_ctx \<Rightarrow> sha3_ctx" where
  "sha3_256_init ctx = sha3_zero\<lparr>k_rate := 136, k_output_len := 32\<rparr>"

definition sha3_384_init :: "sha3_ctx \<Rightarrow> sha3_ctx" where
  "sha3_384_init ctx = sha3_zero\<lparr>k_rate := 104, k_output_len := 48\<rparr>"

definition sha3_512_init :: "sha3_ctx \<Rightarrow> sha3_ctx" where
  "sha3_512_init ctx = sha3_zero\<lparr>k_rate := 72, k_output_len := 64\<rparr>"

definition keccak_absorb :: "sha3_ctx \<Rightarrow> sha3_ctx" where
  "keccak_absorb ctx =
     ctx\<lparr>k_state := keccak_block (k_state ctx) (take (k_rate ctx) (k_buf ctx))\<rparr>"

definition sha3_update :: "sha3_ctx \<Rightarrow> bytes \<Rightarrow> sha3_ctx" where
  "sha3_update ctx data =
     (if data = [] then ctx
      else
        let rate = k_rate ctx;
            (ctx, data) =
              (if k_buf_len ctx > 0 then
                 let space = rate - k_buf_len ctx;
                     copy = (if length data < space then length data else space);
                     ctx = ctx\<lparr>k_buf := memcpy_at (k_buf ctx) (k_buf_len ctx) (take copy data),
                               k_buf_len := k_buf_len ctx + copy\<rparr>;
                     data = drop copy data
                 in if k_buf_len ctx = rate then ((keccak_absorb ctx)\<lparr>k_buf_len := 0\<rparr>, data)
                    else (ctx, data)
               else (ctx, data));
            (st, rest) = md_drain rate keccak_block (k_state ctx) data;
            ctx = ctx\<lparr>k_state := st\<rparr>
        in if rest \<noteq> [] then ctx\<lparr>k_buf := memcpy_at (k_buf ctx) 0 rest, k_buf_len := length rest\<rparr>
           else ctx)"

text \<open>
  The padding: \<open>0x06\<close> after the data, zeros while there is room before the last byte of the
  block, and \<open>0x80\<close> \<^emph>\<open>stored\<close> in the last byte.
\<close>

definition sha3_final :: "sha3_ctx \<Rightarrow> sha3_ctx \<times> bytes" where
  "sha3_final ctx =
     (let rate = k_rate ctx;
          buf = (k_buf ctx)[k_buf_len ctx := 0x06];
          n = k_buf_len ctx + 1;
          buf = memset_at buf n (rate - 1 - n) 0;
          buf = buf[rate - 1 := 0x80];
          st = keccak_block (k_state ctx) (take rate buf)
      in (ctx\<lparr>k_state := st, k_buf := buf, k_buf_len := max n (rate - 1)\<rparr>,
          take (k_output_len ctx) (state_bytes st)))"

section \<open>The reference\<close>

text \<open>
  FIPS 202: a message is padded with the domain bits and \<open>pad10*1\<close>, which is \<open>dsep\<close>,
  zeros and \<open>0x80\<close>, or the single byte \<open>dsep OR 0x80\<close> where one byte is missing.
  \<open>stored_pad\<close> is what the code does: the two writes in one byte leave only the second.
\<close>

definition pad10star1 :: "u8 \<Rightarrow> nat \<Rightarrow> bytes \<Rightarrow> bytes" where
  "pad10star1 dsep rate m =
     (let q = rate - length m mod rate
      in m @ (if q = 1 then [dsep OR 0x80] else dsep # replicate (q - 2) 0 @ [0x80]))"

definition stored_pad :: "u8 \<Rightarrow> nat \<Rightarrow> bytes \<Rightarrow> bytes" where
  "stored_pad dsep rate m =
     (let q = rate - length m mod rate
      in m @ (if q = 1 then [0x80] else dsep # replicate (q - 2) 0 @ [0x80]))"

definition sponge :: "nat \<Rightarrow> nat \<Rightarrow> bytes \<Rightarrow> bytes" where
  "sponge rate out p = take out (state_bytes (absorb rate keccak_block (replicate 25 0) p))"

lemma stored_pad_eq_pad10star1:
  "length m mod rate \<noteq> rate - 1 \<Longrightarrow> 0 < rate \<Longrightarrow> stored_pad dsep rate m = pad10star1 dsep rate m"
proof -
  assume "length m mod rate \<noteq> rate - 1" "0 < rate"
  then have "rate - length m mod rate \<noteq> 1"
    using mod_less_divisor [of rate "length m"] by linarith
  then show ?thesis by (simp only: stored_pad_def pad10star1_def Let_def if_False)
qed

section \<open>The streaming contract\<close>

text \<open>
  A context has read a message: the buffer invariant of \<open>md_stream\<close>, on the first
  \<open>rate\<close> bytes of the 200-byte buffer.
\<close>

locale keccak_sponge = md_stream rate keccak_block "replicate 25 0" for rate :: nat +
  assumes rate_bounds: "2 \<le> rate" "rate \<le> 200"
begin

definition k_holds :: "sha3_ctx \<Rightarrow> bytes \<Rightarrow> bool" where
  "k_holds s m \<longleftrightarrow> k_rate s = rate \<and> length (k_buf s) = 200
     \<and> holds (k_state s) (take rate (k_buf s)) (k_buf_len s) m"

lemma k_holds_zero: "k_holds (sha3_zero\<lparr>k_rate := rate, k_output_len := out\<rparr>) []"
  using rate_bounds by (simp add: k_holds_def sha3_zero_def holds_init)

lemma drain_holds:
  assumes "holds h (take rate buf) 0 m" "length buf = 200" "md_drain rate keccak_block h d = (h', rest)"
  shows "if rest \<noteq> [] then holds h' (take rate (memcpy_at buf 0 rest)) (length rest) (m @ d)
    else holds h' (take rate buf) 0 (m @ d)"
proof -
  have r: "rest = partial_block rate d" "h' = absorb rate keccak_block h d"
    using assms(3) md_drain_eq [OF B_pos, of keccak_block h d] by simp_all
  then have l: "length rest < rate" using B_pos by simp
  have "holds h' (memcpy_at (take rate buf) 0 rest) (length rest) (m @ d)"
    using holds_aligned [OF assms(1), of d] r by simp
  moreover have "take rate (memcpy_at buf 0 rest) = memcpy_at (take rate buf) 0 rest"
    using l rate_bounds assms(2) by (intro take_memcpy_prefix) simp_all
  ultimately show ?thesis by (auto simp: memcpy_at_def)
qed

lemma update_holds:
  assumes "k_holds s m"
  shows "k_holds (sha3_update s d) (m @ d) \<and> k_output_len (sha3_update s d) = k_output_len s"
proof -
  let ?n = "k_buf_len s"
  have h: "holds (k_state s) (take rate (k_buf s)) ?n m" and len: "length (k_buf s) = 200"
    and r: "k_rate s = rate"
    using assms by (auto simp: k_holds_def)
  have n: "?n < rate" using holdsD(2) [OF h] .
  have cp: "take rate (memcpy_at (k_buf s) ?n x) = memcpy_at (take rate (k_buf s)) ?n x"
    if "?n + length x \<le> rate" for x
    using that rate_bounds len by (intro take_memcpy_prefix) simp_all
  consider "d = []" | "d \<noteq> []" "?n = 0" | "0 < ?n" "?n + length d < rate" "d \<noteq> []"
    | "0 < ?n" "rate \<le> ?n + length d" "d \<noteq> []" by linarith
  then show ?thesis
  proof cases
    case 1
    with assms show ?thesis by (simp add: sha3_update_def)
  next
    case 2
    obtain h' rest where dr: "md_drain rate keccak_block (k_state s) d = (h', rest)" by fastforce
    have "length rest \<le> 200" using dr B_pos rate_bounds md_drain_eq [OF B_pos]
      by (metis length_partial_block mod_less_divisor less_imp_le order_trans snd_conv)
    with drain_holds [OF _ len dr] h 2 r len show ?thesis
      by (auto simp: sha3_update_def k_holds_def Let_def dr split: if_splits)
  next
    case 3
    have "length d < rate - ?n" using 3 by simp
    with holds_buffer [OF h 3(2)] 3 n r len rate_bounds show ?thesis
      by (simp add: sha3_update_def k_holds_def Let_def md_drain_eq [OF B_pos] absorb_short
          partial_block_short cp)
  next
    case 4
    let ?k = "rate - ?n"
    define buf where "buf = memcpy_at (k_buf s) ?n (take ?k d)"
    have tb: "take rate buf = memcpy_at (take rate (k_buf s)) ?n (take ?k d)"
      unfolding buf_def using 4 n by (intro cp) simp
    have lb: "length buf = 200"
      unfolding buf_def using 4 n len rate_bounds by (subst length_memcpy_at) simp_all
    have "holds (keccak_block (k_state s) (take rate buf)) (take rate buf) 0 (m @ take ?k d)"
      unfolding tb using 4 n by (intro holds_fill [OF h]) simp
    moreover obtain h' rest where dr:
      "md_drain rate keccak_block (keccak_block (k_state s) (take rate buf)) (drop ?k d) = (h', rest)"
      by fastforce
    ultimately have "if rest \<noteq> []
        then holds h' (take rate (memcpy_at buf 0 rest)) (length rest) (m @ d)
        else holds h' (take rate buf) 0 (m @ d)"
      using drain_holds [OF _ lb dr] by fastforce
    moreover have "length rest \<le> 200" using dr B_pos rate_bounds md_drain_eq [OF B_pos]
      by (metis length_partial_block mod_less_divisor less_imp_le order_trans snd_conv)
    moreover have c: "(if length d < ?k then length d else ?k) = ?k" using 4 by auto
    ultimately show ?thesis
      using 4 n r len dr lb
      by (auto simp: sha3_update_def k_holds_def Let_def keccak_absorb_def buf_def c
          split: if_splits)
  qed
qed

lemma final_holds:
  assumes "k_holds s m"
  shows "snd (sha3_final s) = sponge rate (k_output_len s) (stored_pad 0x06 rate m)"
proof -
  let ?n = "k_buf_len s" and ?p = "partial_block rate m"
  have h: "holds (k_state s) (take rate (k_buf s)) ?n m" and len: "length (k_buf s) = 200"
    and r: "k_rate s = rate"
    using assms by (auto simp: k_holds_def)
  note hd = holdsD [OF h]
  have p: "length ?p = ?n" using hd(5) by simp
  define tl where "tl = (if rate - ?n = 1 then [0x80] else (0x06 :: u8) # replicate (rate - ?n - 2) 0 @ [0x80])"
  have len1: "length (?p @ tl) = rate"
    using p hd(2) by (auto simp: tl_def)
  have buf: "take rate ((memset_at ((k_buf s)[?n := 0x06]) (?n + 1) (rate - 1 - (?n + 1)) 0)[rate - 1 := 0x80])
      = ?p @ tl" (is "take rate ?b = _")
  proof (rule nth_equalityI)
    have lb: "length ?b = 200"
      using len hd(2) rate_bounds by (cases "?n + 1 \<le> rate - 1") (simp_all add: memset_at_def memcpy_at_def)
    then show "length (take rate ?b) = length (?p @ tl)"
      using len1 rate_bounds by simp
    fix i
    assume "i < length (take rate ?b)"
    then have i: "i < rate" using lb by simp
    have pn: "k_buf s ! i = ?p ! i" if "i < ?n"
      using hd(4) that i by (metis nth_take)
    show "take rate ?b ! i = (?p @ tl) ! i"
      using i len p hd(2) rate_bounds pn
      by (auto simp: memset_at_def memcpy_at_def nth_append nth_list_update tl_def nth_Cons' )
  qed
  have pad: "stored_pad 0x06 rate m = m @ tl"
    using hd(5) by (simp add: stored_pad_def tl_def Let_def)
  have "absorb rate keccak_block (replicate 25 0) (m @ tl) = keccak_block (k_state s) (?p @ tl)"
    using absorb_append [OF B_pos, of keccak_block _ m tl] absorb_one [OF B_pos len1] hd(3) by simp
  then show ?thesis
    unfolding sha3_final_def Let_def r snd_conv buf sponge_def pad by simp
qed

end

interpretation sp136: keccak_sponge 136 by unfold_locales simp_all
interpretation sp104: keccak_sponge 104 by unfold_locales simp_all
interpretation sp72: keccak_sponge 72 by unfold_locales simp_all
interpretation sp168: keccak_sponge 168 by unfold_locales simp_all

lemma length_store_list_le64 [simp]: "length (state_bytes st) = 8 * length st"
  by (simp add: state_bytes_def length_concat_const [where k = 8])

lemma length_keccak_round: "length (keccak_round s r) = 25"
  by (simp add: keccak_round_def Let_def)

lemma length_keccak_block: "length (keccak_block st b) = 25"
proof -
  have "[0..<24] = [0..<23] @ [23]" by (simp add: upt_rec)
  then show ?thesis
    unfolding keccak_block_def keccak_f1600_def by (simp add: length_keccak_round del: upt_Suc)
qed

lemma length_sponge:
  "0 < rate \<Longrightarrow> out \<le> 200 \<Longrightarrow> length (sponge rate out p) = out"
  by (simp add: sponge_def length_absorb_iv [where n = 25] length_keccak_block)

text \<open>The digest of a whole message, and the three initialisations as providers.\<close>

definition sha3_spec :: "nat \<Rightarrow> nat \<Rightarrow> bytes \<Rightarrow> bytes" where
  "sha3_spec rate out m = sponge rate out (stored_pad 0x06 rate m)"

interpretation sha3_256_stream: streaming_hash sha3_256_init sha3_update sha3_final "\<lambda>s. True"
  "\<lambda>s m. sp136.k_holds s m \<and> k_output_len s = 32" "sha3_spec 136 32" 32
  by unfold_locales
    (auto simp: sha3_256_init_def sha3_spec_def length_sponge sp136.final_holds
      sp136.update_holds intro!: sp136.k_holds_zero simp del: length_0_conv)

interpretation sha3_384_stream: streaming_hash sha3_384_init sha3_update sha3_final "\<lambda>s. True"
  "\<lambda>s m. sp104.k_holds s m \<and> k_output_len s = 48" "sha3_spec 104 48" 48
  by unfold_locales
    (auto simp: sha3_384_init_def sha3_spec_def length_sponge sp104.final_holds
      sp104.update_holds intro!: sp104.k_holds_zero simp del: length_0_conv)

interpretation sha3_512_stream: streaming_hash sha3_512_init sha3_update sha3_final "\<lambda>s. True"
  "\<lambda>s m. sp72.k_holds s m \<and> k_output_len s = 64" "sha3_spec 72 64" 64
  by unfold_locales
    (auto simp: sha3_512_init_def sha3_spec_def length_sponge sp72.final_holds
      sp72.update_holds intro!: sp72.k_holds_zero simp del: length_0_conv)

section \<open>Properties\<close>

lemma stored_pad_collision:
  assumes "length m mod rate = rate - 2" "2 \<le> rate"
  shows "stored_pad dsep rate (m @ [dsep]) = stored_pad dsep rate m"
proof -
  have q: "rate - length m mod rate = 2" using assms by simp
  have "length (m @ [dsep]) mod rate = rate - 1"
    using assms by (auto simp: mod_Suc)
  then have "rate - length (m @ [dsep]) mod rate = 1" using assms by simp
  with q show ?thesis by (simp add: stored_pad_def Let_def)
qed

text \<open>
  The streaming SHA3-256 returns the FIPS 202 digest of the whole message, however it is
  cut into pieces, for every message whose length is not one byte short of a block.
\<close>

theorem sha3_256_streaming:
  assumes "length (concat pieces) mod 136 \<noteq> 135"
  shows "snd (sha3_final (foldl sha3_update (sha3_256_init ctx) pieces))
    = sponge 136 32 (pad10star1 0x06 136 (concat pieces))"
  using sha3_256_stream.final_fold [of ctx pieces] assms
  by (simp add: sha3_spec_def stored_pad_eq_pad10star1)

theorem sha3_256_streaming_witness:
  "snd (sha3_final (foldl sha3_update (sha3_256_init sha3_zero) [[97], [], [98, 99]]))
   = sponge 136 32 (pad10star1 0x06 136 [97, 98, 99])"
  using sha3_256_streaming [of "[[97], [], [98, 99]]" sha3_zero] by simp

text \<open>
  C40. SHA3-256 as coded has trivial collisions: when one byte is missing from the last
  block, \<open>sha3_final\<close> stores \<open>0x80\<close> over the \<open>0x06\<close> it has just stored, so a
  message two bytes short of a block and the same message with a \<open>0x06\<close> byte appended
  are padded to the same blocks.
\<close>

theorem sha3_256_collision:
  assumes "length m mod 136 = 134"
  shows "snd (sha3_final (sha3_update (sha3_256_init ctx) m))
    = snd (sha3_final (sha3_update (sha3_256_init ctx) (m @ [0x06])))"
  using sha3_256_stream.final_update1 [of ctx m] sha3_256_stream.final_update1 [of ctx "m @ [0x06]"]
    stored_pad_collision [of m 136 "0x06"] assms
  by (simp add: sha3_spec_def)

theorem sha3_256_collision_witness:
  "snd (sha3_final (sha3_update (sha3_256_init sha3_zero) (replicate 134 0)))
    = snd (sha3_final (sha3_update (sha3_256_init sha3_zero) (replicate 134 0 @ [0x06])))"
  by (rule sha3_256_collision) simp

end
