(* ===== verification/Sha256.thy ===== *)
theory Sha256
  imports MdStream
begin

text \<open>
  SHA-256: \<open>src/sha256.cpp\<close> and the one-shot function of \<open>include/sha256.hpp\<close>, in
  a build without the ARMv8 extensions (\<open>sha256_transform\<close> is then the scalar code). The
  context of \<open>sha256_init\<close> is the caller's uninitialised struct, so the model takes it as
  an argument: nothing about its buffer but the size is used.
\<close>

section \<open>The compression function\<close>

definition sha256_K :: "u32 list" where
  "sha256_K = [
    0x428A2F98, 0x71374491, 0xB5C0FBCF, 0xE9B5DBA5, 0x3956C25B, 0x59F111F1, 0x923F82A4, 0xAB1C5ED5,
    0xD807AA98, 0x12835B01, 0x243185BE, 0x550C7DC3, 0x72BE5D74, 0x80DEB1FE, 0x9BDC06A7, 0xC19BF174,
    0xE49B69C1, 0xEFBE4786, 0x0FC19DC6, 0x240CA1CC, 0x2DE92C6F, 0x4A7484AA, 0x5CB0A9DC, 0x76F988DA,
    0x983E5152, 0xA831C66D, 0xB00327C8, 0xBF597FC7, 0xC6E00BF3, 0xD5A79147, 0x06CA6351, 0x14292967,
    0x27B70A85, 0x2E1B2138, 0x4D2C6DFC, 0x53380D13, 0x650A7354, 0x766A0ABB, 0x81C2C92E, 0x92722C85,
    0xA2BFE8A1, 0xA81A664B, 0xC24B8B70, 0xC76C51A3, 0xD192E819, 0xD6990624, 0xF40E3585, 0x106AA070,
    0x19A4C116, 0x1E376C08, 0x2748774C, 0x34B0BCB5, 0x391C0CB3, 0x4ED8AA4A, 0x5B9CCA4F, 0x682E6FF3,
    0x748F82EE, 0x78A5636F, 0x84C87814, 0x8CC70208, 0x90BEFFFA, 0xA4506CEB, 0xBEF9A3F7, 0xC67178F2]"

definition S0 :: "u32 \<Rightarrow> u32" where "S0 x = ror32 x 2 XOR ror32 x 13 XOR ror32 x 22"
definition S1 :: "u32 \<Rightarrow> u32" where "S1 x = ror32 x 6 XOR ror32 x 11 XOR ror32 x 25"
definition s0 :: "u32 \<Rightarrow> u32" where "s0 x = ror32 x 7 XOR ror32 x 18 XOR drop_bit 3 x"
definition s1 :: "u32 \<Rightarrow> u32" where "s1 x = ror32 x 17 XOR ror32 x 19 XOR drop_bit 10 x"
definition CH :: "u32 \<Rightarrow> u32 \<Rightarrow> u32 \<Rightarrow> u32" where "CH x y z = (x AND y) XOR (NOT x AND z)"
definition MAJ :: "u32 \<Rightarrow> u32 \<Rightarrow> u32 \<Rightarrow> u32" where
  "MAJ x y z = (x AND y) XOR (x AND z) XOR (y AND z)"

text \<open>The message schedule \<open>w[0..64)\<close>, and one round on the eight working variables.\<close>

definition sha256_schedule :: "bytes \<Rightarrow> u32 list" where
  "sha256_schedule data =
     foldl (\<lambda>w i. w @ [s1 (w ! (i - 2)) + w ! (i - 7) + s0 (w ! (i - 15)) + w ! (i - 16)])
       (map (\<lambda>i. load_be32 data (4 * i)) [0..<16]) [16..<64]"

type_synonym sha256_vars = "u32 \<times> u32 \<times> u32 \<times> u32 \<times> u32 \<times> u32 \<times> u32 \<times> u32"

definition sha256_round :: "u32 list \<Rightarrow> sha256_vars \<Rightarrow> nat \<Rightarrow> sha256_vars" where
  "sha256_round w v i =
     (let (a, b, c, d, e, f, g, hh) = v;
          t1 = hh + S1 e + CH e f g + sha256_K ! i + w ! i;
          t2 = S0 a + MAJ a b c
      in (t1 + t2, a, b, c, d + t1, e, f, g))"

definition sha256_transform :: "u32 list \<Rightarrow> bytes \<Rightarrow> u32 list" where
  "sha256_transform h data =
     (let (a, b, c, d, e, f, g, hh) =
            foldl (sha256_round (sha256_schedule data))
              (h ! 0, h ! 1, h ! 2, h ! 3, h ! 4, h ! 5, h ! 6, h ! 7) [0..<64]
      in [h ! 0 + a, h ! 1 + b, h ! 2 + c, h ! 3 + d, h ! 4 + e, h ! 5 + f, h ! 6 + g, h ! 7 + hh])"

section \<open>The streaming interface\<close>

type_synonym sha256_ctx = "u32 md_ctx"

definition sha256_iv :: "u32 list" where
  "sha256_iv = [0x6A09E667, 0xBB67AE85, 0x3C6EF372, 0xA54FF53A, 0x510E527F, 0x9B05688C,
     0x1F83D9AB, 0x5BE0CD19]"

definition sha256_init :: "sha256_ctx \<Rightarrow> sha256_ctx" where
  "sha256_init ctx = ctx\<lparr>ctx_h := sha256_iv, ctx_len := 0, ctx_buf_len := 0\<rparr>"

definition sha256_update :: "sha256_ctx \<Rightarrow> bytes \<Rightarrow> sha256_ctx" where
  "sha256_update ctx data =
     (if data = [] then ctx
      else
        let ctx = ctx\<lparr>ctx_len := ctx_len ctx + word_of_nat (length data)\<rparr>;
            n = ctx_buf_len ctx
        in if n + length data < 64 then
             ctx\<lparr>ctx_buf := memcpy_at (ctx_buf ctx) n data, ctx_buf_len := n + length data\<rparr>
           else
             let off = 64 - n;
                 buf = memcpy_at (ctx_buf ctx) n (take off data);
                 h = sha256_transform (ctx_h ctx) buf;
                 (h, off) = md_loop 64 sha256_transform h data off
             in ctx\<lparr>ctx_h := h, ctx_buf_len := length data - off,
                    ctx_buf := memcpy_at buf 0 (drop off data)\<rparr>)"

text \<open>The digest is written byte by byte, the four bytes of each word from the top.\<close>

definition sha256_final :: "sha256_ctx \<Rightarrow> sha256_ctx \<times> bytes" where
  "sha256_final ctx =
     (let bits = ctx_len ctx * 8;
          (h, buf) = md_finish 64 sha256_transform (ctx_h ctx) (ctx_buf ctx) (ctx_buf_len ctx)
            (store_be64 bits)
      in (ctx\<lparr>ctx_h := h, ctx_buf := buf, ctx_buf_len := 64\<rparr>, concat (map store_be32 h)))"

definition sha256 :: "bytes \<Rightarrow> bytes" where
  "sha256 data =
     (let ctx = sha256_init \<lparr>ctx_h = [], ctx_len = 0, ctx_buf = replicate 64 0, ctx_buf_len = 0\<rparr>;
          ctx = (if data \<noteq> [] then sha256_update ctx data else ctx)
      in snd (sha256_final ctx))"

section \<open>The contract\<close>

text \<open>The hash of FIPS 180-4: pad, absorb block by block, write out.\<close>

definition sha256_spec :: "bytes \<Rightarrow> bytes" where
  "sha256_spec m = concat (map store_be32
     (absorb 64 sha256_transform sha256_iv (md_pad 64 (store_be64 (word_of_nat (length m) * 8)) m)))"

interpretation sha256_md: md_stream 64 sha256_transform sha256_iv
  by unfold_locales simp

lemma sha256_update_md: "sha256_update = md_update 64 sha256_transform"
  by (intro ext) (simp add: sha256_update_def md_update_def)

lemma length_sha256_transform: "length (sha256_transform h d) = 8"
  by (simp add: sha256_transform_def split: prod.split)

interpretation sha256_stream: streaming_hash sha256_init sha256_update sha256_final
  "\<lambda>s. length (ctx_buf s) = 64" sha256_md.ctx_absorbed sha256_spec 32
proof unfold_locales
  show "length (ctx_buf s) = 64 \<Longrightarrow> sha256_md.ctx_absorbed (sha256_init s) []" for s :: sha256_ctx
    by (rule sha256_md.ctx_absorbed_init) (simp_all add: sha256_init_def)
  show "sha256_md.ctx_absorbed s m \<Longrightarrow> sha256_md.ctx_absorbed (sha256_update s d) (m @ d)"
    for s :: sha256_ctx and m d
    unfolding sha256_update_md by (rule sha256_md.ctx_absorbed_update)
  show "sha256_md.ctx_absorbed s m \<Longrightarrow> snd (sha256_final s) = sha256_spec m"
    for s :: sha256_ctx and m
    using sha256_md.ctx_absorbed_finish [of s m "store_be64 (ctx_len s * 8)"]
    by (auto simp: sha256_final_def sha256_spec_def sha256_md.ctx_absorbed_def Let_def split: prod.splits)
  show "sha256_md.ctx_absorbed s m \<Longrightarrow> length (ctx_buf (fst (sha256_final s))) = 64"
    for s :: sha256_ctx and m
    using sha256_md.ctx_absorbed_raw [of s m "store_be64 (ctx_len s * 8)"]
    by (simp add: sha256_final_def Let_def case_prod_beta)
  show "length (sha256_spec m) = 32" for m
    by (simp add: sha256_spec_def length_concat_const [where k = 4]
        length_absorb_iv [where n = 8] length_sha256_transform sha256_iv_def)
qed

lemma sha256_eq_spec: "sha256 m = sha256_spec m"
proof -
  define c :: sha256_ctx
    where "c = \<lparr>ctx_h = [], ctx_len = 0, ctx_buf = replicate 64 0, ctx_buf_len = 0\<rparr>"
  have raw: "length (ctx_buf c) = 64" by (simp add: c_def)
  show ?thesis
    unfolding sha256_def Let_def c_def [symmetric]
    using sha256_stream.final_init [OF raw] sha256_stream.final_update1 [OF raw, of m] by simp
qed

text \<open>
  However a message is cut into pieces for \<open>sha256_update\<close>, and whatever the struct
  held before \<open>sha256_init\<close>, \<open>sha256_final\<close> returns the SHA-256 of the whole
  message: its padded form absorbed block by block, thirty-two bytes long.
\<close>

theorem sha256_streaming:
  assumes "length (ctx_buf ctx) = 64"
  shows "snd (sha256_final (foldl sha256_update (sha256_init ctx) pieces)) = sha256 (concat pieces)
    \<and> sha256 (concat pieces) = sha256_spec (concat pieces) \<and> length (sha256 (concat pieces)) = 32"
  using sha256_stream.final_fold [OF assms, of pieces] sha256_stream.length_hash
  by (simp add: sha256_eq_spec)

theorem sha256_streaming_witness:
  "snd (sha256_final (foldl sha256_update (sha256_init
     \<lparr>ctx_h = [], ctx_len = 7, ctx_buf = replicate 64 9, ctx_buf_len = 3\<rparr>) [[97], [], [98, 99]]))
   = sha256 [97, 98, 99]"
  using sha256_streaming [of "\<lparr>ctx_h = [], ctx_len = 7, ctx_buf = replicate 64 9, ctx_buf_len = 3\<rparr>"
      "[[97], [], [98, 99]]"]
  by simp

end
