(* ===== verification/Sm3.thy ===== *)
theory Sm3
  imports MdStream
begin

text \<open>
  SM3 (GM/T 0004-2012): \<open>src/sm3.cpp\<close> and the one-shot function of
  \<open>include/sm3.hpp\<close>, in a build with neither the assembly nor the FEAT_SM3 compression
  function (\<open>sm3_cf_ptr\<close> is null). The unrolled rounds of the code are the rounds
  \<open>0..<64\<close> here, with the constant and the boolean functions of their group.
\<close>

section \<open>The compression function\<close>

definition sm3_ROTL :: "u32 \<Rightarrow> nat \<Rightarrow> u32" where
  "sm3_ROTL x n = push_bit n x OR drop_bit ((32 - n) mod 32) x"

definition P0 :: "u32 \<Rightarrow> u32" where "P0 x = x XOR sm3_ROTL x 9 XOR sm3_ROTL x 17"
definition P1 :: "u32 \<Rightarrow> u32" where "P1 x = x XOR sm3_ROTL x 15 XOR sm3_ROTL x 23"

definition FF0 :: "u32 \<Rightarrow> u32 \<Rightarrow> u32 \<Rightarrow> u32" where "FF0 x y z = x XOR y XOR z"
definition FF1 :: "u32 \<Rightarrow> u32 \<Rightarrow> u32 \<Rightarrow> u32" where
  "FF1 x y z = (x AND y) OR (x AND z) OR (y AND z)"
definition GG0 :: "u32 \<Rightarrow> u32 \<Rightarrow> u32 \<Rightarrow> u32" where "GG0 x y z = x XOR y XOR z"
definition GG1 :: "u32 \<Rightarrow> u32 \<Rightarrow> u32 \<Rightarrow> u32" where
  "GG1 x y z = (x AND y) OR (NOT x AND z)"

text \<open>The expanded words \<open>w[0..68)\<close>.\<close>

definition sm3_expand :: "bytes \<Rightarrow> u32 list" where
  "sm3_expand block =
     foldl (\<lambda>w j. w @ [P1 (w ! (j - 16) XOR w ! (j - 9) XOR sm3_ROTL (w ! (j - 3)) 15)
                       XOR sm3_ROTL (w ! (j - 13)) 7 XOR w ! (j - 6)])
       (map (\<lambda>i. load_be32 block (4 * i)) [0..<16]) [16..<68]"

type_synonym sm3_vars = "u32 \<times> u32 \<times> u32 \<times> u32 \<times> u32 \<times> u32 \<times> u32 \<times> u32"

definition SM3_ROUND ::
  "(u32 \<Rightarrow> u32 \<Rightarrow> u32 \<Rightarrow> u32) \<Rightarrow> (u32 \<Rightarrow> u32 \<Rightarrow> u32 \<Rightarrow> u32) \<Rightarrow> u32 \<Rightarrow>
   u32 list \<Rightarrow> sm3_vars \<Rightarrow> nat \<Rightarrow> sm3_vars" where
  "SM3_ROUND FF GG TJ w v J =
     (let (a, b, c, d, e, f, g, h) = v;
          ss1 = sm3_ROTL (sm3_ROTL a 12 + e + sm3_ROTL TJ (J mod 32)) 7;
          ss2 = ss1 XOR sm3_ROTL a 12;
          tt1 = FF a b c + d + ss2 + (w ! J XOR w ! (J + 4));
          tt2 = GG e f g + h + ss1 + w ! J
      in (tt1, a, sm3_ROTL b 9, c, P0 tt2, e, sm3_ROTL f 19, g))"

definition sm3_cf :: "u32 list \<Rightarrow> bytes \<Rightarrow> u32 list" where
  "sm3_cf v block =
     (let w = sm3_expand block;
          r = (v ! 0, v ! 1, v ! 2, v ! 3, v ! 4, v ! 5, v ! 6, v ! 7);
          r = foldl (SM3_ROUND FF0 GG0 0x79CC4519 w) r [0..<16];
          r = foldl (SM3_ROUND FF1 GG1 0x7A879D8A w) r [16..<64];
          (a, b, c, d, e, f, g, h) = r
      in [v ! 0 XOR a, v ! 1 XOR b, v ! 2 XOR c, v ! 3 XOR d,
          v ! 4 XOR e, v ! 5 XOR f, v ! 6 XOR g, v ! 7 XOR h])"

section \<open>The streaming interface\<close>

type_synonym sm3_ctx = "u32 md_ctx"

definition sm3_iv :: "u32 list" where
  "sm3_iv = [0x7380166F, 0x4914B2B9, 0x172442D7, 0xDA8A0600, 0xA96F30BC, 0x163138AA,
     0xE38DEE4D, 0xB0FB0E4E]"

definition sm3_init :: "sm3_ctx \<Rightarrow> sm3_ctx" where
  "sm3_init ctx = ctx\<lparr>ctx_h := sm3_iv, ctx_len := 0, ctx_buf_len := 0\<rparr>"

text \<open>
  \<open>sm3_update\<close> completes a partly filled buffer first, then compresses whole blocks in
  place, then stores the rest.
\<close>

definition sm3_update :: "sm3_ctx \<Rightarrow> bytes \<Rightarrow> sm3_ctx" where
  "sm3_update ctx data =
     (if data = [] then ctx
      else
        let ctx = ctx\<lparr>ctx_len := ctx_len ctx + word_of_nat (length data)\<rparr>;
            (ctx, data) =
              (if ctx_buf_len ctx > 0 then
                 let copy = min (64 - ctx_buf_len ctx) (length data);
                     ctx = ctx\<lparr>ctx_buf := memcpy_at (ctx_buf ctx) (ctx_buf_len ctx) (take copy data),
                               ctx_buf_len := ctx_buf_len ctx + copy\<rparr>;
                     data = drop copy data
                 in if ctx_buf_len ctx = 64
                    then (ctx\<lparr>ctx_h := sm3_cf (ctx_h ctx) (ctx_buf ctx), ctx_buf_len := 0\<rparr>, data)
                    else (ctx, data)
               else (ctx, data));
            (h, rest) = md_drain 64 sm3_cf (ctx_h ctx) data;
            ctx = ctx\<lparr>ctx_h := h\<rparr>
        in if rest \<noteq> [] then ctx\<lparr>ctx_buf := memcpy_at (ctx_buf ctx) 0 rest,
                                ctx_buf_len := length rest\<rparr>
           else ctx)"

definition sm3_final :: "sm3_ctx \<Rightarrow> sm3_ctx \<times> bytes" where
  "sm3_final ctx =
     (let bits = ctx_len ctx * 8;
          (h, buf) = md_finish 64 sm3_cf (ctx_h ctx) (ctx_buf ctx) (ctx_buf_len ctx) (store_be64 bits)
      in (ctx\<lparr>ctx_h := h, ctx_buf := buf, ctx_buf_len := 64\<rparr>, concat (map store_be32 h)))"

definition sm3_hash :: "bytes \<Rightarrow> bytes" where
  "sm3_hash data =
     (let ctx = sm3_init \<lparr>ctx_h = [], ctx_len = 0, ctx_buf = replicate 64 0, ctx_buf_len = 0\<rparr>
      in snd (sm3_final (sm3_update ctx data)))"

section \<open>The contract\<close>

definition sm3_spec :: "bytes \<Rightarrow> bytes" where
  "sm3_spec m = concat (map store_be32
     (absorb 64 sm3_cf sm3_iv (md_pad 64 (store_be64 (word_of_nat (length m) * 8)) m)))"

interpretation sm3_md: md_stream 64 sm3_cf sm3_iv
  by unfold_locales simp

lemma length_sm3_cf: "length (sm3_cf v b) = 8"
  by (simp add: sm3_cf_def Let_def split: prod.split)

text \<open>
  The update function on a buffer that is empty, and on one that is not: there the data either
  stays below the block size or completes the block, which leaves the first case.
\<close>

lemma sm3_drain_absorbed:
  assumes "sm3_md.holds h buf 0 m"
    and "md_drain 64 sm3_cf h d = (h', rest)"
  shows "if rest \<noteq> [] then sm3_md.holds h' (memcpy_at buf 0 rest) (length rest) (m @ d)
    else sm3_md.holds h' buf 0 (m @ d)"
  using sm3_md.holds_aligned [OF assms(1), of d] assms(2)
  by (auto simp: md_drain_eq memcpy_at_def simp flip: length_partial_block)

lemma sm3_update_absorbed:
  assumes "sm3_md.ctx_absorbed s m"
  shows "sm3_md.ctx_absorbed (sm3_update s d) (m @ d)"
proof -
  let ?n = "ctx_buf_len s"
  have h: "sm3_md.holds (ctx_h s) (ctx_buf s) ?n m" and n: "?n < 64"
    using assms sm3_md.holdsD(2) by (auto simp: sm3_md.ctx_absorbed_def)
  consider "d = []" | "d \<noteq> []" "?n = 0" | "0 < ?n" "?n + length d < 64" "d \<noteq> []"
    | "0 < ?n" "64 \<le> ?n + length d" "d \<noteq> []" by linarith
  then show ?thesis
  proof cases
    case 1
    with assms show ?thesis by (simp add: sm3_update_def)
  next
    case 2
    obtain h' rest where r: "md_drain 64 sm3_cf (ctx_h s) d = (h', rest)" by fastforce
    from sm3_drain_absorbed [OF _ r] h 2 assms show ?thesis
      by (auto simp: sm3_update_def sm3_md.ctx_absorbed_def Let_def r split: if_splits)
  next
    case 3
    with sm3_md.holds_buffer [OF h 3(2)] assms show ?thesis
      by (simp add: sm3_update_def sm3_md.ctx_absorbed_def Let_def md_drain_eq absorb_short
          partial_block_short min_absorb2)
  next
    case 4
    let ?k = "64 - ?n"
    define buf where "buf = memcpy_at (ctx_buf s) ?n (take ?k d)"
    have "sm3_md.holds (sm3_cf (ctx_h s) buf) buf 0 (m @ take ?k d)"
      unfolding buf_def using 4 n by (intro sm3_md.holds_fill [OF h]) simp
    moreover obtain h' rest
      where r: "md_drain 64 sm3_cf (sm3_cf (ctx_h s) buf) (drop ?k d) = (h', rest)" by fastforce
    ultimately have "if rest \<noteq> [] then sm3_md.holds h' (memcpy_at buf 0 rest) (length rest) (m @ d)
        else sm3_md.holds h' buf 0 (m @ d)"
      using sm3_drain_absorbed [OF _ r] by fastforce
    moreover have "min ?k (length d) = ?k" using 4 by simp
    ultimately show ?thesis
      using 4 n assms r
      by (auto simp: sm3_update_def sm3_md.ctx_absorbed_def Let_def buf_def split: if_splits)
  qed
qed

interpretation sm3_stream: streaming_hash sm3_init sm3_update sm3_final
  "\<lambda>s. length (ctx_buf s) = 64" sm3_md.ctx_absorbed sm3_spec 32
proof unfold_locales
  show "length (ctx_buf s) = 64 \<Longrightarrow> sm3_md.ctx_absorbed (sm3_init s) []" for s :: sm3_ctx
    by (rule sm3_md.ctx_absorbed_init) (simp_all add: sm3_init_def)
  show "sm3_md.ctx_absorbed s m \<Longrightarrow> sm3_md.ctx_absorbed (sm3_update s d) (m @ d)"
    for s :: sm3_ctx and m d
    by (rule sm3_update_absorbed)
  show "sm3_md.ctx_absorbed s m \<Longrightarrow> snd (sm3_final s) = sm3_spec m" for s :: sm3_ctx and m
    using sm3_md.ctx_absorbed_finish [of s m "store_be64 (ctx_len s * 8)"]
    by (auto simp: sm3_final_def sm3_spec_def sm3_md.ctx_absorbed_def Let_def split: prod.splits)
  show "sm3_md.ctx_absorbed s m \<Longrightarrow> length (ctx_buf (fst (sm3_final s))) = 64"
    for s :: sm3_ctx and m
    using sm3_md.ctx_absorbed_raw [of s m "store_be64 (ctx_len s * 8)"]
    by (simp add: sm3_final_def Let_def case_prod_beta)
  show "length (sm3_spec m) = 32" for m
    by (simp add: sm3_spec_def length_concat_const [where k = 4]
        length_absorb_iv [where n = 8] length_sm3_cf sm3_iv_def)
qed

lemma sm3_hash_eq_spec: "sm3_hash m = sm3_spec m"
  by (simp add: sm3_hash_def sm3_stream.final_update1)

text \<open>
  However a message is cut into pieces for \<open>sm3_update\<close>, and whatever the struct held
  before \<open>sm3_init\<close>, \<open>sm3_final\<close> returns the SM3 digest of the whole message.
\<close>

theorem sm3_streaming:
  assumes "length (ctx_buf ctx) = 64"
  shows "snd (sm3_final (foldl sm3_update (sm3_init ctx) pieces)) = sm3_hash (concat pieces)
    \<and> sm3_hash (concat pieces) = sm3_spec (concat pieces) \<and> length (sm3_hash (concat pieces)) = 32"
  using sm3_stream.final_fold [OF assms, of pieces] sm3_stream.length_hash
  by (simp add: sm3_hash_eq_spec)

theorem sm3_streaming_witness:
  "snd (sm3_final (foldl sm3_update (sm3_init
     \<lparr>ctx_h = [], ctx_len = 7, ctx_buf = replicate 64 9, ctx_buf_len = 3\<rparr>) [[97], [], [98, 99]]))
   = sm3_hash [97, 98, 99]"
  using sm3_streaming [of "\<lparr>ctx_h = [], ctx_len = 7, ctx_buf = replicate 64 9, ctx_buf_len = 3\<rparr>"
      "[[97], [], [98, 99]]"]
  by simp

end
