(* ===== verification/Sha512.thy ===== *)
theory Sha512
  imports MdStream
begin

text \<open>
  SHA-512 and SHA-384: \<open>src/sha512_cpu.cpp\<close> and the one-shot functions of
  \<open>include/sha512.hpp\<close>, with \<open>sha512_transform_ptr\<close> the scalar transform (a build
  without \<open>JP_AVX2\<close> and the ARMv8.2 extensions).
\<close>

section \<open>The compression function\<close>

definition sha512_K :: "u64 list" where
  "sha512_K = [
    0x428A2F98D728AE22, 0x7137449123EF65CD, 0xB5C0FBCFEC4D3B2F, 0xE9B5DBA58189DBBC,
    0x3956C25BF348B538, 0x59F111F1B605D019, 0x923F82A4AF194F9B, 0xAB1C5ED5DA6D8118,
    0xD807AA98A3030242, 0x12835B0145706FBE, 0x243185BE4EE4B28C, 0x550C7DC3D5FFB4E2,
    0x72BE5D74F27B896F, 0x80DEB1FE3B1696B1, 0x9BDC06A725C71235, 0xC19BF174CF692694,
    0xE49B69C19EF14AD2, 0xEFBE4786384F25E3, 0x0FC19DC68B8CD5B5, 0x240CA1CC77AC9C65,
    0x2DE92C6F592B0275, 0x4A7484AA6EA6E483, 0x5CB0A9DCBD41FBD4, 0x76F988DA831153B5,
    0x983E5152EE66DFAB, 0xA831C66D2DB43210, 0xB00327C898FB213F, 0xBF597FC7BEEF0EE4,
    0xC6E00BF33DA88FC2, 0xD5A79147930AA725, 0x06CA6351E003826F, 0x142929670A0E6E70,
    0x27B70A8546D22FFC, 0x2E1B21385C26C926, 0x4D2C6DFC5AC42AED, 0x53380D139D95B3DF,
    0x650A73548BAF63DE, 0x766A0ABB3C77B2A8, 0x81C2C92E47EDAEE6, 0x92722C851482353B,
    0xA2BFE8A14CF10364, 0xA81A664BBC423001, 0xC24B8B70D0F89791, 0xC76C51A30654BE30,
    0xD192E819D6EF5218, 0xD69906245565A910, 0xF40E35855771202A, 0x106AA07032BBD1B8,
    0x19A4C116B8D2D0C8, 0x1E376C085141AB53, 0x2748774CDF8EEB99, 0x34B0BCB5E19B48A8,
    0x391C0CB3C5C95A63, 0x4ED8AA4AE3418ACB, 0x5B9CCA4F7763E373, 0x682E6FF3D6B2B8A3,
    0x748F82EE5DEFB2FC, 0x78A5636F43172F60, 0x84C87814A1F0AB72, 0x8CC702081A6439EC,
    0x90BEFFFA23631E28, 0xA4506CEBDE82BDE9, 0xBEF9A3F7B2C67915, 0xC67178F2E372532B,
    0xCA273ECEEA26619C, 0xD186B8C721C0C207, 0xEADA7DD6CDE0EB1E, 0xF57D4F7FEE6ED178,
    0x06F067AA72176FBA, 0x0A637DC5A2C898A6, 0x113F9804BEF90DAE, 0x1B710B35131C471B,
    0x28DB77F523047D84, 0x32CAAB7B40C72493, 0x3C9EBE0A15C9BEBC, 0x431D67C49C100D4C,
    0x4CC5D4BECB3E42B6, 0x597F299CFC657E2A, 0x5FCB6FAB3AD6FAEC, 0x6C44198C4A475817]"

definition sha512_schedule :: "bytes \<Rightarrow> u64 list" where
  "sha512_schedule data =
     foldl (\<lambda>w i. w @ [(ror64 (w ! (i - 2)) 19 XOR ror64 (w ! (i - 2)) 61 XOR drop_bit 6 (w ! (i - 2)))
                       + w ! (i - 7)
                       + (ror64 (w ! (i - 15)) 1 XOR ror64 (w ! (i - 15)) 8 XOR drop_bit 7 (w ! (i - 15)))
                       + w ! (i - 16)])
       (map (\<lambda>i. load_be64 data (i * 8)) [0..<16]) [16..<80]"

type_synonym sha512_vars = "u64 \<times> u64 \<times> u64 \<times> u64 \<times> u64 \<times> u64 \<times> u64 \<times> u64"

definition sha512_round :: "u64 list \<Rightarrow> sha512_vars \<Rightarrow> nat \<Rightarrow> sha512_vars" where
  "sha512_round w v i =
     (let (a, b, c, d, e, f, g, hh) = v;
          t1 = hh + (ror64 e 14 XOR ror64 e 18 XOR ror64 e 41) + ((e AND f) XOR (NOT e AND g))
               + sha512_K ! i + w ! i;
          t2 = (ror64 a 28 XOR ror64 a 34 XOR ror64 a 39) + ((a AND b) XOR (a AND c) XOR (b AND c))
      in (t1 + t2, a, b, c, d + t1, e, f, g))"

definition sha512_transform_cpu :: "u64 list \<Rightarrow> bytes \<Rightarrow> u64 list" where
  "sha512_transform_cpu h data =
     (let (a, b, c, d, e, f, g, hh) =
            foldl (sha512_round (sha512_schedule data))
              (h ! 0, h ! 1, h ! 2, h ! 3, h ! 4, h ! 5, h ! 6, h ! 7) [0..<80]
      in [h ! 0 + a, h ! 1 + b, h ! 2 + c, h ! 3 + d, h ! 4 + e, h ! 5 + f, h ! 6 + g, h ! 7 + hh])"

section \<open>The streaming interface\<close>

record sha512_ctx = "u64 md_ctx" +
  is_384 :: bool

definition sha512_iv :: "u64 list" where
  "sha512_iv = [0x6A09E667F3BCC908, 0xBB67AE8584CAA73B, 0x3C6EF372FE94F82B, 0xA54FF53A5F1D36F1,
     0x510E527FADE682D1, 0x9B05688C2B3E6C1F, 0x1F83D9ABFB41BD6B, 0x5BE0CD19137E2179]"

definition sha384_iv :: "u64 list" where
  "sha384_iv = [0xCBBB9D5DC1059ED8, 0x629A292A367CD507, 0x9159015A3070DD17, 0x152FECD8F70E5939,
     0x67332667FFC00B31, 0x8EB44A8768581511, 0xDB0C2E0D64F98FA7, 0x47B5481DBEFA4FA4]"

definition sha512_init :: "sha512_ctx \<Rightarrow> sha512_ctx" where
  "sha512_init ctx = ctx\<lparr>ctx_h := sha512_iv, ctx_len := 0, ctx_buf_len := 0, is_384 := False\<rparr>"

definition sha384_init :: "sha512_ctx \<Rightarrow> sha512_ctx" where
  "sha384_init ctx = ctx\<lparr>ctx_h := sha384_iv, ctx_len := 0, ctx_buf_len := 0, is_384 := True\<rparr>"

definition sha512_update :: "sha512_ctx \<Rightarrow> bytes \<Rightarrow> sha512_ctx" where
  "sha512_update ctx data =
     (if data = [] then ctx
      else
        let ctx = ctx\<lparr>ctx_len := ctx_len ctx + word_of_nat (length data)\<rparr>;
            n = ctx_buf_len ctx
        in if n + length data < 128 then
             ctx\<lparr>ctx_buf := memcpy_at (ctx_buf ctx) n data, ctx_buf_len := n + length data\<rparr>
           else
             let off = 128 - n;
                 buf = memcpy_at (ctx_buf ctx) n (take off data);
                 h = sha512_transform_cpu (ctx_h ctx) buf;
                 (h, off) = md_loop 128 sha512_transform_cpu h data off
             in ctx\<lparr>ctx_h := h, ctx_buf_len := length data - off,
                    ctx_buf := memcpy_at buf 0 (drop off data)\<rparr>)"

text \<open>
  The length field has sixteen bytes, of which the code leaves the upper eight zero: the
  128-bit length of FIPS 180-4 for every message a 64-bit byte count can describe in bits.
\<close>

definition sha512_digest :: "nat \<Rightarrow> u64 list \<Rightarrow> bytes" where
  "sha512_digest n h = map (\<lambda>i. ucast (drop_bit (56 - (i mod 8) * 8) (h ! (i div 8)))) [0..<n]"

definition sha512_final :: "sha512_ctx \<Rightarrow> sha512_ctx \<times> bytes" where
  "sha512_final ctx =
     (let bits = ctx_len ctx * 8;
          (h, buf) = md_finish 128 sha512_transform_cpu (ctx_h ctx) (ctx_buf ctx) (ctx_buf_len ctx)
            (replicate 8 0 @ store_be64 bits);
          out = (if is_384 ctx then 48 else 64)
      in (ctx\<lparr>ctx_h := h, ctx_buf := buf, ctx_buf_len := 128\<rparr>, sha512_digest out h))"

definition sha512_raw :: sha512_ctx where
  "sha512_raw = \<lparr>ctx_h = [], ctx_len = 0, ctx_buf = replicate 128 0, ctx_buf_len = 0, is_384 = False\<rparr>"

definition sha512 :: "bytes \<Rightarrow> bytes" where
  "sha512 data =
     (let ctx = sha512_init sha512_raw;
          ctx = (if data \<noteq> [] then sha512_update ctx data else ctx)
      in snd (sha512_final ctx))"

definition sha384 :: "bytes \<Rightarrow> bytes" where
  "sha384 data =
     (let ctx = sha384_init sha512_raw;
          ctx = (if data \<noteq> [] then sha512_update ctx data else ctx)
      in snd (sha512_final ctx))"

section \<open>The contract\<close>

definition sha512_spec :: "u64 list \<Rightarrow> nat \<Rightarrow> bytes \<Rightarrow> bytes" where
  "sha512_spec iv n m = sha512_digest n (absorb 128 sha512_transform_cpu iv
     (md_pad 128 (replicate 8 0 @ store_be64 (word_of_nat (length m) * 8)) m))"

interpretation sha512_md: md_stream 128 sha512_transform_cpu sha512_iv
  by unfold_locales simp

interpretation sha384_md: md_stream 128 sha512_transform_cpu sha384_iv
  by unfold_locales simp

lemma sha512_update_md: "sha512_update = md_update 128 sha512_transform_cpu"
  by (intro ext) (simp add: sha512_update_def md_update_def)

lemma is_384_update: "is_384 (sha512_update ctx d) = is_384 ctx"
  by (simp add: sha512_update_def Let_def split: prod.split)

lemma length_sha512_digest: "length (sha512_digest n h) = n"
  by (simp add: sha512_digest_def)

interpretation sha512_stream: streaming_hash sha512_init sha512_update sha512_final
  "\<lambda>s. length (ctx_buf s) = 128" "\<lambda>s m. sha512_md.ctx_absorbed s m \<and> \<not> is_384 s"
  "sha512_spec sha512_iv 64" 64
proof unfold_locales
  show "length (ctx_buf s) = 128 \<Longrightarrow>
      sha512_md.ctx_absorbed (sha512_init s) [] \<and> \<not> is_384 (sha512_init s)" for s :: sha512_ctx
    using sha512_md.ctx_absorbed_init [of "sha512_init s"] by (simp add: sha512_init_def)
  show "sha512_md.ctx_absorbed s m \<and> \<not> is_384 s \<Longrightarrow>
      sha512_md.ctx_absorbed (sha512_update s d) (m @ d) \<and> \<not> is_384 (sha512_update s d)"
    for s :: sha512_ctx and m d
    unfolding is_384_update unfolding sha512_update_md
    using sha512_md.ctx_absorbed_update [of s m d] by simp
  show "sha512_md.ctx_absorbed s m \<and> \<not> is_384 s \<Longrightarrow>
      snd (sha512_final s) = sha512_spec sha512_iv 64 m" for s :: sha512_ctx and m
    using sha512_md.ctx_absorbed_finish [of s m "replicate 8 0 @ store_be64 (ctx_len s * 8)"]
    by (auto simp: sha512_final_def sha512_spec_def sha512_md.ctx_absorbed_def Let_def split: prod.splits)
  show "sha512_md.ctx_absorbed s m \<and> \<not> is_384 s \<Longrightarrow>
      length (ctx_buf (fst (sha512_final s))) = 128" for s :: sha512_ctx and m
    using sha512_md.ctx_absorbed_raw [of s m "replicate 8 0 @ store_be64 (ctx_len s * 8)"]
    by (simp add: sha512_final_def Let_def case_prod_beta)
  show "length (sha512_spec sha512_iv 64 m) = 64" for m
    by (simp add: sha512_spec_def length_sha512_digest)
qed

interpretation sha384_stream: streaming_hash sha384_init sha512_update sha512_final
  "\<lambda>s. length (ctx_buf s) = 128" "\<lambda>s m. sha384_md.ctx_absorbed s m \<and> is_384 s"
  "sha512_spec sha384_iv 48" 48
proof unfold_locales
  show "length (ctx_buf s) = 128 \<Longrightarrow>
      sha384_md.ctx_absorbed (sha384_init s) [] \<and> is_384 (sha384_init s)" for s :: sha512_ctx
    using sha384_md.ctx_absorbed_init [of "sha384_init s"] by (simp add: sha384_init_def)
  show "sha384_md.ctx_absorbed s m \<and> is_384 s \<Longrightarrow>
      sha384_md.ctx_absorbed (sha512_update s d) (m @ d) \<and> is_384 (sha512_update s d)"
    for s :: sha512_ctx and m d
    unfolding is_384_update unfolding sha512_update_md
    using sha384_md.ctx_absorbed_update [of s m d] by simp
  show "sha384_md.ctx_absorbed s m \<and> is_384 s \<Longrightarrow>
      snd (sha512_final s) = sha512_spec sha384_iv 48 m" for s :: sha512_ctx and m
    using sha384_md.ctx_absorbed_finish [of s m "replicate 8 0 @ store_be64 (ctx_len s * 8)"]
    by (auto simp: sha512_final_def sha512_spec_def sha384_md.ctx_absorbed_def Let_def split: prod.splits)
  show "sha384_md.ctx_absorbed s m \<and> is_384 s \<Longrightarrow>
      length (ctx_buf (fst (sha512_final s))) = 128" for s :: sha512_ctx and m
    using sha384_md.ctx_absorbed_raw [of s m "replicate 8 0 @ store_be64 (ctx_len s * 8)"]
    by (simp add: sha512_final_def Let_def case_prod_beta)
  show "length (sha512_spec sha384_iv 48 m) = 48" for m
    by (simp add: sha512_spec_def length_sha512_digest)
qed

lemma length_sha512_raw: "length (ctx_buf sha512_raw) = 128"
  by (simp add: sha512_raw_def)

lemma sha512_eq_spec: "sha512 m = sha512_spec sha512_iv 64 m"
  unfolding sha512_def Let_def
  using sha512_stream.final_init [OF length_sha512_raw]
    sha512_stream.final_update1 [OF length_sha512_raw, of m] by simp

lemma sha384_eq_spec: "sha384 m = sha512_spec sha384_iv 48 m"
  unfolding sha384_def Let_def
  using sha384_stream.final_init [OF length_sha512_raw]
    sha384_stream.final_update1 [OF length_sha512_raw, of m] by simp

text \<open>
  One update and one final function serve SHA-512 and SHA-384: after either
  initialisation, and for any pieces, the digest is that of the whole message, of 64 or 48
  bytes as the flag the initialisation set says.
\<close>

theorem sha512_streaming:
  assumes "length (ctx_buf ctx) = 128"
  shows "snd (sha512_final (foldl sha512_update (sha512_init ctx) pieces)) = sha512 (concat pieces)
    \<and> snd (sha512_final (foldl sha512_update (sha384_init ctx) pieces)) = sha384 (concat pieces)
    \<and> sha512 (concat pieces) = sha512_spec sha512_iv 64 (concat pieces)
    \<and> sha384 (concat pieces) = sha512_spec sha384_iv 48 (concat pieces)
    \<and> length (sha512 (concat pieces)) = 64 \<and> length (sha384 (concat pieces)) = 48"
  using sha512_stream.final_fold [OF assms, of pieces] sha384_stream.final_fold [OF assms, of pieces]
    sha512_stream.length_hash sha384_stream.length_hash
  by (simp add: sha512_eq_spec sha384_eq_spec)

theorem sha512_streaming_witness:
  "snd (sha512_final (foldl sha512_update (sha384_init sha512_raw) [[97], [], [98, 99]]))
   = sha384 [97, 98, 99]"
  using sha512_streaming [of sha512_raw "[[97], [], [98, 99]]"]
  by (simp add: sha512_raw_def)

end
