(* ===== verification/Hmac.thy ===== *)
theory Hmac
  imports Sha256 Sm3 Sha512
begin

text \<open>
  HMAC over SHA-256, SHA-384 and SM3: \<open>src/hmac.cpp\<close>, with the streaming code of
  \<open>hmac_sha256\<close> (\<open>cpu_has_sha_ni()\<close> false). The stack's \<open>ctx\<close> is uninitialised
  when a function starts, so it is an argument of the model; one context serves all the hashes
  a function computes, as in the code. \<open>hmac_with\<close> is the text the three functions share.
\<close>

section \<open>The three functions\<close>

definition hmac_sha256 :: "sha256_ctx \<Rightarrow> bytes \<Rightarrow> bytes \<Rightarrow> bytes" where
  "hmac_sha256 ctx key msg =
     (let (ctx, key) = (if length key > 64 then sha256_final (sha256_update (sha256_init ctx) key)
                        else (ctx, key));
          ikey = memcpy_at (replicate 64 0) 0 key;
          okey = memcpy_at (replicate 64 0) 0 key;
          ikey = map (\<lambda>b. b XOR 0x36) ikey;
          okey = map (\<lambda>b. b XOR 0x5c) okey;
          (ctx, tk) = sha256_final (sha256_update (sha256_update (sha256_init ctx) ikey) msg);
          (ctx, mac) = sha256_final (sha256_update (sha256_update (sha256_init ctx) okey) tk)
      in mac)"

definition hmac_sha384 :: "sha512_ctx \<Rightarrow> bytes \<Rightarrow> bytes \<Rightarrow> bytes" where
  "hmac_sha384 ctx key msg =
     (let (ctx, key) = (if length key > 128 then sha512_final (sha512_update (sha384_init ctx) key)
                        else (ctx, key));
          ikey = memcpy_at (replicate 128 0) 0 key;
          okey = memcpy_at (replicate 128 0) 0 key;
          ikey = map (\<lambda>b. b XOR 0x36) ikey;
          okey = map (\<lambda>b. b XOR 0x5c) okey;
          (ctx, tk) = sha512_final (sha512_update (sha512_update (sha384_init ctx) ikey) msg);
          (ctx, mac) = sha512_final (sha512_update (sha512_update (sha384_init ctx) okey) tk)
      in mac)"

definition hmac_sm3 :: "sm3_ctx \<Rightarrow> bytes \<Rightarrow> bytes \<Rightarrow> bytes" where
  "hmac_sm3 ctx key msg =
     (let (ctx, key) = (if length key > 64 then sm3_final (sm3_update (sm3_init ctx) key)
                        else (ctx, key));
          ikey = memcpy_at (replicate 64 0) 0 key;
          okey = memcpy_at (replicate 64 0) 0 key;
          ikey = map (\<lambda>b. b XOR 0x36) ikey;
          okey = map (\<lambda>b. b XOR 0x5c) okey;
          (ctx, tk) = sm3_final (sm3_update (sm3_update (sm3_init ctx) ikey) msg);
          (ctx, mac) = sm3_final (sm3_update (sm3_update (sm3_init ctx) okey) tk)
      in mac)"

section \<open>The reference, RFC 2104\<close>

definition hmac_key :: "(bytes \<Rightarrow> bytes) \<Rightarrow> nat \<Rightarrow> bytes \<Rightarrow> bytes" where
  "hmac_key H B key =
     (let k = (if length key > B then H key else key) in k @ replicate (B - length k) 0)"

definition hmac_spec :: "(bytes \<Rightarrow> bytes) \<Rightarrow> nat \<Rightarrow> bytes \<Rightarrow> bytes \<Rightarrow> bytes" where
  "hmac_spec H B key msg =
     (let k = hmac_key H B key
      in H (map (\<lambda>b. b XOR 0x5c) k @ H (map (\<lambda>b. b XOR 0x36) k @ msg)))"

definition hmac_with ::
  "('s \<Rightarrow> 's) \<Rightarrow> ('s \<Rightarrow> bytes \<Rightarrow> 's) \<Rightarrow> ('s \<Rightarrow> 's \<times> bytes) \<Rightarrow> nat \<Rightarrow> 's \<Rightarrow> bytes \<Rightarrow> bytes \<Rightarrow> bytes" where
  "hmac_with init update final B ctx key msg =
     (let (ctx, key) = (if length key > B then final (update (init ctx) key) else (ctx, key));
          ikey = memcpy_at (replicate B 0) 0 key;
          okey = memcpy_at (replicate B 0) 0 key;
          ikey = map (\<lambda>b. b XOR 0x36) ikey;
          okey = map (\<lambda>b. b XOR 0x5c) okey;
          (ctx, tk) = final (update (update (init ctx) ikey) msg);
          (ctx, mac) = final (update (update (init ctx) okey) tk)
      in mac)"

text \<open>Any streaming hash whose digest fits in a block gives RFC 2104's function.\<close>

context streaming_hash
begin

lemma hmac_with_spec:
  assumes "raw ctx" "dlen \<le> B"
  shows "hmac_with init update final B ctx key msg = hmac_spec hash B key msg"
proof -
  obtain ctx1 key1 where k: "(if length key > B then final (update (init ctx) key) else (ctx, key))
      = (ctx1, key1)" and raw1: "raw ctx1" and key1: "key1 = (if length key > B then hash key else key)"
    using run1 [OF assms(1), of key] assms(1) by (cases "length key > B") auto
  have "length key1 \<le> B"
    using key1 assms(2) length_hash [of key] by auto
  then have pad: "memcpy_at (replicate B 0) 0 key1 = hmac_key hash B key"
    by (simp add: memcpy_at_def hmac_key_def key1 Let_def)
  let ?ik = "map (\<lambda>b. b XOR 0x36) (hmac_key hash B key)"
  let ?ok = "map (\<lambda>b. b XOR 0x5c) (hmac_key hash B key)"
  obtain ctx2 where 2: "final (update (update (init ctx1) ?ik) msg) = (ctx2, hash (?ik @ msg))"
    and raw2: "raw ctx2" using run2 [OF raw1, of ?ik msg] by blast
  obtain ctx3 where 3: "final (update (update (init ctx2) ?ok) (hash (?ik @ msg)))
      = (ctx3, hash (?ok @ hash (?ik @ msg)))"
    using run2 [OF raw2, of ?ok "hash (?ik @ msg)"] by blast
  show ?thesis
    unfolding hmac_with_def hmac_spec_def k Let_def prod.case pad 2 3 ..
qed

lemma length_hmac_spec: "length (hmac_spec hash B key msg) = dlen"
  by (simp add: hmac_spec_def Let_def length_hash)

end

lemma hmac_sha256_eq:
  assumes "length (ctx_buf ctx) = 64"
  shows "hmac_sha256 ctx key msg = hmac_spec sha256 64 key msg"
proof -
  have "hmac_sha256 ctx key msg = hmac_with sha256_init sha256_update sha256_final 64 ctx key msg"
    unfolding hmac_sha256_def hmac_with_def ..
  with sha256_stream.hmac_with_spec [OF assms, of 64 key msg] show ?thesis
    by (simp add: ext [OF sha256_eq_spec])
qed

lemma hmac_sha384_eq:
  assumes "length (ctx_buf ctx) = 128"
  shows "hmac_sha384 ctx key msg = hmac_spec sha384 128 key msg"
proof -
  have "hmac_sha384 ctx key msg = hmac_with sha384_init sha512_update sha512_final 128 ctx key msg"
    unfolding hmac_sha384_def hmac_with_def ..
  with sha384_stream.hmac_with_spec [OF assms, of 128 key msg] show ?thesis
    by (simp add: ext [OF sha384_eq_spec])
qed

lemma hmac_sm3_eq:
  assumes "length (ctx_buf ctx) = 64"
  shows "hmac_sm3 ctx key msg = hmac_spec sm3_hash 64 key msg"
proof -
  have "hmac_sm3 ctx key msg = hmac_with sm3_init sm3_update sm3_final 64 ctx key msg"
    unfolding hmac_sm3_def hmac_with_def ..
  with sm3_stream.hmac_with_spec [OF assms, of 64 key msg] show ?thesis
    by (simp add: ext [OF sm3_hash_eq_spec])
qed

lemma length_hmac:
  "length (hmac_spec sha256 64 key msg) = 32" "length (hmac_spec sha384 128 key msg) = 48"
  "length (hmac_spec sm3_hash 64 key msg) = 32"
  using sha256_stream.length_hmac_spec sha384_stream.length_hmac_spec sm3_stream.length_hmac_spec
  by (simp_all add: ext [OF sha256_eq_spec] ext [OF sha384_eq_spec] ext [OF sm3_hash_eq_spec])

text \<open>
  The three HMAC functions compute RFC 2104's HMAC of their hash, keys longer than a block
  hashed first and shorter ones padded with zeros, whatever the stack held.
\<close>

theorem hmac_functions_are_hmac:
  assumes "length (ctx_buf ctx256) = 64" "length (ctx_buf ctx384) = 128" "length (ctx_buf ctx3) = 64"
  shows "hmac_sha256 ctx256 key msg = hmac_spec sha256 64 key msg
    \<and> hmac_sha384 ctx384 key msg = hmac_spec sha384 128 key msg
    \<and> hmac_sm3 ctx3 key msg = hmac_spec sm3_hash 64 key msg
    \<and> length (hmac_sha256 ctx256 key msg) = 32 \<and> length (hmac_sha384 ctx384 key msg) = 48
    \<and> length (hmac_sm3 ctx3 key msg) = 32"
  using assms by (simp add: hmac_sha256_eq hmac_sha384_eq hmac_sm3_eq length_hmac)

theorem hmac_functions_are_hmac_witness:
  "length (hmac_sm3 \<lparr>ctx_h = [], ctx_len = 0, ctx_buf = replicate 64 7, ctx_buf_len = 9\<rparr>
     (replicate 70 1) [1, 2, 3]) = 32"
proof -
  have h: "length (ctx_buf (\<lparr>ctx_h = [], ctx_len = 0, ctx_buf = replicate 64 7, ctx_buf_len = 9\<rparr>
      :: sm3_ctx)) = 64"
    by simp
  from hmac_functions_are_hmac [OF h length_sha512_raw h] show ?thesis by blast
qed

end
