(* ===== verification/Hkdf.thy ===== *)
theory Hkdf
  imports Hmac
begin

text \<open>
  HKDF and the TLS 1.3 key schedule's expand-label: \<open>src/hkdf.cpp\<close> and the inline
  functions of \<open>include/hkdf.hpp\<close>, over HMAC-SHA256, HMAC-SHA384 and HMAC-SM3. The contexts
  the HMAC functions leave on the stack are fixed here to zeroed ones; their value does not
  matter (\<open>hmac_functions_are_hmac\<close>).
\<close>

section \<open>Extract\<close>

definition ctx64 :: "u32 md_ctx" where
  "ctx64 = \<lparr>ctx_h = [], ctx_len = 0, ctx_buf = replicate 64 0, ctx_buf_len = 0\<rparr>"

text \<open>A null or empty salt is replaced by zeros, of the digest's length.\<close>

definition hkdf_extract :: "bytes \<Rightarrow> bytes \<Rightarrow> bytes" where
  "hkdf_extract salt ikm =
     (if salt = [] then hmac_sha256 ctx64 (replicate 32 0) ikm else hmac_sha256 ctx64 salt ikm)"

definition hkdf_extract_sha384 :: "bytes \<Rightarrow> bytes \<Rightarrow> bytes" where
  "hkdf_extract_sha384 salt ikm =
     (if salt = [] then hmac_sha384 sha512_raw (replicate 48 0) ikm else hmac_sha384 sha512_raw salt ikm)"

definition hkdf_extract_sm3 :: "bytes \<Rightarrow> bytes \<Rightarrow> bytes" where
  "hkdf_extract_sm3 salt ikm =
     (if salt = [] then hmac_sm3 ctx64 (replicate 32 0) ikm else hmac_sm3 ctx64 salt ikm)"

section \<open>Expand\<close>

text \<open>
  The loop of \<open>hkdf_expand\<close>: \<open>t\<close> is empty in the first round, the counter is one byte,
  and each round copies at most one digest to the output.
\<close>

function hkdf_expand_loop :: "bytes \<Rightarrow> bytes \<Rightarrow> bytes \<Rightarrow> u8 \<Rightarrow> nat \<Rightarrow> bytes" where
  "hkdf_expand_loop prk info t counter out_len =
     (if out_len > 0 then
        let t = hmac_sha256 ctx64 prk (t @ info @ [counter]);
            n = (if out_len < 32 then out_len else 32)
        in take n t @ hkdf_expand_loop prk info t (counter + 1) (out_len - n)
      else [])"
  by pat_completeness auto
termination
  by (relation "measure (\<lambda>(_, _, _, _, out_len). out_len)") auto

function hkdf_expand_loop_sha384 :: "bytes \<Rightarrow> bytes \<Rightarrow> bytes \<Rightarrow> u8 \<Rightarrow> nat \<Rightarrow> bytes" where
  "hkdf_expand_loop_sha384 prk info t counter out_len =
     (if out_len > 0 then
        let t = hmac_sha384 sha512_raw prk (t @ info @ [counter]);
            n = (if out_len < 48 then out_len else 48)
        in take n t @ hkdf_expand_loop_sha384 prk info t (counter + 1) (out_len - n)
      else [])"
  by pat_completeness auto
termination
  by (relation "measure (\<lambda>(_, _, _, _, out_len). out_len)") auto

function hkdf_expand_loop_sm3 :: "bytes \<Rightarrow> bytes \<Rightarrow> bytes \<Rightarrow> u8 \<Rightarrow> nat \<Rightarrow> bytes" where
  "hkdf_expand_loop_sm3 prk info t counter out_len =
     (if out_len > 0 then
        let t = hmac_sm3 ctx64 prk (t @ info @ [counter]);
            n = (if out_len < 32 then out_len else 32)
        in take n t @ hkdf_expand_loop_sm3 prk info t (counter + 1) (out_len - n)
      else [])"
  by pat_completeness auto
termination
  by (relation "measure (\<lambda>(_, _, _, _, out_len). out_len)") auto

declare hkdf_expand_loop.simps [simp del] hkdf_expand_loop_sha384.simps [simp del]
  hkdf_expand_loop_sm3.simps [simp del]

definition hkdf_expand :: "bytes \<Rightarrow> bytes \<Rightarrow> nat \<Rightarrow> bytes" where
  "hkdf_expand prk info out_len = hkdf_expand_loop prk info [] 1 out_len"

definition hkdf_expand_sha384 :: "bytes \<Rightarrow> bytes \<Rightarrow> nat \<Rightarrow> bytes" where
  "hkdf_expand_sha384 prk info out_len = hkdf_expand_loop_sha384 prk info [] 1 out_len"

definition hkdf_expand_sm3 :: "bytes \<Rightarrow> bytes \<Rightarrow> nat \<Rightarrow> bytes" where
  "hkdf_expand_sm3 prk info out_len = hkdf_expand_loop_sm3 prk info [] 1 out_len"

section \<open>Expand-label\<close>

text \<open>
  The HkdfLabel: the output length in two bytes, the length of \<open>tls13 \<close> and the label in
  one, both texts, and the context with its length in one byte. The code builds it in a
  256-byte array, which the callers' labels (at most twelve characters) and contexts (a hash at
  most) do not fill.
\<close>

definition hkdf_label :: "bytes \<Rightarrow> bytes \<Rightarrow> nat \<Rightarrow> bytes" where
  "hkdf_label label context out_len =
     [word_of_nat (out_len div 256), word_of_nat out_len]
     @ [word_of_nat (length (ascii ''tls13 '') + length label)] @ ascii ''tls13 '' @ label
     @ [word_of_nat (length context)] @ context"

definition hkdf_expand_label :: "bytes \<Rightarrow> bytes \<Rightarrow> bytes \<Rightarrow> nat \<Rightarrow> bytes" where
  "hkdf_expand_label secret label context out_len =
     hkdf_expand secret (hkdf_label label context out_len) out_len"

definition hkdf_expand_label_sha384 :: "bytes \<Rightarrow> bytes \<Rightarrow> bytes \<Rightarrow> nat \<Rightarrow> bytes" where
  "hkdf_expand_label_sha384 secret label context out_len =
     hkdf_expand_sha384 secret (hkdf_label label context out_len) out_len"

definition hkdf_expand_label_sm3 :: "bytes \<Rightarrow> bytes \<Rightarrow> bytes \<Rightarrow> nat \<Rightarrow> bytes" where
  "hkdf_expand_label_sm3 secret label context out_len =
     hkdf_expand_sm3 secret (hkdf_label label context out_len) out_len"

section \<open>The reference, RFC 5869\<close>

text \<open>
  \<open>T(i)\<close>, its output stream, and the contract of an expansion loop over a keyed hash
  \<open>mac\<close> of \<open>L\<close> bytes. The counter byte of block \<open>i\<close> is \<open>i mod 256\<close>, which is
  the RFC's for the 255 blocks it allows.
\<close>

primrec hkdf_T :: "(bytes \<Rightarrow> bytes) \<Rightarrow> bytes \<Rightarrow> nat \<Rightarrow> bytes" where
  "hkdf_T mac info 0 = []"
| "hkdf_T mac info (Suc i) = mac (hkdf_T mac info i @ info @ [word_of_nat (Suc i)])"

definition hkdf_stream :: "(bytes \<Rightarrow> bytes) \<Rightarrow> bytes \<Rightarrow> nat \<Rightarrow> nat \<Rightarrow> bytes" where
  "hkdf_stream mac info i n = concat (map (hkdf_T mac info) [Suc i..<Suc (i + n)])"

locale hkdf_loop =
  fixes mac :: "bytes \<Rightarrow> bytes \<Rightarrow> bytes" and L :: nat
    and loop :: "bytes \<Rightarrow> bytes \<Rightarrow> bytes \<Rightarrow> u8 \<Rightarrow> nat \<Rightarrow> bytes"
  assumes length_mac: "length (mac prk m) = L" and L_pos: "0 < L"
    and loop_eq: "loop prk info t counter out_len =
      (if out_len > 0 then
         let t = mac prk (t @ info @ [counter]); n = (if out_len < L then out_len else L)
         in take n t @ loop prk info t (counter + 1) (out_len - n)
       else [])"
begin

lemma loop_stream:
  assumes "out_len \<le> n * L"
  shows "loop prk info (hkdf_T (mac prk) info i) (word_of_nat (Suc i)) out_len
    = take out_len (hkdf_stream (mac prk) info i n)"
  using assms
proof (induction n arbitrary: i out_len)
  case 0
  then show ?case by (subst loop_eq) simp
next
  case (Suc n)
  let ?T = "hkdf_T (mac prk) info" and ?S = "\<lambda>i n. hkdf_stream (mac prk) info i n"
  have split: "?S i (Suc n) = ?T (Suc i) @ ?S (Suc i) n"
    by (simp add: hkdf_stream_def upt_conv_Cons del: hkdf_T.simps upt_Suc)
  have T: "mac prk (?T i @ info @ [word_of_nat (Suc i)]) = ?T (Suc i)" by simp
  have ctr: "word_of_nat (Suc i) + 1 = (word_of_nat (Suc (Suc i)) :: u8)" by simp
  have len: "length (?T (Suc i)) = L" by (simp add: length_mac)
  show ?case
  proof (cases "out_len > 0")
    case True
    let ?n = "if out_len < L then out_len else L"
    have "loop prk info (?T i) (word_of_nat (Suc i)) out_len
        = take ?n (?T (Suc i)) @ loop prk info (?T (Suc i)) (word_of_nat (Suc (Suc i))) (out_len - ?n)"
      using True by (subst loop_eq) (simp only: T ctr Let_def if_True)
    also have "loop prk info (?T (Suc i)) (word_of_nat (Suc (Suc i))) (out_len - ?n)
        = take (out_len - ?n) (?S (Suc i) n)"
      using Suc.prems by (intro Suc.IH) auto
    also have "take ?n (?T (Suc i)) @ take (out_len - ?n) (?S (Suc i) n) = take out_len (?S i (Suc n))"
      unfolding split using len by (cases "out_len < L") simp_all
    finally show ?thesis .
  qed (subst loop_eq, simp)
qed

lemma length_stream: "length (hkdf_stream (mac prk) info i n) = n * L"
proof (induction n)
  case (Suc n)
  have "hkdf_stream (mac prk) info i (Suc n)
      = hkdf_stream (mac prk) info i n @ hkdf_T (mac prk) info (Suc (i + n))"
    by (simp add: hkdf_stream_def del: hkdf_T.simps)
  with Suc show ?case by (simp add: length_mac)
qed (simp add: hkdf_stream_def)

lemma loop_spec:
  "loop prk info [] 1 out_len = take out_len (hkdf_stream (mac prk) info 0 out_len)"
  using loop_stream [of out_len out_len prk info 0] L_pos by simp

lemma loop_spec_blocks:
  "out_len \<le> n * L \<Longrightarrow> loop prk info [] 1 out_len = take out_len (hkdf_stream (mac prk) info 0 n)"
  using loop_stream [of out_len n prk info 0] by simp

lemma length_loop: "length (loop prk info [] 1 out_len) = out_len"
  using L_pos by (simp add: loop_spec length_stream)

lemma loop_prefix: "a \<le> b \<Longrightarrow> loop prk info [] 1 a = take a (loop prk info [] 1 b)"
proof -
  assume ab: "a \<le> b"
  have "b \<le> b * L" using L_pos by simp
  with ab have "a \<le> b * L" by (rule order_trans)
  with ab show ?thesis using loop_spec_blocks [of a b] loop_spec [of prk info b] by (simp add: min_absorb1)
qed

end

lemma length_ctx64: "length (ctx_buf ctx64) = 64"
  by (simp add: ctx64_def)

interpretation hkdf256: hkdf_loop "hmac_sha256 ctx64" 32 hkdf_expand_loop
  by (unfold_locales, simp add: hmac_sha256_eq length_ctx64 length_hmac, simp,
      rule hkdf_expand_loop.simps)

interpretation hkdf384: hkdf_loop "hmac_sha384 sha512_raw" 48 hkdf_expand_loop_sha384
  by (unfold_locales, simp add: hmac_sha384_eq length_sha512_raw length_hmac, simp,
      rule hkdf_expand_loop_sha384.simps)

interpretation hkdf3: hkdf_loop "hmac_sm3 ctx64" 32 hkdf_expand_loop_sm3
  by (unfold_locales, simp add: hmac_sm3_eq length_ctx64 length_hmac, simp,
      rule hkdf_expand_loop_sm3.simps)

section \<open>Properties\<close>

text \<open>
  \<open>hkdf_expand\<close> over SHA-256, SHA-384 and SM3 is RFC 5869's: the first
  \<open>out_len\<close> bytes of \<open>T(1) T(2) \<dots>\<close> under the HMAC keyed with the pseudorandom
  key, always \<open>out_len\<close> of them.
\<close>

theorem hkdf_expand_rfc5869:
  "hkdf_expand prk info n = take n (hkdf_stream (hmac_spec sha256 64 prk) info 0 n)
   \<and> hkdf_expand_sha384 prk info n = take n (hkdf_stream (hmac_spec sha384 128 prk) info 0 n)
   \<and> hkdf_expand_sm3 prk info n = take n (hkdf_stream (hmac_spec sm3_hash 64 prk) info 0 n)
   \<and> length (hkdf_expand prk info n) = n \<and> length (hkdf_expand_sha384 prk info n) = n
   \<and> length (hkdf_expand_sm3 prk info n) = n"
proof -
  note defs = hkdf_expand_def hkdf_expand_sha384_def hkdf_expand_sm3_def
  have len: "length (hkdf_expand prk info n) = n" "length (hkdf_expand_sha384 prk info n) = n"
    "length (hkdf_expand_sm3 prk info n) = n"
    by (simp_all add: defs hkdf256.length_loop hkdf384.length_loop hkdf3.length_loop)
  have eq: "hkdf_expand prk info n = take n (hkdf_stream (hmac_spec sha256 64 prk) info 0 n)"
    "hkdf_expand_sha384 prk info n = take n (hkdf_stream (hmac_spec sha384 128 prk) info 0 n)"
    "hkdf_expand_sm3 prk info n = take n (hkdf_stream (hmac_spec sm3_hash 64 prk) info 0 n)"
    using hkdf256.loop_spec [of prk info n] hkdf384.loop_spec [of prk info n]
      hkdf3.loop_spec [of prk info n]
    by (simp_all add: defs hmac_sha256_eq [OF length_ctx64, abs_def]
        hmac_sha384_eq [OF length_sha512_raw, abs_def] hmac_sm3_eq [OF length_ctx64, abs_def])
  from len eq show ?thesis by blast
qed

text \<open>
  A shorter output is a prefix of a longer one with the same key and info, so two keys
  that share an info string are not independent: what separates them is the label.
\<close>

theorem hkdf_expand_prefix:
  assumes "a \<le> b"
  shows "hkdf_expand prk info a = take a (hkdf_expand prk info b)
    \<and> hkdf_expand_sha384 prk info a = take a (hkdf_expand_sha384 prk info b)
    \<and> hkdf_expand_sm3 prk info a = take a (hkdf_expand_sm3 prk info b)"
  using hkdf256.loop_prefix [OF assms] hkdf384.loop_prefix [OF assms] hkdf3.loop_prefix [OF assms]
  by (simp add: hkdf_expand_def hkdf_expand_sha384_def hkdf_expand_sm3_def)

theorem hkdf_expand_prefix_witness:
  "hkdf_expand [1] [2] 3 = take 3 (hkdf_expand [1] [2] 40)"
  using hkdf_expand_prefix [of 3 40 "[1]" "[2]"] by simp

lemma word8_of_nat_inj: "m < 256 \<Longrightarrow> n < 256 \<Longrightarrow> (word_of_nat m :: u8) = word_of_nat n \<longleftrightarrow> m = n"
  by (metis mod_less unat_u8_of_nat)

text \<open>
  The HkdfLabel determines the output length, the label and the context, within the
  sizes its length bytes can carry: distinct uses of a secret expand distinct info strings.
\<close>

theorem hkdf_label_injective:
  assumes "length l1 < 250" "length l2 < 250" "length c1 < 256" "length c2 < 256"
    and "n1 < 65536" "n2 < 65536"
    and "hkdf_label l1 c1 n1 = hkdf_label l2 c2 n2"
  shows "l1 = l2 \<and> c1 = c2 \<and> n1 = n2"
proof -
  have div: "n1 div 256 < 256" "n2 div 256 < 256" using assms(5,6) by simp_all
  have "(word_of_nat (n1 div 256) :: u8) = word_of_nat (n2 div 256)"
    and low: "(word_of_nat n1 :: u8) = word_of_nat n2"
    and len: "(word_of_nat (6 + length l1) :: u8) = word_of_nat (6 + length l2)"
    and rest: "l1 @ [word_of_nat (length c1)] @ c1 = l2 @ [word_of_nat (length c2)] @ c2"
    using assms(7) by (simp_all add: hkdf_label_def ascii_def)
  then have hi: "n1 div 256 = n2 div 256" using div by (simp only: word8_of_nat_inj)
  have "n1 mod 256 = n2 mod 256" using low by (metis unat_u8_of_nat)
  with hi have n: "n1 = n2" by (metis div_mult_mod_eq)
  have "length l1 = length l2"
    using len assms(1,2) word8_of_nat_inj [of "6 + length l1" "6 + length l2"] by simp
  with rest n show ?thesis by simp
qed

theorem hkdf_label_injective_witness:
  "hkdf_label (ascii ''key'') [] 16 \<noteq> hkdf_label (ascii ''iv'') [] 12"
  using hkdf_label_injective [of "ascii ''key''" "ascii ''iv''" "[]" "[]" 16 12]
  by (auto simp: ascii_def)

end
