(* ===== verification/CtMerkle.thy ===== *)
theory CtMerkle
  imports Sha256 Sm3
begin

text \<open>
  The Merkle hash tree of RFC 6962 in \<open>src/ct.cpp\<close>: leaf and node hashes over SM3 and
  SHA-256, the root, audit paths and consistency proofs, and the two verifiers, which work on
  the bits of an index instead of the tree. Indices and tree sizes are natural numbers; a slice
  \<open>leaves + k, n - k\<close> of the leaf array is a list.
\<close>

section \<open>Leaf and node hashes\<close>

type_synonym node_hash = bytes

text \<open>The contexts of these functions are stack variables; any value of them will do.\<close>

definition ct_ctx :: "u32 md_ctx" where
  "ct_ctx = \<lparr>ctx_h = [], ctx_len = 0, ctx_buf = replicate 64 0, ctx_buf_len = 0\<rparr>"

definition sm3_leaf_hash :: "bytes \<Rightarrow> node_hash" where
  "sm3_leaf_hash leaf = snd (sm3_final (sm3_update (sm3_update (sm3_init ct_ctx) [0x00]) leaf))"

definition sm3_node_hash :: "node_hash \<Rightarrow> node_hash \<Rightarrow> node_hash" where
  "sm3_node_hash l r =
     snd (sm3_final (sm3_update (sm3_update (sm3_update (sm3_init ct_ctx) [0x01]) l) r))"

definition sm3_empty_hash :: node_hash where
  "sm3_empty_hash = snd (sm3_final (sm3_init ct_ctx))"

definition sha256_leaf_hash :: "bytes \<Rightarrow> node_hash" where
  "sha256_leaf_hash leaf =
     (let ctx = sha256_update (sha256_init ct_ctx) [0x00];
          ctx = (if length leaf > 0 then sha256_update ctx leaf else ctx)
      in snd (sha256_final ctx))"

definition sha256_node_hash :: "node_hash \<Rightarrow> node_hash \<Rightarrow> node_hash" where
  "sha256_node_hash l r =
     snd (sha256_final (sha256_update (sha256_update (sha256_update (sha256_init ct_ctx) [0x01]) l) r))"

definition sha256_empty_hash :: node_hash where
  "sha256_empty_hash = sha256 []"

record hash_ops =
  op_leaf :: "bytes \<Rightarrow> node_hash"
  op_node :: "node_hash \<Rightarrow> node_hash \<Rightarrow> node_hash"
  op_empty :: node_hash

datatype CtHashAlg = SM3 | SHA256

definition ops_for :: "CtHashAlg \<Rightarrow> hash_ops" where
  "ops_for alg =
     (if alg = SHA256
      then \<lparr>op_leaf = sha256_leaf_hash, op_node = sha256_node_hash, op_empty = sha256_empty_hash\<rparr>
      else \<lparr>op_leaf = sm3_leaf_hash, op_node = sm3_node_hash, op_empty = sm3_empty_hash\<rparr>)"

definition node_hash_of :: "node_hash \<Rightarrow> node_hash \<Rightarrow> hash_ops \<Rightarrow> node_hash" where
  "node_hash_of l r ops = op_node ops l r"

section \<open>The tree\<close>

text \<open>\<open>while ((k << 1) < n) k <<= 1\<close>, from \<open>k = 1\<close>.\<close>

function pow2_loop :: "nat \<Rightarrow> nat \<Rightarrow> nat" where
  "pow2_loop k n = (if 0 < k \<and> 2 * k < n then pow2_loop (2 * k) n else k)"
  by pat_completeness auto
termination
  by (relation "measure (\<lambda>(k, n). n - k)") auto

declare pow2_loop.simps [simp del]

definition pow2_floor :: "nat \<Rightarrow> nat" where
  "pow2_floor n = pow2_loop 1 n"

lemma pow2_loop_eq: "2 ^ d < n \<Longrightarrow> n \<le> 2 ^ Suc d \<Longrightarrow> i \<le> d \<Longrightarrow> pow2_loop (2 ^ i) n = 2 ^ d"
proof (induction "d - i" arbitrary: i)
  case 0
  then show ?case by (subst pow2_loop.simps) simp
next
  case (Suc j)
  then have "2 ^ Suc i \<le> (2 :: nat) ^ d" by (intro power_increasing) simp_all
  with Suc.prems have "2 * 2 ^ i < n" by simp
  then have "pow2_loop (2 ^ i) n = pow2_loop (2 ^ Suc i) n"
    by (subst pow2_loop.simps) simp
  also have "\<dots> = 2 ^ d" using Suc by (intro Suc.hyps(1)) simp_all
  finally show ?case .
qed

lemma pow2_floor_eq: "2 ^ d < n \<Longrightarrow> n \<le> 2 ^ Suc d \<Longrightarrow> pow2_floor n = 2 ^ d"
  using pow2_loop_eq [of d n 0] by (simp add: pow2_floor_def)

text \<open>Every size has the power of two that halves it.\<close>

lemma pow2_bracket:
  assumes "2 \<le> n"
  obtains d where "2 ^ d < n" "n \<le> 2 ^ Suc d" "pow2_floor n = 2 ^ d"
proof -
  define d where "d = (LEAST d. n \<le> 2 ^ Suc d)"
  have "n \<le> 2 ^ Suc n" by (metis less_exp less_imp_le Suc_lessD less_trans_Suc power_Suc order.strict_trans2 lessI)
  then have le: "n \<le> 2 ^ Suc d" unfolding d_def by (rule LeastI)
  have "2 ^ d < n"
  proof (cases d)
    case 0
    with assms show ?thesis by simp
  next
    case (Suc e)
    then have "\<not> n \<le> 2 ^ Suc e" unfolding d_def by (intro not_less_Least) simp
    with Suc show ?thesis by simp
  qed
  with le pow2_floor_eq that show thesis by blast
qed

lemma pow2_floor_bounds: "2 \<le> n \<Longrightarrow> 0 < pow2_floor n \<and> pow2_floor n < n"
  by (auto elim: pow2_bracket [of n])

lemma pow2_floor_pos: "\<not> n \<le> Suc 0 \<Longrightarrow> 0 < pow2_floor n"
  and pow2_floor_less: "\<not> n \<le> Suc 0 \<Longrightarrow> pow2_floor n < n"
  using pow2_floor_bounds [of n] by simp_all

function mth_of :: "hash_ops \<Rightarrow> node_hash list \<Rightarrow> node_hash" where
  "mth_of ops leaves =
     (if length leaves = 0 then op_empty ops
      else if length leaves = 1 then leaves ! 0
      else let k = pow2_floor (length leaves)
           in node_hash_of (mth_of ops (take k leaves)) (mth_of ops (drop k leaves)) ops)"
  by pat_completeness auto
termination
  by (relation "measure (\<lambda>(ops, leaves). length leaves)")
    (auto simp: le_Suc_eq pow2_floor_pos pow2_floor_less min_less_iff_disj
          simp del: not_le intro: diff_less)

declare mth_of.simps [simp del]

definition merkle_root :: "node_hash list \<Rightarrow> CtHashAlg \<Rightarrow> node_hash" where
  "merkle_root leaf_hashes alg =
     (if leaf_hashes = [] then op_empty (ops_for alg) else mth_of (ops_for alg) leaf_hashes)"

section \<open>Proofs\<close>

text \<open>The code pushes onto \<open>out\<close>; the model returns what is pushed.\<close>

function path_impl :: "nat \<Rightarrow> node_hash list \<Rightarrow> hash_ops \<Rightarrow> node_hash list" where
  "path_impl m leaves ops =
     (if length leaves \<le> 1 then []
      else let k = pow2_floor (length leaves)
           in if m < k then path_impl m (take k leaves) ops @ [mth_of ops (drop k leaves)]
              else path_impl (m - k) (drop k leaves) ops @ [mth_of ops (take k leaves)])"
  by pat_completeness auto
termination
  by (relation "measure (\<lambda>(m, leaves, ops). length leaves)")
    (auto simp: pow2_floor_pos pow2_floor_less min_less_iff_disj
          simp del: not_le intro: diff_less)

declare path_impl.simps [simp del]

definition audit_path :: "nat \<Rightarrow> node_hash list \<Rightarrow> CtHashAlg \<Rightarrow> node_hash list" where
  "audit_path leaf_index leaf_hashes alg =
     (if leaf_index \<ge> length leaf_hashes then [] else path_impl leaf_index leaf_hashes (ops_for alg))"

function subproof_impl :: "nat \<Rightarrow> node_hash list \<Rightarrow> bool \<Rightarrow> hash_ops \<Rightarrow> node_hash list" where
  "subproof_impl m leaves b ops =
     (if m = length leaves \<or> length leaves \<le> 1 then (if b then [] else [mth_of ops leaves])
      else let k = pow2_floor (length leaves)
           in if m \<le> k then subproof_impl m (take k leaves) b ops @ [mth_of ops (drop k leaves)]
              else subproof_impl (m - k) (drop k leaves) False ops @ [mth_of ops (take k leaves)])"
  by pat_completeness auto
termination
  by (relation "measure (\<lambda>(m, leaves, b, ops). length leaves)")
    (auto simp: pow2_floor_pos pow2_floor_less min_less_iff_disj
          simp del: not_le intro: diff_less)

declare subproof_impl.simps [simp del]

definition consistency_proof :: "nat \<Rightarrow> nat \<Rightarrow> node_hash list \<Rightarrow> CtHashAlg \<Rightarrow> node_hash list" where
  "consistency_proof first second leaf_hashes alg =
     (if first = 0 \<or> first > second \<or> second > length leaf_hashes then []
      else subproof_impl first (take second leaf_hashes) True (ops_for alg))"

section \<open>Verifiers\<close>

text \<open>\<open>while (fn != 0 && (fn & 1) == 0) { fn >>= 1; sn >>= 1; }\<close>\<close>

function shift_even :: "nat \<Rightarrow> nat \<Rightarrow> nat \<times> nat" where
  "shift_even fn sn = (if fn \<noteq> 0 \<and> even fn then shift_even (fn div 2) (sn div 2) else (fn, sn))"
  by pat_completeness auto
termination
  by (relation "measure fst") auto

text \<open>\<open>while (fn & 1) { fn >>= 1; sn >>= 1; }\<close>\<close>

function shift_odd :: "nat \<Rightarrow> nat \<Rightarrow> nat \<times> nat" where
  "shift_odd fn sn = (if odd fn then shift_odd (fn div 2) (sn div 2) else (fn, sn))"
  by pat_completeness auto
termination
  by (relation "measure fst") (auto elim: oddE)

declare shift_even.simps [simp del] shift_odd.simps [simp del]

fun audit_loop ::
  "hash_ops \<Rightarrow> node_hash list \<Rightarrow> nat \<Rightarrow> nat \<Rightarrow> node_hash \<Rightarrow> (nat \<times> node_hash) option" where
  "audit_loop ops [] fn sn fr = Some (sn, fr)"
| "audit_loop ops (c # path) fn sn fr =
     (if sn = 0 then None
      else
        let (fn, sn, fr) =
              (if odd fn \<or> fn = sn then
                 let fr = node_hash_of c fr ops;
                     (fn, sn) = (if even fn then shift_even fn sn else (fn, sn))
                 in (fn, sn, fr)
               else (fn, sn, node_hash_of fr c ops))
        in audit_loop ops path (fn div 2) (sn div 2) fr)"

definition verify_audit_path ::
  "nat \<Rightarrow> nat \<Rightarrow> node_hash \<Rightarrow> node_hash list \<Rightarrow> node_hash \<Rightarrow> CtHashAlg \<Rightarrow> bool" where
  "verify_audit_path leaf_index tree_size leaf_hash path root alg =
     (if leaf_index \<ge> tree_size then False
      else case audit_loop (ops_for alg) path leaf_index (tree_size - 1) leaf_hash of
             None \<Rightarrow> False
           | Some (sn, fr) \<Rightarrow> fr = root \<and> sn = 0)"

fun consistency_loop ::
  "hash_ops \<Rightarrow> node_hash list \<Rightarrow> nat \<Rightarrow> nat \<Rightarrow> node_hash \<Rightarrow> node_hash \<Rightarrow>
   (nat \<times> node_hash \<times> node_hash) option" where
  "consistency_loop ops [] fn sn fr sr = Some (sn, fr, sr)"
| "consistency_loop ops (c # p) fn sn fr sr =
     (if sn = 0 then None
      else
        let (fn, sn, fr, sr) =
              (if odd fn \<or> fn = sn then
                 let fr = node_hash_of c fr ops; sr = node_hash_of c sr ops;
                     (fn, sn) = shift_even fn sn
                 in (fn, sn, fr, sr)
               else (fn, sn, fr, node_hash_of sr c ops))
        in consistency_loop ops p (fn div 2) (sn div 2) fr sr)"

definition verify_consistency ::
  "nat \<Rightarrow> nat \<Rightarrow> node_hash \<Rightarrow> node_hash \<Rightarrow> node_hash list \<Rightarrow> CtHashAlg \<Rightarrow> bool" where
  "verify_consistency first second first_root second_root proof_nodes alg =
     (if first > second \<or> first = 0 then False
      else if first = second then proof_nodes = [] \<and> first_root = second_root
      else
        let p = (if first AND (first - 1) = 0 then first_root # proof_nodes else proof_nodes)
        in case p of
             [] \<Rightarrow> False
           | p0 # ps \<Rightarrow>
               let (fn, sn) = shift_odd (first - 1) (second - 1)
               in case consistency_loop (ops_for alg) ps fn sn p0 p0 of
                    None \<Rightarrow> False
                  | Some (sn, fr, sr) \<Rightarrow> fr = first_root \<and> sr = second_root \<and> sn = 0)"


section \<open>Audit paths\<close>

definition pair_at :: "bool \<Rightarrow> node_hash \<Rightarrow> node_hash \<Rightarrow> node_hash \<times> node_hash" where
  "pair_at right c fr = (if right then (c, fr) else (fr, c))"

definition next_at :: "nat \<Rightarrow> nat \<Rightarrow> nat \<times> nat" where
  "next_at fn sn = map_prod (\<lambda>x. x div 2) (\<lambda>x. x div 2) (if fn = sn then shift_even fn sn else (fn, sn))"

lemma shift_even_odd [simp]: "odd fn \<Longrightarrow> shift_even fn sn = (fn, sn)"
  by (subst shift_even.simps) simp

lemma shift_odd_even [simp]: "even fn \<Longrightarrow> shift_odd fn sn = (fn, sn)"
  by (subst shift_odd.simps) simp

lemma shift_even_pow2: "odd x \<Longrightarrow> shift_even (x * 2 ^ j) sn = (x, sn div 2 ^ j)"
proof (induction j arbitrary: sn)
  case (Suc j)
  then have "shift_even (x * 2 ^ Suc j) sn = shift_even (x * 2 ^ j) (sn div 2)"
    by (subst shift_even.simps) (auto simp: odd_pos)
  with Suc show ?case by (simp add: div_mult2_eq)
qed simp

lemma shift_odd_pow2: "shift_odd (a * 2 ^ d + 2 ^ d - 1) sn = shift_odd a (sn div 2 ^ d)"
proof (induction d arbitrary: sn)
  case (Suc d)
  obtain k :: nat where k: "2 ^ d = Suc k" by (cases "2 ^ d :: nat") auto
  have eq: "a * 2 ^ Suc d + 2 ^ Suc d - 1 = Suc (2 * (a * 2 ^ d + 2 ^ d - 1))"
    by (simp add: k)
  have "shift_odd (a * 2 ^ Suc d + 2 ^ Suc d - 1) sn = shift_odd (a * 2 ^ d + 2 ^ d - 1) (sn div 2)"
    unfolding eq by (subst shift_odd.simps) simp
  with Suc show ?case by (simp add: div_mult2_eq)
qed simp

text \<open>Both verifiers take the same steps, on the index alone.\<close>

lemma audit_loop_Cons:
  "audit_loop ops (c # p) fn sn fr =
     (if sn = 0 then None
      else audit_loop ops p (fst (next_at fn sn)) (snd (next_at fn sn))
             (case_prod (op_node ops) (pair_at (odd fn \<or> fn = sn) c fr)))"
  by (auto simp: Let_def pair_at_def next_at_def node_hash_of_def split: prod.splits)

lemma consistency_loop_Cons:
  "consistency_loop ops (c # p) fn sn fr sr =
     (if sn = 0 then None
      else consistency_loop ops p (fst (next_at fn sn)) (snd (next_at fn sn))
             (if odd fn \<or> fn = sn then op_node ops c fr else fr)
             (case_prod (op_node ops) (pair_at (odd fn \<or> fn = sn) c sr)))"
  by (auto simp: Let_def pair_at_def next_at_def node_hash_of_def split: prod.splits)

declare audit_loop.simps(2) [simp del] consistency_loop.simps(2) [simp del]

text \<open>The three kinds of step: from a left child, from a right child, and from the last node of
  a level, which has no sibling on its right.\<close>

lemma next_left: "2 * a < s \<Longrightarrow> next_at (2 * a) s = (a, s div 2)"
  by (simp add: next_at_def)

lemma next_right: "next_at (Suc (2 * a)) s = (a, s div 2)"
  by (cases "Suc (2 * a) = s") (auto simp: next_at_def)

lemma next_last: "next_at (Suc (2 * a) * 2 ^ j) (Suc (2 * a) * 2 ^ j) = (a, a)"
  using shift_even_pow2 [of "Suc (2 * a)" j] by (simp add: next_at_def del: mult_Suc)

lemma mth_of_one: "length L = 1 \<Longrightarrow> mth_of ops L = L ! 0"
  by (subst mth_of.simps) simp

lemma mth_of_split:
  "2 ^ d < length L \<Longrightarrow> length L \<le> 2 ^ Suc d \<Longrightarrow>
   mth_of ops L = op_node ops (mth_of ops (take (2 ^ d) L)) (mth_of ops (drop (2 ^ d) L))"
  using one_le_power [of "2 :: nat" d]
  by (subst mth_of.simps) (auto simp: pow2_floor_eq node_hash_of_def Let_def simp del: one_le_power)

lemma path_impl_one: "length L = 1 \<Longrightarrow> path_impl m L ops = []"
  by (subst path_impl.simps) simp

lemma path_impl_split:
  "2 ^ d < length L \<Longrightarrow> length L \<le> 2 ^ Suc d \<Longrightarrow>
   path_impl m L ops =
     (if m < 2 ^ d then path_impl m (take (2 ^ d) L) ops @ [mth_of ops (drop (2 ^ d) L)]
      else path_impl (m - 2 ^ d) (drop (2 ^ d) L) ops @ [mth_of ops (take (2 ^ d) L)])"
  using one_le_power [of "2 :: nat" d]
  by (subst path_impl.simps) (auto simp: pow2_floor_eq Let_def simp del: one_le_power)

lemma pow2_neq_0: "(2 :: nat) ^ d \<noteq> 0"
  by simp

lemma audit_perfect:
  assumes "length L = 2 ^ d" "m < 2 ^ d" "a * 2 ^ d + 2 ^ d \<le> Suc sn"
  shows "audit_loop ops (path_impl m L ops @ rest) (a * 2 ^ d + m) sn (L ! m) =
         audit_loop ops rest a (sn div 2 ^ d) (mth_of ops L)"
  using assms
proof (induction d arbitrary: a m L rest)
  case 0
  then show ?case by (simp add: path_impl_one mth_of_one)
next
  case (Suc d)
  have half: "2 ^ d < length L" "length L \<le> 2 ^ Suc d" using Suc.prems by simp_all
  obtain k :: nat where k: "2 ^ d = Suc k" by (cases "2 ^ d :: nat") auto
  have sn: "2 * a + 1 \<le> sn div 2 ^ d"
    using Suc.prems(3) unfolding power_Suc k by (simp add: less_eq_div_iff_mult_less_eq algebra_simps)
  have sn2: "sn div 2 ^ d div 2 = sn div 2 ^ Suc d"
    by (simp add: div_mult2_eq [symmetric] mult.commute)
  show ?case
  proof (cases "m < 2 ^ d")
    case True
    have "audit_loop ops (path_impl m (take (2 ^ d) L) ops @ mth_of ops (drop (2 ^ d) L) # rest)
            (2 * a * 2 ^ d + m) sn (take (2 ^ d) L ! m) =
          audit_loop ops (mth_of ops (drop (2 ^ d) L) # rest) (2 * a) (sn div 2 ^ d) (mth_of ops (take (2 ^ d) L))"
      using Suc.prems True by (intro Suc.IH) (auto simp: algebra_simps)
    moreover have "2 * a * 2 ^ d + m = a * 2 ^ Suc d + m" by simp
    ultimately show ?thesis using True sn sn2 half
      by (simp add: path_impl_split mth_of_split audit_loop_Cons next_left pair_at_def)
  next
    case False
    have "audit_loop ops (path_impl (m - 2 ^ d) (drop (2 ^ d) L) ops @ mth_of ops (take (2 ^ d) L) # rest)
            (Suc (2 * a) * 2 ^ d + (m - 2 ^ d)) sn (drop (2 ^ d) L ! (m - 2 ^ d)) =
          audit_loop ops (mth_of ops (take (2 ^ d) L) # rest) (Suc (2 * a)) (sn div 2 ^ d) (mth_of ops (drop (2 ^ d) L))"
      using Suc.prems False by (intro Suc.IH) (auto simp: algebra_simps)
    moreover have "Suc (2 * a) * 2 ^ d + (m - 2 ^ d) = a * 2 ^ Suc d + m" using False by simp
    ultimately show ?thesis using False sn sn2 half
      by (simp add: path_impl_split mth_of_split audit_loop_Cons next_right pair_at_def del: mult_Suc)
  qed
qed

text \<open>The depth of a tree of \<open>n\<close> leaves.\<close>

lemma depth_ex:
  fixes n :: nat
  assumes "0 < n"
  obtains e where "n \<le> 2 ^ e" "2 ^ e < 2 * n"
proof (cases "n = 1")
  case True
  then show ?thesis using that [of 0] by simp
next
  case False
  with assms have "2 \<le> n" by simp
  then obtain d where "2 ^ d < n" "n \<le> 2 ^ Suc d" by (rule pow2_bracket)
  then show ?thesis using that [of "Suc d"] by simp
qed

lemma audit_spine:
  assumes "length L \<le> 2 ^ e" "2 ^ e < 2 * length L" "m < length L"
  shows "audit_loop ops (path_impl m L ops @ rest) (a * 2 ^ e + m) (a * 2 ^ e + length L - 1) (L ! m) =
         audit_loop ops rest a a (mth_of ops L)"
  using assms
proof (induction "length L" arbitrary: L e a m rest rule: less_induct)
  case less
  show ?case
  proof (cases e)
    case 0
    with less.prems have "length L = 1" by simp
    with 0 less.prems show ?thesis by (simp add: path_impl_one mth_of_one)
  next
    case (Suc d)
    note half = less.prems(1,2) [unfolded Suc]
    then have half': "2 ^ d < length L" "length L \<le> 2 ^ Suc d" by simp_all
    let ?sn = "a * 2 ^ e + length L - 1"
    have snd: "?sn = (length L - 1 - 2 ^ d) + Suc (2 * a) * 2 ^ d" using half' Suc by simp
    have sn: "?sn div 2 ^ d = Suc (2 * a)"
      unfolding snd div_mult_self1 [OF pow2_neq_0] using half' by simp
    show ?thesis
    proof (cases "m < 2 ^ d")
      case True
      have "audit_loop ops (path_impl m (take (2 ^ d) L) ops @ mth_of ops (drop (2 ^ d) L) # rest)
              (2 * a * 2 ^ d + m) ?sn (take (2 ^ d) L ! m) =
            audit_loop ops (mth_of ops (drop (2 ^ d) L) # rest) (2 * a) (?sn div 2 ^ d) (mth_of ops (take (2 ^ d) L))"
        using half' True Suc by (intro audit_perfect) auto
      moreover have "2 * a * 2 ^ d + m = a * 2 ^ e + m" using Suc by simp
      ultimately show ?thesis using True sn half'
        by (simp add: path_impl_split mth_of_split audit_loop_Cons next_left pair_at_def)
    next
      case False
      let ?R = "drop (2 ^ d) L"
      have R: "0 < length ?R" "length ?R < length L" "length ?R \<le> 2 ^ d" using half' by auto
      then obtain f where f: "length ?R \<le> 2 ^ f" "2 ^ f < 2 * length ?R"
        using depth_ex [of "length ?R"] by force
      then have "(2 :: nat) ^ f < 2 ^ Suc d" using R by simp
      then have fd: "f \<le> d" by (simp add: power_strict_increasing_iff less_Suc_eq_le del: power_Suc)
      let ?A = "Suc (2 * a) * 2 ^ (d - f)"
      have A: "?A * 2 ^ f = Suc (2 * a) * 2 ^ d" using fd by (simp add: mult.assoc flip: power_add del: mult_Suc)
      have "audit_loop ops (path_impl (m - 2 ^ d) ?R ops @ mth_of ops (take (2 ^ d) L) # rest)
              (?A * 2 ^ f + (m - 2 ^ d)) (?A * 2 ^ f + length ?R - 1) (?R ! (m - 2 ^ d)) =
            audit_loop ops (mth_of ops (take (2 ^ d) L) # rest) ?A ?A (mth_of ops ?R)"
        using less.prems False R f by (intro less.hyps) auto
      moreover have "?A * 2 ^ f + (m - 2 ^ d) = a * 2 ^ e + m" "?A * 2 ^ f + length ?R - 1 = ?sn"
        unfolding A using False half' Suc by simp_all
      ultimately show ?thesis using False half' Suc
        by (simp add: path_impl_split mth_of_split audit_loop_Cons next_last pair_at_def del: mult_Suc)
    qed
  qed
qed

lemma audit_complete:
  assumes "m < length L"
  shows "audit_loop ops (path_impl m L ops) m (length L - 1) (L ! m) = Some (0, mth_of ops L)"
proof -
  obtain e where "length L \<le> 2 ^ e" "2 ^ e < 2 * length L"
    using depth_ex [of "length L"] assms by force
  from audit_spine [OF this assms, of ops "[]" 0] show ?thesis by simp
qed


text \<open>
  The verifier binds: whoever makes it accept two different things for one root has found a
  collision of the node hash, and \<open>audit_clash\<close> reads it off the two paths.
\<close>

fun audit_clash ::
  "hash_ops \<Rightarrow> node_hash list \<Rightarrow> node_hash list \<Rightarrow> nat \<Rightarrow> nat \<Rightarrow> node_hash \<Rightarrow> node_hash \<Rightarrow>
   ((node_hash \<times> node_hash) \<times> (node_hash \<times> node_hash)) option" where
  "audit_clash ops (c # p) (c' # p') fn sn fr fr' =
     (let x = pair_at (odd fn \<or> fn = sn) c fr; x' = pair_at (odd fn \<or> fn = sn) c' fr';
          y = case_prod (op_node ops) x; y' = case_prod (op_node ops) x'
      in if x \<noteq> x' \<and> y = y' then Some (x, x')
         else audit_clash ops p p' (fst (next_at fn sn)) (snd (next_at fn sn)) y y')"
| "audit_clash ops _ _ fn sn fr fr' = None"

text \<open>A node-hash collision, given as the two pairs of children.\<close>

definition node_collision ::
  "hash_ops \<Rightarrow> ((node_hash \<times> node_hash) \<times> (node_hash \<times> node_hash)) option \<Rightarrow> bool" where
  "node_collision ops z = (case z of
       None \<Rightarrow> False
     | Some (x, x') \<Rightarrow> x \<noteq> x' \<and> case_prod (op_node ops) x = case_prod (op_node ops) x')"

lemma pair_at_eq [simp]: "pair_at right c x = pair_at right c' x' \<longleftrightarrow> c = c' \<and> x = x'"
  by (auto simp: pair_at_def)

lemma audit_loop_clash:
  assumes "audit_loop ops p fn sn fr = Some (0, r)" "audit_loop ops p' fn sn fr' = Some (0, r)"
  shows "p = p' \<and> fr = fr' \<or> node_collision ops (audit_clash ops p p' fn sn fr fr')"
  using assms
proof (induction p arbitrary: p' fn sn fr fr')
  case Nil
  then show ?case by (cases p') (auto simp: audit_loop_Cons split: if_splits)
next
  case (Cons c p)
  show ?case
  proof (cases p')
    case Nil
    with Cons.prems show ?thesis by (auto simp: audit_loop_Cons split: if_splits)
  next
    case p': (Cons c' q)
    let ?x = "pair_at (odd fn \<or> fn = sn) c fr" and ?x' = "pair_at (odd fn \<or> fn = sn) c' fr'"
    have run: "audit_loop ops p (fst (next_at fn sn)) (snd (next_at fn sn)) (case_prod (op_node ops) ?x) = Some (0, r)"
      "audit_loop ops q (fst (next_at fn sn)) (snd (next_at fn sn)) (case_prod (op_node ops) ?x') = Some (0, r)"
      using Cons.prems p' by (auto simp only: audit_loop_Cons option.distinct split: if_splits)
    from Cons.IH [OF run] p' show ?thesis
      by (auto simp: Let_def node_collision_def simp del: case_prod_conv)
  qed
qed

lemma consistency_loop_audit:
  "consistency_loop ops p fn sn fr sr = Some (s, f, r) \<Longrightarrow> audit_loop ops p fn sn sr = Some (s, r)"
  by (induction p arbitrary: fn sn fr sr)
    (auto simp: consistency_loop_Cons audit_loop_Cons split: if_splits)

section \<open>Consistency proofs\<close>

lemma subproof_whole: "subproof_impl (length L) L b ops = (if b then [] else [mth_of ops L])"
  by (subst subproof_impl.simps) simp

lemma subproof_split:
  "2 ^ d < length L \<Longrightarrow> length L \<le> 2 ^ Suc d \<Longrightarrow> m \<noteq> length L \<Longrightarrow>
   subproof_impl m L b ops =
     (if m \<le> 2 ^ d then subproof_impl m (take (2 ^ d) L) b ops @ [mth_of ops (drop (2 ^ d) L)]
      else subproof_impl (m - 2 ^ d) (drop (2 ^ d) L) False ops @ [mth_of ops (take (2 ^ d) L)])"
  using one_le_power [of "2 :: nat" d]
  by (subst subproof_impl.simps) (auto simp: pow2_floor_eq Let_def simp del: one_le_power)

text \<open>What is left of a proof when its first node, the largest complete subtree that ends at the
  old size, has been taken off.\<close>

definition subproof_run ::
  "hash_ops \<Rightarrow> node_hash list \<Rightarrow> nat \<Rightarrow> nat \<Rightarrow> (nat \<times> node_hash \<times> node_hash) option" where
  "subproof_run ops p fn sn =
     (case p of [] \<Rightarrow> None
      | s # ps \<Rightarrow> consistency_loop ops ps (fst (shift_odd fn sn)) (snd (shift_odd fn sn)) s s)"

lemma mth_take_split:
  assumes "length L \<le> 2 ^ Suc d" "2 ^ d < m" "m \<le> length L"
  shows "mth_of ops (take m L) =
           op_node ops (mth_of ops (take (2 ^ d) L)) (mth_of ops (take (m - 2 ^ d) (drop (2 ^ d) L)))"
proof -
  have "mth_of ops (take m L) = op_node ops (mth_of ops (take (2 ^ d) (take m L))) (mth_of ops (drop (2 ^ d) (take m L)))"
    using assms by (intro mth_of_split) simp_all
  with assms show ?thesis by (simp add: drop_take)
qed

lemma subproof_nonempty: "subproof_impl m L False ops \<noteq> []"
  by (induction m L False ops rule: subproof_impl.induct) (subst subproof_impl.simps, auto simp: Let_def)


lemma consistency_perfect:
  assumes "length L = 2 ^ d" "0 < m" "m < 2 ^ d \<or> m = 2 ^ d \<and> even a" "a * 2 ^ d + 2 ^ d \<le> Suc sn"
  shows "subproof_run ops (subproof_impl m L False ops @ rest) (a * 2 ^ d + m - 1) sn =
         consistency_loop ops rest a (sn div 2 ^ d) (mth_of ops (take m L)) (mth_of ops L)"
  using assms
proof (induction d arbitrary: a m L rest)
  case 0
  then show ?case using subproof_whole [of L False ops] by (simp add: subproof_run_def)
next
  case (Suc d)
  have half: "2 ^ d < length L" "length L \<le> 2 ^ Suc d" using Suc.prems by simp_all
  obtain k :: nat where k: "2 ^ d = Suc k" by (cases "2 ^ d :: nat") auto
  have sn: "2 * a + 1 \<le> sn div 2 ^ d"
    using Suc.prems(4) unfolding power_Suc k by (simp add: less_eq_div_iff_mult_less_eq algebra_simps)
  have sn2: "sn div 2 ^ d div 2 = sn div 2 ^ Suc d"
    by (simp add: div_mult2_eq [symmetric] mult.commute)
  consider "m = 2 ^ Suc d" "even a" | "m \<le> 2 ^ d" | "2 ^ d < m" "m < 2 ^ Suc d"
    using Suc.prems(3) by force
  then show ?case
  proof cases
    case 1
    then show ?thesis
      using subproof_whole [of L False ops] shift_odd_pow2 [of a "Suc d" sn] Suc.prems(1)
      by (simp add: subproof_run_def)
  next
    case 2
    have "subproof_run ops (subproof_impl m (take (2 ^ d) L) False ops @ mth_of ops (drop (2 ^ d) L) # rest)
            (2 * a * 2 ^ d + m - 1) sn =
          consistency_loop ops (mth_of ops (drop (2 ^ d) L) # rest) (2 * a) (sn div 2 ^ d)
            (mth_of ops (take m (take (2 ^ d) L))) (mth_of ops (take (2 ^ d) L))"
      using Suc.prems 2 half by (intro Suc.IH) auto
    moreover have "2 * a * 2 ^ d + m - 1 = a * 2 ^ Suc d + m - 1" by simp
    moreover have "m \<noteq> length L" using 2 half by simp
    moreover have "take m (take (2 ^ d) L) = take m L" using 2 by (simp add: min_absorb1)
    ultimately show ?thesis using 2 sn sn2 half
      by (simp add: subproof_split mth_of_split consistency_loop_Cons next_left pair_at_def del: take_take)
  next
    case 3
    have "subproof_run ops (subproof_impl (m - 2 ^ d) (drop (2 ^ d) L) False ops @ mth_of ops (take (2 ^ d) L) # rest)
            (Suc (2 * a) * 2 ^ d + (m - 2 ^ d) - 1) sn =
          consistency_loop ops (mth_of ops (take (2 ^ d) L) # rest) (Suc (2 * a)) (sn div 2 ^ d)
            (mth_of ops (take (m - 2 ^ d) (drop (2 ^ d) L))) (mth_of ops (drop (2 ^ d) L))"
      using Suc.prems 3 half by (intro Suc.IH) auto
    moreover have "Suc (2 * a) * 2 ^ d + (m - 2 ^ d) - 1 = a * 2 ^ Suc d + m - 1" using 3 by simp
    moreover have "m \<noteq> length L" "m \<le> length L" using 3 Suc.prems(1) by simp_all
    ultimately show ?thesis using 3 sn sn2 half
      by (simp add: subproof_split [OF half] mth_of_split [OF half] mth_take_split consistency_loop_Cons next_right pair_at_def
          del: mult_Suc power_Suc)
  qed
qed

lemma consistency_spine:
  assumes "length L \<le> 2 ^ e" "2 ^ e < 2 * length L" "0 < m" "m < length L"
  shows "subproof_run ops (subproof_impl m L False ops @ rest) (a * 2 ^ e + m - 1) (a * 2 ^ e + length L - 1) =
         consistency_loop ops rest a a (mth_of ops (take m L)) (mth_of ops L)"
  using assms
proof (induction "length L" arbitrary: L e a m rest rule: less_induct)
  case less
  obtain d where Suc: "e = Suc d" using less.prems by (cases e) auto
  note half = less.prems(1,2) [unfolded Suc]
  then have half': "2 ^ d < length L" "length L \<le> 2 ^ Suc d" by simp_all
  let ?sn = "a * 2 ^ e + length L - 1"
  have snd: "?sn = (length L - 1 - 2 ^ d) + Suc (2 * a) * 2 ^ d" using half' Suc by simp
  have sn: "?sn div 2 ^ d = Suc (2 * a)"
    unfolding snd div_mult_self1 [OF pow2_neq_0] using half' by simp
  have m: "m \<noteq> length L" "m \<le> length L" using less.prems by simp_all
  show ?case
  proof (cases "m \<le> 2 ^ d")
    case True
    have "subproof_run ops (subproof_impl m (take (2 ^ d) L) False ops @ mth_of ops (drop (2 ^ d) L) # rest)
            (2 * a * 2 ^ d + m - 1) ?sn =
          consistency_loop ops (mth_of ops (drop (2 ^ d) L) # rest) (2 * a) (?sn div 2 ^ d)
            (mth_of ops (take m (take (2 ^ d) L))) (mth_of ops (take (2 ^ d) L))"
      using less.prems half' True Suc by (intro consistency_perfect) auto
    moreover have "2 * a * 2 ^ d + m - 1 = a * 2 ^ e + m - 1" using Suc by simp
    moreover have "take m (take (2 ^ d) L) = take m L" using True by (simp add: min_absorb1)
    ultimately show ?thesis using True sn half' m
      by (simp add: subproof_split mth_of_split consistency_loop_Cons next_left pair_at_def del: take_take)
  next
    case False
    let ?R = "drop (2 ^ d) L"
    have R: "0 < length ?R" "length ?R < length L" "length ?R \<le> 2 ^ d" using half' by auto
    then obtain f where f: "length ?R \<le> 2 ^ f" "2 ^ f < 2 * length ?R"
      using depth_ex [of "length ?R"] by force
    then have "(2 :: nat) ^ f < 2 ^ Suc d" using R by simp
    then have fd: "f \<le> d" by (simp add: power_strict_increasing_iff less_Suc_eq_le del: power_Suc)
    let ?A = "Suc (2 * a) * 2 ^ (d - f)"
    have A: "?A * 2 ^ f = Suc (2 * a) * 2 ^ d" using fd by (simp add: mult.assoc flip: power_add del: mult_Suc)
    have "subproof_run ops (subproof_impl (m - 2 ^ d) ?R False ops @ mth_of ops (take (2 ^ d) L) # rest)
            (?A * 2 ^ f + (m - 2 ^ d) - 1) (?A * 2 ^ f + length ?R - 1) =
          consistency_loop ops (mth_of ops (take (2 ^ d) L) # rest) ?A ?A
            (mth_of ops (take (m - 2 ^ d) ?R)) (mth_of ops ?R)"
      using less.prems False R f by (intro less.hyps) auto
    moreover have "?A * 2 ^ f + (m - 2 ^ d) - 1 = a * 2 ^ e + m - 1" "?A * 2 ^ f + length ?R - 1 = ?sn"
      unfolding A using False half' Suc by simp_all
    ultimately show ?thesis using False half' m
      by (simp add: subproof_split [OF half'] mth_of_split [OF half'] mth_take_split consistency_loop_Cons next_last pair_at_def
          del: mult_Suc power_Suc)
  qed
qed

text \<open>The first node is left out exactly when the old tree is itself complete.\<close>

lemma subproof_pow2:
  assumes "2 ^ j \<le> length L"
  shows "subproof_impl (2 ^ j) L False ops = mth_of ops (take (2 ^ j) L) # subproof_impl (2 ^ j) L True ops"
  using assms
proof (induction "length L" arbitrary: L rule: less_induct)
  case less
  show ?case
  proof (cases "2 ^ j = length L")
    case True
    then show ?thesis using subproof_whole [of L _ ops] by simp
  next
    case False
    with less.prems have "2 ^ j < length L" by simp
    moreover have "1 \<le> (2 :: nat) ^ j" by simp
    ultimately have "2 \<le> length L" by linarith
    then obtain d where d: "2 ^ d < length L" "length L \<le> 2 ^ Suc d" by (rule pow2_bracket)
    have "(2 :: nat) ^ j < 2 ^ Suc d" using \<open>2 ^ j < length L\<close> d(2) by simp
    then have "j \<le> d" by (simp add: power_strict_increasing_iff less_Suc_eq_le del: power_Suc)
    then have le: "(2 :: nat) ^ j \<le> 2 ^ d" by (simp add: power_increasing)
    with less.hyps [of "take (2 ^ d) L"] d
    have "subproof_impl (2 ^ j) (take (2 ^ d) L) False ops =
            mth_of ops (take (2 ^ j) L) # subproof_impl (2 ^ j) (take (2 ^ d) L) True ops"
      by (simp add: min_absorb1)
    with le show ?thesis by (simp add: subproof_split [OF d False])
  qed
qed

lemma subproof_not_pow2:
  assumes "\<forall>j. m \<noteq> 2 ^ j" "0 < m" "m < length L"
  shows "subproof_impl m L True ops = subproof_impl m L False ops"
  using assms
proof (induction "length L" arbitrary: L rule: less_induct)
  case less
  then have "2 \<le> length L" by simp
  then obtain d where d: "2 ^ d < length L" "length L \<le> 2 ^ Suc d" by (rule pow2_bracket)
  have "m \<noteq> 2 ^ d" using less.prems(1) by blast
  then have "m \<le> 2 ^ d \<longleftrightarrow> m < 2 ^ d" by auto
  with less.hyps [of "take (2 ^ d) L"] less.prems d show ?case
    by (simp add: subproof_split)
qed

lemma and_pred_eq_0: "0 < m \<Longrightarrow> m AND (m - 1) = 0 \<longleftrightarrow> (\<exists>j. m = (2 :: nat) ^ j)"
proof (induction m rule: less_induct)
  case (less m)
  show ?case
  proof (cases "even m")
    case False
    then obtain k where k: "m = Suc (2 * k)" by (auto elim: oddE)
    have "m AND (m - 1) = 2 * k" unfolding k
      by (subst and_nat_unfold) simp
    moreover have "(\<exists>j. m = 2 ^ j) \<longleftrightarrow> k = 0"
    proof
      assume "\<exists>j. m = 2 ^ j"
      then obtain j where "m = 2 ^ j" by blast
      with False have "j = 0" by (cases j) auto
      with k \<open>m = 2 ^ j\<close> show "k = 0" by simp
    next
      assume "k = 0"
      with k show "\<exists>j. m = 2 ^ j" by (intro exI [of _ 0]) simp
    qed
    ultimately show ?thesis by simp
  next
    case True
    then obtain k where k: "m = 2 * k" by (auto elim: evenE)
    with less.prems have "0 < k" by simp
    have eq: "m AND (m - 1) = 2 * (k AND (k - 1))"
      using \<open>0 < k\<close> unfolding k by (subst and_nat_unfold) (cases k, auto)
    moreover have "(\<exists>j. m = 2 ^ j) \<longleftrightarrow> (\<exists>j. k = 2 ^ j)"
    proof
      assume "\<exists>j. m = 2 ^ j"
      then obtain j where j: "m = 2 ^ j" by blast
      show "\<exists>j. k = 2 ^ j"
      proof (cases j)
        case 0
        with j k show ?thesis by simp
      next
        case (Suc i)
        with j k have "k = 2 ^ i" by simp
        then show ?thesis by blast
      qed
    next
      assume "\<exists>j. k = 2 ^ j"
      then show "\<exists>j. m = 2 ^ j" using k by (metis power_Suc)
    qed
    ultimately show ?thesis using less.IH [of k] k \<open>0 < k\<close> by simp
  qed
qed


lemma consistency_complete:
  assumes "0 < m" "m < length L"
  shows "subproof_run ops (subproof_impl m L False ops) (m - 1) (length L - 1) =
         Some (0, mth_of ops (take m L), mth_of ops L)"
proof -
  obtain e where e: "length L \<le> 2 ^ e" "2 ^ e < 2 * length L"
    using depth_ex [of "length L"] assms by force
  from consistency_spine [OF e assms, of ops "[]" 0] show ?thesis by simp
qed

text \<open>The verifier runs over the proof with the first root put back where it was left out.\<close>

definition full_proof :: "nat \<Rightarrow> node_hash \<Rightarrow> node_hash list \<Rightarrow> node_hash list" where
  "full_proof m r p = (if m AND (m - 1) = 0 then r # p else p)"

lemma verify_consistency_run:
  assumes "0 < m" "m < n"
  shows "verify_consistency m n r1 r2 p alg \<longleftrightarrow>
         subproof_run (ops_for alg) (full_proof m r1 p) (m - 1) (n - 1) = Some (0, r1, r2)"
  using assms
  by (auto simp: verify_consistency_def subproof_run_def full_proof_def Let_def
      split: list.splits prod.splits option.splits)

lemma full_proof_subproof:
  assumes "0 < m" "m < length L"
  shows "full_proof m (mth_of ops (take m L)) (subproof_impl m L True ops) = subproof_impl m L False ops"
proof (cases "\<exists>j. m = 2 ^ j")
  case True
  then obtain j where "m = 2 ^ j" by blast
  with True assms and_pred_eq_0 [of m] subproof_pow2 [of j L ops] show ?thesis
    by (simp add: full_proof_def)
next
  case False
  with assms and_pred_eq_0 [of m] subproof_not_pow2 [of m L ops] show ?thesis
    by (simp add: full_proof_def)
qed

lemma merkle_root_mth: "merkle_root L alg = mth_of (ops_for alg) L"
  by (simp add: merkle_root_def) (subst mth_of.simps, simp)

subsection \<open>Binding of roots\<close>

text \<open>Two leaf lists of one length with the same root: the collision is found by going down.\<close>

function mth_clash ::
  "hash_ops \<Rightarrow> node_hash list \<Rightarrow> node_hash list \<Rightarrow> ((node_hash \<times> node_hash) \<times> (node_hash \<times> node_hash)) option" where
  "mth_clash ops L L' =
     (if length L \<le> 1 then None
      else
        let k = pow2_floor (length L);
            x = (mth_of ops (take k L), mth_of ops (drop k L));
            x' = (mth_of ops (take k L'), mth_of ops (drop k L'))
        in if x \<noteq> x' then Some (x, x')
           else if take k L \<noteq> take k L' then mth_clash ops (take k L) (take k L')
           else mth_clash ops (drop k L) (drop k L'))"
  by pat_completeness auto
termination
  by (relation "measure (\<lambda>(ops, L, L'). length L)")
    (auto simp: pow2_floor_pos pow2_floor_less min_less_iff_disj
          simp del: not_le intro: diff_less)

declare mth_clash.simps [simp del]

lemma node_collision_Some:
  "node_collision ops (Some (x, x')) \<longleftrightarrow> x \<noteq> x' \<and> case_prod (op_node ops) x = case_prod (op_node ops) x'"
  by (simp add: node_collision_def)

lemma mth_of_clash:
  assumes "length L = length L'" "L \<noteq> L'" "mth_of ops L = mth_of ops L'"
  shows "node_collision ops (mth_clash ops L L')"
  using assms
proof (induction "length L" arbitrary: L L' rule: less_induct)
  case less
  show ?case
  proof (cases "length L \<le> 1")
    case True
    with less.prems show ?thesis
      by (cases L; cases L') (auto simp: mth_of_one)
  next
    case False
    then have "2 \<le> length L" by simp
    then obtain d where d: "2 ^ d < length L" "length L \<le> 2 ^ Suc d" "pow2_floor (length L) = 2 ^ d"
      by (rule pow2_bracket)
    note d' = d(1,2) [unfolded less.prems(1)]
    let ?x = "(mth_of ops (take (2 ^ d) L), mth_of ops (drop (2 ^ d) L))"
    let ?x' = "(mth_of ops (take (2 ^ d) L'), mth_of ops (drop (2 ^ d) L'))"
    have eq: "mth_clash ops L L' =
        (if ?x \<noteq> ?x' then Some (?x, ?x')
         else if take (2 ^ d) L \<noteq> take (2 ^ d) L' then mth_clash ops (take (2 ^ d) L) (take (2 ^ d) L')
         else mth_clash ops (drop (2 ^ d) L) (drop (2 ^ d) L'))"
      using False d(3) by (subst mth_clash.simps) (simp add: Let_def)
    have "case_prod (op_node ops) ?x = case_prod (op_node ops) ?x'"
      using less.prems(3) by (simp add: mth_of_split [OF d(1,2)] mth_of_split [OF d'])
    moreover have "take (2 ^ d) L \<noteq> take (2 ^ d) L' \<or> drop (2 ^ d) L \<noteq> drop (2 ^ d) L'"
      using less.prems(2) by (metis append_take_drop_id)
    moreover have "length L' - 2 ^ d < length L'" using d' by (intro diff_less) auto
    ultimately show ?thesis
      using less.hyps [of "take (2 ^ d) L" "take (2 ^ d) L'"] less.hyps [of "drop (2 ^ d) L" "drop (2 ^ d) L'"]
        less.prems(1) d(1)
      unfolding eq by (auto simp: node_collision_Some split: if_splits)
  qed
qed


section \<open>Collisions of the hash function\<close>

text \<open>The two hash algorithms of a log, as functions of a message, and what a collision of one is.\<close>

definition ct_hash :: "CtHashAlg \<Rightarrow> bytes \<Rightarrow> node_hash" where
  "ct_hash alg m = (if alg = SHA256 then sha256 m else sm3_hash m)"

definition hash_collision ::
  "CtHashAlg \<Rightarrow> ((node_hash \<times> node_hash) \<times> (node_hash \<times> node_hash)) option \<Rightarrow> bool" where
  "hash_collision alg z = (case z of
       None \<Rightarrow> False
     | Some ((l, r), (l', r')) \<Rightarrow>
         0x01 # l @ r \<noteq> 0x01 # l' @ r' \<and> ct_hash alg (0x01 # l @ r) = ct_hash alg (0x01 # l' @ r'))"

definition pair32 :: "node_hash \<times> node_hash \<Rightarrow> bool" where
  "pair32 x = (length (fst x) = 32 \<and> length (snd x) = 32)"

definition clash32 :: "((node_hash \<times> node_hash) \<times> (node_hash \<times> node_hash)) option \<Rightarrow> bool" where
  "clash32 z = (case z of None \<Rightarrow> True | Some (x, x') \<Rightarrow> pair32 x \<and> pair32 x')"

text \<open>
  What the tree asks of its hash: leaves and nodes are hashes of messages told apart by their first
  byte, and digests have the length of a node. This separation keeps a node from being passed off
  as a leaf.
\<close>

locale tree_hash =
  fixes ops :: hash_ops and hash :: "bytes \<Rightarrow> bytes"
  assumes leaf_hash: "op_leaf ops d = hash (0x00 # d)"
    and node_hash: "op_node ops l r = hash (0x01 # l @ r)"
    and empty_hash: "op_empty ops = hash []"
    and length_hash: "length (hash m) = 32"
begin

lemma length_mth: "\<forall>h\<in>set L. length h = 32 \<Longrightarrow> length (mth_of ops L) = 32"
  by (subst mth_of.simps) (auto simp: empty_hash node_hash length_hash node_hash_of_def Let_def)

lemma path_impl_32: "\<forall>h\<in>set L. length h = 32 \<Longrightarrow> \<forall>h\<in>set (path_impl m L ops). length h = 32"
proof (induction "length L" arbitrary: m L rule: less_induct)
  case less
  show ?case
  proof (cases "length L \<le> 1")
    case True
    then show ?thesis by (subst path_impl.simps) simp
  next
    case False
    then have "2 \<le> length L" by simp
    then obtain d where d: "2 ^ d < length L" "length L \<le> 2 ^ Suc d" by (rule pow2_bracket)
    have T: "\<forall>h\<in>set (take (2 ^ d) L). length h = 32" and D: "\<forall>h\<in>set (drop (2 ^ d) L). length h = 32"
      using less.prems by (auto dest: in_set_takeD in_set_dropD)
    have "length L - 2 ^ d < length L" using d by (intro diff_less) auto
    then show ?thesis
      using less.hyps [OF _ T, of m] less.hyps [OF _ D, of "m - 2 ^ d"] d(1)
      by (auto simp: path_impl_split [OF d] length_mth T D)
  qed
qed

lemma audit_clash_32:
  "\<forall>h\<in>set p. length h = 32 \<Longrightarrow> \<forall>h\<in>set p'. length h = 32 \<Longrightarrow> length fr = 32 \<Longrightarrow> length fr' = 32 \<Longrightarrow>
   clash32 (audit_clash ops p p' fn sn fr fr')"
proof (induction p arbitrary: p' fn sn fr fr')
  case Nil
  then show ?case by (simp add: clash32_def)
next
  case (Cons c p)
  then show ?case
    by (cases p') (auto simp: clash32_def [of None] clash32_def [of "Some _"] pair32_def pair_at_def Let_def
        node_hash length_hash)
qed

lemma mth_clash_32:
  "\<forall>h\<in>set L. length h = 32 \<Longrightarrow> \<forall>h\<in>set L'. length h = 32 \<Longrightarrow> clash32 (mth_clash ops L L')"
proof (induction "length L" arbitrary: L L' rule: less_induct)
  case less
  show ?case
  proof (cases "length L \<le> 1")
    case True
    then show ?thesis by (subst mth_clash.simps) (simp add: clash32_def)
  next
    case False
    let ?k = "pow2_floor (length L)"
    have T: "\<forall>h\<in>set (take ?k L). length h = 32" "\<forall>h\<in>set (take ?k L'). length h = 32"
      and D: "\<forall>h\<in>set (drop ?k L). length h = 32" "\<forall>h\<in>set (drop ?k L'). length h = 32"
      using less.prems by (auto dest: in_set_takeD in_set_dropD)
    have "length (take ?k L) < length L" "length (drop ?k L) < length L"
      using pow2_floor_bounds [of "length L"] False by auto
    with less.hyps [OF _ T] less.hyps [OF _ D] show ?thesis
      using length_mth [OF T(1)] length_mth [OF T(2)] length_mth [OF D(1)] length_mth [OF D(2)] False
      by (subst mth_clash.simps) (simp add: Let_def clash32_def [of "Some _"] pair32_def)
  qed
qed

lemma subproof_impl_32:
  "\<forall>h\<in>set L. length h = 32 \<Longrightarrow> \<forall>h\<in>set (subproof_impl m L b ops). length h = 32"
proof (induction "length L" arbitrary: m b L rule: less_induct)
  case less
  show ?case
  proof (cases "m = length L \<or> length L \<le> 1")
    case True
    then show ?thesis using length_mth [OF less.prems] by (subst subproof_impl.simps) auto
  next
    case False
    then have "2 \<le> length L" and m: "m \<noteq> length L" by simp_all
    then obtain d where d: "2 ^ d < length L" "length L \<le> 2 ^ Suc d" using pow2_bracket by blast
    have T: "\<forall>h\<in>set (take (2 ^ d) L). length h = 32" and D: "\<forall>h\<in>set (drop (2 ^ d) L). length h = 32"
      using less.prems by (auto dest: in_set_takeD in_set_dropD)
    have "length L - 2 ^ d < length L" using d by (intro diff_less) auto
    then show ?thesis
      using less.hyps [OF _ T, of m b] less.hyps [OF _ D, of "m - 2 ^ d" False] d(1)
      by (auto simp: subproof_split [OF d m] length_mth T D)
  qed
qed

lemma leaf_not_node: "0x00 # d \<noteq> 0x01 # l @ (r :: bytes)"
  by simp

lemma message_collision:
  assumes "node_collision ops (Some ((l, r), (l', r')))" "pair32 (l, r)" "pair32 (l', r')"
  shows "0x01 # l @ r \<noteq> 0x01 # l' @ r' \<and> hash (0x01 # l @ r) = hash (0x01 # l' @ r')"
  using assms by (simp add: node_collision_def pair32_def node_hash)

end

interpretation ct_tree: tree_hash "ops_for alg" "ct_hash alg" for alg
  by unfold_locales
    (simp_all add: ops_for_def sm3_leaf_hash_def sm3_node_hash_def sm3_empty_hash_def ct_ctx_def ct_hash_def
      sha256_leaf_hash_def sha256_node_hash_def sha256_empty_hash_def Let_def
      sm3_stream.final_simps sm3_hash_eq_spec sha256_stream.final_simps sha256_eq_spec)

lemma hash_collisionI: "node_collision (ops_for alg) z \<Longrightarrow> clash32 z \<Longrightarrow> hash_collision alg z"
  by (auto simp: node_collision_def clash32_def hash_collision_def pair32_def ct_tree.node_hash
      split: option.splits)

lemma verify_audit_path_loop:
  "verify_audit_path i n h path root alg \<longleftrightarrow>
     i < n \<and> audit_loop (ops_for alg) path i (n - 1) h = Some (0, root)"
  by (auto simp: verify_audit_path_def split: option.splits)

lemma consistency_proof_complete:
  assumes "0 < m" "m \<le> n" "n \<le> length leaves"
  shows "verify_consistency m n (merkle_root (take m leaves) alg) (merkle_root (take n leaves) alg)
           (consistency_proof m n leaves alg) alg"
proof (cases "m = n")
  case True
  with assms subproof_whole [of "take n leaves" True "ops_for alg"] show ?thesis
    by (simp add: verify_consistency_def consistency_proof_def min_absorb2)
next
  case False
  define L where "L = take n leaves"
  have L: "m < length L" "length L = n" "take m leaves = take m L" using assms False by (simp_all add: L_def)
  have proof_eq: "consistency_proof m n leaves alg = subproof_impl m L True (ops_for alg)"
    using assms by (simp add: consistency_proof_def L_def)
  show ?thesis
    using consistency_complete [of m L "ops_for alg"] full_proof_subproof [of m L "ops_for alg"] assms L
    by (simp add: verify_consistency_run proof_eq merkle_root_mth L_def [symmetric])
qed

section \<open>Properties\<close>

text \<open>
  Completeness of audit paths: the path that \<open>audit_path\<close> makes for a leaf of a tree of
  any size is accepted by \<open>verify_audit_path\<close> against the root of that tree, although the
  prover recurses over the tree and the verifier only shifts the bits of two indices.
\<close>

theorem audit_path_accepted:
  assumes "i < length leaves"
  shows "verify_audit_path i (length leaves) (leaves ! i) (audit_path i leaves alg) (merkle_root leaves alg) alg"
  using audit_complete [OF assms, of "ops_for alg"] assms
  by (simp add: verify_audit_path_loop audit_path_def merkle_root_mth)

theorem audit_path_accepted_witness:
  "verify_audit_path 2 3 [7] (audit_path 2 [[5], [6], [7]] SM3) (merkle_root [[5], [6], [7]] SM3) SM3"
  using audit_path_accepted [of 2 "[[5], [6], [7]]" SM3] by (simp add: numeral_3_eq_3)

text \<open>
  C2. Soundness of audit paths: when \<open>verify_audit_path\<close> accepts some leaf hash and some path
  at index \<open>i\<close> of a tree with the given root, the leaf hash is the one the tree has at
  \<open>i\<close> and the path is the one \<open>audit_path\<close> makes; otherwise the two paths yield two
  different node messages with the same digest (\<open>audit_clash\<close> computes them). So inclusion of
  another entry cannot be shown without a collision of SM3 or SHA-256.
\<close>

theorem audit_path_binding:
  assumes "verify_audit_path i (length leaves) h path (merkle_root leaves alg) alg"
    and "\<forall>x\<in>set leaves. length x = 32" "\<forall>x\<in>set path. length x = 32" "length h = 32"
  shows "h = leaves ! i \<and> path = audit_path i leaves alg \<or>
    hash_collision alg (audit_clash (ops_for alg) path (audit_path i leaves alg) i (length leaves - 1) h (leaves ! i))"
proof -
  from assms(1) have i: "i < length leaves"
    and run: "audit_loop (ops_for alg) path i (length leaves - 1) h = Some (0, mth_of (ops_for alg) leaves)"
    by (simp_all add: verify_audit_path_loop merkle_root_mth)
  have path: "audit_path i leaves alg = path_impl i leaves (ops_for alg)" using i by (simp add: audit_path_def)
  have "clash32 (audit_clash (ops_for alg) path (path_impl i leaves (ops_for alg)) i (length leaves - 1) h (leaves ! i))"
    using assms(2-4) i by (intro ct_tree.audit_clash_32 ct_tree.path_impl_32) simp_all
  with audit_loop_clash [OF run audit_complete [OF i]] show ?thesis
    unfolding path by (blast intro: hash_collisionI)
qed

theorem audit_path_binding_witness:
  "replicate 32 (1 :: u8) = [replicate 32 1] ! 0 \<and> [] = audit_path 0 [replicate 32 1] SHA256 \<or>
    hash_collision SHA256 (audit_clash (ops_for SHA256) [] (audit_path 0 [replicate 32 1] SHA256) 0 0
      (replicate 32 1) ([replicate 32 1] ! 0))"
  using audit_path_binding [of 0 "[replicate 32 1]" "replicate 32 1" "[]" SHA256]
  by (simp add: verify_audit_path_loop merkle_root_mth mth_of_one)

text \<open>
  C21. Completeness of consistency proofs: for every \<open>0 < m \<le> n\<close> up to the size of the
  log, \<open>verify_consistency\<close> accepts the proof of \<open>consistency_proof\<close> against the
  roots of the first \<open>m\<close> and the first \<open>n\<close> leaves.
\<close>

theorem consistency_proof_accepted:
  assumes "0 < m" "m \<le> n" "n \<le> length leaves"
  shows "verify_consistency m n (merkle_root (take m leaves) alg) (merkle_root (take n leaves) alg)
           (consistency_proof m n leaves alg) alg"
  using assms by (rule consistency_proof_complete)

theorem consistency_proof_accepted_witness:
  "verify_consistency 3 4 (merkle_root [[1], [2], [3]] SM3) (merkle_root [[1], [2], [3], [4]] SM3)
     (consistency_proof 3 4 [[1], [2], [3], [4], [5]] SM3) SM3"
  using consistency_proof_accepted [of 3 4 "[[1], [2], [3], [4], [5]]" SM3] by simp

text \<open>The collision a false consistency proof gives away.\<close>

definition consistency_clash ::
  "CtHashAlg \<Rightarrow> node_hash list \<Rightarrow> node_hash list \<Rightarrow> node_hash list \<Rightarrow>
   ((node_hash \<times> node_hash) \<times> (node_hash \<times> node_hash)) option" where
  "consistency_clash alg old new p =
     (let m = length old; n = length new; ops = ops_for alg;
          (fn, sn) = shift_odd (m - 1) (n - 1)
      in case (full_proof m (merkle_root old alg) p, subproof_impl m new False ops) of
           (s # ps, t # qs) \<Rightarrow> audit_clash ops ps qs fn sn s t
         | _ \<Rightarrow> None)"

text \<open>
  C1. Soundness of consistency proofs, the append-only property of the log: when
  \<open>verify_consistency\<close> accepts a proof between the roots of two leaf lists, the old list is a
  prefix of the new one, or a collision of the hash function is computed from the lists and the proof.
\<close>

theorem consistency_append_only:
  assumes "verify_consistency (length old) (length new) (merkle_root old alg) (merkle_root new alg) p alg"
    and "\<forall>x\<in>set old. length x = 32" "\<forall>x\<in>set new. length x = 32" "\<forall>x\<in>set p. length x = 32"
  shows "old = take (length old) new
    \<or> hash_collision alg (mth_clash (ops_for alg) old (take (length old) new))
    \<or> hash_collision alg (consistency_clash alg old new p)"
proof -
  let ?m = "length old" and ?n = "length new" and ?ops = "ops_for alg"
  let ?old' = "take ?m new"
  have le: "0 < ?m" "?m \<le> ?n" using assms(1) by (auto simp: verify_consistency_def split: if_splits)
  have new32: "\<forall>x\<in>set ?old'. length x = 32" using assms(3) by (auto dest: in_set_takeD)
  have root: ?thesis if "merkle_root old alg = merkle_root ?old' alg"
    using mth_of_clash [of old ?old' ?ops] that le ct_tree.mth_clash_32 [OF assms(2) new32]
    by (auto simp: merkle_root_mth intro: hash_collisionI)
  show ?thesis
  proof (cases "?m = ?n")
    case True
    with assms(1) le root show ?thesis by (simp add: verify_consistency_def)
  next
    case False
    with le have m: "?m < ?n" by simp
    obtain fn sn where sh: "shift_odd (?m - 1) (?n - 1) = (fn, sn)" by fastforce
    from assms(1) obtain s ps where p: "full_proof ?m (merkle_root old alg) p = s # ps"
      and run: "consistency_loop ?ops ps fn sn s s = Some (0, merkle_root old alg, merkle_root new alg)"
      using verify_consistency_run [OF le(1) m] sh by (auto simp: subproof_run_def split: list.splits)
    from consistency_complete [OF le(1) m, of ?ops] obtain t qs
      where q: "subproof_impl ?m new False ?ops = t # qs"
      and run': "consistency_loop ?ops qs fn sn t t = Some (0, merkle_root ?old' alg, merkle_root new alg)"
      using sh by (auto simp: subproof_run_def merkle_root_mth split: list.splits)
    have clash: "consistency_clash alg old new p = audit_clash ?ops ps qs fn sn s t"
      using sh p q by (simp add: consistency_clash_def)
    have p32: "\<forall>x\<in>set (s # ps). length x = 32"
      using assms(2,4) ct_tree.length_mth [OF assms(2)] unfolding p [symmetric]
      by (auto simp: full_proof_def merkle_root_mth)
    have q32: "\<forall>x\<in>set (t # qs). length x = 32" unfolding q [symmetric] by (rule ct_tree.subproof_impl_32 [OF assms(3)])
    from audit_loop_clash [OF consistency_loop_audit [OF run] consistency_loop_audit [OF run']]
    show ?thesis
    proof
      assume "ps = qs \<and> s = t"
      with run run' have "merkle_root old alg = merkle_root ?old' alg" by simp
      then show ?thesis by (rule root)
    next
      assume "node_collision ?ops (audit_clash ?ops ps qs fn sn s t)"
      moreover have "clash32 (audit_clash ?ops ps qs fn sn s t)"
        using p32 q32 by (intro ct_tree.audit_clash_32) simp_all
      ultimately show ?thesis unfolding clash by (blast intro: hash_collisionI)
    qed
  qed
qed

lemma verify_consistency_1_2:
  "verify_consistency (Suc 0) (Suc (Suc 0)) (merkle_root [a] alg) (merkle_root [a, b] alg) [b] alg"
  by (simp add: verify_consistency_run [of "Suc 0"] subproof_run_def full_proof_def consistency_loop_Cons
      pair_at_def next_at_def merkle_root_mth mth_of_one mth_of_split [of 0])

theorem consistency_append_only_witness:
  "[replicate 32 1] = take (length [replicate 32 (1 :: u8)]) [replicate 32 1, replicate 32 2]
    \<or> hash_collision SM3 (mth_clash (ops_for SM3) [replicate 32 1]
        (take (length [replicate 32 (1 :: u8)]) [replicate 32 1, replicate 32 2]))
    \<or> hash_collision SM3 (consistency_clash SM3 [replicate 32 1] [replicate 32 1, replicate 32 2] [replicate 32 2])"
  using consistency_append_only [of "[replicate 32 1]" "[replicate 32 1, replicate 32 2]" SM3 "[replicate 32 2]"]
    verify_consistency_1_2 [of "replicate 32 1" SM3 "replicate 32 2"]
  by simp

end
