(* ===== verification/Codec.thy ===== *)
theory Codec
  imports Prelude
begin

text \<open>
  The TLS-style encodings of \<open>src/ct.cpp\<close>: fixed-width integers and length-prefixed vectors,
  and the contract their readers share. A reader takes the data and an offset; it returns the value
  and the offset after it, or nothing when the data is too short (\<open>return false\<close>).
\<close>

section \<open>Reading at an offset\<close>

definition has_at :: "bytes \<Rightarrow> nat \<Rightarrow> bytes \<Rightarrow> bool" where
  "has_at d off bs \<longleftrightarrow> off + length bs \<le> length d \<and> take (length bs) (drop off d) = bs"

named_theorems parses \<open>the laws of the readers\<close>

lemma has_at_Nil [simp]: "has_at d off [] \<longleftrightarrow> off \<le> length d"
  by (simp add: has_at_def)

lemma has_at_append: "has_at d off (a @ b) \<longleftrightarrow> has_at d off a \<and> has_at d (off + length a) b"
  by (auto simp: has_at_def take_add add.commute add.left_commute)

lemma has_at_Cons: "has_at d off (x # xs) \<longleftrightarrow> off < length d \<and> d ! off = x \<and> has_at d (Suc off) xs"
proof (cases "off < length d")
  case True
  then have "drop off d = d ! off # drop (Suc off) d" by (simp add: Cons_nth_drop_Suc)
  with True show ?thesis by (auto simp: has_at_def)
qed (auto simp: has_at_def)

lemma has_at_whole: "has_at d 0 bs \<and> length bs = length d \<longleftrightarrow> d = bs"
  by (auto simp: has_at_def)

lemma has_at_slice: "has_at d off bs \<longleftrightarrow> off + length bs \<le> length d \<and> bs = take (length bs) (drop off d)"
  by (auto simp: has_at_def)

lemma has_at_take: "off + n \<le> length d \<Longrightarrow> has_at d off (take n (drop off d))"
  by (simp add: has_at_def)

text \<open>
  The contract of a reader: it succeeds exactly when the encoding of a value it can represent stands
  at the offset, and then returns that value and the offset behind the encoding.
\<close>

locale codec =
  fixes enc :: "'a \<Rightarrow> bytes" and rd :: "bytes \<Rightarrow> nat \<Rightarrow> ('a \<times> nat) option" and ok :: "'a \<Rightarrow> bool"
  assumes reads: "rd d off = Some (x, off') \<longleftrightarrow> ok x \<and> has_at d off (enc x) \<and> off' = off + length (enc x)"
begin

lemma read_back: "ok x \<Longrightarrow> rd (pre @ enc x @ rest) (length pre) = Some (x, length pre + length (enc x))"
  by (simp add: reads has_at_def)

lemma read_fails: "rd d off = None \<longleftrightarrow> \<not> (\<exists>x. ok x \<and> has_at d off (enc x))"
  using reads [of d off] by (cases "rd d off") auto

text \<open>The encodings are prefix-free: what follows a value cannot change how it is read.\<close>

lemma enc_prefix_free:
  assumes "ok x" "ok y" "enc x @ r = enc y @ s"
  shows "x = y \<and> r = s"
proof -
  have "rd (enc x @ r) 0 = Some (x, length (enc x))" using read_back [OF assms(1), of "[]" r] by simp
  moreover have "rd (enc x @ r) 0 = Some (y, length (enc y))"
    using read_back [OF assms(2), of "[]" s] assms(3) by simp
  ultimately have "x = y" by simp
  with assms(3) show ?thesis by simp
qed

lemma enc_inj: "ok x \<Longrightarrow> ok y \<Longrightarrow> enc x = enc y \<Longrightarrow> x = y"
  using enc_prefix_free [of x y "[]" "[]"] by simp

text \<open>A reader moves forward and stays within the data.\<close>

lemma read_bounds: "rd d off = Some (x, off') \<Longrightarrow> off \<le> off' \<and> off' \<le> length d"
  by (auto simp: reads has_at_def)

end

section \<open>Integers\<close>

definition encode_u16 :: "u16 \<Rightarrow> bytes" where
  "encode_u16 v = [ucast (drop_bit 8 v), ucast v]"

text \<open>\<open>for (i = 7; i >= 0; --i) { out[i] = v & 0xFF; v >>= 8; }\<close>\<close>

definition encode_u64 :: "u64 \<Rightarrow> bytes" where
  "encode_u64 v =
     fst (foldl (\<lambda>(out, v). \<lambda>i. (out[i := ucast (v AND 0xFF)], drop_bit 8 v)) (replicate 8 0, v)
       (rev [0..<8]))"

definition read_u16 :: "bytes \<Rightarrow> nat \<Rightarrow> (u16 \<times> nat) option" where
  "read_u16 data off =
     (if off + 2 > length data then None
      else Some (push_bit 8 (ucast (data ! off)) OR ucast (data ! (off + 1)), off + 2))"

definition read_u24 :: "bytes \<Rightarrow> nat \<Rightarrow> (u32 \<times> nat) option" where
  "read_u24 data off =
     (if off + 3 > length data then None
      else Some (push_bit 16 (ucast (data ! off)) OR push_bit 8 (ucast (data ! (off + 1)))
                   OR ucast (data ! (off + 2)), off + 3))"

definition read_u64 :: "bytes \<Rightarrow> nat \<Rightarrow> (u64 \<times> nat) option" where
  "read_u64 data off =
     (if off + 8 > length data then None
      else Some (foldl (\<lambda>out i. push_bit 8 out OR ucast (data ! (off + i))) 0 [0..<8], off + 8))"

section \<open>Vectors\<close>

definition encode_tls_vector16 :: "bytes \<Rightarrow> bytes" where
  "encode_tls_vector16 data =
     (if length data > 0xFFFF then [] else encode_u16 (word_of_nat (length data)) @ data)"

definition encode_tls_vector24 :: "bytes \<Rightarrow> bytes" where
  "encode_tls_vector24 data =
     (if length data > 0xFFFFFF then []
      else let n = word_of_nat (length data) :: u64
           in [ucast (drop_bit 16 n), ucast (drop_bit 8 n), ucast n] @ data)"

definition read_vector16 :: "bytes \<Rightarrow> nat \<Rightarrow> (bytes \<times> nat) option" where
  "read_vector16 data off =
     (case read_u16 data off of None \<Rightarrow> None
      | Some (vlen, off) \<Rightarrow>
          if off + unat vlen > length data then None
          else Some (take (unat vlen) (drop off data), off + unat vlen))"

definition read_vector24 :: "bytes \<Rightarrow> nat \<Rightarrow> (bytes \<times> nat) option" where
  "read_vector24 data off =
     (case read_u24 data off of None \<Rightarrow> None
      | Some (vlen, off) \<Rightarrow>
          if off + unat vlen > length data then None
          else Some (take (unat vlen) (drop off data), off + unat vlen))"

section \<open>The readers keep the contract\<close>

lemma shift_or_byte: "push_bit 8 x OR ucast (b :: u8) = x * 256 + (ucast b :: 'a::len word)"
proof -
  have "push_bit 8 x AND (ucast b :: 'a word) = 0"
    by (auto intro!: bit_word_eqI simp: bit_simps)
  then have "push_bit 8 x OR ucast b = push_bit 8 x + (ucast b :: 'a word)"
    by (simp add: disjunctive_add_eq_or)
  then show ?thesis by (simp add: push_bit_eq_mult)
qed

lemma ucast_byte_nat: "(ucast (b :: u8) :: 'a::len word) = word_of_nat (unat b)"
  by (simp only: of_nat_unat)

lemma fold_bytes: "foldl (\<lambda>out b. push_bit 8 out OR ucast b) 0 bs = (word_of_nat (be_val bs) :: 'a::len word)"
proof (induction bs rule: rev_induct)
  case (snoc b bs)
  have "(word_of_nat (be_val (bs @ [b])) :: 'a word) = word_of_nat (be_val bs) * 256 + ucast b"
    by (simp only: be_val_snoc of_nat_add of_nat_mult of_nat_unat of_nat_numeral)
  with snoc show ?case by (simp only: foldl_append foldl_Cons foldl_Nil shift_or_byte)
qed simp

lemma byte_of_word: "(ucast (drop_bit k v) :: u8) = word_of_nat (unat v div 2 ^ k)"
proof -
  have "(ucast (drop_bit k v) :: u8) = word_of_nat (unat (drop_bit k v))" by (rule of_nat_unat [symmetric])
  then show ?thesis unfolding unat_drop_bit_eq drop_bit_eq_div [of k "unat v"] .
qed

lemma be_bytes_iff:
  assumes "length bs = n" "LENGTH('a::len) = 8 * n"
  shows "(word_of_nat (be_val bs) :: 'a word) = v \<longleftrightarrow> bs = be_bytes n (unat v)"
proof
  assume "(word_of_nat (be_val bs) :: 'a word) = v"
  then have "unat v = be_val bs mod 2 ^ LENGTH('a)" by (auto simp: unat_of_nat)
  moreover have "be_val bs < 2 ^ LENGTH('a)" using be_val_less [of bs] assms by (simp add: power_mult)
  ultimately have "unat v = be_val bs" by simp
  then show "bs = be_bytes n (unat v)" using be_bytes_be_val [of bs] assms by simp
next
  assume "bs = be_bytes n (unat v)"
  then have "be_val bs = unat v mod 256 ^ n" by (simp add: be_val_be_bytes)
  moreover have "(256 :: nat) ^ n = 2 ^ LENGTH('a)" using assms by (simp add: power_mult)
  ultimately have "be_val bs = unat v" by simp
  then show "(word_of_nat (be_val bs) :: 'a word) = v" by simp
qed

lemma be_bytes_simps2: "be_bytes 2 x = [word_of_nat (x div 256), word_of_nat x]"
  by (simp add: numeral_2_eq_2)

lemma be_bytes_simps3: "be_bytes 3 x = [word_of_nat (x div 65536), word_of_nat (x div 256), word_of_nat x]"
  by (simp add: numeral_3_eq_3 div_mult2_eq [symmetric])

lemma encode_u16_be: "encode_u16 v = be_bytes 2 (unat v)"
  using byte_of_word [of 0 v] byte_of_word [of 8 v] by (simp add: encode_u16_def be_bytes_simps2)

lemma encode_u64_store: "encode_u64 v = store_be64 v"
proof -
  have "ucast (x AND 0xFF) = (ucast x :: u8)" for x :: u64
  proof -
    have "x AND 0xFF = take_bit 8 x" by (simp add: take_bit_eq_mask mask_eq_exp_minus_1)
    then show ?thesis by (auto intro!: bit_word_eqI simp: bit_simps)
  qed
  moreover have "rev [0..<8] = [7, 6, 5, 4, 3, 2, 1, 0 :: nat]" by (simp add: upt_rec)
  ultimately show ?thesis
    unfolding encode_u64_def store_be64_def by (simp add: eval_nat_numeral)
qed

lemma store_be64_be: "store_be64 v = be_bytes 8 (unat v)"
proof -
  have "be_bytes n x = map (\<lambda>k. word_of_nat (x div 256 ^ k)) (rev [0..<n])" for n x
  proof (induction n arbitrary: x)
    case (Suc n)
    have "rev [0..<Suc n] = map Suc (rev [0..<n]) @ [0]"
      by (simp add: map_Suc_upt rev_map [symmetric] upt_conv_Cons del: upt_Suc)
    with Suc show ?case by (simp add: div_mult2_eq comp_def del: upt_Suc)
  qed simp
  note this [of 8]
  moreover have "rev [0..<8] = [7, 6, 5, 4, 3, 2, 1, 0 :: nat]" by (simp add: upt_rec)
  ultimately show ?thesis using byte_of_word [of 0 v] by (simp add: store_be64_def byte_of_word)
qed

lemma length_encode [simp, len_simps]: "length (encode_u16 v) = 2" "length (encode_u64 w) = 8"
  by (simp_all add: encode_u16_def encode_u64_store)


text \<open>An integer reader whose value is built from the bytes keeps the contract of \<open>be_bytes\<close>.\<close>

lemma has_at_bytes:
  assumes "off + n \<le> length d"
  shows "has_at d off (be_bytes n x) \<longleftrightarrow> map (\<lambda>i. d ! (off + i)) [0..<n] = be_bytes n x"
proof -
  have "map (\<lambda>i. d ! (off + i)) [0..<n] = take n (drop off d)"
    using assms by (intro nth_equalityI) simp_all
  with assms show ?thesis by (simp add: has_at_def)
qed

lemma upt_8: "[0..<8] = [0, 1, 2, 3, 4, 5, 6, 7 :: nat]"
  by (simp add: upt_rec)

interpretation u16: codec encode_u16 read_u16 "\<lambda>_. True"
proof
  fix d off x off'
  show "read_u16 d off = Some (x, off') \<longleftrightarrow>
    True \<and> has_at d off (encode_u16 x) \<and> off' = off + length (encode_u16 x)"
  proof (cases "off + 2 \<le> length d")
    case True
    have "(push_bit 8 (ucast (d ! off)) OR ucast (d ! (off + 1)) :: u16) =
        word_of_nat (be_val [d ! off, d ! (off + 1)])"
      using fold_bytes [of "[d ! off, d ! (off + 1)]"] by simp
    then have "(push_bit 8 (ucast (d ! off)) OR ucast (d ! (off + 1)) :: u16) = x \<longleftrightarrow>
        [d ! off, d ! (off + 1)] = be_bytes 2 (unat x)"
      using be_bytes_iff [of "[d ! off, d ! (off + 1)]" 2 x] by simp
    with True show ?thesis
      by (auto simp: read_u16_def encode_u16_be has_at_bytes upt_rec)
  qed (auto simp: read_u16_def has_at_def)
qed

interpretation u64: codec encode_u64 read_u64 "\<lambda>_. True"
proof
  fix d off x off'
  show "read_u64 d off = Some (x, off') \<longleftrightarrow>
    True \<and> has_at d off (encode_u64 x) \<and> off' = off + length (encode_u64 x)"
  proof (cases "off + 8 \<le> length d")
    case True
    let ?bs = "map (\<lambda>i. d ! (off + i)) [0..<8]"
    have "foldl (\<lambda>out i. push_bit 8 out OR ucast (d ! (off + i))) 0 [0..<8] =
        (word_of_nat (be_val ?bs) :: u64)"
      by (simp only: fold_bytes [symmetric] foldl_map)
    then have "foldl (\<lambda>out i. push_bit 8 out OR ucast (d ! (off + i))) 0 [0..<8] = x \<longleftrightarrow>
        ?bs = be_bytes 8 (unat x)"
      using be_bytes_iff [of ?bs 8 x] by simp
    with True show ?thesis
      by (auto simp: read_u64_def encode_u64_store store_be64_be has_at_bytes)
  qed (auto simp: read_u64_def has_at_def)
qed

lemma unat_of_nat_self: "word_of_nat (unat x) = x"
  by simp

lemma read_u24_iff:
  "read_u24 d off = Some (x, off') \<longleftrightarrow> unat x < 2 ^ 24 \<and> has_at d off (be_bytes 3 (unat x)) \<and> off' = off + 3"
proof (cases "off + 3 \<le> length d")
  case True
  let ?bs = "[d ! off, d ! (off + 1), d ! (off + 2)]"
  have eq: "(push_bit 16 (ucast (d ! off)) OR push_bit 8 (ucast (d ! (off + 1))) OR ucast (d ! (off + 2)) :: u32) =
      word_of_nat (be_val ?bs)"
    using fold_bytes [of ?bs] by (simp add: push_bit_or or.assoc)
  have "be_val ?bs < 2 ^ 24" using be_val_less [of ?bs] by simp
  then have "unat (word_of_nat (be_val ?bs) :: u32) = be_val ?bs" by (simp add: unat_of_nat)
  moreover have "?bs = be_bytes 3 (be_val ?bs)" using be_bytes_be_val [of ?bs] by (simp add: numeral_3_eq_3)
  moreover have "be_val (be_bytes 3 (unat x)) = unat x" if "unat x < 2 ^ 24"
    using that by (simp add: be_val_be_bytes)
  ultimately have "word_of_nat (be_val ?bs) = x \<longleftrightarrow> unat x < 2 ^ 24 \<and> ?bs = be_bytes 3 (unat x)"
    using \<open>be_val ?bs < 2 ^ 24\<close> by (metis unat_of_nat_self)
  with True eq show ?thesis
    by (auto simp: read_u24_def has_at_bytes upt_rec)
qed (auto simp: read_u24_def has_at_def)

lemma encode_tls_vector16_eq:
  "length v \<le> 0xFFFF \<Longrightarrow> encode_tls_vector16 v = be_bytes 2 (length v) @ v"
  by (simp add: encode_tls_vector16_def encode_u16_be unat_of_nat)

lemma encode_tls_vector24_eq:
  "length v \<le> 0xFFFFFF \<Longrightarrow> encode_tls_vector24 v = be_bytes 3 (length v) @ v"
  using byte_of_word [of 0 "word_of_nat (length v) :: u64"]
  by (simp add: encode_tls_vector24_def be_bytes_simps3 byte_of_word unat_of_nat)

interpretation vec16: codec encode_tls_vector16 read_vector16 "\<lambda>v. length v \<le> 0xFFFF"
proof
  fix d off x off'
  show "read_vector16 d off = Some (x, off') \<longleftrightarrow>
    length x \<le> 0xFFFF \<and> has_at d off (encode_tls_vector16 x) \<and> off' = off + length (encode_tls_vector16 x)"
  proof
    assume "read_vector16 d off = Some (x, off')"
    then obtain n where n: "read_u16 d off = Some (n, off + 2)" "off + 2 + unat n \<le> length d"
      "x = take (unat n) (drop (off + 2) d)" "off' = off + 2 + unat n"
      by (auto simp: read_vector16_def u16.reads split: option.splits if_splits)
    then have "length x = unat n" by simp
    moreover have "unat n < 2 ^ LENGTH(16)" by (rule unsigned_less)
    then have "unat n \<le> 0xFFFF" by simp
    ultimately show "length x \<le> 0xFFFF \<and> has_at d off (encode_tls_vector16 x) \<and> off' = off + length (encode_tls_vector16 x)"
      using n by (simp add: encode_tls_vector16_eq has_at_append u16.reads encode_u16_be has_at_take)
  next
    assume x: "length x \<le> 0xFFFF \<and> has_at d off (encode_tls_vector16 x) \<and> off' = off + length (encode_tls_vector16 x)"
    then have len: "length x \<le> 0xFFFF" and at: "has_at d off (be_bytes 2 (length x) @ x)"
      and "off' = off + 2 + length x"
      using encode_tls_vector16_eq [of x] by simp_all
    then have "read_u16 d off = Some (word_of_nat (length x), off + 2)"
      by (simp add: u16.reads encode_u16_be has_at_append unat_of_nat)
    moreover have "has_at d (off + 2) x" using at by (simp add: has_at_append)
    ultimately show "read_vector16 d off = Some (x, off')"
      using len \<open>off' = off + 2 + length x\<close> by (simp add: read_vector16_def unat_of_nat has_at_def)
  qed
qed

interpretation vec24: codec encode_tls_vector24 read_vector24 "\<lambda>v. length v \<le> 0xFFFFFF"
proof
  fix d off x off'
  show "read_vector24 d off = Some (x, off') \<longleftrightarrow>
    length x \<le> 0xFFFFFF \<and> has_at d off (encode_tls_vector24 x) \<and> off' = off + length (encode_tls_vector24 x)"
  proof
    assume "read_vector24 d off = Some (x, off')"
    then obtain n where n: "read_u24 d off = Some (n, off + 3)" "off + 3 + unat n \<le> length d"
      "x = take (unat n) (drop (off + 3) d)" "off' = off + 3 + unat n"
      by (auto simp: read_vector24_def read_u24_iff split: option.splits if_splits)
    then have "length x = unat n" "unat n \<le> 0xFFFFFF" by (simp_all add: read_u24_iff)
    then show "length x \<le> 0xFFFFFF \<and> has_at d off (encode_tls_vector24 x) \<and> off' = off + length (encode_tls_vector24 x)"
      using n by (simp add: encode_tls_vector24_eq has_at_append read_u24_iff has_at_take)
  next
    assume x: "length x \<le> 0xFFFFFF \<and> has_at d off (encode_tls_vector24 x) \<and> off' = off + length (encode_tls_vector24 x)"
    then have len: "length x \<le> 0xFFFFFF" and at: "has_at d off (be_bytes 3 (length x) @ x)"
      and "off' = off + 3 + length x"
      using encode_tls_vector24_eq [of x] by simp_all
    then have "read_u24 d off = Some (word_of_nat (length x), off + 3)"
      by (simp add: read_u24_iff has_at_append unat_of_nat)
    moreover have "has_at d (off + 3) x" using at by (simp add: has_at_append)
    ultimately show "read_vector24 d off = Some (x, off')"
      using len \<open>off' = off + 3 + length x\<close> by (simp add: read_vector24_def unat_of_nat has_at_def)
  qed
qed

lemmas codec_reads [parses] = u16.reads u64.reads vec16.reads vec24.reads

end
