(* ===== verification/Der.thy ===== *)
theory Der
  imports Codec
begin

text \<open>
  The DER encoder and decoder of \<open>src/x509.cpp\<close> (namespace \<open>der\<close>). A \<open>size_t\<close> is a
  natural number, except in the decoder, where the length field of the input is added to an offset:
  there the sum is taken modulo \<open>2 ^ 64\<close>, as the code computes it.
\<close>

section \<open>Tags and elements\<close>

type_synonym ASN1Tag = u8

definition TAG_BOOLEAN :: ASN1Tag where "TAG_BOOLEAN = 0x01"
definition TAG_INTEGER :: ASN1Tag where "TAG_INTEGER = 0x02"
definition TAG_BIT_STRING :: ASN1Tag where "TAG_BIT_STRING = 0x03"
definition TAG_OCTET_STRING :: ASN1Tag where "TAG_OCTET_STRING = 0x04"
definition TAG_NULL :: ASN1Tag where "TAG_NULL = 0x05"
definition TAG_OID :: ASN1Tag where "TAG_OID = 0x06"
definition TAG_UTF8_STRING :: ASN1Tag where "TAG_UTF8_STRING = 0x0C"
definition TAG_PRINTABLE_STRING :: ASN1Tag where "TAG_PRINTABLE_STRING = 0x13"
definition TAG_IA5_STRING :: ASN1Tag where "TAG_IA5_STRING = 0x16"
definition TAG_UTCTime :: ASN1Tag where "TAG_UTCTime = 0x17"
definition TAG_GeneralizedTime :: ASN1Tag where "TAG_GeneralizedTime = 0x18"
definition TAG_SEQUENCE :: ASN1Tag where "TAG_SEQUENCE = 0x30"
definition TAG_SET :: ASN1Tag where "TAG_SET = 0x31"
definition TAG_CONTEXT0 :: ASN1Tag where "TAG_CONTEXT0 = 0xA0"
definition TAG_CONTEXT1 :: ASN1Tag where "TAG_CONTEXT1 = 0xA1"
definition TAG_CONTEXT2 :: ASN1Tag where "TAG_CONTEXT2 = 0xA2"
definition TAG_CONTEXT3 :: ASN1Tag where "TAG_CONTEXT3 = 0xA3"

lemmas tag_defs = TAG_BOOLEAN_def TAG_INTEGER_def TAG_BIT_STRING_def TAG_OCTET_STRING_def TAG_NULL_def
  TAG_OID_def TAG_UTF8_STRING_def TAG_PRINTABLE_STRING_def TAG_IA5_STRING_def TAG_UTCTime_def
  TAG_GeneralizedTime_def TAG_SEQUENCE_def TAG_SET_def TAG_CONTEXT0_def TAG_CONTEXT1_def
  TAG_CONTEXT2_def TAG_CONTEXT3_def

record TLV =
  tlv_tag :: ASN1Tag
  tlv_value :: bytes

section \<open>Encoding\<close>

text \<open>\<open>for (size_t v = len; v > 0; v >>= 8) buf[n++] = v & 0xFF\<close>: least significant byte first.\<close>

fun length_bytes :: "nat \<Rightarrow> bytes" where
  "length_bytes v = (if v > 0 then word_of_nat v # length_bytes (v div 256) else [])"

declare length_bytes.simps [simp del]

definition encode_length :: "nat \<Rightarrow> bytes" where
  "encode_length len =
     (if len < 0x80 then [word_of_nat len]
      else let buf = length_bytes len in (0x80 OR word_of_nat (length buf)) # rev buf)"

definition encode_tlv :: "ASN1Tag \<Rightarrow> bytes \<Rightarrow> bytes" where
  "encode_tlv tag value = [tag] @ encode_length (length value) @ value"

text \<open>The loop that drops redundant leading zero bytes.\<close>

fun strip_zeros :: "bytes \<Rightarrow> bytes" where
  "strip_zeros (x # y # v) = (if x = 0 \<and> y AND 0x80 = 0 then strip_zeros (y # v) else x # y # v)"
| "strip_zeros v = v"

definition encode_integer :: "bytes \<Rightarrow> bytes" where
  "encode_integer bs =
     (let v = (if bs \<noteq> [] \<and> hd bs AND 0x80 \<noteq> 0 then [0x00] else []) @ bs
      in encode_tlv TAG_INTEGER (strip_zeros v))"

definition encode_oid :: "bytes \<Rightarrow> bytes" where
  "encode_oid oid = encode_tlv TAG_OID oid"

definition encode_bit_string :: "bytes \<Rightarrow> u8 \<Rightarrow> bytes" where
  "encode_bit_string data unused_bits = encode_tlv TAG_BIT_STRING (unused_bits # data)"

definition encode_octet_string :: "bytes \<Rightarrow> bytes" where
  "encode_octet_string data = encode_tlv TAG_OCTET_STRING data"

definition encode_null :: bytes where
  "encode_null = encode_tlv TAG_NULL []"

definition encode_printable_string :: "bytes \<Rightarrow> bytes" where
  "encode_printable_string s = encode_tlv TAG_PRINTABLE_STRING s"

definition encode_ia5_string :: "bytes \<Rightarrow> bytes" where
  "encode_ia5_string s = encode_tlv TAG_IA5_STRING s"

definition encode_utf8_string :: "bytes \<Rightarrow> bytes" where
  "encode_utf8_string s = encode_tlv TAG_UTF8_STRING s"

definition encode_sequence :: "bytes \<Rightarrow> bytes" where
  "encode_sequence body = encode_tlv TAG_SEQUENCE body"

definition encode_set :: "bytes \<Rightarrow> bytes" where
  "encode_set body = encode_tlv TAG_SET body"

definition encode_context :: "ASN1Tag \<Rightarrow> bytes \<Rightarrow> bytes" where
  "encode_context tag value = encode_tlv tag value"

section \<open>Decoding\<close>

text \<open>
  What a call can do: return a value, or throw. A range whose end lies before its beginning makes
  \<open>std::vector::assign\<close> throw \<open>std::length_error\<close>.
\<close>

datatype 'a run = Throw | Ret 'a

definition decode_length :: "bytes \<Rightarrow> nat \<Rightarrow> u64 \<times> nat" where
  "decode_length data offset =
     (if offset \<ge> length data then (0, offset)
      else
        let first = data ! offset; offset = offset + 1
        in if first < 0x80 then (ucast first, offset)
           else
             let num_bytes = unat (first AND 0x7F)
             in if num_bytes = 0 \<or> offset + num_bytes > length data then (0, offset)
                else (foldl (\<lambda>result b. push_bit 8 result OR ucast b) 0 (take num_bytes (drop offset data)),
                      offset + num_bytes))"

definition decode_tlv :: "bytes \<Rightarrow> nat \<Rightarrow> (TLV \<times> nat) option run" where
  "decode_tlv data offset =
     (if offset \<ge> length data then Ret None
      else
        let tag = data ! offset;
            (value_len, offset) = decode_length data (offset + 1)
        in if value_len = 0 \<and> data ! (offset - 1) \<noteq> 0x00 then Ret None
           else if word_of_nat offset + value_len > (word_of_nat (length data) :: u64) then Ret None
           else if offset + unat value_len > length data then Throw
           else Ret (Some (\<lparr>tlv_tag = tag, tlv_value = take (unat value_len) (drop offset data)\<rparr>,
                           offset + unat value_len)))"

definition tlv_to_integer :: "TLV \<Rightarrow> bytes" where "tlv_to_integer tlv = tlv_value tlv"
definition tlv_to_octet_string :: "TLV \<Rightarrow> bytes" where "tlv_to_octet_string tlv = tlv_value tlv"
definition tlv_to_string :: "TLV \<Rightarrow> bytes" where "tlv_to_string tlv = tlv_value tlv"

definition tlv_to_bit_string :: "TLV \<Rightarrow> bytes" where
  "tlv_to_bit_string tlv = (if tlv_value tlv = [] then [] else drop 1 (tlv_value tlv))"

text \<open>
  \<open>tlv_to_oid\<close> reads each base-128 component into a 64-bit word and writes it again. The inner
  loop \<open>oid_comp\<close> takes the bytes with the continuation bit and then one more byte, if any.
\<close>

fun oid_comp :: "u64 \<Rightarrow> bytes \<Rightarrow> u64 \<times> bytes" where
  "oid_comp c [] = (c, [])"
| "oid_comp c (b # bs) =
     (if b AND 0x80 \<noteq> 0 then oid_comp (push_bit 7 c OR ucast (b AND 0x7F)) bs
      else (push_bit 7 c OR ucast b, bs))"

lemma length_oid_comp: "bs \<noteq> [] \<Longrightarrow> length (snd (oid_comp c bs)) < length bs"
proof (induction bs arbitrary: c)
  case (Cons b bs)
  have "length (snd (oid_comp c bs)) < Suc (length bs)" for c
    using Cons.IH [of c] by (cases "bs = []") auto
  then show ?case by simp
qed simp

fun oid_digits :: "nat \<Rightarrow> bytes" where
  "oid_digits v = (if v > 0 then word_of_nat (v mod 128) # oid_digits (v div 128) else [])"

declare oid_digits.simps [simp del]

definition oid_write :: "u64 \<Rightarrow> bytes" where
  "oid_write c =
     (if c < 128 then [ucast c]
      else let buf = oid_digits (unat c)
           in map (\<lambda>k. if k > 0 then buf ! k OR 0x80 else buf ! k) (rev [0..<length buf]))"

function oid_components :: "bytes \<Rightarrow> bytes" where
  "oid_components [] = []"
| "oid_components (b # bs) = (let (c, rest) = oid_comp 0 (b # bs) in oid_write c @ oid_components rest)"
  by pat_completeness auto
termination
proof (relation "measure length")
  fix b bs x c rest
  assume "x = oid_comp 0 (b # bs)" "(c, rest) = x"
  then show "(rest, b # bs) \<in> measure length"
    using length_oid_comp [of "b # bs" 0] by (metis in_measure list.distinct(1) snd_conv)
qed simp

definition tlv_to_oid :: "TLV \<Rightarrow> bytes" where
  "tlv_to_oid tlv = (case tlv_value tlv of [] \<Rightarrow> [] | b # bs \<Rightarrow> b # oid_components bs)"

definition oid_equal :: "bytes \<Rightarrow> bytes \<Rightarrow> bool" where
  "oid_equal a b \<longleftrightarrow> length a = length b \<and> a = b"


section \<open>Decoding inverts encoding\<close>

lemma be_val_snoc_bytes: "be_val (rev (length_bytes v)) = v"
proof (induction v rule: length_bytes.induct)
  case (1 v)
  show ?case
  proof (cases "v > 0")
    case True
    then have "be_val (rev (length_bytes v)) = be_val (rev (length_bytes (v div 256))) * 256 + v mod 256"
      by (subst length_bytes.simps) simp
    with 1 True show ?thesis by simp
  qed (subst length_bytes.simps, simp)
qed

lemma length_length_bytes: "v < 256 ^ n \<Longrightarrow> length (length_bytes v) \<le> n"
proof (induction n arbitrary: v)
  case 0
  then show ?case by (subst length_bytes.simps) simp
next
  case (Suc n)
  then have "v div 256 < 256 ^ n" by (simp add: less_mult_imp_div_less mult.commute)
  with Suc.IH show ?case by (subst length_bytes.simps) simp
qed

lemma length_bytes_pos: "0 < v \<Longrightarrow> length_bytes v \<noteq> []"
  by (subst length_bytes.simps) simp

lemma word_of_nat_le64: "a \<le> b \<Longrightarrow> b < 2 ^ 64 \<Longrightarrow> (word_of_nat a :: u64) \<le> word_of_nat b"
  by (simp add: word_le_nat_alt unat_of_nat)

lemma length_octet:
  assumes "0 < k" "k \<le> 8"
  shows "\<not> (0x80 OR word_of_nat k :: u8) < 0x80 \<and> unat ((0x80 OR word_of_nat k :: u8) AND 0x7F) = k"
proof -
  have "k = 1 \<or> k = 2 \<or> k = 3 \<or> k = 4 \<or> k = 5 \<or> k = 6 \<or> k = 7 \<or> k = 8" using assms by linarith
  then show ?thesis by (elim disjE) simp_all
qed

text \<open>The decoder on a definite-length element of less than \<open>2 ^ 63\<close> bytes.\<close>

lemma decode_length_encode:
  assumes "has_at d off (encode_length n)" "n < 2 ^ 63"
  shows "decode_length d off = (word_of_nat n, off + length (encode_length n))"
    "n = 0 \<Longrightarrow> d ! (off + length (encode_length n) - 1) = 0"
proof -
  show "decode_length d off = (word_of_nat n, off + length (encode_length n))"
  proof (cases "n < 0x80")
    case True
    then have "d ! off = word_of_nat n" "off < length d"
      using assms(1) by (simp_all add: encode_length_def has_at_Cons)
    moreover have "(word_of_nat n :: u8) < 0x80" using True by (simp add: word_less_nat_alt unat_of_nat)
    moreover have "ucast (word_of_nat n :: u8) = (word_of_nat n :: u64)"
      using True by (simp add: ucast_byte_nat unat_of_nat)
    ultimately show ?thesis using True by (simp add: decode_length_def encode_length_def)
  next
    case False
    let ?l = "length (length_bytes n)"
    have "(2 :: nat) ^ 63 \<le> 256 ^ 8" by simp
    then have l8: "?l \<le> 8" using assms(2) by (intro length_length_bytes) simp
    have l0: "0 < ?l" using length_bytes_pos [of n] False by simp
    have first: "d ! off = 0x80 OR word_of_nat ?l" and off: "off < length d"
      and bytes: "has_at d (Suc off) (rev (length_bytes n))"
      using assms(1) False by (simp_all add: encode_length_def has_at_Cons Let_def)
    have "\<not> (0x80 OR word_of_nat ?l :: u8) < 0x80 \<and> unat ((0x80 OR word_of_nat ?l :: u8) AND 0x7F) = ?l"
      using l0 l8 by (rule length_octet)
    moreover have "take ?l (drop (Suc off) d) = rev (length_bytes n)" "Suc off + ?l \<le> length d"
      using bytes by (simp_all add: has_at_def)
    ultimately show ?thesis
      using False l0 off first fold_bytes [of "rev (length_bytes n)", where 'a = 64]
      by (simp add: decode_length_def encode_length_def Let_def be_val_snoc_bytes)
  qed
  show "d ! (off + length (encode_length n) - 1) = 0" if "n = 0"
    using assms(1) that by (simp add: encode_length_def has_at_Cons)
qed

lemma length_encode_length: "n < 2 ^ 63 \<Longrightarrow> length (encode_length n) \<le> 9"
  using length_length_bytes [of n 8] by (simp add: encode_length_def Let_def)

lemma length_encode_tlv: "length v < 2 ^ 63 \<Longrightarrow> length (encode_tlv tag v) \<le> length v + 10"
  using length_encode_length [of "length v"] by (simp add: encode_tlv_def)

lemma decode_tlv_encode:
  assumes "has_at d off (encode_tlv tag v)" "length d < 2 ^ 63"
  shows "decode_tlv d off = Ret (Some (\<lparr>tlv_tag = tag, tlv_value = v\<rparr>, off + length (encode_tlv tag v)))"
proof -
  define q where "q = Suc off + length (encode_length (length v))"
  define w :: u64 where "w = word_of_nat (length v)"
  have at: "off < length d" "d ! off = tag" "has_at d (Suc off) (encode_length (length v))" "has_at d q v"
    using assms(1) by (simp_all add: encode_tlv_def has_at_Cons has_at_append q_def)
  have le: "q + length v \<le> length d" and val: "take (length v) (drop q d) = v"
    using at(4) by (simp_all add: has_at_def)
  have small: "length v < 2 ^ 63" using le assms(2) by simp
  have dec: "decode_length d (Suc off) = (w, q)" and zero: "length v = 0 \<Longrightarrow> d ! (q - 1) = 0"
    using decode_length_encode [OF at(3) small] by (simp_all add: q_def w_def)
  have w: "unat w = length v" using small by (simp add: w_def unat_of_nat)
  then have w0: "w = 0 \<longleftrightarrow> length v = 0" by (metis unsigned_0 unsigned_word_eqI)
  have "length d < 2 ^ 64" using assms(2) by simp
  from word_of_nat_le64 [OF le this] have wle: "word_of_nat q + w \<le> word_of_nat (length d)"
    by (simp only: of_nat_add w_def)
  have "length (encode_tlv tag v) + off = q + length v" by (simp add: encode_tlv_def q_def)
  then show ?thesis
    using at(1,2) le val dec zero w w0 wle by (auto simp: decode_tlv_def Let_def add.commute)
qed


section \<open>What the decoder returns\<close>

lemma decode_length_bounds:
  "decode_length d off = (n, off') \<Longrightarrow> off \<le> length d \<Longrightarrow> off \<le> off' \<and> off' \<le> length d"
  by (auto simp: decode_length_def Let_def split: if_splits)

lemma decode_tlv_bounds:
  assumes "decode_tlv d off = Ret (Some (t, off'))"
  shows "off < off'" "off' \<le> length d" "tlv_tag t = d ! off"
    "\<exists>q. off < q \<and> q \<le> off' \<and> tlv_value t = take (off' - q) (drop q d)"
proof -
  obtain n q where q: "off < length d" "decode_length d (off + 1) = (n, q)" "q + unat n \<le> length d"
    and t: "t = \<lparr>tlv_tag = d ! off, tlv_value = take (unat n) (drop q d)\<rparr>" "off' = q + unat n"
    using assms by (auto simp: decode_tlv_def Let_def split: if_splits prod.splits)
  have "off + 1 \<le> q" using decode_length_bounds [OF q(2)] q(1) by simp
  with q t show "off < off'" "off' \<le> length d" "tlv_tag t = d ! off"
    "\<exists>q. off < q \<and> q \<le> off' \<and> tlv_value t = take (off' - q) (drop q d)"
    by (auto intro!: exI [of _ q])
qed

text \<open>The values a decoder loop over the elements of a body sees.\<close>

text \<open>\<open>while (pos < size) { start = pos; el = decode_tlv(\<dots>); if (!el) break; \<dots> }\<close>, collecting the raw
  bytes and the decoded element of each round.\<close>

function elements :: "bytes \<Rightarrow> nat \<Rightarrow> (bytes \<times> TLV) list run" where
  "elements body pos =
     (if pos < length body then
        (case decode_tlv body pos of
           Throw \<Rightarrow> Throw
         | Ret None \<Rightarrow> Ret []
         | Ret (Some (el, pos')) \<Rightarrow>
             (case elements body pos' of Throw \<Rightarrow> Throw
              | Ret els \<Rightarrow> Ret ((take (pos' - pos) (drop pos body), el) # els)))
      else Ret [])"
  by pat_completeness auto
termination
  by (relation "measure (\<lambda>(body, pos). length body - pos)")
    (auto dest: decode_tlv_bounds(1) simp: diff_less_mono2)

declare elements.simps [simp del]

definition tlv_bytes :: "TLV \<Rightarrow> bytes" where
  "tlv_bytes t = encode_tlv (tlv_tag t) (tlv_value t)"

lemma tlv_bytes_nonempty: "tlv_bytes t \<noteq> []"
  by (simp add: tlv_bytes_def encode_tlv_def)

lemma elements_concat:
  assumes "has_at d off (concat (map tlv_bytes ts))" "off + length (concat (map tlv_bytes ts)) = length d"
    "length d < 2 ^ 63"
  shows "elements d off = Ret (map (\<lambda>t. (tlv_bytes t, t)) ts)"
  using assms
proof (induction ts arbitrary: off)
  case Nil
  then show ?case by (subst elements.simps) simp
next
  case (Cons t ts)
  then have at: "has_at d off (tlv_bytes t)" "has_at d (off + length (tlv_bytes t)) (concat (map tlv_bytes ts))"
    by (simp_all add: has_at_append)
  have "off < length d" using Cons.prems(2) tlv_bytes_nonempty [of t] by (cases "tlv_bytes t") auto
  moreover have "decode_tlv d off = Ret (Some (t, off + length (tlv_bytes t)))"
    using decode_tlv_encode [OF _ Cons.prems(3), of off "tlv_tag t" "tlv_value t"] at(1)
    by (simp add: tlv_bytes_def)
  moreover have "elements d (off + length (tlv_bytes t)) = Ret (map (\<lambda>t. (tlv_bytes t, t)) ts)"
    using Cons.prems(2,3) at(2) by (intro Cons.IH) simp_all
  moreover have "take (length (tlv_bytes t)) (drop off d) = tlv_bytes t"
    using at(1) by (simp add: has_at_def)
  ultimately show ?case by (subst elements.simps) simp
qed

section \<open>Integers and object identifiers\<close>

lemma be_val_Cons: "be_val (x # xs) = unat x * 256 ^ length xs + be_val xs"
  by (induction xs rule: rev_induct) (simp_all add: append_Cons [symmetric] del: append_Cons, simp add: be_val_def)

lemma strip_zeros_val: "be_val (strip_zeros v) = be_val v"
  by (induction v rule: strip_zeros.induct) (simp_all add: be_val_Cons)

text \<open>DER's rule: the first nine bits of an integer of two or more bytes are not all equal to zero;
  the encoder never meets nine ones, since it writes magnitudes.\<close>

lemma strip_zeros_minimal:
  "2 \<le> length (strip_zeros v) \<Longrightarrow> hd (strip_zeros v) = 0 \<Longrightarrow> strip_zeros v ! 1 AND 0x80 \<noteq> 0"
  by (induction v rule: strip_zeros.induct) auto

lemma septet:
  assumes "m < 128"
  defines "x \<equiv> word_of_nat m :: u8"
  shows "(x OR 0x80) AND 0x80 \<noteq> 0" "(x OR 0x80) AND 0x7F = x" "x AND 0x80 = 0" "unat x = m"
    "push_bit 7 a OR ucast x = a * 128 + (word_of_nat m :: u64)"
proof -
  show m: "unat x = m" using assms by (simp add: unat_of_nat)
  have x: "take_bit 7 x = x" using m assms(1) by (simp add: take_bit_eq_mod word_unat_eq_iff unat_mod)
  have seven: "y AND 0x7F = take_bit 7 y" for y :: u8 by (simp add: take_bit_eq_mask mask_eq_exp_minus_1)
  have top: "(0x80 :: u8) = push_bit 7 1" by simp
  have bit: "bit x n \<Longrightarrow> n < 7" for n using x by (metis bit_take_bit_iff)
  show "(x OR 0x80) AND 0x80 \<noteq> 0" unfolding top by (simp add: bit_eq_iff bit_simps) (auto intro!: exI [of _ 7])
  have "take_bit 7 (0x80 :: u8) = 0" by simp
  then show "(x OR 0x80) AND 0x7F = x" unfolding seven take_bit_or x by simp
  have b80: "bit (0x80 :: u8) n \<Longrightarrow> n = 7" for n
    unfolding top by (simp only: bit_push_bit_iff bit_1_iff) auto
  show "x AND 0x80 = 0" using bit b80 by (fastforce intro!: bit_word_eqI simp: bit_and_iff)
  have "push_bit 7 a AND (ucast x :: u64) = 0" using bit by (fastforce intro!: bit_word_eqI simp: bit_simps)
  then have "push_bit 7 a OR ucast x = push_bit 7 a + (ucast x :: u64)" by (simp only: disjunctive_add_eq_or)
  moreover have "(ucast x :: u64) = word_of_nat m" using ucast_byte_nat [of x] m by simp
  ultimately show "push_bit 7 a OR ucast x = a * 128 + (word_of_nat m :: u64)" by (simp add: push_bit_eq_mult)
qed

text \<open>The bytes of a component, most significant first, all but the last with the continuation bit.\<close>

definition oid_bytes :: "nat \<Rightarrow> bytes" where
  "oid_bytes v = map (\<lambda>x. x OR 0x80) (rev (oid_digits (v div 128))) @ [word_of_nat (v mod 128)]"

lemma oid_comp_high: "oid_comp 0 (map (\<lambda>x. x OR 0x80) (rev (oid_digits v)) @ rest) = oid_comp (word_of_nat v) rest"
proof (induction v arbitrary: rest rule: oid_digits.induct)
  case (1 v)
  show ?case
  proof (cases "v > 0")
    case True
    then have d: "oid_digits v = word_of_nat (v mod 128) # oid_digits (v div 128)" by (subst oid_digits.simps) simp
    have "word_of_nat (v div 128) * 128 + word_of_nat (v mod 128) = (word_of_nat (v div 128 * 128 + v mod 128) :: u64)"
      by (simp only: of_nat_add of_nat_mult of_nat_numeral)
    then have "word_of_nat (v div 128) * 128 + word_of_nat (v mod 128) = (word_of_nat v :: u64)" by simp
    with 1 [OF True] septet(1-4) [of "v mod 128"] septet(5) [of "v mod 128" "word_of_nat (v div 128)"] show ?thesis by (simp add: d)
  qed (subst oid_digits.simps, simp)
qed

lemma oid_comp_bytes: "oid_comp 0 (oid_bytes v @ rest) = (word_of_nat v, rest)"
proof -
  have "word_of_nat (v div 128) * 128 + word_of_nat (v mod 128) = (word_of_nat (v div 128 * 128 + v mod 128) :: u64)"
    by (simp only: of_nat_add of_nat_mult of_nat_numeral)
  then have "word_of_nat (v div 128) * 128 + word_of_nat (v mod 128) = (word_of_nat v :: u64)" by simp
  with septet(1-4) [of "v mod 128"] septet(5) [of "v mod 128" "word_of_nat (v div 128)"] show ?thesis
    by (simp add: oid_bytes_def oid_comp_high)
qed

lemma oid_write_bytes: "oid_write c = oid_bytes (unat c)"
proof (cases "c < 128")
  case True
  then have "unat c < 128" by (simp add: word_less_nat_alt)
  moreover have "ucast c = (word_of_nat (unat c) :: u8)" by (simp only: of_nat_unat)
  ultimately show ?thesis using True by (simp add: oid_write_def oid_bytes_def oid_digits.simps)
next
  case False
  then have "128 \<le> unat c" by (simp add: word_less_nat_alt)
  then have d: "oid_digits (unat c) = word_of_nat (unat c mod 128) # oid_digits (unat c div 128)"
    by (subst oid_digits.simps) simp
  have idx: "rev [0..<Suc n] = map Suc (rev [0..<n]) @ [0]" for n
    by (simp add: map_Suc_upt rev_map [symmetric] upt_conv_Cons del: upt_Suc)
  have "map (\<lambda>k. xs ! k OR 0x80) (rev [0..<length xs]) = map (\<lambda>x. x OR 0x80) (rev xs)" for xs :: bytes
    by (intro nth_equalityI) (simp_all add: rev_nth)
  then show ?thesis using False
    by (simp add: oid_write_def oid_bytes_def Let_def d idx comp_def del: upt_Suc)
qed

lemma oid_components_canonical: "oid_components (concat (map (\<lambda>c. oid_bytes (unat (c :: u64))) cs)) =
  concat (map (\<lambda>c. oid_bytes (unat c)) cs)"
proof (induction cs)
  case (Cons c cs)
  let ?rest = "concat (map (\<lambda>c. oid_bytes (unat c)) cs)"
  have "oid_bytes (unat c) @ ?rest \<noteq> []" by (simp add: oid_bytes_def)
  then obtain b bs where "oid_bytes (unat c) @ ?rest = b # bs" by (cases "oid_bytes (unat c) @ ?rest") auto
  with oid_comp_bytes [of "unat c" ?rest] Cons show ?case
    by (simp add: oid_write_bytes)
qed simp


lemma strip_zeros_sign: "v \<noteq> [] \<Longrightarrow> hd v AND 0x80 = 0 \<Longrightarrow> strip_zeros v \<noteq> [] \<and> hd (strip_zeros v) AND 0x80 = 0"
  by (induction v rule: strip_zeros.induct) auto

lemma length_strip_zeros: "length (strip_zeros v) \<le> length v"
  by (induction v rule: strip_zeros.induct) auto

section \<open>Properties\<close>

text \<open>
  Encoding then decoding: a loop of \<open>decode_tlv\<close> over the concatenation of any encoded elements
  (any tags, any values, nested encodings included, less than \<open>2 ^ 63\<close> bytes in all) yields exactly
  those elements with their raw bytes, in order, and stops at the end.
\<close>

theorem der_elements_roundtrip:
  assumes "length (concat (map tlv_bytes ts)) < 2 ^ 63"
  shows "elements (concat (map tlv_bytes ts)) 0 = Ret (map (\<lambda>t. (tlv_bytes t, t)) ts)"
  using assms by (intro elements_concat) (simp_all add: has_at_def)

theorem der_elements_roundtrip_witness:
  "elements (concat (map tlv_bytes [\<lparr>tlv_tag = 0x30, tlv_value = [1, 2]\<rparr>, \<lparr>tlv_tag = 0x05, tlv_value = []\<rparr>])) 0
   = Ret (map (\<lambda>t. (tlv_bytes t, t)) [\<lparr>tlv_tag = 0x30, tlv_value = [1, 2]\<rparr>, \<lparr>tlv_tag = 0x05, tlv_value = []\<rparr>])"
  by (rule der_elements_roundtrip) (simp add: tlv_bytes_def encode_tlv_def encode_length_def)



text \<open>
  The bound check of \<open>decode_tlv\<close> does not hold against a length field close to \<open>2 ^ 64\<close>:
  the sum of offset and length wraps around, the check passes, and taking the value throws instead
  of returning \<open>nullopt\<close>. Ten bytes with any tag do it.
\<close>

theorem decode_tlv_wraps:
  "decode_tlv [tag, 0x88, 0xFF, 0xFF, 0xFF, 0xFF, 0xFF, 0xFF, 0xFF, 0xF6] 0 = Throw"
  by (simp add: decode_tlv_def decode_length_def)

text \<open>
  An integer survives its encoding: the element decodes to an \<open>INTEGER\<close> whose value is the
  magnitude given, whose first bit is clear, and which has no redundant leading zero byte.
\<close>

theorem encode_integer_correct:
  assumes "bs \<noteq> []" "length bs < 2 ^ 62"
  shows "\<exists>c. decode_tlv (encode_integer bs) 0
        = Ret (Some (\<lparr>tlv_tag = TAG_INTEGER, tlv_value = c\<rparr>, length (encode_integer bs)))
    \<and> be_val c = be_val bs \<and> hd c AND 0x80 = 0 \<and> (2 \<le> length c \<and> hd c = 0 \<longrightarrow> c ! 1 AND 0x80 \<noteq> 0)"
proof -
  define v where "v = (if bs \<noteq> [] \<and> hd bs AND 0x80 \<noteq> 0 then [0x00] else []) @ bs"
  have enc: "encode_integer bs = encode_tlv TAG_INTEGER (strip_zeros v)"
    unfolding encode_integer_def v_def Let_def by (rule refl)
  have v: "v \<noteq> []" "hd v AND 0x80 = 0" "be_val v = be_val bs" "length v \<le> length bs + 1"
    using assms(1) by (auto simp: v_def be_val_Cons)
  have "length (length_bytes (length (strip_zeros v))) \<le> 8"
    using length_strip_zeros [of v] v(4) assms(2) by (intro length_length_bytes) simp
  then have "length (encode_length (length (strip_zeros v))) \<le> 9" by (simp add: encode_length_def Let_def)
  then have "length (encode_integer bs) < 2 ^ 63"
    unfolding enc using length_strip_zeros [of v] v(4) assms(2) by (simp add: encode_tlv_def)
  then have "decode_tlv (encode_integer bs) 0 =
      Ret (Some (\<lparr>tlv_tag = TAG_INTEGER, tlv_value = strip_zeros v\<rparr>, length (encode_integer bs)))"
    using decode_tlv_encode [of "encode_integer bs" 0 TAG_INTEGER "strip_zeros v"]
    by (simp add: enc has_at_def)
  then show ?thesis
    using strip_zeros_val [of v] strip_zeros_sign [OF v(1,2)] strip_zeros_minimal [of v] v(3) by auto
qed

theorem encode_integer_correct_witness:
  "\<exists>c. decode_tlv (encode_integer [0x00, 0x00, 0x90]) 0
        = Ret (Some (\<lparr>tlv_tag = TAG_INTEGER, tlv_value = c\<rparr>, length (encode_integer [0x00, 0x00, 0x90])))
    \<and> be_val c = 0x90"
  using encode_integer_correct [of "[0x00, 0x00, 0x90]"] by (auto simp: be_val_def)

text \<open>
  Object identifiers: \<open>tlv_to_oid\<close> gives back every identifier whose components fit 64 bits
  and are written in as few bytes as they need.
\<close>

theorem tlv_to_oid_canonical:
  "tlv_to_oid \<lparr>tlv_tag = TAG_OID, tlv_value = b # concat (map (\<lambda>c. oid_bytes (unat (c :: u64))) cs)\<rparr>
   = b # concat (map (\<lambda>c. oid_bytes (unat c)) cs)"
  by (simp add: tlv_to_oid_def oid_components_canonical)

text \<open>
  Other encodings are not rejected but mapped onto canonical ones: a component with padding, or
  one of more than 64 bits, is read as a smaller component, so that the identifiers below are both
  taken for \<open>commonName\<close>.
\<close>

theorem tlv_to_oid_aliases:
  "tlv_to_oid \<lparr>tlv_tag = TAG_OID, tlv_value = [0x55, 0x04, 0x80, 0x03]\<rparr> = [0x55, 0x04, 0x03]
   \<and> tlv_to_oid \<lparr>tlv_tag = TAG_OID,
        tlv_value = [0x55, 0x04, 0x82, 0x80, 0x80, 0x80, 0x80, 0x80, 0x80, 0x80, 0x80, 0x03]\<rparr> = [0x55, 0x04, 0x03]"
  by (simp add: tlv_to_oid_def oid_write_def)

end
