(* ===== verification/X509Time.thy ===== *)
theory X509Time
  imports Der
begin

text \<open>
  \<open>src/src/x509.cpp\<close>, the validity times of certificates: \<open>encode_utc_time\<close> and \<open>tlv_to_utc_time\<close>, over
  the calendar functions of the C library they call. \<open>gmtime\<close> and \<open>timegm\<close> are POSIX's: seconds since
  1970 in the proleptic Gregorian calendar, \<open>gmtime\<close> failing when the year does not fit an \<open>int\<close>, \<open>timegm\<close>
  reducing an out-of-range month and counting out-of-range days, hours, minutes and seconds through.
\<close>

section \<open>The calendar\<close>

record tm =
  tm_year :: int
  tm_mon :: int
  tm_mday :: int
  tm_hour :: int
  tm_min :: int
  tm_sec :: int

definition leap_year :: "int \<Rightarrow> bool" where
  "leap_year y \<longleftrightarrow> y mod 4 = 0 \<and> (y mod 100 \<noteq> 0 \<or> y mod 400 = 0)"

text \<open>Days from 1 January of year 1 to 1 January of year \<open>y\<close>.\<close>

definition days_before_year :: "int \<Rightarrow> int" where
  "days_before_year y = 365 * (y - 1) + (y - 1) div 4 - (y - 1) div 100 + (y - 1) div 400"

definition month_lengths :: "bool \<Rightarrow> int list" where
  "month_lengths leap = [31, if leap then 29 else 28, 31, 30, 31, 30, 31, 31, 30, 31, 30, 31]"

definition month_start :: "bool \<Rightarrow> nat \<Rightarrow> int" where
  "month_start leap m = sum_list (take m (month_lengths leap))"

definition EPOCH_DAY :: int where "EPOCH_DAY = 719162"

text \<open>The year of a day: estimated within its 400-year cycle, then corrected by at most one.\<close>

definition year_of_day :: "int \<Rightarrow> int" where
  "year_of_day z =
     (let y = z div 146097 * 400 + z mod 146097 div 366 + 1
      in if days_before_year (y + 1) \<le> z then y + 1 else y)"

text \<open>The month and the day in it, both from 0, of a day of the year.\<close>

fun split_days :: "int list \<Rightarrow> int \<Rightarrow> nat \<times> int" where
  "split_days [] d = (0, d)"
| "split_days (l # ls) d = (if d < l then (0, d) else let (m, r) = split_days ls (d - l) in (m + 1, r))"

definition gmtime :: "int \<Rightarrow> tm option" where
  "gmtime t =
     (let z = t div 86400 + EPOCH_DAY; s = t mod 86400;
          y = year_of_day z; (m, mday) = split_days (month_lengths (leap_year y)) (z - days_before_year y)
      in if y - 1900 < - (2 ^ 31) \<or> 2 ^ 31 \<le> y - 1900 then None
         else Some \<lparr>tm_year = y - 1900, tm_mon = int m, tm_mday = mday + 1,
                    tm_hour = s div 3600, tm_min = s mod 3600 div 60, tm_sec = s mod 60\<rparr>)"

definition timegm :: "tm \<Rightarrow> int" where
  "timegm tm =
     (let y = tm_year tm + 1900 + tm_mon tm div 12; m = nat (tm_mon tm mod 12)
      in (days_before_year y + month_start (leap_year y) m + tm_mday tm - 1 - EPOCH_DAY) * 86400
         + tm_hour tm * 3600 + tm_min tm * 60 + tm_sec tm)"

section \<open>Printing and scanning two-digit fields\<close>

text \<open>\<open>%02d\<close> of a value between \<open>-99\<close> and \<open>99\<close>.\<close>

definition fmt02 :: "int \<Rightarrow> bytes" where
  "fmt02 n =
     (if n < 0 then 0x2D # (if n \<le> -10 then [0x30 + word_of_int (- n div 10)] else []) @ [0x30 + word_of_int (- n mod 10)]
      else [0x30 + word_of_int (n div 10), 0x30 + word_of_int (n mod 10)])"

text \<open>
  \<open>%2d\<close> of \<open>sscanf\<close>: white space is skipped, then at most two characters are read, a sign counting as
  one of them; no digit is a matching failure. A NUL byte, like the end of the string, is no digit.
\<close>

definition is_space :: "u8 \<Rightarrow> bool" where
  "is_space c \<longleftrightarrow> c \<in> {0x20, 0x09, 0x0A, 0x0B, 0x0C, 0x0D}"

definition is_digit :: "u8 \<Rightarrow> bool" where
  "is_digit c \<longleftrightarrow> 0x30 \<le> c \<and> c \<le> 0x39"

definition digit :: "u8 \<Rightarrow> int" where
  "digit c = uint c - 0x30"

definition scan2d :: "bytes \<Rightarrow> (int \<times> bytes) option" where
  "scan2d s =
     (case dropWhile is_space s of
        [] \<Rightarrow> None
      | c # r \<Rightarrow>
          if c = 0x2D \<or> c = 0x2B then
            (case r of d # r' \<Rightarrow> if is_digit d then Some (if c = 0x2D then - digit d else digit d, r') else None
             | [] \<Rightarrow> None)
          else if is_digit c then
            (case r of d # r' \<Rightarrow> if is_digit d then Some (10 * digit c + digit d, r') else Some (digit c, r)
             | [] \<Rightarrow> Some (digit c, r))
          else None)"

fun scan_fields :: "nat \<Rightarrow> bytes \<Rightarrow> int list option" where
  "scan_fields 0 s = Some []"
| "scan_fields (Suc n) s =
     (case scan2d s of None \<Rightarrow> None | Some (v, r) \<Rightarrow> map_option ((#) v) (scan_fields n r))"

section \<open>UTCTime\<close>

text \<open>C's remainder by 100.\<close>

definition rem100 :: "int \<Rightarrow> int" where
  "rem100 y = (if 0 \<le> y then y mod 100 else - ((- y) mod 100))"

text \<open>\<open>time_t\<close> is signed; the code dereferences the null pointer \<open>gmtime\<close> returns on failure (\<open>Throw\<close>).\<close>

definition encode_utc_time :: "u64 \<Rightarrow> bytes run" where
  "encode_utc_time unix_time =
     (case gmtime (sint unix_time) of
        None \<Rightarrow> Throw
      | Some tm \<Rightarrow>
          let buf = fmt02 (rem100 (tm_year tm + 1900)) @ fmt02 (tm_mon tm + 1) @ fmt02 (tm_mday tm)
                    @ fmt02 (tm_hour tm) @ fmt02 (tm_min tm) @ fmt02 (tm_sec tm) @ [0x5A]
          in Ret (encode_tlv TAG_UTCTime (take 13 buf)))"

definition tlv_to_utc_time :: "TLV \<Rightarrow> u64 option" where
  "tlv_to_utc_time tlv =
     (if length (tlv_value tlv) < 12 then None
      else case scan_fields 6 (tlv_value tlv) of
             Some [y, mo, d, h, mi, se] \<Rightarrow>
               let y = y + (if 50 \<le> y then 1900 else 2000)
               in Some (word_of_int (timegm \<lparr>tm_year = y - 1900, tm_mon = mo - 1, tm_mday = d,
                                             tm_hour = h, tm_min = mi, tm_sec = se\<rparr>))
           | _ \<Rightarrow> None)"

section \<open>The calendar functions are inverse\<close>

lemma div_bounds: "0 < c \<Longrightarrow> c * (x div c) \<le> x \<and> x < c * (x div c) + c" for x c :: int
  using pos_mod_bound [of c x] pos_mod_sign [of c x] mult_div_mod_eq [of c x] by linarith

lemma div_unique: "0 < c \<Longrightarrow> c * q \<le> x \<Longrightarrow> x < c * q + c \<Longrightarrow> x div c = q" for x c q :: int
  by (rule int_div_pos_eq [of _ _ _ "x - c * q"]) auto

lemma div_step: "x div c = (x - 1) div c + (if x mod c = 0 then 1 else 0)" if c: "0 < c" for x c :: int
proof -
  define q where "q = x div c"
  define m where "m = x mod c"
  have x: "x = c * q + m" "0 \<le> m" "m < c" using c by (simp_all add: q_def m_def)
  show ?thesis
  proof (cases "m = 0")
    case True
    have "(x - 1) div c = q - 1" using x True by (intro int_div_pos_eq [of _ _ _ "c - 1"]) (auto simp: algebra_simps)
    then show ?thesis using True by (simp add: q_def m_def [symmetric])
  next
    case False
    have "(x - 1) div c = q" using x False by (intro int_div_pos_eq [of _ _ _ "m - 1"]) (auto simp: algebra_simps)
    then show ?thesis using False by (simp add: q_def m_def [symmetric])
  qed
qed

lemma days_before_cycle: "days_before_year (e * 400 + j + 1) = 146097 * e + 365 * j + j div 4 - j div 100 + j div 400"
proof -
  have "(e * 400 + j) div 4 = e * 100 + j div 4" "(e * 400 + j) div 100 = e * 4 + j div 100"
    "(e * 400 + j) div 400 = e + j div 400" by (simp_all add: div_add1_eq algebra_simps)
  then show ?thesis by (simp add: days_before_year_def)
qed

lemma year_of_day_bounds: "days_before_year (year_of_day z) \<le> z" "z < days_before_year (year_of_day z + 1)"
proof -
  define e d k where "e = z div 146097" and "d = z mod 146097" and "k = d div 366"
  have z: "z = 146097 * e + d" "0 \<le> d" "d < 146097" by (simp_all add: e_def d_def)
  have k: "366 * k \<le> d" "d < 366 * k + 366" "0 \<le> k" "k < 400" using z(2,3) by (simp_all add: k_def) (linarith+)?
  have y: "year_of_day z = (if days_before_year (e * 400 + (k + 1) + 1) \<le> z then e * 400 + (k + 1) + 1 else e * 400 + k + 1)"
    by (simp add: year_of_day_def Let_def e_def d_def k_def algebra_simps)
  have a: "days_before_year (e * 400 + k + 1) \<le> z" using k z unfolding days_before_cycle by linarith
  define p q r where "p = (k + 2) div 4" and "q = (k + 2) div 100" and "r = (k + 2) div 400"
  have "k + 2 < 4 * p + 4" "100 * q \<le> k + 2" "0 \<le> r"
    using k(3) div_bounds [of 4 "k + 2"] div_bounds [of 100 "k + 2"] by (simp_all add: p_def q_def r_def pos_imp_zdiv_nonneg_iff)
  then have b: "z < days_before_year (e * 400 + (k + 2) + 1)"
    using k z unfolding days_before_cycle p_def [symmetric] q_def [symmetric] r_def [symmetric]
    by (simp add: distrib_left)
  show "days_before_year (year_of_day z) \<le> z" using a y by simp
  show "z < days_before_year (year_of_day z + 1)" using b y by (auto simp: algebra_simps)
qed

lemma year_length: "days_before_year (y + 1) - days_before_year y = (if leap_year y then 366 else 365)"
proof -
  have count: "365 * y + a - b + c - (365 * y - 365 + a' - b' + c') = (if P \<and> (\<not> Q \<or> R) then 366 else 365)"
    if "a = a' + (if P then 1 else 0)" "b = b' + (if Q then 1 else 0)" "c = c' + (if R then 1 else 0)"
      "Q \<Longrightarrow> P" "R \<Longrightarrow> Q" for a b c a' b' c' and P Q R
    using that by (cases P; cases Q; cases R; simp)
  have steps: "days_before_year (y + 1) = 365 * y + y div 4 - y div 100 + y div 400"
    "days_before_year y = 365 * y - 365 + (y - 1) div 4 - (y - 1) div 100 + (y - 1) div 400"
    by (simp_all add: days_before_year_def)
  have "y mod 100 = 0 \<Longrightarrow> y mod 4 = 0" "y mod 400 = 0 \<Longrightarrow> y mod 100 = 0"
    using mod_mod_cancel [of 4 100 y] mod_mod_cancel [of 100 400 y] by simp_all
  with div_step [of 4 y, OF zero_less_numeral] div_step [of 100 y, OF zero_less_numeral]
    div_step [of 400 y, OF zero_less_numeral]
  show ?thesis unfolding steps leap_year_def by (rule count)
qed

lemma days_before_year_mono:
  assumes "y \<le> y'"
  shows "days_before_year y \<le> days_before_year y'"
proof -
  have "days_before_year y \<le> days_before_year (y + int n)" for n
  proof (induction n)
    case (Suc n)
    have "days_before_year (y + int n) \<le> days_before_year (y + int n + 1)"
      using year_length [of "y + int n"] by (cases "leap_year (y + int n)") simp_all
    moreover have "y + int n + 1 = y + int (Suc n)" by simp
    ultimately show ?case using Suc by (metis order.trans)
  qed simp
  from this [of "nat (y' - y)"] assms show ?thesis by simp
qed

lemma split_days_bounds:
  "0 \<le> d \<Longrightarrow> d < sum_list ls \<Longrightarrow> \<forall>l\<in>set ls. l \<le> 31 \<Longrightarrow> split_days ls d = (m, r)
   \<Longrightarrow> m < length ls \<and> 0 \<le> r \<and> r < 31 \<and> sum_list (take m ls) + r = d"
proof (induction ls arbitrary: d m)
  case (Cons l ls)
  show ?case
  proof (cases "d < l")
    case False
    then obtain m' where m': "split_days ls (d - l) = (m', r)" "m = m' + 1"
      using Cons.prems(4) by (auto split: prod.splits)
    with Cons.IH [of "d - l" m'] Cons.prems False show ?thesis by simp
  qed (use Cons.prems in auto)
qed simp

lemma month_bounds:
  assumes "0 \<le> yday" "yday < (if leap then 366 else 365)" "split_days (month_lengths leap) yday = (m, r)"
  shows "m < 12 \<and> 0 \<le> r \<and> r < 31 \<and> month_start leap m + r = yday"
  using split_days_bounds [OF assms(1) _ _ assms(3)] assms(2)
  by (cases leap) (simp_all add: month_lengths_def month_start_def)

lemma clock:
  "t div 86400 * 86400 + t mod 86400 div 3600 * 3600 + t mod 86400 mod 3600 div 60 * 60 + t mod 86400 mod 60 = (t :: int)"
proof -
  have sum: "c * 86400 + a * 3600 + b * 60 + z = t"
    if "x = a * 3600 + y" "y = b * 60 + z" "t = c * 86400 + x" for x a y b z c :: int using that by simp
  show ?thesis
  proof (rule sum)
    show "t mod 86400 = t mod 86400 div 3600 * 3600 + t mod 86400 mod 3600" by (rule div_mult_mod_eq [symmetric])
    show "t = t div 86400 * 86400 + t mod 86400" by (rule div_mult_mod_eq [symmetric])
    have "t mod 86400 mod 60 = t mod 86400 mod 3600 mod 60" by (subst mod_mod_cancel) simp_all
    then show "t mod 86400 mod 3600 = t mod 86400 mod 3600 div 60 * 60 + t mod 86400 mod 60"
      by (simp only: div_mult_mod_eq)
  qed
qed

lemma gmtime_parts:
  assumes "- 2000000 \<le> year_of_day (t div 86400 + EPOCH_DAY)" "year_of_day (t div 86400 + EPOCH_DAY) \<le> 2000000"
  obtains y m r where "y = year_of_day (t div 86400 + EPOCH_DAY)" "m < 12" "0 \<le> r" "r < 31"
    "days_before_year y + month_start (leap_year y) m + r = t div 86400 + EPOCH_DAY"
    "gmtime t = Some \<lparr>tm_year = y - 1900, tm_mon = int m, tm_mday = r + 1, tm_hour = t mod 86400 div 3600,
       tm_min = t mod 86400 mod 3600 div 60, tm_sec = t mod 86400 mod 60\<rparr>"
proof -
  define z where "z = t div 86400 + EPOCH_DAY"
  define y where "y = year_of_day z"
  obtain m r where mr: "split_days (month_lengths (leap_year y)) (z - days_before_year y) = (m, r)"
    by (cases "split_days (month_lengths (leap_year y)) (z - days_before_year y)")
  have "0 \<le> z - days_before_year y" "z - days_before_year y < (if leap_year y then 366 else 365)"
    using year_of_day_bounds [of z] year_length [of y] by (simp_all add: y_def)
  from month_bounds [OF this mr] have "m < 12" "0 \<le> r" "r < 31" "days_before_year y + month_start (leap_year y) m + r = z"
    by simp_all
  moreover have "gmtime t = Some \<lparr>tm_year = y - 1900, tm_mon = int m, tm_mday = r + 1, tm_hour = t mod 86400 div 3600,
       tm_min = t mod 86400 mod 3600 div 60, tm_sec = t mod 86400 mod 60\<rparr>"
    using mr assms by (simp add: gmtime_def z_def [symmetric] y_def [symmetric] Let_def)
  ultimately show thesis using that [of y m r] by (simp add: y_def z_def)
qed

lemma gmtime_year:
  assumes "days_before_year a \<le> t div 86400 + EPOCH_DAY" "t div 86400 + EPOCH_DAY < days_before_year b"
    "0 \<le> a" "b \<le> 4000"
  obtains tm where "gmtime t = Some tm" "timegm tm = t" "a \<le> tm_year tm + 1900" "tm_year tm + 1900 < b"
    "0 \<le> tm_mon tm" "tm_mon tm < 12" "1 \<le> tm_mday tm" "tm_mday tm < 32"
    "0 \<le> tm_hour tm" "tm_hour tm < 24" "0 \<le> tm_min tm" "tm_min tm < 60" "0 \<le> tm_sec tm" "tm_sec tm < 60"
proof -
  define z where "z = t div 86400 + EPOCH_DAY"
  note yb = year_of_day_bounds [of z]
  have a: "a \<le> year_of_day z"
  proof (rule ccontr)
    assume "\<not> a \<le> year_of_day z"
    then have "days_before_year (year_of_day z + 1) \<le> days_before_year a" by (intro days_before_year_mono) simp
    with yb assms(1) show False by (simp add: z_def)
  qed
  have b: "year_of_day z < b"
  proof (rule ccontr)
    assume "\<not> year_of_day z < b"
    then have "days_before_year b \<le> days_before_year (year_of_day z)" by (intro days_before_year_mono) simp
    with yb assms(2) show False by (simp add: z_def)
  qed
  have "- 2000000 \<le> year_of_day z" "year_of_day z \<le> 2000000" using a b assms(3,4) by linarith+
  from gmtime_parts [OF this [unfolded z_def]] obtain y m r where
    y: "y = year_of_day (t div 86400 + EPOCH_DAY)" and m: "m < 12" "0 \<le> r" "r < 31"
    and days: "days_before_year y + month_start (leap_year y) m + r = t div 86400 + EPOCH_DAY"
    and g: "gmtime t = Some \<lparr>tm_year = y - 1900, tm_mon = int m, tm_mday = r + 1, tm_hour = t mod 86400 div 3600,
       tm_min = t mod 86400 mod 3600 div 60, tm_sec = t mod 86400 mod 60\<rparr>" .
  have d: "days_before_year y + month_start (leap_year y) m + r - EPOCH_DAY = t div 86400" using days by simp
  show thesis
  proof (rule that [OF g])
    have "timegm \<lparr>tm_year = y - 1900, tm_mon = int m, tm_mday = r + 1, tm_hour = t mod 86400 div 3600,
       tm_min = t mod 86400 mod 3600 div 60, tm_sec = t mod 86400 mod 60\<rparr> =
       (days_before_year y + month_start (leap_year y) m + r - EPOCH_DAY) * 86400
       + t mod 86400 div 3600 * 3600 + t mod 86400 mod 3600 div 60 * 60 + t mod 86400 mod 60"
      using m by (simp add: timegm_def Let_def)
    also have "\<dots> = t" unfolding d by (rule clock)
    finally show "timegm \<lparr>tm_year = y - 1900, tm_mon = int m, tm_mday = r + 1, tm_hour = t mod 86400 div 3600,
       tm_min = t mod 86400 mod 3600 div 60, tm_sec = t mod 86400 mod 60\<rparr> = t" .
  qed (use a b m in \<open>simp_all add: y z_def [symmetric]\<close>)
qed

lemma day_range:
  "86400 * a \<le> t \<Longrightarrow> a \<le> t div 86400" "t < 86400 * b \<Longrightarrow> t div 86400 < b" for t :: int
  using div_bounds [of 86400 t] by linarith+

lemma digit_char:
  assumes "0 \<le> n" "n < 10"
  defines "c \<equiv> 0x30 + word_of_int n"
  shows "is_digit c" "digit c = n" "\<not> is_space c" "c \<noteq> 0x2D" "c \<noteq> 0x2B"
proof -
  have n: "n \<in> {0, 1, 2, 3, 4, 5, 6, 7, 8, 9}"
  proof (cases "n < 5")
    case True
    then have "n = 0 \<or> n = 1 \<or> n = 2 \<or> n = 3 \<or> n = 4" using assms by linarith
    then show ?thesis by auto
  next
    case False
    then have "n = 5 \<or> n = 6 \<or> n = 7 \<or> n = 8 \<or> n = 9" using assms by linarith
    then show ?thesis by auto
  qed
  show "is_digit c" "digit c = n" "\<not> is_space c" "c \<noteq> 0x2D" "c \<noteq> 0x2B"
    using n unfolding c_def is_digit_def digit_def is_space_def by auto
qed

lemma scan_fmt: "0 \<le> n \<Longrightarrow> n < 100 \<Longrightarrow> scan2d (fmt02 n @ r) = Some (n, r)"
proof -
  assume n: "0 \<le> n" "n < 100"
  have hi: "0 \<le> n div 10" "n div 10 < 10" using n by (auto simp: div_less)
  have lo: "0 \<le> n mod 10" "n mod 10 < 10" by simp_all
  show ?thesis using n digit_char [OF hi] digit_char [OF lo] by (simp add: scan2d_def fmt02_def)
qed

lemma length_fmt: "0 \<le> n \<Longrightarrow> length (fmt02 n) = 2"
  by (simp add: fmt02_def)

lemma century_digits:
  "(y + 1900) mod 100 + (if 50 \<le> (y + 1900) mod 100 then 1900 else 2000) = (y - 50) mod 100 + (1950 :: int)"
proof -
  define q r where "q = y div 100" and "r = y mod 100"
  have y: "y = 100 * q + r" "0 \<le> r" "r < 100" by (simp_all add: q_def r_def)
  have "(y + 1900) div 100 = q + 19" using y by (intro div_unique) simp_all
  then have a: "(y + 1900) mod 100 = r" using y by (simp add: minus_mult_div_eq_mod [symmetric])
  show ?thesis
  proof (cases "50 \<le> r")
    case True
    then have "(y - 50) div 100 = q" using y by (intro div_unique) simp_all
    then show ?thesis using True y a by (simp add: minus_mult_div_eq_mod [symmetric])
  next
    case False
    then have "(y - 50) div 100 = q - 1" using y by (intro div_unique) simp_all
    then show ?thesis using False y a by (simp add: minus_mult_div_eq_mod [symmetric])
  qed
qed

text \<open>A year from 1950 on is read back as the year of the century from 1950 on with the same last digits.\<close>

lemma utc_time_century:
  assumes "gmtime (sint t) = Some tm" "1950 \<le> tm_year tm + 1900"
    "0 \<le> tm_mon tm" "tm_mon tm < 12" "1 \<le> tm_mday tm" "tm_mday tm < 32"
    "0 \<le> tm_hour tm" "tm_hour tm < 24" "0 \<le> tm_min tm" "tm_min tm < 60" "0 \<le> tm_sec tm" "tm_sec tm < 60"
  shows "\<exists>v. encode_utc_time t = Ret (encode_tlv TAG_UTCTime v) \<and> length v = 13 \<and>
    tlv_to_utc_time \<lparr>tlv_tag = TAG_UTCTime, tlv_value = v\<rparr> =
      Some (word_of_int (timegm (tm\<lparr>tm_year := (tm_year tm - 50) mod 100 + 50\<rparr>)))"
proof -
  let ?y = "(tm_year tm + 1900) mod 100"
  let ?v = "fmt02 ?y @ fmt02 (tm_mon tm + 1) @ fmt02 (tm_mday tm) @ fmt02 (tm_hour tm) @ fmt02 (tm_min tm)
     @ fmt02 (tm_sec tm) @ [0x5A]"
  have len: "length ?v = 13" using assms by (simp add: length_fmt)
  have y: "?y + (if 50 \<le> ?y then 1900 else 2000) = (tm_year tm - 50) mod 100 + 1950" by (rule century_digits)
  have "scan_fields 6 ?v = Some [?y, tm_mon tm + 1, tm_mday tm, tm_hour tm, tm_min tm, tm_sec tm]"
    using assms by (simp add: numeral_eq_Suc scan_fmt)
  then have "tlv_to_utc_time \<lparr>tlv_tag = TAG_UTCTime, tlv_value = ?v\<rparr> =
      Some (word_of_int (timegm (tm\<lparr>tm_year := (tm_year tm - 50) mod 100 + 50\<rparr>)))"
    using len y by (cases tm) (simp add: tlv_to_utc_time_def Let_def add.commute del: length_append)
  moreover have "encode_utc_time t = Ret (encode_tlv TAG_UTCTime ?v)"
    using assms(1,2) len by (simp add: encode_utc_time_def Let_def rem100_def)
  ultimately show ?thesis using len by blast
qed

lemma century_back:
  assumes "150 \<le> tm_year tm" "tm_year tm < 200" "0 \<le> tm_mon tm" "tm_mon tm < 12"
  shows "timegm (tm\<lparr>tm_year := tm_year tm - 100\<rparr>) = timegm tm - 3155760000"
proof -
  define y where "y = tm_year tm + 1800"
  have y: "1950 \<le> y" "y < 2000" using assms by (simp_all add: y_def)
  have century: "y div 100 = 19" "(y + 100) div 100 = 20" using y by (intro div_unique; simp)+
  then have "y mod 100 \<noteq> 0" "(y + 100) mod 100 \<noteq> 0" using y by (simp_all add: minus_mult_div_eq_mod [symmetric])
  moreover have "(y + 100) mod 4 = y mod 4" using mod_mult_self1 [of y 25 4] by simp
  ultimately have leap: "leap_year y = leap_year (y + 100)" by (auto simp: leap_year_def)
  define a where "a = (y - 1) div 4"
  have "(y - 1) div 100 = 19" "(y + 100 - 1) div 100 = 20" "(y - 1) div 400 = 4" "(y + 100 - 1) div 400 = 5"
    using y by (intro div_unique; simp)+
  moreover have "(y + 100 - 1) div 4 = a + 25" using div_mult_self1 [of 4 "y - 1" 25] by (simp add: a_def)
  ultimately have "days_before_year y = 365 * (y - 1) + a - 19 + 4"
    "days_before_year (y + 100) = 365 * (y + 100 - 1) + (a + 25) - 20 + 5"
    by (simp_all only: days_before_year_def a_def)
  with leap have "leap_year y = leap_year (y + 100)" "days_before_year y = days_before_year (y + 100) - 36525"
    by simp_all
  then have "leap_year (tm_year tm - 100 + 1900) = leap_year (tm_year tm + 1900)"
    "days_before_year (tm_year tm - 100 + 1900) = days_before_year (tm_year tm + 1900) - 36525"
    by (simp_all add: y_def algebra_simps)
  then show ?thesis using assms by (simp add: timegm_def Let_def)
qed

lemma utc_time_inverse:
  assumes "- 631152000 \<le> sint t" "sint t < 2524608000"
  shows "\<exists>v. encode_utc_time t = Ret (encode_tlv TAG_UTCTime v) \<and> length v = 13
    \<and> tlv_to_utc_time \<lparr>tlv_tag = TAG_UTCTime, tlv_value = v\<rparr> = Some t"
proof -
  have "days_before_year 1950 \<le> sint t div 86400 + EPOCH_DAY" "sint t div 86400 + EPOCH_DAY < days_before_year 2050"
    using assms day_range [of "sint t"] by (simp_all add: days_before_year_def EPOCH_DAY_def)
  from gmtime_year [OF this] obtain tm where tm: "gmtime (sint t) = Some tm" and inv: "timegm tm = sint t" and rest:
    "1950 \<le> tm_year tm + 1900" "tm_year tm + 1900 < 2050" "0 \<le> tm_mon tm" "tm_mon tm < 12"
    "1 \<le> tm_mday tm" "tm_mday tm < 32" "0 \<le> tm_hour tm" "tm_hour tm < 24" "0 \<le> tm_min tm"
    "tm_min tm < 60" "0 \<le> tm_sec tm" "tm_sec tm < 60" by auto
  have "(tm_year tm - 50) mod 100 + 50 = tm_year tm" using rest(1,2) by (simp add: mod_pos_pos_trivial)
  then have "word_of_int (timegm (tm\<lparr>tm_year := (tm_year tm - 50) mod 100 + 50\<rparr>)) = t"
    using inv by simp
  with utc_time_century [OF tm rest(1,3-12)] show ?thesis by simp
qed

section \<open>Properties\<close>

text \<open>
  Validity times survive the encoding for the half-open century 1950 to 2050: the 13 bytes
  \<open>encode_utc_time\<close> writes for a time (seconds since 1970, negative before it) decode to that time.
\<close>

theorem utc_time_roundtrip:
  assumes "- 631152000 \<le> sint t" "sint t < 2524608000"
  shows "\<exists>v. encode_utc_time t = Ret (encode_tlv TAG_UTCTime v) \<and> length v = 13
    \<and> tlv_to_utc_time \<lparr>tlv_tag = TAG_UTCTime, tlv_value = v\<rparr> = Some t"
  using assms by (rule utc_time_inverse)

theorem utc_time_roundtrip_witness:
  "\<exists>v. encode_utc_time 1709210096 = Ret (encode_tlv TAG_UTCTime v) \<and> length v = 13
    \<and> tlv_to_utc_time \<lparr>tlv_tag = TAG_UTCTime, tlv_value = v\<rparr> = Some 1709210096"
  by (rule utc_time_roundtrip) simp_all

text \<open>
  From 2050 to 2100 it does not: two year digits are written whatever the year, and the reader
  takes them for a year from 1950 on, so a time comes back 36525 days early. Before 2070 that is a
  negative number of seconds, stored in the unsigned \<open>not_before\<close> and \<open>not_after\<close> as a date billions
  of years ahead: a certificate that expires in 2055 never does. RFC 5280 asks for GeneralizedTime here.
\<close>

theorem utc_time_century_lost:
  assumes "2524608000 \<le> sint t" "sint t < 4102444800"
  shows "\<exists>v. encode_utc_time t = Ret (encode_tlv TAG_UTCTime v)
    \<and> tlv_to_utc_time \<lparr>tlv_tag = TAG_UTCTime, tlv_value = v\<rparr> = Some (t - 3155760000)"
proof -
  have "days_before_year 2050 \<le> sint t div 86400 + EPOCH_DAY" "sint t div 86400 + EPOCH_DAY < days_before_year 2100"
    using assms day_range [of "sint t"] by (simp_all add: days_before_year_def EPOCH_DAY_def)
  from gmtime_year [OF this] obtain tm where tm: "gmtime (sint t) = Some tm" and inv: "timegm tm = sint t" and rest:
    "2050 \<le> tm_year tm + 1900" "tm_year tm + 1900 < 2100" "0 \<le> tm_mon tm" "tm_mon tm < 12"
    "1 \<le> tm_mday tm" "tm_mday tm < 32" "0 \<le> tm_hour tm" "tm_hour tm < 24" "0 \<le> tm_min tm"
    "tm_min tm < 60" "0 \<le> tm_sec tm" "tm_sec tm < 60" by auto
  have "(tm_year tm - 50) div 100 = 1" using rest(1,2) by (intro div_unique) simp_all
  then have "(tm_year tm - 50) mod 100 + 50 = tm_year tm - 100" by (simp add: minus_mult_div_eq_mod [symmetric])
  moreover have "timegm (tm\<lparr>tm_year := tm_year tm - 100\<rparr>) = sint t - 3155760000"
    using century_back [of tm] inv rest by simp
  ultimately have "(word_of_int (timegm (tm\<lparr>tm_year := (tm_year tm - 50) mod 100 + 50\<rparr>)) :: u64) = t - 3155760000"
    by (simp only: of_int_diff) simp
  moreover have "1950 \<le> tm_year tm + 1900" using rest(1) by simp
  ultimately show ?thesis using utc_time_century [OF tm _ rest(3-12)] by fastforce
qed

theorem utc_time_century_lost_witness:
  "\<exists>v. encode_utc_time 2682374400 = Ret (encode_tlv TAG_UTCTime v)
    \<and> tlv_to_utc_time \<lparr>tlv_tag = TAG_UTCTime, tlv_value = v\<rparr> = Some (2682374400 - 3155760000)"
  by (rule utc_time_century_lost) simp_all

end
