(* ===== verification/X509Cert.thy ===== *)
theory X509Cert
  imports X509Time
begin

text \<open>
  \<open>src/include/x509.hpp\<close> and the encoding half of \<open>src/src/x509.cpp\<close>: the certificate record, names,
  algorithm identifiers, subject public keys, extensions and \<open>to_der\<close>. A \<open>std::string\<close> of a name or of
  a DNS name is the \<open>bytes\<close> it holds. Where the code calls \<open>gmtime\<close> on a time it cannot convert,
  \<open>encode_utc_time\<close> and with it \<open>to_der\<close> is \<open>Throw\<close>.
\<close>

section \<open>Object identifiers\<close>

definition OID_RSA_ENCRYPTION :: bytes where
  "OID_RSA_ENCRYPTION = [0x2A, 0x86, 0x48, 0x86, 0xF7, 0x0D, 0x01, 0x01, 0x01]"
definition OID_SHA256_WITH_RSA :: bytes where
  "OID_SHA256_WITH_RSA = [0x2A, 0x86, 0x48, 0x86, 0xF7, 0x0D, 0x01, 0x01, 0x0B]"
definition OID_SHA384_WITH_RSA :: bytes where
  "OID_SHA384_WITH_RSA = [0x2A, 0x86, 0x48, 0x86, 0xF7, 0x0D, 0x01, 0x01, 0x0C]"
definition OID_SHA512_WITH_RSA :: bytes where
  "OID_SHA512_WITH_RSA = [0x2A, 0x86, 0x48, 0x86, 0xF7, 0x0D, 0x01, 0x01, 0x0D]"
definition OID_RSASSA_PSS :: bytes where
  "OID_RSASSA_PSS = [0x2A, 0x86, 0x48, 0x86, 0xF7, 0x0D, 0x01, 0x01, 0x0A]"
definition OID_MGF1 :: bytes where
  "OID_MGF1 = [0x2A, 0x86, 0x48, 0x86, 0xF7, 0x0D, 0x01, 0x01, 0x08]"
definition OID_SHA256 :: bytes where
  "OID_SHA256 = [0x60, 0x86, 0x48, 0x01, 0x65, 0x03, 0x04, 0x02, 0x01]"
definition OID_SHA384 :: bytes where
  "OID_SHA384 = [0x60, 0x86, 0x48, 0x01, 0x65, 0x03, 0x04, 0x02, 0x02]"
definition OID_SHA512 :: bytes where
  "OID_SHA512 = [0x60, 0x86, 0x48, 0x01, 0x65, 0x03, 0x04, 0x02, 0x03]"
definition OID_EC_PUBLIC_KEY :: bytes where
  "OID_EC_PUBLIC_KEY = [0x2A, 0x86, 0x48, 0xCE, 0x3D, 0x02, 0x01]"
definition OID_EC_SECP256R1 :: bytes where
  "OID_EC_SECP256R1 = [0x2A, 0x86, 0x48, 0xCE, 0x3D, 0x03, 0x01, 0x07]"
definition OID_EC_SECP384R1 :: bytes where "OID_EC_SECP384R1 = [0x2B, 0x81, 0x04, 0x00, 0x22]"
definition OID_EC_SECP521R1 :: bytes where "OID_EC_SECP521R1 = [0x2B, 0x81, 0x04, 0x00, 0x23]"
definition OID_ECDSA_WITH_SHA256 :: bytes where
  "OID_ECDSA_WITH_SHA256 = [0x2A, 0x86, 0x48, 0xCE, 0x3D, 0x04, 0x03, 0x02]"
definition OID_ECDSA_WITH_SHA384 :: bytes where
  "OID_ECDSA_WITH_SHA384 = [0x2A, 0x86, 0x48, 0xCE, 0x3D, 0x04, 0x03, 0x03]"
definition OID_ECDSA_WITH_SHA512 :: bytes where
  "OID_ECDSA_WITH_SHA512 = [0x2A, 0x86, 0x48, 0xCE, 0x3D, 0x04, 0x03, 0x04]"
definition OID_ED25519 :: bytes where "OID_ED25519 = [0x2B, 0x65, 0x70]"
definition OID_ED448 :: bytes where "OID_ED448 = [0x2B, 0x65, 0x71]"
definition OID_SM2 :: bytes where "OID_SM2 = [0x2A, 0x81, 0x1C, 0xCF, 0x55, 0x01, 0x82, 0x2D]"
definition OID_SM2_WITH_SM3 :: bytes where "OID_SM2_WITH_SM3 = [0x2A, 0x81, 0x1C, 0xCF, 0x55, 0x01, 0x83, 0x75]"
definition OID_BASIC_CONSTRAINTS :: bytes where "OID_BASIC_CONSTRAINTS = [0x55, 0x1D, 0x13]"
definition OID_KEY_USAGE :: bytes where "OID_KEY_USAGE = [0x55, 0x1D, 0x0F]"
definition OID_EXT_KEY_USAGE :: bytes where "OID_EXT_KEY_USAGE = [0x55, 0x1D, 0x25]"
definition OID_SUBJECT_ALT_NAME :: bytes where "OID_SUBJECT_ALT_NAME = [0x55, 0x1D, 0x11]"
definition OID_EKU_SERVER_AUTH :: bytes where "OID_EKU_SERVER_AUTH = [0x2B, 0x06, 0x01, 0x05, 0x05, 0x07, 0x03, 0x01]"
definition OID_EKU_CLIENT_AUTH :: bytes where "OID_EKU_CLIENT_AUTH = [0x2B, 0x06, 0x01, 0x05, 0x05, 0x07, 0x03, 0x02]"
definition OID_CN :: bytes where "OID_CN = [0x55, 0x04, 0x03]"

lemmas sig_oid_defs = OID_SHA256_WITH_RSA_def OID_SHA384_WITH_RSA_def OID_SHA512_WITH_RSA_def OID_RSASSA_PSS_def
  OID_ECDSA_WITH_SHA256_def OID_ECDSA_WITH_SHA384_def OID_ECDSA_WITH_SHA512_def OID_ED25519_def OID_ED448_def
  OID_SM2_WITH_SM3_def

lemmas key_oid_defs = OID_RSA_ENCRYPTION_def OID_EC_PUBLIC_KEY_def OID_EC_SECP256R1_def OID_EC_SECP384R1_def
  OID_EC_SECP521R1_def OID_ED25519_def OID_ED448_def OID_SM2_def

lemmas hash_oid_defs = OID_SHA256_def OID_SHA384_def OID_SHA512_def OID_MGF1_def

lemmas ext_oid_defs = OID_BASIC_CONSTRAINTS_def OID_KEY_USAGE_def OID_EXT_KEY_USAGE_def OID_SUBJECT_ALT_NAME_def

section \<open>Certificates\<close>

datatype KeyType = RSA_2048 | RSA_3072 | RSA_4096 | Ed25519 | Ed448 | ECDSA_P256 | ECDSA_P384 | SM2 | ECDSA_P521

definition is_rsa :: "KeyType \<Rightarrow> bool" where
  "is_rsa kt \<longleftrightarrow> kt = RSA_2048 \<or> kt = RSA_3072 \<or> kt = RSA_4096"

definition is_ec :: "KeyType \<Rightarrow> bool" where
  "is_ec kt \<longleftrightarrow> kt = ECDSA_P256 \<or> kt = ECDSA_P384 \<or> kt = ECDSA_P521 \<or> kt = SM2"

datatype ExtKeyUsage = SERVER_AUTH | CLIENT_AUTH

record NameAttribute =
  na_oid :: bytes
  na_value :: bytes

type_synonym DistinguishedName = "NameAttribute list"

text \<open>\<open>path_len = -1\<close> stands for an absent length.\<close>

record BasicConstraints =
  ca :: bool
  path_len :: int

record SubjectAlternativeName =
  dns_names :: "bytes list"
  ip_addrs :: "bytes list"

record RawExtension =
  r_oid :: bytes
  r_critical :: bool
  r_extn_value :: bytes

record x509_cert =
  version :: int
  serial_number :: bytes
  issuer :: DistinguishedName
  subject :: DistinguishedName
  not_before :: u64
  not_after :: u64
  key_type :: KeyType
  public_key :: bytes
  basic_constraints :: "BasicConstraints option"
  key_usage :: "u16 option"
  ext_key_usage :: "ExtKeyUsage list option"
  subject_alt_name :: "SubjectAlternativeName option"
  raw_extensions :: "RawExtension list"
  sign_key_type :: KeyType
  signature :: bytes
  tbs_raw :: bytes
  sig_is_pss :: bool
  sig_hash_len :: int

text \<open>A default-constructed \<open>x509_cert\<close>.\<close>

definition x509_cert_default :: x509_cert where
  "x509_cert_default = \<lparr>version = 2, serial_number = [], issuer = [], subject = [], not_before = 0, not_after = 0,
     key_type = Ed25519, public_key = [], basic_constraints = None, key_usage = None, ext_key_usage = None,
     subject_alt_name = None, raw_extensions = [], sign_key_type = Ed25519, signature = [], tbs_raw = [],
     sig_is_pss = False, sig_hash_len = 32\<rparr>"

section \<open>Names and algorithm identifiers\<close>

definition encode_attribute :: "NameAttribute \<Rightarrow> bytes" where
  "encode_attribute attr = encode_set (encode_sequence (encode_oid (na_oid attr) @ encode_utf8_string (na_value attr)))"

definition encode_name :: "DistinguishedName \<Rightarrow> bytes" where
  "encode_name dn = encode_sequence (concat (map encode_attribute dn))"

definition hash_oid :: "int \<Rightarrow> bytes" where
  "hash_oid hash_len = (if hash_len = 48 then OID_SHA384 else if hash_len = 64 then OID_SHA512 else OID_SHA256)"

text \<open>RSASSA-PSS-params: hash, mask generation and salt length, the salt length as one byte.\<close>

definition pss_params :: "int \<Rightarrow> bytes" where
  "pss_params hash_len =
     (let hash_alg = encode_oid (hash_oid hash_len) @ encode_null;
          mgf_alg = encode_oid OID_MGF1 @ encode_sequence (encode_oid (hash_oid hash_len) @ encode_null)
      in encode_sequence (encode_context TAG_CONTEXT0 (encode_sequence hash_alg)
           @ encode_context TAG_CONTEXT1 (encode_sequence mgf_alg)
           @ encode_context TAG_CONTEXT2 (encode_integer [word_of_int hash_len])))"

definition sig_algo_body :: "KeyType \<Rightarrow> int \<Rightarrow> bool \<Rightarrow> bytes" where
  "sig_algo_body kt hash_len pss =
     (case kt of
        Ed25519 \<Rightarrow> encode_oid OID_ED25519
      | Ed448 \<Rightarrow> encode_oid OID_ED448
      | ECDSA_P256 \<Rightarrow> encode_oid OID_ECDSA_WITH_SHA256
      | ECDSA_P384 \<Rightarrow> encode_oid OID_ECDSA_WITH_SHA384
      | ECDSA_P521 \<Rightarrow> encode_oid OID_ECDSA_WITH_SHA512
      | SM2 \<Rightarrow> encode_oid OID_SM2_WITH_SM3
      | _ \<Rightarrow>
          if \<not> pss then
            encode_oid (if hash_len = 48 then OID_SHA384_WITH_RSA
                        else if hash_len = 64 then OID_SHA512_WITH_RSA else OID_SHA256_WITH_RSA)
            @ encode_null
          else encode_oid OID_RSASSA_PSS @ pss_params hash_len)"

definition encode_sig_algo :: "KeyType \<Rightarrow> int \<Rightarrow> bool \<Rightarrow> bytes" where
  "encode_sig_algo kt hash_len pss = encode_sequence (sig_algo_body kt hash_len pss)"

section \<open>Public keys\<close>

definition spki_algorithm :: "KeyType \<Rightarrow> bytes" where
  "spki_algorithm kt =
     (case kt of
        Ed25519 \<Rightarrow> encode_oid OID_ED25519
      | Ed448 \<Rightarrow> encode_oid OID_ED448
      | ECDSA_P256 \<Rightarrow> encode_oid OID_EC_PUBLIC_KEY @ encode_oid OID_EC_SECP256R1
      | ECDSA_P384 \<Rightarrow> encode_oid OID_EC_PUBLIC_KEY @ encode_oid OID_EC_SECP384R1
      | ECDSA_P521 \<Rightarrow> encode_oid OID_EC_PUBLIC_KEY @ encode_oid OID_EC_SECP521R1
      | SM2 \<Rightarrow> encode_oid OID_EC_PUBLIC_KEY @ encode_oid OID_SM2
      | _ \<Rightarrow> encode_oid OID_RSA_ENCRYPTION @ encode_null)"

text \<open>
  The key bits. An RSA key is the modulus followed by three bytes of exponent, which are not read: 65537
  is written. With fewer than three bytes the modulus would end before it begins.
\<close>

definition spki_key :: "KeyType \<Rightarrow> bytes \<Rightarrow> bytes run" where
  "spki_key kt raw_key =
     (if is_rsa kt then
        if length raw_key < 3 then Throw
        else let n_len = length raw_key - 3
             in Ret (encode_bit_string
                  (encode_sequence (encode_integer (take n_len raw_key) @ encode_integer [0x01, 0x00, 0x01])) 0)
      else if is_ec kt then Ret (encode_bit_string (0x04 # raw_key) 0)
      else Ret (encode_bit_string raw_key 0))"

definition run_bind :: "'a run \<Rightarrow> ('a \<Rightarrow> 'b run) \<Rightarrow> 'b run" where
  "run_bind m f = (case m of Throw \<Rightarrow> Throw | Ret x \<Rightarrow> f x)"

lemma run_bind_simps [simp]: "run_bind Throw f = Throw" "run_bind (Ret x) f = f x"
  by (simp_all add: run_bind_def)

lemma run_bind_Ret: "run_bind m f = Ret y \<longleftrightarrow> (\<exists>x. m = Ret x \<and> f x = Ret y)"
  by (cases m) simp_all

definition encode_spki :: "KeyType \<Rightarrow> bytes \<Rightarrow> bytes run" where
  "encode_spki kt raw_key =
     run_bind (spki_key kt raw_key) (\<lambda>pub_der. Ret (encode_sequence (encode_sequence (spki_algorithm kt) @ pub_der)))"

section \<open>Extensions\<close>

text \<open>One extension: identifier, the critical flag if set, the value as an octet string.\<close>

definition encode_extension :: "bytes \<Rightarrow> bool \<Rightarrow> bytes \<Rightarrow> bytes" where
  "encode_extension oid critical v =
     encode_sequence (encode_oid oid @ (if critical then [0x01, 0x01, 0xFF] else []) @ encode_octet_string v)"

definition basic_constraints_ext :: "BasicConstraints option \<Rightarrow> bytes" where
  "basic_constraints_ext bc =
     (case bc of None \<Rightarrow> []
      | Some bc \<Rightarrow>
          let plv = (if path_len bc = 0 then [0] else rev (length_bytes (nat (path_len bc))));
              inner = (if ca bc then [0x01, 0x01, 0xFF] else [])
                      @ (if path_len bc \<ge> 0 then encode_integer plv else [])
          in encode_extension OID_BASIC_CONSTRAINTS True (encode_sequence inner))"

fun trailing_zeros :: "nat \<Rightarrow> nat" where
  "trailing_zeros v = (if 0 < v \<and> v mod 2 = 0 then Suc (trailing_zeros (v div 2)) else 0)"

declare trailing_zeros.simps [simp del]

definition key_usage_ext :: "u16 option \<Rightarrow> bytes" where
  "key_usage_ext ku =
     (case ku of None \<Rightarrow> []
      | Some bits \<Rightarrow>
          if bits = 0 then []
          else
            let ku_bytes = [ucast (drop_bit 8 bits), ucast (bits AND 0xFF)] :: bytes;
                meaningful = 16 - trailing_zeros (unat bits);
                ku_len = (meaningful + 7) div 8;
                unused = ku_len * 8 - meaningful
            in encode_extension OID_KEY_USAGE True (encode_bit_string (take ku_len ku_bytes) (word_of_nat unused)))"

definition eku_oid :: "ExtKeyUsage \<Rightarrow> bytes" where
  "eku_oid u = (case u of SERVER_AUTH \<Rightarrow> OID_EKU_SERVER_AUTH | CLIENT_AUTH \<Rightarrow> OID_EKU_CLIENT_AUTH)"

definition ext_key_usage_ext :: "ExtKeyUsage list option \<Rightarrow> bytes" where
  "ext_key_usage_ext eku =
     (case eku of None \<Rightarrow> []
      | Some usages \<Rightarrow>
          if usages = [] then []
          else encode_extension OID_EXT_KEY_USAGE False
                 (encode_sequence (concat (map (\<lambda>u. encode_oid (eku_oid u)) usages))))"

definition subject_alt_name_ext :: "SubjectAlternativeName option \<Rightarrow> bytes" where
  "subject_alt_name_ext san =
     (case san of None \<Rightarrow> []
      | Some san \<Rightarrow>
          if dns_names san = [] then []
          else encode_extension OID_SUBJECT_ALT_NAME False
                 (encode_sequence (concat (map (\<lambda>dns. 0x82 # encode_length (length dns) @ dns) (dns_names san)))))"

definition extension_bodies :: "x509_cert \<Rightarrow> bytes" where
  "extension_bodies cert =
     basic_constraints_ext (basic_constraints cert) @ key_usage_ext (key_usage cert)
     @ ext_key_usage_ext (ext_key_usage cert) @ subject_alt_name_ext (subject_alt_name cert)
     @ concat (map (\<lambda>raw. encode_extension (r_oid raw) (r_critical raw) (r_extn_value raw)) (raw_extensions cert))"

definition encode_extensions :: "x509_cert \<Rightarrow> bytes" where
  "encode_extensions cert =
     (let exts = extension_bodies cert
      in if exts = [] then [] else encode_context TAG_CONTEXT3 (encode_sequence exts))"

section \<open>Certificates\<close>

definition tbs_body :: "x509_cert \<Rightarrow> bytes run" where
  "tbs_body cert =
     run_bind (encode_utc_time (not_before cert)) (\<lambda>nb.
     run_bind (encode_utc_time (not_after cert)) (\<lambda>na.
     run_bind (encode_spki (key_type cert) (public_key cert)) (\<lambda>spki.
       Ret ((if version cert > 0 then encode_context TAG_CONTEXT0 (encode_integer [word_of_int (version cert)]) else [])
         @ encode_integer (serial_number cert)
         @ encode_sig_algo (sign_key_type cert) (sig_hash_len cert) (sig_is_pss cert)
         @ encode_name (issuer cert)
         @ encode_sequence (nb @ na)
         @ encode_name (subject cert)
         @ spki
         @ (if version cert \<ge> 2 then encode_extensions cert else [])))))"

definition to_der :: "x509_cert \<Rightarrow> bytes run" where
  "to_der cert =
     run_bind (tbs_body cert) (\<lambda>tbs.
       Ret (encode_sequence (encode_sequence tbs
         @ encode_sig_algo (sign_key_type cert) (sig_hash_len cert) (sig_is_pss cert)
         @ encode_bit_string (signature cert) 0)))"

end
