(* ===== verification/X509Parse.thy ===== *)
theory X509Parse
  imports X509Cert
begin

text \<open>
  The parsing half of \<open>src/src/x509.cpp\<close>: \<open>decode_tlv2\<close>, names, validity, public keys, extensions,
  signature algorithms and \<open>x509_cert::from_der\<close>. Unlike \<open>decode_tlv\<close>, \<open>decode_tlv2\<close> takes a malformed
  length for zero, and when it fails it leaves the cursor where it stood inside the element; some callers
  go on from there, so the cursor is part of its result. (\<open>TLV::total_len\<close>, which nothing reads, is left
  out.)
\<close>

section \<open>Elements\<close>

definition decode_tlv2 :: "bytes \<Rightarrow> nat \<Rightarrow> (TLV option \<times> nat) run" where
  "decode_tlv2 data offset =
     (if offset \<ge> length data then Ret (None, offset)
      else
        let tag = data ! offset;
            (vlen, offset) = decode_length data (offset + 1)
        in if word_of_nat offset + vlen > (word_of_nat (length data) :: u64) then Ret (None, offset)
           else if offset + unat vlen > length data then Throw
           else Ret (Some \<lparr>tlv_tag = tag, tlv_value = take (unat vlen) (drop offset data)\<rparr>, offset + unat vlen))"

text \<open>\<open>auto t = decode_tlv2(\<dots>); if (!t || t->tag != tag) return std::nullopt;\<close> and the rest.\<close>

definition need_tlv :: "bytes \<Rightarrow> nat \<Rightarrow> ASN1Tag \<Rightarrow> (TLV \<Rightarrow> nat \<Rightarrow> 'a option run) \<Rightarrow> 'a option run" where
  "need_tlv data offset tag k =
     run_bind (decode_tlv2 data offset) (\<lambda>(t, offset).
       case t of None \<Rightarrow> Ret None
       | Some t \<Rightarrow> if tlv_tag t \<noteq> tag then Ret None else k t offset)"

lemma run_bind_cong [fundef_cong]:
  "m = m' \<Longrightarrow> (\<And>x. m' = Ret x \<Longrightarrow> f x = g x) \<Longrightarrow> run_bind m f = run_bind m' g"
  by (cases m') simp_all

lemma decode_tlv2_advances:
  assumes "decode_tlv2 d off = Ret (t, off')" "off < length d"
  shows "off < off'" "off' \<le> length d"
proof -
  obtain n q where q: "decode_length d (off + 1) = (n, q)" by (cases "decode_length d (off + 1)")
  have "off + 1 \<le> q" "q \<le> length d" using decode_length_bounds [OF q] assms(2) by simp_all
  with assms q show "off < off'" "off' \<le> length d"
    by (auto simp: decode_tlv2_def Let_def split: if_splits)
qed

section \<open>Names\<close>

definition parse_ava :: "bytes \<Rightarrow> NameAttribute list run" where
  "parse_ava rdn =
     run_bind (decode_tlv2 rdn 0) (\<lambda>(ava, _).
       case ava of None \<Rightarrow> Ret []
       | Some ava \<Rightarrow>
           if tlv_tag ava \<noteq> TAG_SEQUENCE then Ret []
           else run_bind (decode_tlv2 (tlv_value ava) 0) (\<lambda>(oid_tlv, ao).
                run_bind (decode_tlv2 (tlv_value ava) ao) (\<lambda>(val_tlv, _).
                  Ret (case (oid_tlv, val_tlv) of
                         (Some oid, Some v) \<Rightarrow>
                           if tlv_tag oid = TAG_OID then [\<lparr>na_oid = tlv_value oid, na_value = tlv_to_string v\<rparr>] else []
                       | _ \<Rightarrow> []))))"

function parse_dn_loop :: "bytes \<Rightarrow> nat \<Rightarrow> DistinguishedName run" where
  "parse_dn_loop dn_data off =
     (if off < length dn_data then
        run_bind (decode_tlv2 dn_data off) (\<lambda>(rdn, off').
          case rdn of None \<Rightarrow> Ret []
          | Some rdn \<Rightarrow>
              if tlv_tag rdn \<noteq> TAG_SET then Ret []
              else run_bind (parse_ava (tlv_value rdn)) (\<lambda>attr.
                   run_bind (parse_dn_loop dn_data off') (\<lambda>dn. Ret (attr @ dn))))
      else Ret [])"
  by pat_completeness auto
termination
  by (relation "measure (\<lambda>(d, off). length d - off)")
    (auto dest: decode_tlv2_advances(1) simp: diff_less_mono2)

declare parse_dn_loop.simps [simp del]

definition parse_dn :: "bytes \<Rightarrow> DistinguishedName run" where
  "parse_dn dn_data = parse_dn_loop dn_data 0"

section \<open>Validity\<close>

definition parse_validity :: "bytes \<Rightarrow> (u64 \<times> u64) run" where
  "parse_validity v =
     run_bind (decode_tlv2 v 0) (\<lambda>(nb, voff).
     run_bind (decode_tlv2 v voff) (\<lambda>(na, _).
       let time = (\<lambda>t. case t of None \<Rightarrow> 0
                       | Some t \<Rightarrow> (case tlv_to_utc_time t of None \<Rightarrow> 0 | Some x \<Rightarrow> x))
       in Ret (time nb, time na)))"

section \<open>Public keys\<close>

text \<open>The key type an algorithm identifier names; one that is not known leaves the default, Ed25519.\<close>

definition spki_key_type :: "bytes \<Rightarrow> bytes \<Rightarrow> nat \<Rightarrow> KeyType run" where
  "spki_key_type algo_oid alg aoff =
     (if oid_equal algo_oid OID_RSA_ENCRYPTION then Ret RSA_2048
      else if oid_equal algo_oid OID_EC_PUBLIC_KEY then
        run_bind (decode_tlv2 alg aoff) (\<lambda>(curve_tlv, _).
          case curve_tlv of None \<Rightarrow> Ret ECDSA_P256
          | Some curve \<Rightarrow>
              let co = tlv_to_oid curve
              in Ret (if oid_equal co OID_SM2 then SM2
                      else if oid_equal co OID_EC_SECP384R1 then ECDSA_P384
                      else if oid_equal co OID_EC_SECP521R1 then ECDSA_P521
                      else ECDSA_P256))
      else if oid_equal algo_oid OID_ED25519 then Ret Ed25519
      else if oid_equal algo_oid OID_ED448 then Ret Ed448
      else Ret Ed25519)"

definition rsa_key_type_from_mod_len :: "nat \<Rightarrow> KeyType" where
  "rsa_key_type_from_mod_len mod_len =
     (if mod_len \<le> 256 then RSA_2048 else if mod_len \<le> 384 then RSA_3072 else RSA_4096)"

text \<open>An RSAPublicKey becomes modulus and exponent side by side; anything else stays as it is.\<close>

definition rsa_raw_key :: "bytes \<Rightarrow> (KeyType \<times> bytes) run" where
  "rsa_raw_key pub =
     run_bind (decode_tlv2 pub 0) (\<lambda>(rsa_seq, _).
       case rsa_seq of None \<Rightarrow> Ret (RSA_2048, pub)
       | Some rsa_seq \<Rightarrow>
           if tlv_tag rsa_seq \<noteq> TAG_SEQUENCE then Ret (RSA_2048, pub)
           else run_bind (decode_tlv2 (tlv_value rsa_seq) 0) (\<lambda>(mod_tlv, inner_off).
                run_bind (decode_tlv2 (tlv_value rsa_seq) inner_off) (\<lambda>(exp_tlv, _).
                  case (mod_tlv, exp_tlv) of
                    (Some m, Some e) \<Rightarrow>
                      if tlv_tag m = TAG_INTEGER \<and> tlv_tag e = TAG_INTEGER then
                        let ms = (if tlv_value m \<noteq> [] \<and> hd (tlv_value m) = 0x00 then 1 else 0)
                        in Ret (rsa_key_type_from_mod_len (length (tlv_value m) - ms), drop ms (tlv_value m) @ tlv_value e)
                      else Ret (RSA_2048, pub)
                  | _ \<Rightarrow> Ret (RSA_2048, pub))))"

definition strip_point_prefix :: "bytes \<Rightarrow> bytes" where
  "strip_point_prefix pub = (if pub \<noteq> [] \<and> hd pub = 0x04 then tl pub else pub)"

definition parse_spki :: "bytes \<Rightarrow> (KeyType \<times> bytes) option run" where
  "parse_spki spki =
     need_tlv spki 0 TAG_SEQUENCE (\<lambda>alg soff.
     need_tlv (tlv_value alg) 0 TAG_OID (\<lambda>oid aoff.
     run_bind (spki_key_type (tlv_value oid) (tlv_value alg) aoff) (\<lambda>kt.
     need_tlv spki soff TAG_BIT_STRING (\<lambda>pub_tlv _.
       let pub = tlv_to_bit_string pub_tlv
       in if is_rsa kt then run_bind (rsa_raw_key pub) (\<lambda>kp. Ret (Some kp))
          else Ret (Some (kt, if is_ec kt then strip_point_prefix pub else pub))))))"

section \<open>Extensions\<close>

definition parse_basic_constraints :: "bytes \<Rightarrow> BasicConstraints option run" where
  "parse_basic_constraints v =
     run_bind (decode_tlv2 v 0) (\<lambda>(bc_seq, _).
       case bc_seq of None \<Rightarrow> Ret None
       | Some bc_seq \<Rightarrow>
           let b = tlv_value bc_seq
           in run_bind (if b \<noteq> [] then decode_tlv2 b 0 else Ret (None, 0)) (\<lambda>(ca_tlv, bo).
              run_bind (if bo < length b then decode_tlv2 b bo else Ret (None, bo)) (\<lambda>(pl_tlv, _).
                Ret (Some \<lparr>ca = (case ca_tlv of None \<Rightarrow> False
                                 | Some t \<Rightarrow> tlv_tag t = TAG_BOOLEAN \<and> tlv_value t \<noteq> [] \<and> hd (tlv_value t) \<noteq> 0),
                           path_len = (case pl_tlv of None \<Rightarrow> -1
                                       | Some t \<Rightarrow> if tlv_tag t = TAG_INTEGER \<and> tlv_value t \<noteq> []
                                                    then uint (hd (tlv_value t)) else -1)\<rparr>))))"

text \<open>The loop over the general names goes on after an element it cannot decode.\<close>

function san_dns_names :: "bytes \<Rightarrow> nat \<Rightarrow> bytes list run" where
  "san_dns_names v sioff =
     (if sioff < length v then
        run_bind (decode_tlv2 v sioff) (\<lambda>(gn, sioff').
        run_bind (san_dns_names v sioff') (\<lambda>names.
          Ret ((case gn of None \<Rightarrow> [] | Some gn \<Rightarrow> if tlv_tag gn = 0x82 then [tlv_value gn] else []) @ names)))
      else Ret [])"
  by pat_completeness auto
termination
  by (relation "measure (\<lambda>(d, off). length d - off)")
    (auto dest: decode_tlv2_advances(1) simp: diff_less_mono2)

declare san_dns_names.simps [simp del]

definition parse_subject_alt_name :: "bytes \<Rightarrow> SubjectAlternativeName option run" where
  "parse_subject_alt_name v =
     run_bind (decode_tlv2 v 0) (\<lambda>(san_seq, _).
       case san_seq of None \<Rightarrow> Ret None
       | Some san_seq \<Rightarrow>
           if tlv_tag san_seq \<noteq> TAG_SEQUENCE then Ret None
           else run_bind (san_dns_names (tlv_value san_seq) 0) (\<lambda>names.
                  Ret (Some \<lparr>dns_names = names, ip_addrs = []\<rparr>)))"

text \<open>An extension with its identifier taken: the flag and the contents of the octet string.\<close>

definition parse_extn_value :: "bytes \<Rightarrow> nat \<Rightarrow> (bool \<times> bytes) option run" where
  "parse_extn_value ext eioff =
     run_bind (decode_tlv2 ext eioff) (\<lambda>(nxt, eioff).
       case nxt of None \<Rightarrow> Ret None
       | Some nxt \<Rightarrow>
           if tlv_tag nxt = TAG_BOOLEAN then
             need_tlv ext eioff TAG_OCTET_STRING (\<lambda>v _.
               Ret (Some (tlv_value nxt \<noteq> [] \<and> hd (tlv_value nxt) \<noteq> 0, tlv_value v)))
           else if tlv_tag nxt \<noteq> TAG_OCTET_STRING then Ret None
           else Ret (Some (False, tlv_value nxt)))"

definition store_extension :: "bytes \<Rightarrow> bool \<Rightarrow> bytes \<Rightarrow> x509_cert \<Rightarrow> x509_cert run" where
  "store_extension eoid critical v cert =
     (if oid_equal eoid OID_BASIC_CONSTRAINTS then
        run_bind (parse_basic_constraints v) (\<lambda>bc.
          Ret (case bc of None \<Rightarrow> cert | Some _ \<Rightarrow> cert\<lparr>basic_constraints := bc\<rparr>))
      else if oid_equal eoid OID_SUBJECT_ALT_NAME then
        run_bind (parse_subject_alt_name v) (\<lambda>san.
          Ret (case san of None \<Rightarrow> cert | Some _ \<Rightarrow> cert\<lparr>subject_alt_name := san\<rparr>))
      else Ret (cert\<lparr>raw_extensions := raw_extensions cert
                       @ [\<lparr>r_oid = eoid, r_critical = critical, r_extn_value = v\<rparr>]\<rparr>))"

text \<open>An extension that does not parse ends the loop with what has been stored so far.\<close>

function parse_extension_list :: "bytes \<Rightarrow> nat \<Rightarrow> x509_cert \<Rightarrow> x509_cert run" where
  "parse_extension_list seq extoff cert =
     (if extoff < length seq then
        run_bind (decode_tlv2 seq extoff) (\<lambda>(ext, extoff').
          case ext of None \<Rightarrow> Ret cert
          | Some ext \<Rightarrow>
              if tlv_tag ext \<noteq> TAG_SEQUENCE then Ret cert
              else run_bind (decode_tlv2 (tlv_value ext) 0) (\<lambda>(eoid, eioff).
                case eoid of None \<Rightarrow> Ret cert
                | Some eoid \<Rightarrow>
                    if tlv_tag eoid \<noteq> TAG_OID then Ret cert
                    else run_bind (parse_extn_value (tlv_value ext) eioff) (\<lambda>fv.
                      case fv of None \<Rightarrow> Ret cert
                      | Some (critical, v) \<Rightarrow>
                          run_bind (store_extension (tlv_value eoid) critical v cert)
                            (\<lambda>cert. parse_extension_list seq extoff' cert))))
      else Ret cert)"
  by pat_completeness auto
termination
  by (relation "measure (\<lambda>(d, off, _). length d - off)")
    (auto dest: decode_tlv2_advances(1) simp: diff_less_mono2)

declare parse_extension_list.simps [simp del]

definition parse_extensions :: "bytes \<Rightarrow> nat \<Rightarrow> x509_cert \<Rightarrow> x509_cert run" where
  "parse_extensions tbs tbs_off cert =
     (if tbs_off < length tbs then
        run_bind (decode_tlv2 tbs tbs_off) (\<lambda>(ext_tlv, _).
          case ext_tlv of None \<Rightarrow> Ret cert
          | Some ext_tlv \<Rightarrow>
              if tlv_tag ext_tlv \<noteq> TAG_CONTEXT3 then Ret cert
              else run_bind (decode_tlv2 (tlv_value ext_tlv) 0) (\<lambda>(ext_seq, _).
                case ext_seq of None \<Rightarrow> Ret cert
                | Some ext_seq \<Rightarrow>
                    if tlv_tag ext_seq \<noteq> TAG_SEQUENCE then Ret cert
                    else parse_extension_list (tlv_value ext_seq) 0 cert))
      else Ret cert)"

section \<open>Signature algorithms\<close>

text \<open>
  The hash length in RSASSA-PSS parameters: the hash algorithm may come with or without its context tag,
  and whatever does not parse stands for SHA-256.
\<close>

definition pss_hash_of :: "TLV \<Rightarrow> int run" where
  "pss_hash_of hash_seq =
     (if tlv_tag hash_seq \<noteq> TAG_SEQUENCE then Ret 32
      else run_bind (decode_tlv2 (tlv_value hash_seq) 0) (\<lambda>(hoid, _).
        Ret (case hoid of None \<Rightarrow> 32
             | Some hoid \<Rightarrow>
                 let hb = tlv_to_oid hoid
                 in if oid_equal hb OID_SHA384 then 48 else if oid_equal hb OID_SHA512 then 64 else 32)))"

definition pss_hash_len :: "bytes \<Rightarrow> nat \<Rightarrow> int run" where
  "pss_hash_len sig_alg params_off =
     (if params_off \<ge> length sig_alg \<or> sig_alg ! params_off = 0x05 then Ret 32
      else run_bind (decode_tlv2 sig_alg params_off) (\<lambda>(params, _).
        case params of None \<Rightarrow> Ret 32
        | Some params \<Rightarrow>
            if tlv_tag params \<noteq> TAG_SEQUENCE then Ret 32
            else run_bind (decode_tlv2 (tlv_value params) 0) (\<lambda>(hash_seq, _).
              case hash_seq of None \<Rightarrow> Ret 32
              | Some hash_seq \<Rightarrow>
                  if tlv_tag hash_seq = TAG_CONTEXT0 then
                    run_bind (decode_tlv2 (tlv_value hash_seq) 0) (\<lambda>(inner, _).
                      case inner of None \<Rightarrow> Ret 32 | Some inner \<Rightarrow> pss_hash_of inner)
                  else pss_hash_of hash_seq)))"

definition store_sig_algo :: "bytes \<Rightarrow> x509_cert \<Rightarrow> x509_cert run" where
  "store_sig_algo sig_alg cert =
     run_bind (decode_tlv2 sig_alg 0) (\<lambda>(sa_oid_tlv, saoff).
       case sa_oid_tlv of None \<Rightarrow> Ret cert
       | Some t \<Rightarrow>
           let sa_oid = tlv_to_oid t
           in if oid_equal sa_oid OID_SHA256_WITH_RSA then Ret (cert\<lparr>sign_key_type := RSA_2048, sig_hash_len := 32\<rparr>)
              else if oid_equal sa_oid OID_SHA384_WITH_RSA then Ret (cert\<lparr>sign_key_type := RSA_2048, sig_hash_len := 48\<rparr>)
              else if oid_equal sa_oid OID_SHA512_WITH_RSA then Ret (cert\<lparr>sign_key_type := RSA_2048, sig_hash_len := 64\<rparr>)
              else if oid_equal sa_oid OID_RSASSA_PSS then
                run_bind (pss_hash_len sig_alg saoff) (\<lambda>h.
                  Ret (cert\<lparr>sign_key_type := RSA_2048, sig_is_pss := True, sig_hash_len := h\<rparr>))
              else if oid_equal sa_oid OID_ECDSA_WITH_SHA256 then Ret (cert\<lparr>sign_key_type := ECDSA_P256\<rparr>)
              else if oid_equal sa_oid OID_ECDSA_WITH_SHA384 then Ret (cert\<lparr>sign_key_type := ECDSA_P384\<rparr>)
              else if oid_equal sa_oid OID_ECDSA_WITH_SHA512 then Ret (cert\<lparr>sign_key_type := ECDSA_P521\<rparr>)
              else if oid_equal sa_oid OID_ED25519 then Ret (cert\<lparr>sign_key_type := Ed25519\<rparr>)
              else if oid_equal sa_oid OID_ED448 then Ret (cert\<lparr>sign_key_type := Ed448\<rparr>)
              else if oid_equal sa_oid OID_SM2_WITH_SM3 then Ret (cert\<lparr>sign_key_type := SM2\<rparr>)
              else Ret cert)"

section \<open>Certificates\<close>

text \<open>The optional version: its number and the serial number's element, with the cursor after it.\<close>

definition parse_version :: "bytes \<Rightarrow> (int \<times> TLV \<times> nat) option run" where
  "parse_version tbs =
     run_bind (decode_tlv2 tbs 0) (\<lambda>(first, tbs_off).
       case first of None \<Rightarrow> Ret None
       | Some first \<Rightarrow>
           if tlv_tag first = TAG_CONTEXT0 then
             run_bind (decode_tlv2 (tlv_value first) 0) (\<lambda>(ver_tlv, _).
             run_bind (decode_tlv2 tbs tbs_off) (\<lambda>(second, tbs_off).
               Ret (case second of None \<Rightarrow> None
                    | Some second \<Rightarrow>
                        Some (case ver_tlv of None \<Rightarrow> 0
                              | Some v \<Rightarrow> if tlv_tag v = TAG_INTEGER \<and> tlv_value v \<noteq> [] then uint (hd (tlv_value v)) else 0,
                              second, tbs_off))))
           else Ret (Some (0, first, tbs_off)))"

definition parse_tbs :: "bytes \<Rightarrow> x509_cert \<Rightarrow> x509_cert option run" where
  "parse_tbs tbs cert =
     run_bind (parse_version tbs) (\<lambda>v. case v of None \<Rightarrow> Ret None
     | Some (ver, serial, off) \<Rightarrow>
         if tlv_tag serial \<noteq> TAG_INTEGER then Ret None
         else
           need_tlv tbs off TAG_SEQUENCE (\<lambda>tbs_sig off.
           need_tlv tbs off TAG_SEQUENCE (\<lambda>issuer_tlv off.
           run_bind (parse_dn (tlv_value issuer_tlv)) (\<lambda>iss.
           need_tlv tbs off TAG_SEQUENCE (\<lambda>valid_tlv off.
           run_bind (parse_validity (tlv_value valid_tlv)) (\<lambda>(nb, na).
           need_tlv tbs off TAG_SEQUENCE (\<lambda>subj_tlv off.
           run_bind (parse_dn (tlv_value subj_tlv)) (\<lambda>subj.
           need_tlv tbs off TAG_SEQUENCE (\<lambda>spki_tlv off.
           run_bind (parse_spki (tlv_value spki_tlv)) (\<lambda>kp. case kp of None \<Rightarrow> Ret None
           | Some (kt, pub) \<Rightarrow>
               run_bind (parse_extensions tbs off
                 (cert\<lparr>version := ver, serial_number := tlv_value serial, issuer := iss, subject := subj,
                        not_before := nb, not_after := na, key_type := kt, public_key := pub\<rparr>))
                 (\<lambda>cert. Ret (Some cert))))))))))))"

definition from_der :: "bytes \<Rightarrow> x509_cert option run" where
  "from_der data =
     need_tlv data 0 TAG_SEQUENCE (\<lambda>cert_tlv _.
     need_tlv (tlv_value cert_tlv) 0 TAG_SEQUENCE (\<lambda>tbs_tlv inner_off.
       let tbs_end = inner_off
       in need_tlv (tlv_value cert_tlv) inner_off TAG_SEQUENCE (\<lambda>sig_alg_tlv inner_off.
          need_tlv (tlv_value cert_tlv) inner_off TAG_BIT_STRING (\<lambda>sig_tlv _.
          run_bind (parse_tbs (tlv_value tbs_tlv)
            (x509_cert_default\<lparr>tbs_raw := take tbs_end (tlv_value cert_tlv), signature := tlv_to_bit_string sig_tlv\<rparr>))
            (\<lambda>cert. case cert of None \<Rightarrow> Ret None
             | Some cert \<Rightarrow> run_bind (store_sig_algo (tlv_value sig_alg_tlv) cert) (\<lambda>cert. Ret (Some cert)))))))"

end
