(* ===== verification/CtCodec.thy ===== *)
theory CtCodec
  imports Codec
begin

text \<open>
  The messages of the transparency log and their encodings, from \<open>src/ct.cpp\<close> and
  \<open>include/ct.hpp\<close>: precertificate entries, Merkle tree leaves, signed certificate timestamps
  and signed tree heads. An enum class with a fixed underlying type is that integer type, since the
  code casts any byte to it.
\<close>

section \<open>Constants and structs\<close>

type_synonym LogEntryType = u16
type_synonym MerkleLeafType = u8

definition CT_VERSION_V1 :: u8 where "CT_VERSION_V1 = 0"
definition CT_LOG_ID_SIZE :: nat where "CT_LOG_ID_SIZE = 32"
definition X509_ENTRY :: LogEntryType where "X509_ENTRY = 0"
definition PRECERT_ENTRY :: LogEntryType where "PRECERT_ENTRY = 1"
definition CERTIFICATE_TIMESTAMP :: u8 where "CERTIFICATE_TIMESTAMP = 0"
definition TREE_HASH :: u8 where "TREE_HASH = 1"
definition TIMESTAMPED_ENTRY :: MerkleLeafType where "TIMESTAMPED_ENTRY = 0"

lemmas ct_consts = CT_VERSION_V1_def CT_LOG_ID_SIZE_def X509_ENTRY_def PRECERT_ENTRY_def
  CERTIFICATE_TIMESTAMP_def TREE_HASH_def TIMESTAMPED_ENTRY_def

record pre_cert =
  issuer_key_hash :: bytes
  tbs_certificate :: bytes

record merkle_tree_leaf =
  l_version :: u8
  leaf_type :: MerkleLeafType
  l_timestamp :: u64
  entry_type :: LogEntryType
  signed_entry :: bytes
  l_extensions :: bytes

record signed_certificate_timestamp =
  s_version :: u8
  s_log_id :: bytes
  s_timestamp :: u64
  s_extensions :: bytes
  s_hash_algorithm :: u8
  s_signature_algorithm :: u8
  s_signature :: bytes

record signed_tree_head =
  t_version :: u8
  t_timestamp :: u64
  t_tree_size :: u64
  t_root_hash :: bytes
  t_hash_algorithm :: u8
  t_signature_algorithm :: u8
  t_signature :: bytes

section \<open>PreCert and MerkleTreeLeaf\<close>

definition serialize_precert :: "pre_cert \<Rightarrow> bytes" where
  "serialize_precert pc = issuer_key_hash pc @ encode_tls_vector24 (tbs_certificate pc)"

definition deserialize_precert :: "bytes \<Rightarrow> pre_cert option" where
  "deserialize_precert data =
     (let off = 0 in
      if off + CT_LOG_ID_SIZE > length data then None
      else
        let ikh = take CT_LOG_ID_SIZE (drop off data); off = off + CT_LOG_ID_SIZE
        in case read_vector24 data off of None \<Rightarrow> None
           | Some (tbs, off) \<Rightarrow>
               if off \<noteq> length data then None
               else Some \<lparr>issuer_key_hash = ikh, tbs_certificate = tbs\<rparr>)"

definition make_precert_signed_entry :: "pre_cert \<Rightarrow> bytes" where
  "make_precert_signed_entry pc = serialize_precert pc"

text \<open>The whole length of the DER element at \<open>off\<close>: tag, length and value.\<close>

definition tlv_total_len :: "bytes \<Rightarrow> nat \<Rightarrow> nat option" where
  "tlv_total_len data off =
     (if off \<ge> length data then None
      else let pos = off + 1 in
        if pos \<ge> length data then None
        else
          let first = data ! pos; pos = pos + 1;
              r = (if first < 0x80 then Some (unat first, pos)
                   else let nb = unat (first AND 0x7F)
                        in if nb = 0 \<or> nb > 4 \<or> pos + nb > length data then None
                           else Some (foldl (\<lambda>vlen b. vlen * 256 + unat b) 0 (take nb (drop pos data)), pos + nb))
          in case r of None \<Rightarrow> None
             | Some (vlen, pos) \<Rightarrow> if pos + vlen > length data then None else Some (pos + vlen - off))"

definition serialize_merkle_tree_leaf :: "merkle_tree_leaf \<Rightarrow> bytes" where
  "serialize_merkle_tree_leaf leaf =
     [l_version leaf, leaf_type leaf] @ encode_u64 (l_timestamp leaf)
     @ [ucast (drop_bit 8 (entry_type leaf)), ucast (entry_type leaf AND 0xFF)]
     @ signed_entry leaf @ encode_tls_vector16 (l_extensions leaf)"

text \<open>Where the signed entry that starts at \<open>off\<close> ends, by its type.\<close>

definition signed_entry_end :: "bytes \<Rightarrow> nat \<Rightarrow> LogEntryType \<Rightarrow> nat option" where
  "signed_entry_end data off et =
     (if et = X509_ENTRY then
        (case tlv_total_len data off of None \<Rightarrow> None
         | Some tlen \<Rightarrow> if off + tlen > length data then None else Some (off + tlen))
      else if et = PRECERT_ENTRY then
        (if off + CT_LOG_ID_SIZE + 3 > length data then None
         else case read_u24 data (off + CT_LOG_ID_SIZE) of None \<Rightarrow> None
              | Some (tbs_len, pos) \<Rightarrow>
                  if pos + unat tbs_len > length data then None else Some (pos + unat tbs_len))
      else None)"

definition deserialize_merkle_tree_leaf :: "bytes \<Rightarrow> merkle_tree_leaf option" where
  "deserialize_merkle_tree_leaf data =
     (if 2 > length data then None
      else case read_u64 data 2 of None \<Rightarrow> None
      | Some (ts, off) \<Rightarrow> (case read_u16 data off of None \<Rightarrow> None
        | Some (et, off) \<Rightarrow> (case signed_entry_end data off et of None \<Rightarrow> None
          | Some signed_end \<Rightarrow>
              let entry = take (signed_end - off) (drop off data); off = signed_end in
              if length data - off < 2 then None
              else case read_u16 data off of None \<Rightarrow> None
                   | Some (ext_len, eo) \<Rightarrow>
                       if eo + unat ext_len \<noteq> length data then None
                       else Some \<lparr>l_version = data ! 0, leaf_type = data ! 1, l_timestamp = ts,
                                  entry_type = et, signed_entry = entry, l_extensions = drop eo data\<rparr>)))"

section \<open>SCT and STH\<close>

definition sct_signed_data :: "u64 \<Rightarrow> LogEntryType \<Rightarrow> bytes \<Rightarrow> bytes \<Rightarrow> bytes" where
  "sct_signed_data timestamp et entry extensions =
     [CT_VERSION_V1, CERTIFICATE_TIMESTAMP] @ encode_u64 timestamp
     @ [ucast (drop_bit 8 et), ucast (et AND 0xFF)] @ entry @ encode_tls_vector16 extensions"

definition serialize_sct :: "signed_certificate_timestamp \<Rightarrow> bytes" where
  "serialize_sct sct =
     [s_version sct] @ s_log_id sct @ encode_u64 (s_timestamp sct) @ encode_tls_vector16 (s_extensions sct)
     @ [s_hash_algorithm sct, s_signature_algorithm sct] @ encode_tls_vector16 (s_signature sct)"

definition deserialize_sct :: "bytes \<Rightarrow> signed_certificate_timestamp option" where
  "deserialize_sct data =
     (if 1 + CT_LOG_ID_SIZE > length data then None
      else case read_u64 data (1 + CT_LOG_ID_SIZE) of None \<Rightarrow> None
      | Some (ts, off) \<Rightarrow> (case read_vector16 data off of None \<Rightarrow> None
        | Some (ext, off) \<Rightarrow>
            if off + 2 > length data then None
            else let ha = data ! off; sa = data ! (off + 1); off = off + 2 in
              case read_vector16 data off of None \<Rightarrow> None
              | Some (sig, off) \<Rightarrow>
                  if off \<noteq> length data then None
                  else Some \<lparr>s_version = data ! 0, s_log_id = take CT_LOG_ID_SIZE (drop 1 data),
                             s_timestamp = ts, s_extensions = ext, s_hash_algorithm = ha,
                             s_signature_algorithm = sa, s_signature = sig\<rparr>))"

definition sth_signed_data :: "signed_tree_head \<Rightarrow> bytes" where
  "sth_signed_data sth =
     [t_version sth, TREE_HASH] @ encode_u64 (t_timestamp sth) @ encode_u64 (t_tree_size sth) @ t_root_hash sth"

definition serialize_sth :: "signed_tree_head \<Rightarrow> bytes" where
  "serialize_sth sth =
     [t_version sth] @ encode_u64 (t_timestamp sth) @ encode_u64 (t_tree_size sth) @ t_root_hash sth
     @ [t_hash_algorithm sth, t_signature_algorithm sth] @ encode_tls_vector16 (t_signature sth)"

section \<open>Decoding inverts encoding\<close>

definition wf_sct :: "signed_certificate_timestamp \<Rightarrow> bool" where
  "wf_sct s \<longleftrightarrow> length (s_log_id s) = 32 \<and> length (s_extensions s) \<le> 0xFFFF \<and> length (s_signature s) \<le> 0xFFFF"

lemma entry_type_bytes: "[ucast (drop_bit 8 et), ucast (et AND 0xFF)] = encode_u16 et"
proof -
  have "et AND 0xFF = take_bit 8 et" by (simp add: take_bit_eq_mask mask_eq_exp_minus_1)
  then show ?thesis by (auto intro!: bit_word_eqI simp: encode_u16_def bit_simps)
qed

lemma deserialize_sct_iff: "deserialize_sct d = Some s \<longleftrightarrow> wf_sct s \<and> d = serialize_sct s"
proof
  assume a: "deserialize_sct d = Some s"
  then obtain ts off1 ext off2 sig where le: "33 \<le> length d"
    and ts: "read_u64 d 33 = Some (ts, off1)" and ext: "read_vector16 d off1 = Some (ext, off2)"
    and two: "off2 + 2 \<le> length d" and sig: "read_vector16 d (off2 + 2) = Some (sig, length d)"
    and s: "s = \<lparr>s_version = d ! 0, s_log_id = take 32 (drop 1 d), s_timestamp = ts, s_extensions = ext,
      s_hash_algorithm = d ! off2, s_signature_algorithm = d ! (off2 + 1), s_signature = sig\<rparr>"
    by (auto simp: deserialize_sct_def CT_LOG_ID_SIZE_def Let_def split: if_splits option.splits)
  have "has_at d 0 (serialize_sct s)" "length (serialize_sct s) = length d"
    using le ts ext two sig unfolding s
    by (simp_all add: serialize_sct_def has_at_append has_at_Cons has_at_take parses)
  then have "d = serialize_sct s" using has_at_whole by blast
  moreover have "wf_sct s" using le ext sig unfolding s by (simp add: wf_sct_def parses)
  ultimately show "wf_sct s \<and> d = serialize_sct s" by simp
next
  assume s: "wf_sct s \<and> d = serialize_sct s"
  then have at: "has_at d 0 (serialize_sct s)" and len: "length d = length (serialize_sct s)"
    using has_at_whole by auto
  let ?o1 = "41" and ?o2 = "41 + length (encode_tls_vector16 (s_extensions s))"
  have "read_u64 d 33 = Some (s_timestamp s, 41)"
    and "read_vector16 d 41 = Some (s_extensions s, ?o2)"
    and "read_vector16 d (?o2 + 2) = Some (s_signature s, length d)"
    and "d ! 0 = s_version s" "d ! ?o2 = s_hash_algorithm s" "d ! (?o2 + 1) = s_signature_algorithm s"
    and "take 32 (drop 1 d) = s_log_id s" "33 \<le> length d" "?o2 + 2 \<le> length d"
    using at s len
    by (simp_all add: serialize_sct_def has_at_append has_at_Cons wf_sct_def parses)
  then show "deserialize_sct d = Some s"
    by (simp add: deserialize_sct_def CT_LOG_ID_SIZE_def Let_def)
qed

definition wf_precert :: "pre_cert \<Rightarrow> bool" where
  "wf_precert pc \<longleftrightarrow> length (issuer_key_hash pc) = 32 \<and> length (tbs_certificate pc) \<le> 0xFFFFFF"

lemma deserialize_precert_iff: "deserialize_precert d = Some pc \<longleftrightarrow> wf_precert pc \<and> d = serialize_precert pc"
proof
  assume "deserialize_precert d = Some pc"
  then obtain tbs where le: "32 \<le> length d" and tbs: "read_vector24 d 32 = Some (tbs, length d)"
    and pc: "pc = \<lparr>issuer_key_hash = take 32 d, tbs_certificate = tbs\<rparr>"
    by (auto simp: deserialize_precert_def CT_LOG_ID_SIZE_def Let_def split: if_splits option.splits)
  have "has_at d 0 (serialize_precert pc)" "length (serialize_precert pc) = length d"
    using le tbs has_at_take [of 0 32 d] unfolding pc
    by (simp_all add: serialize_precert_def has_at_append parses)
  then have "d = serialize_precert pc" using has_at_whole by blast
  moreover have "wf_precert pc" using le tbs unfolding pc by (simp add: wf_precert_def parses)
  ultimately show "wf_precert pc \<and> d = serialize_precert pc" by simp
next
  assume s: "wf_precert pc \<and> d = serialize_precert pc"
  then have at: "has_at d 0 (serialize_precert pc)" and len: "length d = length (serialize_precert pc)"
    using has_at_whole by auto
  have "read_vector24 d 32 = Some (tbs_certificate pc, length d)" "32 \<le> length d" "take 32 d = issuer_key_hash pc"
    using at len s
    by (simp_all add: serialize_precert_def has_at_append wf_precert_def parses)
  then show "deserialize_precert d = Some pc"
    by (simp add: deserialize_precert_def CT_LOG_ID_SIZE_def Let_def)
qed


text \<open>An entry of a leaf delimits itself: a DER element, or a precertificate entry.\<close>

definition wf_entry :: "LogEntryType \<Rightarrow> bytes \<Rightarrow> bool" where
  "wf_entry et x \<longleftrightarrow> et = X509_ENTRY \<and> tlv_total_len x 0 = Some (length x)
     \<or> et = PRECERT_ENTRY \<and> deserialize_precert x \<noteq> None"

definition wf_leaf :: "merkle_tree_leaf \<Rightarrow> bool" where
  "wf_leaf l \<longleftrightarrow> wf_entry (entry_type l) (signed_entry l) \<and> length (l_extensions l) \<le> 0xFFFF"

lemma tlv_total_len_drop: "off \<le> length d \<Longrightarrow> tlv_total_len d off = tlv_total_len (drop off d) 0"
  by (auto simp: tlv_total_len_def Let_def add.commute add.left_commute
      split: option.splits if_splits)

lemma tlv_total_len_take:
  "tlv_total_len d 0 = Some t \<longleftrightarrow> t \<le> length d \<and> tlv_total_len (take t d) 0 = Some t"
proof (cases "length d < 2")
  case True
  then show ?thesis by (auto simp: tlv_total_len_def Let_def min_def split: if_splits)
next
  case False
  then obtain a b r where d: "d = a # b # r" by (cases d; cases "tl d") auto
  let ?nb = "unat (b AND 0x7F)" and ?val = "\<lambda>xs. foldl (\<lambda>vlen b. vlen * 256 + unat b) 0 (xs :: bytes)"
  have long: "tlv_total_len (a # b # xs) 0 =
      (if ?nb = 0 \<or> ?nb > 4 \<or> ?nb > length xs then None
       else if ?nb + ?val (take ?nb xs) > length xs then None else Some (2 + ?nb + ?val (take ?nb xs)))"
    if "\<not> b < 0x80" for xs
    using that by (simp add: tlv_total_len_def Let_def)
  have short: "tlv_total_len (a # b # xs) 0 = (if unat b > length xs then None else Some (2 + unat b))"
    if "b < 0x80" for xs
    using that by (simp add: tlv_total_len_def Let_def)
  have small: "tlv_total_len (take t d) 0 = None" if "t < 2"
    using that by (auto simp: tlv_total_len_def)
  have big: "take t d = a # b # take (t - 2) r" if "2 \<le> t"
    using that by (cases t; cases "t - 1") (auto simp: d)
  show ?thesis
  proof (cases "2 \<le> t")
    case True
    show ?thesis unfolding big [OF True] unfolding d
      using True by (cases "b < 0x80") (auto simp: short long min_def split: if_splits)
  next
    case F: False
    then show ?thesis using small
      by (cases "b < 0x80") (auto simp: short long d split: if_splits)
  qed
qed

lemma tlv_total_len_slice:
  "tlv_total_len d off = Some t \<longleftrightarrow> off + t \<le> length d \<and> tlv_total_len (take t (drop off d)) 0 = Some t"
proof (cases "off \<le> length d")
  case True
  then show ?thesis
    using tlv_total_len_take [of "drop off d" t] by (auto simp: tlv_total_len_drop [OF True])
qed (auto simp: tlv_total_len_def)

lemma has_at_sub:
  assumes "off \<le> e" "e \<le> length d"
  shows "has_at (take (e - off) (drop off d)) i bs \<longleftrightarrow> has_at d (off + i) bs \<and> off + i + length bs \<le> e"
proof (cases "off + i + length bs \<le> e")
  case True
  then have "take (length bs) (drop i (take (e - off) (drop off d))) = take (length bs) (drop (off + i) d)"
    by (simp add: drop_take min_absorb1 add.commute)
  moreover have "i + length bs \<le> e - off" using True by simp
  ultimately show ?thesis using True assms by (simp add: has_at_def)
next
  case False
  then have "\<not> i + length bs \<le> e - off" using assms by simp
  with False assms show ?thesis by (simp add: has_at_def)
qed

lemma precert_slice:
  "(\<exists>pc. wf_precert pc \<and> x = serialize_precert pc) \<longleftrightarrow> 35 \<le> length x \<and> has_at x 32 (be_bytes 3 (length x - 35)) \<and> length x - 35 < 2 ^ 24"
proof
  assume "\<exists>pc. wf_precert pc \<and> x = serialize_precert pc"
  then obtain pc where pc: "wf_precert pc" "x = serialize_precert pc" by blast
  then have x: "x = issuer_key_hash pc @ be_bytes 3 (length (tbs_certificate pc)) @ tbs_certificate pc"
    by (simp add: serialize_precert_def encode_tls_vector24_eq wf_precert_def)
  from pc(1) show "35 \<le> length x \<and> has_at x 32 (be_bytes 3 (length x - 35)) \<and> length x - 35 < 2 ^ 24"
    unfolding x by (simp add: wf_precert_def has_at_def)
next
  assume x: "35 \<le> length x \<and> has_at x 32 (be_bytes 3 (length x - 35)) \<and> length x - 35 < 2 ^ 24"
  let ?pc = "\<lparr>issuer_key_hash = take 32 x, tbs_certificate = drop 35 x\<rparr>"
  have "take 3 (drop 32 x) @ drop 35 x = drop 32 x" using append_take_drop_id [of 3 "drop 32 x"] by simp
  then have "take 32 x @ take 3 (drop 32 x) @ drop 35 x = x" by simp
  moreover have "take 3 (drop 32 x) = be_bytes 3 (length x - 35)" using x by (simp add: has_at_def)
  moreover have "length (drop 35 x) \<le> 0xFFFFFF" using x by simp
  ultimately have "x = serialize_precert ?pc"
    by (simp add: serialize_precert_def encode_tls_vector24_eq)
  moreover have "wf_precert ?pc" using x by (simp add: wf_precert_def)
  ultimately show "\<exists>pc. wf_precert pc \<and> x = serialize_precert pc" by blast
qed

lemma signed_entry_end_iff:
  "signed_entry_end d off et = Some e \<longleftrightarrow>
     off \<le> e \<and> e \<le> length d \<and> wf_entry et (take (e - off) (drop off d))"
proof -
  consider "et = X509_ENTRY" | "et = PRECERT_ENTRY" | "et \<noteq> X509_ENTRY" "et \<noteq> PRECERT_ENTRY" by blast
  then show ?thesis
  proof cases
    case 1
    have "signed_entry_end d off et = Some e \<longleftrightarrow> off \<le> e \<and> tlv_total_len d off = Some (e - off)"
    proof (cases "tlv_total_len d off")
      case (Some t)
      then have "off + t \<le> length d" using tlv_total_len_slice by blast
      with Some 1 show ?thesis by (auto simp: signed_entry_end_def)
    qed (simp add: 1 signed_entry_end_def)
    with 1 show ?thesis
      using tlv_total_len_slice [of d off "e - off"] by (auto simp: wf_entry_def ct_consts)
  next
    case 2
    let ?x = "take (e - off) (drop off d)"
    have x: "wf_entry et ?x \<longleftrightarrow> 35 \<le> length ?x \<and> has_at ?x 32 (be_bytes 3 (length ?x - 35)) \<and> length ?x - 35 < 2 ^ 24"
      using 2 precert_slice [of ?x] deserialize_precert_iff [of ?x]
      by (auto simp: wf_entry_def ct_consts)
    have e: "signed_entry_end d off et = Some e \<longleftrightarrow>
        (\<exists>n. read_u24 d (off + 32) = Some (n, off + 35) \<and> e = off + 35 + unat n \<and> e \<le> length d)"
    proof (cases "read_u24 d (off + 32)")
      case (Some y)
      then obtain n where n: "read_u24 d (off + 32) = Some (n, off + 35)" "off + 35 \<le> length d"
        by (cases y) (auto simp: read_u24_iff has_at_def)
      with 2 show ?thesis by (auto simp: signed_entry_end_def ct_consts)
    qed (simp add: 2 signed_entry_end_def ct_consts)
    show ?thesis
    proof
      assume "signed_entry_end d off et = Some e"
      with e obtain n where "read_u24 d (off + 32) = Some (n, off + 35)" "e = off + 35 + unat n" "e \<le> length d"
        by blast
      then show "off \<le> e \<and> e \<le> length d \<and> wf_entry et ?x"
        unfolding x using has_at_sub [of off e d 32 "be_bytes 3 (unat n)"]
        by (simp add: read_u24_iff)
    next
      assume a: "off \<le> e \<and> e \<le> length d \<and> wf_entry et ?x"
      then have le: "off \<le> e" "e \<le> length d" and wf: "wf_entry et ?x" by simp_all
      then have lx: "length ?x = e - off" by (simp add: min_absorb2 diff_le_mono)
      from wf have "35 \<le> e - off" "has_at d (off + 32) (be_bytes 3 (e - off - 35))" "e - off - 35 < 2 ^ 24"
        using x [unfolded lx] has_at_sub [OF le, of 32 "be_bytes 3 (e - off - 35)"] by blast+
      then obtain m where m: "e = off + 35 + m" "has_at d (off + 32) (be_bytes 3 m)" "m < 2 ^ 24"
        by (intro that [of "e - off - 35"]) simp_all
      moreover define n :: u32 where "n = word_of_nat m"
      ultimately have "e = off + 35 + unat n" and "read_u24 d (off + 32) = Some (n, off + 35)"
        by (simp_all add: read_u24_iff unat_of_nat)
      then show "signed_entry_end d off et = Some e" unfolding e using le by blast
    qed
  next
    case 3
    then show ?thesis by (simp add: signed_entry_end_def wf_entry_def)
  qed
qed


lemma serialize_leaf_eq:
  "serialize_merkle_tree_leaf l = [l_version l, leaf_type l] @ encode_u64 (l_timestamp l)
     @ encode_u16 (entry_type l) @ signed_entry l @ encode_tls_vector16 (l_extensions l)"
  using entry_type_bytes [of "entry_type l"] by (simp add: serialize_merkle_tree_leaf_def)

lemma deserialize_leaf_iff:
  "deserialize_merkle_tree_leaf d = Some l \<longleftrightarrow> wf_leaf l \<and> d = serialize_merkle_tree_leaf l"
proof
  assume "deserialize_merkle_tree_leaf d = Some l"
  then obtain ts off1 et off2 e n eo where le: "2 \<le> length d"
    and ts: "read_u64 d 2 = Some (ts, off1)" and et: "read_u16 d off1 = Some (et, off2)"
    and e: "signed_entry_end d off2 et = Some e" and le2: "e + 2 \<le> length d"
    and n: "read_u16 d e = Some (n, eo)" and ext: "eo + unat n = length d"
    and l: "l = \<lparr>l_version = d ! 0, leaf_type = d ! 1, l_timestamp = ts, entry_type = et,
        signed_entry = take (e - off2) (drop off2 d), l_extensions = drop eo d\<rparr>"
    by (auto simp: deserialize_merkle_tree_leaf_def Let_def split: if_splits option.splits)
  have off2: "off2 = 12" using ts et by (simp add: parses)
  have eo: "eo = e + 2" and "length d - (e + 2) = unat n" using n ext by (simp_all add: parses)
  then have len: "length (drop eo d) = unat n" by simp
  have "unat n < 2 ^ LENGTH(16)" by (rule unsigned_less)
  then have n16: "unat n \<le> 0xFFFF" by simp
  have wf: "wf_entry et (take (e - off2) (drop off2 d))" "off2 \<le> e" using e by (simp_all add: signed_entry_end_iff)
  have "has_at d (e + 2) (drop eo d)" using le2 by (simp add: eo has_at_def)
  then have v: "has_at d e (encode_tls_vector16 (drop eo d))"
    using n n16 len by (simp add: encode_tls_vector16_eq has_at_append parses encode_u16_be)
  have "d \<noteq> []" using le by auto
  then have "has_at d 0 (serialize_merkle_tree_leaf l)" "length (serialize_merkle_tree_leaf l) = length d"
    using le ts et v wf(2) le2 len n16 ext has_at_take [of off2 "e - off2" d] unfolding l
    by (simp_all add: serialize_leaf_eq has_at_append has_at_Cons parses off2 eo encode_tls_vector16_eq
        numeral_2_eq_2 [symmetric])
  then have "d = serialize_merkle_tree_leaf l" using has_at_whole by blast
  moreover have "wf_leaf l" using wf len n16 unfolding l by (simp add: wf_leaf_def)
  ultimately show "wf_leaf l \<and> d = serialize_merkle_tree_leaf l" by simp
next
  assume a: "wf_leaf l \<and> d = serialize_merkle_tree_leaf l"
  then have at: "has_at d 0 (serialize_merkle_tree_leaf l)" and len: "length d = length (serialize_merkle_tree_leaf l)"
    using has_at_whole by auto
  let ?e = "12 + length (signed_entry l)" and ?n = "word_of_nat (length (l_extensions l)) :: u16"
  have x: "length (l_extensions l) \<le> 0xFFFF" "wf_entry (entry_type l) (signed_entry l)"
    using a by (simp_all add: wf_leaf_def)
  then have n: "unat ?n = length (l_extensions l)" by (simp add: unat_of_nat)
  have "read_u64 d 2 = Some (l_timestamp l, 10)" "read_u16 d 10 = Some (entry_type l, 12)"
    "d ! 0 = l_version l" "d ! 1 = leaf_type l" "2 \<le> length d"
    and ent: "has_at d 12 (signed_entry l)" and v: "has_at d ?e (encode_tls_vector16 (l_extensions l))"
    using at len by (simp_all add: serialize_leaf_eq has_at_append has_at_Cons parses numeral_2_eq_2 [symmetric])
  moreover have "length d = ?e + 2 + length (l_extensions l)"
    using len x by (simp add: serialize_leaf_eq encode_tls_vector16_eq)
  moreover have "take (length (signed_entry l)) (drop 12 d) = signed_entry l"
    using ent by (simp add: has_at_def)
  moreover have "read_u16 d ?e = Some (?n, ?e + 2)" "drop (?e + 2) d = l_extensions l"
    using v x n calculation(8)
    by (simp_all add: encode_tls_vector16_eq has_at_append parses encode_u16_be) (simp add: has_at_def)
  moreover have "signed_entry_end d 12 (entry_type l) = Some ?e"
    using x calculation(8,9) by (simp add: signed_entry_end_iff)
  ultimately show "deserialize_merkle_tree_leaf d = Some l"
    using n by (simp add: deserialize_merkle_tree_leaf_def Let_def)
qed


text \<open>What a log signs for an entry is the leaf it stores, byte for byte.\<close>

lemma signed_data_leaf:
  "serialize_merkle_tree_leaf \<lparr>l_version = CT_VERSION_V1, leaf_type = TIMESTAMPED_ENTRY, l_timestamp = t,
     entry_type = et, signed_entry = x, l_extensions = e\<rparr> = sct_signed_data t et x e"
  by (simp add: serialize_merkle_tree_leaf_def sct_signed_data_def ct_consts)

section \<open>Properties\<close>

text \<open>
  The SCT decoder accepts exactly the encodings: \<open>deserialize_sct\<close> returns an SCT if and only
  if the bytes are what \<open>serialize_sct\<close> makes of it, for SCTs whose log id has 32 bytes and whose
  extensions and signature fit their 16-bit length. So encoding and decoding are inverse to each
  other, nothing may follow an SCT, and no SCT has two encodings.
\<close>

theorem sct_codec: "deserialize_sct d = Some s \<longleftrightarrow> wf_sct s \<and> d = serialize_sct s"
  by (rule deserialize_sct_iff)

text \<open>
  The same for Merkle tree leaves: \<open>deserialize_merkle_tree_leaf\<close> accepts exactly the
  encodings of the leaves whose entry delimits itself, a DER element for a certificate and a
  precertificate entry (issuer key hash and 24-bit length) for a precertificate.
\<close>

theorem leaf_codec:
  "deserialize_merkle_tree_leaf d = Some l \<longleftrightarrow>
     (entry_type l = X509_ENTRY \<and> tlv_total_len (signed_entry l) 0 = Some (length (signed_entry l))
      \<or> entry_type l = PRECERT_ENTRY
        \<and> (\<exists>pc. signed_entry l = serialize_precert pc \<and> length (issuer_key_hash pc) = 32
             \<and> length (tbs_certificate pc) \<le> 0xFFFFFF))
     \<and> length (l_extensions l) \<le> 0xFFFF \<and> d = serialize_merkle_tree_leaf l"
proof -
  have "deserialize_precert x \<noteq> None \<longleftrightarrow> (\<exists>pc. x = serialize_precert pc \<and> wf_precert pc)" for x
    using deserialize_precert_iff [of x] by blast
  then show ?thesis
    unfolding deserialize_leaf_iff wf_leaf_def wf_entry_def wf_precert_def by blast
qed

text \<open>
  The signature of an SCT binds what it is about: if the signed data of two submissions with
  self-delimiting entries and extensions of at most 65535 bytes are the same bytes, the timestamps,
  the entry types, the entries and the extensions are the same.
\<close>

theorem sct_signed_data_injective:
  assumes "sct_signed_data t et x e = sct_signed_data t' et' x' e'"
    and "wf_entry et x" "wf_entry et' x'" "length e \<le> 0xFFFF" "length e' \<le> 0xFFFF"
  shows "t = t' \<and> et = et' \<and> x = x' \<and> e = e'"
proof -
  let ?l = "\<lambda>t et x e. \<lparr>l_version = CT_VERSION_V1, leaf_type = TIMESTAMPED_ENTRY, l_timestamp = t,
     entry_type = et, signed_entry = x, l_extensions = e\<rparr>"
  have wf: "wf_leaf (?l t et x e)" "wf_leaf (?l t' et' x' e')"
    using assms(2-5) by (simp_all only: wf_leaf_def merkle_tree_leaf.simps simp_thms)
  have "deserialize_merkle_tree_leaf (sct_signed_data t et x e) = Some (?l t et x e)"
    and "deserialize_merkle_tree_leaf (sct_signed_data t' et' x' e') = Some (?l t' et' x' e')"
    unfolding deserialize_leaf_iff signed_data_leaf using wf by blast+
  then have "Some (?l t et x e) = Some (?l t' et' x' e')"
    unfolding assms(1) by (rule trans [OF sym])
  then show ?thesis by simp
qed

theorem sct_signed_data_injective_witness:
  "(5 :: u64) = 5 \<and> X509_ENTRY = X509_ENTRY \<and> [0x30, 1, 7 :: u8] = [0x30, 1, 7] \<and> [9 :: u8] = [9]"
  using sct_signed_data_injective [of 5 X509_ENTRY "[0x30, 1, 7]" "[9]" 5 X509_ENTRY "[0x30, 1, 7]" "[9]"]
  by (simp add: wf_entry_def tlv_total_len_def)

end
