(* ===== verification/CtX509.thy ===== *)
theory CtX509
  imports X509Parse CtCodec
begin

text \<open>
  How \<open>src/ct.cpp\<close> takes certificates apart and puts them together again: the TBS and its
  elements, looking up an extension, removing and adding extensions, and the SCT list extension.
  \<open>std::nullopt\<close> is \<open>Ret None\<close>; what \<open>decode_tlv\<close> throws is passed on.
\<close>

section \<open>Taking a certificate apart\<close>

definition OID_SCT_LIST :: bytes where
  "OID_SCT_LIST = [0x2B, 0x06, 0x01, 0x04, 0x01, 0xD6, 0x79, 0x02, 0x04, 0x02]"

definition OID_CT_POISON :: bytes where
  "OID_CT_POISON = [0x2B, 0x06, 0x01, 0x04, 0x01, 0xD6, 0x79, 0x02, 0x04, 0x03]"

definition oid_is :: "bytes \<Rightarrow> bytes \<Rightarrow> bool" where
  "oid_is oid raw \<longleftrightarrow> length oid = length raw \<and> oid = raw"

definition extract_tbs :: "bytes \<Rightarrow> bytes option run" where
  "extract_tbs cert_der =
     (case decode_tlv cert_der 0 of
        Throw \<Rightarrow> Throw
      | Ret None \<Rightarrow> Ret None
      | Ret (Some (cert, _)) \<Rightarrow>
          if tlv_tag cert \<noteq> TAG_SEQUENCE then Ret None
          else (case decode_tlv (tlv_value cert) 0 of
                  Throw \<Rightarrow> Throw
                | Ret None \<Rightarrow> Ret None
                | Ret (Some (tbs, io)) \<Rightarrow>
                    if tlv_tag tbs \<noteq> TAG_SEQUENCE then Ret None else Ret (Some (take io (tlv_value cert)))))"

definition tbs_elements :: "bytes \<Rightarrow> bytes list run" where
  "tbs_elements tbs_der =
     (case decode_tlv tbs_der 0 of
        Throw \<Rightarrow> Throw
      | Ret None \<Rightarrow> Ret []
      | Ret (Some (tbs, _)) \<Rightarrow>
          if tlv_tag tbs \<noteq> TAG_SEQUENCE then Ret []
          else (case elements (tlv_value tbs) 0 of Throw \<Rightarrow> Throw | Ret els \<Rightarrow> Ret (map fst els)))"

text \<open>The public key element of a certificate: the seventh of the TBS, or the sixth without a version.\<close>

definition spki_of_elements :: "bytes list \<Rightarrow> bytes option" where
  "spki_of_elements elems =
     (let idx = (if elems \<noteq> [] \<and> length (elems ! 0) \<ge> 1 \<and> (elems ! 0 ! 0) AND 0xE0 = 0xA0 then 1 else 0)
      in if idx + 5 \<ge> length elems then None else Some (elems ! (idx + 5)))"

definition spki_raw :: "x509_cert \<Rightarrow> bytes option run" where
  "spki_raw cert =
     run_bind (if tbs_raw cert \<noteq> [] then Ret (Some (tbs_raw cert)) else run_bind (to_der cert) extract_tbs) (\<lambda>tbs.
       case tbs of None \<Rightarrow> Ret None
       | Some tbs \<Rightarrow> run_bind (tbs_elements tbs) (\<lambda>elems. Ret (spki_of_elements elems)))"

section \<open>Looking up an extension\<close>

record extn_info =
  x_critical :: bool
  x_extn_value :: bytes

text \<open>The loop over the TBS that stops at the extensions.\<close>

function find_context3 :: "bytes \<Rightarrow> nat \<Rightarrow> TLV option run" where
  "find_context3 body pos =
     (if pos < length body then
        (case decode_tlv body pos of
           Throw \<Rightarrow> Throw
         | Ret None \<Rightarrow> Ret None
         | Ret (Some (el, pos')) \<Rightarrow>
             if tlv_tag el = TAG_CONTEXT3 then Ret (Some el) else find_context3 body pos')
      else Ret None)"
  by pat_completeness auto
termination
  by (relation "measure (\<lambda>(body, pos). length body - pos)")
    (auto dest: decode_tlv_bounds(1) simp: diff_less_mono2)

declare find_context3.simps [simp del]

text \<open>What follows the identifier in an extension whose identifier has been matched.\<close>

definition extn_body :: "bytes \<Rightarrow> nat \<Rightarrow> extn_info option run" where
  "extn_body ext xo =
     (case decode_tlv ext xo of
        Throw \<Rightarrow> Throw
      | Ret None \<Rightarrow> Ret None
      | Ret (Some (nxt, xo)) \<Rightarrow>
          if tlv_tag nxt = TAG_BOOLEAN then
            (let critical = (tlv_value nxt \<noteq> [] \<and> hd (tlv_value nxt) \<noteq> 0)
             in case decode_tlv ext xo of
                  Throw \<Rightarrow> Throw
                | Ret None \<Rightarrow> Ret None
                | Ret (Some (nxt, _)) \<Rightarrow>
                    if tlv_tag nxt \<noteq> TAG_OCTET_STRING then Ret None
                    else Ret (Some \<lparr>x_critical = critical, x_extn_value = tlv_value nxt\<rparr>))
          else if tlv_tag nxt \<noteq> TAG_OCTET_STRING then Ret None
          else Ret (Some \<lparr>x_critical = False, x_extn_value = tlv_value nxt\<rparr>))"

function find_extn_loop :: "bytes \<Rightarrow> bytes \<Rightarrow> nat \<Rightarrow> extn_info option run" where
  "find_extn_loop oid seq so =
     (if so < length seq then
        (case decode_tlv seq so of
           Throw \<Rightarrow> Throw
         | Ret None \<Rightarrow> Ret None
         | Ret (Some (ext, so')) \<Rightarrow>
             if tlv_tag ext \<noteq> TAG_SEQUENCE then Ret None
             else (case decode_tlv (tlv_value ext) 0 of
                     Throw \<Rightarrow> Throw
                   | Ret None \<Rightarrow> Ret None
                   | Ret (Some (eoid, xo)) \<Rightarrow>
                       if tlv_tag eoid \<noteq> TAG_OID then Ret None
                       else if \<not> oid_is (tlv_value eoid) oid then find_extn_loop oid seq so'
                       else extn_body (tlv_value ext) xo))
      else Ret None)"
  by pat_completeness auto
termination
  by (relation "measure (\<lambda>(oid, seq, so). length seq - so)")
    (auto dest: decode_tlv_bounds(1) simp: diff_less_mono2)

declare find_extn_loop.simps [simp del]

definition find_extn :: "bytes \<Rightarrow> bytes \<Rightarrow> extn_info option run" where
  "find_extn cert_der oid =
     (case extract_tbs cert_der of
        Throw \<Rightarrow> Throw
      | Ret None \<Rightarrow> Ret None
      | Ret (Some tbs) \<Rightarrow>
          (case decode_tlv tbs 0 of
             Throw \<Rightarrow> Throw
           | Ret None \<Rightarrow> Ret None
           | Ret (Some (t, _)) \<Rightarrow>
               if tlv_tag t \<noteq> TAG_SEQUENCE then Ret None
               else (case find_context3 (tlv_value t) 0 of
                       Throw \<Rightarrow> Throw
                     | Ret None \<Rightarrow> Ret None
                     | Ret (Some exts) \<Rightarrow>
                         (case decode_tlv (tlv_value exts) 0 of
                            Throw \<Rightarrow> Throw
                          | Ret None \<Rightarrow> Ret None
                          | Ret (Some (seq, _)) \<Rightarrow>
                              if tlv_tag seq \<noteq> TAG_SEQUENCE then Ret None
                              else find_extn_loop oid (tlv_value seq) 0))))"

section \<open>Removing and adding extensions\<close>

text \<open>The extensions that stay: those whose identifier is not in \<open>remove_oids\<close>, as raw bytes.\<close>

function keep_extensions :: "bytes list \<Rightarrow> bytes \<Rightarrow> nat \<Rightarrow> bytes option run" where
  "keep_extensions remove_oids seq so =
     (if so < length seq then
        (case decode_tlv seq so of
           Throw \<Rightarrow> Throw
         | Ret None \<Rightarrow> Ret None
         | Ret (Some (ext, so')) \<Rightarrow>
             if tlv_tag ext \<noteq> TAG_SEQUENCE then Ret None
             else (case decode_tlv (tlv_value ext) 0 of
                     Throw \<Rightarrow> Throw
                   | Ret None \<Rightarrow> Ret None
                   | Ret (Some (eoid, _)) \<Rightarrow>
                       if tlv_tag eoid \<noteq> TAG_OID then Ret None
                       else (case keep_extensions remove_oids seq so' of
                               Throw \<Rightarrow> Throw
                             | Ret None \<Rightarrow> Ret None
                             | Ret (Some kept) \<Rightarrow>
                                 Ret (Some ((if tlv_value eoid \<in> set remove_oids then []
                                             else take (so' - so) (drop so seq)) @ kept)))))
      else Ret (Some []))"
  by pat_completeness auto
termination
  by (relation "measure (\<lambda>(oids, seq, so). length seq - so)")
    (auto dest: decode_tlv_bounds(1) simp: diff_less_mono2)

declare keep_extensions.simps [simp del]

text \<open>The loop over the TBS: the elements before the extensions, and the extensions kept.\<close>

function split_tbs :: "bytes list \<Rightarrow> bytes \<Rightarrow> nat \<Rightarrow> (bytes \<times> bytes) option run" where
  "split_tbs remove_oids tbs pos =
     (if pos < length tbs then
        (case decode_tlv tbs pos of
           Throw \<Rightarrow> Throw
         | Ret None \<Rightarrow> Ret None
         | Ret (Some (el, pos')) \<Rightarrow>
             if tlv_tag el = TAG_CONTEXT3 then
               (case decode_tlv (tlv_value el) 0 of
                  Throw \<Rightarrow> Throw
                | Ret None \<Rightarrow> Ret None
                | Ret (Some (seq, _)) \<Rightarrow>
                    if tlv_tag seq \<noteq> TAG_SEQUENCE then Ret None
                    else (case keep_extensions remove_oids (tlv_value seq) 0 of
                            Throw \<Rightarrow> Throw
                          | Ret None \<Rightarrow> Ret None
                          | Ret (Some kept) \<Rightarrow> Ret (Some ([], kept))))
             else (case split_tbs remove_oids tbs pos' of
                     Throw \<Rightarrow> Throw
                   | Ret None \<Rightarrow> Ret None
                   | Ret (Some (body, kept)) \<Rightarrow> Ret (Some (take (pos' - pos) (drop pos tbs) @ body, kept))))
      else Ret (Some ([], [])))"
  by pat_completeness auto
termination
  by (relation "measure (\<lambda>(oids, tbs, pos). length tbs - pos)")
    (auto dest: decode_tlv_bounds(1) simp: diff_less_mono2)

declare split_tbs.simps [simp del]

definition encode_raw_extension :: "RawExtension \<Rightarrow> bytes" where
  "encode_raw_extension raw =
     encode_sequence (encode_oid (r_oid raw)
       @ (if r_critical raw then [0x01, 0x01, 0xFF] else [])
       @ encode_octet_string (r_extn_value raw))"

definition modify_tbs_extensions :: "bytes \<Rightarrow> bytes list \<Rightarrow> RawExtension list \<Rightarrow> bytes option run" where
  "modify_tbs_extensions tbs_der remove_oids add_exts =
     (case decode_tlv tbs_der 0 of
        Throw \<Rightarrow> Throw
      | Ret None \<Rightarrow> Ret None
      | Ret (Some (tbs, _)) \<Rightarrow>
          if tlv_tag tbs \<noteq> TAG_SEQUENCE then Ret None
          else (case split_tbs remove_oids (tlv_value tbs) 0 of
                  Throw \<Rightarrow> Throw
                | Ret None \<Rightarrow> Ret None
                | Ret (Some (body, kept)) \<Rightarrow>
                    let kept = kept @ concat (map encode_raw_extension add_exts);
                        body = (if kept \<noteq> [] then body @ encode_context TAG_CONTEXT3 (encode_sequence kept) else body)
                    in Ret (Some (encode_sequence body))))"

definition precert_tbs_from_final :: "bytes \<Rightarrow> bytes option run" where
  "precert_tbs_from_final final_cert_der =
     (case extract_tbs final_cert_der of
        Throw \<Rightarrow> Throw
      | Ret None \<Rightarrow> Ret None
      | Ret (Some tbs) \<Rightarrow> modify_tbs_extensions tbs [OID_SCT_LIST] [])"

section \<open>The SCT list extension\<close>

fun sct_tls_list :: "signed_certificate_timestamp list \<Rightarrow> bytes option" where
  "sct_tls_list [] = Some []"
| "sct_tls_list (s # scts) =
     (let ser = serialize_sct s
      in if length ser > 0xFFFF then None
         else case sct_tls_list scts of None \<Rightarrow> None
              | Some rest \<Rightarrow> Some (encode_u16 (word_of_nat (length ser)) @ ser @ rest))"

definition encode_sct_list_extn :: "signed_certificate_timestamp list \<Rightarrow> bytes" where
  "encode_sct_list_extn scts =
     (case sct_tls_list scts of None \<Rightarrow> []
      | Some tls_list \<Rightarrow> encode_octet_string (encode_tls_vector16 tls_list))"

function decode_sct_items :: "bytes \<Rightarrow> nat \<Rightarrow> signed_certificate_timestamp list option" where
  "decode_sct_items l lo =
     (if lo < length l then
        (case read_u16 l lo of None \<Rightarrow> None
         | Some (item_len, lo') \<Rightarrow>
             if lo' + unat item_len > length l then None
             else case deserialize_sct (take (unat item_len) (drop lo' l)) of None \<Rightarrow> None
                  | Some sct \<Rightarrow>
                      (case decode_sct_items l (lo' + unat item_len) of None \<Rightarrow> None
                       | Some scts \<Rightarrow> Some (sct # scts)))
      else Some [])"
  by pat_completeness auto
termination
  by (relation "measure (\<lambda>(l, lo). length l - lo)")
    (auto simp: parses intro!: diff_less_mono2)

declare decode_sct_items.simps [simp del]

definition decode_sct_list_extn :: "bytes \<Rightarrow> signed_certificate_timestamp list option run" where
  "decode_sct_list_extn extn_value =
     (case decode_tlv extn_value 0 of
        Throw \<Rightarrow> Throw
      | Ret oct \<Rightarrow>
          let l = (case oct of
                     Some (t, off) \<Rightarrow>
                       if tlv_tag t = TAG_OCTET_STRING \<and> off = length extn_value then tlv_value t else extn_value
                   | None \<Rightarrow> extn_value)
          in case read_u16 l 0 of None \<Rightarrow> Ret None
             | Some (total_len, lo) \<Rightarrow>
                 if unat total_len \<noteq> length l - 2 then Ret None else Ret (decode_sct_items l lo))"

definition scts_from_cert :: "bytes \<Rightarrow> signed_certificate_timestamp list option run" where
  "scts_from_cert cert_der =
     (case find_extn cert_der OID_SCT_LIST of
        Throw \<Rightarrow> Throw
      | Ret None \<Rightarrow> Ret None
      | Ret (Some ext) \<Rightarrow> decode_sct_list_extn (x_extn_value ext))"

definition serialize_cert_chain :: "bytes list \<Rightarrow> bytes" where
  "serialize_cert_chain chain =
     (if \<exists>c\<in>set chain. length c > 0xFFFFFF then [] else concat (map encode_tls_vector24 chain))"


text \<open>
  \<open>finalize_precert\<close>: \<open>sign\<close> is what \<open>sign_tbs\<close> makes of a TBS with the CA's key; the precertificate is
  returned unchanged where a step fails.
\<close>

definition final_der :: "bytes \<Rightarrow> bytes \<Rightarrow> bytes \<Rightarrow> bytes" where
  "final_der new_tbs sig_algo sig = encode_sequence (new_tbs @ sig_algo @ encode_bit_string sig 0)"

definition sct_extension :: "signed_certificate_timestamp list \<Rightarrow> RawExtension" where
  "sct_extension scts =
     \<lparr>r_oid = OID_SCT_LIST, r_critical = False, r_extn_value = encode_sct_list_extn scts\<rparr>"

definition finalize_precert ::
  "(KeyType \<Rightarrow> bytes \<Rightarrow> bytes option) \<Rightarrow> x509_cert \<Rightarrow> signed_certificate_timestamp list \<Rightarrow> KeyType \<Rightarrow> x509_cert run" where
  "finalize_precert sign precert scts sign_kt =
     run_bind (to_der precert) (\<lambda>precert_der.
     run_bind (extract_tbs precert_der) (\<lambda>tbs.
       case tbs of None \<Rightarrow> Ret precert
       | Some tbs \<Rightarrow>
           run_bind (modify_tbs_extensions tbs [OID_CT_POISON, OID_SCT_LIST] [sct_extension scts]) (\<lambda>new_tbs.
             case new_tbs of None \<Rightarrow> Ret precert
             | Some new_tbs \<Rightarrow>
                 (case sign sign_kt new_tbs of
                    None \<Rightarrow> Ret precert
                  | Some sig \<Rightarrow>
                      run_bind (from_der (final_der new_tbs (encode_sig_algo sign_kt 32 False) sig)) (\<lambda>parsed.
                        Ret (case parsed of None \<Rightarrow> precert | Some parsed \<Rightarrow> parsed))))))"

section \<open>The SCT list comes back\<close>

lemma decode_sct_items_list:
  assumes "has_at d off l" "off + length l = length d" "sct_tls_list scts = Some l" "\<forall>s\<in>set scts. wf_sct s"
  shows "decode_sct_items d off = Some scts"
  using assms
proof (induction scts arbitrary: off l)
  case Nil
  then show ?case by (subst decode_sct_items.simps) simp
next
  case (Cons s scts)
  define ser where "ser = serialize_sct s"
  obtain rest where rest: "sct_tls_list scts = Some rest" "length ser \<le> 0xFFFF"
    and l: "l = encode_u16 (word_of_nat (length ser)) @ ser @ rest"
    using Cons.prems(3) by (auto simp: ser_def Let_def split: if_splits option.splits)
  have n: "unat (word_of_nat (length ser) :: u16) = length ser" using rest(2) by (simp add: unat_of_nat)
  have at: "read_u16 d off = Some (word_of_nat (length ser), off + 2)" "has_at d (off + 2) ser"
    "has_at d (off + 2 + length ser) rest"
    using Cons.prems(1) by (simp_all add: l has_at_append parses)
  have des: "deserialize_sct ser = Some s" using Cons.prems(4) by (simp add: deserialize_sct_iff ser_def)
  have "decode_sct_items d (off + 2 + length ser) = Some scts"
    using Cons.prems(2,4) at(3) rest(1) by (intro Cons.IH [of _ rest]) (simp_all add: l)
  moreover have "take (length ser) (drop (off + 2) d) = ser" "off + 2 + length ser \<le> length d" "off < length d"
    using at(2) by (simp_all add: has_at_def)
  ultimately show ?case using at(1) n des by (subst decode_sct_items.simps) simp
qed

lemma sct_tls_list_Some:
  "(\<Sum>s\<leftarrow>scts. 2 + length (serialize_sct s)) \<le> 0xFFFF \<Longrightarrow>
   \<exists>l. sct_tls_list scts = Some l \<and> length l = (\<Sum>s\<leftarrow>scts. 2 + length (serialize_sct s))"
  by (induction scts) (auto simp: Let_def)

section \<open>Removing extensions\<close>

text \<open>An extension as the code looks at it: its identifier and whatever follows it.\<close>

definition ext_bytes :: "bytes \<times> bytes \<Rightarrow> bytes" where
  "ext_bytes e = encode_sequence (encode_oid (fst e) @ snd e)"

definition raw_ext :: "RawExtension \<Rightarrow> bytes \<times> bytes" where
  "raw_ext raw = (r_oid raw, (if r_critical raw then [0x01, 0x01, 0xFF] else []) @ encode_octet_string (r_extn_value raw))"

lemma encode_raw_ext: "encode_raw_extension raw = ext_bytes (raw_ext raw)"
  by (simp add: encode_raw_extension_def ext_bytes_def raw_ext_def)

text \<open>A TBS: elements none of which has the tag of the extensions, and then the extensions, if any.\<close>

definition exts_bytes :: "(bytes \<times> bytes) list \<Rightarrow> bytes" where
  "exts_bytes exts = (if exts = [] then [] else encode_context TAG_CONTEXT3 (encode_sequence (concat (map ext_bytes exts))))"

definition tbs_of :: "TLV list \<Rightarrow> (bytes \<times> bytes) list \<Rightarrow> bytes" where
  "tbs_of es exts = encode_sequence (concat (map tlv_bytes es) @ exts_bytes exts)"

lemma decode_has_at:
  "has_at d off (encode_tlv tag v) \<Longrightarrow> length d < 2 ^ 63 \<Longrightarrow>
   decode_tlv d off = Ret (Some (\<lparr>tlv_tag = tag, tlv_value = v\<rparr>, off + length (encode_tlv tag v)))"
  by (rule decode_tlv_encode)

lemma encode_tlv_pos: "0 < length (encode_tlv tag v)" and encode_tlv_value: "length v < length (encode_tlv tag v)"
  by (simp_all add: encode_tlv_def)

lemma ext_bytes_pos: "0 < length (ext_bytes e)"
  by (simp add: ext_bytes_def encode_sequence_def encode_tlv_def)

lemma keep_extensions_concat:
  assumes "has_at d off (concat (map ext_bytes exts))" "off + length (concat (map ext_bytes exts)) = length d"
    "length d < 2 ^ 63"
  shows "keep_extensions oids d off = Ret (Some (concat (map ext_bytes (filter (\<lambda>e. fst e \<notin> set oids) exts))))"
  using assms
proof (induction exts arbitrary: off)
  case Nil
  then show ?case by (subst keep_extensions.simps) simp
next
  case (Cons e exts)
  let ?b = "ext_bytes e" and ?v = "encode_oid (fst e) @ snd e"
  have at: "has_at d off ?b" "has_at d (off + length ?b) (concat (map ext_bytes exts))"
    using Cons.prems(1) by (simp_all add: has_at_append)
  have len: "length ?b \<le> length d" using at(1) by (simp add: has_at_def)
  have lt: "off < length d" using Cons.prems(2) ext_bytes_pos [of e] by (simp del: length_greater_0_conv)
  have dec: "decode_tlv d off = Ret (Some (\<lparr>tlv_tag = TAG_SEQUENCE, tlv_value = ?v\<rparr>, off + length ?b))"
    using decode_has_at [of d off TAG_SEQUENCE ?v] at(1) Cons.prems(3)
    by (simp add: ext_bytes_def encode_sequence_def)
  have "length ?v < 2 ^ 63"
    using len Cons.prems(3) encode_tlv_value [of ?v TAG_SEQUENCE] by (simp add: ext_bytes_def encode_sequence_def)
  then have oid: "decode_tlv ?v 0 = Ret (Some (\<lparr>tlv_tag = TAG_OID, tlv_value = fst e\<rparr>, length (encode_oid (fst e))))"
    using decode_has_at [of ?v 0 TAG_OID "fst e"] by (simp add: encode_oid_def has_at_def)
  have rest: "keep_extensions oids d (off + length ?b) =
      Ret (Some (concat (map ext_bytes (filter (\<lambda>e. fst e \<notin> set oids) exts))))"
    using Cons.prems(2,3) at(2) by (intro Cons.IH) simp_all
  have "take (length ?b) (drop off d) = ?b" using at(1) by (simp add: has_at_def)
  with lt dec oid rest show ?case by (subst keep_extensions.simps) simp
qed

lemma split_tbs_of:
  assumes "has_at d off (concat (map tlv_bytes es) @ exts_bytes exts)"
    "off + length (concat (map tlv_bytes es) @ exts_bytes exts) = length d" "length d < 2 ^ 63"
    "\<forall>t\<in>set es. tlv_tag t \<noteq> TAG_CONTEXT3"
  shows "split_tbs oids d off = Ret (Some (concat (map tlv_bytes es),
           concat (map ext_bytes (filter (\<lambda>e. fst e \<notin> set oids) exts))))"
  using assms
proof (induction es arbitrary: off)
  case Nil
  show ?case
  proof (cases "exts = []")
    case True
    with Nil show ?thesis by (subst split_tbs.simps) (simp add: exts_bytes_def)
  next
    case False
    let ?c = "concat (map ext_bytes exts)"
    let ?s = "encode_tlv TAG_SEQUENCE ?c"
    have b: "exts_bytes exts = encode_tlv TAG_CONTEXT3 ?s"
      using False by (simp add: exts_bytes_def encode_context_def encode_sequence_def)
    have len: "length ?s < 2 ^ 63" "length ?c < 2 ^ 63"
      using Nil.prems encode_tlv_value [of ?s TAG_CONTEXT3] encode_tlv_value [of ?c TAG_SEQUENCE]
      by (simp_all add: b)
    have "decode_tlv d off = Ret (Some (\<lparr>tlv_tag = TAG_CONTEXT3, tlv_value = ?s\<rparr>, off + length (exts_bytes exts)))"
      using decode_has_at [of d off TAG_CONTEXT3 ?s] Nil.prems by (simp add: b)
    moreover have "decode_tlv ?s 0 = Ret (Some (\<lparr>tlv_tag = TAG_SEQUENCE, tlv_value = ?c\<rparr>, length ?s))"
      using decode_has_at [of ?s 0 TAG_SEQUENCE ?c] len by (simp add: has_at_def)
    moreover have "keep_extensions oids ?c 0 = Ret (Some (concat (map ext_bytes (filter (\<lambda>e. fst e \<notin> set oids) exts))))"
      using len by (intro keep_extensions_concat) (simp_all add: has_at_def)
    moreover have "off < length d" using Nil.prems(2) encode_tlv_pos [of TAG_CONTEXT3 ?s]
      by (simp add: b del: length_greater_0_conv)
    ultimately show ?thesis by (subst split_tbs.simps) simp
  qed
next
  case (Cons t es)
  have at: "has_at d off (tlv_bytes t)" "has_at d (off + length (tlv_bytes t)) (concat (map tlv_bytes es) @ exts_bytes exts)"
    using Cons.prems(1) by (simp_all add: has_at_append add.assoc)
  have "off < length d" using Cons.prems(2) tlv_bytes_nonempty [of t] by (cases "tlv_bytes t") auto
  moreover have "decode_tlv d off = Ret (Some (t, off + length (tlv_bytes t)))"
    using decode_has_at [of d off "tlv_tag t" "tlv_value t"] at(1) Cons.prems(3) by (simp add: tlv_bytes_def)
  moreover have "split_tbs oids d (off + length (tlv_bytes t)) = Ret (Some (concat (map tlv_bytes es),
      concat (map ext_bytes (filter (\<lambda>e. fst e \<notin> set oids) exts))))"
    using Cons.prems(2-4) at(2) by (intro Cons.IH) simp_all
  moreover have "take (length (tlv_bytes t)) (drop off d) = tlv_bytes t" using at(1) by (simp add: has_at_def)
  ultimately show ?case using Cons.prems(4) by (subst split_tbs.simps) simp
qed

lemma concat_ext_Nil: "concat (map ext_bytes exts) = [] \<longleftrightarrow> exts = []"
  using ext_bytes_pos by (cases exts) (auto simp: length_greater_0_conv)

lemma modify_tbs_of:
  assumes "length (tbs_of es exts) < 2 ^ 63" "\<forall>t\<in>set es. tlv_tag t \<noteq> TAG_CONTEXT3"
  shows "modify_tbs_extensions (tbs_of es exts) oids add =
     Ret (Some (tbs_of es (filter (\<lambda>e. fst e \<notin> set oids) exts @ map raw_ext add)))"
proof -
  let ?v = "concat (map tlv_bytes es) @ exts_bytes exts"
  have len: "length ?v < 2 ^ 63"
    using assms(1) encode_tlv_value [of ?v TAG_SEQUENCE] by (simp add: tbs_of_def encode_sequence_def)
  have "decode_tlv (tbs_of es exts) 0 = Ret (Some (\<lparr>tlv_tag = TAG_SEQUENCE, tlv_value = ?v\<rparr>, length (tbs_of es exts)))"
    using decode_has_at [of "tbs_of es exts" 0 TAG_SEQUENCE ?v] assms(1)
    by (simp add: tbs_of_def encode_sequence_def has_at_def)
  moreover have "split_tbs oids ?v 0 = Ret (Some (concat (map tlv_bytes es),
      concat (map ext_bytes (filter (\<lambda>e. fst e \<notin> set oids) exts))))"
    using len assms(2) by (intro split_tbs_of) (simp_all add: has_at_def)
  moreover define ks where "ks = filter (\<lambda>e. fst e \<notin> set oids) exts @ map raw_ext add"
  have "concat (map ext_bytes (filter (\<lambda>e. fst e \<notin> set oids) exts)) @ concat (map encode_raw_extension add) =
      concat (map ext_bytes ks)"
    by (simp add: ks_def encode_raw_ext [abs_def] comp_def)
  ultimately have "modify_tbs_extensions (tbs_of es exts) oids add = Ret (Some (tbs_of es ks))"
    by (simp add: modify_tbs_extensions_def concat_ext_Nil Let_def tbs_of_def [of es ks] exts_bytes_def [of ks]
        del: concat_eq_Nil_conv append_is_Nil_conv)
  then show ?thesis by (simp add: ks_def)
qed

text \<open>A certificate whose first element is a sequence has that sequence as its TBS.\<close>

lemma extract_tbs_of:
  assumes "length (encode_sequence (encode_sequence b @ rest)) < 2 ^ 63"
  shows "extract_tbs (encode_sequence (encode_sequence b @ rest)) = Ret (Some (encode_sequence b))"
proof -
  let ?v = "encode_tlv TAG_SEQUENCE b @ rest"
  have "length ?v < 2 ^ 63"
    using assms encode_tlv_value [of ?v TAG_SEQUENCE] by (simp add: encode_sequence_def)
  then have "decode_tlv ?v 0 = Ret (Some (\<lparr>tlv_tag = TAG_SEQUENCE, tlv_value = b\<rparr>, length (encode_tlv TAG_SEQUENCE b)))"
    using decode_has_at [of ?v 0 TAG_SEQUENCE b] by (simp add: has_at_def)
  moreover have "decode_tlv (encode_tlv TAG_SEQUENCE ?v) 0 =
      Ret (Some (\<lparr>tlv_tag = TAG_SEQUENCE, tlv_value = ?v\<rparr>, length (encode_tlv TAG_SEQUENCE ?v)))"
    using decode_has_at [of "encode_tlv TAG_SEQUENCE ?v" 0 TAG_SEQUENCE ?v] assms
    by (simp add: has_at_def encode_sequence_def)
  ultimately show ?thesis by (simp add: extract_tbs_def encode_sequence_def)
qed

lemma encode_sequence_inj:
  assumes "encode_sequence a = encode_sequence b" "length (encode_sequence a) < 2 ^ 63"
  shows "a = b"
proof -
  have "decode_tlv (encode_sequence a) 0 = Ret (Some (\<lparr>tlv_tag = TAG_SEQUENCE, tlv_value = a\<rparr>, length (encode_sequence a)))"
    using decode_has_at [of "encode_sequence a" 0 TAG_SEQUENCE a] assms(2) by (simp add: encode_sequence_def has_at_def)
  moreover have "decode_tlv (encode_sequence a) 0 = Ret (Some (\<lparr>tlv_tag = TAG_SEQUENCE, tlv_value = b\<rparr>, length (encode_sequence b)))"
    using decode_has_at [of "encode_sequence b" 0 TAG_SEQUENCE b] assms by (simp add: encode_sequence_def has_at_def)
  ultimately show ?thesis by simp
qed

lemma length_encode_tlv_mono: "length v \<le> length w \<Longrightarrow> length w < 2 ^ 63 \<Longrightarrow> length (encode_tlv t v) \<le> length w + 10"
  using length_encode_length [of "length v"] by (simp add: encode_tlv_def)

section \<open>Properties\<close>

text \<open>
  The SCT list extension: what \<open>encode_sct_list_extn\<close> makes of any list of SCTs, each encodable
  and together at most 65535 bytes with their length prefixes, \<open>decode_sct_list_extn\<close> takes apart
  into the same list.
\<close>

theorem sct_list_roundtrip:
  assumes "\<forall>s\<in>set scts. wf_sct s" "(\<Sum>s\<leftarrow>scts. 2 + length (serialize_sct s)) \<le> 0xFFFF"
  shows "decode_sct_list_extn (encode_sct_list_extn scts) = Ret (Some scts)"
proof -
  obtain l where l: "sct_tls_list scts = Some l" "length l \<le> 0xFFFF" using sct_tls_list_Some [OF assms(2)] assms(2) by auto
  define v where "v = encode_tls_vector16 l"
  have v: "v = be_bytes 2 (length l) @ l" using encode_tls_vector16_eq [OF l(2)] by (simp add: v_def)
  then have lv: "length v = length l + 2" by simp
  have ext: "encode_sct_list_extn scts = encode_tlv TAG_OCTET_STRING v"
    using l(1) by (simp add: encode_sct_list_extn_def encode_octet_string_def v_def)
  have small: "length (encode_tlv TAG_OCTET_STRING v) < 2 ^ 63"
    using length_encode_tlv_mono [of v v TAG_OCTET_STRING] lv l(2) by simp
  have oct: "decode_tlv (encode_tlv TAG_OCTET_STRING v) 0 =
      Ret (Some (\<lparr>tlv_tag = TAG_OCTET_STRING, tlv_value = v\<rparr>, length (encode_tlv TAG_OCTET_STRING v)))"
    using decode_has_at [of "encode_tlv TAG_OCTET_STRING v" 0 TAG_OCTET_STRING v] small by (simp add: has_at_def)
  have len: "unat (word_of_nat (length l) :: u16) = length l" using l(2) by (simp add: unat_of_nat)
  have "read_u16 v 0 = Some (word_of_nat (length l), 2)"
    using len by (simp add: u16.reads encode_u16_be v has_at_def)
  moreover have "decode_sct_items v 2 = Some scts"
    using l(1) lv assms(1) by (intro decode_sct_items_list [of _ _ l]) (simp_all add: v has_at_def)
  ultimately show ?thesis
    using oct len lv by (simp add: decode_sct_list_extn_def ext Let_def)
qed

theorem sct_list_roundtrip_witness:
  "decode_sct_list_extn (encode_sct_list_extn
      [\<lparr>s_version = 0, s_log_id = replicate 32 1, s_timestamp = 7, s_extensions = [], s_hash_algorithm = 4,
        s_signature_algorithm = 3, s_signature = [1, 2]\<rparr>])
   = Ret (Some [\<lparr>s_version = 0, s_log_id = replicate 32 1, s_timestamp = 7, s_extensions = [], s_hash_algorithm = 4,
        s_signature_algorithm = 3, s_signature = [1, 2]\<rparr>])"
  by (rule sct_list_roundtrip) (simp_all add: wf_sct_def serialize_sct_def encode_tls_vector16_eq)




end
