(* ===== verification/EcdsaDer.thy ===== *)
theory EcdsaDer
  imports Codec
begin

text \<open>
  The DER form of ECDSA and SM2 signatures in \<open>src/tls_router.cpp\<close>: \<open>ecdsa_sign_to_der\<close> and
  \<open>ecdsa_sig_from_der\<close>, between \<open>r || s\<close> of fixed width and \<open>SEQUENCE { INTEGER, INTEGER }\<close>.
\<close>

section \<open>Encoding\<close>

text \<open>\<open>while (i < n - 1 && p[i] == 0) ++i\<close>: how many zero bytes are left out, never the last byte.\<close>

fun lead_zeros :: "bytes \<Rightarrow> nat" where
  "lead_zeros (x # y # p) = (if x = 0 then Suc (lead_zeros (y # p)) else 0)"
| "lead_zeros p = 0"

definition int_der_len :: "bytes \<Rightarrow> nat" where
  "int_der_len p =
     (let n = length p; i = lead_zeros p in if p ! i AND 0x80 \<noteq> 0 then n - i + 1 else n - i)"

definition put_int :: "bytes \<Rightarrow> nat \<Rightarrow> bytes" where
  "put_int p ilen =
     (let i = lead_zeros p
      in [0x02, word_of_nat ilen] @ (if p ! i AND 0x80 \<noteq> 0 then [0x00] else []) @ drop i p)"

text \<open>The result is \<open>out[0 .. out_len]\<close>, or nothing where the function returns false.\<close>

definition ecdsa_sign_to_der :: "bytes \<Rightarrow> nat \<Rightarrow> bytes option" where
  "ecdsa_sign_to_der raw out_cap =
     (let half = length raw div 2
      in if half = 0 \<or> half * 2 \<noteq> length raw then None
         else
           let r = take half raw; s = take half (drop half raw);
               rl = int_der_len r; sl = int_der_len s;
               content = 2 + rl + 2 + sl; total = 2 + content
           in if total > out_cap \<or> content > 127 then None
              else Some ([0x30, word_of_nat content] @ put_int r rl @ put_int s sl))"

section \<open>Decoding\<close>

text \<open>One integer: the \<open>cap\<close> bytes it is stored in, and the offset after it.\<close>

definition parse_int :: "bytes \<Rightarrow> nat \<Rightarrow> nat \<Rightarrow> nat \<Rightarrow> (bytes \<times> nat) option" where
  "parse_int der end off cap =
     (if off + 2 > end \<or> der ! off \<noteq> 0x02 then None
      else
        let ilen = unat (der ! (off + 1)); off = off + 2
        in if ilen = 0 \<or> off + ilen > end then None
           else if der ! off AND 0x80 \<noteq> 0 then None
           else
             let skip = (if der ! off = 0 then 1 else 0); n = ilen - skip
             in if n > cap then None
                else Some (replicate (cap - n) 0 @ take n (drop (off + skip) der), off + ilen))"

definition ecdsa_sig_from_der :: "bytes \<Rightarrow> nat \<Rightarrow> bytes option" where
  "ecdsa_sig_from_der der raw_len =
     (let half = raw_len div 2
      in if length der < 8 \<or> der ! 0 \<noteq> 0x30 then None
         else
           let seq_len = unat (der ! 1)
           in if seq_len > 127 \<or> 2 + seq_len \<noteq> length der then None
              else
                let e = 2 + seq_len
                in case parse_int der e 2 half of None \<Rightarrow> None
                   | Some (r, off) \<Rightarrow>
                       (case parse_int der e off half of None \<Rightarrow> None
                        | Some (s, off) \<Rightarrow> if off = e then Some (r @ s) else None))"

section \<open>The integer of a half\<close>

lemma lead_zeros_less: "p \<noteq> [] \<Longrightarrow> lead_zeros p < length p"
  by (induction p rule: lead_zeros.induct) auto

lemma lead_zeros_split: "p = replicate (lead_zeros p) 0 @ drop (lead_zeros p) p"
  by (induction p rule: lead_zeros.induct) auto

lemma lead_zeros_nonzero: "p \<noteq> [] \<Longrightarrow> p ! lead_zeros p = 0 \<Longrightarrow> Suc (lead_zeros p) = length p"
  by (induction p rule: lead_zeros.induct) (auto split: if_splits)

lemma lead_zeros_le: "p \<noteq> [] \<Longrightarrow> p ! i \<noteq> 0 \<Longrightarrow> i < length p \<Longrightarrow> lead_zeros p \<le> i"
proof (induction p arbitrary: i rule: lead_zeros.induct)
  case (1 x y p)
  then show ?case by (cases i) auto
qed auto

lemma length_put_int: "p \<noteq> [] \<Longrightarrow> length (put_int p l) = 2 + int_der_len p"
  using lead_zeros_less [of p] by (auto simp: put_int_def int_der_len_def Let_def)

lemma int_der_len_bounds: "p \<noteq> [] \<Longrightarrow> 1 \<le> int_der_len p \<and> int_der_len p \<le> length p + 1"
  using lead_zeros_less [of p] by (auto simp: int_der_len_def Let_def)

lemma parse_put_int:
  assumes "p \<noteq> []" "has_at der off (put_int p (int_der_len p))" "off + 2 + int_der_len p \<le> e" "int_der_len p \<le> 127"
  shows "parse_int der e off (length p) = Some (p, off + 2 + int_der_len p)"
proof -
  define i where "i = lead_zeros p"
  define q where "q = drop i p"
  have i: "i < length p" using lead_zeros_less [OF assms(1)] by (simp add: i_def)
  then have q: "q \<noteq> []" "hd q = p ! i" "length q = length p - i" by (simp_all add: q_def hd_drop_conv_nth)
  have p: "p = replicate i 0 @ q" using lead_zeros_split [of p] by (simp add: i_def q_def)
  have lq: "length q \<le> length p" using q(3) by simp
  have res: "replicate (length p - length q) 0 @ q = p" using p q(3) i by simp
  have l: "unat (word_of_nat (int_der_len p) :: u8) = int_der_len p" using assms(4) by (simp add: unat_of_nat)
  show ?thesis
  proof (cases "p ! i AND 0x80 = 0")
    case True
    then have len: "int_der_len p = length q" using q by (simp add: int_der_len_def i_def [symmetric] Let_def)
    have at: "off < length der" "der ! off = 0x02" "der ! Suc off = word_of_nat (length q)" "has_at der (Suc (Suc off)) q"
      using assms(2) True by (simp_all add: put_int_def i_def [symmetric] q_def [symmetric] Let_def has_at_Cons len)
    then have t: "take (length q) (drop (Suc (Suc off)) der) = q" "Suc (Suc off) + length q \<le> length der"
      by (simp_all add: has_at_def)
    have hd: "der ! Suc (Suc off) = hd q" using at(4) q(1) by (cases q) (simp_all add: has_at_Cons)
    show ?thesis
    proof (cases "hd q = 0")
      case False
      then show ?thesis using at t hd q(1,2) lq len l assms(3,4) True res
        by (simp add: parse_int_def Let_def)
    next
      case zero: True
      then have "Suc i = length p" using lead_zeros_nonzero [OF assms(1)] q(2) by (simp add: i_def)
      then have "length q = 1" using q(3) by simp
      with zero have "q = [0]" by (cases q) auto
      moreover have "replicate (length p) 0 = p"
        using p \<open>q = [0]\<close> \<open>Suc i = length p\<close> by (metis replicate_Suc replicate_append_same)
      ultimately show ?thesis using at(1-3) hd len assms(3,4)
        by (simp add: parse_int_def Let_def)
    qed
  next
    case False
    then have len: "int_der_len p = Suc (length q)" using q by (simp add: int_der_len_def i_def [symmetric] Let_def)
    have at: "der ! off = 0x02" "der ! Suc off = word_of_nat (Suc (length q))" "der ! Suc (Suc off) = 0"
      "has_at der (Suc (Suc (Suc off))) q"
      using assms(2) False by (simp_all add: put_int_def i_def [symmetric] q_def [symmetric] Let_def has_at_Cons len)
    then have t: "take (length q) (drop (Suc (Suc (Suc off))) der) = q" by (simp add: has_at_def)
    show ?thesis using at(1-3) t len lq l assms(3,4) res
      by (simp add: parse_int_def Let_def del: of_nat_Suc)
  qed
qed

section \<open>Properties\<close>

text \<open>
  A signature that \<open>ecdsa_sign_to_der\<close> encodes is decoded by \<open>ecdsa_sig_from_der\<close> to the same
  \<open>r || s\<close>, leading zero bytes included.
\<close>

theorem ecdsa_der_roundtrip:
  assumes "ecdsa_sign_to_der raw out_cap = Some der"
  shows "ecdsa_sig_from_der der (length raw) = Some raw"
proof -
  define half where "half = length raw div 2"
  define r s where "r = take half raw" and "s = take half (drop half raw)"
  define rl sl where "rl = int_der_len r" and "sl = int_der_len s"
  have len: "length raw = 2 * half" "0 < half" and content: "2 + rl + 2 + sl \<le> 127"
    and der: "der = [0x30, word_of_nat (2 + rl + 2 + sl)] @ put_int r rl @ put_int s sl"
    using assms unfolding ecdsa_sign_to_der_def Let_def half_def r_def s_def rl_def sl_def
    by (auto split: if_splits)
  have ne: "r \<noteq> []" "s \<noteq> []" and lens: "length r = half" "length s = half" and raw: "raw = r @ s"
    using len by (auto simp: r_def s_def)
  have lp: "length (put_int r rl) = 2 + rl" "length (put_int s sl) = 2 + sl"
    using length_put_int [OF ne(1)] length_put_int [OF ne(2)] by (simp_all add: rl_def sl_def)
  have pos: "1 \<le> rl" "1 \<le> sl" using int_der_len_bounds ne by (auto simp: rl_def sl_def)
  have ld: "length der = 6 + rl + sl" using lp by (simp add: der)
  have at: "has_at der 0 der" by (simp add: has_at_def)
  then have "has_at der 0 ([0x30, word_of_nat (2 + rl + 2 + sl)] @ put_int r rl @ put_int s sl)" by (simp add: der)
  then have "has_at der (Suc (Suc 0)) (put_int r rl)" "has_at der (Suc (Suc (2 + rl))) (put_int s sl)"
    by (simp_all add: has_at_append has_at_Cons lp)
  then have "has_at der 2 (put_int r rl)" "has_at der (4 + rl) (put_int s sl)"
    by (simp_all add: eval_nat_numeral)
  then have "parse_int der (6 + rl + sl) 2 half = Some (r, 4 + rl)"
    and "parse_int der (6 + rl + sl) (4 + rl) half = Some (s, 6 + rl + sl)"
    using parse_put_int [OF ne(1), of der 2 "6 + rl + sl"] parse_put_int [OF ne(2), of der "4 + rl" "6 + rl + sl"]
      content lens by (simp_all add: rl_def [symmetric] sl_def [symmetric])
  moreover have "unat (der ! 1) = 4 + rl + sl" "der ! 0 = 0x30"
    using content by (simp_all add: der unat_of_nat del: of_nat_add of_nat_Suc)
  ultimately show ?thesis
    using ld pos content len raw by (simp add: ecdsa_sig_from_der_def Let_def add.assoc)
qed

theorem ecdsa_der_roundtrip_witness:
  "ecdsa_sig_from_der [0x30, 0x09, 0x02, 0x02, 0x00, 0x90, 0x02, 0x03, 0x00, 0x80, 0x01] 4 = Some [0x00, 0x90, 0x80, 0x01]"
  using ecdsa_der_roundtrip [of "[0x00, 0x90, 0x80, 0x01]" 80
      "[0x30, 0x09, 0x02, 0x02, 0x00, 0x90, 0x02, 0x03, 0x00, 0x80, 0x01]"]
  by (simp add: ecdsa_sign_to_der_def int_der_len_def put_int_def) (simp add: eval_nat_numeral)

text \<open>
  For the curves of up to 60 bytes a coordinate (P-256, P-384, SM2) the encoding always succeeds
  in the buffers the callers give it, and takes at most twice the coordinate plus eight bytes.
\<close>

theorem ecdsa_der_total:
  assumes "length raw = 2 * n" "0 < n" "n \<le> 60" "2 * n + 8 \<le> out_cap"
  shows "\<exists>der. ecdsa_sign_to_der raw out_cap = Some der \<and> length der \<le> 2 * n + 8"
proof -
  let ?r = "take n raw" and ?s = "take n (drop n raw)"
  have ne: "?r \<noteq> []" "?s \<noteq> []" using assms by auto
  have "int_der_len ?r \<le> n + 1" "int_der_len ?s \<le> n + 1"
    using int_der_len_bounds [OF ne(1)] int_der_len_bounds [OF ne(2)] assms by auto
  then show ?thesis
    using assms length_put_int [OF ne(1)] length_put_int [OF ne(2)]
    by (auto simp: ecdsa_sign_to_der_def Let_def)
qed

theorem ecdsa_der_total_witness:
  "\<exists>der. ecdsa_sign_to_der (replicate 64 0xFF) 80 = Some der \<and> length der \<le> 72"
  using ecdsa_der_total [of "replicate 64 0xFF" 32 80] by simp

text \<open>
  For P-521 (66 bytes a coordinate) the encoding fails for every signature in whose two numbers
  one of the first four bytes is not zero: the length of the sequence then does not fit one byte, and
  the function has no long form. So signing with a P-521 certificate fails but for about one signature
  in \<open>2 ^ 24\<close>.
\<close>

theorem ecdsa_der_p521_fails:
  assumes "length raw = 132" "\<exists>i<4. raw ! i \<noteq> 0" "\<exists>i<4. raw ! (66 + i) \<noteq> 0"
  shows "ecdsa_sign_to_der raw out_cap = None"
proof -
  let ?r = "take 66 raw" and ?s = "take 66 (drop 66 raw)"
  obtain i j where i: "i < 4" "raw ! i \<noteq> 0" and j: "j < 4" "raw ! (66 + j) \<noteq> 0" using assms(2,3) by blast
  have "lead_zeros ?r \<le> i" "lead_zeros ?s \<le> j"
    using i j assms(1) by (auto intro!: lead_zeros_le)
  then have "63 \<le> int_der_len ?r" "63 \<le> int_der_len ?s"
    using i j assms(1) by (auto simp: int_der_len_def Let_def)
  then show ?thesis using assms(1) by (simp add: ecdsa_sign_to_der_def Let_def)
qed

theorem ecdsa_der_p521_fails_witness: "ecdsa_sign_to_der (replicate 132 1) 256 = None"
  using ecdsa_der_p521_fails [of "replicate 132 1" 256] by (simp add: exI [of _ 0])

end
