(* ===== verification/Bignum.thy ===== *)
theory Bignum
  imports Prelude
begin

text \<open>
  The multi-precision integers of RSA, \<open>src/src/rsa_body.inc\<close>: \<open>K\<close> limbs of 64 bits, least significant first
  (\<open>K\<close> is 32, 48 or 64). Each operation is translated limb by limb and compared with the numbers.
\<close>

section \<open>Numbers and bytes\<close>

fun bn_val :: "u64 list \<Rightarrow> nat" where
  "bn_val [] = 0"
| "bn_val (x # d) = unat x + 2 ^ 64 * bn_val d"

text \<open>The limbs of a number, the value space of \<open>BN\<close>.\<close>

fun bn_of :: "nat \<Rightarrow> nat \<Rightarrow> u64 list" where
  "bn_of 0 v = []"
| "bn_of (Suc K) v = word_of_nat v # bn_of K (v div 2 ^ 64)"

definition is_zero :: "u64 list \<Rightarrow> bool" where
  "is_zero d \<longleftrightarrow> (\<forall>x\<in>set d. x = 0)"

definition is_one :: "u64 list \<Rightarrow> bool" where
  "is_one d \<longleftrightarrow> d ! 0 = 1 \<and> (\<forall>x\<in>set (tl d). x = 0)"

definition from_uint64 :: "nat \<Rightarrow> u64 \<Rightarrow> u64 list" where
  "from_uint64 K v = v # replicate (K - 1) 0"

text \<open>\<open>from_bytes\<close> keeps the first bytes of data that is too long.\<close>

definition from_bytes :: "nat \<Rightarrow> bytes \<Rightarrow> u64 list" where
  "from_bytes K data =
     (let len = (if length data > 8 * K then 8 * K else length data)
      in foldl (\<lambda>d i. d[i div 8 := d ! (i div 8) OR push_bit (i mod 8 * 8) (ucast (data ! (len - 1 - i)))])
           (replicate K 0) [0..<len])"

definition to_bytes :: "u64 list \<Rightarrow> bytes" where
  "to_bytes d =
     rev (map (\<lambda>i. ucast (drop_bit (i mod 8 * 8) (d ! (i div 8)))) [0..<8 * length d])"

section \<open>Comparison and arithmetic\<close>

text \<open>From the most significant limb down.\<close>

fun less_down :: "u64 list \<Rightarrow> u64 list \<Rightarrow> bool" where
  "less_down (x # a) (y # b) = (if x \<noteq> y then x < y else less_down a b)"
| "less_down _ _ = False"

definition bn_less :: "u64 list \<Rightarrow> u64 list \<Rightarrow> bool" where
  "bn_less a b = less_down (rev a) (rev b)"

fun add_loop :: "u64 \<Rightarrow> u64 list \<Rightarrow> u64 list \<Rightarrow> u64 list" where
  "add_loop c (x # a) (y # b) = (let s = x + y + c in s # add_loop (if s < x then 1 else 0) a b)"
| "add_loop c _ _ = []"

definition bn_add :: "u64 list \<Rightarrow> u64 list \<Rightarrow> u64 list" where
  "bn_add a b = add_loop 0 a b"

fun sub_loop :: "u64 \<Rightarrow> u64 list \<Rightarrow> u64 list \<Rightarrow> u64 list" where
  "sub_loop bo (x # a) (y # b) =
     (let sb = y + bo in (x - sb) # sub_loop (if sb < y then 1 else if x < sb then 1 else 0) a b)"
| "sub_loop bo _ _ = []"

definition bn_sub :: "u64 list \<Rightarrow> u64 list \<Rightarrow> u64 list" where
  "bn_sub a b = sub_loop 0 a b"

text \<open>One row of the product: \<open>t\<close> from limb \<open>i\<close> on, with products of 128 bits.\<close>

fun mul_row :: "u64 \<Rightarrow> u64 list \<Rightarrow> u64 list \<Rightarrow> u64 \<Rightarrow> u64 list" where
  "mul_row x (y # b) (z # t) ca =
     (let p = (ucast x :: 128 word) * ucast y + ucast z + ucast ca
      in ucast p # mul_row x b t (ucast (drop_bit 64 p)))"
| "mul_row x _ t ca = t"

definition bn_mul :: "u64 list \<Rightarrow> u64 list \<Rightarrow> u64 list" where
  "bn_mul a b =
     foldl (\<lambda>t i. if a ! i = 0 then t else take i t @ mul_row (a ! i) (take (length a - i) b) (drop i t) 0)
       (replicate (length a) 0) [0..<length a]"

section \<open>What they compute\<close>

lemma unat_u64_less: "unat (x :: u64) < 2 ^ 64"
  using unsigned_less [of x] by simp

lemma unat_u64_eq: "unat (x :: u64) = unat y \<longleftrightarrow> x = y"
  by (metis unsigned_word_eqI)

lemma bn_val_less: "bn_val d < 2 ^ (64 * length d)"
proof (induction d)
  case (Cons x d)
  have "unat x < 2 ^ 64" using unat_u64_less [of x] by simp
  moreover have "bn_val d + 1 \<le> 2 ^ (64 * length d)" using Cons by simp
  then have "2 ^ 64 * (bn_val d + 1) \<le> 2 ^ 64 * 2 ^ (64 * length d)" by (rule mult_le_mono2)
  ultimately show ?case by (simp add: power_add algebra_simps)
qed simp

lemma length_bn_of [simp]: "length (bn_of K v) = K"
  by (induction K v rule: bn_of.induct) auto

lemma bn_val_of: "bn_val (bn_of K v) = v mod 2 ^ (64 * K)"
proof (induction K v rule: bn_of.induct)
  case (2 K v)
  have "v mod (2 ^ 64 * 2 ^ (64 * K)) = 2 ^ 64 * (v div 2 ^ 64 mod 2 ^ (64 * K)) + v mod 2 ^ 64" by (rule mod_mult2_eq)
  with 2 show ?case by (simp add: unat_of_nat power_add)
qed simp

lemma bn_of_val: "bn_of (length d) (bn_val d) = d"
proof (induction d)
  case (Cons x d)
  have "unat x < 2 ^ 64" using unat_u64_less [of x] by simp
  then have "(unat x + 2 ^ 64 * bn_val d) div 2 ^ 64 = bn_val d" by simp
  moreover have "(word_of_nat (unat x + 2 ^ 64 * bn_val d) :: u64) = x"
    using unat_u64_less [of x] by (subst unat_u64_eq [symmetric], subst unat_of_nat) simp
  ultimately show ?case using Cons by simp
qed simp

lemma bn_val_inject: "length a = length b \<Longrightarrow> bn_val a = bn_val b \<longleftrightarrow> a = b"
  using bn_of_val [of a] bn_of_val [of b] by metis

lemma bn_val_append: "bn_val (a @ b) = bn_val a + 2 ^ (64 * length a) * bn_val b"
  by (induction a) (simp_all add: power_add algebra_simps)

lemma is_zero_val: "is_zero d \<longleftrightarrow> bn_val d = 0"
  by (induction d) (auto simp: is_zero_def unat_eq_0)

lemma is_one_val: "d \<noteq> [] \<Longrightarrow> is_one d \<longleftrightarrow> bn_val d = 1"
proof (cases d)
  case (Cons x e)
  have "unat x + 2 ^ 64 * bn_val e = 1 \<longleftrightarrow> unat x = 1 \<and> bn_val e = 0" by (cases "bn_val e") auto
  moreover have "unat x = 1 \<longleftrightarrow> x = 1" using unat_u64_eq [of x 1] by simp
  ultimately show ?thesis using Cons is_zero_val [of e] by (simp add: is_one_def is_zero_def)
qed simp

lemma from_uint64_val: "0 < K \<Longrightarrow> bn_val (from_uint64 K v) = unat v"
proof -
  have "bn_val (replicate n 0) = 0" for n by (induction n) simp_all
  then show ?thesis by (simp add: from_uint64_def)
qed

lemma less_down_val: "length a = length b \<Longrightarrow> less_down (rev a) (rev b) \<longleftrightarrow> bn_val a < bn_val b"
proof (induction a arbitrary: b rule: rev_induct)
  case (snoc x a)
  then obtain y b' where b: "b = b' @ [y]" "length b' = length a" by (cases b rule: rev_cases) auto
  let ?M = "2 ^ (64 * length a) :: nat"
  have lt: "bn_val a < ?M" "bn_val b' < ?M" using bn_val_less [of a] bn_val_less [of b'] b(2) by simp_all
  have "bn_val a + ?M * m < bn_val b' + ?M * n \<longleftrightarrow> m < n" if "m \<noteq> n" for m n
  proof (cases "m < n")
    case True
    then have "?M * (m + 1) \<le> ?M * n" by (intro mult_le_mono2) simp
    with lt(1) True show ?thesis by (simp add: algebra_simps)
  next
    case False
    with that have "?M * (n + 1) \<le> ?M * m" by (intro mult_le_mono2) simp
    with lt(2) False show ?thesis by (simp add: algebra_simps)
  qed
  note step = this
  show ?case
  proof (cases "x = y")
    case True
    with snoc.IH [of b'] b show ?thesis by (simp add: bn_val_append)
  next
    case False
    then have "unat x \<noteq> unat y" by (simp add: unat_u64_eq)
    with step [of "unat x" "unat y"] False b show ?thesis by (simp add: bn_val_append word_less_nat_alt)
  qed
qed simp

lemma bn_less_val: "length a = length b \<Longrightarrow> bn_less a b \<longleftrightarrow> bn_val a < bn_val b"
  by (simp add: bn_less_def less_down_val)


section \<open>Addition\<close>

text \<open>
  The carry out of a limb is computed as \<open>s < a\<close>, which misses the case of a carry in and a limb of ones:
  then \<open>s = a\<close> and the carry is lost.
\<close>

fun carry_lost :: "u64 \<Rightarrow> u64 list \<Rightarrow> u64 list \<Rightarrow> bool" where
  "carry_lost c (x # a) (y # b) \<longleftrightarrow> c \<noteq> 0 \<and> y = - 1 \<or> carry_lost (if x + y + c < x then 1 else 0) a b"
| "carry_lost c _ _ \<longleftrightarrow> False"

lemma limb_mod: "s < 2 ^ 64 \<Longrightarrow> (s + 2 ^ 64 * n) mod (2 ^ 64 * M) = s + 2 ^ 64 * (n mod M)" for s n M :: nat
  by (simp add: mod_mult2_eq)

lemma word_sum: "unat (x + y + c) = (unat x + unat y + unat c) mod 2 ^ 64" for x y c :: u64
  by (simp add: unat_word_ariths mod_simps)

lemma unat_max: "unat (- 1 :: u64) = 2 ^ 64 - 1"
  by (simp add: unsigned_minus_1_eq_mask mask_eq_exp_minus_1)

lemma limb_add:
  fixes x y c :: u64
  assumes "c = 0 \<or> c = 1" "\<not> (c \<noteq> 0 \<and> y = - 1)"
  shows "unat (x + y + c) + 2 ^ 64 * unat (if x + y + c < x then 1 else 0 :: u64) = unat x + unat y + unat c"
proof -
  have yc: "unat y + unat c < 2 ^ 64"
  proof (cases "c = 0")
    case False
    with assms have "y \<noteq> - 1" by blast
    then have "unat y \<noteq> unat (- 1 :: u64)" by (simp only: unat_u64_eq not_False_eq_True)
    then have "unat y < 2 ^ 64 - 1" using unat_u64_less [of y] by (simp add: unat_max)
    with assms(1) False show ?thesis by auto
  qed (use unat_u64_less [of y] in simp)
  have xl: "unat x < 2 ^ 64" by (rule unat_u64_less)
  have lt: "x + y + c < x \<longleftrightarrow> unat (x + y + c) < unat x" by (simp add: word_less_nat_alt)
  show ?thesis
  proof (cases "unat x + (unat y + unat c) < 2 ^ 64")
    case True
    then have "unat (x + y + c) = unat x + unat y + unat c" unfolding word_sum by (simp add: add.assoc)
    then show ?thesis unfolding lt by simp
  next
    case False
    then have "unat (x + y + c) = unat x + (unat y + unat c) - 2 ^ 64"
      using xl yc unfolding word_sum by (subst mod_if) (simp add: add.assoc)
    with False yc show ?thesis unfolding lt by simp
  qed
qed

lemma add_loop_val:
  "length a = length b \<Longrightarrow> c = 0 \<or> c = 1 \<Longrightarrow> \<not> carry_lost c a b \<Longrightarrow>
   bn_val (add_loop c a b) = (bn_val a + bn_val b + unat c) mod 2 ^ (64 * length a)"
proof (induction c a b rule: add_loop.induct)
  case (1 c x a y b)
  define s c' where "s = x + y + c" and "c' = (if s < x then 1 else 0 :: u64)"
  have limb: "unat s + 2 ^ 64 * unat c' = unat x + unat y + unat c"
    using limb_add [of c y x] 1(3,4) by (simp add: s_def c'_def)
  have IH: "bn_val (add_loop c' a b) = (bn_val a + bn_val b + unat c') mod 2 ^ (64 * length a)"
    unfolding c'_def using 1(2-4) by (intro 1(1) [OF s_def]) (auto simp: s_def)
  have "bn_val (x # a) + bn_val (y # b) + unat c = unat s + 2 ^ 64 * (bn_val a + bn_val b + unat c')"
    using limb by (simp add: algebra_simps)
  moreover have "(2 :: nat) ^ (64 * length (x # a)) = 2 ^ 64 * 2 ^ (64 * length a)" by (simp add: power_add)
  ultimately have "(bn_val (x # a) + bn_val (y # b) + unat c) mod 2 ^ (64 * length (x # a))
     = unat s + 2 ^ 64 * ((bn_val a + bn_val b + unat c') mod 2 ^ (64 * length a))"
    by (simp only: limb_mod [OF unat_u64_less])
  then show ?case unfolding IH [symmetric] by (simp only: add_loop.simps s_def c'_def Let_def bn_val.simps)
qed auto

section \<open>Subtraction\<close>

lemma limb_sub:
  fixes x y bo :: u64
  assumes "bo = 0 \<or> bo = 1"
  shows "unat (x - (y + bo)) + unat y + unat bo
     = unat x + 2 ^ 64 * unat (if y + bo < y then 1 else if x < y + bo then 1 else 0 :: u64)"
proof (cases "y + bo < y")
  case True
  with assms have bo: "bo = 1" by auto
  have "unat y = unat (- 1 :: u64)"
  proof (rule ccontr)
    assume "unat y \<noteq> unat (- 1 :: u64)"
    then have "Suc (unat y) < 2 ^ 64" using unat_u64_less [of y] by (simp add: unat_max)
    then have "unat (y + 1) = Suc (unat y)" by (simp add: unat_word_ariths)
    with True bo show False by (simp add: word_less_nat_alt)
  qed
  then have "y = - 1" by (simp only: unat_u64_eq)
  with bo show ?thesis by (simp add: unat_max word_gt_0)
next
  case False
  have yb: "unat (y + bo) = unat y + unat bo"
  proof (cases "unat y + unat bo < 2 ^ 64")
    case True
    then show ?thesis by (simp add: unat_word_ariths)
  next
    case big: False
    then have "bo = 1" "unat y + 1 = 2 ^ 64" using assms unat_u64_less [of y] by auto
    then have "unat (y + bo) = 0" by (simp add: unat_word_ariths)
    with False \<open>unat y + 1 = 2 ^ 64\<close> show ?thesis by (simp add: word_less_nat_alt)
  qed
  show ?thesis
  proof (cases "x < y + bo")
    case True
    then have "unat (x - (y + bo)) = unat x + 2 ^ 64 - unat (y + bo)" by (simp add: unat_sub_if_size word_less_nat_alt word_size word_le_nat_alt)
    with True False yb unat_u64_less [of "y + bo"] show ?thesis by simp
  next
    case le: False
    then have "unat (x - (y + bo)) = unat x - unat (y + bo)" by (simp add: unat_sub word_less_nat_alt word_le_nat_alt)
    with le False yb show ?thesis by (simp add: word_less_nat_alt)
  qed
qed

lemma sub_loop_val:
  "length a = length b \<Longrightarrow> bo = 0 \<or> bo = 1 \<Longrightarrow>
   (bn_val (sub_loop bo a b) + bn_val b + unat bo) mod 2 ^ (64 * length a) = bn_val a mod 2 ^ (64 * length a)"
proof (induction bo a b rule: sub_loop.induct)
  case (1 bo x a y b)
  define sb bo' where "sb = y + bo" and "bo' = (if sb < y then 1 else if x < sb then 1 else 0 :: u64)"
  let ?r = "sub_loop bo' a b" and ?M = "2 ^ (64 * length a) :: nat"
  have limb: "unat (x - sb) + unat y + unat bo = unat x + 2 ^ 64 * unat bo'"
    using limb_sub [of bo x y] 1(3) by (simp add: sb_def bo'_def)
  have "(bn_val ?r + bn_val b + unat bo') mod ?M = bn_val a mod ?M"
    unfolding bo'_def using 1(2,3) by (intro 1(1) [OF sb_def]) auto
  then have "(unat x + 2 ^ 64 * (bn_val ?r + bn_val b + unat bo')) mod (2 ^ 64 * ?M)
     = (unat x + 2 ^ 64 * bn_val a) mod (2 ^ 64 * ?M)"
    using unat_u64_less [of x] by (simp only: limb_mod)
  moreover have "bn_val (sub_loop bo (x # a) (y # b)) + bn_val (y # b) + unat bo
     = unat x + 2 ^ 64 * (bn_val ?r + bn_val b + unat bo')"
    using limb by (simp add: sb_def bo'_def Let_def algebra_simps)
  moreover have "(2 :: nat) ^ (64 * length (x # a)) = 2 ^ 64 * ?M" by (simp add: power_add)
  ultimately show ?case by (simp only: bn_val.simps)
qed simp_all

lemma length_sub_loop: "length a = length b \<Longrightarrow> length (sub_loop bo a b) = length a"
  by (induction bo a b rule: sub_loop.induct) (simp_all add: Let_def)

lemma length_add_loop: "length a = length b \<Longrightarrow> length (add_loop c a b) = length a"
  by (induction c a b rule: add_loop.induct) (simp_all add: Let_def)

lemma bn_sub_val:
  assumes "length a = length b" "bn_val b \<le> bn_val a"
  shows "bn_val (bn_sub a b) = bn_val a - bn_val b"
proof -
  let ?M = "2 ^ (64 * length a) :: nat" and ?r = "bn_val (bn_sub a b)"
  have r: "?r < ?M" using bn_val_less [of "bn_sub a b"] assms(1) by (simp add: bn_sub_def length_sub_loop)
  have a: "bn_val a < ?M" by (rule bn_val_less)
  have "(?r + bn_val b) mod ?M = bn_val a" using sub_loop_val [OF assms(1), of 0] a by (simp add: bn_sub_def)
  moreover have "?r + bn_val b < ?M" if "(?r + bn_val b) mod ?M = bn_val a"
  proof (rule ccontr)
    assume "\<not> ?r + bn_val b < ?M"
    moreover have "?r + bn_val b - ?M < ?M" using r a assms(2) by linarith
    ultimately have "(?r + bn_val b) mod ?M = ?r + bn_val b - ?M" by (simp add: le_mod_geq)
    with that r assms(2) \<open>\<not> ?r + bn_val b < ?M\<close> show False by linarith
  qed
  ultimately show ?thesis by simp
qed

section \<open>Multiplication\<close>

lemma mul_row_val:
  "length b = length t \<Longrightarrow>
   bn_val (mul_row x b t ca) = (unat x * bn_val b + bn_val t + unat ca) mod 2 ^ (64 * length t)"
proof (induction x b t ca rule: mul_row.induct)
  case (1 x y b z t ca)
  define p where "p = (ucast x :: 128 word) * ucast y + ucast z + ucast ca"
  define N where "N = unat x * unat y + unat z + unat ca"
  have "unat x * unat y \<le> (2 ^ 64 - 1) * (2 ^ 64 - 1)"
    using unat_u64_less [of x] unat_u64_less [of y] by (intro mult_le_mono) simp_all
  then have N: "N < 2 ^ 128" using unat_u64_less [of z] unat_u64_less [of ca] by (simp add: N_def)
  have u: "unat (ucast w :: 128 word) = unat w" for w :: u64
    using unat_u64_less [of w] by (simp add: unsigned_ucast_eq take_bit_nat_eq_self)
  have pN: "unat p = N"
    using N unfolding p_def N_def by (simp add: unat_word_ariths u mod_simps)
  have lo: "unat (ucast p :: u64) = N mod 2 ^ 64" by (simp add: unsigned_ucast_eq take_bit_eq_mod pN)
  have "N div 2 ^ 64 < 2 ^ 64" using N by (simp add: less_mult_imp_div_less)
  moreover have "unat (drop_bit 64 p) = N div 2 ^ 64" by (subst unat_drop_bit_eq) (simp add: pN drop_bit_eq_div)
  ultimately have hi: "unat (ucast (drop_bit 64 p) :: u64) = N div 2 ^ 64"
    by (simp only: unsigned_ucast_eq) (simp add: take_bit_nat_eq_self)
  let ?M = "2 ^ (64 * length t) :: nat"
  have IH: "bn_val (mul_row x b t (ucast (drop_bit 64 p))) = (unat x * bn_val b + bn_val t + N div 2 ^ 64) mod ?M"
    using 1(1) [OF p_def] 1(2) unfolding hi by simp
  have "unat x * bn_val (y # b) + bn_val (z # t) + unat ca = N + 2 ^ 64 * (unat x * bn_val b + bn_val t)"
    by (simp add: N_def algebra_simps)
  also have "\<dots> = N mod 2 ^ 64 + 2 ^ 64 * (unat x * bn_val b + bn_val t + N div 2 ^ 64)"
    by (subst (1) mod_mult_div_eq [of N "2 ^ 64", symmetric]) (simp add: algebra_simps)
  moreover have "(2 :: nat) ^ (64 * length (z # t)) = 2 ^ 64 * ?M" by (simp add: power_add)
  ultimately have "(unat x * bn_val (y # b) + bn_val (z # t) + unat ca) mod 2 ^ (64 * length (z # t))
      = N mod 2 ^ 64 + 2 ^ 64 * bn_val (mul_row x b t (ucast (drop_bit 64 p)))"
    unfolding IH by (simp only: limb_mod [OF mod_less_divisor] zero_less_numeral zero_less_power)
  also have "\<dots> = bn_val (mul_row x (y # b) (z # t) ca)"
    by (simp only: mul_row.simps p_def [symmetric] Let_def bn_val.simps lo)
  finally show ?case by simp
qed simp_all

lemma length_mul_row: "length (mul_row x b t ca) = length t"
  by (induction x b t ca rule: mul_row.induct) (simp_all add: Let_def)

lemma bn_val_take: "i \<le> length d \<Longrightarrow> bn_val d = bn_val (take i d) + 2 ^ (64 * i) * bn_val (drop i d)"
  using bn_val_append [of "take i d" "drop i d"] by (simp add: min_absorb2)

lemma row_step:
  assumes "i < length t" "length b = length t"
  shows "bn_val (take i t @ mul_row x (take (length t - i) b) (drop i t) 0)
    = (bn_val t + 2 ^ (64 * i) * (unat x * bn_val b)) mod 2 ^ (64 * length t)"
proof -
  let ?K = "length t" and ?P = "2 ^ (64 * i) :: nat" and ?Q = "2 ^ (64 * (length t - i)) :: nat"
  let ?b = "bn_val (take (?K - i) b)" and ?t = "bn_val (take i t)"
  have PQ: "2 ^ (64 * ?K) = ?P * ?Q" using assms(1) by (simp add: power_add [symmetric] right_diff_distrib')
  have tl: "?t < ?P" using bn_val_less [of "take i t"] assms(1) by (simp add: min_absorb2)
  have "bn_val (take i t @ mul_row x (take (?K - i) b) (drop i t) 0)
      = ?t + ?P * ((unat x * ?b + bn_val (drop i t)) mod ?Q)"
    using assms by (simp add: bn_val_append mul_row_val min_absorb2)
  also have "\<dots> = (?t + ?P * (unat x * ?b + bn_val (drop i t))) mod (?P * ?Q)"
    using tl by (simp add: mod_mult2_eq)
  also have "?t + ?P * (unat x * ?b + bn_val (drop i t)) = bn_val t + ?P * (unat x * ?b)"
    using bn_val_take [of i t] assms(1) by (simp add: algebra_simps)
  also have "(bn_val t + ?P * (unat x * ?b)) mod (?P * ?Q) = (bn_val t + ?P * (unat x * bn_val b)) mod (?P * ?Q)"
  proof -
    have "bn_val b = ?b + ?Q * bn_val (drop (?K - i) b)" using bn_val_take [of "?K - i" b] assms by simp
    then have "bn_val t + ?P * (unat x * bn_val b)
        = bn_val t + ?P * (unat x * ?b) + ?P * ?Q * (unat x * bn_val (drop (?K - i) b))"
      by (simp only: algebra_simps)
    then show ?thesis by (simp only: mod_mult_self2)
  qed
  finally show ?thesis by (simp add: PQ)
qed

lemma bn_mul_prefix:
  assumes "length a = length b" "i \<le> length a"
  defines "row \<equiv> \<lambda>t i. if a ! i = 0 then t else take i t @ mul_row (a ! i) (take (length a - i) b) (drop i t) 0"
  shows "length (foldl row (replicate (length a) 0) [0..<i]) = length a \<and>
    bn_val (foldl row (replicate (length a) 0) [0..<i]) = (bn_val (take i a) * bn_val b) mod 2 ^ (64 * length a)"
  using assms(2)
proof (induction i)
  case 0
  have "bn_val (replicate n 0) = 0" for n by (induction n) simp_all
  then show ?case by simp
next
  case (Suc i)
  define t where "t = foldl row (replicate (length a) 0) [0..<i]"
  have t: "length t = length a" "bn_val t = (bn_val (take i a) * bn_val b) mod 2 ^ (64 * length a)"
    using Suc by (simp_all add: t_def)
  have i: "i < length t" using Suc.prems t(1) by simp
  have "bn_val (row t i) = (bn_val t + 2 ^ (64 * i) * (unat (a ! i) * bn_val b)) mod 2 ^ (64 * length a)"
    using row_step [OF i, of b "a ! i"] t assms(1) bn_val_less [of t] by (simp add: row_def)
  also have "\<dots> = (bn_val (take i a) * bn_val b + 2 ^ (64 * i) * (unat (a ! i) * bn_val b)) mod 2 ^ (64 * length a)"
    by (simp add: t(2) mod_simps)
  also have "bn_val (take i a) * bn_val b + 2 ^ (64 * i) * (unat (a ! i) * bn_val b) = bn_val (take (Suc i) a) * bn_val b"
    using Suc.prems by (simp add: take_Suc_conv_app_nth bn_val_append min_absorb2 algebra_simps)
  finally have "bn_val (row t i) = (bn_val (take (Suc i) a) * bn_val b) mod 2 ^ (64 * length a)" .
  moreover have "length (row t i) = length a" using i t(1) by (simp add: row_def length_mul_row)
  ultimately show ?case by (simp add: t_def)
qed

lemma bn_mul_val: "length a = length b \<Longrightarrow> bn_val (bn_mul a b) = (bn_val a * bn_val b) mod 2 ^ (64 * length a)"
  using bn_mul_prefix [of a b "length a"] by (simp add: bn_mul_def)

lemma length_bn_mul: "length a = length b \<Longrightarrow> length (bn_mul a b) = length a"
  using bn_mul_prefix [of a b "length a"] by (simp add: bn_mul_def)

section \<open>Bits and shifts\<close>

text \<open>The number of significant bits of the top limb that is not zero: the loop counts down from 64.\<close>

function top_loop :: "u64 \<Rightarrow> nat \<Rightarrow> nat" where
  "top_loop t b = (if t = 0 then b else top_loop (drop_bit 1 t) (b - 1))"
  by auto
termination
proof (relation "measure (\<lambda>(t, b). unat t)", goal_cases)
  case (2 t b)
  then have "0 < unat t" by (simp add: unat_gt_0)
  moreover have "unat (drop_bit 1 t) = unat t div 2" by (subst unat_drop_bit_eq) (simp add: drop_bit_eq_div)
  ultimately show ?case by simp
qed simp

declare top_loop.simps [simp del]

fun bit_length_down :: "u64 list \<Rightarrow> nat" where
  "bit_length_down [] = 0"
| "bit_length_down (x # d) = (if x \<noteq> 0 then (length d + 1) * 64 - top_loop x 64 else bit_length_down d)"

definition bit_length :: "u64 list \<Rightarrow> nat" where
  "bit_length d = bit_length_down (rev d)"

definition bn_bit :: "u64 list \<Rightarrow> nat \<Rightarrow> bool" where
  "bn_bit d p \<longleftrightarrow> drop_bit (p mod 64) (d ! (p div 64)) AND 1 \<noteq> 0"

definition bn_set_bit :: "u64 list \<Rightarrow> nat \<Rightarrow> u64 list" where
  "bn_set_bit d p = d[p div 64 := d ! (p div 64) OR push_bit (p mod 64) 1]"

definition bn_rshift :: "u64 list \<Rightarrow> nat \<Rightarrow> u64 list" where
  "bn_rshift a bits =
     (let K = length a; ws = bits div 64; bs = bits mod 64
      in map (\<lambda>i. let v = drop_bit bs (a ! (i + ws))
                   in if bs \<noteq> 0 \<and> i + ws + 1 < K then v OR push_bit (64 - bs) (a ! (i + ws + 1)) else v) [0..<K - ws]
         @ replicate (K - (K - ws)) 0)"

definition bn_lshift :: "u64 list \<Rightarrow> nat \<Rightarrow> u64 list" where
  "bn_lshift a bits =
     (let K = length a; ws = bits div 64; bs = bits mod 64
      in replicate (min ws K) 0
         @ map (\<lambda>i. let v = push_bit bs (a ! (i - ws))
                     in if bs \<noteq> 0 \<and> i - ws > 0 then v OR drop_bit (64 - bs) (a ! (i - ws - 1)) else v) [ws..<K])"

text \<open>Long division: index \<open>i\<close> runs down from \<open>sh\<close>; the first argument is \<open>i + 1\<close>.\<close>

fun div_loop :: "nat \<Rightarrow> u64 list \<Rightarrow> u64 list \<Rightarrow> u64 list \<Rightarrow> u64 list \<times> u64 list" where
  "div_loop 0 q r bs = (q, r)"
| "div_loop (Suc i) q r bs =
     (let (q, r) = (if \<not> bn_less r bs then (bn_set_bit q i, bn_sub r bs) else (q, r))
      in div_loop i q r (bn_rshift bs 1))"

definition bn_divmod :: "u64 list \<Rightarrow> u64 list \<Rightarrow> u64 list \<times> u64 list" where
  "bn_divmod a b =
     (let r = a; q = replicate (length a) 0
      in if is_zero b \<or> bn_less r b then (q, r)
         else let sh = bit_length a - bit_length b in div_loop (Suc sh) q r (bn_lshift b sh))"

definition bn_mod :: "u64 list \<Rightarrow> u64 list \<Rightarrow> u64 list" where
  "bn_mod a m = snd (bn_divmod a m)"

section \<open>Their values, bit by bit\<close>

lemma bit_unat: "bit (unat (x :: u64)) n \<longleftrightarrow> n < 64 \<and> bit x n"
  by (cases "n < 64") (auto simp: bit_unsigned_iff not_less)

lemma bit_bn_val: "bit (bn_val d) n \<longleftrightarrow> n < 64 * length d \<and> bit (d ! (n div 64)) (n mod 64)"
proof (induction d arbitrary: n)
  case (Cons x d)
  have "unat x AND push_bit 64 (bn_val d) = 0"
    by (rule bit_eqI) (auto simp: bit_and_iff bit_push_bit_iff bit_unat)
  then have "bn_val (x # d) = unat x OR push_bit 64 (bn_val d)"
    by (simp add: disjunctive_add_eq_or [symmetric] push_bit_eq_mult)
  then have b: "bit (bn_val (x # d)) n \<longleftrightarrow> n < 64 \<and> bit x n \<or> 64 \<le> n \<and> bit (bn_val d) (n - 64)"
    by (simp only: bit_or_iff bit_push_bit_iff bit_unat) auto
  show ?case
  proof (cases "n < 64")
    case False
    then obtain m where "n = m + 64" by (metis add.commute le_Suc_ex not_less)
    moreover have "(m + 64) div 64 = Suc (m div 64)" by simp
    ultimately show ?thesis using b Cons.IH [of m] by simp
  qed (use b in simp)
qed simp

lemma bn_rshift_val: "bn_val (bn_rshift a bits) = bn_val a div 2 ^ bits"
proof -
  define K ws bs where "K = length a" and "ws = bits div 64" and "bs = bits mod 64"
  have bits: "bits = 64 * ws + bs" "bs < 64" by (simp_all add: ws_def bs_def)
  have len: "length (bn_rshift a bits) = K" by (simp add: bn_rshift_def Let_def K_def)
  have nth: "bn_rshift a bits ! i = (if i < K - ws then
      (if bs \<noteq> 0 \<and> i + ws + 1 < K then drop_bit bs (a ! (i + ws)) OR push_bit (64 - bs) (a ! (i + ws + 1))
       else drop_bit bs (a ! (i + ws))) else 0)" if "i < K" for i
    using that by (auto simp: bn_rshift_def Let_def K_def ws_def bs_def nth_append)
  have "bit (bn_val (bn_rshift a bits)) n \<longleftrightarrow> bit (bn_val a) (bits + n)" for n
  proof (cases "n < 64 * K")
    case True
    define i j where "i = n div 64" and "j = n mod 64"
    have n: "n = 64 * i + j" "j < 64" "i < K" using True by (auto simp: i_def j_def)
    have "(bits + n) div 64 = (if bs + j < 64 then i + ws else i + ws + 1)"
      "(bits + n) mod 64 = (if bs + j < 64 then bs + j else bs + j - 64)"
      using bits(2) n(2) unfolding bits(1) n(1) by (auto simp: div_nat_eqI mod_nat_eqI)
    moreover have "bits + n < 64 * K \<longleftrightarrow> (if bs + j < 64 then i + ws < K else i + ws + 1 < K)"
      using bits n by auto
    ultimately show ?thesis
      using nth [of i] n bits(2)
      by (auto simp: bit_bn_val len K_def [symmetric] i_def [symmetric] j_def [symmetric] bit_or_iff bit_push_bit_iff bit_drop_bit_eq add.commute)
  qed (auto simp: bit_bn_val len K_def)
  then show ?thesis by (simp add: bit_eq_iff bit_drop_bit_eq flip: drop_bit_eq_div)
qed


lemma bn_lshift_val: "bn_val (bn_lshift a bits) = (bn_val a * 2 ^ bits) mod 2 ^ (64 * length a)"
proof -
  define K ws bs where "K = length a" and "ws = bits div 64" and "bs = bits mod 64"
  have bits: "bits = 64 * ws + bs" "bs < 64" by (simp_all add: ws_def bs_def)
  have len: "length (bn_lshift a bits) = K" by (simp add: bn_lshift_def Let_def K_def)
  have nth: "bn_lshift a bits ! i = (if i < ws then 0 else
      (if bs \<noteq> 0 \<and> i - ws > 0 then push_bit bs (a ! (i - ws)) OR drop_bit (64 - bs) (a ! (i - ws - 1))
       else push_bit bs (a ! (i - ws))))" if "i < K" for i
    using that by (auto simp: bn_lshift_def Let_def K_def ws_def bs_def nth_append)
  have "bit (bn_val (bn_lshift a bits)) n \<longleftrightarrow> n < 64 * K \<and> bits \<le> n \<and> bit (bn_val a) (n - bits)" for n
  proof (cases "n < 64 * K")
    case True
    define i j where "i = n div 64" and "j = n mod 64"
    have n: "n = 64 * i + j" "j < 64" "i < K" using True by (auto simp: i_def j_def)
    have b: "bit (bn_val (bn_lshift a bits)) n \<longleftrightarrow> bit (bn_lshift a bits ! i) j"
      using True by (simp add: bit_bn_val len i_def j_def)
    show ?thesis
    proof (cases "ws \<le> i")
      case False
      then show ?thesis using nth [of i] n bits b by simp
    next
      case ws: True
      show ?thesis
      proof (cases "bs \<le> j")
        case True
        then have e: "bits \<le> n" "n - bits = 64 * (i - ws) + (j - bs)" using ws n(1) bits(1) by (auto simp: right_diff_distrib')
        have "j - bs < 64" using n(2) by simp
        then have "(n - bits) div 64 = i - ws" "(n - bits) mod 64 = j - bs" unfolding e(2) by simp_all
        then have B: "bit (bn_val a) (n - bits) \<longleftrightarrow> bit (a ! (i - ws)) (j - bs)"
          using \<open>n < 64 * K\<close> by (simp add: bit_bn_val K_def [symmetric] less_imp_diff_less)
        have "bit (bn_lshift a bits ! i) j \<longleftrightarrow> bit (a ! (i - ws)) (j - bs)"
          using nth [OF n(3)] ws True n(2) bits(2) by (auto simp: bit_or_iff bit_push_bit_iff bit_drop_bit_eq)
        with b B e(1) \<open>n < 64 * K\<close> show ?thesis by blast
      next
        case lt: False
        show ?thesis
        proof (cases "i = ws")
          case True
          then show ?thesis using b nth [of i] n bits lt by (simp add: bit_push_bit_iff)
        next
          case False
          with ws have "ws < i" by simp
          then obtain m where m: "i = ws + m + 1" by (metis add.commute add_Suc_right less_iff_Suc_add plus_1_eq_Suc)
          have e: "bits \<le> n" "n - bits = 64 * m + (64 + j - bs)" using m n(1) bits lt by auto
          have "64 + j - bs < 64" using lt by simp
          then have "(n - bits) div 64 = m" "(n - bits) mod 64 = 64 + j - bs" unfolding e(2) by simp_all
          then have B: "bit (bn_val a) (n - bits) \<longleftrightarrow> bit (a ! m) (64 + j - bs)"
            using \<open>n < 64 * K\<close> by (simp add: bit_bn_val K_def [symmetric] less_imp_diff_less)
          have "bit (bn_lshift a bits ! i) j \<longleftrightarrow> bit (a ! m) (64 + j - bs)"
            using nth [OF n(3)] m lt n(2) bits(2) by (auto simp: bit_or_iff bit_push_bit_iff bit_drop_bit_eq)
          with b B e(1) \<open>n < 64 * K\<close> show ?thesis by blast
        qed
      qed
    qed
  qed (auto simp: bit_bn_val len K_def)
  then have "bn_val (bn_lshift a bits) = take_bit (64 * K) (push_bit bits (bn_val a))"
    by (simp add: bit_eq_iff bit_take_bit_iff bit_push_bit_iff)
  then show ?thesis by (simp add: take_bit_eq_mod push_bit_eq_mult K_def)
qed

lemma length_shifts [simp]: "length (bn_lshift a n) = length a" "length (bn_rshift a n) = length a"
  by (simp_all add: bn_lshift_def bn_rshift_def Let_def)

lemma bn_set_bit_val:
  assumes "p < 64 * length d" "\<not> bit (bn_val d) p"
  shows "bn_val (bn_set_bit d p) = bn_val d + 2 ^ p"
proof -
  have "bit (bn_val (bn_set_bit d p)) n \<longleftrightarrow> bit (bn_val d) n \<or> n = p" for n
  proof (cases "n < 64 * length d")
    case True
    show ?thesis
    proof (cases "n div 64 = p div 64")
      case same: True
      then have "n = p \<longleftrightarrow> n mod 64 = p mod 64" by (metis div_mod_decomp)
      moreover have "p div 64 < length d" using assms(1) by (simp add: less_mult_imp_div_less)
      ultimately show ?thesis using True same
        by (auto simp: bit_bn_val bn_set_bit_def bit_or_iff bit_exp_iff)
    next
      case False
      then show ?thesis using True by (auto simp: bit_bn_val bn_set_bit_def)
    qed
  next
    case False
    then show ?thesis using assms(1) by (auto simp: bit_bn_val bn_set_bit_def)
  qed
  note B = this
  have e: "bit (2 ^ p :: nat) n \<longleftrightarrow> n = p" for n by (auto simp: bit_exp_iff)
  have "bn_val (bn_set_bit d p) = bn_val d OR 2 ^ p"
  proof (rule bit_eqI)
    fix n
    show "bit (bn_val (bn_set_bit d p)) n = bit (bn_val d OR 2 ^ p) n" unfolding bit_or_iff e by (rule B)
  qed
  also have "\<dots> = bn_val d + 2 ^ p"
  proof (rule disjunctive_add_eq_or [symmetric], rule bit_eqI)
    fix n
    show "bit (bn_val d AND 2 ^ p) n = bit 0 n" unfolding bit_and_iff e using assms(2) by auto
  qed
  finally show ?thesis .
qed

section \<open>The length in bits\<close>

lemma top_loop_bounds:
  "t \<noteq> 0 \<Longrightarrow> unat t < 2 ^ b \<Longrightarrow> \<exists>k. top_loop t b = b - Suc k \<and> k < b \<and> 2 ^ k \<le> unat t \<and> unat t < 2 ^ Suc k"
proof (induction t b rule: top_loop.induct)
  case (1 t b)
  let ?u = "drop_bit 1 t"
  have u: "unat ?u = unat t div 2" by (subst unat_drop_bit_eq) (simp add: drop_bit_eq_div)
  have t0: "0 < unat t" using 1(2) by (simp add: unat_gt_0)
  obtain b' where b: "b = Suc b'" using 1(3) t0 by (cases b) auto
  show ?case
  proof (cases "?u = 0")
    case True
    then have "unat t = 1" using u t0 by (metis One_nat_def Suc_lessI div_less_iff_less_mult less_2_cases_iff mult_1 not_less_eq unsigned_0 zero_less_numeral div_eq_0_iff)
    then show ?thesis using True 1(2) b by (subst top_loop.simps, subst top_loop.simps) (auto intro!: exI [of _ 0])
  next
    case False
    have "unat ?u < 2 ^ (b - 1)" using 1(3) u b by simp
    from 1(1) [OF 1(2) False this] obtain k where k: "top_loop ?u b' = b' - Suc k" "k < b'" "2 ^ k \<le> unat ?u" "unat ?u < 2 ^ Suc k"
      by (auto simp: b)
    show ?thesis
      using 1(2) k u by (subst top_loop.simps) (auto simp: b intro!: exI [of _ "Suc k"])
  qed
qed

lemma bit_length_down_val:
  "bn_val (rev d) \<noteq> 0 \<Longrightarrow> \<exists>k. bit_length_down d = Suc k \<and> 2 ^ k \<le> bn_val (rev d) \<and> bn_val (rev d) < 2 ^ Suc k \<and> k < 64 * length d"
proof (induction d)
  case (Cons x d)
  show ?case
  proof (cases "x = 0")
    case True
    with Cons show ?thesis by (fastforce simp: bn_val_append)
  next
    case False
    obtain k where k: "top_loop x 64 = 64 - Suc k" "k < 64" "2 ^ k \<le> unat x" "unat x < 2 ^ Suc k"
      using top_loop_bounds [OF False unat_u64_less] by blast
    let ?M = "2 ^ (64 * length d) :: nat"
    have l: "bn_val (rev d) < ?M" using bn_val_less [of "rev d"] by simp
    have "2 ^ (64 * length d + k) \<le> bn_val (rev d) + ?M * unat x"
      using mult_le_mono2 [OF k(3), of ?M] unfolding power_add by linarith
    moreover have "?M * (unat x + 1) \<le> ?M * 2 ^ Suc k" using k(4) by (intro mult_le_mono2) simp
    then have "bn_val (rev d) + ?M * unat x < 2 ^ Suc (64 * length d + k)" using l by (simp add: power_add algebra_simps)
    moreover have "bit_length_down (x # d) = Suc (64 * length d + k)" using k(1,2) False by simp
    ultimately show ?thesis using k(2) by (intro exI [of _ "64 * length d + k"]) (simp add: bn_val_append)
  qed
qed simp

lemma bit_length_val:
  "bn_val d \<noteq> 0 \<Longrightarrow> \<exists>k. bit_length d = Suc k \<and> 2 ^ k \<le> bn_val d \<and> bn_val d < 2 ^ Suc k \<and> k < 64 * length d"
  using bit_length_down_val [of "rev d"] by (simp add: bit_length_def)

section \<open>Division\<close>

lemma div_loop_val:
  assumes "length q = K" "length r = K" "length bs = K" "i \<le> 64 * K"
    and "B * 2 ^ (i - 1) = bn_val bs" "i = 0 \<longrightarrow> bn_val r < B" "0 < i \<longrightarrow> bn_val r < B * 2 ^ i" "2 ^ i dvd bn_val q"
    and "0 < B"
  shows "bn_val (fst (div_loop i q r bs)) * B + bn_val (snd (div_loop i q r bs)) = bn_val q * B + bn_val r
    \<and> bn_val (snd (div_loop i q r bs)) < B \<and> length (fst (div_loop i q r bs)) = K \<and> length (snd (div_loop i q r bs)) = K"
  using assms
proof (induction i arbitrary: q r bs)
  case (Suc i)
  define q' r' where "q' = (if \<not> bn_less r bs then bn_set_bit q i else q)"
    and "r' = (if \<not> bn_less r bs then bn_sub r bs else r)"
  have step: "div_loop (Suc i) q r bs = div_loop i q' r' (bn_rshift bs 1)" by (simp add: q'_def r'_def)
  have bs: "bn_val bs = B * 2 ^ i" using Suc.prems(5) by simp
  have lt: "bn_less r bs \<longleftrightarrow> bn_val r < bn_val bs" using Suc.prems(2,3) by (simp add: bn_less_val)
  have nb: "\<not> bit (bn_val q) i"
    using Suc.prems(8) by (auto simp: bit_iff_odd elim!: dvdE)
  have q': "bn_val q' = (if \<not> bn_less r bs then bn_val q + 2 ^ i else bn_val q)"
    using bn_set_bit_val [of i q] nb Suc.prems(1,4) by (simp add: q'_def)
  have r': "bn_val r' = (if \<not> bn_less r bs then bn_val r - bn_val bs else bn_val r)"
    using bn_sub_val [of r bs] lt Suc.prems(2,3) by (simp add: r'_def)
  have sum: "bn_val q' * B + bn_val r' = bn_val q * B + bn_val r"
    using q' r' lt by (simp add: bs algebra_simps)
  have "2 ^ i dvd bn_val q" using Suc.prems(8) by (metis dvd_trans le_imp_power_dvd lessI less_imp_le)
  then have d: "2 ^ i dvd bn_val q'" using q' by simp
  have small: "bn_val r' < B * 2 ^ i" using r' lt Suc.prems(7) bs by (auto simp: algebra_simps)
  have half: "bn_val (bn_rshift bs 1) = B * 2 ^ (i - 1)" if "0 < i"
    using that by (cases i) (simp_all add: bn_rshift_val bs)
  have len: "length q' = K" "length r' = K" "length (bn_rshift bs 1) = K"
    using Suc.prems(1-3) by (simp_all add: q'_def r'_def bn_set_bit_def bn_sub_def length_sub_loop)
  show ?case
  proof (cases "i = 0")
    case True
    then show ?thesis using sum small len unfolding step by simp
  next
    case False
    then show ?thesis
      using Suc.IH [OF len] Suc.prems(4,9) half small d sum unfolding step by simp
  qed
qed simp

lemma bn_divmod_val:
  assumes "length a = length b" "bn_val b \<noteq> 0"
  shows "bn_val (fst (bn_divmod a b)) = bn_val a div bn_val b \<and> bn_val (snd (bn_divmod a b)) = bn_val a mod bn_val b
    \<and> length (fst (bn_divmod a b)) = length a \<and> length (snd (bn_divmod a b)) = length a"
proof (cases "bn_val a < bn_val b")
  case True
  have "bn_val (replicate n 0) = 0" for n by (induction n) simp_all
  then show ?thesis using True assms by (simp add: bn_divmod_def is_zero_val bn_less_val)
next
  case False
  let ?B = "bn_val b" and ?A = "bn_val a" and ?K = "length a"
  have z: "bn_val (replicate n 0) = 0" for n by (induction n) simp_all
  obtain k where k: "bit_length b = Suc k" "2 ^ k \<le> ?B" "?B < 2 ^ Suc k" using bit_length_val [OF assms(2)] by blast
  have "?A \<noteq> 0" using False assms(2) by simp
  then obtain m where m: "bit_length a = Suc m" "2 ^ m \<le> ?A" "?A < 2 ^ Suc m" "m < 64 * ?K" using bit_length_val by blast
  define sh where "sh = bit_length a - bit_length b"
  have "(2 :: nat) ^ k < 2 ^ Suc m" using k(2) m(3) False by linarith
  then have "k \<le> m" by (simp only: power_strict_increasing_iff one_less_numeral_iff semiring_norm(76) less_Suc_eq_le)
  then have sh: "m = k + sh" using k(1) m(1) by (simp add: sh_def)
  have "?B * 2 ^ sh < 2 ^ Suc k * 2 ^ sh" using k(3) by simp
  also have "\<dots> = 2 ^ Suc m" by (simp add: sh power_add)
  also have "\<dots> \<le> 2 ^ (64 * ?K)" using m(4) by (intro power_increasing) simp_all
  finally have ls: "bn_val (bn_lshift b sh) = ?B * 2 ^ sh" using assms(1) by (simp add: bn_lshift_val)
  have "2 ^ Suc m \<le> ?B * 2 ^ Suc sh" using mult_le_mono1 [OF k(2), of "2 ^ Suc sh"] by (simp add: sh power_add)
  then have init: "?A < ?B * 2 ^ Suc sh" using m(3) by linarith
  have "bn_val (fst (div_loop (Suc sh) (replicate ?K 0) a (bn_lshift b sh))) * ?B
       + bn_val (snd (div_loop (Suc sh) (replicate ?K 0) a (bn_lshift b sh))) = 0 * ?B + ?A
    \<and> bn_val (snd (div_loop (Suc sh) (replicate ?K 0) a (bn_lshift b sh))) < ?B
    \<and> length (fst (div_loop (Suc sh) (replicate ?K 0) a (bn_lshift b sh))) = ?K
    \<and> length (snd (div_loop (Suc sh) (replicate ?K 0) a (bn_lshift b sh))) = ?K"
    using div_loop_val [of "replicate ?K 0" ?K a "bn_lshift b sh" "Suc sh" ?B] assms ls init m(4) sh by (simp add: z)
  moreover have "bn_divmod a b = div_loop (Suc sh) (replicate ?K 0) a (bn_lshift b sh)"
    using assms False by (simp add: bn_divmod_def is_zero_val bn_less_val sh_def Let_def del: div_loop.simps)
  ultimately show ?thesis
    using assms(2) by (metis add.left_neutral div_mult_self3 div_less mod_less mod_mult_self3 mult_zero_left add_0_right)
qed


section \<open>Bytes\<close>

lemma bit_be_val: "bit (be_val bs) n \<longleftrightarrow> n < 8 * length bs \<and> bit (rev bs ! (n div 8)) (n mod 8)"
proof (induction bs arbitrary: n rule: rev_induct)
  case (snoc b bs)
  have bb: "bit (unat b) n \<longleftrightarrow> n < 8 \<and> bit b n" for n by (cases "n < 8") (auto simp: bit_unsigned_iff not_less)
  have "push_bit 8 (be_val bs) AND unat b = 0"
    by (rule bit_eqI) (auto simp: bit_and_iff bit_push_bit_iff bb)
  then have "be_val (bs @ [b]) = push_bit 8 (be_val bs) OR unat b"
    by (simp add: disjunctive_add_eq_or [symmetric] push_bit_eq_mult)
  then have B: "bit (be_val (bs @ [b])) n \<longleftrightarrow> n < 8 \<and> bit b n \<or> 8 \<le> n \<and> bit (be_val bs) (n - 8)"
    by (simp only: bit_or_iff bit_push_bit_iff bb) auto
  show ?case
  proof (cases "n < 8")
    case False
    then obtain m where "n = m + 8" by (metis add.commute le_Suc_ex not_less)
    moreover have "(m + 8) div 8 = Suc (m div 8)" by simp
    ultimately show ?thesis using B snoc.IH [of m] by simp
  qed (use B in simp)
qed simp

lemma to_bytes_be: "to_bytes d = be_bytes (8 * length d) (bn_val d)"
proof -
  have len: "length (to_bytes d) = 8 * length d" by (simp add: to_bytes_def)
  have "bit (be_val (to_bytes d)) n \<longleftrightarrow> bit (bn_val d) n" for n
  proof (cases "n < 64 * length d")
    case True
    then have i: "n div 8 < 8 * length d" by (simp add: less_mult_imp_div_less)
    have "n div 8 div 8 = n div 64" by (simp add: div_mult2_eq [symmetric])
    moreover have "n div 8 mod 8 * 8 + n mod 8 = n mod 64"
      using mod_mult2_eq [of n 8 8] by (simp add: algebra_simps)
    ultimately show ?thesis
      using True i by (simp add: bit_be_val len bit_bn_val) (simp add: to_bytes_def bit_ucast_iff bit_drop_bit_eq)
  next
    case False
    then show ?thesis by (simp add: bit_be_val len bit_bn_val)
  qed
  then have "be_val (to_bytes d) = bn_val d" by (simp add: bit_eq_iff)
  then show ?thesis using be_bytes_be_val [of "to_bytes d"] len by simp
qed

lemma byte_index: "c * 8 \<le> a * 8 + b \<Longrightarrow> a * 8 + b - c * 8 < 8 \<Longrightarrow> b < 8 \<Longrightarrow> a = c" for a b c :: nat
  by linarith

lemma from_bytes_prefix:
  fixes data :: bytes
  assumes "m \<le> len" "len \<le> 8 * K" "len \<le> length data"
  defines "f \<equiv> \<lambda>d i. d[i div 8 := d ! (i div 8) OR push_bit (i mod 8 * 8) (ucast (data ! (len - 1 - i)) :: u64)]"
  shows "length (foldl f (replicate K 0) [0..<m]) = K \<and>
    (\<forall>n < 64 * K. bit (foldl f (replicate K 0) [0..<m] ! (n div 64)) (n mod 64)
       \<longleftrightarrow> n div 8 < m \<and> bit (data ! (len - 1 - n div 8)) (n mod 8))"
  using assms(1)
proof (induction m)
  case 0
  then show ?case by (simp add: less_mult_imp_div_less)
next
  case (Suc m)
  define d where "d = foldl f (replicate K 0) [0..<m]"
  have IH: "length d = K" "\<And>n. n < 64 * K \<Longrightarrow> bit (d ! (n div 64)) (n mod 64)
      \<longleftrightarrow> n div 8 < m \<and> bit (data ! (len - 1 - n div 8)) (n mod 8)"
    using Suc by (simp_all add: d_def)
  have "bit (f d m ! (n div 64)) (n mod 64) \<longleftrightarrow> n div 8 < Suc m \<and> bit (data ! (len - 1 - n div 8)) (n mod 8)" if n: "n < 64 * K" for n
  proof -
    have n64: "n div 64 < length d" using n IH(1) by (simp add: less_mult_imp_div_less)
    have e1: "n div 8 div 8 = n div 64" by (simp add: div_mult2_eq [symmetric])
    have e2: "n div 8 mod 8 * 8 + n mod 8 = n mod 64" using mod_mult2_eq [of n 8 8] by (simp add: algebra_simps)
    have u8: "bit (b :: u8) k \<Longrightarrow> k < 8" for b k by (cases "k < 8") (auto simp: not_less)
    show ?thesis
    proof (cases "m div 8 = n div 64")
      case False
      then have "n div 8 \<noteq> m" using e1 by auto
      with False IH(2) [OF n] show ?thesis by (auto simp: f_def)
    next
      case True
      have "bit (f d m ! (n div 64)) (n mod 64) \<longleftrightarrow> bit (d ! (n div 64)) (n mod 64)
          \<or> m mod 8 * 8 \<le> n mod 64 \<and> bit (data ! (len - 1 - m)) (n mod 64 - m mod 8 * 8)"
        using n64 True by (auto simp: f_def bit_or_iff bit_push_bit_iff bit_ucast_iff)
      also have "m mod 8 * 8 \<le> n mod 64 \<and> bit (data ! (len - 1 - m)) (n mod 64 - m mod 8 * 8)
          \<longleftrightarrow> n div 8 = m \<and> bit (data ! (len - 1 - m)) (n mod 8)"
      proof
        assume a: "m mod 8 * 8 \<le> n mod 64 \<and> bit (data ! (len - 1 - m)) (n mod 64 - m mod 8 * 8)"
        then have "n mod 64 - m mod 8 * 8 < 8" using u8 by blast
        with a have "n div 8 mod 8 = m mod 8" unfolding e2 [symmetric] by (intro byte_index [of _ _ "n mod 8"]) simp_all
        then have "n div 8 = m" using e1 True by (metis div_mod_decomp)
        with a e2 show "n div 8 = m \<and> bit (data ! (len - 1 - m)) (n mod 8)" by (metis add_diff_cancel_left')
      next
        assume a: "n div 8 = m \<and> bit (data ! (len - 1 - m)) (n mod 8)"
        with e2 show "m mod 8 * 8 \<le> n mod 64 \<and> bit (data ! (len - 1 - m)) (n mod 64 - m mod 8 * 8)"
          by (metis add_diff_cancel_left' le_add1)
      qed
      finally show ?thesis using IH(2) [OF n] by (auto simp: less_Suc_eq)
    qed
  qed
  moreover have "length (f d m) = K" using IH(1) by (simp add: f_def)
  ultimately show ?case by (simp add: d_def)
qed

lemma from_bytes_val: "bn_val (from_bytes K data) = be_val (take (8 * K) data) \<and> length (from_bytes K data) = K"
proof -
  define len where "len = (if length data > 8 * K then 8 * K else length data)"
  have l: "len \<le> 8 * K" "len \<le> length data" "length (take (8 * K) data) = len" by (auto simp: len_def)
  note P = from_bytes_prefix [OF order.refl l(1,2)]
  have len_d: "length (from_bytes K data) = K" using P by (simp add: from_bytes_def len_def [symmetric])
  have "bit (bn_val (from_bytes K data)) n \<longleftrightarrow> bit (be_val (take (8 * K) data)) n" for n
  proof (cases "n < 64 * K")
    case True
    then have "bit (bn_val (from_bytes K data)) n \<longleftrightarrow> n div 8 < len \<and> bit (data ! (len - 1 - n div 8)) (n mod 8)"
      using P len_d by (simp add: bit_bn_val from_bytes_def len_def [symmetric])
    moreover have "n < 8 * len \<longleftrightarrow> n div 8 < len" by (metis div_less_iff_less_mult mult.commute zero_less_numeral)
    moreover have "rev (take (8 * K) data) ! (n div 8) = data ! (len - 1 - n div 8)" if "n div 8 < len"
      using that l by (simp add: rev_nth min_def)
    ultimately show ?thesis unfolding bit_be_val l(3) by auto
  next
    case False
    then have "\<not> n < 8 * len" using l(1) by simp
    with False show ?thesis by (simp add: bit_be_val bit_bn_val l(3) len_d)
  qed
  then show ?thesis using len_d by (simp add: bit_eq_iff)
qed

section \<open>Properties\<close>

text \<open>
  The limb arithmetic computes on numbers below \<open>2 ^ (64 K)\<close>: subtraction and multiplication modulo that
  bound, comparison, shifts, and the shift-and-subtract division, whose quotient and remainder are exact.
  Addition is right as long as no carry enters a limb where the second operand is all ones.
\<close>

theorem bignum_arithmetic:
  assumes "length a = length b" "\<not> carry_lost 0 a b" "bn_val b \<noteq> 0"
  shows "bn_less a b = (bn_val a < bn_val b)
    \<and> bn_val (bn_add a b) = (bn_val a + bn_val b) mod 2 ^ (64 * length a)
    \<and> (bn_val (bn_sub a b) + bn_val b) mod 2 ^ (64 * length a) = bn_val a
    \<and> bn_val (bn_mul a b) = (bn_val a * bn_val b) mod 2 ^ (64 * length a)
    \<and> bn_val (fst (bn_divmod a b)) = bn_val a div bn_val b
    \<and> bn_val (bn_mod a b) = bn_val a mod bn_val b"
  using bn_less_val [OF assms(1)] bn_mul_val [OF assms(1)] sub_loop_val [OF assms(1), of 0] add_loop_val [OF assms(1), of 0]
    bn_divmod_val [OF assms(1,3)] bn_val_less [of a] assms(2)
  by (simp add: bn_sub_def bn_add_def bn_mod_def)

theorem bignum_arithmetic_witness:
  "bn_val (bn_mul [5, 7] [3, 0]) = (5 + 7 * 2 ^ 64) * 3 \<and> bn_val (bn_mod [5, 7] [3, 0]) = (5 + 7 * 2 ^ 64) mod 3"
  using bignum_arithmetic [of "[5, 7]" "[3, 0]"] by (simp add: word_less_nat_alt)

text \<open>
  \<open>bn_add\<close> loses a carry: adding \<open>1\<close> to \<open>2 ^ 128 - 1\<close> gives \<open>0\<close>. The carry out of a limb is computed as
  \<open>s < a\<close>, which is false when the limb of the second operand is all ones and a carry comes in.
\<close>

theorem bn_add_loses_carry:
  "bn_val (bn_add [1, 0, 0] [- 1, - 1, 0]) = 0 \<and> bn_val [1, 0, 0] + bn_val [- 1, - 1, 0] = 2 ^ 128"
  by (simp add: bn_add_def unat_max)

text \<open>
  Bytes and limbs: \<open>from_bytes\<close> reads a big-endian number, of the first \<open>8 K\<close> bytes when there are more, and
  \<open>to_bytes\<close> writes it back, padded to the width.
\<close>

theorem bignum_bytes:
  "bn_val (from_bytes K data) = be_val (take (8 * K) data) \<and> to_bytes d = be_bytes (8 * length d) (bn_val d)"
  by (simp add: from_bytes_val to_bytes_be)

end
