(* ===== verification/Crypto.thy ===== *)
theory Crypto
  imports Prelude
begin

text \<open>
  The public-key primitives the certificate and transparency code calls: Ed25519, Ed448, ECDSA, SM2 and the
  RSA operations, as functions on byte strings. Their arithmetic (\<open>src/src/ed25519.cpp\<close>, \<open>ecdsa.cpp\<close>,
  \<open>sm2.cpp\<close>, \<open>rsa.cpp\<close> and the like) is not part of the development, so they are fields of a record over
  which every definition that calls them is parametric. Private keys, public keys, messages, signatures
  and user identities are the byte strings the code passes; \<open>rsa_modpow\<close> and \<open>rsa_modmul\<close>, the Montgomery
  exponentiation and multiplication, take and return numbers.
\<close>

record crypto =
  ed25519_sign :: "bytes \<Rightarrow> bytes \<Rightarrow> bytes"
  ed25519_verify :: "bytes \<Rightarrow> bytes \<Rightarrow> bytes \<Rightarrow> bool"
  ed448_sign :: "bytes \<Rightarrow> bytes \<Rightarrow> bytes"
  ed448_verify :: "bytes \<Rightarrow> bytes \<Rightarrow> bytes \<Rightarrow> bool"
  ecdsa_p256_sign :: "bytes \<Rightarrow> bytes \<Rightarrow> bytes"
  ecdsa_p256_verify :: "bytes \<Rightarrow> bytes \<Rightarrow> bytes \<Rightarrow> bool"
  ecdsa_p384_sign :: "bytes \<Rightarrow> bytes \<Rightarrow> bytes"
  ecdsa_p384_verify :: "bytes \<Rightarrow> bytes \<Rightarrow> bytes \<Rightarrow> bool"
  ecdsa_p521_sign :: "bytes \<Rightarrow> bytes \<Rightarrow> bytes"
  ecdsa_p521_verify :: "bytes \<Rightarrow> bytes \<Rightarrow> bytes \<Rightarrow> bool"
  sm2_pub_from_priv :: "bytes \<Rightarrow> bytes"
  sm2_compute_za :: "bytes \<Rightarrow> bytes \<Rightarrow> bytes \<Rightarrow> bytes"
  sm2_sign :: "bytes \<Rightarrow> bytes \<Rightarrow> bytes \<Rightarrow> bytes"
  sm2_verify :: "bytes \<Rightarrow> bytes \<Rightarrow> bytes \<Rightarrow> bytes \<Rightarrow> bool"
  rsa_modpow :: "nat \<Rightarrow> nat \<Rightarrow> nat \<Rightarrow> nat"
  rsa_modmul :: "nat \<Rightarrow> nat \<Rightarrow> nat \<Rightarrow> nat"
  rsassa_pss_sign :: "nat \<Rightarrow> bytes \<Rightarrow> bytes \<Rightarrow> bytes \<Rightarrow> int \<Rightarrow> bytes option"
  rsassa_pss_verify :: "nat \<Rightarrow> bytes \<Rightarrow> bytes \<Rightarrow> bytes \<Rightarrow> int \<Rightarrow> bool"

text \<open>
  Arguments, in order: the signers take the private key and the message (SM2 also the identity hash \<open>ZA\<close>),
  the verifiers the public key, the message and the signature (SM2 also \<open>ZA\<close>), \<open>sm2_compute_za\<close> the
  identity and the two halves of the public key, \<open>rsa_modpow\<close> base, exponent and modulus,
  \<open>rsa_modmul\<close> two factors and the modulus, \<open>rsassa_pss_sign\<close>
  the modulus size in bytes, modulus, private exponent, message and hash length, \<open>rsassa_pss_verify\<close> the
  modulus size, modulus, message, signature and hash length.
\<close>

end
