(* ===== verification/Rsa.thy ===== *)
theory Rsa
  imports Bignum Crypto Der Sha256 Sha512
begin

text \<open>
  RSA on the limbs of \<open>Bignum\<close>: the primitives of \<open>src/src/rsa_prim.cpp\<close> and the schemes of RFC 8017 in
  \<open>rsa_schemes.cpp\<close> (PKCS #1 v1.5 signatures), \<open>rsa_oaep.cpp\<close> (OAEP encryption) and \<open>rsa_pss.cpp\<close> (PSS
  signatures). Where the code has one copy of a function per key size, one definition over the number of limbs
  \<open>K\<close> (32, 48, 64) models them, and differences are arguments. The Montgomery exponentiation and multiplication
  are fields of the \<open>crypto\<close> record; random bytes are arguments. \<open>Throw\<close> stands for writing or reading
  memory out of bounds.
\<close>

section \<open>Keys and primitives\<close>

record rsa_public_key =
  rsa_n :: "u64 list"
  rsa_e :: "u64 list"

record rsa_crt_key =
  ck_n :: "u64 list"
  ck_e :: "u64 list"
  ck_d :: "u64 list"
  ck_p :: "u64 list"
  ck_q :: "u64 list"
  ck_dP :: "u64 list"
  ck_dQ :: "u64 list"
  ck_qInv :: "u64 list"

definition bn_modpow :: "crypto \<Rightarrow> u64 list \<Rightarrow> u64 list \<Rightarrow> u64 list \<Rightarrow> u64 list" where
  "bn_modpow C b e n = bn_of (length n) (rsa_modpow C (bn_val b) (bn_val e) (bn_val n))"

definition mont_mul_mod :: "crypto \<Rightarrow> u64 list \<Rightarrow> u64 list \<Rightarrow> u64 list \<Rightarrow> u64 list" where
  "mont_mul_mod C a b n = bn_of (length n) (rsa_modmul C (bn_val a) (bn_val b) (bn_val n))"

definition I2OSP_u64 :: "u64 \<Rightarrow> nat \<Rightarrow> bytes option" where
  "I2OSP_u64 x xLen =
     (if xLen < 1 \<or> xLen > 8 then None
      else let out = rev (map (\<lambda>i. ucast (drop_bit (8 * i) x)) [0..<xLen])
           in if xLen = 8 \<or> drop_bit (8 * xLen) x = 0 then Some out else None)"

definition I2OSP :: "u64 list \<Rightarrow> nat \<Rightarrow> bytes option" where
  "I2OSP x xLen =
     (let tmp = to_bytes x; leading = length (takeWhile (\<lambda>b. b = 0) tmp); actual = length tmp - leading
      in if actual > xLen then None else Some (replicate (xLen - actual) 0 @ drop leading tmp))"

definition RSAEP :: "crypto \<Rightarrow> rsa_public_key \<Rightarrow> u64 list \<Rightarrow> u64 list" where
  "RSAEP C pub m = bn_modpow C m (rsa_e pub) (rsa_n pub)"

text \<open>
  \<open>RSADP\<close>: two half-size exponentiations and their combination. The code multiplies \<open>h\<close> by \<open>qInv\<close> in the
  Montgomery domain, with one conversion and one product.
\<close>

definition RSADP :: "crypto \<Rightarrow> rsa_crt_key \<Rightarrow> u64 list \<Rightarrow> u64 list" where
  "RSADP C k c =
     (let m1 = bn_modpow C c (ck_dP k) (ck_p k);
          m2 = bn_modpow C c (ck_dQ k) (ck_q k);
          m2p = (if bn_less m2 (ck_p k) then m2 else bn_mod m2 (ck_p k));
          h = (if bn_less m1 m2p then bn_add m1 (bn_sub (ck_p k) m2p) else bn_sub m1 m2p);
          h2 = mont_mul_mod C h (ck_qInv k) (ck_p k);
          t = bn_mul (ck_q k) h2
      in bn_add m2 t)"

definition RSASP1 :: "crypto \<Rightarrow> rsa_crt_key \<Rightarrow> u64 list \<Rightarrow> u64 list" where
  "RSASP1 C k m = RSADP C k m"

definition RSAVP1 :: "crypto \<Rightarrow> rsa_public_key \<Rightarrow> u64 list \<Rightarrow> u64 list" where
  "RSAVP1 C pub s = RSAEP C pub s"

definition compute_crt_params :: "crypto \<Rightarrow> u64 list \<Rightarrow> u64 list \<Rightarrow> u64 list \<Rightarrow> u64 list \<times> u64 list \<times> u64 list" where
  "compute_crt_params C p q d =
     (let K = length p; p1 = bn_sub p (from_uint64 K 1); q1 = bn_sub q (from_uint64 K 1)
      in (bn_mod d p1, bn_mod d q1, bn_modpow C q (bn_sub p (from_uint64 K 2)) p))"

text \<open>The private operation where the CRT parameters may be missing: keys read from PEM have only \<open>n\<close>, \<open>e\<close>, \<open>d\<close>.\<close>

definition private_op :: "crypto \<Rightarrow> rsa_crt_key \<Rightarrow> u64 list \<Rightarrow> u64 list" where
  "private_op C key m =
     (if is_zero (ck_p key) \<or> is_zero (ck_q key) then bn_modpow C m (ck_d key) (ck_n key) else RSASP1 C key m)"

section \<open>Hashes and masks\<close>

datatype PssHash = PSS_SHA256 | PSS_SHA384 | PSS_SHA512

definition pss_hash_size :: "PssHash \<Rightarrow> nat" where
  "pss_hash_size h = (case h of PSS_SHA256 \<Rightarrow> 32 | PSS_SHA384 \<Rightarrow> 48 | PSS_SHA512 \<Rightarrow> 64)"

definition pss_hash_fn :: "PssHash \<Rightarrow> bytes \<Rightarrow> bytes" where
  "pss_hash_fn h m = (case h of PSS_SHA256 \<Rightarrow> sha256 m | PSS_SHA384 \<Rightarrow> sha384 m | PSS_SHA512 \<Rightarrow> sha512 m)"

definition mgf1_ctx :: "u32 md_ctx" where
  "mgf1_ctx = \<lparr>ctx_h = [], ctx_len = 0, ctx_buf = replicate 64 0, ctx_buf_len = 0\<rparr>"

text \<open>One block: the digest of the seed and the counter, fed to the streaming interface in two updates.\<close>

definition mgf1_digest :: "PssHash \<Rightarrow> bytes \<Rightarrow> bytes \<Rightarrow> bytes" where
  "mgf1_digest h seed C =
     (case h of
        PSS_SHA256 \<Rightarrow> snd (sha256_final (sha256_update (sha256_update (sha256_init mgf1_ctx) seed) C))
      | PSS_SHA384 \<Rightarrow> snd (sha512_final (sha512_update (sha512_update (sha384_init sha512_raw) seed) C))
      | PSS_SHA512 \<Rightarrow> snd (sha512_final (sha512_update (sha512_update (sha512_init sha512_raw) seed) C)))"

definition mgf1_counter :: "nat \<Rightarrow> bytes" where
  "mgf1_counter counter =
     [word_of_nat (counter div 2 ^ 24), word_of_nat (counter div 2 ^ 16), word_of_nat (counter div 2 ^ 8), word_of_nat counter]"

function mgf1_loop :: "PssHash \<Rightarrow> bytes \<Rightarrow> nat \<Rightarrow> nat \<Rightarrow> nat \<Rightarrow> bytes" where
  "mgf1_loop h seed maskLen counter pos =
     (if pos < maskLen then
        let hLen = pss_hash_size h; digest = mgf1_digest h seed (mgf1_counter counter);
            n = (if pos + hLen \<le> maskLen then hLen else maskLen - pos)
        in take n digest @ mgf1_loop h seed maskLen (counter + 1) (pos + n)
      else [])"
  by auto
termination
  by (relation "measure (\<lambda>(h, seed, maskLen, counter, pos). maskLen - pos)")
    (auto simp: pss_hash_size_def Let_def split: PssHash.splits)

declare mgf1_loop.simps [simp del]

definition mgf1 :: "PssHash \<Rightarrow> bytes \<Rightarrow> nat \<Rightarrow> bytes" where
  "mgf1 h mgfSeed maskLen = mgf1_loop h mgfSeed maskLen 0 0"

definition xor_bytes :: "bytes \<Rightarrow> bytes \<Rightarrow> bytes" where
  "xor_bytes a b = map2 (XOR) a b"

section \<open>PKCS #1 v1.5 signatures\<close>

text \<open>The hash length the code reads off the digest-info prefix, and the block it builds.\<close>

definition prefix_hash_len :: "bytes \<Rightarrow> nat" where
  "prefix_hash_len prefix =
     (if length prefix \<ge> 19 \<and> prefix ! 17 = 0x30 then 48
      else if length prefix \<ge> 19 \<and> prefix ! 17 = 0x40 then 64 else 32)"

definition pkcs1v15_em :: "nat \<Rightarrow> bytes \<Rightarrow> bytes \<Rightarrow> bytes" where
  "pkcs1v15_em k prefix digest =
     [0x00, 0x01] @ replicate (k - length prefix - length digest - 3) 0xFF @ [0x00] @ prefix @ digest"

text \<open>
  2048 bits: the digest is always SHA-256, whatever length is copied of it; the padding length is not checked
  before it wraps, and then the fill runs out of the block.
\<close>

definition rsassa_pkcs1v15_sign :: "crypto \<Rightarrow> rsa_crt_key \<Rightarrow> bytes \<Rightarrow> bytes \<Rightarrow> bytes option run" where
  "rsassa_pkcs1v15_sign C key msg prefix =
     (let k = 256; digest = sha256 msg; hLen = prefix_hash_len prefix
      in if hLen > length digest then Throw
         else if length prefix + hLen + 3 > k then Throw
         else if k - length prefix - hLen - 3 < 8 then Ret None
         else Ret (Some (to_bytes (RSASP1 C key (from_bytes 32 (pkcs1v15_em k prefix digest))))))"

definition pkcs1v15_check :: "nat \<Rightarrow> bytes \<Rightarrow> bytes \<Rightarrow> bytes \<Rightarrow> bool" where
  "pkcs1v15_check k prefix digest EM =
     (if EM ! 0 \<noteq> 0x00 \<or> EM ! 1 \<noteq> 0x01 then False
      else
        let n = length (takeWhile (\<lambda>b. b = 0xFF) (drop 2 EM)); pos = 2 + n
        in if pos = k \<or> EM ! pos \<noteq> 0x00 then False
           else if n < 8 then False
           else
             let pos = pos + 1
             in if k - pos < length prefix + length digest then False
                else take (length prefix) (drop pos EM) = prefix
                  \<and> take (length digest) (drop (pos + length prefix) EM) = digest)"

definition rsassa_pkcs1v15_verify :: "crypto \<Rightarrow> rsa_public_key \<Rightarrow> bytes \<Rightarrow> bytes \<Rightarrow> bytes \<Rightarrow> bool" where
  "rsassa_pkcs1v15_verify C pub msg prefix sig =
     pkcs1v15_check 256 prefix (sha256 msg) (to_bytes (RSAVP1 C pub (from_bytes 32 (take 256 sig))))"

definition prefix_hash :: "bytes \<Rightarrow> bytes \<Rightarrow> bytes" where
  "prefix_hash prefix msg =
     (if prefix_hash_len prefix = 48 then sha384 msg else if prefix_hash_len prefix = 64 then sha512 msg else sha256 msg)"

definition rsassa_pkcs1v15_sign3072 :: "crypto \<Rightarrow> rsa_crt_key \<Rightarrow> bytes \<Rightarrow> bytes \<Rightarrow> bytes option" where
  "rsassa_pkcs1v15_sign3072 C key msg prefix =
     (let k = 384; hLen = prefix_hash_len prefix; digest = prefix_hash prefix msg
      in if length prefix + hLen + 3 > k then None
         else if k - length prefix - hLen - 3 < 8 then None
         else Some (to_bytes (private_op C key (from_bytes 48 (pkcs1v15_em k prefix digest)))))"

definition rsassa_pkcs1v15_verify3072 :: "crypto \<Rightarrow> rsa_public_key \<Rightarrow> bytes \<Rightarrow> bytes \<Rightarrow> bytes \<Rightarrow> bool" where
  "rsassa_pkcs1v15_verify3072 C pub msg prefix sig =
     (let s = from_bytes 48 (take 384 sig)
      in if \<not> bn_less s (rsa_n pub) then False
         else pkcs1v15_check 384 prefix (prefix_hash prefix msg) (to_bytes (RSAVP1 C pub s)))"

section \<open>OAEP\<close>

definition oaep_em :: "nat \<Rightarrow> bytes \<Rightarrow> bytes \<Rightarrow> bytes \<Rightarrow> bytes" where
  "oaep_em k seed label msg =
     (let hLen = 32; psLen = k - length msg - 2 * hLen - 2;
          DB = sha256 label @ replicate psLen 0 @ [0x01] @ msg;
          maskedDB = xor_bytes DB (mgf1 PSS_SHA256 seed (k - hLen - 1));
          maskedSeed = xor_bytes seed (mgf1 PSS_SHA256 maskedDB hLen)
      in [0x00] @ maskedSeed @ maskedDB)"

definition oaep_decode :: "nat \<Rightarrow> bytes \<Rightarrow> bytes \<Rightarrow> bytes option" where
  "oaep_decode k label EM =
     (let hLen = 32;
          maskedSeed = take hLen (drop 1 EM); maskedDB = take (k - hLen - 1) (drop (1 + hLen) EM);
          seed = xor_bytes maskedSeed (mgf1 PSS_SHA256 maskedDB hLen);
          DB = xor_bytes maskedDB (mgf1 PSS_SHA256 seed (k - hLen - 1))
      in if take hLen DB \<noteq> sha256 label then None
         else case dropWhile (\<lambda>b. b = 0x00) (drop hLen DB) of
                [] \<Rightarrow> None
              | b # msg \<Rightarrow> if b \<noteq> 0x01 then None else Some msg)"

text \<open>
  The seed of the 2048-bit encryption: each of eight random words is stored in eight bytes at \<open>8 i\<close> of an array
  of 32 bytes.
\<close>

fun store_seed :: "bytes \<Rightarrow> nat \<Rightarrow> u64 list \<Rightarrow> bytes run" where
  "store_seed seed i [] = Ret seed"
| "store_seed seed i (v # vs) =
     (if i * 8 + 7 < length seed
      then store_seed (take (i * 8) seed @ map (\<lambda>j. ucast (drop_bit (8 * j) v)) [0..<8] @ drop (i * 8 + 8) seed) (i + 1) vs
      else Throw)"

definition rsaes_oaep_encrypt :: "crypto \<Rightarrow> rsa_public_key \<Rightarrow> bytes \<Rightarrow> bytes \<Rightarrow> u64 list \<Rightarrow> bytes option run" where
  "rsaes_oaep_encrypt C pub msg label rng =
     (let k = 256; hLen = 32
      in if length msg > k - 2 * hLen - 2 then Ret None
         else case store_seed (replicate 32 0) 0 (take 8 rng) of
                Throw \<Rightarrow> Throw
              | Ret seed \<Rightarrow> Ret (Some (to_bytes (RSAEP C pub (from_bytes 32 (oaep_em k seed label msg))))))"

definition rsaes_oaep_decrypt :: "crypto \<Rightarrow> rsa_crt_key \<Rightarrow> bytes \<Rightarrow> bytes \<Rightarrow> bytes option" where
  "rsaes_oaep_decrypt C key ct label =
     (let c = from_bytes 32 (take 256 ct)
      in if bit_length c > 2048 then None
         else oaep_decode 256 label (to_bytes (RSADP C key c)))"

definition rsaes_oaep_encrypt3072 :: "crypto \<Rightarrow> rsa_public_key \<Rightarrow> bytes \<Rightarrow> bytes \<Rightarrow> bytes \<Rightarrow> bytes option" where
  "rsaes_oaep_encrypt3072 C pub msg label seed =
     (let k = 384; hLen = 32
      in if length msg > k - 2 * hLen - 2 then None
         else Some (to_bytes (RSAEP C pub (from_bytes 48 (oaep_em k seed label msg)))))"

definition rsaes_oaep_decrypt3072 :: "crypto \<Rightarrow> rsa_crt_key \<Rightarrow> bytes \<Rightarrow> bytes \<Rightarrow> bytes option" where
  "rsaes_oaep_decrypt3072 C key ct label =
     (let c = from_bytes 48 (take 384 ct)
      in if \<not> bn_less c (ck_n key) then None
         else oaep_decode 384 label (to_bytes (RSADP C key c)))"

section \<open>PSS\<close>

text \<open>\<open>salt\<close> is what \<open>os_rand_bytes\<close> returns, \<open>None\<close> when it fails.\<close>

definition emsa_pss_encode :: "bytes \<Rightarrow> nat \<Rightarrow> nat \<Rightarrow> nat \<Rightarrow> PssHash \<Rightarrow> bytes option \<Rightarrow> nat \<Rightarrow> bytes option" where
  "emsa_pss_encode mHash hLen emBits sLen hash rnd emLen =
     (if hLen = 0 \<or> hLen > 64 \<or> sLen = 0 \<or> sLen > 64 then None
      else if emLen < hLen + sLen + 2 then None
      else
        let clearBits = 8 * emLen - emBits
        in if clearBits \<ge> 8 then None
           else case rnd of None \<Rightarrow> None
                | Some salt \<Rightarrow>
                    let H = pss_hash_fn hash (replicate 8 0 @ mHash @ salt);
                        dbLen = emLen - hLen - 1; psLen = emLen - sLen - hLen - 2;
                        DB = replicate psLen 0 @ [0x01] @ salt;
                        DB = xor_bytes DB (mgf1 hash H dbLen);
                        topMask = drop_bit clearBits (0xFF :: u8);
                        DB = DB[0 := DB ! 0 AND topMask]
                    in Some (DB @ H @ [0xBC]))"

definition emsa_pss_verify :: "bytes \<Rightarrow> nat \<Rightarrow> nat \<Rightarrow> nat \<Rightarrow> PssHash \<Rightarrow> bytes \<Rightarrow> nat \<Rightarrow> bool" where
  "emsa_pss_verify mHash hLen emBits sLen hash EM emLen =
     (if hLen = 0 \<or> hLen > 64 \<or> sLen = 0 \<or> sLen > 64 then False
      else if emLen < hLen + sLen + 2 then False
      else
        let clearBits = 8 * emLen - emBits
        in if clearBits \<ge> 8 then False
           else if EM ! (emLen - 1) \<noteq> 0xBC then False
           else
             let dbLen = emLen - hLen - 1; maskedDB = take dbLen EM; H = take hLen (drop dbLen EM);
                 topMask = drop_bit clearBits (0xFF :: u8)
             in if maskedDB ! 0 AND NOT topMask \<noteq> 0 then False
                else
                  let DB = xor_bytes maskedDB (mgf1 hash H dbLen); DB = DB[0 := DB ! 0 AND topMask];
                      psLen = emLen - sLen - hLen - 2
                  in if \<not> (\<forall>b\<in>set (take psLen DB). b = 0) then False
                     else if DB ! psLen \<noteq> 0x01 then False
                     else take hLen (pss_hash_fn hash (replicate 8 0 @ mHash @ take sLen (drop (psLen + 1) DB))) = H)"

definition salt_len :: "nat \<Rightarrow> nat \<Rightarrow> nat" where
  "salt_len saltLen hLen = (if saltLen = 0 then hLen else saltLen)"

text \<open>
  Signing with \<open>K\<close> limbs. The 2048- and 3072-bit functions fall back to the full exponentiation when the CRT
  parameters are missing (\<open>private_op\<close>), the 4096-bit one does not (\<open>RSASP1\<close>).
\<close>

definition pss_sign_with ::
  "(u64 list \<Rightarrow> u64 list) \<Rightarrow> nat \<Rightarrow> bytes \<Rightarrow> nat \<Rightarrow> PssHash \<Rightarrow> bytes option \<Rightarrow> bytes option" where
  "pss_sign_with op K msg saltLen hash rnd =
     (let hLen = pss_hash_size hash; sLen = salt_len saltLen hLen; mHash = pss_hash_fn hash msg
      in case emsa_pss_encode mHash hLen (64 * K - 1) sLen hash rnd (8 * K) of
           None \<Rightarrow> None
         | Some EM \<Rightarrow> Some (to_bytes (op (from_bytes K EM))))"

definition rsassa_pss_sign2048 :: "crypto \<Rightarrow> rsa_crt_key \<Rightarrow> bytes \<Rightarrow> nat \<Rightarrow> PssHash \<Rightarrow> bytes option \<Rightarrow> bytes option" where
  "rsassa_pss_sign2048 C key = pss_sign_with (private_op C key) 32"

definition rsassa_pss_sign3072 :: "crypto \<Rightarrow> rsa_crt_key \<Rightarrow> bytes \<Rightarrow> nat \<Rightarrow> PssHash \<Rightarrow> bytes option \<Rightarrow> bytes option" where
  "rsassa_pss_sign3072 C key = pss_sign_with (private_op C key) 48"

definition rsassa_pss_sign4096 :: "crypto \<Rightarrow> rsa_crt_key \<Rightarrow> bytes \<Rightarrow> nat \<Rightarrow> PssHash \<Rightarrow> bytes option \<Rightarrow> bytes option" where
  "rsassa_pss_sign4096 C key = pss_sign_with (RSASP1 C key) 64"

definition pss_verify_with :: "crypto \<Rightarrow> nat \<Rightarrow> rsa_public_key \<Rightarrow> bytes \<Rightarrow> bytes \<Rightarrow> nat \<Rightarrow> PssHash \<Rightarrow> bool" where
  "pss_verify_with C K pub msg sig saltLen hash =
     (let hLen = pss_hash_size hash; sLen = salt_len saltLen hLen; s = from_bytes K (take (8 * K) sig)
      in if \<not> bn_less s (rsa_n pub) then False
         else emsa_pss_verify (pss_hash_fn hash msg) hLen (64 * K - 1) sLen hash (to_bytes (RSAVP1 C pub s)) (8 * K))"

definition rsassa_pss_verify2048 :: "crypto \<Rightarrow> rsa_public_key \<Rightarrow> bytes \<Rightarrow> bytes \<Rightarrow> nat \<Rightarrow> PssHash \<Rightarrow> bool" where
  "rsassa_pss_verify2048 C = pss_verify_with C 32"
definition rsassa_pss_verify3072 :: "crypto \<Rightarrow> rsa_public_key \<Rightarrow> bytes \<Rightarrow> bytes \<Rightarrow> nat \<Rightarrow> PssHash \<Rightarrow> bool" where
  "rsassa_pss_verify3072 C = pss_verify_with C 48"
definition rsassa_pss_verify4096 :: "crypto \<Rightarrow> rsa_public_key \<Rightarrow> bytes \<Rightarrow> bytes \<Rightarrow> nat \<Rightarrow> PssHash \<Rightarrow> bool" where
  "rsassa_pss_verify4096 C = pss_verify_with C 64"

section \<open>Blocks and numbers\<close>

lemma to_from_bytes: "length data = 8 * K \<Longrightarrow> to_bytes (from_bytes K data) = data"
  using be_bytes_be_val [of data] by (simp add: to_bytes_be from_bytes_val)

lemma from_to_bytes: "length d = K \<Longrightarrow> from_bytes K (take (8 * K) (to_bytes d)) = d"
proof -
  assume d: "length d = K"
  have "bn_val (from_bytes K (to_bytes d)) = bn_val d"
    using bn_val_less [of d] d by (simp add: from_bytes_val to_bytes_be be_val_be_bytes power_mult power_mult [of 256 8, symmetric])
  then show ?thesis using d bn_val_inject [of "from_bytes K (to_bytes d)" d] by (simp add: from_bytes_val to_bytes_be)
qed

lemma length_to_bytes [simp]: "length (to_bytes d) = 8 * length d"
  by (simp add: to_bytes_be)

lemma length_from_bytes [simp]: "length (from_bytes K data) = K"
  by (simp add: from_bytes_val)

lemma length_bn_modpow [simp]: "length (bn_modpow C b e n) = length n"
  by (simp add: bn_modpow_def)

lemma I2OSP_exact: "I2OSP x xLen = (if bn_val x < 256 ^ xLen then Some (be_bytes xLen (bn_val x)) else None)"
proof -
  define tmp where "tmp = to_bytes x"
  define z where "z = length (takeWhile (\<lambda>b. b = 0) tmp)"
  have val: "be_val tmp = bn_val x"
  proof -
    have "(256 :: nat) ^ (8 * length x) = 2 ^ (64 * length x)" by (simp add: power_mult)
    then show ?thesis using bn_val_less [of x] by (simp add: tmp_def to_bytes_be be_val_be_bytes)
  qed
  have split: "tmp = replicate z 0 @ drop z tmp"
  proof -
    have "replicate z 0 = takeWhile (\<lambda>b. b = 0) tmp"
      unfolding z_def by (rule replicate_length_same) (auto dest: set_takeWhileD)
    moreover have "drop z tmp = dropWhile (\<lambda>b. b = 0) tmp" by (simp add: z_def dropWhile_eq_drop)
    ultimately show ?thesis by simp
  qed
  have zv: "be_val (replicate n 0 @ bs) = be_val bs" for n bs by (induction n) (simp_all add: be_val_def)
  have v: "be_val (drop z tmp) = bn_val x" using zv [of z "drop z tmp"] val by (simp only: split [symmetric])
  have fits: "bn_val x < 256 ^ xLen \<longleftrightarrow> length (drop z tmp) \<le> xLen"
  proof
    assume "length (drop z tmp) \<le> xLen"
    then show "bn_val x < 256 ^ xLen"
      using be_val_less [of "drop z tmp"] v by (metis le_trans less_le_trans one_le_numeral power_increasing)
  next
    assume lt: "bn_val x < 256 ^ xLen"
    show "length (drop z tmp) \<le> xLen"
    proof (cases "drop z tmp")
      case (Cons b bs)
      have "drop z tmp = dropWhile (\<lambda>b. b = 0) tmp" by (simp add: z_def dropWhile_eq_drop)
      then have dw: "dropWhile (\<lambda>b. b = 0) tmp = b # bs" using Cons by simp
      then have "b \<noteq> 0" using hd_dropWhile [of "\<lambda>b. b = 0" tmp] unfolding dw by simp
      then have "0 < unat b" by (simp add: unat_gt_0)
      have "256 ^ length bs \<le> unat b * 256 ^ length bs" using \<open>0 < unat b\<close> by simp
      also have "\<dots> \<le> bn_val x" using v Cons by (simp add: be_val_Cons)
      finally have "(256 :: nat) ^ length bs < 256 ^ xLen" using lt by (rule le_less_trans)
      then have "length bs < xLen" by (simp add: power_strict_increasing_iff)
      then show ?thesis using Cons by simp
    qed simp
  qed
  have "be_bytes xLen (bn_val x) = replicate (xLen - length (drop z tmp)) 0 @ drop z tmp" if "length (drop z tmp) \<le> xLen"
    using be_bytes_be_val [of "replicate (xLen - length (drop z tmp)) 0 @ drop z tmp"] that by (simp add: zv v)
  then show ?thesis using fits by (auto simp: I2OSP_def tmp_def [symmetric] z_def [symmetric] Let_def)
qed

section \<open>Masks\<close>

lemma mgf1_digest_hash: "mgf1_digest h seed C = pss_hash_fn h (seed @ C)"
proof -
  have "length (ctx_buf mgf1_ctx) = 64" by (simp add: mgf1_ctx_def)
  then show ?thesis
    by (cases h) (simp_all add: mgf1_digest_def pss_hash_fn_def sha256_stream.final_update2 sha256_eq_spec
      sha512_stream.final_update2 [OF length_sha512_raw] sha384_stream.final_update2 [OF length_sha512_raw]
      sha512_eq_spec sha384_eq_spec)
qed

lemma length_pss_hash [simp]: "length (pss_hash_fn h m) = pss_hash_size h"
  by (cases h) (simp_all add: pss_hash_fn_def pss_hash_size_def sha256_eq_spec sha384_eq_spec sha512_eq_spec
    sha256_stream.length_hash sha384_stream.length_hash sha512_stream.length_hash)

lemma length_mgf1_loop: "length (mgf1_loop h seed maskLen counter pos) = maskLen - pos"
proof (induction h seed maskLen counter pos rule: mgf1_loop.induct)
  case (1 h seed maskLen counter pos)
  show ?case
  proof (cases "pos < maskLen")
    case True
    then show ?thesis using 1 [OF True refl refl refl]
      by (subst mgf1_loop.simps) (auto simp: mgf1_digest_hash min_def Let_def)
  qed (subst mgf1_loop.simps, simp)
qed

lemma length_mgf1 [simp]: "length (mgf1 h seed n) = n"
  by (simp add: mgf1_def length_mgf1_loop)

lemma length_xor_bytes [simp]: "length (xor_bytes a b) = min (length a) (length b)"
  by (simp add: xor_bytes_def)

lemma xor_bytes_cancel: "length a = length b \<Longrightarrow> xor_bytes (xor_bytes a b) b = a"
  by (induction a b rule: list_induct2) (simp_all add: xor_bytes_def xor.assoc)

section \<open>OAEP\<close>

lemma length_sha256 [simp]: "length (sha256 m) = 32"
  by (simp add: sha256_eq_spec sha256_stream.length_hash)

lemma length_oaep_em:
  "length seed = 32 \<Longrightarrow> length msg \<le> k - 66 \<Longrightarrow> 66 \<le> k \<Longrightarrow> length (oaep_em k seed label msg) = k"
  by (simp add: oaep_em_def Let_def)

lemma oaep_decode_em:
  assumes "length seed = 32" "length msg \<le> k - 66" "66 \<le> k"
  shows "oaep_decode k label (oaep_em k seed label msg) = Some msg"
proof -
  define DB where "DB = sha256 label @ replicate (k - length msg - 66) 0 @ [0x01] @ msg"
  define mDB where "mDB = xor_bytes DB (mgf1 PSS_SHA256 seed (k - 33))"
  have DB: "length DB = k - 33" "length mDB = k - 33" using assms by (simp_all add: DB_def mDB_def)
  have em: "oaep_em k seed label msg = 0x00 # xor_bytes seed (mgf1 PSS_SHA256 mDB 32) @ mDB"
    by (simp add: oaep_em_def Let_def DB_def mDB_def diff_diff_left add.commute)
  have seed: "xor_bytes (xor_bytes seed (mgf1 PSS_SHA256 mDB 32)) (mgf1 PSS_SHA256 mDB 32) = seed"
    using assms(1) by (simp add: xor_bytes_cancel)
  have db: "xor_bytes mDB (mgf1 PSS_SHA256 seed (k - 33)) = DB" using DB unfolding mDB_def by (simp add: xor_bytes_cancel)
  have dw: "dropWhile (\<lambda>b. b = 0x00) (replicate n 0 @ 0x01 # msg) = 0x01 # msg" for n by (induction n) simp_all
  then have "dropWhile (\<lambda>b. b = 0x00) (drop 32 DB) = 0x01 # msg" by (simp add: DB_def)
  moreover have "take 32 DB = sha256 label" by (simp add: DB_def)
  ultimately show ?thesis using assms(1) DB by (simp add: oaep_decode_def em seed db Let_def)
qed


section \<open>PSS\<close>

lemma top_mask: "c < 8 \<Longrightarrow> bit (drop_bit c (0xFF :: u8)) i \<longleftrightarrow> i + c < 8"
proof -
  assume c: "c < 8"
  have e: "(0xFF :: u8) = mask 8" by (simp add: mask_eq_exp_minus_1)
  have "bit (mask 8 :: u8) n \<longleftrightarrow> n < 8" for n by (auto simp: bit_mask_iff)
  then show ?thesis unfolding e bit_drop_bit_eq by (simp add: add.commute)
qed

lemma masked_and: "(x AND y) AND NOT y = 0" "((x AND y) XOR z) AND y = (x XOR z) AND y" for x y z :: u8
  by (auto intro!: bit_word_eqI simp: bit_simps)

lemma emsa_pss_encode_length:
  "emsa_pss_encode mHash hLen emBits sLen hash rnd emLen = Some EM \<Longrightarrow> hLen = pss_hash_size hash \<Longrightarrow>
   rnd = Some salt \<Longrightarrow> length salt = sLen \<Longrightarrow> length EM = emLen"
  by (auto simp: emsa_pss_encode_def Let_def split: if_splits)

lemma emsa_pss_roundtrip:
  assumes enc: "emsa_pss_encode mHash hLen emBits sLen hash (Some salt) emLen = Some EM"
    and h: "hLen = pss_hash_size hash" and s: "length salt = sLen"
  shows "emsa_pss_verify mHash hLen emBits sLen hash EM emLen"
proof -
  define clear where "clear = 8 * emLen - emBits"
  define H where "H = pss_hash_fn hash (replicate 8 0 @ mHash @ salt)"
  define dbLen psLen where "dbLen = emLen - hLen - 1" and "psLen = emLen - sLen - hLen - 2"
  define DB where "DB = replicate psLen 0 @ [0x01] @ salt"
  define X where "X = xor_bytes DB (mgf1 hash H dbLen)"
  define top where "top = drop_bit clear (0xFF :: u8)"
  define M where "M = X[0 := X ! 0 AND top]"
  have c: "hLen \<noteq> 0" "hLen \<le> 64" "sLen \<noteq> 0" "sLen \<le> 64" "hLen + sLen + 2 \<le> emLen" "clear < 8"
    and EM: "EM = M @ H @ [0xBC]"
    using enc by (auto simp: emsa_pss_encode_def Let_def H_def dbLen_def psLen_def DB_def X_def top_def M_def clear_def split: if_splits)
  have dl: "dbLen = psLen + 1 + sLen" using c(5) by (simp add: dbLen_def psLen_def)
  have len: "length DB = dbLen" "length X = dbLen" "length M = dbLen" "length H = hLen"
    using s h by (simp_all add: DB_def X_def M_def H_def dl)
  have ps: "emLen = psLen + 1 + sLen + hLen + 1" using dl c(5) by (simp add: psLen_def)
  have nth: "EM ! (emLen - 1) = 0xBC" "take dbLen EM = M" "take hLen (drop dbLen EM) = H"
    using len ps dl by (simp_all add: EM nth_append)
  have M0: "M ! 0 AND NOT top = 0" using len(2) dl by (simp add: M_def masked_and)
  have "xor_bytes M (mgf1 hash H dbLen) = DB[0 := (M ! 0) XOR (mgf1 hash H dbLen ! 0)]"
  proof (rule nth_equalityI)
    fix i assume "i < length (xor_bytes M (mgf1 hash H dbLen))"
    then have i: "i < dbLen" using len by simp
    show "xor_bytes M (mgf1 hash H dbLen) ! i = DB[0 := (M ! 0) XOR (mgf1 hash H dbLen ! 0)] ! i"
      using i len by (cases i) (simp_all add: xor_bytes_def M_def X_def xor.assoc)
  qed (use len in simp)
  moreover have "((M ! 0) XOR (mgf1 hash H dbLen ! 0)) AND top = DB ! 0 AND top"
  proof -
    have "M ! 0 = (DB ! 0 XOR mgf1 hash H dbLen ! 0) AND top" using len dl by (simp add: M_def X_def xor_bytes_def)
    then show ?thesis by (simp add: masked_and xor.assoc)
  qed
  moreover have "DB ! 0 AND top = DB ! 0"
  proof (cases psLen)
    case 0
    have "(0x01 :: u8) AND top = 0x01"
      using c(6) by (intro bit_word_eqI) (auto simp: bit_and_iff bit_1_iff top_def top_mask)
    then show ?thesis by (simp add: DB_def 0)
  qed (simp add: DB_def)
  ultimately have unmasked: "(xor_bytes M (mgf1 hash H dbLen))[0 := xor_bytes M (mgf1 hash H dbLen) ! 0 AND top] = DB"
    using len dl by simp
  have "take psLen DB = replicate psLen 0" "DB ! psLen = 0x01" "take sLen (drop (psLen + 1) DB) = salt"
    using s by (simp_all add: DB_def nth_append)
  then show ?thesis
    unfolding emsa_pss_verify_def Let_def clear_def [symmetric] dbLen_def [symmetric] psLen_def [symmetric]
      top_def [symmetric] nth unmasked
    using c M0 len(4) by (simp add: H_def)
qed

lemma emsa_pss_bound:
  assumes "emsa_pss_encode mHash hLen (64 * K - 1) sLen hash (Some salt) (8 * K) = Some EM"
    "hLen = pss_hash_size hash" "length salt = sLen"
  shows "be_val EM < 2 ^ (64 * K - 1)"
proof -
  have l: "length EM = 8 * K" using emsa_pss_encode_length [OF assms(1,2) refl assms(3)] .
  have K: "0 < K" using assms(1) by (cases K) (auto simp: emsa_pss_encode_def split: if_splits)
  have cl: "8 * (8 * K) - (64 * K - 1) = 1" using K by simp
  define top :: u8 where "top = drop_bit 1 0xFF"
  have "EM ! 0 AND NOT top = 0"
    using emsa_pss_roundtrip [OF assms] K
    by (auto simp: emsa_pss_verify_def cl Let_def top_def split: if_splits)
  then have "bit (EM ! 0 AND NOT top) i = False" for i by simp
  then have "bit (EM ! 0) i \<Longrightarrow> bit top i \<or> 8 \<le> i" for i by (auto simp: bit_and_iff bit_not_iff)
  moreover have "bit (EM ! 0) i \<Longrightarrow> i < 8" for i by (cases "i < 8") (auto simp: not_less)
  ultimately have "bit (EM ! 0) i \<Longrightarrow> i < 7" for i using top_mask [of 1 i] by (fastforce simp: top_def)
  then have "take_bit 7 (EM ! 0) = EM ! 0" by (intro bit_word_eqI) (auto simp: bit_take_bit_iff)
  then have "unat (EM ! 0) = take_bit 7 (unat (EM ! 0))" by (metis unsigned_take_bit_eq)
  then have e0: "unat (EM ! 0) < 2 ^ 7" by (metis take_bit_nat_less_exp)
  obtain e es where EM: "EM = e # es" using l K by (cases EM) auto
  have es: "length es = 8 * K - 1" using l EM by simp
  have "be_val es < 256 ^ length es" by (rule be_val_less)
  moreover have "unat e + 1 \<le> 2 ^ 7" using e0 EM by simp
  then have "(unat e + 1) * 256 ^ length es \<le> 2 ^ 7 * 256 ^ length es" by (rule mult_le_mono1)
  ultimately have "be_val EM < 2 ^ 7 * 256 ^ length es" by (simp only: EM be_val_Cons add_mult_distrib mult_1)
  also have "2 ^ 7 * 256 ^ length es = (2 :: nat) ^ (7 + 8 * (8 * K - 1))"
    unfolding es power_add power_mult by simp
  also have "7 + 8 * (8 * K - 1) = 64 * K - 1" using K by simp
  finally show ?thesis .
qed

section \<open>Key pairs\<close>

text \<open>
  What the schemes ask of a key pair: the two primitives are inverse to each other below a modulus whose top bit
  is set.
\<close>

definition rsa_key_pair :: "crypto \<Rightarrow> nat \<Rightarrow> rsa_public_key \<Rightarrow> rsa_crt_key \<Rightarrow> bool" where
  "rsa_key_pair C K pub key \<longleftrightarrow>
     length (rsa_n pub) = K \<and> ck_n key = rsa_n pub \<and> 2 ^ (64 * K - 1) \<le> bn_val (rsa_n pub)
     \<and> \<not> is_zero (ck_p key) \<and> \<not> is_zero (ck_q key)
     \<and> (\<forall>m. length m = K \<and> bn_val m < bn_val (rsa_n pub) \<longrightarrow>
          length (RSADP C key m) = K \<and> bn_val (RSADP C key m) < bn_val (rsa_n pub)
          \<and> RSAEP C pub (RSADP C key m) = m
          \<and> bn_val (RSAEP C pub m) < bn_val (rsa_n pub) \<and> RSADP C key (RSAEP C pub m) = m)"

lemma length_RSAEP: "length (RSAEP C pub m) = length (rsa_n pub)"
  by (simp add: RSAEP_def)

lemma block_below_modulus:
  assumes "rsa_key_pair C K pub key" "length EM = 8 * K" "be_val EM < 2 ^ (64 * K - 1)"
  shows "bn_val (from_bytes K EM) < bn_val (rsa_n pub)"
  using assms by (simp add: rsa_key_pair_def from_bytes_val)

lemma zero_block_bound:
  assumes "length EM = 8 * K" "0 < K" "EM ! 0 = 0"
  shows "be_val EM < 2 ^ (64 * K - 1)"
proof -
  obtain es where EM: "EM = 0 # es" using assms by (cases EM) auto
  have "be_val EM < 256 ^ length es" using be_val_less [of es] by (simp add: EM be_val_Cons)
  also have "256 ^ length es = (2 :: nat) ^ (8 * (8 * K - 1))" using assms(1) EM by (simp add: power_mult)
  also have "\<dots> \<le> 2 ^ (64 * K - 1)" using assms(2) by (intro power_increasing) simp_all
  finally show ?thesis .
qed

lemma sign_verify_block:
  assumes kp: "rsa_key_pair C K pub key" and EM: "length EM = 8 * K" "be_val EM < 2 ^ (64 * K - 1)"
  defines "sig \<equiv> to_bytes (RSADP C key (from_bytes K EM))"
  shows "bn_less (from_bytes K (take (8 * K) sig)) (rsa_n pub)"
    and "to_bytes (RSAVP1 C pub (from_bytes K (take (8 * K) sig))) = EM"
proof -
  let ?m = "from_bytes K EM"
  have m: "length ?m = K" "bn_val ?m < bn_val (rsa_n pub)" using block_below_modulus [OF kp EM] by simp_all
  then have d: "length (RSADP C key ?m) = K" "bn_val (RSADP C key ?m) < bn_val (rsa_n pub)" "RSAEP C pub (RSADP C key ?m) = ?m"
    using kp by (auto simp: rsa_key_pair_def)
  have s: "from_bytes K (take (8 * K) sig) = RSADP C key ?m" using from_to_bytes [OF d(1)] by (simp add: sig_def)
  show "bn_less (from_bytes K (take (8 * K) sig)) (rsa_n pub)"
    using d kp by (simp add: s bn_less_val rsa_key_pair_def)
  show "to_bytes (RSAVP1 C pub (from_bytes K (take (8 * K) sig))) = EM"
    using d(3) EM(1) by (simp add: s RSAVP1_def to_from_bytes)
qed

lemma private_op_crt: "rsa_key_pair C K pub key \<Longrightarrow> private_op C key m = RSADP C key m"
  by (simp add: private_op_def RSASP1_def rsa_key_pair_def)

section \<open>PKCS #1 blocks\<close>

lemma pkcs1v15_em_props:
  assumes "length prefix + length digest + 11 \<le> k"
  shows "length (pkcs1v15_em k prefix digest) = k" "pkcs1v15_em k prefix digest ! 0 = 0"
    "pkcs1v15_check k prefix digest (pkcs1v15_em k prefix digest)"
proof -
  define n where "n = k - length prefix - length digest - 3"
  have k: "k = n + 3 + length prefix + length digest" and n8: "8 \<le> n" using assms unfolding n_def by linarith+
  have em: "pkcs1v15_em k prefix digest = [0x00, 0x01] @ replicate n 0xFF @ [0x00] @ prefix @ digest"
    by (simp add: pkcs1v15_em_def k)
  show "length (pkcs1v15_em k prefix digest) = k" unfolding em by (simp add: k)
  show "pkcs1v15_em k prefix digest ! 0 = 0" unfolding em by simp
  have "takeWhile (\<lambda>b. b = 0xFF) (replicate n 0xFF @ 0x00 # r) = replicate n (0xFF :: u8)" for r by (induction n) simp_all
  then have n: "length (takeWhile (\<lambda>b. b = 0xFF) (drop 2 (pkcs1v15_em k prefix digest))) = n" by (simp add: em)
  have "drop (2 + n + 1) (pkcs1v15_em k prefix digest) = prefix @ digest" "pkcs1v15_em k prefix digest ! (2 + n) = 0x00"
    "drop (2 + n + 1 + length prefix) (pkcs1v15_em k prefix digest) = digest"
    by (simp_all add: em nth_append)
  then show "pkcs1v15_check k prefix digest (pkcs1v15_em k prefix digest)"
    unfolding pkcs1v15_check_def Let_def n using n8 em by (auto simp: k)
qed

section \<open>Decryption by the Chinese remainder theorem\<close>

text \<open>The operands of the two additions of \<open>RSADP\<close>, where \<open>bn_add\<close> could lose a carry.\<close>

definition RSADP_adds :: "crypto \<Rightarrow> rsa_crt_key \<Rightarrow> u64 list \<Rightarrow> (u64 list \<times> u64 list) list" where
  "RSADP_adds C k c =
     (let m1 = bn_modpow C c (ck_dP k) (ck_p k);
          m2 = bn_modpow C c (ck_dQ k) (ck_q k);
          m2p = (if bn_less m2 (ck_p k) then m2 else bn_mod m2 (ck_p k));
          tmp = bn_sub (ck_p k) m2p;
          h = (if bn_less m1 m2p then bn_add m1 tmp else bn_sub m1 m2p);
          t = bn_mul (ck_q k) (mont_mul_mod C h (ck_qInv k) (ck_p k))
      in (if bn_less m1 m2p then [(m1, tmp)] else []) @ [(m2, t)])"

definition modular_arithmetic :: "crypto \<Rightarrow> bool" where
  "modular_arithmetic C \<longleftrightarrow> (\<forall>b e n. rsa_modpow C b e n = b ^ e mod n) \<and> (\<forall>a b n. rsa_modmul C a b n = a * b mod n)"

lemma garner:
  fixes p q m1 m2 h x :: nat
  assumes pq: "coprime p q" "1 < p" and inv: "qInv * q mod p = 1"
    and h: "(h + m2) mod p = m1" and m2: "m2 < q" "x mod p = m1" "x mod q = m2"
  shows "m2 + q * (h * qInv mod p) = x mod (p * q)"
proof -
  define r where "r = m2 + q * (h * qInv mod p)"
  have p0: "0 < p" using pq(2) by simp
  have "h * qInv mod p + 1 \<le> p" using p0 by (simp add: Suc_leI)
  then have "q * (h * qInv mod p + 1) \<le> q * p" by (rule mult_le_mono2)
  then have lt: "r < p * q" using m2(1) by (simp add: r_def algebra_simps)
  have "r mod q = x mod q" using m2 by (simp add: r_def)
  moreover have "q * (h * qInv mod p) mod p = h * (qInv * q mod p) mod p"
    by (metis mod_mult_right_eq mult.assoc mult.commute)
  then have "r mod p = (m2 + h * (qInv * q mod p)) mod p" unfolding r_def by (metis mod_add_right_eq)
  then have "r mod p = x mod p" using h m2(2) inv by (simp add: add.commute)
  ultimately have "int q dvd int x - int r" "int p dvd int x - int r"
    by (metis mod_eq_dvd_iff of_nat_mod)+
  moreover have "coprime (int p) (int q)" using pq(1) by simp
  ultimately have "int p * int q dvd int x - int r" by (intro divides_mult)
  then have "int x mod (int p * int q) = int r mod (int p * int q)" by (simp add: mod_eq_dvd_iff)
  then have "x mod (p * q) = r mod (p * q)" by (metis of_nat_eq_iff of_nat_mod of_nat_mult)
  then show ?thesis using lt by (simp add: r_def)
qed

lemma RSADP_val:
  assumes K: "length (ck_p k) = K" "length (ck_q k) = K" "length (ck_qInv k) = K" "length c = K"
    and C: "modular_arithmetic C"
    and pq: "coprime (bn_val (ck_p k)) (bn_val (ck_q k))" "1 < bn_val (ck_p k)" "1 < bn_val (ck_q k)"
      "bn_val (ck_p k) * bn_val (ck_q k) \<le> 2 ^ (64 * K)"
    and inv: "bn_val (ck_qInv k) * bn_val (ck_q k) mod bn_val (ck_p k) = 1"
    and x: "x mod bn_val (ck_p k) = bn_val c ^ bn_val (ck_dP k) mod bn_val (ck_p k)"
      "x mod bn_val (ck_q k) = bn_val c ^ bn_val (ck_dQ k) mod bn_val (ck_q k)"
    and carry: "\<forall>(a, b)\<in>set (RSADP_adds C k c). \<not> carry_lost 0 a b"
  shows "bn_val (RSADP C k c) = x mod (bn_val (ck_p k) * bn_val (ck_q k)) \<and> length (RSADP C k c) = K"
proof -
  define P Q where "P = bn_val (ck_p k)" and "Q = bn_val (ck_q k)"
  define m1 m2 where "m1 = bn_modpow C c (ck_dP k) (ck_p k)" and "m2 = bn_modpow C c (ck_dQ k) (ck_q k)"
  define m2p where "m2p = (if bn_less m2 (ck_p k) then m2 else bn_mod m2 (ck_p k))"
  define tmp where "tmp = bn_sub (ck_p k) m2p"
  define h where "h = (if bn_less m1 m2p then bn_add m1 tmp else bn_sub m1 m2p)"
  define h2 where "h2 = mont_mul_mod C h (ck_qInv k) (ck_p k)"
  define t where "t = bn_mul (ck_q k) h2"
  have D: "RSADP C k c = bn_add m2 t"
    by (simp add: RSADP_def Let_def m1_def m2_def m2p_def tmp_def h_def h2_def t_def)
  have "RSADP_adds C k c = (if bn_less m1 m2p then [(m1, tmp)] else []) @ [(m2, t)]"
    by (simp only: RSADP_adds_def Let_def m1_def m2_def m2p_def tmp_def h_def h2_def t_def)
  then have carry': "bn_less m1 m2p \<Longrightarrow> \<not> carry_lost 0 m1 tmp" "\<not> carry_lost 0 m2 t" using carry by auto
  have lim: "P < 2 ^ (64 * K)" "Q < 2 ^ (64 * K)" using bn_val_less [of "ck_p k"] bn_val_less [of "ck_q k"] K by (simp_all add: P_def Q_def)
  have of: "bn_val (bn_of K v) = v" if "v < 2 ^ (64 * K)" for v using that by (simp add: bn_val_of)
  have P1: "1 < P" and Q1: "1 < Q" using pq by (simp_all add: P_def Q_def)
  have l: "length m1 = K" "length m2 = K" using K by (simp_all add: m1_def m2_def)
  have "bn_val c ^ bn_val (ck_dP k) mod P < P" "bn_val c ^ bn_val (ck_dQ k) mod Q < Q" using P1 Q1 by simp_all
  then have v1: "bn_val m1 = x mod P" and v2: "bn_val m2 = x mod Q"
    using C x lim by (simp_all add: m1_def m2_def bn_modpow_def K P_def [symmetric] Q_def [symmetric] modular_arithmetic_def of)
  have v2p: "bn_val m2p = bn_val m2 mod P" and l2p: "length m2p = K"
    using bn_divmod_val [of m2 "ck_p k"] P1 l K
    by (auto simp: m2p_def bn_less_val bn_mod_def P_def)
  then have s: "bn_val m2p < P" using P1 by simp
  have vt: "bn_val tmp = P - bn_val m2p" and lt: "length tmp = K"
    using bn_sub_val [of "ck_p k" m2p] s K l2p by (simp_all add: tmp_def P_def bn_sub_def length_sub_loop)
  have vh: "bn_val h < P \<and> (bn_val h + bn_val m2) mod P = x mod P \<and> length h = K"
  proof (cases "bn_val m1 < bn_val m2p")
    case True
    have "bn_val m1 + (P - bn_val m2p) < P" using True s by simp
    then have "bn_val h = bn_val m1 + (P - bn_val m2p)"
      using add_loop_val [of m1 tmp 0] carry'(1) l lt vt True l2p lim by (simp add: h_def bn_less_val bn_add_def)
    moreover have "(bn_val m1 + (P - bn_val m2p) + bn_val m2) mod P = (bn_val m1 + (P - bn_val m2p) + bn_val m2p) mod P"
      unfolding v2p by (simp add: mod_simps)
    ultimately show ?thesis
      using s True l l2p lt v1 P1 by (simp add: h_def bn_less_val bn_add_def length_add_loop)
  next
    case False
    then have "bn_val h = bn_val m1 - bn_val m2p" using bn_sub_val [of m1 m2p] l l2p by (simp add: h_def bn_less_val)
    moreover have "(bn_val m1 - bn_val m2p + bn_val m2) mod P = (bn_val m1 - bn_val m2p + bn_val m2p) mod P"
      unfolding v2p by (simp add: mod_simps)
    ultimately show ?thesis
      using False l l2p v1 P1 by (simp add: h_def bn_less_val bn_sub_def length_sub_loop less_imp_diff_less)
  qed
  have vh2: "bn_val h2 = bn_val h * bn_val (ck_qInv k) mod P" and lh2: "length h2 = K"
    using C P1 lim K by (simp_all add: h2_def mont_mul_mod_def modular_arithmetic_def P_def [symmetric] of less_trans [OF mod_less_divisor])
  have g: "x mod Q + Q * (bn_val h * bn_val (ck_qInv k) mod P) = x mod (P * Q)"
    using garner [of P Q "bn_val (ck_qInv k)" "bn_val h" "x mod Q" "x mod P" x] pq inv vh v2 Q1
    by (simp add: P_def [symmetric] Q_def [symmetric])
  have "x mod (P * Q) < P * Q" using P1 Q1 by simp
  then have small: "x mod (P * Q) < 2 ^ (64 * K)" using pq(4) by (simp add: P_def Q_def)
  then have "bn_val t = Q * bn_val h2"
    using bn_mul_val [of "ck_q k" h2] K lh2 g vh2 by (simp add: t_def Q_def)
  moreover have "length t = K" using K lh2 by (simp add: t_def length_bn_mul)
  ultimately show ?thesis
    using add_loop_val [of m2 t 0] carry'(2) l v2 vh2 g small
    by (simp add: D bn_add_def P_def [symmetric] Q_def [symmetric] length_add_loop)
qed


section \<open>A toy instance\<close>

text \<open>Exponentiation that leaves its base, to show that the hypotheses on key pairs can hold.\<close>

definition id_crypto :: crypto where
  "id_crypto = undefined\<lparr>rsa_modpow := (\<lambda>b e n. b), rsa_modmul := (\<lambda>a b n. 0)\<rparr>"

definition id_pub :: "nat \<Rightarrow> rsa_public_key" where
  "id_pub K = \<lparr>rsa_n = replicate K (- 1), rsa_e = replicate K 0\<rparr>"

definition id_key :: "nat \<Rightarrow> rsa_crt_key" where
  "id_key K = \<lparr>ck_n = replicate K (- 1), ck_e = replicate K 0, ck_d = replicate K 0, ck_p = replicate K (- 1),
     ck_q = replicate K (- 1), ck_dP = replicate K 0, ck_dQ = replicate K 0, ck_qInv = replicate K 0\<rparr>"

lemma bn_val_ones: "bn_val (replicate K (- 1)) = 2 ^ (64 * K) - 1"
proof (induction K)
  case (Suc K)
  have "(1 :: nat) \<le> 2 ^ (64 * K)" by simp
  with Suc show ?case by (simp add: unat_max power_add diff_mult_distrib2)
qed simp

lemma zero_keeps_carry: "is_zero b \<Longrightarrow> \<not> carry_lost c a b"
  by (induction c a b rule: carry_lost.induct) (auto simp: is_zero_def)

lemma id_RSADP:
  assumes "length c = K" "bn_val c < bn_val (replicate K (- 1))"
  shows "RSADP id_crypto (id_key K) c = c"
proof -
  let ?q = "replicate K (- 1 :: u64)"
  have m: "bn_modpow id_crypto c e ?q = c" for e using assms(1) bn_of_val [of c] by (simp add: bn_modpow_def id_crypto_def)
  define t where "t = bn_mul ?q (mont_mul_mod id_crypto (bn_sub c c) (replicate K 0) ?q)"
  have l: "length (mont_mul_mod id_crypto h g ?q) = K" "bn_val (mont_mul_mod id_crypto h g ?q) = 0" for h g
    by (simp_all add: mont_mul_mod_def id_crypto_def bn_val_of)
  then have t: "length t = K" "bn_val t = 0" by (simp_all add: t_def length_bn_mul bn_mul_val)
  have "RSADP id_crypto (id_key K) c = bn_add c t"
    using assms by (simp add: RSADP_def id_key_def m bn_less_val Let_def t_def)
  moreover have "bn_val (bn_add c t) = bn_val c"
    using add_loop_val [of c t 0] zero_keeps_carry [of t 0 c] t assms(1) bn_val_less [of c] by (simp add: bn_add_def is_zero_val)
  ultimately show ?thesis
    using assms(1) t(1) by (simp add: bn_add_def length_add_loop flip: bn_val_inject)
qed

lemma id_key_pair:
  assumes "0 < K"
  shows "rsa_key_pair id_crypto K (id_pub K) (id_key K)"
proof -
  have e: "RSAEP id_crypto (id_pub K) m = m" if "length m = K" for m
    using that bn_of_val [of m] by (simp add: RSAEP_def bn_modpow_def id_crypto_def id_pub_def)
  have "(2 :: nat) ^ (64 * K - 1) < 2 ^ (64 * K)" using assms by simp
  then have "(2 :: nat) ^ (64 * K - 1) \<le> 2 ^ (64 * K) - 1" by linarith
  with e id_RSADP [of _ K] assms show ?thesis
    by (simp add: rsa_key_pair_def bn_val_ones id_pub_def id_key_def is_zero_def)
qed

section \<open>Properties\<close>

text \<open>
  C37. Decryption by the Chinese remainder theorem: for primes \<open>p\<close> and \<open>q\<close>, any \<open>x\<close> that agrees with the two half
  exponentiations, such as \<open>c ^ d\<close>, is what \<open>RSADP\<close> returns modulo \<open>p q\<close>, whichever of the primes is larger,
  provided neither of its two additions loses a carry.
\<close>

theorem rsadp_correct:
  assumes "length (ck_p k) = K" "length (ck_q k) = K" "length (ck_qInv k) = K" "length c = K" "modular_arithmetic C"
    "coprime (bn_val (ck_p k)) (bn_val (ck_q k))" "1 < bn_val (ck_p k)" "1 < bn_val (ck_q k)"
    "bn_val (ck_p k) * bn_val (ck_q k) \<le> 2 ^ (64 * K)"
    "bn_val (ck_qInv k) * bn_val (ck_q k) mod bn_val (ck_p k) = 1"
    "x mod bn_val (ck_p k) = bn_val c ^ bn_val (ck_dP k) mod bn_val (ck_p k)"
    "x mod bn_val (ck_q k) = bn_val c ^ bn_val (ck_dQ k) mod bn_val (ck_q k)"
    "\<forall>(a, b)\<in>set (RSADP_adds C k c). \<not> carry_lost 0 a b"
  shows "bn_val (RSADP C k c) = x mod (bn_val (ck_p k) * bn_val (ck_q k))"
  using RSADP_val [OF assms] by blast

text \<open>A key of two limbs, \<open>p = 11\<close>, \<open>q = 3\<close>, \<open>d = 7\<close>, and modular arithmetic for the primitives.\<close>

definition modular_crypto :: crypto where
  "modular_crypto = undefined\<lparr>rsa_modpow := (\<lambda>b e n. b ^ e mod n), rsa_modmul := (\<lambda>a b n. a * b mod n)\<rparr>"

definition small_key :: rsa_crt_key where
  "small_key = \<lparr>ck_n = [33, 0], ck_e = [3, 0], ck_d = [7, 0], ck_p = [11, 0], ck_q = [3, 0], ck_dP = [7, 0], ck_dQ = [1, 0],
     ck_qInv = [4, 0]\<rparr>"

theorem rsadp_correct_witness: "bn_val (RSADP modular_crypto small_key [5, 0]) = 5 ^ 7 mod 33"
proof -
  have C: "modular_arithmetic modular_crypto" by (simp add: modular_arithmetic_def modular_crypto_def)
  have m: "bn_modpow modular_crypto [5, 0] [7, 0] [11, 0] = [3, 0]" "bn_modpow modular_crypto [5, 0] [1, 0] [3, 0] = [2, 0]"
    by (simp_all add: bn_modpow_def modular_crypto_def)
  have adds: "\<forall>(a, b)\<in>set (RSADP_adds modular_crypto small_key [5, 0]). \<not> carry_lost 0 a b"
    by (simp add: RSADP_adds_def Let_def small_key_def m bn_less_def bn_sub_def mont_mul_mod_def bn_mul_def) (simp add: modular_crypto_def)
  have "coprime 11 (3 :: nat)" by (simp add: coprime_iff_gcd_eq_1 gcd_non_0_nat)
  then show ?thesis
    using rsadp_correct [of small_key 2 "[5, 0]" modular_crypto "5 ^ 7", OF _ _ _ _ C _ _ _ _ _ _ _ adds]
    by (simp add: small_key_def)
qed

lemma pss_sign_verify:
  assumes "rsa_key_pair C K pub key" "length salt = salt_len saltLen (pss_hash_size hash)" "length salt \<le> 64"
    "pss_hash_size hash + length salt + 2 \<le> 8 * K" "op = private_op C key \<or> op = RSASP1 C key"
  shows "\<exists>sig. pss_sign_with op K msg saltLen hash (Some salt) = Some sig \<and> pss_verify_with C K pub msg sig saltLen hash"
proof -
  let ?h = "pss_hash_size hash" and ?s = "salt_len saltLen (pss_hash_size hash)"
  have K: "0 < K" using assms(4) by (cases K) simp_all
  have h: "0 < ?h" "?h \<le> 64" by (cases hash; simp add: pss_hash_size_def)+
  then have s0: "0 < ?s" by (simp add: salt_len_def)
  have clear: "8 * (8 * K) - (64 * K - 1) = 1" using K by simp
  then obtain EM where EM: "emsa_pss_encode (pss_hash_fn hash msg) ?h (64 * K - 1) ?s hash (Some salt) (8 * K) = Some EM"
    using assms(2-4) h s0 by (simp add: emsa_pss_encode_def Let_def)
  note l = emsa_pss_encode_length [OF EM refl refl assms(2)]
  note b = emsa_pss_bound [OF EM refl assms(2)]
  have op: "op m = RSADP C key m" for m using assms(1,5) by (auto simp: private_op_crt RSASP1_def)
  show ?thesis
    using EM sign_verify_block [OF assms(1) l b] emsa_pss_roundtrip [OF EM refl assms(2)]
    by (simp add: pss_sign_with_def pss_verify_with_def op)
qed



text \<open>
  RSAES-OAEP with 3072 bits: every message of at most 318 bytes that is encrypted under a label is decrypted to
  itself under that label.
\<close>

theorem oaep_roundtrip:
  assumes "rsa_key_pair C 48 pub key" "length seed = 32" "length msg \<le> 318"
  shows "\<exists>ct. rsaes_oaep_encrypt3072 C pub msg label seed = Some ct \<and> rsaes_oaep_decrypt3072 C key ct label = Some msg"
proof -
  let ?EM = "oaep_em 384 seed label msg"
  have EM: "length ?EM = 8 * 48" using length_oaep_em [of seed msg 384 label] assms by simp
  then have b: "be_val ?EM < 2 ^ (64 * 48 - 1)" by (rule zero_block_bound) (simp_all add: oaep_em_def Let_def)
  let ?m = "from_bytes 48 ?EM"
  have m: "length ?m = 48" "bn_val ?m < bn_val (rsa_n pub)" using block_below_modulus [OF assms(1) EM b] by simp_all
  let ?c = "RSAEP C pub ?m"
  have c: "length ?c = 48" "bn_val ?c < bn_val (ck_n key)" "RSADP C key ?c = ?m" "length (ck_n key) = 48"
    using assms(1) m by (auto simp: rsa_key_pair_def length_RSAEP)
  have "from_bytes 48 (take 384 (to_bytes ?c)) = ?c" using from_to_bytes [OF c(1)] by simp
  then show ?thesis
    using assms(3) c oaep_decode_em [of seed msg 384 label] assms(2) to_from_bytes [OF EM]
    by (simp add: rsaes_oaep_encrypt3072_def rsaes_oaep_decrypt3072_def bn_less_val)
qed

theorem oaep_roundtrip_witness:
  "\<exists>ct. rsaes_oaep_encrypt3072 id_crypto (id_pub 48) [5, 6] [7] (replicate 32 9) = Some ct
     \<and> rsaes_oaep_decrypt3072 id_crypto (id_key 48) ct [7] = Some [5, 6]"
  by (rule oaep_roundtrip [OF id_key_pair]) simp_all

text \<open>
  The 2048-bit \<open>rsaes_oaep_encrypt\<close> never succeeds in bounds: its seed loop stores eight random words of eight
  bytes each in an array of 32 bytes, so every message of admissible length makes it write past the array.
\<close>

theorem oaep_2048_overflows:
  assumes "length rng = 8"
  shows "rsaes_oaep_encrypt C pub msg label rng = (if length msg > 190 then Ret None else Throw)"
proof -
  obtain a b c d e es where r: "rng = a # b # c # d # e # es"
    using assms by (auto simp: length_Suc_conv eval_nat_numeral)
  have "store_seed (replicate 32 0) 0 (a # b # c # d # e # es) = Throw" by simp
  then show ?thesis using assms by (simp add: rsaes_oaep_encrypt_def r)
qed

theorem oaep_2048_overflows_witness:
  "rsaes_oaep_encrypt id_crypto (id_pub 32) [1, 2, 3] [] [1, 2, 3, 4, 5, 6, 7, 8] = Throw"
  using oaep_2048_overflows [of "[1, 2, 3, 4, 5, 6, 7, 8]" id_crypto "id_pub 32" "[1, 2, 3]" "[]"] by simp

text \<open>
  RSASSA-PKCS1-v1_5: a signature made for a digest-info prefix is accepted by the verifier for the same
  message and prefix, with 2048 and with 3072 bits.
\<close>

theorem pkcs1v15_signatures_verify:
  assumes "rsa_key_pair C 32 pub key" "rsa_key_pair C 48 pub' key'" "length prefix = 19" "prefix_hash_len prefix = 32"
  shows "\<exists>sig sig'. rsassa_pkcs1v15_sign C key msg prefix = Ret (Some sig) \<and> rsassa_pkcs1v15_verify C pub msg prefix sig
     \<and> rsassa_pkcs1v15_sign3072 C key' msg prefix = Some sig' \<and> rsassa_pkcs1v15_verify3072 C pub' msg prefix sig'"
proof -
  let ?h = "sha256 msg"
  have em: "length (pkcs1v15_em 256 prefix ?h) = 8 * 32" "length (pkcs1v15_em 384 prefix ?h) = 8 * 48"
    "pkcs1v15_check 256 prefix ?h (pkcs1v15_em 256 prefix ?h)" "pkcs1v15_check 384 prefix ?h (pkcs1v15_em 384 prefix ?h)"
    using pkcs1v15_em_props [of prefix ?h 256] pkcs1v15_em_props [of prefix ?h 384] assms(3) by simp_all
  have b: "be_val (pkcs1v15_em 256 prefix ?h) < 2 ^ (64 * 32 - 1)"
    by (rule zero_block_bound [OF em(1)]) (simp_all add: pkcs1v15_em_def)
  have b': "be_val (pkcs1v15_em 384 prefix ?h) < 2 ^ (64 * 48 - 1)"
    by (rule zero_block_bound [OF em(2)]) (simp_all add: pkcs1v15_em_def)
  show ?thesis
    using em(3,4) sign_verify_block [OF assms(1) em(1) b] sign_verify_block [OF assms(2) em(2) b'] assms(3,4)
    by (simp add: rsassa_pkcs1v15_sign_def rsassa_pkcs1v15_verify_def rsassa_pkcs1v15_sign3072_def
      rsassa_pkcs1v15_verify3072_def prefix_hash_def RSASP1_def private_op_crt [OF assms(2)])
qed

definition SHA384_prefix :: bytes where
  "SHA384_prefix = [0x30, 0x41, 0x30, 0x0D, 0x06, 0x09, 0x60, 0x86, 0x48, 0x01, 0x65, 0x03, 0x04, 0x02, 0x02, 0x05, 0x00, 0x04, 0x30]"

theorem pkcs1v15_signatures_verify_witness:
  "\<exists>sig sig'. rsassa_pkcs1v15_sign id_crypto (id_key 32) [1] SHA384_prefix = Ret (Some sig)
     \<and> rsassa_pkcs1v15_verify id_crypto (id_pub 32) [1] SHA384_prefix sig
     \<and> rsassa_pkcs1v15_sign3072 id_crypto (id_key 48) [1] SHA384_prefix = Some sig'
     \<and> rsassa_pkcs1v15_verify3072 id_crypto (id_pub 48) [1] SHA384_prefix sig'"
  by (rule pkcs1v15_signatures_verify [OF id_key_pair id_key_pair]) (simp_all add: SHA384_prefix_def prefix_hash_len_def)

text \<open>
  The digest-info prefix of SHA-384 is not recognised: its length byte is the last of the nineteen, and the code
  looks at the one before. Both signers put the SHA-256 digest of the message behind the SHA-384 prefix, a block
  that no other implementation accepts.
\<close>

theorem pkcs1v15_sha384_misread:
  "rsassa_pkcs1v15_sign C key msg SHA384_prefix
     = Ret (Some (to_bytes (RSASP1 C key (from_bytes 32 (pkcs1v15_em 256 SHA384_prefix (sha256 msg))))))
   \<and> rsassa_pkcs1v15_sign3072 C key msg SHA384_prefix
     = Some (to_bytes (private_op C key (from_bytes 48 (pkcs1v15_em 384 SHA384_prefix (sha256 msg)))))"
  by (simp add: rsassa_pkcs1v15_sign_def rsassa_pkcs1v15_sign3072_def SHA384_prefix_def prefix_hash_len_def prefix_hash_def)

end
