(* ===== verification/X509Verify.thy ===== *)
theory X509Verify
  imports X509Parse Crypto Sha256 Sha512
begin

text \<open>
  \<open>src/src/x509.cpp\<close>: signature formats, \<open>verify_signature\<close>, the builder and the two chain verifiers. The
  primitives are fields of the \<open>crypto\<close> record \<open>C\<close>. Besides exceptions, \<open>Throw\<close> here stands for reading past
  the end of a vector: the code passes \<open>data()\<close> of keys and signatures to primitives that read a fixed
  number of bytes.
\<close>

section \<open>Signature formats\<close>

definition der_sig_header :: "bytes \<Rightarrow> (nat \<times> nat) option" where
  "der_sig_header der =
     (if length der < 2 \<or> der ! 0 \<noteq> 0x30 then None
      else if der ! 1 < 0x80 then Some (2, unat (der ! 1))
      else let n = unat (der ! 1 AND 0x7F)
           in if n = 0 \<or> n > 4 \<or> 2 + n > length der then None
              else Some (2 + n, be_val (take n (drop 2 der))))"

definition read_der_int :: "bytes \<Rightarrow> (bytes \<times> bytes) option" where
  "read_der_int p =
     (if length p < 2 \<or> p ! 0 \<noteq> 0x02 then None
      else let l = unat (p ! 1)
           in if l > length p - 2 then None else Some (take l (drop 2 p), drop (2 + l) p))"

text \<open>The loop that drops leading zeros, and padding to the field size.\<close>

fun drop_zeros :: "bytes \<Rightarrow> bytes" where
  "drop_zeros (x # y # v) = (if x = 0 then drop_zeros (y # v) else x # y # v)"
| "drop_zeros v = v"

definition norm_int :: "nat \<Rightarrow> bytes \<Rightarrow> bytes option" where
  "norm_int field_len v =
     (let v = drop_zeros v
      in if length v > field_len then None else Some (replicate (field_len - length v) 0 @ v))"

definition ecdsa_der_sig_to_raw :: "bytes \<Rightarrow> nat \<Rightarrow> bytes option" where
  "ecdsa_der_sig_to_raw der field_len =
     (case der_sig_header der of None \<Rightarrow> None
      | Some (hdr, len) \<Rightarrow>
          if hdr + len \<noteq> length der then None
          else (case read_der_int (drop hdr der) of None \<Rightarrow> None
                | Some (r, rest) \<Rightarrow>
                    (case read_der_int rest of None \<Rightarrow> None
                     | Some (s, _) \<Rightarrow>
                         (case norm_int field_len r of None \<Rightarrow> None
                          | Some r \<Rightarrow>
                              (case norm_int field_len s of None \<Rightarrow> None
                               | Some s \<Rightarrow> if length (r @ s) = field_len * 2 then Some (r @ s) else None)))))"

definition sig_to_raw :: "bytes \<Rightarrow> nat \<Rightarrow> bytes option" where
  "sig_to_raw sig field_len =
     (if length sig = field_len * 2 then Some sig else ecdsa_der_sig_to_raw sig field_len)"

definition raw_to_int :: "bytes \<Rightarrow> bytes" where
  "raw_to_int p =
     (let v = drop_zeros p; v = (if v = [] then [0] else v)
      in if hd v AND 0x80 \<noteq> 0 then 0 # v else v)"

definition ecdsa_raw_sig_to_der :: "bytes \<Rightarrow> nat \<Rightarrow> bytes" where
  "ecdsa_raw_sig_to_der raw field_len =
     encode_sequence (encode_integer (raw_to_int (take field_len raw))
       @ encode_integer (raw_to_int (take field_len (drop field_len raw))))"

section \<open>Hashes and padding of RSA signatures\<close>

definition DI_SHA256 :: bytes where
  "DI_SHA256 = [0x30, 0x31, 0x30, 0x0D, 0x06, 0x09, 0x60, 0x86, 0x48, 0x01, 0x65, 0x03, 0x04, 0x02, 0x01, 0x05, 0x00, 0x04, 0x20]"
definition DI_SHA384 :: bytes where
  "DI_SHA384 = [0x30, 0x41, 0x30, 0x0D, 0x06, 0x09, 0x60, 0x86, 0x48, 0x01, 0x65, 0x03, 0x04, 0x02, 0x02, 0x05, 0x00, 0x04, 0x30]"
definition DI_SHA512 :: bytes where
  "DI_SHA512 = [0x30, 0x51, 0x30, 0x0D, 0x06, 0x09, 0x60, 0x86, 0x48, 0x01, 0x65, 0x03, 0x04, 0x02, 0x03, 0x05, 0x00, 0x04, 0x40]"

definition cert_hash :: "int \<Rightarrow> bytes \<Rightarrow> bytes" where
  "cert_hash hash_len tbs = (if hash_len = 48 then sha384 tbs else if hash_len = 64 then sha512 tbs else sha256 tbs)"

definition cert_digest_info :: "int \<Rightarrow> bytes" where
  "cert_digest_info hash_len = (if hash_len = 48 then DI_SHA384 else if hash_len = 64 then DI_SHA512 else DI_SHA256)"

definition pss_hash :: "int \<Rightarrow> int" where
  "pss_hash hash_len = (if hash_len = 48 then 48 else if hash_len = 64 then 64 else 32)"

text \<open>The padding check on the decrypted block; \<open>skip_ff\<close> is its loop over the \<open>0xFF\<close> bytes.\<close>

fun skip_ff :: "bytes \<Rightarrow> bytes" where
  "skip_ff (b # bs) = (if b = 0xFF then skip_ff bs else b # bs)"
| "skip_ff [] = []"

definition pkcs1_check :: "bytes \<Rightarrow> bytes \<Rightarrow> bytes \<Rightarrow> bool" where
  "pkcs1_check di hash dec =
     (if dec ! 0 \<noteq> 0x00 \<or> dec ! 1 \<noteq> 0x01 then False
      else case skip_ff (drop 2 dec) of
             [] \<Rightarrow> False
           | b # rest \<Rightarrow>
               if b \<noteq> 0x00 then False
               else if length di + length hash > length rest then False
               else take (length di) rest = di \<and> take (length hash) (drop (length di) rest) = hash)"

definition pkcs1_encode :: "nat \<Rightarrow> bytes \<Rightarrow> bytes \<Rightarrow> bytes" where
  "pkcs1_encode k di hash = [0x00, 0x01] @ replicate (k - 3 - length di - length hash) 0xFF @ [0x00] @ di @ hash"

section \<open>Verifying a certificate's signature\<close>

text \<open>The bytes that were signed: those parsed, or for a built certificate those of its encoding.\<close>

definition encoded_tbs :: "x509_cert \<Rightarrow> bytes option run" where
  "encoded_tbs cert =
     run_bind (to_der cert) (\<lambda>der.
     run_bind (decode_tlv2 der 0) (\<lambda>(cert_tlv, _).
       case cert_tlv of None \<Rightarrow> Ret None
       | Some cert_tlv \<Rightarrow>
           run_bind (decode_tlv2 (tlv_value cert_tlv) 0) (\<lambda>(tbs_tlv, inner_off).
             Ret (case tbs_tlv of None \<Rightarrow> None | Some _ \<Rightarrow> Some (take inner_off (tlv_value cert_tlv))))))"

definition signed_tbs :: "x509_cert \<Rightarrow> bytes option run" where
  "signed_tbs cert = (if tbs_raw cert \<noteq> [] then Ret (Some (tbs_raw cert)) else encoded_tbs cert)"

text \<open>A primitive that reads \<open>np\<close> bytes of the key and \<open>ns\<close> of the signature.\<close>

definition reading :: "nat \<Rightarrow> bytes \<Rightarrow> nat \<Rightarrow> bytes \<Rightarrow> (bytes \<Rightarrow> bytes \<Rightarrow> bool) \<Rightarrow> bool run" where
  "reading np pub ns sig f = (if length pub < np \<or> length sig < ns then Throw else Ret (f (take np pub) (take ns sig)))"

definition verify_rsa :: "crypto \<Rightarrow> x509_cert \<Rightarrow> bytes \<Rightarrow> bytes \<Rightarrow> bool" where
  "verify_rsa C cert pub tbs =
     (let hash = cert_hash (sig_hash_len cert) tbs; di = cert_digest_info (sig_hash_len cert);
          k = (if length pub > 3 then length pub - 3 else 0)
      in if k \<noteq> 256 \<and> k \<noteq> 384 \<and> k \<noteq> 512 then False
         else if length (signature cert) < k then False
         else if sig_is_pss cert then
           rsassa_pss_verify C k (take k pub) tbs (take k (signature cert)) (pss_hash (sig_hash_len cert))
         else pkcs1_check di hash
                (be_bytes k (rsa_modpow C (be_val (take k (signature cert))) 65537 (be_val (take k pub)))))"

definition DEFAULT_ID :: bytes where
  "DEFAULT_ID = ascii ''1234567812345678''"

definition verify_sm2 :: "crypto \<Rightarrow> bytes \<Rightarrow> bytes \<Rightarrow> bytes \<Rightarrow> bool" where
  "verify_sm2 C pub tbs raw =
     (sm2_verify C pub tbs raw (sm2_compute_za C [] (take 32 pub) (drop 32 pub))
      \<or> sm2_verify C pub tbs raw (sm2_compute_za C DEFAULT_ID (take 32 pub) (drop 32 pub)))"

definition verify_ec :: "(bytes \<Rightarrow> bytes \<Rightarrow> bytes \<Rightarrow> bool) \<Rightarrow> nat \<Rightarrow> bytes \<Rightarrow> bytes \<Rightarrow> bytes \<Rightarrow> bool run" where
  "verify_ec f field_len pub tbs sig =
     (case sig_to_raw sig field_len of None \<Rightarrow> Ret False
      | Some raw \<Rightarrow> reading (2 * field_len) pub (2 * field_len) raw (\<lambda>pub raw. f pub tbs raw))"

definition verify_signature :: "crypto \<Rightarrow> x509_cert \<Rightarrow> x509_cert \<Rightarrow> bool run" where
  "verify_signature C cert ca_cert =
     run_bind (signed_tbs cert) (\<lambda>tbs.
       case tbs of None \<Rightarrow> Ret False
       | Some tbs \<Rightarrow>
           let pub = public_key ca_cert; sig = signature cert
           in case sign_key_type cert of
                Ed25519 \<Rightarrow> reading 32 pub 64 sig (\<lambda>p s. ed25519_verify C p tbs s)
              | Ed448 \<Rightarrow> reading 57 pub 114 sig (\<lambda>p s. ed448_verify C p tbs s)
              | ECDSA_P256 \<Rightarrow> verify_ec (ecdsa_p256_verify C) 32 pub tbs sig
              | ECDSA_P384 \<Rightarrow> verify_ec (ecdsa_p384_verify C) 48 pub tbs sig
              | ECDSA_P521 \<Rightarrow> verify_ec (ecdsa_p521_verify C) 66 pub tbs sig
              | SM2 \<Rightarrow> verify_ec (verify_sm2 C) 32 pub tbs sig
              | _ \<Rightarrow> Ret (verify_rsa C cert pub tbs))"

section \<open>The builder\<close>

definition set_version :: "int \<Rightarrow> x509_cert \<Rightarrow> x509_cert" where "set_version v cert = cert\<lparr>version := v\<rparr>"
definition set_serial :: "bytes \<Rightarrow> x509_cert \<Rightarrow> x509_cert" where "set_serial s cert = cert\<lparr>serial_number := s\<rparr>"
definition set_subject :: "DistinguishedName \<Rightarrow> x509_cert \<Rightarrow> x509_cert" where "set_subject dn cert = cert\<lparr>subject := dn\<rparr>"
definition set_issuer :: "DistinguishedName \<Rightarrow> x509_cert \<Rightarrow> x509_cert" where "set_issuer dn cert = cert\<lparr>issuer := dn\<rparr>"
definition set_validity :: "u64 \<Rightarrow> u64 \<Rightarrow> x509_cert \<Rightarrow> x509_cert" where
  "set_validity nb na cert = cert\<lparr>not_before := nb, not_after := na\<rparr>"
definition set_key :: "KeyType \<Rightarrow> bytes \<Rightarrow> x509_cert \<Rightarrow> x509_cert" where
  "set_key kt key cert = cert\<lparr>key_type := kt, public_key := key\<rparr>"
definition set_ca :: "bool \<Rightarrow> int \<Rightarrow> x509_cert \<Rightarrow> x509_cert" where
  "set_ca b n cert = cert\<lparr>basic_constraints := Some \<lparr>ca = b, path_len = n\<rparr>\<rparr>"
definition set_key_usage :: "u16 \<Rightarrow> x509_cert \<Rightarrow> x509_cert" where "set_key_usage bits cert = cert\<lparr>key_usage := Some bits\<rparr>"
definition set_server_auth :: "x509_cert \<Rightarrow> x509_cert" where
  "set_server_auth cert = cert\<lparr>ext_key_usage := Some [SERVER_AUTH]\<rparr>"
definition add_san_dns :: "bytes \<Rightarrow> x509_cert \<Rightarrow> x509_cert" where
  "add_san_dns dns cert =
     (let san = (case subject_alt_name cert of None \<Rightarrow> \<lparr>dns_names = [], ip_addrs = []\<rparr> | Some san \<Rightarrow> san)
      in cert\<lparr>subject_alt_name := Some (san\<lparr>dns_names := dns_names san @ [dns]\<rparr>)\<rparr>)"

definition rsa_mod_bytes :: "KeyType \<Rightarrow> nat" where
  "rsa_mod_bytes kt = (if kt = RSA_2048 then 256 else if kt = RSA_3072 then 384 else 512)"

text \<open>The RSA branch: \<open>None\<close> where the certificate is returned unsigned. \<open>sign_modulus\<close> is \<open>[]\<close> for the default.\<close>

definition sign_rsa :: "crypto \<Rightarrow> x509_cert \<Rightarrow> KeyType \<Rightarrow> bytes \<Rightarrow> bytes \<Rightarrow> bytes \<Rightarrow> bytes option" where
  "sign_rsa C cert kt priv sign_modulus tbs =
     (let k = rsa_mod_bytes kt;
          modulus = (if sign_modulus \<noteq> [] \<and> length sign_modulus = k then Some sign_modulus
                     else if length (public_key cert) = k + 3 then Some (take k (public_key cert)) else None)
      in case modulus of None \<Rightarrow> None
         | Some m \<Rightarrow>
             let hash = cert_hash (sig_hash_len cert) tbs; di = cert_digest_info (sig_hash_len cert)
             in if sig_is_pss cert then
                  (if k = 512 then None else rsassa_pss_sign C k m priv tbs (pss_hash (sig_hash_len cert)))
                else Some (be_bytes k (rsa_modpow C (be_val (pkcs1_encode k di hash)) (be_val priv) (be_val m))))"

definition sign_with :: "crypto \<Rightarrow> x509_cert \<Rightarrow> KeyType \<Rightarrow> bytes \<Rightarrow> bytes \<Rightarrow> bytes \<Rightarrow> bytes option" where
  "sign_with C cert kt priv sign_modulus tbs =
     (case kt of
        Ed25519 \<Rightarrow> Some (ed25519_sign C priv tbs)
      | Ed448 \<Rightarrow> Some (ed448_sign C priv tbs)
      | ECDSA_P256 \<Rightarrow> Some (ecdsa_raw_sig_to_der (ecdsa_p256_sign C priv tbs) 32)
      | ECDSA_P384 \<Rightarrow> Some (ecdsa_raw_sig_to_der (ecdsa_p384_sign C priv tbs) 48)
      | ECDSA_P521 \<Rightarrow> Some (ecdsa_raw_sig_to_der (ecdsa_p521_sign C priv tbs) 66)
      | SM2 \<Rightarrow>
          let ca_pub = sm2_pub_from_priv C priv;
              za = sm2_compute_za C [] (take 32 ca_pub) (drop 32 ca_pub)
          in Some (ecdsa_raw_sig_to_der (sm2_sign C priv tbs za) 32)
      | _ \<Rightarrow> sign_rsa C cert kt priv sign_modulus tbs)"

definition build_and_sign :: "crypto \<Rightarrow> x509_cert \<Rightarrow> KeyType \<Rightarrow> bytes \<Rightarrow> bytes \<Rightarrow> x509_cert run" where
  "build_and_sign C cert sign_kt priv sign_modulus =
     (let cert = cert\<lparr>sign_key_type := sign_kt, signature := []\<rparr>
      in run_bind (encoded_tbs cert) (\<lambda>tbs.
           Ret (case tbs of None \<Rightarrow> cert
                | Some tbs \<Rightarrow>
                    (case sign_with C cert sign_kt priv sign_modulus tbs of None \<Rightarrow> cert
                     | Some sig \<Rightarrow> cert\<lparr>signature := sig\<rparr>))))"

section \<open>Certificate helpers\<close>

fun find_cn :: "DistinguishedName \<Rightarrow> bytes" where
  "find_cn (a # dn) = (if oid_equal (na_oid a) OID_CN then na_value a else find_cn dn)"
| "find_cn [] = []"

definition common_name :: "x509_cert \<Rightarrow> bytes" where "common_name cert = find_cn (subject cert)"
definition issuer_name :: "x509_cert \<Rightarrow> bytes" where "issuer_name cert = find_cn (issuer cert)"

definition is_valid_at :: "x509_cert \<Rightarrow> u64 \<Rightarrow> bool" where
  "is_valid_at cert now_unix \<longleftrightarrow> not_before cert \<le> now_unix \<and> now_unix \<le> not_after cert"

definition is_ca :: "x509_cert \<Rightarrow> bool" where
  "is_ca cert \<longleftrightarrow> (case basic_constraints cert of None \<Rightarrow> False | Some bc \<Rightarrow> ca bc)"

definition cert_dns_names :: "x509_cert \<Rightarrow> bytes list" where
  "cert_dns_names cert = (case subject_alt_name cert of None \<Rightarrow> [] | Some san \<Rightarrow> dns_names san)"

section \<open>Chains\<close>

datatype chain_error = Empty_chain | Expired | Sig_fail | Root_not_CA | Root_self_sig_fail | Not_anchored

text \<open>\<open>verify_result\<close>: \<open>None\<close> for success, else the error. \<open>sys_time\<close> is what \<open>time(nullptr)\<close> returns.\<close>

type_synonym verify_result = "chain_error option"

fun chain_loop :: "crypto \<Rightarrow> u64 \<Rightarrow> x509_cert list \<Rightarrow> verify_result run" where
  "chain_loop C now [] = Ret None"
| "chain_loop C now [root] =
     (if \<not> is_valid_at root now then Ret (Some Expired)
      else if \<not> is_ca root then Ret (Some Root_not_CA)
      else run_bind (verify_signature C root root) (\<lambda>ok. Ret (if ok then None else Some Root_self_sig_fail)))"
| "chain_loop C now (cert # nxt # rest) =
     (if \<not> is_valid_at cert now then Ret (Some Expired)
      else run_bind (verify_signature C cert nxt) (\<lambda>ok.
             if ok then chain_loop C now (nxt # rest) else Ret (Some Sig_fail)))"

definition x509_verify_chain :: "crypto \<Rightarrow> u64 \<Rightarrow> x509_cert list \<Rightarrow> u64 \<Rightarrow> verify_result run" where
  "x509_verify_chain C sys_time chain now_unix =
     (if chain = [] then Ret (Some Empty_chain)
      else chain_loop C (if now_unix = 0 then sys_time else now_unix) chain)"

definition same_cert_identity :: "x509_cert \<Rightarrow> x509_cert \<Rightarrow> bool" where
  "same_cert_identity a b \<longleftrightarrow>
     serial_number a = serial_number b \<and> public_key a = public_key b
     \<and> encode_name (subject a) = encode_name (subject b) \<and> encode_name (issuer a) = encode_name (issuer b)"

text \<open>The hops of an anchored chain, without the root's own checks.\<close>

fun hops_loop :: "crypto \<Rightarrow> u64 \<Rightarrow> x509_cert list \<Rightarrow> verify_result run" where
  "hops_loop C now [] = Ret None"
| "hops_loop C now [tail] = Ret (if \<not> is_valid_at tail now then Some Expired else None)"
| "hops_loop C now (cert # nxt # rest) =
     (if \<not> is_valid_at cert now then Ret (Some Expired)
      else run_bind (verify_signature C cert nxt) (\<lambda>ok.
             if ok then hops_loop C now (nxt # rest) else Ret (Some Sig_fail)))"

fun match_anchor :: "bytes \<Rightarrow> x509_cert \<Rightarrow> x509_cert list \<Rightarrow> bool run" where
  "match_anchor tail_der tail [] = Ret False"
| "match_anchor tail_der tail (a # anchors) =
     run_bind (to_der a) (\<lambda>der.
       if der = tail_der \<or> same_cert_identity a tail then Ret True else match_anchor tail_der tail anchors)"

definition x509_verify_chain_anchored ::
  "crypto \<Rightarrow> u64 \<Rightarrow> x509_cert list \<Rightarrow> x509_cert list \<Rightarrow> u64 \<Rightarrow> verify_result run" where
  "x509_verify_chain_anchored C sys_time chain anchors now_unix =
     (if chain = [] then Ret (Some Empty_chain)
      else run_bind (hops_loop C (if now_unix = 0 then sys_time else now_unix) chain) (\<lambda>r.
        case r of Some e \<Rightarrow> Ret (Some e)
        | None \<Rightarrow>
            if \<not> is_ca (last chain) then Ret (Some Root_not_CA)
            else if anchors = [] then
              run_bind (verify_signature C (last chain) (last chain)) (\<lambda>ok.
                Ret (if ok then None else Some Root_self_sig_fail))
            else
              run_bind (to_der (last chain)) (\<lambda>tail_der.
              run_bind (match_anchor tail_der (last chain) anchors) (\<lambda>ok.
                Ret (if ok then None else Some Not_anchored)))))"

end
