(* ===== verification/TlsCert.thy ===== *)
theory TlsCert
  imports Rsa X509Verify EcdsaDer
begin

text \<open>
  The certificates of TLS, \<open>src/src/tls_router.cpp\<close> and \<open>include/tls.hpp\<close>: signature schemes, their choice, signing
  and verifying with them, the DER form of ECDSA signatures, and the certificate manager.

  The unions of public and private keys are two fields each: the RSA member (of the size the certificate has) and the
  bytes of the other members, which all begin at the start of the union.
\<close>

section \<open>Signature schemes\<close>

abbreviation "RSA_PKCS1_SHA256 \<equiv> (0x0401 :: u16)"
abbreviation "RSA_PKCS1_SHA384 \<equiv> (0x0501 :: u16)"
abbreviation "RSA_PKCS1_SHA512 \<equiv> (0x0601 :: u16)"
abbreviation "ECDSA_SECP256R1_SHA256 \<equiv> (0x0403 :: u16)"
abbreviation "ECDSA_SECP384R1_SHA384 \<equiv> (0x0503 :: u16)"
abbreviation "ECDSA_SECP521R1_SHA512 \<equiv> (0x0603 :: u16)"
abbreviation "RSA_PSS_RSAE_SHA256 \<equiv> (0x0804 :: u16)"
abbreviation "RSA_PSS_RSAE_SHA384 \<equiv> (0x0805 :: u16)"
abbreviation "RSA_PSS_RSAE_SHA512 \<equiv> (0x0806 :: u16)"
abbreviation "SIG_ED25519 \<equiv> (0x0807 :: u16)"
abbreviation "SIG_ED448 \<equiv> (0x0808 :: u16)"
abbreviation "SM2_SM3 \<equiv> (0x0708 :: u16)"

record tls_certificate =
  subject_name :: bytes
  cert_data :: bytes
  pub_rsa :: rsa_public_key
  pub_raw :: bytes
  priv_rsa :: rsa_crt_key
  priv_raw :: bytes
  rsa4096 :: bool
  cert_sig_alg :: u16
  rsa_bits :: u16

definition tls_default_signature_algorithms :: "u16 list" where
  "tls_default_signature_algorithms =
     [SIG_ED25519, SIG_ED448, ECDSA_SECP256R1_SHA256, ECDSA_SECP384R1_SHA384, ECDSA_SECP521R1_SHA512,
      RSA_PSS_RSAE_SHA256, RSA_PSS_RSAE_SHA384, RSA_PSS_RSAE_SHA512,
      RSA_PKCS1_SHA256, RSA_PKCS1_SHA384, RSA_PKCS1_SHA512, SM2_SM3]"

definition tls_scheme_allowed_for_cert_verify :: "u16 \<Rightarrow> bool" where
  "tls_scheme_allowed_for_cert_verify scheme \<longleftrightarrow>
     scheme \<in> {ECDSA_SECP256R1_SHA256, ECDSA_SECP384R1_SHA384, ECDSA_SECP521R1_SHA512,
       RSA_PSS_RSAE_SHA256, RSA_PSS_RSAE_SHA384, RSA_PSS_RSAE_SHA512, SIG_ED25519, SIG_ED448, SM2_SM3}"

datatype SigKeyFamily = FAM_NONE | FAM_RSA | FAM_P256 | FAM_P384 | FAM_P521 | FAM_ED25519 | FAM_ED448 | FAM_SM2

definition sig_key_family :: "u16 \<Rightarrow> SigKeyFamily" where
  "sig_key_family sa =
     (if sa \<in> {RSA_PKCS1_SHA256, RSA_PKCS1_SHA384, RSA_PKCS1_SHA512, RSA_PSS_RSAE_SHA256, RSA_PSS_RSAE_SHA384, RSA_PSS_RSAE_SHA512}
      then FAM_RSA
      else if sa = ECDSA_SECP256R1_SHA256 then FAM_P256
      else if sa = ECDSA_SECP384R1_SHA384 then FAM_P384
      else if sa = ECDSA_SECP521R1_SHA512 then FAM_P521
      else if sa = SIG_ED25519 then FAM_ED25519
      else if sa = SIG_ED448 then FAM_ED448
      else if sa = SM2_SM3 then FAM_SM2
      else FAM_NONE)"

fun scheme_in_list :: "u16 list \<Rightarrow> u16 \<Rightarrow> bool" where
  "scheme_in_list [] scheme = False"
| "scheme_in_list (s # list) scheme = (if s = scheme then True else scheme_in_list list scheme)"

fun select_scheme_loop :: "u16 list \<Rightarrow> SigKeyFamily \<Rightarrow> bool \<Rightarrow> u16 list \<Rightarrow> u16" where
  "select_scheme_loop supported fam tls13 [] = 0"
| "select_scheme_loop supported fam tls13 (s # peer) =
     (if \<not> scheme_in_list supported s then select_scheme_loop supported fam tls13 peer
      else if sig_key_family s \<noteq> fam then select_scheme_loop supported fam tls13 peer
      else if tls13 \<and> \<not> tls_scheme_allowed_for_cert_verify s then select_scheme_loop supported fam tls13 peer
      else s)"

definition select_signature_scheme :: "u16 list \<Rightarrow> tls_certificate \<Rightarrow> u16 list \<Rightarrow> bool \<Rightarrow> u16" where
  "select_signature_scheme peer_list cert local_list tls13 =
     (let supported = (if local_list = [] then tls_default_signature_algorithms else local_list);
          fam = sig_key_family (cert_sig_alg cert)
      in if fam = FAM_NONE then 0 else select_scheme_loop supported fam tls13 peer_list)"

definition x509_key_type_chain_scheme :: "KeyType \<Rightarrow> u16" where
  "x509_key_type_chain_scheme kt =
     (case kt of
        ECDSA_P256 \<Rightarrow> ECDSA_SECP256R1_SHA256
      | ECDSA_P384 \<Rightarrow> ECDSA_SECP384R1_SHA384
      | ECDSA_P521 \<Rightarrow> ECDSA_SECP521R1_SHA512
      | Ed25519 \<Rightarrow> SIG_ED25519
      | Ed448 \<Rightarrow> SIG_ED448
      | SM2 \<Rightarrow> SM2_SM3
      | _ \<Rightarrow> RSA_PKCS1_SHA256)"

definition cert_chain_signature_scheme :: "tls_certificate \<Rightarrow> u16 run" where
  "cert_chain_signature_scheme cert =
     run_bind (if cert_data cert = [] then Ret None else from_der (cert_data cert)) (\<lambda>parsed.
       Ret (case parsed of
              Some c \<Rightarrow> x509_key_type_chain_scheme (sign_key_type c)
            | None \<Rightarrow>
                let sa = cert_sig_alg cert
                in if sa \<in> {RSA_PKCS1_SHA256, RSA_PSS_RSAE_SHA256, RSA_PSS_RSAE_SHA384, RSA_PSS_RSAE_SHA512} then RSA_PKCS1_SHA256
                   else if sa \<in> {ECDSA_SECP256R1_SHA256, ECDSA_SECP384R1_SHA384, ECDSA_SECP521R1_SHA512,
                                  SIG_ED25519, SIG_ED448, SM2_SM3} then sa
                   else 0))"

definition tls_key_type_to_sig_alg :: "KeyType \<Rightarrow> u16" where
  "tls_key_type_to_sig_alg kt =
     (case kt of
        Ed25519 \<Rightarrow> SIG_ED25519
      | Ed448 \<Rightarrow> SIG_ED448
      | ECDSA_P256 \<Rightarrow> ECDSA_SECP256R1_SHA256
      | ECDSA_P384 \<Rightarrow> ECDSA_SECP384R1_SHA384
      | ECDSA_P521 \<Rightarrow> ECDSA_SECP521R1_SHA512
      | SM2 \<Rightarrow> SM2_SM3
      | _ \<Rightarrow> RSA_PKCS1_SHA256)"

definition scheme_hash_len :: "u16 \<Rightarrow> nat" where
  "scheme_hash_len scheme =
     (if scheme \<in> {RSA_PKCS1_SHA256, RSA_PSS_RSAE_SHA256, ECDSA_SECP256R1_SHA256} then 32
      else if scheme \<in> {RSA_PKCS1_SHA384, RSA_PSS_RSAE_SHA384, ECDSA_SECP384R1_SHA384} then 48
      else if scheme \<in> {RSA_PKCS1_SHA512, RSA_PSS_RSAE_SHA512, ECDSA_SECP521R1_SHA512} then 64
      else 0)"

definition hash_scheme :: "u16 \<Rightarrow> bytes \<Rightarrow> bytes option" where
  "hash_scheme scheme data =
     (if scheme \<in> {RSA_PKCS1_SHA256, RSA_PSS_RSAE_SHA256, ECDSA_SECP256R1_SHA256} then Some (sha256 data)
      else if scheme \<in> {RSA_PKCS1_SHA384, RSA_PSS_RSAE_SHA384, ECDSA_SECP384R1_SHA384} then Some (sha384 data)
      else if scheme \<in> {RSA_PKCS1_SHA512, RSA_PSS_RSAE_SHA512, ECDSA_SECP521R1_SHA512} then Some (sha512 data)
      else None)"

definition digest_info_for_scheme :: "u16 \<Rightarrow> bytes option" where
  "digest_info_for_scheme scheme =
     (if scheme = RSA_PKCS1_SHA256 then Some DI_SHA256
      else if scheme = RSA_PKCS1_SHA384 then Some DI_SHA384
      else if scheme = RSA_PKCS1_SHA512 then Some DI_SHA512
      else None)"

definition pss_hash_of_scheme :: "u16 \<Rightarrow> PssHash option" where
  "pss_hash_of_scheme scheme =
     (if scheme = RSA_PSS_RSAE_SHA256 then Some PSS_SHA256
      else if scheme = RSA_PSS_RSAE_SHA384 then Some PSS_SHA384
      else if scheme = RSA_PSS_RSAE_SHA512 then Some PSS_SHA512
      else None)"

section \<open>RSA signatures\<close>

text \<open>The encoded message of \<open>k\<close> bytes; the code writes it out for each of its three sizes.\<close>

definition scheme_pkcs1_em :: "nat \<Rightarrow> u16 \<Rightarrow> bytes \<Rightarrow> bytes option" where
  "scheme_pkcs1_em k scheme data =
     (if scheme_hash_len scheme = 0 then None
      else case digest_info_for_scheme scheme of None \<Rightarrow> None
      | Some di \<Rightarrow>
          (case hash_scheme scheme data of None \<Rightarrow> None
           | Some hash \<Rightarrow> Some (pkcs1_encode k di (take (scheme_hash_len scheme) hash))))"

definition digest_info_len :: "u16 \<Rightarrow> nat" where
  "digest_info_len scheme = (case digest_info_for_scheme scheme of None \<Rightarrow> 0 | Some di \<Rightarrow> length di)"

definition rsa_pkcs1_sign :: "crypto \<Rightarrow> rsa_crt_key \<Rightarrow> u16 \<Rightarrow> bytes \<Rightarrow> bytes option" where
  "rsa_pkcs1_sign C key scheme data =
     (case scheme_pkcs1_em 256 scheme data of None \<Rightarrow> None
      | Some padded \<Rightarrow>
          if 256 - 3 - digest_info_len scheme - scheme_hash_len scheme = 0 then None
          else Some (to_bytes (private_op C key (from_bytes 32 padded))))"

definition rsa3072_pkcs1_sign :: "crypto \<Rightarrow> rsa_crt_key \<Rightarrow> u16 \<Rightarrow> bytes \<Rightarrow> bytes option" where
  "rsa3072_pkcs1_sign C key scheme data =
     (case scheme_pkcs1_em 384 scheme data of None \<Rightarrow> None
      | Some padded \<Rightarrow>
          if 384 - 3 - digest_info_len scheme - scheme_hash_len scheme = 0 then None
          else Some (to_bytes (private_op C key (from_bytes 48 padded))))"

definition rsa_pkcs1_sign4096 :: "crypto \<Rightarrow> rsa_crt_key \<Rightarrow> u16 \<Rightarrow> bytes \<Rightarrow> bytes option" where
  "rsa_pkcs1_sign4096 C key scheme data =
     (case scheme_pkcs1_em 512 scheme data of None \<Rightarrow> None
      | Some padded \<Rightarrow>
          if digest_info_len scheme + scheme_hash_len scheme + 11 > 512 then None
          else Some (to_bytes (private_op C key (from_bytes 64 padded))))"

definition rsa_pss_sign :: "crypto \<Rightarrow> rsa_crt_key \<Rightarrow> u16 \<Rightarrow> bytes \<Rightarrow> bytes option \<Rightarrow> bytes option" where
  "rsa_pss_sign C key scheme data rnd =
     (case pss_hash_of_scheme scheme of None \<Rightarrow> None | Some hash \<Rightarrow> rsassa_pss_sign2048 C key data 0 hash rnd)"

definition rsa3072_pss_sign :: "crypto \<Rightarrow> rsa_crt_key \<Rightarrow> u16 \<Rightarrow> bytes \<Rightarrow> bytes option \<Rightarrow> bytes option" where
  "rsa3072_pss_sign C key scheme data rnd =
     (case pss_hash_of_scheme scheme of None \<Rightarrow> None | Some hash \<Rightarrow> rsassa_pss_sign3072 C key data 0 hash rnd)"

definition rsa_pss_sign4096 :: "crypto \<Rightarrow> rsa_crt_key \<Rightarrow> u16 \<Rightarrow> bytes \<Rightarrow> bytes option \<Rightarrow> bytes option" where
  "rsa_pss_sign4096 C key scheme data rnd =
     (case pss_hash_of_scheme scheme of None \<Rightarrow> None
      | Some hash \<Rightarrow>
          if is_zero (ck_p key) \<or> is_zero (ck_q key) then None else rsassa_pss_sign4096 C key data 0 hash rnd)"

definition rsa_pss_verify :: "crypto \<Rightarrow> rsa_public_key \<Rightarrow> u16 \<Rightarrow> bytes \<Rightarrow> bytes \<Rightarrow> bool" where
  "rsa_pss_verify C pub scheme data sig =
     (if length sig \<noteq> 256 then False
      else case pss_hash_of_scheme scheme of None \<Rightarrow> False | Some hash \<Rightarrow> rsassa_pss_verify2048 C pub data sig 0 hash)"

definition rsa3072_pss_verify :: "crypto \<Rightarrow> rsa_public_key \<Rightarrow> u16 \<Rightarrow> bytes \<Rightarrow> bytes \<Rightarrow> bool" where
  "rsa3072_pss_verify C pub scheme data sig =
     (if length sig \<noteq> 384 then False
      else case pss_hash_of_scheme scheme of None \<Rightarrow> False | Some hash \<Rightarrow> rsassa_pss_verify3072 C pub data sig 0 hash)"

definition rsa_pss_verify4096 :: "crypto \<Rightarrow> rsa_public_key \<Rightarrow> u16 \<Rightarrow> bytes \<Rightarrow> bytes \<Rightarrow> bool" where
  "rsa_pss_verify4096 C pub scheme data sig =
     (if length sig \<noteq> 512 then False
      else case pss_hash_of_scheme scheme of None \<Rightarrow> False | Some hash \<Rightarrow> rsassa_pss_verify4096 C pub data sig 0 hash)"

text \<open>The check of a v1.5 signature with \<open>K\<close> limbs; the code has it once for 3072 bits and once for the others.\<close>

definition rsa_pkcs1_verify :: "crypto \<Rightarrow> nat \<Rightarrow> rsa_public_key \<Rightarrow> u16 \<Rightarrow> bytes \<Rightarrow> bytes \<Rightarrow> bool" where
  "rsa_pkcs1_verify C K pub scheme data sig =
     (if length sig \<noteq> 8 * K then False
      else if scheme_hash_len scheme = 0 then False
      else case digest_info_for_scheme scheme of None \<Rightarrow> False
      | Some di \<Rightarrow>
          (case hash_scheme scheme data of None \<Rightarrow> False
           | Some hash \<Rightarrow>
               pkcs1_check di (take (scheme_hash_len scheme) hash)
                 (to_bytes (bn_modpow C (from_bytes K sig) (rsa_e pub) (rsa_n pub)))))"

datatype RsaTier = TIER_2048 | TIER_3072 | TIER_4096

definition rsa_tier_of :: "tls_certificate \<Rightarrow> RsaTier" where
  "rsa_tier_of cert =
     (if rsa_bits cert = 3072 then TIER_3072
      else if rsa_bits cert = 4096 \<or> rsa4096 cert then TIER_4096
      else TIER_2048)"

text \<open>\<open>if (sig_len == raw_len) memcpy(...); else if (!ecdsa_sig_from_der(...)) return false;\<close>\<close>

definition scheme_sig_to_raw :: "bytes \<Rightarrow> nat \<Rightarrow> bytes option" where
  "scheme_sig_to_raw sig raw_len = (if length sig = raw_len then Some sig else ecdsa_sig_from_der sig raw_len)"

section \<open>Signing and verifying\<close>

text \<open>\<open>rnd\<close> is the salt the generator returns; a null \<open>za\<close> is the empty string, which the hash then begins with.\<close>

definition sign_scheme :: "crypto \<Rightarrow> tls_certificate \<Rightarrow> u16 \<Rightarrow> bytes \<Rightarrow> bytes \<Rightarrow> bytes option \<Rightarrow> bytes option" where
  "sign_scheme C cert scheme data za rnd =
     (if scheme = SIG_ED25519 then Some (ed25519_sign C (take 64 (priv_raw cert)) data)
      else if scheme = SIG_ED448 then Some (ed448_sign C (take 57 (priv_raw cert)) data)
      else if scheme = ECDSA_SECP256R1_SHA256 then ecdsa_sign_to_der (ecdsa_p256_sign C (take 32 (priv_raw cert)) data) 160
      else if scheme = ECDSA_SECP384R1_SHA384 then ecdsa_sign_to_der (ecdsa_p384_sign C (take 48 (priv_raw cert)) data) 200
      else if scheme = ECDSA_SECP521R1_SHA512 then ecdsa_sign_to_der (ecdsa_p521_sign C (take 66 (priv_raw cert)) data) 256
      else if scheme = SM2_SM3 then ecdsa_sign_to_der (sm2_sign C (take 32 (priv_raw cert)) data za) 160
      else if scheme \<in> {RSA_PKCS1_SHA256, RSA_PKCS1_SHA384, RSA_PKCS1_SHA512} then
        (case rsa_tier_of cert of
           TIER_4096 \<Rightarrow> rsa_pkcs1_sign4096 C (priv_rsa cert) scheme data
         | TIER_3072 \<Rightarrow> rsa3072_pkcs1_sign C (priv_rsa cert) scheme data
         | TIER_2048 \<Rightarrow> rsa_pkcs1_sign C (priv_rsa cert) scheme data)
      else if scheme \<in> {RSA_PSS_RSAE_SHA256, RSA_PSS_RSAE_SHA384, RSA_PSS_RSAE_SHA512} then
        (case rsa_tier_of cert of
           TIER_4096 \<Rightarrow> rsa_pss_sign4096 C (priv_rsa cert) scheme data rnd
         | TIER_3072 \<Rightarrow> rsa3072_pss_sign C (priv_rsa cert) scheme data rnd
         | TIER_2048 \<Rightarrow> rsa_pss_sign C (priv_rsa cert) scheme data rnd)
      else None)"

definition cert_sign :: "crypto \<Rightarrow> tls_certificate \<Rightarrow> bytes \<Rightarrow> bytes option \<Rightarrow> bytes option" where
  "cert_sign C cert data rnd = sign_scheme C cert (cert_sig_alg cert) data [] rnd"

definition verify_ecdsa_scheme :: "(bytes \<Rightarrow> bytes \<Rightarrow> bytes \<Rightarrow> bool) \<Rightarrow> nat \<Rightarrow> bytes \<Rightarrow> bytes \<Rightarrow> bytes \<Rightarrow> bool" where
  "verify_ecdsa_scheme vrf raw_len pub data sig =
     (case scheme_sig_to_raw sig raw_len of None \<Rightarrow> False | Some raw \<Rightarrow> vrf (take raw_len pub) data raw)"

definition verify_scheme :: "crypto \<Rightarrow> tls_certificate \<Rightarrow> u16 \<Rightarrow> bytes \<Rightarrow> bytes \<Rightarrow> bytes \<Rightarrow> bool" where
  "verify_scheme C cert scheme data sig za =
     (if sig_key_family scheme \<noteq> sig_key_family (cert_sig_alg cert) then False
      else if scheme = SIG_ED25519 then length sig = 64 \<and> ed25519_verify C (take 32 (pub_raw cert)) data sig
      else if scheme = SIG_ED448 then length sig = 114 \<and> ed448_verify C (take 57 (pub_raw cert)) data sig
      else if scheme = ECDSA_SECP256R1_SHA256 then verify_ecdsa_scheme (ecdsa_p256_verify C) 64 (pub_raw cert) data sig
      else if scheme = ECDSA_SECP384R1_SHA384 then verify_ecdsa_scheme (ecdsa_p384_verify C) 96 (pub_raw cert) data sig
      else if scheme = ECDSA_SECP521R1_SHA512 then verify_ecdsa_scheme (ecdsa_p521_verify C) 132 (pub_raw cert) data sig
      else if scheme = SM2_SM3 then
        verify_ecdsa_scheme (\<lambda>pub data raw. sm2_verify C pub data raw za) 64 (pub_raw cert) data sig
      else if scheme \<in> {RSA_PKCS1_SHA256, RSA_PKCS1_SHA384, RSA_PKCS1_SHA512} then
        (case rsa_tier_of cert of
           TIER_3072 \<Rightarrow> rsa_pkcs1_verify C 48 (pub_rsa cert) scheme data sig
         | TIER_4096 \<Rightarrow> rsa_pkcs1_verify C 64 (pub_rsa cert) scheme data sig
         | TIER_2048 \<Rightarrow> rsa_pkcs1_verify C 32 (pub_rsa cert) scheme data sig)
      else if scheme \<in> {RSA_PSS_RSAE_SHA256, RSA_PSS_RSAE_SHA384, RSA_PSS_RSAE_SHA512} then
        (case rsa_tier_of cert of
           TIER_4096 \<Rightarrow> rsa_pss_verify4096 C (pub_rsa cert) scheme data sig
         | TIER_3072 \<Rightarrow> rsa3072_pss_verify C (pub_rsa cert) scheme data sig
         | TIER_2048 \<Rightarrow> rsa_pss_verify C (pub_rsa cert) scheme data sig)
      else False)"

definition cert_verify :: "crypto \<Rightarrow> tls_certificate \<Rightarrow> bytes \<Rightarrow> bytes \<Rightarrow> bool" where
  "cert_verify C cert data sig = verify_scheme C cert (cert_sig_alg cert) data sig []"

section \<open>The certificate manager\<close>

record tls_certificate_manager =
  certificates :: "bytes \<rightharpoonup> tls_certificate"
  default_domain :: bytes

definition add_certificate :: "bytes \<Rightarrow> tls_certificate \<Rightarrow> tls_certificate_manager \<Rightarrow> tls_certificate_manager" where
  "add_certificate domain cert m =
     m\<lparr>default_domain := (if default_domain m = [] then domain else default_domain m),
       certificates := (certificates m)(domain \<mapsto> cert)\<rparr>"

definition get_default_certificate :: "tls_certificate_manager \<Rightarrow> tls_certificate option" where
  "get_default_certificate m = (if default_domain m = [] then None else certificates m (default_domain m))"

definition get_certificate :: "tls_certificate_manager \<Rightarrow> bytes \<Rightarrow> tls_certificate option" where
  "get_certificate m domain =
     (case certificates m domain of Some cert \<Rightarrow> Some cert | None \<Rightarrow> get_default_certificate m)"

end
