(* ===== verification/X509Round.thy ===== *)
theory X509Round
  imports X509Parse
begin

text \<open>
  Parsing inverts encoding: \<open>from_der\<close> on what \<open>to_der\<close> writes. One lemma for each part of a certificate
  (names, validity, public key, extensions, algorithm identifiers), composed at the end. \<open>reparsed\<close> says
  what comes back: the same certificate but for the parts the parser represents differently.
\<close>

lemmas tlv_encoders = encode_sequence_def encode_set_def encode_oid_def encode_octet_string_def encode_context_def
  encode_utf8_string_def encode_null_def

lemma decode_tlv2_encode [parses]:
  assumes "has_at d off (encode_tlv tag v)" "length d < 2 ^ 63"
  shows "decode_tlv2 d off = Ret (Some \<lparr>tlv_tag = tag, tlv_value = v\<rparr>, off + length (encode_tlv tag v))"
proof -
  have "\<exists>t. decode_tlv d off = Ret (Some (t, off + length (encode_tlv tag v)))"
    using decode_tlv_encode [OF assms] by blast
  then show ?thesis using decode_tlv_encode [OF assms]
    by (auto simp: decode_tlv_def decode_tlv2_def Let_def split: if_splits prod.splits)
qed

lemma need_tlv_encode [parses]:
  "has_at d off (encode_tlv tag v) \<Longrightarrow> length d < 2 ^ 63 \<Longrightarrow>
   need_tlv d off tag k = k \<lparr>tlv_tag = tag, tlv_value = v\<rparr> (off + length (encode_tlv tag v))"
  by (simp add: need_tlv_def decode_tlv2_encode)

lemma has_at_refl [simp]: "has_at d 0 d"
  by (simp add: has_at_def)

lemma has_at_prefix [simp]: "has_at (a @ b) 0 a"
  by (simp add: has_at_def)

lemma has_at_mid [simp]: "has_at (a @ b @ c) (length a) b" "has_at (a @ b) (length a) b"
  by (simp_all add: has_at_def)

lemma encode_tlv_length: "length v < length (encode_tlv tag v)"
  by (simp add: encode_tlv_def)

text \<open>Names.\<close>

lemma parse_ava_encode:
  assumes "length (encode_sequence (encode_oid oid @ encode_utf8_string val)) < 2 ^ 63"
  shows "parse_ava (encode_sequence (encode_oid oid @ encode_utf8_string val)) = Ret [\<lparr>na_oid = oid, na_value = val\<rparr>]"
proof -
  let ?b = "encode_tlv TAG_OID oid @ encode_tlv TAG_UTF8_STRING val"
  have l: "length (encode_tlv TAG_SEQUENCE ?b) < 2 ^ 63" "length ?b < 2 ^ 63"
    using assms encode_tlv_length [of ?b TAG_SEQUENCE] by (simp_all add: tlv_encoders)
  show ?thesis
    using l by (simp add: parse_ava_def tlv_encoders decode_tlv2_encode [where tag = TAG_SEQUENCE and v = ?b]
      decode_tlv2_encode [where tag = TAG_OID and v = oid] decode_tlv2_encode [where tag = TAG_UTF8_STRING and v = val] tlv_to_string_def)
qed

lemma parse_dn_loop_encode:
  assumes "has_at d off (concat (map encode_attribute dn))" "off + length (concat (map encode_attribute dn)) = length d"
    "length d < 2 ^ 63"
  shows "parse_dn_loop d off = Ret dn"
  using assms
proof (induction dn arbitrary: off)
  case Nil
  then show ?case by (subst parse_dn_loop.simps) simp
next
  case (Cons a dn)
  let ?v = "encode_sequence (encode_oid (na_oid a) @ encode_utf8_string (na_value a))"
  have e: "encode_attribute a = encode_tlv TAG_SET ?v" by (simp add: encode_attribute_def encode_set_def)
  have at: "has_at d off (encode_tlv TAG_SET ?v)" "has_at d (off + length (encode_tlv TAG_SET ?v)) (concat (map encode_attribute dn))"
    using Cons.prems(1) by (simp_all add: has_at_append e)
  have off: "off < length d" using Cons.prems(2) encode_tlv_length [of ?v TAG_SET] by (simp add: e)
  have "length ?v < 2 ^ 63" using Cons.prems(2,3) encode_tlv_length [of ?v TAG_SET] by (simp add: e)
  then have "parse_ava ?v = Ret [a]" using parse_ava_encode by simp
  moreover have "parse_dn_loop d (off + length (encode_tlv TAG_SET ?v)) = Ret dn"
    using Cons.prems(2,3) at(2) by (intro Cons.IH) (simp_all add: e)
  ultimately show ?case
    using off decode_tlv2_encode [OF at(1) Cons.prems(3)] by (subst parse_dn_loop.simps) simp
qed

lemma parse_dn_encode:
  "length (concat (map encode_attribute dn)) < 2 ^ 63 \<Longrightarrow> parse_dn (concat (map encode_attribute dn)) = Ret dn"
  unfolding parse_dn_def by (rule parse_dn_loop_encode) simp_all

text \<open>Validity.\<close>

lemma parse_validity_encode:
  assumes "- 631152000 \<le> sint nb" "sint nb < 2524608000" "- 631152000 \<le> sint na" "sint na < 2524608000"
    "encode_utc_time nb = Ret enb" "encode_utc_time na = Ret ena"
  shows "parse_validity (enb @ ena) = Ret (nb, na)"
proof -
  obtain v w where v: "enb = encode_tlv TAG_UTCTime v" "length v = 13" "tlv_to_utc_time \<lparr>tlv_tag = TAG_UTCTime, tlv_value = v\<rparr> = Some nb"
    and w: "ena = encode_tlv TAG_UTCTime w" "length w = 13" "tlv_to_utc_time \<lparr>tlv_tag = TAG_UTCTime, tlv_value = w\<rparr> = Some na"
    using utc_time_inverse [OF assms(1,2)] utc_time_inverse [OF assms(3,4)] assms(5,6) by auto
  have "length (enb @ ena) < 2 ^ 63" using v(2) w(2) by (simp add: v(1) w(1) encode_tlv_def encode_length_def)
  then show ?thesis
    using decode_tlv2_encode [of "enb @ ena" 0 TAG_UTCTime v] decode_tlv2_encode [of "enb @ ena" "length enb" TAG_UTCTime w] v w
    by (simp add: parse_validity_def Let_def)
qed

text \<open>Version.\<close>

lemma encode_integer_small: "x AND 0x80 = 0 \<Longrightarrow> encode_integer [x] = encode_tlv TAG_INTEGER [x]"
  by (simp add: encode_integer_def)

lemma small_byte: "0 \<le> v \<Longrightarrow> v \<le> 127 \<Longrightarrow> (word_of_int v :: u8) AND 0x80 = 0 \<and> uint (word_of_int v :: u8) = v"
proof -
  assume v: "0 \<le> v" "v \<le> 127"
  have "word_of_int v = (word_of_nat (nat v) :: u8)" using v by simp
  then have "(word_of_int v :: u8) AND 0x80 = 0" using septet(3) [of "nat v"] v by simp
  moreover have "uint (word_of_int v :: u8) = v" using v by (simp add: uint_word_of_int)
  ultimately show ?thesis by simp
qed

text \<open>Public keys.\<close>

definition wf_key :: "KeyType \<Rightarrow> bytes \<Rightarrow> bool" where
  "wf_key kt key \<longleftrightarrow>
     (is_rsa kt \<longrightarrow>
       3 < length key \<and> drop (length key - 3) key = [0x01, 0x00, 0x01]
       \<and> hd key AND 0x80 \<noteq> 0 \<and> kt = rsa_key_type_from_mod_len (length key - 3))"

lemma oid_equal_refl [simp]: "oid_equal x x"
  by (simp add: oid_equal_def)

lemma canonical_oid: "v = b # concat (map (\<lambda>c. oid_bytes (unat (c :: u64))) cs) \<Longrightarrow>
   tlv_to_oid \<lparr>tlv_tag = t, tlv_value = v\<rparr> = v"
  by (simp add: tlv_to_oid_def oid_components_canonical)

text \<open>The constants of the code are canonical: \<open>tlv_to_oid\<close> leaves them as they are.\<close>

lemma tlv_to_oid_constants [simp]:
  "tlv_to_oid \<lparr>tlv_tag = TAG_OID, tlv_value = OID_SM2\<rparr> = OID_SM2"
  "tlv_to_oid \<lparr>tlv_tag = TAG_OID, tlv_value = OID_EC_SECP256R1\<rparr> = OID_EC_SECP256R1"
  "tlv_to_oid \<lparr>tlv_tag = TAG_OID, tlv_value = OID_EC_SECP384R1\<rparr> = OID_EC_SECP384R1"
  "tlv_to_oid \<lparr>tlv_tag = TAG_OID, tlv_value = OID_EC_SECP521R1\<rparr> = OID_EC_SECP521R1"
  "tlv_to_oid \<lparr>tlv_tag = TAG_OID, tlv_value = OID_SHA256_WITH_RSA\<rparr> = OID_SHA256_WITH_RSA"
  "tlv_to_oid \<lparr>tlv_tag = TAG_OID, tlv_value = OID_SHA384_WITH_RSA\<rparr> = OID_SHA384_WITH_RSA"
  "tlv_to_oid \<lparr>tlv_tag = TAG_OID, tlv_value = OID_SHA512_WITH_RSA\<rparr> = OID_SHA512_WITH_RSA"
  "tlv_to_oid \<lparr>tlv_tag = TAG_OID, tlv_value = OID_RSASSA_PSS\<rparr> = OID_RSASSA_PSS"
  "tlv_to_oid \<lparr>tlv_tag = TAG_OID, tlv_value = OID_ECDSA_WITH_SHA256\<rparr> = OID_ECDSA_WITH_SHA256"
  "tlv_to_oid \<lparr>tlv_tag = TAG_OID, tlv_value = OID_ECDSA_WITH_SHA384\<rparr> = OID_ECDSA_WITH_SHA384"
  "tlv_to_oid \<lparr>tlv_tag = TAG_OID, tlv_value = OID_ECDSA_WITH_SHA512\<rparr> = OID_ECDSA_WITH_SHA512"
  "tlv_to_oid \<lparr>tlv_tag = TAG_OID, tlv_value = OID_ED25519\<rparr> = OID_ED25519"
  "tlv_to_oid \<lparr>tlv_tag = TAG_OID, tlv_value = OID_ED448\<rparr> = OID_ED448"
  "tlv_to_oid \<lparr>tlv_tag = TAG_OID, tlv_value = OID_SM2_WITH_SM3\<rparr> = OID_SM2_WITH_SM3"
  "tlv_to_oid \<lparr>tlv_tag = TAG_OID, tlv_value = OID_SHA256\<rparr> = OID_SHA256"
  "tlv_to_oid \<lparr>tlv_tag = TAG_OID, tlv_value = OID_SHA384\<rparr> = OID_SHA384"
  "tlv_to_oid \<lparr>tlv_tag = TAG_OID, tlv_value = OID_SHA512\<rparr> = OID_SHA512"
proof -
  note eval = oid_bytes_def oid_digits.simps key_oid_defs sig_oid_defs hash_oid_defs
  show "tlv_to_oid \<lparr>tlv_tag = TAG_OID, tlv_value = OID_SM2\<rparr> = OID_SM2"
    by (rule canonical_oid [where b = "0x2A" and cs = "[156, 10197, 1, 301]"]) (simp add: eval)
  show "tlv_to_oid \<lparr>tlv_tag = TAG_OID, tlv_value = OID_EC_SECP256R1\<rparr> = OID_EC_SECP256R1"
    by (rule canonical_oid [where b = "0x2A" and cs = "[840, 10045, 3, 1, 7]"]) (simp add: eval)
  show "tlv_to_oid \<lparr>tlv_tag = TAG_OID, tlv_value = OID_EC_SECP384R1\<rparr> = OID_EC_SECP384R1"
    by (rule canonical_oid [where b = "0x2B" and cs = "[132, 0, 34]"]) (simp add: eval)
  show "tlv_to_oid \<lparr>tlv_tag = TAG_OID, tlv_value = OID_EC_SECP521R1\<rparr> = OID_EC_SECP521R1"
    by (rule canonical_oid [where b = "0x2B" and cs = "[132, 0, 35]"]) (simp add: eval)
  show "tlv_to_oid \<lparr>tlv_tag = TAG_OID, tlv_value = OID_SHA256_WITH_RSA\<rparr> = OID_SHA256_WITH_RSA"
    by (rule canonical_oid [where b = "0x2A" and cs = "[840, 113549, 1, 1, 11]"]) (simp add: eval)
  show "tlv_to_oid \<lparr>tlv_tag = TAG_OID, tlv_value = OID_SHA384_WITH_RSA\<rparr> = OID_SHA384_WITH_RSA"
    by (rule canonical_oid [where b = "0x2A" and cs = "[840, 113549, 1, 1, 12]"]) (simp add: eval)
  show "tlv_to_oid \<lparr>tlv_tag = TAG_OID, tlv_value = OID_SHA512_WITH_RSA\<rparr> = OID_SHA512_WITH_RSA"
    by (rule canonical_oid [where b = "0x2A" and cs = "[840, 113549, 1, 1, 13]"]) (simp add: eval)
  show "tlv_to_oid \<lparr>tlv_tag = TAG_OID, tlv_value = OID_RSASSA_PSS\<rparr> = OID_RSASSA_PSS"
    by (rule canonical_oid [where b = "0x2A" and cs = "[840, 113549, 1, 1, 10]"]) (simp add: eval)
  show "tlv_to_oid \<lparr>tlv_tag = TAG_OID, tlv_value = OID_ECDSA_WITH_SHA256\<rparr> = OID_ECDSA_WITH_SHA256"
    by (rule canonical_oid [where b = "0x2A" and cs = "[840, 10045, 4, 3, 2]"]) (simp add: eval)
  show "tlv_to_oid \<lparr>tlv_tag = TAG_OID, tlv_value = OID_ECDSA_WITH_SHA384\<rparr> = OID_ECDSA_WITH_SHA384"
    by (rule canonical_oid [where b = "0x2A" and cs = "[840, 10045, 4, 3, 3]"]) (simp add: eval)
  show "tlv_to_oid \<lparr>tlv_tag = TAG_OID, tlv_value = OID_ECDSA_WITH_SHA512\<rparr> = OID_ECDSA_WITH_SHA512"
    by (rule canonical_oid [where b = "0x2A" and cs = "[840, 10045, 4, 3, 4]"]) (simp add: eval)
  show "tlv_to_oid \<lparr>tlv_tag = TAG_OID, tlv_value = OID_ED25519\<rparr> = OID_ED25519"
    by (rule canonical_oid [where b = "0x2B" and cs = "[101, 112]"]) (simp add: eval)
  show "tlv_to_oid \<lparr>tlv_tag = TAG_OID, tlv_value = OID_ED448\<rparr> = OID_ED448"
    by (rule canonical_oid [where b = "0x2B" and cs = "[101, 113]"]) (simp add: eval)
  show "tlv_to_oid \<lparr>tlv_tag = TAG_OID, tlv_value = OID_SM2_WITH_SM3\<rparr> = OID_SM2_WITH_SM3"
    by (rule canonical_oid [where b = "0x2A" and cs = "[156, 10197, 1, 501]"]) (simp add: eval)
  show "tlv_to_oid \<lparr>tlv_tag = TAG_OID, tlv_value = OID_SHA256\<rparr> = OID_SHA256"
    by (rule canonical_oid [where b = "0x60" and cs = "[840, 1, 101, 3, 4, 2, 1]"]) (simp add: eval)
  show "tlv_to_oid \<lparr>tlv_tag = TAG_OID, tlv_value = OID_SHA384\<rparr> = OID_SHA384"
    by (rule canonical_oid [where b = "0x60" and cs = "[840, 1, 101, 3, 4, 2, 2]"]) (simp add: eval)
  show "tlv_to_oid \<lparr>tlv_tag = TAG_OID, tlv_value = OID_SHA512\<rparr> = OID_SHA512"
    by (rule canonical_oid [where b = "0x60" and cs = "[840, 1, 101, 3, 4, 2, 3]"]) (simp add: eval)
qed

lemma key_oids_distinct [simp]:
  "oid_equal OID_EC_PUBLIC_KEY OID_RSA_ENCRYPTION = False" "oid_equal OID_ED25519 OID_RSA_ENCRYPTION = False"
  "oid_equal OID_ED448 OID_RSA_ENCRYPTION = False" "oid_equal OID_ED25519 OID_EC_PUBLIC_KEY = False"
  "oid_equal OID_ED448 OID_EC_PUBLIC_KEY = False" "oid_equal OID_ED448 OID_ED25519 = False"
  "oid_equal OID_EC_SECP256R1 OID_SM2 = False" "oid_equal OID_EC_SECP256R1 OID_EC_SECP384R1 = False"
  "oid_equal OID_EC_SECP256R1 OID_EC_SECP521R1 = False" "oid_equal OID_EC_SECP384R1 OID_SM2 = False"
  "oid_equal OID_EC_SECP521R1 OID_SM2 = False" "oid_equal OID_EC_SECP521R1 OID_EC_SECP384R1 = False"
  by (simp_all add: oid_equal_def key_oid_defs)

lemma spki_key_type_encode:
  assumes "length (spki_algorithm kt) < 2 ^ 63"
  shows "\<exists>oid rest. spki_algorithm kt = encode_tlv TAG_OID oid @ rest
    \<and> spki_key_type oid (spki_algorithm kt) (length (encode_tlv TAG_OID oid)) = Ret (if is_rsa kt then RSA_2048 else kt)"
proof (cases "is_ec kt")
  case True
  define curve where
    "curve = (case kt of ECDSA_P384 \<Rightarrow> OID_EC_SECP384R1 | ECDSA_P521 \<Rightarrow> OID_EC_SECP521R1 | SM2 \<Rightarrow> OID_SM2 | _ \<Rightarrow> OID_EC_SECP256R1)"
  have c: "spki_algorithm kt = encode_tlv TAG_OID OID_EC_PUBLIC_KEY @ encode_tlv TAG_OID curve"
    using True by (auto simp: is_ec_def spki_algorithm_def encode_oid_def curve_def)
  have "decode_tlv2 (spki_algorithm kt) (length (encode_tlv TAG_OID OID_EC_PUBLIC_KEY))
      = Ret (Some \<lparr>tlv_tag = TAG_OID, tlv_value = curve\<rparr>, length (spki_algorithm kt))"
    using decode_tlv2_encode [OF _ assms, of "length (encode_tlv TAG_OID OID_EC_PUBLIC_KEY)" TAG_OID curve] by (simp add: c)
  then have "spki_key_type OID_EC_PUBLIC_KEY (spki_algorithm kt) (length (encode_tlv TAG_OID OID_EC_PUBLIC_KEY)) = Ret kt"
    using True by (auto simp: spki_key_type_def curve_def is_ec_def Let_def)
  with True c show ?thesis by (auto simp: is_ec_def is_rsa_def)
next
  case False
  then have "kt = Ed25519 \<or> kt = Ed448 \<or> is_rsa kt" by (cases kt) (simp_all add: is_ec_def is_rsa_def)
  then show ?thesis
  proof (elim disjE)
    assume "is_rsa kt"
    then have "spki_algorithm kt = encode_tlv TAG_OID OID_RSA_ENCRYPTION @ encode_null"
      by (auto simp: is_rsa_def spki_algorithm_def encode_oid_def)
    with \<open>is_rsa kt\<close> show ?thesis by (intro exI conjI) (assumption, simp add: spki_key_type_def)
  next
    assume "kt = Ed25519"
    then show ?thesis
      by (intro exI [of _ OID_ED25519] exI [of _ "[]"]) (simp add: spki_algorithm_def encode_oid_def spki_key_type_def is_rsa_def)
  next
    assume "kt = Ed448"
    then show ?thesis
      by (intro exI [of _ OID_ED448] exI [of _ "[]"]) (simp add: spki_algorithm_def encode_oid_def spki_key_type_def is_rsa_def)
  qed
qed

lemma encode_integer_high: "n \<noteq> [] \<Longrightarrow> hd n AND 0x80 \<noteq> 0 \<Longrightarrow> encode_integer n = encode_tlv TAG_INTEGER (0x00 # n)"
  by (cases n) (simp_all add: encode_integer_def)

lemma rsa_raw_key_encode:
  assumes "n \<noteq> []" "hd n AND 0x80 \<noteq> 0" "length (encode_sequence (encode_integer n @ encode_integer e)) < 2 ^ 63"
    "encode_integer e = encode_tlv TAG_INTEGER e"
  shows "rsa_raw_key (encode_sequence (encode_integer n @ encode_integer e)) = Ret (rsa_key_type_from_mod_len (length n), n @ e)"
proof -
  let ?b = "encode_tlv TAG_INTEGER (0x00 # n) @ encode_tlv TAG_INTEGER e"
  have enc: "encode_sequence (encode_integer n @ encode_integer e) = encode_tlv TAG_SEQUENCE ?b"
    using assms(1,2,4) by (simp add: encode_integer_high encode_sequence_def)
  have l: "length (encode_tlv TAG_SEQUENCE ?b) < 2 ^ 63" "length ?b < 2 ^ 63"
    using assms(3) encode_tlv_length [of ?b TAG_SEQUENCE] by (simp_all add: enc)
  show ?thesis
    unfolding rsa_raw_key_def enc using l
    by (simp add: decode_tlv2_encode [where tag = TAG_SEQUENCE and v = ?b]
      decode_tlv2_encode [where tag = TAG_INTEGER and v = "0x00 # n"] decode_tlv2_encode [where tag = TAG_INTEGER and v = e] Let_def)
qed

lemma parse_spki_encode:
  assumes "wf_key kt key" "encode_spki kt key = Ret spki" "length spki < 2 ^ 63"
  obtains b where "spki = encode_tlv TAG_SEQUENCE b" "parse_spki b = Ret (Some (kt, key))"
proof -
  obtain pub where pub: "spki_key kt key = Ret (encode_bit_string pub 0)"
    "pub = (if is_rsa kt then encode_sequence (encode_integer (take (length key - 3) key) @ encode_integer [0x01, 0x00, 0x01])
            else if is_ec kt then 0x04 # key else key)"
    using assms(1) by (auto simp: spki_key_def wf_key_def Let_def)
  let ?a = "spki_algorithm kt"
  let ?b = "encode_tlv TAG_SEQUENCE ?a @ encode_tlv TAG_BIT_STRING (0x00 # pub)"
  have spki: "spki = encode_tlv TAG_SEQUENCE ?b"
    using assms(2) pub(1) by (simp add: encode_spki_def encode_sequence_def encode_bit_string_def)
  have l: "length ?b < 2 ^ 63" "length ?a < 2 ^ 63" "length pub < 2 ^ 63"
    using assms(3) encode_tlv_length [of ?b TAG_SEQUENCE] encode_tlv_length [of ?a TAG_SEQUENCE]
      encode_tlv_length [of "0x00 # pub" TAG_BIT_STRING] by (simp_all add: spki)
  obtain oid rest where oid: "?a = encode_tlv TAG_OID oid @ rest"
    "spki_key_type oid ?a (length (encode_tlv TAG_OID oid)) = Ret (if is_rsa kt then RSA_2048 else kt)"
    using spki_key_type_encode [OF l(2)] by auto
  have rsa: "rsa_raw_key pub = Ret (kt, key)" if "is_rsa kt"
  proof -
    let ?n = "take (length key - 3) key"
    have k: "3 < length key" "drop (length key - 3) key = [0x01, 0x00, 0x01]" "hd key AND 0x80 \<noteq> 0"
      "kt = rsa_key_type_from_mod_len (length key - 3)" using assms(1) that by (simp_all add: wf_key_def)
    have "?n @ [0x01, 0x00, 0x01] = key" using k(2) by (metis append_take_drop_id)
    moreover have "?n \<noteq> []" "hd ?n = hd key" using k(1) by (auto simp: hd_take)
    ultimately show ?thesis
      using rsa_raw_key_encode [of ?n "[0x01, 0x00, 0x01]"] k l(3) that by (simp add: pub(2) encode_integer_def)
  qed
  have "parse_spki ?b = Ret (Some (kt, key))"
    unfolding parse_spki_def
    using l oid rsa
    by (simp add: need_tlv_encode [where tag = TAG_SEQUENCE and v = ?a] need_tlv_encode [where tag = TAG_OID and v = oid]
      need_tlv_encode [where tag = TAG_BIT_STRING and v = "0x00 # pub"] tlv_to_bit_string_def)
     (auto simp: is_rsa_def is_ec_def pub(2) strip_point_prefix_def Let_def)
  with spki show thesis by (rule that)
qed

text \<open>Extensions: the list a certificate writes, and what the parser stores of it.\<close>

type_synonym extension = "bytes \<times> bool \<times> bytes"

definition extension_bytes :: "extension \<Rightarrow> bytes" where
  "extension_bytes e = encode_extension (fst e) (fst (snd e)) (snd (snd e))"

primrec store_all :: "extension list \<Rightarrow> x509_cert \<Rightarrow> x509_cert run" where
  "store_all [] cert = Ret cert"
| "store_all (e # es) cert = run_bind (store_extension (fst e) (fst (snd e)) (snd (snd e)) cert) (store_all es)"

lemma store_all_append: "store_all (xs @ ys) cert = run_bind (store_all xs cert) (store_all ys)"
proof (induction xs arbitrary: cert)
  case (Cons e xs)
  then show ?case by (cases "store_extension (fst e) (fst (snd e)) (snd (snd e)) cert") simp_all
qed simp

lemma has_at_third [simp]: "has_at (a @ b @ c) (length a + length b) c"
  by (simp add: has_at_def)

lemma boolean_true: "encode_tlv TAG_BOOLEAN [0xFF] = [0x01, 0x01, 0xFF]"
  by (simp add: encode_tlv_def encode_length_def TAG_BOOLEAN_def)

lemma parse_extn_value_encode:
  assumes "length (encode_oid oid @ (if crit then [0x01, 0x01, 0xFF] else []) @ encode_octet_string v) < 2 ^ 63"
  shows "parse_extn_value (encode_oid oid @ (if crit then [0x01, 0x01, 0xFF] else []) @ encode_octet_string v)
     (length (encode_oid oid)) = Ret (Some (crit, v))"
proof (cases crit)
  case True
  then show ?thesis
    using assms
    by (simp only: if_True boolean_true [symmetric] encode_octet_string_def parse_extn_value_def)
      (simp add: decode_tlv2_encode [where tag = TAG_BOOLEAN and v = "[0xFF]"]
      need_tlv_encode [where tag = TAG_OCTET_STRING and v = v])
next
  case False
  then show ?thesis
    using assms by (simp add: parse_extn_value_def encode_octet_string_def
      decode_tlv2_encode [where tag = TAG_OCTET_STRING and v = v]) (simp add: tag_defs)
qed

lemma parse_extension_list_encode:
  assumes "has_at seq off (concat (map extension_bytes es))" "off + length (concat (map extension_bytes es)) = length seq"
    "length seq < 2 ^ 63"
  shows "parse_extension_list seq off cert = store_all es cert"
  using assms
proof (induction es arbitrary: off cert)
  case Nil
  then show ?case by (subst parse_extension_list.simps) simp
next
  case (Cons e es)
  obtain oid crit v where e: "e = (oid, crit, v)" by (cases e)
  define body where "body = encode_oid oid @ (if crit then [0x01, 0x01, 0xFF] else []) @ encode_octet_string v"
  let ?b = body
  have b: "extension_bytes e = encode_tlv TAG_SEQUENCE ?b"
    by (simp add: extension_bytes_def e encode_extension_def encode_sequence_def body_def)
  have at: "has_at seq off (encode_tlv TAG_SEQUENCE ?b)"
    "has_at seq (off + length (encode_tlv TAG_SEQUENCE ?b)) (concat (map extension_bytes es))"
    using Cons.prems(1) by (simp_all add: has_at_append b)
  have off: "off < length seq" using Cons.prems(2) encode_tlv_length [of ?b TAG_SEQUENCE] by (simp add: b)
  have l: "length ?b < 2 ^ 63" using Cons.prems(2,3) encode_tlv_length [of ?b TAG_SEQUENCE] by (simp add: b)
  have "decode_tlv2 ?b 0 = Ret (Some \<lparr>tlv_tag = TAG_OID, tlv_value = oid\<rparr>, length (encode_oid oid))"
    using decode_tlv2_encode [OF _ l, of 0 TAG_OID oid] by (simp add: encode_oid_def body_def)
  moreover have "parse_extension_list seq (off + length (encode_tlv TAG_SEQUENCE ?b)) = store_all es"
    using Cons.prems(2,3) at(2) by (intro ext Cons.IH) (simp_all add: b)
  ultimately show ?case
    using off decode_tlv2_encode [OF at(1) Cons.prems(3)] parse_extn_value_encode [OF l [unfolded body_def], folded body_def]
    by (subst parse_extension_list.simps) (simp add: e)
qed

lemma parse_extensions_encode:
  assumes "has_at d off (if es = [] then [] else encode_context TAG_CONTEXT3 (encode_sequence (concat (map extension_bytes es))))"
    "off + length (if es = [] then [] else encode_context TAG_CONTEXT3 (encode_sequence (concat (map extension_bytes es)))) = length d"
    "length d < 2 ^ 63"
  shows "parse_extensions d off cert = store_all es cert"
proof (cases "es = []")
  case False
  let ?c = "concat (map extension_bytes es)"
  let ?s = "encode_tlv TAG_SEQUENCE ?c"
  have at: "has_at d off (encode_tlv TAG_CONTEXT3 ?s)" and len: "off + length (encode_tlv TAG_CONTEXT3 ?s) = length d"
    using assms(1,2) False by (simp_all add: encode_context_def encode_sequence_def)
  have l: "length ?s < 2 ^ 63" "length ?c < 2 ^ 63" "off < length d"
    using len assms(3) encode_tlv_length [of ?s TAG_CONTEXT3] encode_tlv_length [of ?c TAG_SEQUENCE] by linarith+
  have "decode_tlv2 ?s 0 = Ret (Some \<lparr>tlv_tag = TAG_SEQUENCE, tlv_value = ?c\<rparr>, length ?s)"
    using decode_tlv2_encode [OF has_at_refl l(1)] by simp
  then show ?thesis
    using l decode_tlv2_encode [OF at assms(3)] parse_extension_list_encode [of ?c 0 es cert]
    by (simp add: parse_extensions_def)
qed (use assms in \<open>simp add: parse_extensions_def\<close>)

definition wf_basic_constraints :: "BasicConstraints \<Rightarrow> bool" where
  "wf_basic_constraints bc \<longleftrightarrow> path_len bc = -1 \<or> ca bc \<and> 0 \<le> path_len bc \<and> path_len bc \<le> 127"

definition bc_extensions :: "BasicConstraints option \<Rightarrow> extension list" where
  "bc_extensions bc = (case bc of None \<Rightarrow> []
     | Some bc \<Rightarrow> [(OID_BASIC_CONSTRAINTS, True, encode_sequence ((if ca bc then [0x01, 0x01, 0xFF] else [])
         @ (if path_len bc \<ge> 0
            then encode_integer (if path_len bc = 0 then [0] else rev (length_bytes (nat (path_len bc)))) else [])))])"

lemma basic_constraints_ext_eq: "basic_constraints_ext bc = concat (map extension_bytes (bc_extensions bc))"
  by (simp add: basic_constraints_ext_def bc_extensions_def extension_bytes_def Let_def split: option.split)

lemma length_bytes_small: "0 < n \<Longrightarrow> n < 256 \<Longrightarrow> length_bytes n = [word_of_nat n]"
  by (simp add: length_bytes.simps)

lemma path_len_integer:
  assumes "0 \<le> p" "p \<le> 127"
  shows "encode_integer (if p = 0 then [0] else rev (length_bytes (nat p))) = encode_tlv TAG_INTEGER [word_of_int p]"
proof -
  have "(if p = 0 then [0] else rev (length_bytes (nat p))) = [word_of_int p]"
    using assms length_bytes_small [of "nat p"] by simp
  then show ?thesis using small_byte [OF assms] by (simp only: encode_integer_small)
qed

lemma parse_basic_constraints_encode:
  assumes "wf_basic_constraints bc" "bc_extensions (Some bc) = [(oid, crit, v)]"
  shows "parse_basic_constraints v = Ret (Some bc)"
proof -
  obtain c p where bc: "bc = \<lparr>ca = c, path_len = p\<rparr>" by (cases bc)
  define i where "i = encode_tlv TAG_INTEGER [word_of_int p]"
  have v: "v = encode_tlv TAG_SEQUENCE ((if c then encode_tlv TAG_BOOLEAN [0xFF] else []) @ (if p \<ge> 0 then i else []))"
    using assms path_len_integer [of p]
    by (auto simp: bc bc_extensions_def boolean_true encode_sequence_def wf_basic_constraints_def i_def)
  consider "c" "0 \<le> p" "p \<le> 127" | "c" "p = -1" | "\<not> c" "p = -1"
    using assms(1) by (auto simp: bc wf_basic_constraints_def)
  then show ?thesis
  proof cases
    case 1
    then have "v = [0x30, 6, 0x01, 0x01, 0xFF, 0x02, 0x01, word_of_int p]"
      by (simp add: v i_def encode_tlv_def encode_length_def tag_defs)
    then show ?thesis using 1 small_byte [OF 1(2,3)]
      by (simp add: parse_basic_constraints_def decode_tlv2_def decode_length_def tag_defs Let_def bc)
  next
    case 2
    then have "v = [0x30, 3, 0x01, 0x01, 0xFF]"
      by (simp add: v i_def encode_tlv_def encode_length_def tag_defs)
    then show ?thesis using 2
      by (simp add: parse_basic_constraints_def decode_tlv2_def decode_length_def tag_defs Let_def bc)
  next
    case 3
    then have "v = [0x30, 0]"
      by (simp add: v i_def encode_tlv_def encode_length_def tag_defs)
    then show ?thesis using 3
      by (simp add: parse_basic_constraints_def decode_tlv2_def decode_length_def tag_defs Let_def bc)
  qed
qed

text \<open>Names of the subject.\<close>

lemma san_dns_names_encode:
  assumes "has_at d off (concat (map (encode_tlv 0x82) names))" "off + length (concat (map (encode_tlv 0x82) names)) = length d"
    "length d < 2 ^ 63"
  shows "san_dns_names d off = Ret names"
  using assms
proof (induction names arbitrary: off)
  case Nil
  then show ?case by (subst san_dns_names.simps) simp
next
  case (Cons n names)
  have at: "has_at d off (encode_tlv 0x82 n)" "has_at d (off + length (encode_tlv 0x82 n)) (concat (map (encode_tlv 0x82) names))"
    using Cons.prems(1) by (simp_all add: has_at_append)
  have "off < length d" using Cons.prems(2) encode_tlv_length [of n "0x82"] by simp
  moreover have "san_dns_names d (off + length (encode_tlv 0x82 n)) = Ret names"
    using Cons.prems(2,3) at(2) by (intro Cons.IH) simp_all
  ultimately show ?case
    using decode_tlv2_encode [OF at(1) Cons.prems(3)] by (subst san_dns_names.simps) simp
qed

definition san_extensions :: "SubjectAlternativeName option \<Rightarrow> extension list" where
  "san_extensions san = (case san of None \<Rightarrow> []
     | Some san \<Rightarrow> if dns_names san = [] then []
         else [(OID_SUBJECT_ALT_NAME, False, encode_sequence (concat (map (encode_tlv 0x82) (dns_names san))))])"

lemma subject_alt_name_ext_eq: "subject_alt_name_ext san = concat (map extension_bytes (san_extensions san))"
proof -
  have "encode_tlv 0x82 = (\<lambda>dns. 0x82 # encode_length (length dns) @ dns)" by (simp add: fun_eq_iff encode_tlv_def)
  then show ?thesis
    by (simp add: subject_alt_name_ext_def san_extensions_def extension_bytes_def split: option.split)
qed

lemma parse_subject_alt_name_encode:
  assumes "length (encode_sequence (concat (map (encode_tlv 0x82) names))) < 2 ^ 63"
  shows "parse_subject_alt_name (encode_sequence (concat (map (encode_tlv 0x82) names)))
    = Ret (Some \<lparr>dns_names = names, ip_addrs = []\<rparr>)"
proof -
  let ?c = "concat (map (encode_tlv 0x82) names)"
  have l: "length (encode_tlv TAG_SEQUENCE ?c) < 2 ^ 63" "length ?c < 2 ^ 63"
    using assms encode_tlv_length [of ?c TAG_SEQUENCE] by (simp_all add: encode_sequence_def)
  have "decode_tlv2 (encode_tlv TAG_SEQUENCE ?c) 0
      = Ret (Some \<lparr>tlv_tag = TAG_SEQUENCE, tlv_value = ?c\<rparr>, length (encode_tlv TAG_SEQUENCE ?c))"
    using decode_tlv2_encode [OF has_at_refl l(1)] by simp
  then show ?thesis
    using san_dns_names_encode [of ?c 0 names] l(2)
    by (simp add: parse_subject_alt_name_def encode_sequence_def)
qed

text \<open>All extensions of a certificate, in the order they are written.\<close>

definition ku_extensions :: "u16 option \<Rightarrow> extension list" where
  "ku_extensions ku = (case ku of None \<Rightarrow> []
     | Some bits \<Rightarrow> if bits = 0 then []
         else let meaningful = 16 - trailing_zeros (unat bits); ku_len = (meaningful + 7) div 8
              in [(OID_KEY_USAGE, True,
                   encode_bit_string (take ku_len [ucast (drop_bit 8 bits), ucast (bits AND 0xFF)])
                     (word_of_nat (ku_len * 8 - meaningful)))])"

definition eku_extensions :: "ExtKeyUsage list option \<Rightarrow> extension list" where
  "eku_extensions eku = (case eku of None \<Rightarrow> []
     | Some us \<Rightarrow> if us = [] then []
         else [(OID_EXT_KEY_USAGE, False, encode_sequence (concat (map (\<lambda>u. encode_oid (eku_oid u)) us)))])"

definition raw_extension :: "extension \<Rightarrow> RawExtension" where
  "raw_extension e = \<lparr>r_oid = fst e, r_critical = fst (snd e), r_extn_value = snd (snd e)\<rparr>"

definition of_raw :: "RawExtension \<Rightarrow> extension" where
  "of_raw r = (r_oid r, r_critical r, r_extn_value r)"

definition extension_list :: "x509_cert \<Rightarrow> extension list" where
  "extension_list c = bc_extensions (basic_constraints c) @ ku_extensions (key_usage c) @ eku_extensions (ext_key_usage c)
     @ san_extensions (subject_alt_name c) @ map of_raw (raw_extensions c)"

lemma extension_bodies_eq: "extension_bodies c = concat (map extension_bytes (extension_list c))"
proof -
  have "key_usage_ext ku = concat (map extension_bytes (ku_extensions ku))" for ku
    by (simp add: key_usage_ext_def ku_extensions_def extension_bytes_def Let_def split: option.split)
  moreover have "ext_key_usage_ext eku = concat (map extension_bytes (eku_extensions eku))" for eku
    by (simp add: ext_key_usage_ext_def eku_extensions_def extension_bytes_def split: option.split)
  ultimately show ?thesis
    by (simp add: extension_bodies_def extension_list_def basic_constraints_ext_eq subject_alt_name_ext_eq
      extension_bytes_def of_raw_def comp_def)
qed

lemma extension_bytes_pos: "extension_bytes e \<noteq> []"
  by (simp add: extension_bytes_def encode_extension_def encode_sequence_def encode_tlv_def)

lemma encode_extensions_eq:
  "encode_extensions c = (if extension_list c = [] then []
     else encode_context TAG_CONTEXT3 (encode_sequence (concat (map extension_bytes (extension_list c)))))"
proof -
  have "concat (map extension_bytes es) = [] \<longleftrightarrow> es = []" for es
    by (cases es) (simp_all add: extension_bytes_pos)
  then show ?thesis by (simp add: encode_extensions_def extension_bodies_eq Let_def)
qed

lemma store_raw:
  assumes "\<forall>e\<in>set es. fst e \<noteq> OID_BASIC_CONSTRAINTS \<and> fst e \<noteq> OID_SUBJECT_ALT_NAME"
  shows "store_all es c = Ret (c\<lparr>raw_extensions := raw_extensions c @ map raw_extension es\<rparr>)"
  using assms
proof (induction es arbitrary: c)
  case (Cons e es)
  then have "store_extension (fst e) (fst (snd e)) (snd (snd e)) c = Ret (c\<lparr>raw_extensions := raw_extensions c @ [raw_extension e]\<rparr>)"
    by (simp add: store_extension_def oid_equal_def raw_extension_def)
  with Cons show ?case by simp
qed simp

definition parsed_san :: "SubjectAlternativeName option \<Rightarrow> SubjectAlternativeName option" where
  "parsed_san san = (case san of None \<Rightarrow> None | Some s \<Rightarrow> if dns_names s = [] then None else Some (s\<lparr>ip_addrs := []\<rparr>))"

lemma store_extension_list:
  assumes "\<forall>bc. basic_constraints c = Some bc \<longrightarrow> wf_basic_constraints bc"
    "\<forall>r\<in>set (raw_extensions c). r_oid r \<noteq> OID_BASIC_CONSTRAINTS \<and> r_oid r \<noteq> OID_SUBJECT_ALT_NAME"
    "length (concat (map extension_bytes (extension_list c))) < 2 ^ 63"
    "basic_constraints b = None" "subject_alt_name b = None" "raw_extensions b = []"
  shows "store_all (extension_list c) b = Ret (b\<lparr>basic_constraints := basic_constraints c,
     subject_alt_name := parsed_san (subject_alt_name c),
     raw_extensions := map raw_extension (ku_extensions (key_usage c) @ eku_extensions (ext_key_usage c)) @ raw_extensions c\<rparr>)"
proof -
  have bc: "store_all (bc_extensions (basic_constraints c)) b = Ret (b\<lparr>basic_constraints := basic_constraints c\<rparr>)"
  proof (cases "basic_constraints c")
    case (Some bc)
    then obtain oid crit v where e: "bc_extensions (Some bc) = [(oid, crit, v)]" "oid = OID_BASIC_CONSTRAINTS"
      by (simp add: bc_extensions_def)
    then show ?thesis
      using Some parse_basic_constraints_encode [OF _ e(1)] assms(1) by (simp add: store_extension_def)
  qed (use assms(4) in \<open>simp add: bc_extensions_def\<close>)
  have ku: "\<forall>e\<in>set (ku_extensions (key_usage c) @ eku_extensions (ext_key_usage c)).
      fst e \<noteq> OID_BASIC_CONSTRAINTS \<and> fst e \<noteq> OID_SUBJECT_ALT_NAME"
    by (auto simp: ku_extensions_def eku_extensions_def ext_oid_defs Let_def split: option.splits if_splits)
  have raw: "\<forall>e\<in>set (map of_raw (raw_extensions c)). fst e \<noteq> OID_BASIC_CONSTRAINTS \<and> fst e \<noteq> OID_SUBJECT_ALT_NAME"
    using assms(2) by (simp add: of_raw_def)
  have san: "store_all (san_extensions (subject_alt_name c)) d = Ret (d\<lparr>subject_alt_name := parsed_san (subject_alt_name c)\<rparr>)"
    if "subject_alt_name d = None" for d
  proof (cases "san_extensions (subject_alt_name c)")
    case Nil
    then show ?thesis using that by (simp add: san_extensions_def parsed_san_def split: option.splits if_splits)
  next
    case (Cons e es)
    then obtain s where s: "subject_alt_name c = Some s" "dns_names s \<noteq> []"
      by (auto simp: san_extensions_def split: option.splits if_splits)
    let ?v = "encode_sequence (concat (map (encode_tlv 0x82) (dns_names s)))"
    have mem: "(OID_SUBJECT_ALT_NAME, False, ?v) \<in> set (extension_list c)"
      using s by (simp add: extension_list_def san_extensions_def)
    have "length ?v < length (extension_bytes (OID_SUBJECT_ALT_NAME, False, ?v))"
      by (simp add: extension_bytes_def encode_extension_def encode_sequence_def encode_octet_string_def encode_tlv_def)
    also have "\<dots> \<le> length (concat (map extension_bytes (extension_list c)))"
      using mem by (auto simp: length_concat intro: member_le_sum_list)
    finally have "length ?v < 2 ^ 63" using assms(3) by simp
    then show ?thesis
      using s parse_subject_alt_name_encode [of "dns_names s"]
      by (simp add: san_extensions_def parsed_san_def store_extension_def oid_equal_def ext_oid_defs)
  qed
  have "map (raw_extension \<circ> of_raw) rs = rs" for rs :: "RawExtension list"
    by (simp add: raw_extension_def of_raw_def map_idI)
  moreover define us where "us = ku_extensions (key_usage c) @ eku_extensions (ext_key_usage c)"
  have "extension_list c = bc_extensions (basic_constraints c) @ us @ san_extensions (subject_alt_name c)
      @ map of_raw (raw_extensions c)" by (simp add: extension_list_def us_def)
  ultimately show ?thesis
    using store_raw [OF ku, folded us_def] store_raw [OF raw] assms(4-6)
    by (simp add: store_all_append bc san us_def [symmetric] del: map_append)
qed

text \<open>The signature algorithm.\<close>

lemma sig_oids_distinct [simp]:
  "\<not> oid_equal OID_SHA384_WITH_RSA OID_SHA256_WITH_RSA"
  "\<not> oid_equal OID_SHA512_WITH_RSA OID_SHA256_WITH_RSA \<and> \<not> oid_equal OID_SHA512_WITH_RSA OID_SHA384_WITH_RSA"
  "\<not> oid_equal OID_RSASSA_PSS OID_SHA256_WITH_RSA \<and> \<not> oid_equal OID_RSASSA_PSS OID_SHA384_WITH_RSA \<and> \<not> oid_equal OID_RSASSA_PSS OID_SHA512_WITH_RSA"
  "\<not> oid_equal OID_ECDSA_WITH_SHA256 OID_SHA256_WITH_RSA \<and> \<not> oid_equal OID_ECDSA_WITH_SHA256 OID_SHA384_WITH_RSA \<and> \<not> oid_equal OID_ECDSA_WITH_SHA256 OID_SHA512_WITH_RSA \<and> \<not> oid_equal OID_ECDSA_WITH_SHA256 OID_RSASSA_PSS"
  "\<not> oid_equal OID_ECDSA_WITH_SHA384 OID_SHA256_WITH_RSA \<and> \<not> oid_equal OID_ECDSA_WITH_SHA384 OID_SHA384_WITH_RSA \<and> \<not> oid_equal OID_ECDSA_WITH_SHA384 OID_SHA512_WITH_RSA \<and> \<not> oid_equal OID_ECDSA_WITH_SHA384 OID_RSASSA_PSS \<and> \<not> oid_equal OID_ECDSA_WITH_SHA384 OID_ECDSA_WITH_SHA256"
  "\<not> oid_equal OID_ECDSA_WITH_SHA512 OID_SHA256_WITH_RSA \<and> \<not> oid_equal OID_ECDSA_WITH_SHA512 OID_SHA384_WITH_RSA \<and> \<not> oid_equal OID_ECDSA_WITH_SHA512 OID_SHA512_WITH_RSA \<and> \<not> oid_equal OID_ECDSA_WITH_SHA512 OID_RSASSA_PSS \<and> \<not> oid_equal OID_ECDSA_WITH_SHA512 OID_ECDSA_WITH_SHA256 \<and> \<not> oid_equal OID_ECDSA_WITH_SHA512 OID_ECDSA_WITH_SHA384"
  "\<not> oid_equal OID_ED25519 OID_SHA256_WITH_RSA \<and> \<not> oid_equal OID_ED25519 OID_SHA384_WITH_RSA \<and> \<not> oid_equal OID_ED25519 OID_SHA512_WITH_RSA \<and> \<not> oid_equal OID_ED25519 OID_RSASSA_PSS \<and> \<not> oid_equal OID_ED25519 OID_ECDSA_WITH_SHA256 \<and> \<not> oid_equal OID_ED25519 OID_ECDSA_WITH_SHA384 \<and> \<not> oid_equal OID_ED25519 OID_ECDSA_WITH_SHA512"
  "\<not> oid_equal OID_ED448 OID_SHA256_WITH_RSA \<and> \<not> oid_equal OID_ED448 OID_SHA384_WITH_RSA \<and> \<not> oid_equal OID_ED448 OID_SHA512_WITH_RSA \<and> \<not> oid_equal OID_ED448 OID_RSASSA_PSS \<and> \<not> oid_equal OID_ED448 OID_ECDSA_WITH_SHA256 \<and> \<not> oid_equal OID_ED448 OID_ECDSA_WITH_SHA384 \<and> \<not> oid_equal OID_ED448 OID_ECDSA_WITH_SHA512 \<and> \<not> oid_equal OID_ED448 OID_ED25519"
  "\<not> oid_equal OID_SM2_WITH_SM3 OID_SHA256_WITH_RSA \<and> \<not> oid_equal OID_SM2_WITH_SM3 OID_SHA384_WITH_RSA \<and> \<not> oid_equal OID_SM2_WITH_SM3 OID_SHA512_WITH_RSA \<and> \<not> oid_equal OID_SM2_WITH_SM3 OID_RSASSA_PSS \<and> \<not> oid_equal OID_SM2_WITH_SM3 OID_ECDSA_WITH_SHA256 \<and> \<not> oid_equal OID_SM2_WITH_SM3 OID_ECDSA_WITH_SHA384 \<and> \<not> oid_equal OID_SM2_WITH_SM3 OID_ECDSA_WITH_SHA512 \<and> \<not> oid_equal OID_SM2_WITH_SM3 OID_ED25519 \<and> \<not> oid_equal OID_SM2_WITH_SM3 OID_ED448"
  by (simp_all add: oid_equal_def sig_oid_defs)

lemma pss_hash_len_encode:
  assumes "h = 32 \<or> h = 48 \<or> h = 64" "length (encode_oid OID_RSASSA_PSS @ pss_params h) < 2 ^ 63"
  shows "pss_hash_len (encode_oid OID_RSASSA_PSS @ pss_params h) (length (encode_oid OID_RSASSA_PSS)) = Ret h"
proof -
  define alg where "alg = encode_oid OID_RSASSA_PSS @ pss_params h"
  define n where "n = length (encode_oid OID_RSASSA_PSS)"
  define a where "a = encode_tlv TAG_OID (hash_oid h) @ encode_null"
  define c where "c = encode_tlv TAG_SEQUENCE a"
  obtain rest where p: "pss_params h = encode_tlv TAG_SEQUENCE (encode_tlv TAG_CONTEXT0 c @ rest)"
    by (simp add: pss_params_def Let_def encode_sequence_def encode_context_def encode_oid_def a_def c_def)
  define p where "p = encode_tlv TAG_CONTEXT0 c @ rest"
  have params: "pss_params h = encode_tlv TAG_SEQUENCE p" by (simp add: p p_def)
  have len: "length alg < 2 ^ 63" using assms(2) by (simp add: alg_def)
  have pl: "length p < 2 ^ 63" using len encode_tlv_length [of p TAG_SEQUENCE] by (simp add: alg_def params)
  have cl: "length c < 2 ^ 63" using pl encode_tlv_length [of c TAG_CONTEXT0] by (simp add: p_def)
  have al: "length a < 2 ^ 63" using cl encode_tlv_length [of a TAG_SEQUENCE] by (simp add: c_def)
  have at: "has_at alg n (encode_tlv TAG_SEQUENCE p)" by (simp add: alg_def n_def params)
  then have o: "n < length alg" "alg ! n = 0x30"
    by (auto simp: encode_tlv_def has_at_Cons TAG_SEQUENCE_def)
  have ca: "has_at p 0 (encode_tlv TAG_CONTEXT0 c)" "has_at c 0 (encode_tlv TAG_SEQUENCE a)"
    "has_at a 0 (encode_tlv TAG_OID (hash_oid h))" by (simp_all add: p_def c_def a_def)
  have "pss_hash_of \<lparr>tlv_tag = TAG_SEQUENCE, tlv_value = a\<rparr> = Ret h"
    using assms(1) decode_tlv2_encode [OF ca(3) al]
    by (auto simp: pss_hash_of_def hash_oid_def Let_def) (simp_all add: oid_equal_def hash_oid_defs)
  then show ?thesis
    unfolding alg_def [symmetric] n_def [symmetric] pss_hash_len_def
    using o decode_tlv2_encode [OF at len] decode_tlv2_encode [OF ca(1) pl] decode_tlv2_encode [OF ca(2) cl]
    by (simp add: tag_defs)
qed

definition reparsed_algorithm :: "KeyType \<Rightarrow> int \<Rightarrow> bool \<Rightarrow> KeyType \<times> int \<times> bool" where
  "reparsed_algorithm kt h pss = (if is_rsa kt then (RSA_2048, h, pss) else (kt, 32, False))"

lemma store_sig_algo_encode:
  assumes "is_rsa kt \<longrightarrow> h = 32 \<or> h = 48 \<or> h = 64" "length (sig_algo_body kt h pss) < 2 ^ 63"
    "sig_hash_len c = 32" "\<not> sig_is_pss c"
  shows "store_sig_algo (sig_algo_body kt h pss) c =
    (let (kt, h, pss) = reparsed_algorithm kt h pss in Ret (c\<lparr>sign_key_type := kt, sig_is_pss := pss, sig_hash_len := h\<rparr>))"
proof -
  define oid where
    "oid = (case kt of Ed25519 \<Rightarrow> OID_ED25519 | Ed448 \<Rightarrow> OID_ED448 | ECDSA_P256 \<Rightarrow> OID_ECDSA_WITH_SHA256
        | ECDSA_P384 \<Rightarrow> OID_ECDSA_WITH_SHA384 | ECDSA_P521 \<Rightarrow> OID_ECDSA_WITH_SHA512 | SM2 \<Rightarrow> OID_SM2_WITH_SM3
        | _ \<Rightarrow> if pss then OID_RSASSA_PSS else if h = 48 then OID_SHA384_WITH_RSA
               else if h = 64 then OID_SHA512_WITH_RSA else OID_SHA256_WITH_RSA)"
  note s2 = oid_def
  obtain rest where s1: "sig_algo_body kt h pss = encode_tlv TAG_OID oid @ rest"
    by (cases kt; cases pss; simp add: sig_algo_body_def encode_oid_def s2)
  have d: "decode_tlv2 (sig_algo_body kt h pss) 0 = Ret (Some \<lparr>tlv_tag = TAG_OID, tlv_value = oid\<rparr>, length (encode_tlv TAG_OID oid))"
    using decode_tlv2_encode [OF _ assms(2), of 0 TAG_OID oid] by (simp add: s1)
  show ?thesis
  proof (cases "is_rsa kt \<and> pss")
    case True
    then have b: "sig_algo_body kt h pss = encode_oid OID_RSASSA_PSS @ pss_params h" "oid = OID_RSASSA_PSS"
      by (auto simp: is_rsa_def sig_algo_body_def s2)
    have "pss_hash_len (sig_algo_body kt h pss) (length (encode_tlv TAG_OID OID_RSASSA_PSS)) = Ret h"
      using pss_hash_len_encode [of h] assms(1,2) True b by (simp add: encode_oid_def)
    with d b(2) True show ?thesis
      by (simp add: store_sig_algo_def reparsed_algorithm_def Let_def)
  next
    case False
    have c: "c\<lparr>sign_key_type := k, sig_is_pss := False, sig_hash_len := 32\<rparr> = c\<lparr>sign_key_type := k\<rparr>"
      "c\<lparr>sign_key_type := k, sig_is_pss := False, sig_hash_len := x\<rparr> = c\<lparr>sign_key_type := k, sig_hash_len := x\<rparr>" for k x
      using assms(3,4) by (cases c; simp)+
    show ?thesis
    proof (cases "is_rsa kt")
      case True
      then have o': "oid = (if h = 48 then OID_SHA384_WITH_RSA else if h = 64 then OID_SHA512_WITH_RSA else OID_SHA256_WITH_RSA)"
        and pss: "\<not> pss" using False by (auto simp: is_rsa_def s2)
      have "store_sig_algo (sig_algo_body kt h pss) c = Ret (c\<lparr>sign_key_type := RSA_2048, sig_hash_len := h\<rparr>)"
        unfolding store_sig_algo_def d run_bind_simps prod.case option.case o' using True assms(1) by (elim impE disjE; simp)
      with True pss show ?thesis by (simp add: reparsed_algorithm_def c(2))
    next
      case other: False
      then have "store_sig_algo (sig_algo_body kt h pss) c = Ret (c\<lparr>sign_key_type := kt\<rparr>)"
        unfolding store_sig_algo_def d by (cases kt; simp add: is_rsa_def s2 Let_def)
      with other show ?thesis by (simp add: reparsed_algorithm_def c(1))
    qed
  qed
qed

text \<open>The certificate.\<close>

lemma parse_version_encode:
  assumes "0 \<le> ver" "ver \<le> 127" "length (w @ encode_tlv TAG_INTEGER s @ rest) < 2 ^ 63"
    "w = (if ver > 0 then encode_context TAG_CONTEXT0 (encode_integer [word_of_int ver]) else [])"
  shows "parse_version (w @ encode_tlv TAG_INTEGER s @ rest) =
    Ret (Some (ver, \<lparr>tlv_tag = TAG_INTEGER, tlv_value = s\<rparr>, length w + length (encode_tlv TAG_INTEGER s)))"
proof (cases "ver > 0")
  case True
  define i where "i = encode_tlv TAG_INTEGER [word_of_int ver :: u8]"
  have w: "w = encode_tlv TAG_CONTEXT0 i"
    using assms True small_byte [OF assms(1,2)] by (simp add: encode_context_def encode_integer_small i_def)
  have "length i < 2 ^ 63" by (simp add: i_def encode_tlv_def encode_length_def)
  then have "decode_tlv2 i 0 = Ret (Some \<lparr>tlv_tag = TAG_INTEGER, tlv_value = [word_of_int ver]\<rparr>, length i)"
    using decode_tlv2_encode [of i 0 TAG_INTEGER "[word_of_int ver]"] by (simp add: i_def)
  then show ?thesis
    using assms(3) small_byte [OF assms(1,2)]
      decode_tlv2_encode [of "w @ encode_tlv TAG_INTEGER s @ rest" 0 TAG_CONTEXT0 i]
      decode_tlv2_encode [of "w @ encode_tlv TAG_INTEGER s @ rest" "length w" TAG_INTEGER s]
    by (simp add: parse_version_def w)
next
  case False
  then have "ver = 0" "w = []" using assms(1,4) by simp_all
  then show ?thesis
    using decode_tlv2_encode [of "encode_tlv TAG_INTEGER s @ rest" 0 TAG_INTEGER s] assms(3)
    by (simp add: parse_version_def) (simp add: tag_defs)
qed

text \<open>What the encoding can represent, and how the parser represents it.\<close>

definition wf_cert :: "x509_cert \<Rightarrow> bool" where
  "wf_cert c \<longleftrightarrow>
     0 \<le> version c \<and> version c \<le> 127 \<and> (version c < 2 \<longrightarrow> extension_list c = [])
     \<and> encode_integer (serial_number c) = encode_tlv TAG_INTEGER (serial_number c)
     \<and> - 631152000 \<le> sint (not_before c) \<and> sint (not_before c) < 2524608000
     \<and> - 631152000 \<le> sint (not_after c) \<and> sint (not_after c) < 2524608000
     \<and> wf_key (key_type c) (public_key c)
     \<and> (\<forall>bc. basic_constraints c = Some bc \<longrightarrow> wf_basic_constraints bc)
     \<and> (\<forall>r\<in>set (raw_extensions c). r_oid r \<noteq> OID_BASIC_CONSTRAINTS \<and> r_oid r \<noteq> OID_SUBJECT_ALT_NAME)
     \<and> (is_rsa (sign_key_type c) \<longrightarrow> sig_hash_len c = 32 \<or> sig_hash_len c = 48 \<or> sig_hash_len c = 64)"

definition reparsed :: "bytes \<Rightarrow> x509_cert \<Rightarrow> x509_cert" where
  "reparsed tbs c =
     (let (kt, h, pss) = reparsed_algorithm (sign_key_type c) (sig_hash_len c) (sig_is_pss c)
      in c\<lparr>key_usage := None, ext_key_usage := None, subject_alt_name := parsed_san (subject_alt_name c),
           raw_extensions := map raw_extension (ku_extensions (key_usage c) @ eku_extensions (ext_key_usage c)) @ raw_extensions c,
           sign_key_type := kt, sig_hash_len := h, sig_is_pss := pss, tbs_raw := tbs\<rparr>)"

definition parsed_tbs :: "x509_cert \<Rightarrow> x509_cert \<Rightarrow> x509_cert" where
  "parsed_tbs b c = b\<lparr>version := version c, serial_number := serial_number c, issuer := issuer c, subject := subject c,
     not_before := not_before c, not_after := not_after c, key_type := key_type c, public_key := public_key c,
     basic_constraints := basic_constraints c, subject_alt_name := parsed_san (subject_alt_name c),
     raw_extensions := map raw_extension (ku_extensions (key_usage c) @ eku_extensions (ext_key_usage c)) @ raw_extensions c\<rparr>"

lemma parse_tbs_encode:
  assumes "wf_cert c" "tbs_body c = Ret tbs" "length tbs < 2 ^ 63"
    "basic_constraints b = None" "subject_alt_name b = None" "raw_extensions b = []"
  shows "parse_tbs tbs b = Ret (Some (parsed_tbs b c))"
proof -
  obtain nb na spki where t: "encode_utc_time (not_before c) = Ret nb" "encode_utc_time (not_after c) = Ret na"
    "encode_spki (key_type c) (public_key c) = Ret spki"
    and tbs: "tbs = (if version c > 0 then encode_context TAG_CONTEXT0 (encode_integer [word_of_int (version c)]) else [])
         @ encode_integer (serial_number c) @ encode_sig_algo (sign_key_type c) (sig_hash_len c) (sig_is_pss c)
         @ encode_name (issuer c) @ encode_sequence (nb @ na) @ encode_name (subject c) @ spki
         @ (if version c \<ge> 2 then encode_extensions c else [])"
    using assms(2) by (auto simp: tbs_body_def run_bind_Ret)
  have wf: "0 \<le> version c" "version c \<le> 127" "version c < 2 \<longrightarrow> extension_list c = []"
    "encode_integer (serial_number c) = encode_tlv TAG_INTEGER (serial_number c)" "wf_key (key_type c) (public_key c)"
    using assms(1) by (simp_all add: wf_cert_def)
  define w where "w = (if version c > 0 then encode_context TAG_CONTEXT0 (encode_integer [word_of_int (version c)]) else [])"
  define sa where "sa = sig_algo_body (sign_key_type c) (sig_hash_len c) (sig_is_pss c)"
  define iss where "iss = concat (map encode_attribute (issuer c))"
  define subj where "subj = concat (map encode_attribute (subject c))"
  define e where "e = (if extension_list c = [] then [] else encode_context TAG_CONTEXT3
      (encode_sequence (concat (map extension_bytes (extension_list c)))))"
  have "length spki < 2 ^ 63" using assms(3) by (simp add: tbs)
  from parse_spki_encode [OF wf(5) t(3) this] obtain k where
    k: "spki = encode_tlv TAG_SEQUENCE k" "parse_spki k = Ret (Some (key_type c, public_key c))" .
  have tbs: "tbs = w @ encode_tlv TAG_INTEGER (serial_number c) @ encode_tlv TAG_SEQUENCE sa @ encode_tlv TAG_SEQUENCE iss
      @ encode_tlv TAG_SEQUENCE (nb @ na) @ encode_tlv TAG_SEQUENCE subj @ encode_tlv TAG_SEQUENCE k @ e"
    using wf(3,4) by (simp add: tbs w_def sa_def iss_def subj_def e_def k(1) encode_sig_algo_def encode_name_def encode_sequence_def
      encode_extensions_eq)
  have il: "length iss < 2 ^ 63" and sl: "length subj < 2 ^ 63" and el: "length (concat (map extension_bytes (extension_list c))) < 2 ^ 63"
    using assms(3) encode_tlv_length [of iss TAG_SEQUENCE] encode_tlv_length [of subj TAG_SEQUENCE]
      encode_tlv_length [of "concat (map extension_bytes (extension_list c))" TAG_SEQUENCE]
      encode_tlv_length [of "encode_tlv TAG_SEQUENCE (concat (map extension_bytes (extension_list c)))" TAG_CONTEXT3]
    by (auto simp: tbs e_def encode_context_def encode_sequence_def split: if_splits)
  define n0 n1 n2 n3 n4 n5 where "n0 = length w + length (encode_tlv TAG_INTEGER (serial_number c))"
    and "n1 = n0 + length (encode_tlv TAG_SEQUENCE sa)" and "n2 = n1 + length (encode_tlv TAG_SEQUENCE iss)"
    and "n3 = n2 + length (encode_tlv TAG_SEQUENCE (nb @ na))" and "n4 = n3 + length (encode_tlv TAG_SEQUENCE subj)"
    and "n5 = n4 + length (encode_tlv TAG_SEQUENCE k)"
  have "has_at tbs 0 tbs" by simp
  then have at: "has_at tbs n0 (encode_tlv TAG_SEQUENCE sa)" "has_at tbs n1 (encode_tlv TAG_SEQUENCE iss)"
    "has_at tbs n2 (encode_tlv TAG_SEQUENCE (nb @ na))" "has_at tbs n3 (encode_tlv TAG_SEQUENCE subj)"
    "has_at tbs n4 (encode_tlv TAG_SEQUENCE k)" "has_at tbs n5 e"
    unfolding n0_def n1_def n2_def n3_def n4_def n5_def
    by (subst (asm) (2) tbs, simp add: has_at_append add.assoc)+
  have len: "n5 + length e = length tbs" by (simp add: tbs n0_def n1_def n2_def n3_def n4_def n5_def)
  have ver: "parse_version tbs = Ret (Some (version c, \<lparr>tlv_tag = TAG_INTEGER, tlv_value = serial_number c\<rparr>, n0))"
    unfolding tbs n0_def by (rule parse_version_encode [OF wf(1,2)]) (use assms(3) in \<open>simp_all add: tbs w_def\<close>)
  have val: "parse_validity (nb @ na) = Ret (not_before c, not_after c)"
    using assms(1) t(1,2) by (intro parse_validity_encode) (simp_all add: wf_cert_def)
  have dn: "parse_dn iss = Ret (issuer c)" "parse_dn subj = Ret (subject c)"
    using il sl by (simp_all add: iss_def subj_def parse_dn_encode)
  have ext: "parse_extensions tbs n5 d = store_all (extension_list c) d" for d
    using parse_extensions_encode [of tbs n5 "extension_list c" d] at(6) len assms(3) by (simp add: e_def)
  note needs = need_tlv_encode [OF at(1) assms(3)] need_tlv_encode [OF at(2) assms(3)] need_tlv_encode [OF at(3) assms(3)]
    need_tlv_encode [OF at(4) assms(3)] need_tlv_encode [OF at(5) assms(3)]
  have "store_all (extension_list c) (b\<lparr>version := version c, serial_number := serial_number c, issuer := issuer c,
      subject := subject c, not_before := not_before c, not_after := not_after c, key_type := key_type c,
      public_key := public_key c\<rparr>) = Ret (parsed_tbs b c)"
    using assms(1,4-6) el by (subst store_extension_list) (simp_all add: wf_cert_def parsed_tbs_def)
  then show ?thesis
    by (simp add: parse_tbs_def ver val dn k(2) ext needs n1_def [symmetric] n2_def [symmetric] n3_def [symmetric]
      n4_def [symmetric] n5_def [symmetric])
qed

lemma from_der_to_der:
  assumes "wf_cert c" "tbs_body c = Ret tbs" "to_der c = Ret der" "length der < 2 ^ 63"
  shows "from_der der = Ret (Some (reparsed (encode_sequence tbs) c))"
proof -
  define sa where "sa = sig_algo_body (sign_key_type c) (sig_hash_len c) (sig_is_pss c)"
  define t where "t = encode_tlv TAG_SEQUENCE tbs"
  define body where "body = t @ encode_tlv TAG_SEQUENCE sa @ encode_tlv TAG_BIT_STRING (0x00 # signature c)"
  have der: "der = encode_tlv TAG_SEQUENCE body"
    using assms(2,3) by (simp add: to_der_def body_def sa_def t_def encode_sequence_def encode_sig_algo_def encode_bit_string_def)
  have bl: "length body < 2 ^ 63" using assms(4) encode_tlv_length [of body TAG_SEQUENCE] by (simp add: der)
  have tl: "length tbs < 2 ^ 63" "length sa < 2 ^ 63"
    using bl encode_tlv_length [of tbs TAG_SEQUENCE] encode_tlv_length [of sa TAG_SEQUENCE] by (simp_all add: body_def t_def)
  define b where "b = x509_cert_default\<lparr>tbs_raw := t, signature := signature c\<rparr>"
  have "parse_tbs tbs b = Ret (Some (parsed_tbs b c))"
    using assms(1,2) tl(1) by (intro parse_tbs_encode) (simp_all add: b_def x509_cert_default_def)
  moreover have "store_sig_algo sa (parsed_tbs b c) = Ret (reparsed (encode_sequence tbs) c)"
  proof -
    have "store_sig_algo sa (parsed_tbs b c) =
      (let (kt, h, pss) = reparsed_algorithm (sign_key_type c) (sig_hash_len c) (sig_is_pss c)
       in Ret ((parsed_tbs b c)\<lparr>sign_key_type := kt, sig_is_pss := pss, sig_hash_len := h\<rparr>))"
      unfolding sa_def using assms(1) tl(2)
      by (intro store_sig_algo_encode) (simp_all add: wf_cert_def sa_def parsed_tbs_def b_def x509_cert_default_def)
    then show ?thesis
      by (simp add: reparsed_def parsed_tbs_def b_def x509_cert_default_def t_def encode_sequence_def Let_def split: prod.split)
  qed
  moreover have "take (length t) body = t" by (simp add: body_def)
  moreover have at: "has_at der 0 (encode_tlv TAG_SEQUENCE body)" "has_at body 0 (encode_tlv TAG_SEQUENCE tbs)"
    "has_at body (length t) (encode_tlv TAG_SEQUENCE sa)"
    "has_at body (length t + length (encode_tlv TAG_SEQUENCE sa)) (encode_tlv TAG_BIT_STRING (0x00 # signature c))"
    by (simp_all add: der body_def t_def)
  ultimately show ?thesis
    by (simp add: from_der_def need_tlv_encode [OF at(1) assms(4)] need_tlv_encode [OF at(2) bl]
      need_tlv_encode [OF at(3) bl] need_tlv_encode [OF at(4) bl] t_def [symmetric] b_def tlv_to_bit_string_def Let_def)
qed

section \<open>A sample certificate\<close>

definition sample_cert :: x509_cert where
  "sample_cert = x509_cert_default\<lparr>serial_number := [0x12, 0x34],
     issuer := [\<lparr>na_oid = OID_CN, na_value = [0x43, 0x41]\<rparr>], subject := [\<lparr>na_oid = OID_CN, na_value = [0x61]\<rparr>],
     not_before := 1700000000, not_after := 1800000000, public_key := [1, 2, 3, 4],
     basic_constraints := Some \<lparr>ca = True, path_len = 1\<rparr>, key_usage := Some 0x8400,
     subject_alt_name := Some \<lparr>dns_names = [[0x61, 0x2E, 0x62]], ip_addrs = []\<rparr>, signature := [9, 8, 7]\<rparr>"

lemma wf_sample_cert: "wf_cert (sample_cert\<lparr>signature := s\<rparr>)"
  by (simp add: wf_cert_def sample_cert_def x509_cert_default_def encode_integer_def wf_key_def is_rsa_def
    wf_basic_constraints_def)

lemma sample_tbs: "\<exists>tbs. tbs_body (sample_cert\<lparr>signature := s\<rparr>) = Ret tbs \<and> length tbs < 1000"
proof -
  obtain v w where v: "encode_utc_time 1700000000 = Ret (encode_tlv TAG_UTCTime v)" "length v = 13"
    and w: "encode_utc_time 1800000000 = Ret (encode_tlv TAG_UTCTime w)" "length w = 13"
    using utc_time_inverse [of 1700000000] utc_time_inverse [of 1800000000] by auto
  note sizes = sample_cert_def x509_cert_default_def encode_spki_def spki_key_def spki_algorithm_def is_rsa_def is_ec_def
    tlv_encoders encode_bit_string_def key_oid_defs OID_CN_def encode_sig_algo_def sig_algo_body_def encode_name_def encode_attribute_def
    encode_extensions_def extension_bodies_def basic_constraints_ext_def key_usage_ext_def trailing_zeros.simps encode_extension_def
    ext_key_usage_ext_def subject_alt_name_ext_def encode_integer_def encode_tlv_def encode_length_def length_bytes.simps
    ext_oid_defs v w
  show ?thesis by (simp add: tbs_body_def sizes)
qed

lemma sample_der:
  assumes "length s < 1000"
  shows "\<exists>der. to_der (sample_cert\<lparr>signature := s\<rparr>) = Ret der \<and> length der < 2 ^ 63"
proof -
  obtain tbs where tbs: "tbs_body (sample_cert\<lparr>signature := s\<rparr>) = Ret tbs" "length tbs < 1000" using sample_tbs by blast
  define body where "body = encode_sequence tbs @ encode_sig_algo Ed25519 32 False @ encode_bit_string s 0"
  have "length (encode_sequence tbs) \<le> length tbs + 10"
    unfolding encode_sequence_def using tbs(2) by (intro length_encode_tlv) simp
  moreover have "length (encode_bit_string s 0) \<le> length (0x00 # s) + 10"
    using assms length_encode_tlv [of "0x00 # s" TAG_BIT_STRING] by (simp add: encode_bit_string_def)
  moreover have "length (encode_sig_algo Ed25519 32 False) < 100"
    by (simp add: encode_sig_algo_def sig_algo_body_def encode_sequence_def encode_oid_def encode_tlv_def encode_length_def key_oid_defs)
  ultimately have "length body < 3000" using tbs(2) assms by (simp add: body_def)
  then have "length (encode_sequence body) \<le> length body + 10"
    unfolding encode_sequence_def by (intro length_encode_tlv) simp
  then have "length (encode_sequence body) < 2 ^ 63" using \<open>length body < 3000\<close> by simp
  moreover have "to_der (sample_cert\<lparr>signature := s\<rparr>) = Ret (encode_sequence body)"
    by (simp add: to_der_def tbs(1) body_def) (simp add: sample_cert_def x509_cert_default_def)
  ultimately show ?thesis by blast
qed

section \<open>Properties\<close>

text \<open>
  C23. Parsing inverts encoding for whole certificates: \<open>from_der\<close> of \<open>to_der c\<close> is \<open>c\<close> with the encoded
  TBS in \<open>tbs_raw\<close>. It differs only in representation: key usages come back as opaque extensions, the RSA
  signature types as one, empty lists of names as none. \<open>wf_cert\<close> says what the format can carry: times
  from 1950 to 2050, a path length up to 127 and only for a CA, a minimal serial number, the exponent
  65537 behind an RSA modulus whose size is that of its type.
\<close>

theorem certificate_roundtrip:
  assumes "wf_cert c" "tbs_body c = Ret tbs" "to_der c = Ret der" "length der < 2 ^ 63"
  shows "from_der der = Ret (Some (reparsed (encode_sequence tbs) c))"
  by (rule from_der_to_der) fact+

theorem certificate_roundtrip_witness:
  "\<exists>tbs der. tbs_body (sample_cert\<lparr>signature := [9]\<rparr>) = Ret tbs \<and> to_der (sample_cert\<lparr>signature := [9]\<rparr>) = Ret der
     \<and> from_der der = Ret (Some (reparsed (encode_sequence tbs) (sample_cert\<lparr>signature := [9]\<rparr>)))"
  using sample_tbs [of "[9]"] sample_der [of "[9]"] certificate_roundtrip [OF wf_sample_cert] by fastforce

end
