(* ===== verification/X509Chain.thy ===== *)
theory X509Chain
  imports X509Verify X509Round
begin

text \<open>
  What the checks of \<open>X509Verify\<close> accept: RSA padding, DER signatures, certificates the builder makes, and
  chains with and without trust anchors.
\<close>

section \<open>RSA padding\<close>

lemma skip_ff_split: "\<exists>n. bs = replicate n 0xFF @ skip_ff bs"
proof (induction bs)
  case (Cons b bs)
  then obtain n where "bs = replicate n 0xFF @ skip_ff bs" by blast
  then show ?case by (cases "b = 0xFF") (auto intro: exI [of _ "Suc n"] exI [of _ 0])
qed simp

lemma skip_ff_replicate: "skip_ff (replicate n 0xFF @ b # bs) = (if b = 0xFF then skip_ff bs else b # bs)"
  by (induction n) auto

lemma pkcs1_check_iff:
  assumes "2 \<le> length dec"
  shows "pkcs1_check di hash dec \<longleftrightarrow> (\<exists>n rest. dec = [0x00, 0x01] @ replicate n 0xFF @ [0x00] @ di @ hash @ rest)"
proof -
  obtain x y em where dec: "dec = x # y # em" using assms by (cases dec; cases "tl dec") auto
  obtain n where em: "em = replicate n 0xFF @ skip_ff em" using skip_ff_split by blast
  show ?thesis
  proof
    assume c: "pkcs1_check di hash dec"
    then obtain rest where s: "skip_ff em = 0x00 # rest" "length di + length hash \<le> length rest"
      "take (length di) rest = di" "take (length hash) (drop (length di) rest) = hash" and xy: "x = 0x00" "y = 0x01"
      by (auto simp: pkcs1_check_def dec split: list.splits if_splits)
    have "rest = di @ hash @ drop (length di + length hash) rest"
      using s(3,4) by (metis add.commute append_take_drop_id drop_drop)
    with em s(1) xy have "dec = [0x00, 0x01] @ replicate n 0xFF @ [0x00] @ di @ hash @ drop (length di + length hash) rest"
      by (metis append_Cons append_Nil dec)
    then show "\<exists>n rest. dec = [0x00, 0x01] @ replicate n 0xFF @ [0x00] @ di @ hash @ rest" by blast
  next
    assume "\<exists>n rest. dec = [0x00, 0x01] @ replicate n 0xFF @ [0x00] @ di @ hash @ rest"
    then obtain n rest where "em = replicate n 0xFF @ 0x00 # di @ hash @ rest" "x = 0x00" "y = 0x01"
      by (auto simp: dec)
    then show "pkcs1_check di hash dec" by (simp add: pkcs1_check_def dec skip_ff_replicate)
  qed
qed

section \<open>Signature formats\<close>

lemma drop_zeros_split: "\<exists>n. p = replicate n 0 @ drop_zeros p"
proof (induction p rule: drop_zeros.induct)
  case (1 x y v)
  show ?case
  proof (cases "x = 0")
    case True
    with 1 obtain n where "y # v = replicate n 0 @ drop_zeros (y # v)" by blast
    with True show ?thesis by (intro exI [of _ "Suc n"]) simp
  qed (auto intro: exI [of _ 0])
qed auto

lemma drop_zeros_pad: "v \<noteq> [] \<Longrightarrow> drop_zeros (replicate n 0 @ v) = drop_zeros v"
proof (induction n)
  case (Suc n)
  then obtain z zs where "replicate n 0 @ v = z # zs" by (cases "replicate n 0 @ v") auto
  with Suc show ?case by simp
qed simp

lemma drop_zeros_idem: "drop_zeros (drop_zeros p) = drop_zeros p"
  by (induction p rule: drop_zeros.induct) auto

lemma drop_zeros_nonempty: "drop_zeros p = [] \<longleftrightarrow> p = []"
  by (induction p rule: drop_zeros.induct) auto

lemma drop_zeros_min: "drop_zeros p = x # y # v \<Longrightarrow> x \<noteq> 0"
  by (induction p rule: drop_zeros.induct) (auto split: if_splits)

lemma length_drop_zeros: "length (drop_zeros p) \<le> length p"
  by (induction p rule: drop_zeros.induct) auto

lemma norm_int_raw:
  assumes "p \<noteq> []"
  shows "norm_int (length p) (raw_to_int p) = Some p"
proof -
  obtain n where n: "p = replicate n 0 @ drop_zeros p" using drop_zeros_split by blast
  have ne: "drop_zeros p \<noteq> []" using assms by (simp add: drop_zeros_nonempty)
  have "drop_zeros (raw_to_int p) = drop_zeros p"
    using ne drop_zeros_pad [OF ne, of 1] by (simp add: raw_to_int_def Let_def drop_zeros_idem)
  moreover have "length p - length (drop_zeros p) = n" using n by (metis add_diff_cancel_right' length_append length_replicate)
  ultimately show ?thesis using n length_drop_zeros [of p] by (simp add: norm_int_def Let_def)
qed

lemma raw_to_int_integer: "p \<noteq> [] \<Longrightarrow> encode_integer (raw_to_int p) = encode_tlv TAG_INTEGER (raw_to_int p)"
proof -
  assume "p \<noteq> []"
  then obtain x v where v: "drop_zeros p = x # v" using drop_zeros_nonempty [of p] by (cases "drop_zeros p") auto
  show ?thesis
  proof (cases "x AND 0x80 = 0")
    case True
    then have r: "raw_to_int p = x # v" by (simp add: raw_to_int_def v)
    have "strip_zeros (x # v) = x # v" using drop_zeros_min [of p] v by (cases v) auto
    with r True show ?thesis by (simp add: encode_integer_def)
  next
    case False
    then have r: "raw_to_int p = 0 # x # v" by (simp add: raw_to_int_def v)
    with False show ?thesis by (simp add: encode_integer_def)
  qed
qed

lemma length_raw_to_int: "p \<noteq> [] \<Longrightarrow> length (raw_to_int p) \<le> length p + 1"
  using length_drop_zeros [of p] drop_zeros_nonempty [of p] by (simp add: raw_to_int_def Let_def)

lemma read_der_int_encode:
  assumes "length v < 128"
  shows "read_der_int (encode_tlv TAG_INTEGER v @ rest) = Some (v, rest)"
  using assms by (simp add: read_der_int_def encode_tlv_def encode_length_def TAG_INTEGER_def unat_of_nat Let_def)

lemma der_sig_header_encode:
  assumes "length body < 2 ^ 31"
  shows "der_sig_header (encode_sequence body) = Some (1 + length (encode_length (length body)), length body)"
proof (cases "length body < 0x80")
  case True
  then have "(word_of_nat (length body) :: u8) < 0x80" by (simp add: word_less_nat_alt unat_of_nat)
  with True show ?thesis
    by (simp add: der_sig_header_def encode_sequence_def encode_tlv_def encode_length_def TAG_SEQUENCE_def unat_of_nat)
next
  case False
  let ?l = "length (length_bytes (length body))"
  have "length body < 256 ^ 4" using assms by simp
  then have l: "?l \<le> 4" by (rule length_length_bytes)
  have l0: "0 < ?l" using length_bytes_pos [of "length body"] False by (cases "body = []") auto
  have h: "\<not> (0x80 OR word_of_nat ?l :: u8) < 0x80 \<and> unat ((0x80 OR word_of_nat ?l :: u8) AND 0x7F) = ?l"
    using length_octet [of ?l] l l0 by simp
  have e: "encode_sequence body = 0x30 # (0x80 OR word_of_nat ?l) # rev (length_bytes (length body)) @ body"
    using False by (simp add: encode_sequence_def encode_tlv_def encode_length_def TAG_SEQUENCE_def Let_def)
  show ?thesis
    using h l l0 False unfolding e by (simp add: der_sig_header_def Let_def be_val_snoc_bytes encode_length_def)
qed

lemma der_sig_back:
  assumes "length raw = 2 * n" "0 < n" "n \<le> 126"
  shows "ecdsa_der_sig_to_raw (ecdsa_raw_sig_to_der raw n) n = Some raw"
proof -
  define r s where "r = take n raw" and "s = drop n raw"
  have rs: "length r = n" "length s = n" "raw = r @ s" "r \<noteq> []" "s \<noteq> []" "take n (drop n raw) = s"
    using assms by (auto simp: r_def s_def)
  define body where "body = encode_tlv TAG_INTEGER (raw_to_int r) @ encode_tlv TAG_INTEGER (raw_to_int s)"
  have d: "ecdsa_raw_sig_to_der raw n = encode_sequence body"
    using rs by (simp add: ecdsa_raw_sig_to_der_def r_def [symmetric] raw_to_int_integer body_def)
  have li: "length (raw_to_int r) < 128" "length (raw_to_int s) < 128"
    using length_raw_to_int [of r] length_raw_to_int [of s] rs assms(3) by simp_all
  have "length body < 2 ^ 31"
    using li length_encode_tlv [of "raw_to_int r" TAG_INTEGER] length_encode_tlv [of "raw_to_int s" TAG_INTEGER]
    by (simp add: body_def)
  note h = der_sig_header_encode [OF this]
  have "drop (1 + length (encode_length (length body))) (encode_sequence body) = body"
    by (simp add: encode_sequence_def encode_tlv_def)
  moreover have "1 + length (encode_length (length body)) + length body = length (encode_sequence body)"
    by (simp add: encode_sequence_def encode_tlv_def)
  moreover have "read_der_int body = Some (raw_to_int r, encode_tlv TAG_INTEGER (raw_to_int s))"
    "read_der_int (encode_tlv TAG_INTEGER (raw_to_int s)) = Some (raw_to_int s, [])"
    using read_der_int_encode [OF li(1)] read_der_int_encode [OF li(2), of "[]"] by (simp_all add: body_def)
  ultimately show ?thesis
    using h norm_int_raw [of r] norm_int_raw [of s] rs(1,2,4,5) unfolding ecdsa_der_sig_to_raw_def d rs(3)
    by (simp add: rs(3) [symmetric] d assms(1))
qed

section \<open>Accepted chains\<close>

text \<open>The hops of a chain: every certificate valid, every one but the last signed by the next.\<close>

definition hops_ok :: "crypto \<Rightarrow> u64 \<Rightarrow> x509_cert list \<Rightarrow> bool" where
  "hops_ok C now chain \<longleftrightarrow> (\<forall>c\<in>set chain. is_valid_at c now)
     \<and> successively (\<lambda>c d. verify_signature C c d = Ret True) chain"

lemma hops_ok_simps [simp]:
  "hops_ok C now [c] \<longleftrightarrow> is_valid_at c now"
  "hops_ok C now (c # d # rest) \<longleftrightarrow> is_valid_at c now \<and> verify_signature C c d = Ret True \<and> hops_ok C now (d # rest)"
  by (auto simp: hops_ok_def)

lemma bind_true: "run_bind m (\<lambda>ok. if ok then k else Ret (Some e)) = Ret None \<longleftrightarrow> m = Ret True \<and> k = Ret None"
  by (cases m) auto

lemma bind_last: "run_bind m (\<lambda>ok. Ret (if ok then None else Some e)) = Ret None \<longleftrightarrow> m = Ret True"
  by (cases m) auto

lemma chain_loop_iff:
  "chain \<noteq> [] \<Longrightarrow> chain_loop C now chain = Ret None \<longleftrightarrow>
     hops_ok C now chain \<and> is_ca (last chain) \<and> verify_signature C (last chain) (last chain) = Ret True"
  by (induction chain rule: induct_list012) (simp_all add: bind_true bind_last)

lemma hops_loop_iff: "chain \<noteq> [] \<Longrightarrow> hops_loop C now chain = Ret None \<longleftrightarrow> hops_ok C now chain"
  by (induction chain rule: induct_list012) (simp_all add: bind_true)

lemma match_anchor_True:
  "match_anchor d t anchors = Ret True \<Longrightarrow> \<exists>a\<in>set anchors. to_der a = Ret d \<or> same_cert_identity a t"
  by (induction d t anchors rule: match_anchor.induct) (auto simp: run_bind_Ret split: if_splits)

section \<open>Built certificates\<close>

lemma encoded_tbs_to_der:
  assumes "tbs_body cert = Ret tbs" "to_der cert = Ret der" "length der < 2 ^ 63"
  shows "encoded_tbs cert = Ret (Some (encode_sequence tbs))"
proof -
  define rest where "rest = encode_sig_algo (sign_key_type cert) (sig_hash_len cert) (sig_is_pss cert) @ encode_bit_string (signature cert) 0"
  define body where "body = encode_tlv TAG_SEQUENCE tbs @ rest"
  have der: "der = encode_tlv TAG_SEQUENCE body"
    using assms(1,2) by (simp add: to_der_def body_def rest_def encode_sequence_def)
  have bl: "length body < 2 ^ 63" using assms(3) encode_tlv_length [of body TAG_SEQUENCE] by (simp add: der)
  have at: "has_at der 0 (encode_tlv TAG_SEQUENCE body)" "has_at body 0 (encode_tlv TAG_SEQUENCE tbs)"
    by (simp_all add: der body_def)
  have "take (length (encode_tlv TAG_SEQUENCE tbs)) body = encode_tlv TAG_SEQUENCE tbs" by (simp add: body_def)
  then show ?thesis
    using decode_tlv2_encode [OF at(1) assms(3)] decode_tlv2_encode [OF at(2) bl]
    by (simp add: encoded_tbs_def assms(2) encode_sequence_def)
qed

lemma tbs_body_signature [simp]: "tbs_body (cert\<lparr>signature := s\<rparr>) = tbs_body cert"
  by (simp add: tbs_body_def encode_extensions_def extension_bodies_def)

text \<open>
  A key pair: the laws the builder and the verifier rely on. For RSA \<open>n\<close> is the modulus at the front of the
  public key, and decryption inverts encryption below it.
\<close>

definition field_len :: "KeyType \<Rightarrow> nat" where
  "field_len kt = (case kt of ECDSA_P384 \<Rightarrow> 48 | ECDSA_P521 \<Rightarrow> 66 | _ \<Rightarrow> 32)"

definition ec_pair :: "(bytes \<Rightarrow> bytes) \<Rightarrow> (bytes \<Rightarrow> bytes \<Rightarrow> bytes \<Rightarrow> bool) \<Rightarrow> nat \<Rightarrow> bytes \<Rightarrow> bool" where
  "ec_pair sg vrf n pub \<longleftrightarrow> 2 * n \<le> length pub \<and> (\<forall>m. length (sg m) = 2 * n \<and> vrf (take (2 * n) pub) m (sg m))"

definition key_pair :: "crypto \<Rightarrow> KeyType \<Rightarrow> bytes \<Rightarrow> bytes \<Rightarrow> bool" where
  "key_pair C kt priv pub \<longleftrightarrow>
     (case kt of
        Ed25519 \<Rightarrow> 32 \<le> length pub
          \<and> (\<forall>m. length (ed25519_sign C priv m) = 64 \<and> ed25519_verify C (take 32 pub) m (ed25519_sign C priv m))
      | Ed448 \<Rightarrow> 57 \<le> length pub
          \<and> (\<forall>m. length (ed448_sign C priv m) = 114 \<and> ed448_verify C (take 57 pub) m (ed448_sign C priv m))
      | ECDSA_P256 \<Rightarrow> ec_pair (ecdsa_p256_sign C priv) (ecdsa_p256_verify C) 32 pub
      | ECDSA_P384 \<Rightarrow> ec_pair (ecdsa_p384_sign C priv) (ecdsa_p384_verify C) 48 pub
      | ECDSA_P521 \<Rightarrow> ec_pair (ecdsa_p521_sign C priv) (ecdsa_p521_verify C) 66 pub
      | SM2 \<Rightarrow> sm2_pub_from_priv C priv = pub \<and> length pub = 64
          \<and> (let za = sm2_compute_za C [] (take 32 pub) (drop 32 pub)
             in ec_pair (\<lambda>m. sm2_sign C priv m za) (\<lambda>p m s. sm2_verify C p m s za) 32 pub)
      | _ \<Rightarrow>
          (let k = rsa_mod_bytes kt; n = be_val (take k pub)
           in length pub = k + 3 \<and> 256 ^ (k - 1) \<le> n
              \<and> (\<forall>x<n. rsa_modpow C x (be_val priv) n < 256 ^ k
                  \<and> rsa_modpow C (rsa_modpow C x (be_val priv) n) 65537 n = x)
              \<and> (\<forall>m h s. rsassa_pss_sign C k (take k pub) priv m h = Some s \<longrightarrow>
                   length s = k \<and> rsassa_pss_verify C k (take k pub) m s h)))"

lemma verify_ec_signed:
  assumes "ec_pair sg vrf n pub" "0 < n" "n \<le> 126" "length (ecdsa_raw_sig_to_der (sg tbs) n) \<noteq> 2 * n"
  shows "verify_ec vrf n pub tbs (ecdsa_raw_sig_to_der (sg tbs) n) = Ret True"
proof -
  have s: "length (sg tbs) = 2 * n" "vrf (take (2 * n) pub) tbs (sg tbs)" "2 * n \<le> length pub"
    using assms(1) by (simp_all add: ec_pair_def)
  have "sig_to_raw (ecdsa_raw_sig_to_der (sg tbs) n) n = Some (sg tbs)"
    using der_sig_back [OF s(1) assms(2,3)] assms(4) by (simp add: sig_to_raw_def mult.commute)
  then show ?thesis using s by (simp add: verify_ec_def reading_def)
qed

lemma length_cert_hash: "length (cert_hash h tbs) \<le> 64"
  by (simp add: cert_hash_def sha256_eq_spec sha384_eq_spec sha512_eq_spec
      sha256_stream.length_hash sha384_stream.length_hash sha512_stream.length_hash)

lemma pkcs1_check_encode: "pkcs1_check di hash (pkcs1_encode k di hash)"
  by (subst pkcs1_check_iff)
    (simp add: pkcs1_encode_def, unfold pkcs1_encode_def, metis append.right_neutral append_assoc)

lemma verify_rsa_signed:
  assumes "is_rsa kt" "key_pair C kt priv pub" "sign_rsa C cert kt priv (take (rsa_mod_bytes kt) pub) tbs = Some sig"
    "signature c = sig" "sig_hash_len c = sig_hash_len cert" "sig_is_pss c = sig_is_pss cert"
  shows "verify_rsa C c pub tbs"
proof -
  define k n where "k = rsa_mod_bytes kt" and "n = be_val (take k pub)"
  have k: "k = 256 \<or> k = 384 \<or> k = 512" by (simp add: k_def rsa_mod_bytes_def)
  have kp: "length pub = k + 3" "256 ^ (k - 1) \<le> n"
    "\<And>x. x < n \<Longrightarrow> rsa_modpow C x (be_val priv) n < 256 ^ k \<and> rsa_modpow C (rsa_modpow C x (be_val priv) n) 65537 n = x"
    "\<And>m h s. rsassa_pss_sign C k (take k pub) priv m h = Some s \<Longrightarrow> length s = k \<and> rsassa_pss_verify C k (take k pub) m s h"
    using assms(1,2) unfolding key_pair_def is_rsa_def k_def n_def by (elim disjE; force simp: Let_def)+
  have m: "take k pub \<noteq> [] \<and> length (take k pub) = k" using kp(1) k by auto
  show ?thesis
  proof (cases "sig_is_pss cert")
    case True
    then show ?thesis
      using assms(3-6) kp(1,4) k m
      by (auto simp: sign_rsa_def verify_rsa_def Let_def k_def [symmetric] split: if_splits)
  next
    case False
    define em where "em = pkcs1_encode k (cert_digest_info (sig_hash_len cert)) (cert_hash (sig_hash_len cert) tbs)"
    have di: "length (cert_digest_info h) = 19" for h
      by (simp add: cert_digest_info_def DI_SHA256_def DI_SHA384_def DI_SHA512_def)
    have em: "length em = k" using k length_cert_hash [of "sig_hash_len cert" tbs] by (auto simp: em_def pkcs1_encode_def di)
    have "be_val em = be_val (tl em)" using k by (auto simp: em_def pkcs1_encode_def be_val_Cons)
    also have "\<dots> < 256 ^ (k - 1)" using be_val_less [of "tl em"] em by simp
    finally have small: "be_val em < n" using kp(2) by simp
    have "pkcs1_check (cert_digest_info (sig_hash_len cert)) (cert_hash (sig_hash_len cert) tbs) em"
      by (simp add: em_def pkcs1_check_encode)
    moreover have "be_bytes k (be_val em) = em" using be_bytes_be_val [of em] em by simp
    moreover have "sig = be_bytes k (rsa_modpow C (be_val em) (be_val priv) n)"
      using assms(3) False m by (simp add: sign_rsa_def Let_def k_def [symmetric] n_def em_def)
    ultimately have dec: "pkcs1_check (cert_digest_info (sig_hash_len cert)) (cert_hash (sig_hash_len cert) tbs)
       (be_bytes k (rsa_modpow C (be_val sig) 65537 n))" and "length sig = k"
      using kp(3) [OF small] by (simp_all add: be_val_be_bytes)
    moreover have "(if length pub > 3 then length pub - 3 else 0) = k" using kp(1) k by auto
    moreover have "\<not> (k \<noteq> 256 \<and> k \<noteq> 384 \<and> k \<noteq> 512)" using k by blast
    ultimately show ?thesis
      using assms(4-6) False unfolding verify_rsa_def Let_def by (simp only: n_def [symmetric] if_False order.refl take_all less_irrefl simp_thms)
  qed
qed

text \<open>What a signed certificate has that the verifier needs: it is not a parsed one, and the signature was made.\<close>

lemma built_signed:
  assumes "build_and_sign C cert kt priv modulus = Ret c" "signature c \<noteq> []"
  shows "\<exists>tbs sig. encoded_tbs (cert\<lparr>sign_key_type := kt, signature := []\<rparr>) = Ret (Some tbs)
     \<and> sign_with C (cert\<lparr>sign_key_type := kt, signature := []\<rparr>) kt priv modulus tbs = Some sig
     \<and> c = cert\<lparr>sign_key_type := kt, signature := sig\<rparr>"
  using assms by (auto simp: build_and_sign_def Let_def run_bind_Ret split: option.splits)

lemma built_tbs:
  assumes "encoded_tbs (cert\<lparr>signature := []\<rparr>) = Ret (Some tbs)" "to_der (cert\<lparr>signature := []\<rparr>) = Ret d0" "length d0 < 2 ^ 63"
    "to_der (cert\<lparr>signature := sig\<rparr>) = Ret d" "length d < 2 ^ 63"
  shows "encoded_tbs (cert\<lparr>signature := sig\<rparr>) = Ret (Some tbs)"
proof -
  obtain t where t: "tbs_body cert = Ret t" using assms(2) by (auto simp: to_der_def run_bind_Ret)
  then show ?thesis
    using assms(1) encoded_tbs_to_der [OF _ assms(2,3), of t] encoded_tbs_to_der [OF _ assms(4,5), of t] by simp
qed


lemma built_verifies:
  assumes b: "build_and_sign C cert kt priv modulus = Ret c" and ne: "signature c \<noteq> []" and raw: "tbs_raw cert = []"
    and kp: "key_pair C kt priv (public_key ca_cert)"
    and rsa: "is_rsa kt \<Longrightarrow> modulus = take (rsa_mod_bytes kt) (public_key ca_cert)"
    and ec: "is_ec kt \<or> kt = SM2 \<Longrightarrow> length (signature c) \<noteq> 2 * field_len kt"
    and d0: "to_der (c\<lparr>signature := []\<rparr>) = Ret d0" "length d0 < 2 ^ 63"
    and d: "to_der c = Ret d" "length d < 2 ^ 63"
  shows "verify_signature C c ca_cert = Ret True"
proof -
  define cert' where "cert' = cert\<lparr>sign_key_type := kt, signature := []\<rparr>"
  obtain tbs sig where t: "encoded_tbs cert' = Ret (Some tbs)" "sign_with C cert' kt priv modulus tbs = Some sig"
    and c: "c = cert'\<lparr>signature := sig\<rparr>"
    using built_signed [OF b ne] by (auto simp: cert'_def)
  have e0: "cert'\<lparr>signature := []\<rparr> = cert'" "c\<lparr>signature := []\<rparr> = cert'" by (simp_all add: cert'_def c)
  have "encoded_tbs c = Ret (Some tbs)"
    using built_tbs [of cert' tbs d0 sig d] t(1) d0 d by (simp add: c e0)
  then have st: "signed_tbs c = Ret (Some tbs)" using raw by (simp add: signed_tbs_def c cert'_def)
  have k: "sign_key_type c = kt" by (simp add: c cert'_def)
  have sg: "signature c = sig" "sig_hash_len c = sig_hash_len cert'" "sig_is_pss c = sig_is_pss cert'" by (simp_all add: c)
  have r: "is_rsa kt \<Longrightarrow> verify_rsa C c (public_key ca_cert) tbs"
    using verify_rsa_signed [OF _ kp, of cert' tbs sig c] t(2) rsa sg by (cases kt) (auto simp: sign_with_def is_rsa_def)
  note vs = verify_signature_def st k sg(1) key_pair_def
  show ?thesis
  proof (cases kt)
    case Ed25519
    then have "sig = ed25519_sign C priv tbs" using t(2) by (simp add: sign_with_def)
    with Ed25519 kp show ?thesis by (simp add: vs reading_def)
  next
    case Ed448
    then have "sig = ed448_sign C priv tbs" using t(2) by (simp add: sign_with_def)
    with Ed448 kp show ?thesis by (simp add: vs reading_def)
  next
    case SM2
    have v: "ec_pair (\<lambda>m. sm2_sign C priv m (sm2_compute_za C [] (take 32 (public_key ca_cert)) (drop 32 (public_key ca_cert))))
       (verify_sm2 C) 32 (public_key ca_cert)" and p: "sm2_pub_from_priv C priv = public_key ca_cert"
      using kp by (auto simp: key_pair_def SM2 ec_pair_def verify_sm2_def Let_def min_def)
    have "sig = ecdsa_raw_sig_to_der (sm2_sign C priv tbs (sm2_compute_za C [] (take 32 (public_key ca_cert)) (drop 32 (public_key ca_cert)))) 32"
      using t(2) p by (simp add: sign_with_def SM2 Let_def)
    with v verify_ec_signed [OF v, of tbs] ec show ?thesis by (simp add: vs SM2 sg(1) field_len_def)
  next
    case ECDSA_P256
    then have "sig = ecdsa_raw_sig_to_der (ecdsa_p256_sign C priv tbs) 32" and
      "ec_pair (ecdsa_p256_sign C priv) (ecdsa_p256_verify C) 32 (public_key ca_cert)"
      using t(2) kp by (simp_all add: sign_with_def key_pair_def)
    with verify_ec_signed [of "ecdsa_p256_sign C priv" _ 32 _ tbs] ec ECDSA_P256 show ?thesis
      by (simp add: vs field_len_def is_ec_def)
  next
    case ECDSA_P384
    then have "sig = ecdsa_raw_sig_to_der (ecdsa_p384_sign C priv tbs) 48" and
      "ec_pair (ecdsa_p384_sign C priv) (ecdsa_p384_verify C) 48 (public_key ca_cert)"
      using t(2) kp by (simp_all add: sign_with_def key_pair_def)
    with verify_ec_signed [of "ecdsa_p384_sign C priv" _ 48 _ tbs] ec ECDSA_P384 show ?thesis
      by (simp add: vs field_len_def is_ec_def)
  next
    case ECDSA_P521
    then have "sig = ecdsa_raw_sig_to_der (ecdsa_p521_sign C priv tbs) 66" and
      "ec_pair (ecdsa_p521_sign C priv) (ecdsa_p521_verify C) 66 (public_key ca_cert)"
      using t(2) kp by (simp_all add: sign_with_def key_pair_def)
    with verify_ec_signed [of "ecdsa_p521_sign C priv" _ 66 _ tbs] ec ECDSA_P521 show ?thesis
      by (simp add: vs field_len_def is_ec_def)
  qed (use r in \<open>simp_all add: vs is_rsa_def\<close>)
qed

text \<open>Parsing what was issued leaves all that the verifier reads.\<close>

lemma verify_signature_reparsed:
  assumes "wf_cert c" "tbs_raw c = []" "to_der c = Ret d" "length d < 2 ^ 63" "tbs_body c = Ret tbs"
  shows "verify_signature C (reparsed (encode_sequence tbs) c) ca_cert = verify_signature C c ca_cert"
proof -
  have "encoded_tbs c = Ret (Some (encode_sequence tbs))" using assms(3-5) by (intro encoded_tbs_to_der)
  then have "signed_tbs c = Ret (Some (encode_sequence tbs))" using assms(2) by (simp add: signed_tbs_def)
  moreover have "signed_tbs (reparsed (encode_sequence tbs) c) = Ret (Some (encode_sequence tbs))"
    by (simp add: signed_tbs_def reparsed_def encode_sequence_def encode_tlv_def split: prod.split)
  ultimately show ?thesis
    by (cases "sign_key_type c")
      (simp_all add: verify_signature_def reparsed_def reparsed_algorithm_def is_rsa_def verify_rsa_def)
qed

lemma built_parses_verifies:
  assumes "build_and_sign C cert kt priv modulus = Ret c" "signature c \<noteq> []" "tbs_raw cert = []"
    "key_pair C kt priv (public_key ca_cert)"
    "is_rsa kt \<Longrightarrow> modulus = take (rsa_mod_bytes kt) (public_key ca_cert)"
    "is_ec kt \<or> kt = SM2 \<Longrightarrow> length (signature c) \<noteq> 2 * field_len kt"
    "to_der (c\<lparr>signature := []\<rparr>) = Ret d0" "length d0 < 2 ^ 63" "to_der c = Ret d" "length d < 2 ^ 63" "wf_cert c"
  shows "\<exists>c'. from_der d = Ret (Some c') \<and> subject c' = subject c \<and> public_key c' = public_key c
     \<and> verify_signature C c' ca_cert = Ret True"
proof -
  obtain tbs where tbs: "tbs_body c = Ret tbs" using assms(9) by (auto simp: to_der_def run_bind_Ret)
  have "tbs_raw c = []" using built_signed [OF assms(1,2)] assms(3) by auto
  then have "verify_signature C (reparsed (encode_sequence tbs) c) ca_cert = Ret True"
    using verify_signature_reparsed [OF assms(11) _ assms(9,10) tbs] built_verifies [OF assms(1-10)] by simp
  with from_der_to_der [OF assms(11) tbs assms(9,10)] show ?thesis
    by (auto simp: reparsed_def split: prod.splits)
qed

section \<open>A toy instance\<close>

text \<open>Ed25519 signatures that are the message, to show that the hypotheses below can hold.\<close>

definition toy_sign :: "bytes \<Rightarrow> bytes" where
  "toy_sign m = take 64 (m @ replicate 64 0)"

definition toy_crypto :: crypto where
  "toy_crypto = \<lparr>ed25519_sign = (\<lambda>_. toy_sign), ed25519_verify = (\<lambda>_ m s. s = toy_sign m),
     ed448_sign = (\<lambda>_ _. []), ed448_verify = (\<lambda>_ _ _. False), ecdsa_p256_sign = (\<lambda>_ _. []), ecdsa_p256_verify = (\<lambda>_ _ _. False),
     ecdsa_p384_sign = (\<lambda>_ _. []), ecdsa_p384_verify = (\<lambda>_ _ _. False), ecdsa_p521_sign = (\<lambda>_ _. []),
     ecdsa_p521_verify = (\<lambda>_ _ _. False), sm2_pub_from_priv = (\<lambda>_. []), sm2_compute_za = (\<lambda>_ _ _. []),
     sm2_sign = (\<lambda>_ _ _. []), sm2_verify = (\<lambda>_ _ _ _. False), rsa_modpow = (\<lambda>b e n. b ^ e mod n), rsa_modmul = (\<lambda>a b n. a * b mod n),
     rsassa_pss_sign = (\<lambda>_ _ _ _ _. None), rsassa_pss_verify = (\<lambda>_ _ _ _ _. False)\<rparr>"

lemma length_toy_sign [simp]: "length (toy_sign m) = 64"
  by (simp add: toy_sign_def)

lemma toy_key_pair: "32 \<le> length pub \<Longrightarrow> key_pair toy_crypto Ed25519 priv pub"
  by (simp add: key_pair_def toy_crypto_def)

definition toy_cert :: "bool \<Rightarrow> u8 \<Rightarrow> x509_cert" where
  "toy_cert b n = x509_cert_default\<lparr>tbs_raw := [n], public_key := replicate 32 n, not_after := 100,
     basic_constraints := Some \<lparr>ca = b, path_len = -1\<rparr>, signature := toy_sign [n]\<rparr>"

lemma toy_cert_verifies: "verify_signature toy_crypto (toy_cert b n) (toy_cert b' m) = Ret True"
  by (simp add: verify_signature_def signed_tbs_def toy_cert_def x509_cert_default_def reading_def toy_crypto_def)

lemma toy_cert_valid: "is_valid_at (toy_cert b n) 50" "is_ca (toy_cert b n) = b"
  by (simp_all add: is_valid_at_def is_ca_def toy_cert_def x509_cert_default_def)

lemma toy_chain: "x509_verify_chain toy_crypto 50 [toy_cert False 1, toy_cert True 2] 0 = Ret None"
  by (simp add: x509_verify_chain_def toy_cert_valid toy_cert_verifies)

section \<open>Properties\<close>

text \<open>
  C22. Issue, transport, verify: a certificate made by \<open>build_and_sign\<close> is parsed by \<open>from_der\<close> into one
  with the same subject and key whose signature \<open>verify_signature\<close> accepts under the issuer's key, for
  every signature algorithm. \<open>key_pair\<close> states the laws of the primitives; an RSA issuer passes its
  modulus; a DER signature must not be as long as a raw one, which the verifier would take it for.
\<close>

theorem issued_certificate_verifies:
  assumes "build_and_sign C cert kt priv modulus = Ret c" "signature c \<noteq> []" "tbs_raw cert = []"
    "key_pair C kt priv (public_key ca_cert)"
    "is_rsa kt \<Longrightarrow> modulus = take (rsa_mod_bytes kt) (public_key ca_cert)"
    "is_ec kt \<or> kt = SM2 \<Longrightarrow> length (signature c) \<noteq> 2 * field_len kt"
    "to_der (c\<lparr>signature := []\<rparr>) = Ret d0" "length d0 < 2 ^ 63" "to_der c = Ret d" "length d < 2 ^ 63" "wf_cert c"
  shows "\<exists>c'. from_der d = Ret (Some c') \<and> subject c' = subject c \<and> public_key c' = public_key c
     \<and> verify_signature C c' ca_cert = Ret True"
  by (rule built_parses_verifies) fact+

theorem issued_certificate_verifies_witness:
  "\<exists>c d c'. build_and_sign toy_crypto (sample_cert\<lparr>signature := []\<rparr>) Ed25519 [] [] = Ret c \<and> to_der c = Ret d
     \<and> from_der d = Ret (Some c') \<and> verify_signature toy_crypto c' (toy_cert True 2) = Ret True"
proof -
  have u: "sample_cert\<lparr>signature := [], sign_key_type := Ed25519, signature := []\<rparr> = sample_cert\<lparr>signature := []\<rparr>"
    by (simp add: sample_cert_def x509_cert_default_def)
  obtain tbs d0 where t: "tbs_body (sample_cert\<lparr>signature := []\<rparr>) = Ret tbs" "to_der (sample_cert\<lparr>signature := []\<rparr>) = Ret d0"
    "length d0 < 2 ^ 63"
    using sample_tbs [of "[]"] sample_der [of "[]"] by auto
  define s where "s = toy_sign (encode_sequence tbs)"
  obtain d where d: "to_der (sample_cert\<lparr>signature := s\<rparr>) = Ret d" "length d < 2 ^ 63"
    using sample_der [of s] by (auto simp: s_def)
  have "build_and_sign toy_crypto (sample_cert\<lparr>signature := []\<rparr>) Ed25519 [] [] = Ret (sample_cert\<lparr>signature := s\<rparr>)"
    using encoded_tbs_to_der [OF t] u by (simp add: build_and_sign_def sign_with_def s_def toy_crypto_def)
  then show ?thesis
    using issued_certificate_verifies [of toy_crypto "sample_cert\<lparr>signature := []\<rparr>" Ed25519 "[]" "[]"
        "sample_cert\<lparr>signature := s\<rparr>" "toy_cert True 2" d0 d] t d wf_sample_cert [of s]
    by (auto simp: s_def is_rsa_def is_ec_def sample_cert_def x509_cert_default_def toy_key_pair toy_cert_def
      simp flip: length_0_conv)
qed

text \<open>
  The raw and DER forms of an ECDSA or SM2 signature: \<open>ecdsa_der_sig_to_raw\<close> inverts
  \<open>ecdsa_raw_sig_to_der\<close>, leading zeros and sign bytes included, for fields of up to 126 bytes.
\<close>

theorem signature_der_roundtrip:
  assumes "length raw = 2 * n" "0 < n" "n \<le> 126"
  shows "ecdsa_der_sig_to_raw (ecdsa_raw_sig_to_der raw n) n = Some raw"
  using assms by (rule der_sig_back)

theorem signature_der_roundtrip_witness:
  "ecdsa_der_sig_to_raw (ecdsa_raw_sig_to_der (replicate 31 0 @ [0x80] @ replicate 32 7) 32) 32
     = Some (replicate 31 0 @ [0x80] @ replicate 32 7)"
  by (rule signature_der_roundtrip) simp_all

text \<open>
  C35. What the PKCS #1 v1.5 check accepts: any number of padding bytes, even none, then a zero, the digest
  info, the hash, and after them anything. The format asks for padding that fills the block, with nothing
  behind the hash.
\<close>

theorem pkcs1_check_characterised:
  assumes "2 \<le> length dec"
  shows "pkcs1_check di hash dec \<longleftrightarrow> (\<exists>n rest. dec = [0x00, 0x01] @ replicate n 0xFF @ [0x00] @ di @ hash @ rest)"
  using assms by (rule pkcs1_check_iff)

theorem pkcs1_check_characterised_witness:
  "pkcs1_check DI_SHA256 (replicate 32 7) ([0x00, 0x01, 0x00] @ DI_SHA256 @ replicate 32 7 @ replicate 202 0x5A)"
  by (subst pkcs1_check_characterised) (simp, intro exI [of _ 0] exI [of _ "replicate 202 0x5A"], simp)

text \<open>
  C31. \<open>x509_verify_chain\<close> succeeds exactly for a non-empty chain whose certificates are all within their
  validity, each signed by the key of the next, and whose last is a CA signed by its own key. The time
  zero means the current time.
\<close>

theorem verify_chain_iff:
  "x509_verify_chain C sys_time chain now = Ret None \<longleftrightarrow>
     chain \<noteq> [] \<and> hops_ok C (if now = 0 then sys_time else now) chain \<and> is_ca (last chain)
     \<and> verify_signature C (last chain) (last chain) = Ret True"
  by (simp add: x509_verify_chain_def chain_loop_iff)

text \<open>
  C33. Every holder of a leaf certificate can issue: when a chain is accepted whose first certificate is no
  CA, it is accepted with any certificate put before it that is valid and signed by the leaf's key. The
  basic constraints of the intermediates, their path lengths and the issuer names are not looked at.
\<close>

theorem leaf_can_issue:
  assumes "x509_verify_chain C sys_time (leaf # chain) now = Ret None" "\<not> is_ca leaf"
    "is_valid_at forged (if now = 0 then sys_time else now)" "verify_signature C forged leaf = Ret True"
  shows "x509_verify_chain C sys_time (forged # leaf # chain) now = Ret None"
  using assms by (simp add: x509_verify_chain_def chain_loop_iff)

theorem leaf_can_issue_witness:
  "x509_verify_chain toy_crypto 50 [toy_cert False 3, toy_cert False 1, toy_cert True 2] 0 = Ret None"
  by (rule leaf_can_issue [OF toy_chain]) (simp_all add: toy_cert_valid toy_cert_verifies)

text \<open>
  C32. What \<open>x509_verify_chain_anchored\<close> accepts: the hops hold, the last certificate is a CA, and it is one
  of the anchors, by encoding or by serial number, key and names, or with no anchors signed by its own key.
\<close>

theorem anchored_chain_sound:
  assumes "x509_verify_chain_anchored C sys_time chain anchors now = Ret None"
  shows "hops_ok C (if now = 0 then sys_time else now) chain \<and> is_ca (last chain)
     \<and> (if anchors = [] then x509_verify_chain C sys_time chain now = Ret None
        else \<exists>a\<in>set anchors. to_der a = to_der (last chain) \<or> same_cert_identity a (last chain))"
proof -
  have ne: "chain \<noteq> []" using assms by (auto simp: x509_verify_chain_anchored_def)
  then have h: "hops_loop C (if now = 0 then sys_time else now) chain = Ret None"
    using assms by (auto simp: x509_verify_chain_anchored_def run_bind_Ret split: option.splits)
  with ne assms have "is_ca (last chain)" "anchors = [] \<Longrightarrow> verify_signature C (last chain) (last chain) = Ret True"
    "anchors \<noteq> [] \<Longrightarrow> \<exists>d. to_der (last chain) = Ret d \<and> match_anchor d (last chain) anchors = Ret True"
    by (auto simp: x509_verify_chain_anchored_def run_bind_Ret split: if_splits)
  with ne h show ?thesis
    by (cases "anchors = []") (auto simp: hops_loop_iff x509_verify_chain_def chain_loop_iff, metis match_anchor_True)
qed

theorem anchored_chain_sound_witness:
  "hops_ok toy_crypto 50 [toy_cert False 1, toy_cert True 2] \<and> is_ca (toy_cert True 2)
     \<and> x509_verify_chain toy_crypto 50 [toy_cert False 1, toy_cert True 2] 0 = Ret None"
  using anchored_chain_sound [of toy_crypto 50 "[toy_cert False 1, toy_cert True 2]" "[]" 0]
  by (simp add: x509_verify_chain_anchored_def toy_cert_valid toy_cert_verifies)

end
