(* ===== verification/TlsSign.thy ===== *)
theory TlsSign
  imports TlsCert X509Chain
begin

text \<open>
  What the signature schemes of \<open>TlsCert\<close> do: the choice of a scheme, signatures that verify, and the
  key that cannot sign.
\<close>

section \<open>The choice of a scheme\<close>

lemma scheme_in_list_iff: "scheme_in_list list s \<longleftrightarrow> s \<in> set list"
  by (induction list) auto

lemma select_scheme_loop_find:
  "select_scheme_loop supported fam tls13 peer =
     (case find (\<lambda>s. s \<in> set supported \<and> sig_key_family s = fam \<and> (if tls13 then tls_scheme_allowed_for_cert_verify s else True)) peer of
        None \<Rightarrow> 0 | Some s \<Rightarrow> s)"
  by (induction peer) (auto simp: scheme_in_list_iff)

section \<open>Signatures that verify\<close>

definition tier_limbs :: "RsaTier \<Rightarrow> nat" where
  "tier_limbs t = (case t of TIER_2048 \<Rightarrow> 32 | TIER_3072 \<Rightarrow> 48 | TIER_4096 \<Rightarrow> 64)"

text \<open>What a certificate's two keys have to do with one another, for the family of its key; \<open>za\<close> is for SM2.\<close>

definition raw_pair :: "(bytes \<Rightarrow> bytes) \<Rightarrow> (bytes \<Rightarrow> bytes \<Rightarrow> bool) \<Rightarrow> nat \<Rightarrow> bool" where
  "raw_pair sg vrf n \<longleftrightarrow> (\<forall>m. length (sg m) = n \<and> vrf m (sg m))"

definition tls_key_pair :: "crypto \<Rightarrow> tls_certificate \<Rightarrow> bytes \<Rightarrow> bool" where
  "tls_key_pair C cert za \<longleftrightarrow>
     (let pub = pub_raw cert; priv = priv_raw cert
      in case sig_key_family (cert_sig_alg cert) of
           FAM_NONE \<Rightarrow> False
         | FAM_RSA \<Rightarrow> rsa_key_pair C (tier_limbs (rsa_tier_of cert)) (pub_rsa cert) (priv_rsa cert)
         | FAM_P256 \<Rightarrow> raw_pair (ecdsa_p256_sign C (take 32 priv)) (ecdsa_p256_verify C (take 64 pub)) 64
         | FAM_P384 \<Rightarrow> raw_pair (ecdsa_p384_sign C (take 48 priv)) (ecdsa_p384_verify C (take 96 pub)) 96
         | FAM_P521 \<Rightarrow> raw_pair (ecdsa_p521_sign C (take 66 priv)) (ecdsa_p521_verify C (take 132 pub)) 132
         | FAM_ED25519 \<Rightarrow> raw_pair (ed25519_sign C (take 64 priv)) (ed25519_verify C (take 32 pub)) 64
         | FAM_ED448 \<Rightarrow> raw_pair (ed448_sign C (take 57 priv)) (ed448_verify C (take 57 pub)) 114
         | FAM_SM2 \<Rightarrow> raw_pair (\<lambda>m. sm2_sign C (take 32 priv) m za) (\<lambda>m s. sm2_verify C (take 64 pub) m s za) 64)"

lemma verify_ecdsa_signed:
  assumes "raw_pair sg (vrf (take n pub)) n" "n \<le> 250" "ecdsa_sign_to_der (sg data) cap = Some sig" "length sig \<noteq> n"
  shows "verify_ecdsa_scheme vrf n pub data sig"
  using assms ecdsa_der_roundtrip [OF assms(3)]
  by (simp add: raw_pair_def verify_ecdsa_scheme_def scheme_sig_to_raw_def)

lemma length_scheme_hashes: "length (sha256 m) = 32" "length (sha384 m) = 48" "length (sha512 m) = 64"
  by (simp_all add: sha256_eq_spec sha384_eq_spec sha512_eq_spec
      sha256_stream.length_hash sha384_stream.length_hash sha512_stream.length_hash)

lemma scheme_tables:
  assumes "digest_info_for_scheme scheme = Some di"
  obtains hash where "length di = 19" "hash_scheme scheme data = Some hash" "length hash = scheme_hash_len scheme"
    "scheme_hash_len scheme \<in> {32, 48, 64}"
proof -
  have di: "length di = 19" and s: "scheme \<in> {RSA_PKCS1_SHA256, RSA_PKCS1_SHA384, RSA_PKCS1_SHA512}"
    using assms by (auto simp: digest_info_for_scheme_def DI_SHA256_def DI_SHA384_def DI_SHA512_def split: if_splits)
  from s consider "scheme = RSA_PKCS1_SHA256" | "scheme = RSA_PKCS1_SHA384" | "scheme = RSA_PKCS1_SHA512" by blast
  then show thesis
    using that [OF di, of "sha256 data"] that [OF di, of "sha384 data"] that [OF di, of "sha512 data"]
    by cases (simp_all add: hash_scheme_def scheme_hash_len_def length_scheme_hashes)
qed

lemma rsa_pkcs1_verify_signed:
  assumes kp: "rsa_key_pair C K pub key" and K: "K \<in> {32, 48, 64}"
    and em: "scheme_pkcs1_em (8 * K) scheme data = Some padded"
  shows "rsa_pkcs1_verify C K pub scheme data (to_bytes (private_op C key (from_bytes K padded)))"
proof -
  obtain di where di: "digest_info_for_scheme scheme = Some di"
    using em by (auto simp: scheme_pkcs1_em_def split: if_splits option.splits)
  obtain hash where t: "length di = 19" "hash_scheme scheme data = Some hash" "length hash = scheme_hash_len scheme"
    "scheme_hash_len scheme \<in> {32, 48, 64}" by (rule scheme_tables [OF di])
  then have p: "padded = pkcs1_encode (8 * K) di hash" using em di by (auto simp: scheme_pkcs1_em_def)
  have l: "length padded = 8 * K" using K t by (auto simp: p pkcs1_encode_def)
  have "be_val padded < 2 ^ (64 * K - 1)"
    by (rule zero_block_bound [OF l]) (use K in \<open>auto simp: p pkcs1_encode_def\<close>)
  note b = sign_verify_block [OF kp l this]
  have s: "length (RSADP C key (from_bytes K padded)) = K"
    using kp block_below_modulus [OF kp l] \<open>be_val padded < 2 ^ (64 * K - 1)\<close> by (simp add: rsa_key_pair_def)
  have ls: "length (to_bytes (RSADP C key (from_bytes K padded))) = 8 * K" by (simp add: to_bytes_def s)
  then have "to_bytes (bn_modpow C (from_bytes K (to_bytes (RSADP C key (from_bytes K padded)))) (rsa_e pub) (rsa_n pub)) = padded"
    using b(2) by (simp add: RSAVP1_def RSAEP_def)
  then show ?thesis
    using ls di t pkcs1_check_encode [of di hash "8 * K"] by (auto simp: rsa_pkcs1_verify_def private_op_crt [OF kp] p [symmetric])
qed


lemma rsa_pss_verify_signed:
  assumes "rsa_key_pair C K pub key" "K \<in> {32, 48, 64}" "pss_sign_with op K data 0 hash (Some salt) = Some sig"
    "length salt = pss_hash_size hash" "op = private_op C key \<or> op = RSASP1 C key"
  shows "pss_verify_with C K pub data sig 0 hash \<and> length sig = 8 * K"
proof -
  have h: "pss_hash_size hash \<le> 64" by (cases hash) (simp_all add: pss_hash_size_def)
  have s: "length salt = salt_len 0 (pss_hash_size hash)" using assms(4) by (simp add: salt_len_def)
  have "pss_hash_size hash + length salt + 2 \<le> 8 * K" using assms(2,4) h by auto
  from pss_sign_verify [OF assms(1) s _ this assms(5), of data] assms(3,4) h
  have v: "pss_verify_with C K pub data sig 0 hash" by simp
  obtain EM where EM: "emsa_pss_encode (pss_hash_fn hash data) (pss_hash_size hash) (64 * K - 1) (pss_hash_size hash) hash (Some salt) (8 * K) = Some EM"
    "sig = to_bytes (op (from_bytes K EM))"
    using assms(3) by (auto simp: pss_sign_with_def Let_def salt_len_def split: option.splits)
  have "8 * (8 * K) - (64 * K - 1) = 1" using assms(2) by auto
  then have b: "length EM = 8 * K" "be_val EM < 2 ^ (64 * K - 1)"
    using emsa_pss_encode_length [OF EM(1) refl refl assms(4)] emsa_pss_bound [OF EM(1) refl assms(4)] by auto
  have "length (RSADP C key (from_bytes K EM)) = K"
    using assms(1) block_below_modulus [OF assms(1) b] by (simp add: rsa_key_pair_def)
  then have "length (op (from_bytes K EM)) = K" using assms(1,5) by (auto simp: private_op_crt RSASP1_def)
  then show ?thesis using v by (simp add: EM(2) to_bytes_def)
qed

lemma pss_scheme_size: "pss_hash_of_scheme scheme = Some hash \<Longrightarrow> pss_hash_size hash = scheme_hash_len scheme"
  by (auto simp: pss_hash_of_scheme_def pss_hash_size_def scheme_hash_len_def split: if_splits)

lemmas scheme_defs = sign_scheme_def verify_scheme_def sig_key_family_def

lemma rsa_scheme_verifies:
  assumes "rsa_key_pair C (tier_limbs (rsa_tier_of cert)) (pub_rsa cert) (priv_rsa cert)"
    "sig_key_family scheme = FAM_RSA" "sig_key_family (cert_sig_alg cert) = FAM_RSA"
    "sign_scheme C cert scheme data za rnd = Some sig" "\<And>salt. rnd = Some salt \<Longrightarrow> length salt = scheme_hash_len scheme"
  shows "verify_scheme C cert scheme data sig za"
proof (cases "scheme \<in> {RSA_PKCS1_SHA256, RSA_PKCS1_SHA384, RSA_PKCS1_SHA512}")
  case True
  then show ?thesis
  proof (cases "rsa_tier_of cert")
    case TIER_2048
    then show ?thesis using True assms(1,3,4) rsa_pkcs1_verify_signed [of C 32 "pub_rsa cert" "priv_rsa cert" scheme data]
      by (auto simp: sign_scheme_def verify_scheme_def assms(2) tier_limbs_def rsa_pkcs1_sign_def split: option.splits if_splits)
  next
    case TIER_3072
    then show ?thesis using True assms(1,3,4) rsa_pkcs1_verify_signed [of C 48 "pub_rsa cert" "priv_rsa cert" scheme data]
      by (auto simp: sign_scheme_def verify_scheme_def assms(2) tier_limbs_def rsa3072_pkcs1_sign_def split: option.splits if_splits)
  next
    case TIER_4096
    then show ?thesis using True assms(1,3,4) rsa_pkcs1_verify_signed [of C 64 "pub_rsa cert" "priv_rsa cert" scheme data]
      by (auto simp: sign_scheme_def verify_scheme_def assms(2) tier_limbs_def rsa_pkcs1_sign4096_def split: option.splits if_splits)
  qed
next
  case False
  with assms(2) have s: "scheme \<in> {RSA_PSS_RSAE_SHA256, RSA_PSS_RSAE_SHA384, RSA_PSS_RSAE_SHA512}"
    by (auto simp: sig_key_family_def split: if_splits)
  then obtain hash where h: "pss_hash_of_scheme scheme = Some hash" by (auto simp: pss_hash_of_scheme_def)
  have op: "\<exists>op K. pss_sign_with op K data 0 hash rnd = Some sig \<and> (op = private_op C (priv_rsa cert) \<or> op = RSASP1 C (priv_rsa cert))
      \<and> K = tier_limbs (rsa_tier_of cert)"
    using s assms(4) h
    by (cases "rsa_tier_of cert")
      (auto simp: sign_scheme_def rsa_pss_sign_def rsa3072_pss_sign_def rsa_pss_sign4096_def rsassa_pss_sign2048_def
         rsassa_pss_sign3072_def rsassa_pss_sign4096_def tier_limbs_def split: if_splits)
  then obtain salt where salt: "rnd = Some salt"
    by (cases rnd) (auto simp: pss_sign_with_def emsa_pss_encode_def Let_def split: if_splits)
  have K: "tier_limbs (rsa_tier_of cert) \<in> {32, 48, 64}" by (cases "rsa_tier_of cert") (simp_all add: tier_limbs_def)
  have "pss_verify_with C (tier_limbs (rsa_tier_of cert)) (pub_rsa cert) data sig 0 hash \<and> length sig = 8 * tier_limbs (rsa_tier_of cert)"
    using op rsa_pss_verify_signed [OF assms(1) K] assms(5) [OF salt] pss_scheme_size [OF h] salt by auto
  then show ?thesis using s h assms(2,3)
    by (cases "rsa_tier_of cert")
      (auto simp: verify_scheme_def rsa_pss_verify_def rsa3072_pss_verify_def rsa_pss_verify4096_def rsassa_pss_verify2048_def
         rsassa_pss_verify3072_def rsassa_pss_verify4096_def tier_limbs_def)
qed

lemma scheme_signature_verifies:
  assumes "tls_key_pair C cert za" "sig_key_family scheme = sig_key_family (cert_sig_alg cert)"
    "sign_scheme C cert scheme data za rnd = Some sig" "\<And>salt. rnd = Some salt \<Longrightarrow> length salt = scheme_hash_len scheme"
    "sig_key_family scheme \<in> {FAM_P256, FAM_P384, FAM_P521, FAM_SM2} \<Longrightarrow> length sig \<notin> {64, 96, 132}"
  shows "verify_scheme C cert scheme data sig za"
proof (cases "sig_key_family scheme")
  case FAM_NONE
  then show ?thesis using assms(1,2) by (simp add: tls_key_pair_def)
next
  case FAM_RSA
  then show ?thesis using rsa_scheme_verifies [OF _ FAM_RSA _ assms(3,4)] assms(1,2) by (simp add: tls_key_pair_def)
next
  case FAM_P256
  then have s: "scheme = ECDSA_SECP256R1_SHA256" by (auto simp: sig_key_family_def split: if_splits)
  with FAM_P256 assms show ?thesis
    using verify_ecdsa_signed [of "ecdsa_p256_sign C (take 32 (priv_raw cert))" "ecdsa_p256_verify C" 64 "pub_raw cert" data]
    by (simp add: tls_key_pair_def sign_scheme_def verify_scheme_def)
next
  case FAM_P384
  then have s: "scheme = ECDSA_SECP384R1_SHA384" by (auto simp: sig_key_family_def split: if_splits)
  with FAM_P384 assms show ?thesis
    using verify_ecdsa_signed [of "ecdsa_p384_sign C (take 48 (priv_raw cert))" "ecdsa_p384_verify C" 96 "pub_raw cert" data]
    by (simp add: tls_key_pair_def sign_scheme_def verify_scheme_def)
next
  case FAM_P521
  then have s: "scheme = ECDSA_SECP521R1_SHA512" by (auto simp: sig_key_family_def split: if_splits)
  with FAM_P521 assms show ?thesis
    using verify_ecdsa_signed [of "ecdsa_p521_sign C (take 66 (priv_raw cert))" "ecdsa_p521_verify C" 132 "pub_raw cert" data]
    by (simp add: tls_key_pair_def sign_scheme_def verify_scheme_def)
next
  case FAM_SM2
  then have s: "scheme = SM2_SM3" by (auto simp: sig_key_family_def split: if_splits)
  with FAM_SM2 assms show ?thesis
    using verify_ecdsa_signed [of "\<lambda>m. sm2_sign C (take 32 (priv_raw cert)) m za" "\<lambda>p m s. sm2_verify C p m s za" 64 "pub_raw cert" data]
    by (simp add: tls_key_pair_def sign_scheme_def verify_scheme_def)
next
  case FAM_ED25519
  then have s: "scheme = SIG_ED25519" by (auto simp: sig_key_family_def split: if_splits)
  with FAM_ED25519 assms show ?thesis by (auto simp: tls_key_pair_def Let_def sign_scheme_def verify_scheme_def raw_pair_def)
next
  case FAM_ED448
  then have s: "scheme = SIG_ED448" by (auto simp: sig_key_family_def split: if_splits)
  with FAM_ED448 assms show ?thesis by (auto simp: tls_key_pair_def Let_def sign_scheme_def verify_scheme_def raw_pair_def)
qed


section \<open>Properties\<close>


definition example_rsa_cert :: tls_certificate where
  "example_rsa_cert = \<lparr>subject_name = [], cert_data = [], pub_rsa = id_pub 48, pub_raw = [], priv_rsa = id_key 48, priv_raw = [],
     rsa4096 = False, cert_sig_alg = RSA_PKCS1_SHA256, rsa_bits = 3072\<rparr>"


text \<open>
  C30. A P-521 key is of no use in TLS: unless one of the two numbers of a signature begins with four zero bytes,
  \<open>sign_scheme\<close> fails, since \<open>ecdsa_sign_to_der\<close> refuses contents above 127 bytes; and \<open>verify_scheme\<close> rejects every
  DER signature whose length is in the long form, as that of a P-521 signature must be.
\<close>

theorem p521_cannot_sign:
  assumes "length (ecdsa_p521_sign C (take 66 (priv_raw cert)) data) = 132"
    "\<exists>i<4. ecdsa_p521_sign C (take 66 (priv_raw cert)) data ! i \<noteq> 0"
    "\<exists>i<4. ecdsa_p521_sign C (take 66 (priv_raw cert)) data ! (66 + i) \<noteq> 0"
    "length sig \<noteq> 132" "0x80 \<le> sig ! 1"
  shows "sign_scheme C cert ECDSA_SECP521R1_SHA512 data za rnd = None
    \<and> \<not> verify_scheme C cert ECDSA_SECP521R1_SHA512 data sig za"
proof -
  have "127 < unat (sig ! 1)" using assms(5) by (simp add: word_le_nat_alt)
  then have "ecdsa_sig_from_der sig 132 = None" by (simp add: ecdsa_sig_from_der_def)
  with assms(4) show ?thesis using ecdsa_der_p521_fails [OF assms(1-3), of 256]
    by (simp add: sign_scheme_def verify_scheme_def verify_ecdsa_scheme_def scheme_sig_to_raw_def)
qed

definition p521_crypto :: crypto where
  "p521_crypto = undefined\<lparr>ecdsa_p521_sign := \<lambda>_ _. replicate 132 1\<rparr>"

theorem p521_cannot_sign_witness:
  "sign_scheme p521_crypto example_rsa_cert ECDSA_SECP521R1_SHA512 [7] [] None = None
    \<and> \<not> verify_scheme p521_crypto example_rsa_cert ECDSA_SECP521R1_SHA512 [7] ([0x30, 0x81] @ replicate 137 1) []"
  using p521_cannot_sign [of p521_crypto example_rsa_cert "[7]" "[0x30, 0x81] @ replicate 137 1"]
  by (simp add: p521_crypto_def exI [of _ 0])

text \<open>
  The scheme a TLS server picks is the first of the peer's list that it supports, that fits the certificate's
  key, and that TLS 1.3 allows for \<open>CertificateVerify\<close> when that is the version; zero when there is none.
\<close>

theorem signature_scheme_is_first_match:
  "select_signature_scheme peer cert local tls13 =
     (if sig_key_family (cert_sig_alg cert) = FAM_NONE then 0
      else case find (\<lambda>s. s \<in> set (if local = [] then tls_default_signature_algorithms else local)
                  \<and> sig_key_family s = sig_key_family (cert_sig_alg cert)
                  \<and> (if tls13 then tls_scheme_allowed_for_cert_verify s else True)) peer of
             None \<Rightarrow> 0 | Some s \<Rightarrow> s)"
  by (simp add: select_signature_scheme_def select_scheme_loop_find Let_def)

end
