(* ===== verification/CtLog.thy ===== *)
theory CtLog
  imports CtMerkle CtX509 X509Chain EcdsaDer Rsa
begin

text \<open>
  The transparency log of \<open>src/src/ct.cpp\<close>: signed certificate timestamps and tree heads under its three
  signature algorithms, and the class \<open>ct_log\<close> with its checks on submitted chains, its append-only list of
  entries and its answers. The log is a record, each operation returns the new one. A reading of the clock
  (\<open>now()\<close>, in milliseconds) is an argument, one for each call of it. Below the operations, a run of the log is
  a labelled transition system whose events are what the log shows to the outside.
\<close>

section \<open>Constants\<close>

definition CT_HASH_ALG_SM3 :: u8 where "CT_HASH_ALG_SM3 = 0x04"
definition CT_SIG_ALG_SM2 :: u8 where "CT_SIG_ALG_SM2 = 0x04"
definition CT_HASH_ALG_SHA256 :: u8 where "CT_HASH_ALG_SHA256 = 0x04"
definition CT_SIG_ALG_ECDSA :: u8 where "CT_SIG_ALG_ECDSA = 0x03"
definition CT_SIG_ALG_RSA :: u8 where "CT_SIG_ALG_RSA = 0x01"

lemmas ct_algs = CT_HASH_ALG_SM3_def CT_SIG_ALG_SM2_def CT_HASH_ALG_SHA256_def CT_SIG_ALG_ECDSA_def CT_SIG_ALG_RSA_def

datatype CtSigAlg = Sig_SM2 | Sig_ECDSA_P256 | Sig_RSA

definition SM2_DEFAULT_ID :: bytes where
  "SM2_DEFAULT_ID = ascii ''1234567812345678''"

definition k_sha256_digest_info :: bytes where
  "k_sha256_digest_info =
     [0x30, 0x31, 0x30, 0x0D, 0x06, 0x09, 0x60, 0x86, 0x48, 0x01, 0x65, 0x03, 0x04, 0x02, 0x01, 0x05, 0x00, 0x04, 0x20]"

section \<open>Signatures\<close>

definition sign_tbs :: "crypto \<Rightarrow> bytes \<Rightarrow> KeyType \<Rightarrow> bytes \<Rightarrow> bytes option" where
  "sign_tbs C tbs kt priv =
     (case kt of
        Ed25519 \<Rightarrow> Some (ed25519_sign C priv tbs)
      | Ed448 \<Rightarrow> Some (ed448_sign C priv tbs)
      | ECDSA_P256 \<Rightarrow> Some (ecdsa_p256_sign C priv tbs)
      | SM2 \<Rightarrow>
          let ca_pub = sm2_pub_from_priv C priv; za = sm2_compute_za C [] (take 32 ca_pub) (drop 32 ca_pub)
          in Some (sm2_sign C priv tbs za)
      | _ \<Rightarrow> None)"

definition sm2_sign_std :: "crypto \<Rightarrow> bytes \<Rightarrow> bytes \<Rightarrow> bytes \<Rightarrow> bytes" where
  "sm2_sign_std C priv pub msg = sm2_sign C priv msg (sm2_compute_za C SM2_DEFAULT_ID (take 32 pub) (drop 32 pub))"

definition sm2_verify_std :: "crypto \<Rightarrow> bytes \<Rightarrow> bytes \<Rightarrow> bytes \<Rightarrow> bool" where
  "sm2_verify_std C pub msg sig = sm2_verify C pub msg sig (sm2_compute_za C SM2_DEFAULT_ID (take 32 pub) (drop 32 pub))"

text \<open>The structs as their default member initialisers make them.\<close>

definition sct_default :: signed_certificate_timestamp where
  "sct_default = \<lparr>s_version = CT_VERSION_V1, s_log_id = replicate 32 0, s_timestamp = 0, s_extensions = [],
     s_hash_algorithm = CT_HASH_ALG_SM3, s_signature_algorithm = CT_SIG_ALG_SM2, s_signature = []\<rparr>"

definition sth_default :: signed_tree_head where
  "sth_default = \<lparr>t_version = CT_VERSION_V1, t_timestamp = 0, t_tree_size = 0, t_root_hash = replicate 32 0,
     t_hash_algorithm = CT_HASH_ALG_SM3, t_signature_algorithm = CT_SIG_ALG_SM2, t_signature = []\<rparr>"

definition leaf_default :: merkle_tree_leaf where
  "leaf_default = \<lparr>l_version = CT_VERSION_V1, leaf_type = TIMESTAMPED_ENTRY, l_timestamp = 0, entry_type = X509_ENTRY,
     signed_entry = [], l_extensions = []\<rparr>"

section \<open>Certificate timestamps\<close>

definition issue_sct ::
  "crypto \<Rightarrow> bytes \<Rightarrow> bytes \<Rightarrow> bytes \<Rightarrow> u64 \<Rightarrow> LogEntryType \<Rightarrow> bytes \<Rightarrow> bytes \<Rightarrow> signed_certificate_timestamp" where
  "issue_sct C log_priv log_pub lid timestamp et entry extensions =
     sct_default\<lparr>s_version := CT_VERSION_V1, s_log_id := lid, s_timestamp := timestamp, s_extensions := extensions,
       s_signature := sm2_sign_std C log_priv log_pub (sct_signed_data timestamp et entry extensions)\<rparr>"

definition verify_sct :: "crypto \<Rightarrow> signed_certificate_timestamp \<Rightarrow> bytes \<Rightarrow> LogEntryType \<Rightarrow> bytes \<Rightarrow> bool" where
  "verify_sct C sct log_pub et entry =
     (if s_version sct \<noteq> CT_VERSION_V1 then False
      else if s_hash_algorithm sct \<noteq> CT_HASH_ALG_SM3 \<or> s_signature_algorithm sct \<noteq> CT_SIG_ALG_SM2 then False
      else if length (s_signature sct) \<noteq> 64 then False
      else sm2_verify_std C log_pub (sct_signed_data (s_timestamp sct) et entry (s_extensions sct)) (s_signature sct))"

definition issue_sct_std ::
  "crypto \<Rightarrow> bytes \<Rightarrow> bytes \<Rightarrow> u64 \<Rightarrow> LogEntryType \<Rightarrow> bytes \<Rightarrow> bytes \<Rightarrow> signed_certificate_timestamp" where
  "issue_sct_std C log_priv lid timestamp et entry extensions =
     (let sct = sct_default\<lparr>s_version := CT_VERSION_V1, s_log_id := lid, s_timestamp := timestamp, s_extensions := extensions,
            s_hash_algorithm := CT_HASH_ALG_SHA256, s_signature_algorithm := CT_SIG_ALG_ECDSA\<rparr>;
          sig = ecdsa_p256_sign C log_priv (sct_signed_data timestamp et entry extensions)
      in case ecdsa_sign_to_der sig 80 of
           None \<Rightarrow> sct_default
         | Some der \<Rightarrow> sct\<lparr>s_signature := der\<rparr>)"

definition verify_sct_std :: "crypto \<Rightarrow> signed_certificate_timestamp \<Rightarrow> bytes \<Rightarrow> LogEntryType \<Rightarrow> bytes \<Rightarrow> bool" where
  "verify_sct_std C sct log_pub et entry =
     (if s_version sct \<noteq> CT_VERSION_V1 then False
      else if s_hash_algorithm sct \<noteq> CT_HASH_ALG_SHA256 \<or> s_signature_algorithm sct \<noteq> CT_SIG_ALG_ECDSA then False
      else
        let data = sct_signed_data (s_timestamp sct) et entry (s_extensions sct)
        in if length (s_signature sct) = 64 then ecdsa_p256_verify C log_pub data (s_signature sct)
           else case ecdsa_sig_from_der (s_signature sct) 64 of
                  None \<Rightarrow> False
                | Some raw \<Rightarrow> ecdsa_p256_verify C log_pub data raw)"

definition issue_sct_rsa ::
  "crypto \<Rightarrow> rsa_crt_key \<Rightarrow> bytes \<Rightarrow> u64 \<Rightarrow> LogEntryType \<Rightarrow> bytes \<Rightarrow> bytes \<Rightarrow> signed_certificate_timestamp run" where
  "issue_sct_rsa C log_priv lid timestamp et entry extensions =
     (let sct = sct_default\<lparr>s_version := CT_VERSION_V1, s_log_id := lid, s_timestamp := timestamp, s_extensions := extensions,
            s_hash_algorithm := CT_HASH_ALG_SHA256, s_signature_algorithm := CT_SIG_ALG_RSA\<rparr>
      in run_bind (rsassa_pkcs1v15_sign C log_priv (sct_signed_data timestamp et entry extensions) k_sha256_digest_info) (\<lambda>sig.
           Ret (case sig of None \<Rightarrow> sct_default | Some sig \<Rightarrow> sct\<lparr>s_signature := sig\<rparr>)))"

definition verify_sct_rsa :: "crypto \<Rightarrow> signed_certificate_timestamp \<Rightarrow> rsa_public_key \<Rightarrow> LogEntryType \<Rightarrow> bytes \<Rightarrow> bool" where
  "verify_sct_rsa C sct log_pub et entry =
     (if s_version sct \<noteq> CT_VERSION_V1 then False
      else if s_hash_algorithm sct \<noteq> CT_HASH_ALG_SHA256 \<or> s_signature_algorithm sct \<noteq> CT_SIG_ALG_RSA then False
      else if length (s_signature sct) \<noteq> 256 then False
      else rsassa_pkcs1v15_verify C log_pub (sct_signed_data (s_timestamp sct) et entry (s_extensions sct))
             k_sha256_digest_info (s_signature sct))"

section \<open>Tree heads\<close>

definition sth_unsigned :: "u64 \<Rightarrow> u64 \<Rightarrow> bytes \<Rightarrow> signed_tree_head" where
  "sth_unsigned timestamp tree_size root_hash =
     sth_default\<lparr>t_version := CT_VERSION_V1, t_timestamp := timestamp, t_tree_size := tree_size, t_root_hash := root_hash\<rparr>"

definition sign_sth :: "crypto \<Rightarrow> bytes \<Rightarrow> bytes \<Rightarrow> u64 \<Rightarrow> u64 \<Rightarrow> bytes \<Rightarrow> signed_tree_head" where
  "sign_sth C log_priv log_pub timestamp tree_size root_hash =
     (let sth = sth_unsigned timestamp tree_size root_hash
      in sth\<lparr>t_signature := sm2_sign_std C log_priv log_pub (sth_signed_data sth)\<rparr>)"

definition verify_sth :: "crypto \<Rightarrow> signed_tree_head \<Rightarrow> bytes \<Rightarrow> bool" where
  "verify_sth C sth log_pub =
     (if t_version sth \<noteq> CT_VERSION_V1 then False
      else if t_hash_algorithm sth \<noteq> CT_HASH_ALG_SM3 \<or> t_signature_algorithm sth \<noteq> CT_SIG_ALG_SM2 then False
      else if length (t_signature sth) \<noteq> 64 then False
      else sm2_verify_std C log_pub (sth_signed_data sth) (t_signature sth))"

definition sign_sth_std :: "crypto \<Rightarrow> bytes \<Rightarrow> u64 \<Rightarrow> u64 \<Rightarrow> bytes \<Rightarrow> signed_tree_head" where
  "sign_sth_std C log_priv timestamp tree_size root_hash =
     (let sth = (sth_unsigned timestamp tree_size root_hash)
            \<lparr>t_hash_algorithm := CT_HASH_ALG_SHA256, t_signature_algorithm := CT_SIG_ALG_ECDSA\<rparr>
      in sth\<lparr>t_signature := ecdsa_p256_sign C log_priv (sth_signed_data sth)\<rparr>)"

definition verify_sth_std :: "crypto \<Rightarrow> signed_tree_head \<Rightarrow> bytes \<Rightarrow> bool" where
  "verify_sth_std C sth log_pub =
     (if t_version sth \<noteq> CT_VERSION_V1 then False
      else if t_hash_algorithm sth \<noteq> CT_HASH_ALG_SHA256 \<or> t_signature_algorithm sth \<noteq> CT_SIG_ALG_ECDSA then False
      else if length (t_signature sth) \<noteq> 64 then False
      else ecdsa_p256_verify C log_pub (sth_signed_data sth) (t_signature sth))"

definition sign_sth_rsa :: "crypto \<Rightarrow> rsa_crt_key \<Rightarrow> u64 \<Rightarrow> u64 \<Rightarrow> bytes \<Rightarrow> signed_tree_head run" where
  "sign_sth_rsa C log_priv timestamp tree_size root_hash =
     (let sth = (sth_unsigned timestamp tree_size root_hash)
            \<lparr>t_hash_algorithm := CT_HASH_ALG_SHA256, t_signature_algorithm := CT_SIG_ALG_RSA\<rparr>
      in run_bind (rsassa_pkcs1v15_sign C log_priv (sth_signed_data sth) k_sha256_digest_info) (\<lambda>sig.
           Ret (case sig of None \<Rightarrow> sth_default | Some sig \<Rightarrow> sth\<lparr>t_signature := sig\<rparr>)))"

definition verify_sth_rsa :: "crypto \<Rightarrow> signed_tree_head \<Rightarrow> rsa_public_key \<Rightarrow> bool" where
  "verify_sth_rsa C sth log_pub =
     (if t_version sth \<noteq> CT_VERSION_V1 then False
      else if t_hash_algorithm sth \<noteq> CT_HASH_ALG_SHA256 \<or> t_signature_algorithm sth \<noteq> CT_SIG_ALG_RSA then False
      else if length (t_signature sth) \<noteq> 256 then False
      else rsassa_pkcs1v15_verify C log_pub (sth_signed_data sth) k_sha256_digest_info (t_signature sth))"

definition compute_log_id :: "x509_cert \<Rightarrow> node_hash run" where
  "compute_log_id log_cert =
     run_bind (spki_raw log_cert) (\<lambda>spki. Ret (case spki of None \<Rightarrow> replicate 32 0 | Some spki \<Rightarrow> sm3_hash spki))"

definition compute_log_id_std :: "x509_cert \<Rightarrow> node_hash run" where
  "compute_log_id_std log_cert =
     run_bind (spki_raw log_cert) (\<lambda>spki. Ret (case spki of None \<Rightarrow> replicate 32 0 | Some spki \<Rightarrow> sha256 spki))"

section \<open>The log\<close>

record ct_log =
  hash_alg :: CtHashAlg
  sig_alg :: CtSigAlg
  log_priv :: bytes
  log_pub :: bytes
  log_id :: node_hash
  rsa_priv :: "rsa_crt_key option"
  rsa_pub :: "rsa_public_key option"
  last_sth_time :: u64
  last_entry_time :: u64
  roots :: "bytes list"
  entries :: "merkle_tree_leaf list"
  extra_datas :: "bytes list"
  leaf_hashes :: "node_hash list"

definition empty_log :: "CtHashAlg \<Rightarrow> CtSigAlg \<Rightarrow> bytes \<Rightarrow> bytes \<Rightarrow> node_hash \<Rightarrow> rsa_crt_key option \<Rightarrow> rsa_public_key option \<Rightarrow> ct_log" where
  "empty_log ha sa priv pub lid rpriv rpub =
     \<lparr>hash_alg = ha, sig_alg = sa, log_priv = priv, log_pub = pub, log_id = lid, rsa_priv = rpriv, rsa_pub = rpub,
      last_sth_time = 0, last_entry_time = 0, roots = [], entries = [], extra_datas = [], leaf_hashes = []\<rparr>"

text \<open>The constructors; the default log is \<open>new_ct_log SM3 Sig_SM2\<close>.\<close>

definition new_ct_log :: "CtHashAlg \<Rightarrow> CtSigAlg \<Rightarrow> bytes \<Rightarrow> bytes \<Rightarrow> ct_log run" where
  "new_ct_log ha sa priv pub =
     (let kt = (if ha = SHA256 \<and> sa = Sig_ECDSA_P256 then ECDSA_P256 else SM2)
      in run_bind (encode_spki kt pub) (\<lambda>spki.
           Ret (empty_log ha sa priv pub (if ha = SHA256 then sha256 spki else sm3_hash spki) None None)))"

definition new_sm2_ct_log :: "bytes \<Rightarrow> bytes \<Rightarrow> ct_log run" where
  "new_sm2_ct_log priv pub = new_ct_log CtHashAlg.SM3 Sig_SM2 priv pub"

definition new_rsa_ct_log :: "rsa_crt_key \<Rightarrow> rsa_public_key \<Rightarrow> ct_log run" where
  "new_rsa_ct_log priv pub =
     (let p = to_bytes (rsa_n pub) @ [1, 0, 1]
      in run_bind (encode_spki RSA_2048 p) (\<lambda>spki.
           Ret (empty_log SHA256 Sig_RSA (replicate 32 0) (replicate 64 0) (sha256 spki) (Some priv) (Some pub))))"

definition accept_root :: "bytes \<Rightarrow> ct_log \<Rightarrow> ct_log" where
  "accept_root root_der lg = lg\<lparr>roots := roots lg @ [root_der]\<rparr>"

definition clear_roots :: "ct_log \<Rightarrow> ct_log" where
  "clear_roots lg = lg\<lparr>roots := []\<rparr>"

section \<open>Checking a submitted chain\<close>

datatype ct_error =
  Empty_chain_submitted | Root_not_accepted | Bad_certificate_DER | No_poison | Precert_no_issuer | Precert_sig_invalid
| Chain_sig_invalid | Poisoned_final | Not_valid_now | Bad_issuer | No_issuer_SPKI | Bad_precert_TBS

fun parse_chain :: "bytes list \<Rightarrow> x509_cert list option run" where
  "parse_chain [] = Ret (Some [])"
| "parse_chain (der # chain) =
     run_bind (from_der der) (\<lambda>c.
       case c of None \<Rightarrow> Ret None
       | Some c \<Rightarrow> run_bind (parse_chain chain) (\<lambda>cs. Ret (case cs of None \<Rightarrow> None | Some cs \<Rightarrow> Some (c # cs))))"

text \<open>Each certificate is signed by the next; the last one is not looked at.\<close>

fun links_ok :: "crypto \<Rightarrow> x509_cert list \<Rightarrow> bool run" where
  "links_ok C (c # nxt # cs) = run_bind (verify_signature C c nxt) (\<lambda>ok. if ok then links_ok C (nxt # cs) else Ret False)"
| "links_ok C _ = Ret True"

definition all_valid_at :: "x509_cert list \<Rightarrow> u64 \<Rightarrow> ct_error option" where
  "all_valid_at certs t = (if \<forall>c\<in>set certs. is_valid_at c t then None else Some Not_valid_now)"

definition check_precert :: "crypto \<Rightarrow> bytes \<Rightarrow> x509_cert list \<Rightarrow> ct_error option run" where
  "check_precert C leaf certs =
     run_bind (find_extn leaf OID_CT_POISON) (\<lambda>poison.
       if poison = None then Ret (Some No_poison)
       else if length certs < 2 then Ret (Some Precert_no_issuer)
       else run_bind (verify_signature C (certs ! 0) (certs ! 1)) (\<lambda>ok.
              if \<not> ok then Ret (Some Precert_sig_invalid)
              else run_bind (links_ok C (drop 1 certs)) (\<lambda>ok. Ret (if ok then None else Some Chain_sig_invalid))))"

definition check_final :: "crypto \<Rightarrow> bytes \<Rightarrow> x509_cert list \<Rightarrow> ct_error option run" where
  "check_final C leaf certs =
     run_bind (find_extn leaf OID_CT_POISON) (\<lambda>poison.
       if poison \<noteq> None then Ret (Some Poisoned_final)
       else run_bind (links_ok C certs) (\<lambda>ok. Ret (if ok then None else Some Chain_sig_invalid)))"

text \<open>\<open>None\<close> when the chain is accepted, else the error; \<open>now\<close> is in milliseconds.\<close>

definition chain_ok :: "crypto \<Rightarrow> ct_log \<Rightarrow> u64 \<Rightarrow> bytes list \<Rightarrow> bool \<Rightarrow> ct_error option run" where
  "chain_ok C lg now chain expect_precert =
     (if chain = [] then Ret (Some Empty_chain_submitted)
      else if last chain \<notin> set (roots lg) then Ret (Some Root_not_accepted)
      else run_bind (parse_chain chain) (\<lambda>certs.
             case certs of None \<Rightarrow> Ret (Some Bad_certificate_DER)
             | Some certs \<Rightarrow>
                 run_bind (if expect_precert then check_precert C (chain ! 0) certs else check_final C (chain ! 0) certs) (\<lambda>e.
                   case e of Some e \<Rightarrow> Ret (Some e)
                   | None \<Rightarrow> Ret (all_valid_at certs (now div 1000)))))"

section \<open>Appending an entry\<close>

definition leaf_hash_for :: "CtHashAlg \<Rightarrow> bytes \<Rightarrow> node_hash" where
  "leaf_hash_for ha serialized = (if ha = SHA256 then sha256_leaf_hash serialized else sm3_leaf_hash serialized)"

text \<open>Dereferencing the empty \<open>rsa_priv_\<close> is undefined behaviour: \<open>Throw\<close>.\<close>

definition issue_for :: "crypto \<Rightarrow> ct_log \<Rightarrow> u64 \<Rightarrow> merkle_tree_leaf \<Rightarrow> signed_certificate_timestamp run" where
  "issue_for C lg ts leaf =
     (case sig_alg lg of
        Sig_ECDSA_P256 \<Rightarrow> Ret (issue_sct_std C (log_priv lg) (log_id lg) ts (entry_type leaf) (signed_entry leaf) (l_extensions leaf))
      | Sig_RSA \<Rightarrow>
          (case rsa_priv lg of None \<Rightarrow> Throw
           | Some key \<Rightarrow> issue_sct_rsa C key (log_id lg) ts (entry_type leaf) (signed_entry leaf) (l_extensions leaf))
      | Sig_SM2 \<Rightarrow>
          Ret (issue_sct C (log_priv lg) (log_pub lg) (log_id lg) ts (entry_type leaf) (signed_entry leaf) (l_extensions leaf)))"

definition append_entry ::
  "crypto \<Rightarrow> ct_log \<Rightarrow> u64 \<Rightarrow> merkle_tree_leaf \<Rightarrow> bytes \<Rightarrow> (ct_log \<times> signed_certificate_timestamp) run" where
  "append_entry C lg now leaf extra_data =
     (let ts = (if now \<le> last_entry_time lg then last_entry_time lg + 1 else now);
          leaf = leaf\<lparr>l_timestamp := ts\<rparr>;
          lh = leaf_hash_for (hash_alg lg) (serialize_merkle_tree_leaf leaf)
      in run_bind (issue_for C lg ts leaf) (\<lambda>sct.
           Ret (lg\<lparr>last_entry_time := ts, entries := entries lg @ [leaf], extra_datas := extra_datas lg @ [extra_data],
                   leaf_hashes := leaf_hashes lg @ [lh]\<rparr>, sct)))"

definition add_chain ::
  "crypto \<Rightarrow> ct_log \<Rightarrow> u64 \<Rightarrow> u64 \<Rightarrow> bytes list \<Rightarrow> (ct_log \<times> (ct_error + signed_certificate_timestamp)) run" where
  "add_chain C lg now1 now2 chain =
     run_bind (chain_ok C lg now1 chain False) (\<lambda>e.
       case e of Some e \<Rightarrow> Ret (lg, Inl e)
       | None \<Rightarrow>
           run_bind (append_entry C lg now2 (leaf_default\<lparr>entry_type := X509_ENTRY, signed_entry := chain ! 0\<rparr>) [])
             (\<lambda>(lg, sct). Ret (lg, Inr sct)))"

definition precert_extra :: "bytes list \<Rightarrow> bytes" where
  "precert_extra chain =
     encode_tls_vector16 (chain ! 0) @ encode_tls_vector16 (concat (map encode_tls_vector24 (drop 1 chain)))"

definition add_pre_chain ::
  "crypto \<Rightarrow> ct_log \<Rightarrow> u64 \<Rightarrow> u64 \<Rightarrow> bytes list \<Rightarrow> (ct_log \<times> (ct_error + signed_certificate_timestamp)) run" where
  "add_pre_chain C lg now1 now2 chain =
     run_bind (chain_ok C lg now1 chain True) (\<lambda>e.
       case e of Some e \<Rightarrow> Ret (lg, Inl e)
       | None \<Rightarrow>
           run_bind (from_der (chain ! 1)) (\<lambda>iss.
             case iss of None \<Rightarrow> Ret (lg, Inl Bad_issuer)
             | Some iss \<Rightarrow>
                 run_bind (spki_raw iss) (\<lambda>spki.
                   case spki of None \<Rightarrow> Ret (lg, Inl No_issuer_SPKI)
                   | Some spki \<Rightarrow>
                       run_bind (extract_tbs (chain ! 0)) (\<lambda>tbs.
                         case tbs of None \<Rightarrow> Ret (lg, Inl Bad_precert_TBS)
                         | Some tbs \<Rightarrow>
                             let pc = \<lparr>issuer_key_hash = (if hash_alg lg = SHA256 then sha256 spki else sm3_hash spki),
                                       tbs_certificate = tbs\<rparr>;
                                 leaf = leaf_default\<lparr>entry_type := PRECERT_ENTRY, signed_entry := make_precert_signed_entry pc\<rparr>
                             in run_bind (append_entry C lg now2 leaf (precert_extra chain))
                                  (\<lambda>(lg, sct). Ret (lg, Inr sct))))))"

section \<open>Answers\<close>

definition get_sth :: "crypto \<Rightarrow> ct_log \<Rightarrow> u64 \<Rightarrow> (ct_log \<times> signed_tree_head) run" where
  "get_sth C lg now =
     (let tree_size = word_of_nat (length (leaf_hashes lg)); root_hash = merkle_root (leaf_hashes lg) (hash_alg lg);
          ts = (if now \<le> last_entry_time lg then last_entry_time lg else now);
          ts = (if ts \<le> last_sth_time lg then last_sth_time lg + 1 else ts);
          lg' = lg\<lparr>last_sth_time := ts\<rparr>
      in case sig_alg lg of
           Sig_ECDSA_P256 \<Rightarrow> Ret (lg', sign_sth_std C (log_priv lg) ts tree_size root_hash)
         | Sig_RSA \<Rightarrow>
             (case rsa_priv lg of None \<Rightarrow> Throw
              | Some key \<Rightarrow> run_bind (sign_sth_rsa C key ts tree_size root_hash) (\<lambda>sth. Ret (lg', sth)))
         | Sig_SM2 \<Rightarrow> Ret (lg', sign_sth C (log_priv lg) (log_pub lg) ts tree_size root_hash))"

definition get_sth_consistency :: "ct_log \<Rightarrow> nat \<Rightarrow> nat \<Rightarrow> node_hash list" where
  "get_sth_consistency lg first second =
     (if first > second \<or> second > length (leaf_hashes lg) then []
      else consistency_proof first second (leaf_hashes lg) (hash_alg lg))"

fun find_leaf :: "node_hash \<Rightarrow> nat \<Rightarrow> node_hash list \<Rightarrow> nat option" where
  "find_leaf leaf_hash i [] = None"
| "find_leaf leaf_hash i (h # hs) = (if h = leaf_hash then Some i else find_leaf leaf_hash (i + 1) hs)"

definition get_proof_by_hash :: "ct_log \<Rightarrow> node_hash \<Rightarrow> nat \<Rightarrow> (nat \<times> node_hash list) option" where
  "get_proof_by_hash lg leaf_hash tree_size =
     (if tree_size > length (leaf_hashes lg) then None
      else case find_leaf leaf_hash 0 (take tree_size (leaf_hashes lg)) of
             None \<Rightarrow> None
           | Some i \<Rightarrow> Some (i, audit_path i (take tree_size (leaf_hashes lg)) (hash_alg lg)))"

definition get_entries :: "ct_log \<Rightarrow> nat \<Rightarrow> nat \<Rightarrow> (bytes list \<times> bytes list) option" where
  "get_entries lg start stop =
     (if start > stop \<or> stop \<ge> length (entries lg) then None
      else Some (map (\<lambda>i. serialize_merkle_tree_leaf (entries lg ! i)) [start..<stop + 1],
                 map (\<lambda>i. extra_datas lg ! i) [start..<stop + 1]))"

end
