(* ===== verification/Lts.thy ===== *)
theory Lts
  imports Main
begin

text \<open>
  Runs of labelled transition systems, and three interfaces a system can offer: a state predicate that every step
  preserves, a preorder along which every step moves, and a simulation into an abstract system. The stateful
  components interpret them.
\<close>

inductive steps :: "('s \<Rightarrow> 'e \<Rightarrow> 's \<Rightarrow> bool) \<Rightarrow> 's \<Rightarrow> 'e list \<Rightarrow> 's \<Rightarrow> bool" for step where
  steps_Nil [intro]: "steps step s [] s"
| steps_snoc [intro]: "steps step s es s' \<Longrightarrow> step s' e s'' \<Longrightarrow> steps step s (es @ [e]) s''"

inductive_cases steps_snocE [elim]: "steps step s (es @ [e]) s'"
inductive_cases steps_NilE [elim!]: "steps step s [] s'"

lemma steps_Nil_iff [simp]: "steps step s [] s' \<longleftrightarrow> s' = s"
  by auto

lemma steps_snoc_iff [simp]: "steps step s (es @ [e]) s'' \<longleftrightarrow> (\<exists>s'. steps step s es s' \<and> step s' e s'')"
  by auto

lemma steps_append: "steps step s (es @ fs) s'' \<longleftrightarrow> (\<exists>s'. steps step s es s' \<and> steps step s' fs s'')"
proof (induction fs arbitrary: s'' rule: rev_induct)
  case (snoc f fs)
  then show ?case unfolding append_assoc [symmetric] steps_snoc_iff by blast
qed simp

lemma steps_one [simp]: "steps step s [e] s' \<longleftrightarrow> step s e s'"
  using steps_snoc_iff [of step s "[]" e s'] by simp

lemma steps_Cons: "steps step s (e # es) s'' \<longleftrightarrow> (\<exists>s'. step s e s' \<and> steps step s' es s'')"
  using steps_append [of step s "[e]" es s''] by simp

locale preserves =
  fixes step :: "'s \<Rightarrow> 'e \<Rightarrow> 's \<Rightarrow> bool" and I :: "'s \<Rightarrow> bool"
  assumes preserved: "I s \<Longrightarrow> step s e s' \<Longrightarrow> I s'"
begin

lemma along: "steps step s es s' \<Longrightarrow> I s \<Longrightarrow> I s'"
  by (induction rule: steps.induct) (auto intro: preserved)

end

locale advances =
  fixes step :: "'s \<Rightarrow> 'e \<Rightarrow> 's \<Rightarrow> bool" and R :: "'s \<Rightarrow> 's \<Rightarrow> bool"
  assumes reflexive: "R s s"
    and transitive: "R s s' \<Longrightarrow> R s' s'' \<Longrightarrow> R s s''"
    and advanced: "step s e s' \<Longrightarrow> R s s'"
begin

lemma along: "steps step s es s' \<Longrightarrow> R s s'"
  by (induction rule: steps.induct) (auto intro: reflexive transitive advanced)

end

locale simulates = preserves step I for step :: "'s \<Rightarrow> 'e \<Rightarrow> 's \<Rightarrow> bool" and I :: "'s \<Rightarrow> bool" +
  fixes astep :: "'a \<Rightarrow> 'e \<Rightarrow> 'a \<Rightarrow> bool" and abs :: "'s \<Rightarrow> 'a"
  assumes simulated: "I s \<Longrightarrow> step s e s' \<Longrightarrow> astep (abs s) e (abs s')"
begin

lemma refines: "steps step s es s' \<Longrightarrow> I s \<Longrightarrow> steps astep (abs s) es (abs s')"
  by (induction rule: steps.induct) (auto intro: simulated along)

end

end
