(* ===== verification/CtRun.thy ===== *)
theory CtRun
  imports CtLog Lts "HOL-Library.Sublist"
begin

text \<open>
  Runs of the log of \<open>CtLog\<close>: a labelled transition system whose events are the calls of the class \<open>ct_log\<close> with
  their clock readings and results. It keeps the lists of the log in step, only appends to them, and refines an
  abstract append-only list. What the log issues is in it: timestamps verify, entries are found by hash with a
  path that verifies, and tree heads are consistent.
\<close>


section \<open>Runs of a log\<close>

text \<open>
  What happens to a log and what it answers. The numbers are the readings of the clock the operation makes.
\<close>

datatype log_event =
  Root bytes
| Clear
| Chain u64 u64 "bytes list" "ct_error + signed_certificate_timestamp"
| Pre_chain u64 u64 "bytes list" "ct_error + signed_certificate_timestamp"
| Head u64 signed_tree_head

inductive log_step :: "crypto \<Rightarrow> ct_log \<Rightarrow> log_event \<Rightarrow> ct_log \<Rightarrow> bool" for C where
  "log_step C lg (Root r) (accept_root r lg)"
| "log_step C lg Clear (clear_roots lg)"
| "add_chain C lg now1 now2 chain = Ret (lg', res) \<Longrightarrow> log_step C lg (Chain now1 now2 chain res) lg'"
| "add_pre_chain C lg now1 now2 chain = Ret (lg', res) \<Longrightarrow> log_step C lg (Pre_chain now1 now2 chain res) lg'"
| "get_sth C lg now = Ret (lg', sth) \<Longrightarrow> log_step C lg (Head now sth) lg'"

inductive_simps log_step_simps:
  "log_step C lg (Root r) lg'"
  "log_step C lg Clear lg'"
  "log_step C lg (Chain now1 now2 chain res) lg'"
  "log_step C lg (Pre_chain now1 now2 chain res) lg'"
  "log_step C lg (Head now sth) lg'"

text \<open>The key material and the choice of algorithms.\<close>

definition identity_of :: "ct_log \<Rightarrow> CtHashAlg \<times> CtSigAlg \<times> bytes \<times> bytes \<times> node_hash \<times> rsa_crt_key option \<times> rsa_public_key option" where
  "identity_of lg = (hash_alg lg, sig_alg lg, log_priv lg, log_pub lg, log_id lg, rsa_priv lg, rsa_pub lg)"

text \<open>Appending: the entry, the hash, the timestamps; nothing else changes.\<close>

definition entry_hash :: "ct_log \<Rightarrow> merkle_tree_leaf \<Rightarrow> node_hash" where
  "entry_hash lg leaf = leaf_hash_for (hash_alg lg) (serialize_merkle_tree_leaf leaf)"

definition appended :: "ct_log \<Rightarrow> u64 \<Rightarrow> merkle_tree_leaf \<Rightarrow> bytes \<Rightarrow> ct_log" where
  "appended lg ts leaf extra =
     lg\<lparr>last_entry_time := ts, entries := entries lg @ [leaf], extra_datas := extra_datas lg @ [extra],
        leaf_hashes := leaf_hashes lg @ [entry_hash lg leaf]\<rparr>"

definition next_time :: "u64 \<Rightarrow> u64 \<Rightarrow> u64" where
  "next_time prev now = (if now \<le> prev then prev + 1 else now)"

lemma append_entry_Ret:
  "append_entry C lg now leaf extra = Ret (lg', sct) \<longleftrightarrow>
     (let ts = next_time (last_entry_time lg) now; leaf = leaf\<lparr>l_timestamp := ts\<rparr>
      in issue_for C lg ts leaf = Ret sct \<and> lg' = appended lg ts leaf extra)"
  by (auto simp: append_entry_def next_time_def appended_def entry_hash_def run_bind_Ret Let_def)

lemma add_chain_cases:
  assumes "add_chain C lg now1 now2 chain = Ret (lg', res)"
  obtains (rejected) e where "lg' = lg" "res = Inl e" "chain_ok C lg now1 chain False = Ret (Some e)"
  | (accepted) ts leaf sct where "chain_ok C lg now1 chain False = Ret None" "ts = next_time (last_entry_time lg) now2"
      "leaf = leaf_default\<lparr>entry_type := X509_ENTRY, signed_entry := chain ! 0, l_timestamp := ts\<rparr>"
      "issue_for C lg ts leaf = Ret sct" "lg' = appended lg ts leaf []" "res = Inr sct"
proof -
  obtain e where e: "chain_ok C lg now1 chain False = Ret e" using assms by (auto simp: add_chain_def run_bind_Ret)
  show thesis
  proof (cases e)
    case None
    let ?ts = "next_time (last_entry_time lg) now2"
    let ?leaf = "leaf_default\<lparr>entry_type := X509_ENTRY, signed_entry := chain ! 0, l_timestamp := ?ts\<rparr>"
    obtain sct where "issue_for C lg ?ts ?leaf = Ret sct" "lg' = appended lg ?ts ?leaf []" "res = Inr sct"
      using assms e None
      by (simp add: add_chain_def run_bind_Ret split_paired_Ex append_entry_Ret Let_def) (metis Pair_inject run.inject)
    then show thesis using accepted [OF _ refl refl] e None by simp
  next
    case (Some err)
    then show thesis using rejected assms e by (auto simp: add_chain_def)
  qed
qed

lemma add_pre_chain_cases:
  assumes "add_pre_chain C lg now1 now2 chain = Ret (lg', res)"
  obtains (rejected) e where "lg' = lg" "res = Inl e"
  | (accepted) iss spki tbs ts leaf sct where "chain_ok C lg now1 chain True = Ret None"
      "from_der (chain ! 1) = Ret (Some iss)" "spki_raw iss = Ret (Some spki)" "extract_tbs (chain ! 0) = Ret (Some tbs)"
      "ts = next_time (last_entry_time lg) now2"
      "leaf = leaf_default\<lparr>entry_type := PRECERT_ENTRY, signed_entry := make_precert_signed_entry
         \<lparr>issuer_key_hash = (if hash_alg lg = SHA256 then sha256 spki else sm3_hash spki), tbs_certificate = tbs\<rparr>, l_timestamp := ts\<rparr>"
      "issue_for C lg ts leaf = Ret sct" "lg' = appended lg ts leaf (precert_extra chain)" "res = Inr sct"
proof -
  obtain e where e: "chain_ok C lg now1 chain True = Ret e" using assms by (auto simp: add_pre_chain_def run_bind_Ret)
  show thesis
  proof (cases e)
    case (Some err)
    then show thesis using rejected assms e by (auto simp: add_pre_chain_def)
  next
    case None
    obtain i where i: "from_der (chain ! 1) = Ret i" using assms e None by (auto simp: add_pre_chain_def run_bind_Ret)
    show thesis
    proof (cases i)
      case [simp]: (Some iss)
      obtain p where p: "spki_raw iss = Ret p" using assms e None i by (auto simp: add_pre_chain_def run_bind_Ret)
      show thesis
      proof (cases p)
        case [simp]: (Some spki)
        obtain t where t: "extract_tbs (chain ! 0) = Ret t"
          using assms e None i p by (auto simp: add_pre_chain_def run_bind_Ret)
        show thesis
        proof (cases t)
          case [simp]: (Some tbs)
          let ?ts = "next_time (last_entry_time lg) now2"
          let ?leaf = "leaf_default\<lparr>entry_type := PRECERT_ENTRY, signed_entry := make_precert_signed_entry
            \<lparr>issuer_key_hash = (if hash_alg lg = SHA256 then sha256 spki else sm3_hash spki), tbs_certificate = tbs\<rparr>,
            l_timestamp := ?ts\<rparr>"
          obtain sct where "issue_for C lg ?ts ?leaf = Ret sct" "lg' = appended lg ?ts ?leaf (precert_extra chain)" "res = Inr sct"
            using assms e None i p t
            by (simp add: add_pre_chain_def run_bind_Ret split_paired_Ex append_entry_Ret Let_def)
              (metis Pair_inject run.inject)
          then show thesis using accepted [OF _ _ _ _ refl refl, of iss spki tbs] e None i p t by simp
        qed (use rejected assms e None i p t in \<open>auto simp: add_pre_chain_def\<close>)
      qed (use rejected assms e None i p in \<open>auto simp: add_pre_chain_def\<close>)
    qed (use rejected assms e None i in \<open>auto simp: add_pre_chain_def\<close>)
  qed
qed

definition head_time :: "ct_log \<Rightarrow> u64 \<Rightarrow> u64" where
  "head_time lg now = next_time (last_sth_time lg) (if now \<le> last_entry_time lg then last_entry_time lg else now)"

definition head_body :: "ct_log \<Rightarrow> u64 \<Rightarrow> signed_tree_head" where
  "head_body lg ts = sth_unsigned ts (word_of_nat (length (leaf_hashes lg))) (merkle_root (leaf_hashes lg) (hash_alg lg))"

lemma get_sth_log: "get_sth C lg now = Ret (lg', sth) \<Longrightarrow> lg' = lg\<lparr>last_sth_time := head_time lg now\<rparr>"
  by (auto simp: get_sth_def head_time_def next_time_def run_bind_Ret Let_def split: CtSigAlg.splits option.splits if_splits)

section \<open>The lists stay in step\<close>

definition wf_log :: "ct_log \<Rightarrow> bool" where
  "wf_log lg \<longleftrightarrow> length (extra_datas lg) = length (entries lg) \<and> leaf_hashes lg = map (entry_hash lg) (entries lg)"

lemma entry_hash_appended [simp]: "entry_hash (appended lg ts leaf extra) = entry_hash lg"
  by (simp add: entry_hash_def appended_def fun_eq_iff)

lemma wf_appended: "wf_log lg \<Longrightarrow> wf_log (appended lg ts leaf extra)"
  unfolding wf_log_def entry_hash_appended by (simp add: appended_def)

lemma entry_hash_frame [simp]:
  "entry_hash (lg\<lparr>roots := r\<rparr>) = entry_hash lg" "entry_hash (lg\<lparr>last_sth_time := t\<rparr>) = entry_hash lg"
  by (simp_all add: entry_hash_def fun_eq_iff)

text \<open>Every step is one of four: the roots, an appended entry, a later tree head, or nothing.\<close>

lemma log_step_cases:
  assumes "log_step C lg e lg'"
  obtains (Roots) r where "lg' = lg\<lparr>roots := r\<rparr>"
  | (Rejected) "lg' = lg"
  | (Appended) now leaf extra where
      "lg' = appended lg (next_time (last_entry_time lg) now) (leaf\<lparr>l_timestamp := next_time (last_entry_time lg) now\<rparr>) extra"
      "\<exists>n chain sct. e = Chain n now chain (Inr sct) \<or> e = Pre_chain n now chain (Inr sct)"
  | (Headed) now sth where "lg' = lg\<lparr>last_sth_time := head_time lg now\<rparr>" "e = Head now sth"
  using assms
proof cases
  case (1 r)
  then show thesis using Roots [of "roots lg @ [r]"] by (simp add: accept_root_def)
next
  case 2
  then show thesis using Roots [of "[]"] by (simp add: clear_roots_def)
next
  case (3 now1 now2 chain res)
  from 3(2) show thesis
  proof (cases rule: add_chain_cases)
    case (accepted ts leaf sct)
    let ?l = "leaf_default\<lparr>entry_type := X509_ENTRY, signed_entry := chain ! 0\<rparr>"
    show thesis by (rule Appended [where leaf = ?l and now = now2]) (use accepted 3 in \<open>auto\<close>)
  qed (use Rejected in blast)
next
  case (4 now1 now2 chain res)
  from 4(2) show thesis
  proof (cases rule: add_pre_chain_cases)
    case (accepted iss spki tbs ts leaf sct)
    have l: "leaf = leaf\<lparr>l_timestamp := ts\<rparr>" using accepted(6) by simp
    show thesis by (rule Appended [where leaf = leaf and now = now2]) (use accepted(5,8,9) l 4(1) in \<open>simp_all\<close>)
  qed (use Rejected in blast)
next
  case (5 now sth)
  show thesis using Headed [OF get_sth_log [OF 5(2)] 5(1)] .
qed

interpretation log_wf: preserves "log_step C" wf_log for C
proof
  fix lg e lg' assume "wf_log lg" "log_step C lg e lg'"
  from this(2,1) show "wf_log lg'"
    by (cases rule: log_step_cases) (simp_all add: wf_appended, simp_all add: wf_log_def)
qed

definition extends :: "ct_log \<Rightarrow> ct_log \<Rightarrow> bool" where
  "extends lg lg' \<longleftrightarrow> identity_of lg' = identity_of lg \<and> prefix (entries lg) (entries lg')
     \<and> prefix (extra_datas lg) (extra_datas lg') \<and> prefix (leaf_hashes lg) (leaf_hashes lg')"

interpretation log_grows: advances "log_step C" extends for C
proof
  fix lg e lg' assume "log_step C lg e lg'"
  then show "extends lg lg'"
    by (cases rule: log_step_cases) (simp_all add: extends_def identity_of_def appended_def)
qed (auto simp: extends_def)

lemma hash_alg_identity: "identity_of lg' = identity_of lg \<Longrightarrow> hash_alg lg' = hash_alg lg"
  by (simp add: identity_of_def)

section \<open>The clock\<close>

fun readings :: "log_event \<Rightarrow> u64 list" where
  "readings (Root r) = []"
| "readings Clear = []"
| "readings (Chain now1 now2 chain res) = [now1, now2]"
| "readings (Pre_chain now1 now2 chain res) = [now1, now2]"
| "readings (Head now sth) = [now]"

text \<open>The clock stays below \<open>T\<close>, and the log is used less often than would make its timestamps wrap.\<close>

definition clock_below :: "nat \<Rightarrow> log_event list \<Rightarrow> bool" where
  "clock_below T es \<longleftrightarrow> (\<forall>e\<in>set es. \<forall>t\<in>set (readings e). unat t < T) \<and> T + length es < 2 ^ 64"

definition timed :: "nat \<Rightarrow> ct_log \<Rightarrow> bool" where
  "timed T lg \<longleftrightarrow> unat (last_entry_time lg) < T \<and> unat (last_sth_time lg) < T
     \<and> sorted_wrt (<) (map l_timestamp (entries lg)) \<and> (\<forall>l\<in>set (entries lg). 0 < l_timestamp l \<and> l_timestamp l \<le> last_entry_time lg)"

lemma next_time_less: "unat prev < 2 ^ 64 - 1 \<Longrightarrow> prev < next_time prev now"
  by (auto simp: next_time_def word_less_nat_alt word_le_nat_alt unat_word_ariths)

lemma next_time_bound: "unat prev < T \<Longrightarrow> unat now < T \<Longrightarrow> T < 2 ^ 64 \<Longrightarrow> unat (next_time prev now) < Suc T"
  by (auto simp: next_time_def unat_word_ariths)

lemma timed_step:
  assumes "timed T lg" "log_step C lg e lg'" "\<forall>t\<in>set (readings e). unat t < T" "T < 2 ^ 64 - 1"
  shows "timed (Suc T) lg'"
  using assms(2)
proof (cases rule: log_step_cases)
  case (Appended now leaf extra)
  have "unat now < T" using Appended(2) assms(3) by auto
  then have b: "unat (next_time (last_entry_time lg) now) < Suc T"
    using assms(1,4) by (intro next_time_bound) (simp_all add: timed_def)
  have "last_entry_time lg < next_time (last_entry_time lg) now"
    using assms(1,4) by (intro next_time_less) (simp add: timed_def)
  moreover have "0 < next_time (last_entry_time lg) now"
    using calculation word_not_simps(1) by (metis word_gt_0)
  ultimately show ?thesis using assms(1) b unfolding Appended(1)
    by (auto simp: timed_def appended_def sorted_wrt_append intro: order.strict_trans2 order.trans order.strict_implies_order)
next
  case (Headed now sth)
  have now: "unat now < T" using Headed(2) assms(3) by simp
  have "unat (head_time lg now) < Suc T"
    using assms(1,4) now unfolding head_time_def by (intro next_time_bound) (auto simp: timed_def)
  then show ?thesis using assms(1) unfolding Headed(1) by (auto simp: timed_def)
qed (use assms(1) in \<open>auto simp: timed_def\<close>)

lemma timed_steps:
  assumes "steps (log_step C) lg es lg'" "timed T lg" "clock_below T es"
  shows "timed (T + length es) lg'"
  using assms
proof (induction rule: steps.induct)
  case (steps_snoc lg es lg' e lg'')
  have c: "clock_below T es" "\<forall>t\<in>set (readings e). unat t < T" "T + length es < 2 ^ 64 - 1"
    using steps_snoc.prems(2) by (auto simp: clock_below_def)
  then show ?case
    using timed_step [OF steps_snoc.IH [OF steps_snoc.prems(1) c(1)] steps_snoc.hyps(2)] by fastforce
qed simp

section \<open>Signatures verify\<close>

text \<open>
  The laws of the log's own key: its signatures have the length of the output array and verify under its public
  key.
\<close>

definition log_key_laws :: "crypto \<Rightarrow> ct_log \<Rightarrow> bool" where
  "log_key_laws C lg \<longleftrightarrow>
     (case sig_alg lg of
        Sig_SM2 \<Rightarrow> \<forall>m za. length (sm2_sign C (log_priv lg) m za) = 64
                     \<and> sm2_verify C (log_pub lg) m (sm2_sign C (log_priv lg) m za) za
      | Sig_ECDSA_P256 \<Rightarrow> \<forall>m. length (ecdsa_p256_sign C (log_priv lg) m) = 64
                     \<and> ecdsa_p256_verify C (log_pub lg) m (ecdsa_p256_sign C (log_priv lg) m)
      | Sig_RSA \<Rightarrow> \<exists>key pub. rsa_priv lg = Some key \<and> rsa_pub lg = Some pub \<and> rsa_key_pair C 32 pub key)"

lemma log_key_laws_identity: "identity_of lg' = identity_of lg \<Longrightarrow> log_key_laws C lg' = log_key_laws C lg"
  by (simp add: identity_of_def log_key_laws_def cong: CtSigAlg.case_cong)

text \<open>The verifiers a client of the log uses, by the log's signature algorithm.\<close>

definition client_verify_sct :: "crypto \<Rightarrow> ct_log \<Rightarrow> signed_certificate_timestamp \<Rightarrow> LogEntryType \<Rightarrow> bytes \<Rightarrow> bool" where
  "client_verify_sct C lg sct et entry =
     (case sig_alg lg of
        Sig_SM2 \<Rightarrow> verify_sct C sct (log_pub lg) et entry
      | Sig_ECDSA_P256 \<Rightarrow> verify_sct_std C sct (log_pub lg) et entry
      | Sig_RSA \<Rightarrow> (case rsa_pub lg of None \<Rightarrow> False | Some pub \<Rightarrow> verify_sct_rsa C sct pub et entry))"

definition client_verify_sth :: "crypto \<Rightarrow> ct_log \<Rightarrow> signed_tree_head \<Rightarrow> bool" where
  "client_verify_sth C lg sth =
     (case sig_alg lg of
        Sig_SM2 \<Rightarrow> verify_sth C sth (log_pub lg)
      | Sig_ECDSA_P256 \<Rightarrow> verify_sth_std C sth (log_pub lg)
      | Sig_RSA \<Rightarrow> (case rsa_pub lg of None \<Rightarrow> False | Some pub \<Rightarrow> verify_sth_rsa C sth pub))"

text \<open>
  A DER signature of exactly 64 bytes is read as \<open>r || s\<close>; \<open>plain_signature\<close> excludes that.
\<close>

definition plain_signature :: "ct_log \<Rightarrow> signed_certificate_timestamp \<Rightarrow> bool" where
  "plain_signature lg sct \<longleftrightarrow> sig_alg lg \<noteq> Sig_ECDSA_P256 \<or> length (s_signature sct) \<noteq> 64"

lemma rsa_log_signature:
  assumes "rsa_key_pair C 32 pub key"
  shows "\<exists>sig. rsassa_pkcs1v15_sign C key msg k_sha256_digest_info = Ret (Some sig) \<and> length sig = 256
    \<and> rsassa_pkcs1v15_verify C pub msg k_sha256_digest_info sig"
proof -
  let ?p = k_sha256_digest_info and ?h = "sha256 msg"
  let ?EM = "pkcs1v15_em 256 ?p ?h"
  have p: "length ?p = 19" "prefix_hash_len ?p = 32" by (simp_all add: k_sha256_digest_info_def prefix_hash_len_def)
  have em: "length ?EM = 8 * 32" "pkcs1v15_check 256 ?p ?h ?EM" using pkcs1v15_em_props [of ?p ?h 256] p by simp_all
  have b: "be_val ?EM < 2 ^ (64 * 32 - 1)" by (rule zero_block_bound [OF em(1)]) (simp_all add: pkcs1v15_em_def)
  have "bn_val (from_bytes 32 ?EM) < bn_val (rsa_n pub)" using block_below_modulus [OF assms em(1) b] .
  moreover have "length (from_bytes 32 ?EM) = 32" by simp
  ultimately have "length (RSADP C key (from_bytes 32 ?EM)) = 32" using assms by (simp add: rsa_key_pair_def)
  then have "length (to_bytes (RSADP C key (from_bytes 32 ?EM))) = 256" by (simp add: to_bytes_be)
  then show ?thesis
    using em(2) sign_verify_block [OF assms em(1) b] p
    by (simp add: rsassa_pkcs1v15_sign_def rsassa_pkcs1v15_verify_def RSASP1_def)
qed

lemma issue_for_verifies:
  assumes "log_key_laws C lg" "issue_for C lg ts leaf = Ret sct"
  shows "s_timestamp sct = ts \<and> s_log_id sct = log_id lg \<and> s_extensions sct = l_extensions leaf
    \<and> (plain_signature lg sct \<longrightarrow> client_verify_sct C lg sct (entry_type leaf) (signed_entry leaf))"
proof (cases "sig_alg lg")
  case Sig_SM2
  then show ?thesis using assms(1,2)
    by (auto simp: client_verify_sct_def issue_for_def issue_sct_def verify_sct_def log_key_laws_def sct_default_def
      sm2_sign_std_def sm2_verify_std_def)
next
  case Sig_ECDSA_P256
  define raw where
    "raw = ecdsa_p256_sign C (log_priv lg) (sct_signed_data ts (entry_type leaf) (signed_entry leaf) (l_extensions leaf))"
  have raw: "length raw = 64" using assms(1) Sig_ECDSA_P256 by (simp add: log_key_laws_def raw_def)
  then obtain der where der: "ecdsa_sign_to_der raw 80 = Some der"
    using ecdsa_der_total [of raw 32 80] by auto
  then have dec: "ecdsa_sig_from_der der 64 = Some raw" using ecdsa_der_roundtrip [OF der] raw by simp
  have "sct = sct_default\<lparr>s_version := CT_VERSION_V1, s_log_id := log_id lg, s_timestamp := ts, s_extensions := l_extensions leaf,
      s_hash_algorithm := CT_HASH_ALG_SHA256, s_signature_algorithm := CT_SIG_ALG_ECDSA, s_signature := der\<rparr>"
    using assms(2) Sig_ECDSA_P256 der by (simp add: issue_for_def issue_sct_std_def raw_def [symmetric])
  then show ?thesis using assms(1) Sig_ECDSA_P256 dec
    by (simp add: client_verify_sct_def verify_sct_std_def log_key_laws_def plain_signature_def) (simp add: raw_def)
next
  case Sig_RSA
  obtain key pub where k: "rsa_priv lg = Some key" "rsa_pub lg = Some pub" "rsa_key_pair C 32 pub key"
    using assms(1) Sig_RSA by (auto simp: log_key_laws_def)
  define d where "d = sct_signed_data ts (entry_type leaf) (signed_entry leaf) (l_extensions leaf)"
  obtain sig where s: "rsassa_pkcs1v15_sign C key d k_sha256_digest_info = Ret (Some sig)" "length sig = 256"
    "rsassa_pkcs1v15_verify C pub d k_sha256_digest_info sig"
    using rsa_log_signature [OF k(3)] by blast
  have "sct = sct_default\<lparr>s_version := CT_VERSION_V1, s_log_id := log_id lg, s_timestamp := ts, s_extensions := l_extensions leaf,
      s_hash_algorithm := CT_HASH_ALG_SHA256, s_signature_algorithm := CT_SIG_ALG_RSA, s_signature := sig\<rparr>"
    using assms(2) Sig_RSA k(1) s(1) by (simp add: issue_for_def issue_sct_rsa_def d_def)
  then show ?thesis using Sig_RSA k s by (simp add: client_verify_sct_def verify_sct_rsa_def d_def [symmetric])
qed

lemma issue_for_total: "log_key_laws C lg \<Longrightarrow> \<exists>sct. issue_for C lg ts leaf = Ret sct"
proof (cases "sig_alg lg")
  case Sig_RSA
  assume "log_key_laws C lg"
  then obtain key pub where "rsa_priv lg = Some key" "rsa_key_pair C 32 pub key"
    using Sig_RSA by (auto simp: log_key_laws_def)
  then show ?thesis using rsa_log_signature [of C pub key] Sig_RSA
    by (simp add: issue_for_def issue_sct_rsa_def Let_def) (metis run_bind_simps(2))
qed (simp_all add: issue_for_def)

lemma sth_signed_data_frame [simp]:
  "sth_signed_data (sth\<lparr>t_signature := s\<rparr>) = sth_signed_data sth"
  "sth_signed_data (sth\<lparr>t_hash_algorithm := h, t_signature_algorithm := a\<rparr>) = sth_signed_data sth"
  by (simp_all add: sth_signed_data_def)

lemma get_sth_verifies:
  assumes "log_key_laws C lg"
  shows "\<exists>sth. get_sth C lg now = Ret (lg\<lparr>last_sth_time := head_time lg now\<rparr>, sth) \<and> client_verify_sth C lg sth
    \<and> t_timestamp sth = head_time lg now \<and> t_tree_size sth = word_of_nat (length (leaf_hashes lg))
    \<and> t_root_hash sth = merkle_root (leaf_hashes lg) (hash_alg lg)"
proof -
  let ?ts = "head_time lg now"
  let ?sth = "sth_unsigned ?ts (word_of_nat (length (leaf_hashes lg))) (merkle_root (leaf_hashes lg) (hash_alg lg))"
  have ts: "(let ts = (if now \<le> last_entry_time lg then last_entry_time lg else now) in
      if ts \<le> last_sth_time lg then last_sth_time lg + 1 else ts) = ?ts"
    by (simp add: head_time_def next_time_def Let_def)
  show ?thesis
  proof (cases "sig_alg lg")
    case Sig_SM2
    then show ?thesis using assms ts
      by (simp add: get_sth_def Let_def sign_sth_def client_verify_sth_def verify_sth_def log_key_laws_def
        sm2_sign_std_def sm2_verify_std_def) (simp add: sth_unsigned_def sth_default_def)
  next
    case Sig_ECDSA_P256
    then show ?thesis using assms ts
      by (simp add: get_sth_def Let_def sign_sth_std_def client_verify_sth_def verify_sth_std_def log_key_laws_def)
        (simp add: sth_unsigned_def sth_default_def)
  next
    case Sig_RSA
    obtain key pub where k: "rsa_priv lg = Some key" "rsa_pub lg = Some pub" "rsa_key_pair C 32 pub key"
      using assms Sig_RSA by (auto simp: log_key_laws_def)
    obtain sig where s: "rsassa_pkcs1v15_sign C key (sth_signed_data ?sth) k_sha256_digest_info = Ret (Some sig)" "length sig = 256"
      "rsassa_pkcs1v15_verify C pub (sth_signed_data ?sth) k_sha256_digest_info sig"
      using rsa_log_signature [OF k(3)] by blast
    then show ?thesis using ts k Sig_RSA
      by (simp add: get_sth_def Let_def sign_sth_rsa_def client_verify_sth_def verify_sth_rsa_def)
        (simp add: sth_unsigned_def sth_default_def)
  qed
qed

section \<open>The abstract log: a list that only grows\<close>

type_synonym alog = "(merkle_tree_leaf \<times> bytes) list"

definition abs_log :: "ct_log \<Rightarrow> alog" where
  "abs_log lg = zip (entries lg) (extra_datas lg)"

definition alog_hashes :: "CtHashAlg \<Rightarrow> alog \<Rightarrow> node_hash list" where
  "alog_hashes ha A = map (\<lambda>(leaf, extra). leaf_hash_for ha (serialize_merkle_tree_leaf leaf)) A"

inductive alog_step :: "CtHashAlg \<Rightarrow> alog \<Rightarrow> log_event \<Rightarrow> alog \<Rightarrow> bool" for ha where
  alog_root: "alog_step ha A (Root r) A"
| alog_clear: "alog_step ha A Clear A"
| alog_refuse: "alog_step ha A (Chain now1 now2 chain (Inl e)) A"
| alog_refuse_pre: "alog_step ha A (Pre_chain now1 now2 chain (Inl e)) A"
| alog_add:
    "leaf = leaf_default\<lparr>entry_type := X509_ENTRY, signed_entry := chain ! 0, l_timestamp := s_timestamp sct\<rparr>
     \<Longrightarrow> alog_step ha A (Chain now1 now2 chain (Inr sct)) (A @ [(leaf, [])])"
| alog_add_pre:
    "extract_tbs (chain ! 0) = Ret (Some (tbs_certificate pc)) \<Longrightarrow>
     leaf = leaf_default\<lparr>entry_type := PRECERT_ENTRY, signed_entry := serialize_precert pc, l_timestamp := s_timestamp sct\<rparr>
     \<Longrightarrow> alog_step ha A (Pre_chain now1 now2 chain (Inr sct)) (A @ [(leaf, precert_extra chain)])"
| alog_head:
    "t_tree_size sth = word_of_nat (length A) \<Longrightarrow> t_root_hash sth = merkle_root (alog_hashes ha A) ha
     \<Longrightarrow> alog_step ha A (Head now sth) A"

lemma alog_hashes_abs: "wf_log lg \<Longrightarrow> alog_hashes (hash_alg lg) (abs_log lg) = leaf_hashes lg"
  by (auto simp: alog_hashes_def abs_log_def wf_log_def entry_hash_def intro!: nth_equalityI)

lemma length_abs_log: "wf_log lg \<Longrightarrow> length (abs_log lg) = length (entries lg)"
  by (simp add: abs_log_def wf_log_def)

lemma abs_log_appended: "wf_log lg \<Longrightarrow> abs_log (appended lg ts leaf extra) = abs_log lg @ [(leaf, extra)]"
  by (simp add: abs_log_def wf_log_def appended_def)

definition log_inv :: "crypto \<Rightarrow> CtHashAlg \<Rightarrow> ct_log \<Rightarrow> bool" where
  "log_inv C ha lg \<longleftrightarrow> wf_log lg \<and> hash_alg lg = ha \<and> log_key_laws C lg"

lemma log_step_identity: "log_step C lg e lg' \<Longrightarrow> identity_of lg' = identity_of lg"
  using log_grows.advanced by (simp add: extends_def)

lemma log_inv_step: "log_inv C ha lg \<Longrightarrow> log_step C lg e lg' \<Longrightarrow> log_inv C ha lg'"
  using log_wf.preserved [of lg C e lg'] log_step_identity [of C lg e lg'] hash_alg_identity [of lg' lg]
    log_key_laws_identity [of lg' lg C]
  by (simp add: log_inv_def)

lemma alog_simulates:
  assumes "log_inv C ha lg" "log_step C lg e lg'"
  shows "alog_step ha (abs_log lg) e (abs_log lg')"
proof -
  have wf: "wf_log lg" and ha: "hash_alg lg = ha" and laws: "log_key_laws C lg" using assms(1) by (simp_all add: log_inv_def)
  from assms(2) show ?thesis
  proof cases
    case (1 r)
    have "abs_log lg' = abs_log lg" by (simp add: 1 abs_log_def accept_root_def)
    then show ?thesis using 1 alog_root by simp
  next
    case 2
    have "abs_log lg' = abs_log lg" by (simp add: 2 abs_log_def clear_roots_def)
    then show ?thesis using 2 alog_clear by simp
  next
    case (3 now1 now2 chain res)
    from 3(2) show ?thesis
    proof (cases rule: add_chain_cases)
      case (accepted ts leaf sct)
      have "ts = s_timestamp sct" using issue_for_verifies [OF laws accepted(4)] by simp
      then have l: "leaf = leaf_default\<lparr>entry_type := X509_ENTRY, signed_entry := chain ! 0, l_timestamp := s_timestamp sct\<rparr>"
        using accepted(3) by simp
      show ?thesis using alog_add [OF l] by (simp add: 3(1) accepted(5,6) abs_log_appended [OF wf])
    qed (simp add: 3 alog_refuse)
  next
    case (4 now1 now2 chain res)
    from 4(2) show ?thesis
    proof (cases rule: add_pre_chain_cases)
      case (accepted iss spki tbs ts leaf sct)
      let ?pc = "\<lparr>issuer_key_hash = (if hash_alg lg = SHA256 then sha256 spki else sm3_hash spki), tbs_certificate = tbs\<rparr>"
      have "ts = s_timestamp sct" using issue_for_verifies [OF laws accepted(7)] by simp
      then have l: "leaf = leaf_default\<lparr>entry_type := PRECERT_ENTRY, signed_entry := serialize_precert ?pc, l_timestamp := s_timestamp sct\<rparr>"
        using accepted(6) by (simp add: make_precert_signed_entry_def)
      show ?thesis
        using alog_add_pre [OF _ l] accepted(4) by (simp add: 4(1) accepted(8,9) abs_log_appended [OF wf])
    qed (simp add: 4 alog_refuse_pre)
  next
    case (5 now sth)
    have sth: "t_tree_size sth = word_of_nat (length (leaf_hashes lg))" "t_root_hash sth = merkle_root (leaf_hashes lg) ha"
      and "lg' = lg\<lparr>last_sth_time := head_time lg now\<rparr>"
      using get_sth_verifies [OF laws, of now] 5(2) ha by auto
    then have "abs_log lg' = abs_log lg" by (simp add: abs_log_def)
    moreover have "length (leaf_hashes lg) = length (abs_log lg)" using wf by (simp add: length_abs_log) (simp add: wf_log_def)
    ultimately show ?thesis
      using alog_head [of sth "abs_log lg" ha now] sth alog_hashes_abs [OF wf] ha by (simp add: 5)
  qed
qed

interpretation log_refinement: simulates "log_step C" "log_inv C ha" "alog_step ha" abs_log for C ha
  by unfold_locales (auto intro: log_inv_step alog_simulates)

section \<open>What clients can check\<close>

lemma find_leaf_mem: "h \<in> set hs \<Longrightarrow> \<exists>i. find_leaf h k hs = Some (k + i) \<and> i < length hs \<and> hs ! i = h"
proof (induction hs arbitrary: k)
  case (Cons a hs)
  show ?case
  proof (cases "a = h")
    case False
    then obtain i where "find_leaf h (Suc k) hs = Some (Suc k + i)" "i < length hs" "hs ! i = h"
      using Cons.IH [of "Suc k"] Cons.prems by auto
    then show ?thesis using False by (intro exI [of _ "Suc i"]) simp
  qed (auto intro: exI [of _ 0])
qed simp

lemma proof_by_hash_verifies:
  assumes "h \<in> set (leaf_hashes lg)"
  shows "\<exists>i path. get_proof_by_hash lg h (length (leaf_hashes lg)) = Some (i, path)
    \<and> verify_audit_path i (length (leaf_hashes lg)) h path (merkle_root (leaf_hashes lg) (hash_alg lg)) (hash_alg lg)"
proof -
  obtain i where i: "find_leaf h 0 (leaf_hashes lg) = Some i" "i < length (leaf_hashes lg)" "leaf_hashes lg ! i = h"
    using find_leaf_mem [OF assms, of 0] by auto
  then have "verify_audit_path i (length (leaf_hashes lg)) h (audit_path i (leaf_hashes lg) (hash_alg lg))
      (merkle_root (leaf_hashes lg) (hash_alg lg)) (hash_alg lg)"
    using audit_complete [OF i(2), of "ops_for (hash_alg lg)"]
    by (simp add: verify_audit_path_loop audit_path_def merkle_root_mth)
  then show ?thesis using i by (simp add: get_proof_by_hash_def)
qed

lemma length_entries_step: "log_step C lg e lg' \<Longrightarrow> length (entries lg') \<le> Suc (length (entries lg))"
  by (cases rule: log_step_cases) (auto simp: appended_def)

lemma length_entries_steps: "steps (log_step C) lg es lg' \<Longrightarrow> length (entries lg') \<le> length (entries lg) + length es"
  by (induction rule: steps.induct) (auto dest: length_entries_step)

text \<open>The timestamp an event has issued.\<close>

fun granted :: "log_event \<Rightarrow> signed_certificate_timestamp option" where
  "granted (Chain now1 now2 chain (Inr sct)) = Some sct"
| "granted (Pre_chain now1 now2 chain (Inr sct)) = Some sct"
| "granted _ = None"

lemma granted_step:
  assumes "log_step C lg e lg'" "granted e = Some sct" "log_key_laws C lg"
  shows "\<exists>leaf\<in>set (entries lg'). l_timestamp leaf = s_timestamp sct
    \<and> (plain_signature lg sct \<longrightarrow> client_verify_sct C lg sct (entry_type leaf) (signed_entry leaf))
    \<and> (\<forall>now1 now2 chain. e = Chain now1 now2 chain (Inr sct) \<longrightarrow> entry_type leaf = X509_ENTRY \<and> signed_entry leaf = chain ! 0)"
  using assms(1)
proof cases
  case (3 now1 now2 chain res)
  from 3(2) show ?thesis
  proof (cases rule: add_chain_cases)
    case (accepted ts leaf sct')
    then have [simp]: "sct' = sct" using assms(2) 3(1) by simp
    have "leaf \<in> set (entries lg')" "l_timestamp leaf = ts" "entry_type leaf = X509_ENTRY \<and> signed_entry leaf = chain ! 0"
      by (simp_all add: accepted(3,5) appended_def)
    then show ?thesis using issue_for_verifies [OF assms(3) accepted(4)] 3(1) by (intro bexI [of _ leaf]) auto
  qed (use assms(2) 3 in simp)
next
  case (4 now1 now2 chain res)
  from 4(2) show ?thesis
  proof (cases rule: add_pre_chain_cases)
    case (accepted iss spki tbs ts leaf sct')
    then have [simp]: "sct' = sct" using assms(2) 4(1) by simp
    have "leaf \<in> set (entries lg')" "l_timestamp leaf = ts" by (simp_all add: accepted(6,8) appended_def)
    then show ?thesis using issue_for_verifies [OF assms(3) accepted(7)] 4(1) by (intro bexI [of _ leaf]) auto
  qed (use assms(2) 4 in simp)
qed (use assms(2) in simp_all)

lemma granted_in_run:
  assumes "steps (log_step C) lg es lg'" "e \<in> set es" "granted e = Some sct" "log_key_laws C lg"
  shows "\<exists>leaf\<in>set (entries lg'). l_timestamp leaf = s_timestamp sct
    \<and> (plain_signature lg sct \<longrightarrow> client_verify_sct C lg sct (entry_type leaf) (signed_entry leaf))
    \<and> (\<forall>now1 now2 chain. e = Chain now1 now2 chain (Inr sct) \<longrightarrow> entry_type leaf = X509_ENTRY \<and> signed_entry leaf = chain ! 0)"
proof -
  obtain as bs where es: "es = as @ e # bs" using assms(2) by (meson split_list)
  then obtain l1 l2 where s: "steps (log_step C) lg as l1" "log_step C l1 e l2" "steps (log_step C) l2 bs lg'"
    using assms(1) by (auto simp: steps_append steps_Cons)
  have id: "identity_of l1 = identity_of lg" using log_grows.along [OF s(1)] by (simp add: extends_def)
  have frame: "plain_signature l1 = plain_signature lg" "client_verify_sct C l1 = client_verify_sct C lg"
    using id by (simp_all add: identity_of_def plain_signature_def client_verify_sct_def fun_eq_iff cong: CtSigAlg.case_cong)
  have "set (entries l2) \<subseteq> set (entries lg')"
    using log_grows.along [OF s(3)] set_mono_prefix by (auto simp: extends_def)
  then show ?thesis
    using granted_step [OF s(2) assms(3)] assms(4) log_key_laws_identity [OF id] frame by auto
qed

text \<open>A log of two keys, with signatures that are the message, and the state after one entry.\<close>

definition toy_ct_crypto :: crypto where
  "toy_ct_crypto = toy_crypto\<lparr>sm2_sign := (\<lambda>_ m _. toy_sign m), sm2_verify := (\<lambda>_ m s _. s = toy_sign m)\<rparr>"

definition toy_log :: ct_log where
  "toy_log = appended (empty_log SHA256 Sig_SM2 (replicate 32 1) (replicate 64 2) (replicate 32 3) None None) 5
     (leaf_default\<lparr>l_timestamp := 5, signed_entry := [0x30, 0]\<rparr>) []"

lemma wf_toy_log: "wf_log toy_log" "log_key_laws toy_ct_crypto toy_log"
  by (simp_all add: toy_log_def wf_log_def appended_def entry_hash_def empty_log_def log_key_laws_def toy_ct_crypto_def)

lemma toy_log_sizes: "length (entries toy_log) = 1" "length (leaf_hashes toy_log) = 1" "timed 6 toy_log"
  by (simp_all add: toy_log_def appended_def empty_log_def timed_def leaf_default_def)

lemma steps_roots: "steps (log_step C) lg [Root r, Clear] (clear_roots (accept_root r lg))"
  by (simp add: steps_Cons log_step_simps)

lemma slice_nth: "b \<le> length xs \<Longrightarrow> map (\<lambda>k. f (xs ! k)) [a..<b] = map f (take (b - a) (drop a xs))"
  by (auto intro!: nth_equalityI)

lemma clock_below_prefix: "clock_below T (as @ bs) \<Longrightarrow> clock_below T as"
  by (auto simp: clock_below_def)

lemma clock_below_later: "clock_below T (as @ bs) \<Longrightarrow> clock_below (T + length as) bs"
  by (auto simp: clock_below_def intro: trans_less_add1)

lemma last_sth_time_mono:
  assumes "steps (log_step C) lg es lg'" "timed T lg" "clock_below T es"
  shows "last_sth_time lg \<le> last_sth_time lg'"
  using assms
proof (induction rule: steps.induct)
  case (steps_snoc lg es lg' e lg'')
  have c: "clock_below T es" "T + length es < 2 ^ 64 - 1" using steps_snoc.prems(2) by (auto simp: clock_below_def)
  have "timed (T + length es) lg'" by (rule timed_steps [OF steps_snoc.hyps(1) steps_snoc.prems(1) c(1)])
  then have t: "unat (last_sth_time lg') < 2 ^ 64 - 1" using c(2) by (simp add: timed_def)
  have "last_sth_time lg' \<le> last_sth_time lg''"
    using steps_snoc.hyps(2)
    by (cases rule: log_step_cases) (simp_all add: appended_def head_time_def order.strict_implies_order next_time_less [OF t])
  then show ?case using steps_snoc.IH [OF steps_snoc.prems(1) c(1)] by simp
qed simp

text \<open>What a tree head of a run says.\<close>

lemma head_of_run:
  assumes "steps (log_step C) lg as l1" "log_step C l1 (Head now sth) l2" "wf_log lg" "log_key_laws C lg"
    "length (entries lg) + length as < 2 ^ 64"
  shows "client_verify_sth C lg sth \<and> t_timestamp sth = head_time l1 now \<and> l2 = l1\<lparr>last_sth_time := head_time l1 now\<rparr>
    \<and> unat (t_tree_size sth) = length (leaf_hashes l1) \<and> t_root_hash sth = merkle_root (leaf_hashes l1) (hash_alg lg)"
proof -
  have id: "identity_of l1 = identity_of lg" using log_grows.along [OF assms(1)] by (simp add: extends_def)
  then have laws: "log_key_laws C l1" and ha: "hash_alg l1 = hash_alg lg"
    using assms(4) log_key_laws_identity hash_alg_identity by blast+
  have cl: "client_verify_sth C l1 = client_verify_sth C lg"
    using id by (simp add: identity_of_def client_verify_sth_def fun_eq_iff cong: CtSigAlg.case_cong)
  have "wf_log l1" using log_wf.along [OF assms(1,3)] .
  then have "length (leaf_hashes l1) < 2 ^ 64"
    using length_entries_steps [OF assms(1)] assms(5) by (simp add: wf_log_def)
  then show ?thesis
    using get_sth_verifies [OF laws, of now] assms(2) ha cl by (auto simp: log_step_simps unat_of_nat)
qed

lemma prefix_take: "prefix xs ys \<Longrightarrow> xs = take (length xs) ys"
  by (auto simp: prefix_def)

lemma parse_chain_Ret: "parse_chain chain = Ret (Some cs) \<longleftrightarrow> list_all2 (\<lambda>der c. from_der der = Ret (Some c)) chain cs"
proof (induction chain arbitrary: cs)
  case (Cons d chain)
  show ?case by (cases cs) (auto simp: run_bind_Ret Cons.IH split: option.splits)
qed (auto simp: list_all2_Nil)

fun linked :: "crypto \<Rightarrow> x509_cert list \<Rightarrow> bool" where
  "linked C (c # nxt # cs) \<longleftrightarrow> verify_signature C c nxt = Ret True \<and> linked C (nxt # cs)"
| "linked C _ \<longleftrightarrow> True"

lemma links_ok_linked: "links_ok C cs = Ret True \<longleftrightarrow> linked C cs"
  by (induction C cs rule: linked.induct) (auto simp: run_bind_Ret split: if_splits)

definition small_der :: bytes where
  "small_der = [0x30, 0x25, 0x30, 0x18, 0x02, 0x01, 0x01, 0x30, 0x00, 0x30, 0x00, 0x30, 0x00, 0x30, 0x00,
     0x30, 0x0B, 0x30, 0x05, 0x06, 0x03, 0x2B, 0x65, 0x70, 0x03, 0x02, 0x00, 0x07,
     0x30, 0x05, 0x06, 0x03, 0x2B, 0x65, 0x70, 0x03, 0x02, 0x00, 0x05]"
definition small_cert :: x509_cert where
  "small_cert = x509_cert_default\<lparr>version := 0, serial_number := [1], public_key := [7], signature := [5],
     tbs_raw := take 26 (drop 2 small_der)\<rparr>"

lemma small_der_parses: "from_der small_der = Ret (Some small_cert)"
  by code_simp

lemma small_der_final: "find_extn small_der OID_CT_POISON = Ret None"
  by code_simp

section \<open>Poisoned precertificates\<close>

lemma encode_tlv_inj:
  assumes "encode_tlv tag v = encode_tlv tag w" "length (encode_tlv tag v) < 2 ^ 63"
  shows "v = w"
proof -
  have "has_at (encode_tlv tag v) 0 (encode_tlv tag v)" "has_at (encode_tlv tag v) 0 (encode_tlv tag w)"
    using assms(1) by (simp_all add: has_at_def)
  note d = this [THEN decode_has_at, OF assms(2)]
  then show ?thesis by simp
qed

lemma length_concat_filter: "\<lbrakk>x \<in> set xs; \<not> P x; \<forall>x\<in>set xs. f x \<noteq> []\<rbrakk> \<Longrightarrow> length (concat (map f (filter P xs))) < length (concat (map f xs))"
proof (induction xs)
  case (Cons a xs)
  have le: "length (concat (map f (filter P ys))) \<le> length (concat (map f ys))" for ys by (induction ys) simp_all
  show ?case
  proof (cases "P a")
    case True
    then show ?thesis using Cons by auto
  next
    case False
    then show ?thesis using le [of xs] Cons.prems(3) by (auto simp: le_imp_less_Suc intro: le_less_trans)
  qed
qed simp

lemma tbs_of_filter_neq:
  assumes "x \<in> set exts" "\<not> P x" "length (tbs_of es exts) < 2 ^ 63"
  shows "tbs_of es (filter P exts) \<noteq> tbs_of es exts"
proof
  assume "tbs_of es (filter P exts) = tbs_of es exts"
  then have "exts_bytes (filter P exts) = exts_bytes exts"
    using encode_tlv_inj [of TAG_SEQUENCE "concat (map tlv_bytes es) @ exts_bytes exts"
        "concat (map tlv_bytes es) @ exts_bytes (filter P exts)"] assms(3)
    by (simp add: tbs_of_def encode_sequence_def)
  moreover have ne: "exts \<noteq> []" using assms(1) by auto
  ultimately have "filter P exts \<noteq> []" and eq: "encode_tlv TAG_CONTEXT3 (encode_tlv TAG_SEQUENCE (concat (map ext_bytes exts)))
      = encode_tlv TAG_CONTEXT3 (encode_tlv TAG_SEQUENCE (concat (map ext_bytes (filter P exts))))"
    by (auto simp: exts_bytes_def encode_context_def encode_sequence_def encode_tlv_def [of TAG_CONTEXT3] split: if_splits)
  have "length (exts_bytes exts) < 2 ^ 63"
    using assms(3) encode_tlv_value [of "concat (map tlv_bytes es) @ exts_bytes exts" TAG_SEQUENCE]
    by (simp add: tbs_of_def encode_sequence_def)
  then have s: "length (encode_tlv TAG_CONTEXT3 (encode_tlv TAG_SEQUENCE (concat (map ext_bytes exts)))) < 2 ^ 63"
    using ne by (simp add: exts_bytes_def encode_context_def encode_sequence_def)
  have s': "length (encode_tlv TAG_SEQUENCE (concat (map ext_bytes exts))) < 2 ^ 63"
    using s encode_tlv_value [of "encode_tlv TAG_SEQUENCE (concat (map ext_bytes exts))" TAG_CONTEXT3] by simp
  have "concat (map ext_bytes exts) = concat (map ext_bytes (filter P exts))"
    using encode_tlv_inj [OF encode_tlv_inj [OF eq s] s'] .
  moreover have "\<forall>e\<in>set exts. ext_bytes e \<noteq> []" by (simp add: ext_bytes_def encode_sequence_def encode_tlv_def)
  ultimately show False using length_concat_filter [of x exts P ext_bytes] assms(1,2) by fastforce
qed

text \<open>An issuer and a poisoned precertificate of it, with the same elements.\<close>

definition some_elements :: "TLV list" where
  "some_elements = [\<lparr>tlv_tag = TAG_INTEGER, tlv_value = [1]\<rparr>, \<lparr>tlv_tag = TAG_SEQUENCE, tlv_value = []\<rparr>,
     \<lparr>tlv_tag = TAG_SEQUENCE, tlv_value = []\<rparr>, \<lparr>tlv_tag = TAG_SEQUENCE, tlv_value = []\<rparr>, \<lparr>tlv_tag = TAG_SEQUENCE, tlv_value = []\<rparr>,
     \<lparr>tlv_tag = TAG_SEQUENCE, tlv_value = encode_sequence (encode_oid OID_ED25519) @ encode_bit_string (replicate 32 7) 0\<rparr>]"

definition poison_extension :: "bytes \<times> bytes" where
  "poison_extension = (OID_CT_POISON, [0x01, 0x01, 0xFF, 0x04, 0x02, 0x05, 0x00])"

definition cert_rest :: bytes where
  "cert_rest = encode_sequence (encode_oid OID_ED25519) @ encode_bit_string (replicate 64 9) 0"

definition issuer_der :: bytes where "issuer_der = encode_sequence (tbs_of some_elements [] @ cert_rest)"
definition precert_der :: bytes where "precert_der = encode_sequence (tbs_of some_elements [poison_extension] @ cert_rest)"

definition trusting_crypto :: crypto where
  "trusting_crypto = toy_ct_crypto\<lparr>ed25519_verify := (\<lambda>_ _ _. True)\<rparr>"

definition sm3_log :: ct_log where
  "sm3_log = accept_root issuer_der (empty_log CtHashAlg.SM3 Sig_SM2 (replicate 32 1) (replicate 64 2) (replicate 32 3) None None)"

definition usable :: "x509_cert \<Rightarrow> bool" where
  "usable c \<longleftrightarrow> tbs_raw c \<noteq> [] \<and> length (public_key c) = 32 \<and> length (signature c) = 64 \<and> sign_key_type c = Ed25519
     \<and> not_before c = 0"

lemma usable_certs:
  "\<exists>c. from_der precert_der = Ret (Some c) \<and> usable c" "\<exists>c. from_der issuer_der = Ret (Some c) \<and> usable c"
proof -
  have "run_bind (from_der precert_der) (\<lambda>c. Ret (case c of None \<Rightarrow> False | Some c \<Rightarrow> usable c)) = Ret True"
    "run_bind (from_der issuer_der) (\<lambda>c. Ret (case c of None \<Rightarrow> False | Some c \<Rightarrow> usable c)) = Ret True"
    by code_simp+
  then show "\<exists>c. from_der precert_der = Ret (Some c) \<and> usable c" "\<exists>c. from_der issuer_der = Ret (Some c) \<and> usable c"
    by (auto simp: run_bind_Ret split: option.splits)
qed

lemma precert_poisoned: "\<exists>x. find_extn precert_der OID_CT_POISON = Ret (Some x)"
proof -
  have "find_extn precert_der OID_CT_POISON = Ret (Some \<lparr>x_critical = True, x_extn_value = [0x05, 0x00]\<rparr>)" by code_simp
  then show ?thesis by blast
qed

lemma usable_verifies: "usable c \<Longrightarrow> usable d \<Longrightarrow> verify_signature trusting_crypto c d = Ret True"
  by (simp add: usable_def verify_signature_def signed_tbs_def reading_def trusting_crypto_def)

lemma precert_chain_ok: "chain_ok trusting_crypto sm3_log 0 [precert_der, issuer_der] True = Ret None"
proof -
  obtain c d where "from_der precert_der = Ret (Some c)" "usable c" "from_der issuer_der = Ret (Some d)" "usable d"
    using usable_certs by blast
  then show ?thesis
    using precert_poisoned usable_verifies
    by (auto simp: chain_ok_def sm3_log_def accept_root_def empty_log_def check_precert_def all_valid_at_def is_valid_at_def usable_def)
qed

lemma issuer_spki: "\<exists>iss spki. from_der issuer_der = Ret (Some iss) \<and> spki_raw iss = Ret (Some spki)"
proof -
  have "run_bind (from_der issuer_der) (\<lambda>i. case i of None \<Rightarrow> Ret None | Some i \<Rightarrow> spki_raw i)
      = Ret (Some (tlv_bytes (some_elements ! 5)))"
    by code_simp
  then show ?thesis by (auto simp: run_bind_Ret split: option.splits)
qed

lemma precert_sizes: "length precert_der < 2 ^ 63" "length (tbs_of some_elements [poison_extension]) < 2 ^ 63"
  by (simp_all add: precert_der_def tbs_of_def exts_bytes_def tlv_bytes_def some_elements_def poison_extension_def cert_rest_def
    ext_bytes_def encode_sequence_def encode_context_def encode_tlv_def encode_length_def encode_oid_def OID_CT_POISON_def
    OID_ED25519_def encode_bit_string_def length_bytes.simps)

lemma rebuilt_precert_tbs:
  assumes "\<forall>t\<in>set es. tlv_tag t \<noteq> TAG_CONTEXT3"
    "length (final_der (tbs_of es (kept @ [raw_ext (sct_extension scts)])) sig_algo sig) < 2 ^ 63"
    "\<forall>e\<in>set kept. fst e \<noteq> OID_SCT_LIST"
  shows "precert_tbs_from_final (final_der (tbs_of es (kept @ [raw_ext (sct_extension scts)])) sig_algo sig)
    = Ret (Some (tbs_of es kept))"
proof -
  let ?n = "tbs_of es (kept @ [raw_ext (sct_extension scts)])"
  have "length (final_der ?n sig_algo sig) > length ?n"
    using encode_tlv_value [of "?n @ sig_algo @ encode_bit_string sig 0" TAG_SEQUENCE]
    by (simp add: final_der_def encode_sequence_def)
  with assms(2) have n: "length ?n < 2 ^ 63" by simp
  have "extract_tbs (final_der ?n sig_algo sig) = Ret (Some ?n)"
    using assms(2) extract_tbs_of [of _ "sig_algo @ encode_bit_string sig 0"] by (simp add: final_der_def tbs_of_def)
  moreover have "filter (\<lambda>e. fst e \<notin> set [OID_SCT_LIST]) (kept @ [raw_ext (sct_extension scts)]) = kept"
    using assms(3) by (simp add: raw_ext_def sct_extension_def)
  ultimately show ?thesis
    using modify_tbs_of [OF n assms(1), of "[OID_SCT_LIST]" "[]"] by (simp add: precert_tbs_from_final_def)
qed

section \<open>Properties\<close>

text \<open>
  C3. Refinement: every run of the log is a run of an abstract log that is only a list, to which accepted chains
  are appended in order and of which a tree head is the size and the Merkle root; the log answers
  \<open>get_entries\<close> with the serialised entries of that list.
\<close>

theorem log_refines_list:
  assumes "steps (log_step C) lg es lg'" "wf_log lg" "log_key_laws C lg"
  shows "steps (alog_step (hash_alg lg)) (abs_log lg) es (abs_log lg')
    \<and> get_entries lg' i j = (if i > j \<or> j \<ge> length (abs_log lg') then None
        else Some (map (serialize_merkle_tree_leaf \<circ> fst) (take (j + 1 - i) (drop i (abs_log lg'))),
                   map snd (take (j + 1 - i) (drop i (abs_log lg')))))"
proof -
  have "log_inv C (hash_alg lg) lg" using assms by (simp add: log_inv_def)
  note r = log_refinement.refines [OF assms(1) this]
  have "wf_log lg'" using log_wf.along assms(1,2) by blast
  then have l: "length (extra_datas lg') = length (entries lg')" by (simp add: wf_log_def)
  have slice: "map (\<lambda>k. f (entries lg' ! k) (extra_datas lg' ! k)) [i..<j + 1] = map (case_prod f) (take (j + 1 - i) (drop i (abs_log lg')))"
    if "j < length (entries lg')" for f :: "merkle_tree_leaf \<Rightarrow> bytes \<Rightarrow> bytes"
  proof -
    have "map (\<lambda>k. f (entries lg' ! k) (extra_datas lg' ! k)) [i..<j + 1] = map (\<lambda>k. case_prod f (abs_log lg' ! k)) [i..<j + 1]"
      using that l by (intro map_cong) (auto simp: abs_log_def)
    also have "\<dots> = map (case_prod f) (take (j + 1 - i) (drop i (abs_log lg')))"
      using that l by (intro slice_nth) (simp add: abs_log_def)
    finally show ?thesis .
  qed
  have "serialize_merkle_tree_leaf \<circ> fst = (\<lambda>(leaf, extra :: bytes). serialize_merkle_tree_leaf leaf)" "snd = (\<lambda>(leaf :: merkle_tree_leaf, extra :: bytes). extra)"
    by (auto simp: fun_eq_iff)
  note this [simp]
  have "length (abs_log lg') = length (entries lg')" using l by (simp add: abs_log_def)
  then show ?thesis
    using r slice [of "\<lambda>leaf extra. serialize_merkle_tree_leaf leaf"] slice [of "\<lambda>leaf extra. extra"]
    by (auto simp: get_entries_def simp del: upt_Suc)
qed

theorem log_refines_list_witness:
  "steps (alog_step SHA256) (abs_log toy_log) [Root [1], Clear] (abs_log (clear_roots (accept_root [1] toy_log)))"
  using log_refines_list [OF steps_roots wf_toy_log, of "[1]" 0 0] by (simp add: toy_log_def appended_def empty_log_def)

text \<open>
  C4. The log is an append-only, timed list: along every run the entries, extra data and leaf hashes only grow
  and stay in step, the keys and the log id never change, and while the clock stays below \<open>T\<close> and the log is not
  used so often that a 64-bit timestamp wraps, the entries' timestamps increase strictly, whatever the clock
  says.
\<close>

theorem log_is_append_only:
  assumes "steps (log_step C) lg es lg'" "wf_log lg" "timed T lg" "clock_below T es"
  shows "extends lg lg' \<and> wf_log lg' \<and> sorted_wrt (<) (map l_timestamp (entries lg'))
    \<and> unat (last_entry_time lg') < T + length es \<and> unat (last_sth_time lg') < T + length es"
  using log_grows.along [OF assms(1)] log_wf.along [OF assms(1,2)] timed_steps [OF assms(1,3,4)]
  by (simp add: timed_def)

theorem log_is_append_only_witness:
  "extends toy_log (clear_roots (accept_root [1] toy_log)) \<and> wf_log (clear_roots (accept_root [1] toy_log))"
  using log_is_append_only [OF steps_roots wf_toy_log(1) toy_log_sizes(3), of "[1]"] by (simp add: clock_below_def)



text \<open>
  C6. What an issued timestamp promises: the entry it was issued for is in the log ever after with that timestamp;
  the timestamp verifies for it; and every later tree head's log finds the entry by its hash with an audit path
  that verifies against the root of that head. (An ECDSA signature that happens to be 64 bytes long is misread
  by \<open>verify_sct_std\<close>: \<open>plain_signature\<close>.)
\<close>

theorem issued_timestamp_is_kept:
  assumes "steps (log_step C) lg es lg'" "wf_log lg" "log_key_laws C lg" "e \<in> set es" "granted e = Some sct"
    "log_step C lg' (Head now sth) lg''" "length (entries lg) + length es < 2 ^ 64"
  shows "\<exists>leaf i path. leaf \<in> set (entries lg') \<and> l_timestamp leaf = s_timestamp sct
    \<and> (\<forall>now1 now2 chain. e = Chain now1 now2 chain (Inr sct) \<longrightarrow> entry_type leaf = X509_ENTRY \<and> signed_entry leaf = chain ! 0)
    \<and> (plain_signature lg sct \<longrightarrow> client_verify_sct C lg sct (entry_type leaf) (signed_entry leaf))
    \<and> get_proof_by_hash lg' (entry_hash lg leaf) (unat (t_tree_size sth)) = Some (i, path)
    \<and> verify_audit_path i (unat (t_tree_size sth)) (entry_hash lg leaf) path (t_root_hash sth) (hash_alg lg)"
proof -
  obtain leaf where leaf: "leaf \<in> set (entries lg')" "l_timestamp leaf = s_timestamp sct"
    "plain_signature lg sct \<longrightarrow> client_verify_sct C lg sct (entry_type leaf) (signed_entry leaf)"
    "\<forall>now1 now2 chain. e = Chain now1 now2 chain (Inr sct) \<longrightarrow> entry_type leaf = X509_ENTRY \<and> signed_entry leaf = chain ! 0"
    using granted_in_run [OF assms(1,4,5,3)] by blast
  have wf: "wf_log lg'" using log_wf.along [OF assms(1,2)] .
  have ha: "hash_alg lg' = hash_alg lg" using log_grows.along [OF assms(1)] hash_alg_identity [of lg' lg] by (simp add: extends_def)
  have "entry_hash lg' = entry_hash lg" using ha by (simp add: entry_hash_def fun_eq_iff)
  then have "entry_hash lg leaf \<in> set (leaf_hashes lg')" using wf leaf(1) by (simp add: wf_log_def)
  note pr = proof_by_hash_verifies [OF this]
  note h = head_of_run [OF assms(1,6,2,3,7)]
  show ?thesis using leaf pr h ha by auto
qed

theorem issued_timestamp_is_kept_witness:
  "\<exists>sct lg lg' lg'' sth leaf i path. steps (log_step toy_ct_crypto) lg [Chain 0 0 [small_der] (Inr sct)] lg'
    \<and> log_step toy_ct_crypto lg' (Head 0 sth) lg'' \<and> signed_entry leaf = small_der
    \<and> get_proof_by_hash lg' (entry_hash lg leaf) (unat (t_tree_size sth)) = Some (i, path)
    \<and> verify_audit_path i (unat (t_tree_size sth)) (entry_hash lg leaf) path (t_root_hash sth) (hash_alg lg)"
proof -
  let ?lg = "accept_root small_der toy_log"
  have id: "identity_of ?lg = identity_of toy_log" by (simp add: identity_of_def accept_root_def)
  have lg: "wf_log ?lg" "log_key_laws toy_ct_crypto ?lg" "length (entries ?lg) = 1"
    using wf_toy_log log_key_laws_identity [OF id] toy_log_sizes by (simp_all add: accept_root_def wf_log_def)
  have ok: "chain_ok toy_ct_crypto ?lg 0 [small_der] False = Ret None"
    by (simp add: chain_ok_def small_der_parses small_der_final check_final_def all_valid_at_def is_valid_at_def
      accept_root_def small_cert_def x509_cert_default_def)
  define leaf where "leaf = leaf_default\<lparr>entry_type := X509_ENTRY, signed_entry := small_der\<rparr>"
  obtain sct lg' where "append_entry toy_ct_crypto ?lg 0 leaf [] = Ret (lg', sct)"
    using issue_for_total [OF lg(2)] by (metis append_entry_Ret)
  then have "add_chain toy_ct_crypto ?lg 0 0 [small_der] = Ret (lg', Inr sct)"
    using ok by (simp add: add_chain_def leaf_def)
  then have s: "steps (log_step toy_ct_crypto) ?lg [Chain 0 0 [small_der] (Inr sct)] lg'"
    by (simp add: log_step_simps)
  have "log_key_laws toy_ct_crypto lg'"
    using log_grows.along [OF s] lg(2) log_key_laws_identity [of lg' ?lg] by (simp add: extends_def)
  then obtain sth lg'' where h: "log_step toy_ct_crypto lg' (Head 0 sth) lg''"
    using get_sth_verifies by (meson log_step_simps(5))
  obtain lf i path where "signed_entry lf = small_der"
    "get_proof_by_hash lg' (entry_hash ?lg lf) (unat (t_tree_size sth)) = Some (i, path)"
    "verify_audit_path i (unat (t_tree_size sth)) (entry_hash ?lg lf) path (t_root_hash sth) (hash_alg ?lg)"
    using issued_timestamp_is_kept [OF s lg(1,2) _ _ h, of "Chain 0 0 [small_der] (Inr sct)" sct] lg(3) by auto
  then show ?thesis using s h by blast
qed



text \<open>
  A log constructed for RSA with a raw key pair, which the second constructor allows, has no RSA key: the
  first entry or tree head dereferences an empty \<open>std::optional\<close>.
\<close>

theorem rsa_log_without_key:
  assumes "new_ct_log ha Sig_RSA priv pub = Ret lg"
  shows "get_sth C lg now = Throw \<and> append_entry C lg now leaf extra = Throw"
  using assms by (auto simp: new_ct_log_def run_bind_Ret empty_log_def get_sth_def append_entry_def issue_for_def)

theorem rsa_log_without_key_witness:
  "\<exists>lg. new_ct_log SHA256 Sig_RSA [1] [2] = Ret lg \<and> get_sth toy_ct_crypto lg 5 = Throw"
proof -
  obtain lg where "new_ct_log SHA256 Sig_RSA [1] [2] = Ret lg"
    by (cases "is_ec SM2") (simp_all add: new_ct_log_def encode_spki_def spki_key_def is_rsa_def)
  then show ?thesis using rsa_log_without_key by blast
qed

text \<open>
  C12. The timestamp of a precertificate is not the one RFC 6962 asks for: \<open>add_pre_chain\<close> logs and signs the TBS of
  the submitted precertificate with its poison extension, whereas a client can only rebuild, from the final
  certificate, the TBS without it (\<open>precert_tbs_from_final\<close>). The two always differ, so the embedded timestamps
  of the log do not verify for the final certificate.
\<close>

theorem precert_timestamp_covers_poison:
  assumes "add_pre_chain C lg now1 now2 chain = Ret (lg', Inr sct)"
    "chain ! 0 = encode_sequence (tbs_of es exts @ rest)" "length (chain ! 0) < 2 ^ 63" "OID_CT_POISON \<in> fst ` set exts"
    "\<forall>t\<in>set es. tlv_tag t \<noteq> TAG_CONTEXT3" "kept = filter (\<lambda>e. fst e \<notin> {OID_CT_POISON, OID_SCT_LIST}) exts"
    "length (final_der (tbs_of es (kept @ [raw_ext (sct_extension scts)])) sig_algo sig) < 2 ^ 63"
  shows "\<exists>pc client_tbs. signed_entry (last (entries lg')) = serialize_precert pc
    \<and> precert_tbs_from_final (final_der (tbs_of es (kept @ [raw_ext (sct_extension scts)])) sig_algo sig) = Ret (Some client_tbs)
    \<and> tbs_certificate pc = tbs_of es exts \<and> client_tbs \<noteq> tbs_certificate pc"
  using assms(1)
proof (cases rule: add_pre_chain_cases)
  case (accepted iss spki tbs ts leaf sct')
  have "extract_tbs (chain ! 0) = Ret (Some (tbs_of es exts))"
    using extract_tbs_of [of _ rest] assms(2,3) by (simp add: tbs_of_def)
  then have [simp]: "tbs = tbs_of es exts" using accepted(4) by simp
  have small: "length (tbs_of es exts) < 2 ^ 63"
    using assms(2,3) encode_tlv_value [of "tbs_of es exts @ rest" TAG_SEQUENCE] by (simp add: encode_sequence_def)
  obtain x where x: "x \<in> set exts" "fst x = OID_CT_POISON" using assms(4) by force
  have "tbs_of es kept \<noteq> tbs_of es exts" unfolding assms(6) by (rule tbs_of_filter_neq [OF x(1) _ small]) (simp add: x(2))
  moreover have "precert_tbs_from_final (final_der (tbs_of es (kept @ [raw_ext (sct_extension scts)])) sig_algo sig)
      = Ret (Some (tbs_of es kept))"
    by (rule rebuilt_precert_tbs [OF assms(5,7)]) (simp add: assms(6))
  moreover have "signed_entry (last (entries lg')) = serialize_precert
      \<lparr>issuer_key_hash = (if hash_alg lg = SHA256 then sha256 spki else sm3_hash spki), tbs_certificate = tbs_of es exts\<rparr>"
    using accepted(6,8) by (simp add: appended_def make_precert_signed_entry_def)
  ultimately show ?thesis by force
qed simp

theorem precert_timestamp_covers_poison_witness:
  "\<exists>lg' sct pc client_tbs. add_pre_chain trusting_crypto sm3_log 0 0 [precert_der, issuer_der] = Ret (lg', Inr sct)
    \<and> signed_entry (last (entries lg')) = serialize_precert pc
    \<and> precert_tbs_from_final (final_der (tbs_of some_elements [raw_ext (sct_extension [])]) [] []) = Ret (Some client_tbs)
    \<and> client_tbs \<noteq> tbs_certificate pc"
proof -
  obtain iss spki where i: "from_der issuer_der = Ret (Some iss)" "spki_raw iss = Ret (Some spki)" using issuer_spki by blast
  have t: "extract_tbs precert_der = Ret (Some (tbs_of some_elements [poison_extension]))"
    using extract_tbs_of [of _ cert_rest] precert_sizes by (simp add: tbs_of_def precert_der_def)
  have laws: "log_key_laws trusting_crypto sm3_log"
    by (simp add: log_key_laws_def sm3_log_def accept_root_def empty_log_def trusting_crypto_def toy_ct_crypto_def)
  obtain lg' sct where a: "add_pre_chain trusting_crypto sm3_log 0 0 [precert_der, issuer_der] = Ret (lg', Inr sct)"
    using precert_chain_ok i t issue_for_total [OF laws]
    by (simp add: add_pre_chain_def append_entry_def Let_def) (metis run_bind_simps(2) prod.case)
  have "length (final_der (tbs_of some_elements ([] @ [raw_ext (sct_extension [])])) [] []) < 2 ^ 63"
    by (simp add: final_der_def tbs_of_def exts_bytes_def tlv_bytes_def some_elements_def raw_ext_def sct_extension_def
      encode_sct_list_extn_def encode_tls_vector16_def encode_u16_def OID_SCT_LIST_def encode_octet_string_def
      ext_bytes_def encode_sequence_def encode_context_def encode_tlv_def encode_length_def encode_oid_def
      OID_ED25519_def encode_bit_string_def length_bytes.simps)
  then show ?thesis
    using precert_timestamp_covers_poison [OF a, of some_elements "[poison_extension]" cert_rest "[]" "[]" "[]" "[]"] a precert_sizes
    by (simp add: precert_der_def poison_extension_def) (fastforce simp: some_elements_def tag_defs)
qed

end
