(* ===== verification/ChaCha.thy ===== *)
theory ChaCha
  imports Prelude
begin

text \<open>
  The ChaCha20 stream cipher, \<open>src/src/chacha20_poly1305.cpp\<close>: the block function and the portable
  route of \<open>chacha20_crypt\<close> (the AVX-512, AVX2 and NEON routes are not modelled). The lemmas show that the
  cipher is an involution of a fixed length and that a message encrypted in pieces of whole blocks, each with
  the counter the code computes for it, is the message encrypted at once.
\<close>

section \<open>The block function\<close>

definition load32_le :: "bytes \<Rightarrow> nat \<Rightarrow> u32" where
  "load32_le p i = ucast (p ! i) OR push_bit 8 (ucast (p ! (i + 1))) OR push_bit 16 (ucast (p ! (i + 2)))
     OR push_bit 24 (ucast (p ! (i + 3)))"

definition store32_le :: "u32 \<Rightarrow> bytes" where
  "store32_le v = [ucast v, ucast (drop_bit 8 v), ucast (drop_bit 16 v), ucast (drop_bit 24 v)]"

definition rotl32 :: "u32 \<Rightarrow> nat \<Rightarrow> u32" where
  "rotl32 x n = push_bit n x OR drop_bit (32 - n) x"

text \<open>The macro \<open>QR(s[a], s[b], s[c], s[d])\<close>, on four different places of the state.\<close>

definition QR :: "nat \<Rightarrow> nat \<Rightarrow> nat \<Rightarrow> nat \<Rightarrow> u32 list \<Rightarrow> u32 list" where
  "QR a b c d s =
     (let xa = s ! a + s ! b; xd = rotl32 (s ! d XOR xa) 16;
          xc = s ! c + xd; xb = rotl32 (s ! b XOR xc) 12;
          xa = xa + xb; xd = rotl32 (xd XOR xa) 8;
          xc = xc + xd; xb = rotl32 (xb XOR xc) 7
      in s[a := xa, b := xb, c := xc, d := xd])"

definition double_round :: "u32 list \<Rightarrow> u32 list" where
  "double_round s =
     (let s = QR 0 4 8 12 s; s = QR 1 5 9 13 s; s = QR 2 6 10 14 s; s = QR 3 7 11 15 s;
          s = QR 0 5 10 15 s; s = QR 1 6 11 12 s; s = QR 2 7 8 13 s
      in QR 3 4 9 14 s)"

definition chacha20_init :: "bytes \<Rightarrow> u32 \<Rightarrow> bytes \<Rightarrow> u32 list" where
  "chacha20_init key counter nonce =
     [0x61707865, 0x3320646e, 0x79622d32, 0x6b206574] @ map (\<lambda>i. load32_le key (i * 4)) [0..<8]
     @ [counter, load32_le nonce 0, load32_le nonce 4, load32_le nonce 8]"

definition chacha20_block :: "bytes \<Rightarrow> u32 \<Rightarrow> bytes \<Rightarrow> bytes" where
  "chacha20_block key counter nonce =
     (let init = chacha20_init key counter nonce;
          s = (double_round ^^ 10) init;
          s = map2 (+) s init
      in concat (map store32_le s))"

section \<open>The stream\<close>

text \<open>The loop of \<open>chacha20_crypt\<close>, on the input that is left. The counter wraps after \<open>2 ^ 32\<close> blocks.\<close>

function chacha20_crypt :: "bytes \<Rightarrow> u32 \<Rightarrow> bytes \<Rightarrow> bytes \<Rightarrow> bytes" where
  "chacha20_crypt key counter nonce input =
     (if input = [] then []
      else let block = chacha20_block key counter nonce;
               chunk = min 64 (length input)
           in map (\<lambda>i. input ! i XOR block ! i) [0..<chunk]
              @ chacha20_crypt key (counter + 1) nonce (drop chunk input))"
  by pat_completeness auto
termination
  by (relation "measure (\<lambda>(_, _, _, input). length input)") auto

declare chacha20_crypt.simps [simp del]

section \<open>Lengths\<close>

lemma length_QR [simp, len_simps]: "length (QR a b c d s) = length s"
  by (simp add: QR_def Let_def)

lemma length_double_round [simp, len_simps]: "length (double_round s) = length s"
  by (simp add: double_round_def Let_def)

lemma length_chacha20_init [simp, len_simps]: "length (chacha20_init key counter nonce) = 16"
  by (simp add: chacha20_init_def)

lemma length_rounds: "length ((double_round ^^ n) s) = length s"
  by (induction n) simp_all

lemma length_chacha20_block [simp, len_simps]: "length (chacha20_block key counter nonce) = 64"
proof -
  have "length (store32_le v) = 4" for v by (simp add: store32_le_def)
  then show ?thesis by (simp add: chacha20_block_def Let_def length_concat_const [where k = 4] length_rounds)
qed

section \<open>The keystream\<close>

text \<open>Byte \<open>i\<close> of the keystream is byte \<open>i mod 64\<close> of block \<open>counter + i div 64\<close>, modulo \<open>2 ^ 32\<close>.\<close>

definition keystream_byte :: "bytes \<Rightarrow> u32 \<Rightarrow> bytes \<Rightarrow> nat \<Rightarrow> u8" where
  "keystream_byte key counter nonce i = chacha20_block key (counter + word_of_nat (i div 64)) nonce ! (i mod 64)"

lemma keystream_skip:
  "keystream_byte key counter nonce (64 * n + i) = keystream_byte key (counter + word_of_nat n) nonce i"
  by (simp add: keystream_byte_def algebra_simps)

lemma chacha20_crypt_keystream:
  "chacha20_crypt key counter nonce input
   = map (\<lambda>i. input ! i XOR keystream_byte key counter nonce i) [0..<length input]"
proof (induction key counter nonce input rule: chacha20_crypt.induct)
  case (1 key counter nonce input)
  show ?case
  proof (cases "input = []")
    case True
    then show ?thesis by (simp add: chacha20_crypt.simps)
  next
    case False
    let ?k = "min 64 (length input)"
    have IH: "chacha20_crypt key (counter + 1) nonce (drop ?k input)
        = map (\<lambda>i. drop ?k input ! i XOR keystream_byte key (counter + 1) nonce i) [0..<length input - ?k]"
      using 1 [OF False refl refl] by simp
    have head: "keystream_byte key counter nonce i = chacha20_block key counter nonce ! i" if "i < ?k" for i
      using that by (simp add: keystream_byte_def)
    have tail: "keystream_byte key counter nonce (64 + i) = keystream_byte key (counter + 1) nonce i" for i
      using keystream_skip [of key counter nonce 1 i] by simp
    have "chacha20_crypt key counter nonce input
        = map (\<lambda>i. input ! i XOR keystream_byte key counter nonce i) [0..<?k]
          @ map (\<lambda>i. input ! (?k + i) XOR keystream_byte key counter nonce (?k + i)) [0..<length input - ?k]"
      using False by (subst chacha20_crypt.simps) (simp add: IH Let_def head tail cong: map_cong)
    also have "\<dots> = map (\<lambda>i. input ! i XOR keystream_byte key counter nonce i) [0..<?k + (length input - ?k)]"
      by (rule nth_equalityI) (auto simp: nth_append)
    finally show ?thesis by simp
  qed
qed

lemma length_chacha20_crypt [simp, len_simps]: "length (chacha20_crypt key counter nonce input) = length input"
  by (simp add: chacha20_crypt_keystream)

lemma chacha20_crypt_involution: "chacha20_crypt key counter nonce (chacha20_crypt key counter nonce input) = input"
  by (rule nth_equalityI) (simp_all add: chacha20_crypt_keystream xor.assoc)

lemma chacha20_crypt_append:
  assumes "length a = 64 * n"
  shows "chacha20_crypt key counter nonce (a @ b)
    = chacha20_crypt key counter nonce a @ chacha20_crypt key (counter + word_of_nat n) nonce b"
  by (rule nth_equalityI) (auto simp: chacha20_crypt_keystream nth_append assms keystream_skip [symmetric])

end
