(* ===== verification/Poly1305.thy ===== *)
theory Poly1305
  imports Bignum Codec
begin

text \<open>
  The one-time authenticator Poly1305, \<open>src/src/chacha20_poly1305.cpp\<close>, in the portable representation: three
  limbs of 44, 44 and 42 bits, products of 128 bits, four blocks at a time with precomputed powers of \<open>r\<close>
  (the AVX2 route in 26-bit limbs is not modelled). The limb arithmetic is compared with the numbers modulo
  \<open>2 ^ 130 - 5\<close>: no intermediate word overflows, and the tag is that of RFC 8439.
\<close>

section \<open>Little-endian numbers\<close>

primrec le_val :: "bytes \<Rightarrow> nat" where
  "le_val [] = 0"
| "le_val (b # bs) = unat b + 256 * le_val bs"

primrec le_bytes :: "nat \<Rightarrow> nat \<Rightarrow> bytes" where
  "le_bytes 0 x = []"
| "le_bytes (Suc n) x = word_of_nat x # le_bytes n (x div 256)"

text \<open>\<open>memcpy\<close> between bytes and a \<open>uint64_t\<close>, on a little-endian machine.\<close>

definition poly_load64 :: "bytes \<Rightarrow> nat \<Rightarrow> u64" where
  "poly_load64 p i = foldr (\<lambda>b v. ucast b OR push_bit 8 v) (take 8 (drop i p)) 0"

definition poly_store64 :: "u64 \<Rightarrow> bytes" where
  "poly_store64 v = map (\<lambda>k. ucast (drop_bit (8 * k) v)) [0..<8]"

section \<open>Products of 128 bits\<close>

record p128 =
  p_lo :: u64
  p_hi :: u64

definition p128_of :: "128 word \<Rightarrow> p128" where
  "p128_of r = \<lparr>p_lo = ucast r, p_hi = ucast (drop_bit 64 r)\<rparr>"

definition p128_mul :: "u64 \<Rightarrow> u64 \<Rightarrow> p128" where
  "p128_mul a b = p128_of (ucast a * ucast b)"

definition p128_add :: "p128 \<Rightarrow> p128 \<Rightarrow> p128" where
  "p128_add a b =
     p128_of ((ucast (p_lo a) OR push_bit 64 (ucast (p_hi a))) + (ucast (p_lo b) OR push_bit 64 (ucast (p_hi b))))"

definition p128_add_u64 :: "p128 \<Rightarrow> u64 \<Rightarrow> p128" where
  "p128_add_u64 a b = p128_of ((ucast (p_lo a) OR push_bit 64 (ucast (p_hi a))) + ucast b)"

definition p128_mul_u64 :: "p128 \<Rightarrow> u64 \<Rightarrow> p128" where
  "p128_mul_u64 a k =
     (let r = ucast (p_lo a) * ucast k :: 128 word
      in \<lparr>p_lo = ucast r, p_hi = ucast (drop_bit 64 r) + p_hi a * k\<rparr>)"

section \<open>Three limbs\<close>

type_synonym limbs = "u64 \<times> u64 \<times> u64"

definition M44 :: u64 where
  "M44 = 0xfffffffffff"

definition M42 :: u64 where
  "M42 = 0x3ffffffffff"

text \<open>\<open>poly_mul3\<close> in two halves: the products with the fold of \<open>B^3 = 20\<close> and \<open>B^4 = 20 B\<close>, then the carries.\<close>

definition poly_products :: "limbs \<Rightarrow> limbs \<Rightarrow> p128 \<times> p128 \<times> p128" where
  "poly_products h r =
     (let (h0, h1, h2) = h; (r0, r1, r2) = r;
          p0 = p128_mul h0 r0;
          p1 = p128_add (p128_mul h0 r1) (p128_mul h1 r0);
          p2 = p128_add (p128_add (p128_mul h0 r2) (p128_mul h1 r1)) (p128_mul h2 r0);
          p3 = p128_add (p128_mul h1 r2) (p128_mul h2 r1);
          p4 = p128_mul h2 r2
      in (p128_add p0 (p128_mul_u64 p3 20), p128_add p1 (p128_mul_u64 p4 20), p2))"

definition poly_carries :: "p128 \<times> p128 \<times> p128 \<Rightarrow> limbs" where
  "poly_carries d =
     (let (d0, d1, d2) = d;
          h0 = p_lo d0 AND M44; c = push_bit 20 (p_hi d0) OR drop_bit 44 (p_lo d0);
          d1 = p128_add_u64 d1 c;
          h1 = p_lo d1 AND M44; c = push_bit 20 (p_hi d1) OR drop_bit 44 (p_lo d1);
          d2 = p128_add_u64 d2 c;
          h2 = p_lo d2 AND M42; c = push_bit 22 (p_hi d2) OR drop_bit 42 (p_lo d2);
          h0 = h0 + c * 5;
          c = drop_bit 44 h0; h0 = h0 AND M44; h1 = h1 + c;
          c = drop_bit 44 h1; h1 = h1 AND M44; h2 = h2 + c;
          c = drop_bit 42 h2; h2 = h2 AND M42; h0 = h0 + c * 5;
          c = drop_bit 44 h0; h0 = h0 AND M44; h1 = h1 + c
      in (h0, h1, h2))"

definition poly_mul3 :: "limbs \<Rightarrow> limbs \<Rightarrow> limbs" where
  "poly_mul3 h r = poly_carries (poly_products h r)"

definition poly_load_block :: "bytes \<Rightarrow> bool \<Rightarrow> limbs" where
  "poly_load_block p pad_bit =
     (let w0 = poly_load64 p 0; w1 = poly_load64 p 8;
          m0 = w0 AND M44;
          m1 = (drop_bit 44 w0 OR push_bit 20 w1) AND M44;
          m2 = drop_bit 24 w1 AND M42
      in (m0, m1, if pad_bit then m2 + push_bit 40 1 else m2))"

fun limbs_add :: "limbs \<Rightarrow> limbs \<Rightarrow> limbs" where
  "limbs_add (a0, a1, a2) (b0, b1, b2) = (a0 + b0, a1 + b1, a2 + b2)"

definition poly_add_block3 :: "limbs \<Rightarrow> bytes \<Rightarrow> limbs \<Rightarrow> bool \<Rightarrow> limbs" where
  "poly_add_block3 h p r pad_bit = poly_mul3 (limbs_add h (poly_load_block p pad_bit)) r"

text \<open>Four blocks: \<open>(h + m0) r^4 + m1 r^3 + m2 r^2 + m3 r\<close>.\<close>

definition poly_blocks4 :: "limbs \<Rightarrow> bytes \<Rightarrow> limbs \<Rightarrow> limbs \<Rightarrow> limbs \<Rightarrow> limbs \<Rightarrow> limbs" where
  "poly_blocks4 h m r r2 r3 r4 =
     (let a = poly_load_block m True;
          b = poly_load_block (drop 16 m) True;
          c = poly_load_block (drop 32 m) True;
          d = poly_load_block (drop 48 m) True;
          A = poly_mul3 (limbs_add a h) r4;
          b = poly_mul3 b r3;
          c = poly_mul3 c r2;
          d = poly_mul3 d r;
          (s0, s1, s2) = limbs_add (limbs_add (limbs_add A b) c) d;
          carry = drop_bit 44 s0; s0 = s0 AND M44; s1 = s1 + carry;
          carry = drop_bit 44 s1; s1 = s1 AND M44; s2 = s2 + carry;
          carry = drop_bit 42 s2; s2 = s2 AND M42; s0 = s0 + carry * 5
      in (s0, s1, s2))"

section \<open>The state\<close>

record poly1305_state64 =
  st_h :: limbs
  st_r :: limbs
  st_r2 :: limbs
  st_r3 :: limbs
  st_r4 :: limbs
  st_key :: bytes

definition poly1305_clamp :: "bytes \<Rightarrow> bytes" where
  "poly1305_clamp r =
     (let r = r[3 := r ! 3 AND 15]; r = r[7 := r ! 7 AND 15]; r = r[11 := r ! 11 AND 15]; r = r[15 := r ! 15 AND 15];
          r = r[4 := r ! 4 AND 252]; r = r[8 := r ! 8 AND 252]
      in r[12 := r ! 12 AND 252])"

text \<open>\<open>r0\<close>, \<open>r1\<close>, \<open>r2\<close> and the powers, as both \<open>poly1305_init64\<close> and \<open>poly1305_mac\<close> compute them.\<close>

definition poly1305_r :: "bytes \<Rightarrow> limbs" where
  "poly1305_r key =
     (let rbytes = poly1305_clamp (take 16 key);
          rw0 = poly_load64 rbytes 0; rw1 = poly_load64 rbytes 8
      in (rw0 AND M44, (drop_bit 44 rw0 OR push_bit 20 rw1) AND M44, drop_bit 24 rw1 AND M42))"

definition poly1305_init64 :: "bytes \<Rightarrow> poly1305_state64" where
  "poly1305_init64 key =
     (let r = poly1305_r key; r2 = poly_mul3 r r; r3 = poly_mul3 r2 r; r4 = poly_mul3 r3 r
      in \<lparr>st_h = (0, 0, 0), st_r = r, st_r2 = r2, st_r3 = r3, st_r4 = r4, st_key = key\<rparr>)"

text \<open>The two loops over whole blocks; they return what is left.\<close>

function blocks64_loop :: "poly1305_state64 \<Rightarrow> bytes \<Rightarrow> poly1305_state64 \<times> bytes" where
  "blocks64_loop st p =
     (if 64 \<le> length p
      then blocks64_loop (st\<lparr>st_h := poly_blocks4 (st_h st) p (st_r st) (st_r2 st) (st_r3 st) (st_r4 st)\<rparr>) (drop 64 p)
      else (st, p))"
  by pat_completeness auto
termination
  by (relation "measure (\<lambda>(_, p). length p)") auto

function blocks16_loop :: "poly1305_state64 \<Rightarrow> bytes \<Rightarrow> poly1305_state64 \<times> bytes" where
  "blocks16_loop st p =
     (if 16 \<le> length p
      then blocks16_loop (st\<lparr>st_h := poly_add_block3 (st_h st) p (st_r st) True\<rparr>) (drop 16 p)
      else (st, p))"
  by pat_completeness auto
termination
  by (relation "measure (\<lambda>(_, p). length p)") auto

declare blocks64_loop.simps [simp del] blocks16_loop.simps [simp del]

definition poly1305_feed64 :: "poly1305_state64 \<Rightarrow> bytes \<Rightarrow> poly1305_state64" where
  "poly1305_feed64 st p =
     (let (st, p) = blocks64_loop st p;
          (st, p) = blocks16_loop st p
      in if p \<noteq> []
         then let t = memcpy_at (replicate 16 0) 0 p
              in st\<lparr>st_h := poly_add_block3 (st_h st) t (st_r st) True\<rparr>
         else st)"

section \<open>The tag\<close>

text \<open>The three parts of \<open>poly1305_finish3\<close>: the carries, the choice of \<open>h\<close> or \<open>h - p\<close>, the sum.\<close>

definition finish_carries :: "limbs \<Rightarrow> limbs" where
  "finish_carries h =
     (let (h0, h1, h2) = h;
          c = drop_bit 44 h1; h1 = h1 AND M44; h2 = h2 + c;
          c = drop_bit 42 h2; h2 = h2 AND M42; h0 = h0 + c * 5;
          c = drop_bit 44 h0; h0 = h0 AND M44; h1 = h1 + c;
          c = drop_bit 44 h1; h1 = h1 AND M44; h2 = h2 + c;
          c = drop_bit 42 h2; h2 = h2 AND M42; h0 = h0 + c * 5;
          c = drop_bit 44 h0; h0 = h0 AND M44; h1 = h1 + c
      in (h0, h1, h2))"

definition finish_select :: "limbs \<Rightarrow> limbs" where
  "finish_select h =
     (let (h0, h1, h2) = h;
          g0 = h0 + 5; c = drop_bit 44 g0; g0 = g0 AND M44;
          g1 = h1 + c; c = drop_bit 44 g1; g1 = g1 AND M44;
          g2 = h2 + c - push_bit 42 1;
          c = drop_bit 63 g2 - 1;
          g0 = g0 AND c; g1 = g1 AND c; g2 = g2 AND c;
          c = NOT c
      in ((h0 AND c) OR g0, (h1 AND c) OR g1, (h2 AND c) OR g2))"

definition poly1305_finish3 :: "limbs \<Rightarrow> bytes \<Rightarrow> bytes" where
  "poly1305_finish3 h key =
     (let (h0, h1, h2) = finish_select (finish_carries h);
          lo = h0 OR push_bit 44 h1;
          hi = drop_bit 20 h1 OR push_bit 24 h2;
          f0 = lo + poly_load64 key 16;
          f1 = hi + poly_load64 key 24 + (if f0 < lo then 1 else 0)
      in poly_store64 f0 @ poly_store64 f1)"

text \<open>\<open>poly1305_mac\<close>: the last partial block gets the byte \<open>01\<close> and no bit \<open>2 ^ 128\<close>.\<close>

definition poly1305_mac :: "bytes \<Rightarrow> bytes \<Rightarrow> bytes" where
  "poly1305_mac key msg =
     (let st = poly1305_init64 key;
          (st, p) = blocks64_loop st msg;
          (st, p) = blocks16_loop st p;
          h = (if p \<noteq> []
               then let t = (memcpy_at (replicate 16 0) 0 p)[length p := 1]
                    in poly_add_block3 (st_h st) t (st_r st) False
               else st_h st)
      in poly1305_finish3 h key)"

text \<open>\<open>poly1305_mac_parts64\<close>: the layout of the AEAD, fed part by part.\<close>

definition poly1305_mac_parts64 :: "bytes \<Rightarrow> bytes \<Rightarrow> bytes \<Rightarrow> bytes" where
  "poly1305_mac_parts64 key aad ct =
     (let st = poly1305_init64 key;
          st = poly1305_feed64 st aad;
          st = poly1305_feed64 st ct;
          st = poly1305_feed64 st (poly_store64 (word_of_nat (length aad)) @ poly_store64 (word_of_nat (length ct)))
      in poly1305_finish3 (st_h st) key)"

section \<open>Words as numbers\<close>

definition pv :: "p128 \<Rightarrow> nat" where
  "pv a = unat (p_lo a) + 2 ^ 64 * unat (p_hi a)"

lemma unat_u128_less: "unat (x :: 128 word) < 2 ^ 128"
  using unsigned_less [of x] by simp

lemma unat_ucast_128: "unat (ucast (x :: u64) :: 128 word) = unat x"
  using unat_u64_less [of x] by (simp add: unsigned_ucast_eq take_bit_nat_eq_self)

lemma unat_ucast_u64: "unat (ucast r :: u64) = unat r mod 2 ^ 64"
  by (simp add: unsigned_ucast_eq take_bit_eq_mod)

lemma unat_drop_bit_div: "unat (drop_bit k (x :: 'a::len word)) = unat x div 2 ^ k"
  by (subst unat_drop_bit_eq) (rule drop_bit_eq_div)

lemma pv_of: "pv (p128_of r) = unat r"
proof -
  have "unat r div 2 ^ 64 < 2 ^ 64" using unat_u128_less [of r] by (simp add: less_mult_imp_div_less)
  then have "unat (ucast (drop_bit 64 r) :: u64) = unat r div 2 ^ 64"
    by (simp add: unat_ucast_u64 unat_drop_bit_div)
  then show ?thesis by (simp add: pv_def p128_of_def unat_ucast_u64)
qed

lemma nat_or_push: "a < 2 ^ k \<Longrightarrow> a OR push_bit k b = a + 2 ^ k * b" for a b :: nat
proof -
  assume "a < 2 ^ k"
  then have "take_bit k a = a" by (simp add: take_bit_nat_eq_self)
  then have "\<not> bit a n" if "k \<le> n" for n using that bit_take_bit_iff [of k a n] by simp
  note high = this
  have "a AND push_bit k b = 0"
  proof (rule bit_eqI)
    fix n
    show "bit (a AND push_bit k b) n = bit (0 :: nat) n"
      using high [of n] by (cases "k \<le> n") (simp_all add: bit_and_iff bit_push_bit_iff)
  qed
  from disjunctive_add_eq_or [OF this] show ?thesis by (simp add: push_bit_eq_mult mult.commute)
qed

lemma or_push_val:
  fixes x y :: "'a::len word"
  assumes "unat x < 2 ^ k" "unat y * 2 ^ k < 2 ^ LENGTH('a)"
  shows "unat (x OR push_bit k y) = unat x + 2 ^ k * unat y"
proof -
  have "push_bit k (unat y) < 2 ^ LENGTH('a)" using assms(2) by (simp add: push_bit_eq_mult)
  then have "unat (push_bit k y) = push_bit k (unat y)"
    by (simp add: unsigned_push_bit_eq take_bit_nat_eq_self)
  then show ?thesis using nat_or_push [OF assms(1)] by (simp add: unsigned_or_eq)
qed

lemma pair_val: "unat (ucast (p_lo a) OR push_bit 64 (ucast (p_hi a)) :: 128 word) = pv a"
proof -
  have "unat (p_hi a) * 2 ^ 64 < 2 ^ 128" using unat_u64_less [of "p_hi a"] by simp
  then show ?thesis
    using unat_u64_less [of "p_lo a"] or_push_val [of "ucast (p_lo a) :: 128 word" 64 "ucast (p_hi a)"]
    by (simp add: unat_ucast_128 pv_def)
qed

lemma pv_mul: "pv (p128_mul a b) = unat a * unat b"
proof -
  have "unat a * unat b < 2 ^ 64 * 2 ^ 64"
    using unat_u64_less [of a] unat_u64_less [of b] by (intro mult_strict_mono) auto
  then show ?thesis by (simp add: p128_mul_def pv_of unat_word_ariths unat_ucast_128)
qed

lemma pv_add: "pv a + pv b < 2 ^ 128 \<Longrightarrow> pv (p128_add a b) = pv a + pv b"
  by (simp add: p128_add_def pv_of unat_word_ariths pair_val)

lemma pv_add_u64: "pv a + unat b < 2 ^ 128 \<Longrightarrow> pv (p128_add_u64 a b) = pv a + unat b"
  by (simp add: p128_add_u64_def pv_of unat_word_ariths pair_val unat_ucast_128)

lemma pv_mul_u64: "pv a * unat k < 2 ^ 128 \<Longrightarrow> pv (p128_mul_u64 a k) = pv a * unat k"
proof -
  assume lt: "pv a * unat k < 2 ^ 128"
  define r where "r = (ucast (p_lo a) * ucast k :: 128 word)"
  have r: "unat r = unat (p_lo a) * unat k"
    using pv_mul [of "p_lo a" k] by (simp add: r_def p128_mul_def pv_of)
  have eq: "pv a * unat k = unat r + 2 ^ 64 * (unat (p_hi a) * unat k)" by (simp add: r pv_def algebra_simps)
  define q where "q = unat r div 2 ^ 64"
  have rq: "unat r = unat r mod 2 ^ 64 + 2 ^ 64 * q" by (simp add: q_def)
  have hi: "q + unat (p_hi a) * unat k < 2 ^ 64"
  proof -
    have "2 ^ 64 * (q + unat (p_hi a) * unat k) < 2 ^ 64 * (2 ^ 64 :: nat)"
      using lt eq rq by (simp add: algebra_simps)
    then show ?thesis by simp
  qed
  have "q < 2 ^ 64" using hi by simp
  then have "unat (ucast (drop_bit 64 r) + p_hi a * k :: u64) = q + unat (p_hi a) * unat k"
    using hi by (simp add: unat_word_ariths unat_ucast_u64 unat_drop_bit_div q_def mod_simps)
  then have "pv (p128_mul_u64 a k) = unat r mod 2 ^ 64 + 2 ^ 64 * (q + unat (p_hi a) * unat k)"
    by (simp add: p128_mul_u64_def Let_def pv_def unat_ucast_u64 r_def [symmetric])
  with eq rq show ?thesis by (simp add: algebra_simps)
qed

lemma and_M44: "unat (x AND M44) = unat x mod 2 ^ 44" and and_M42: "unat (x AND M42) = unat x mod 2 ^ 42"
proof -
  have "M44 = mask 44" "M42 = mask 42" by (simp_all add: M44_def M42_def mask_eq_exp_minus_1)
  then have "x AND M44 = take_bit 44 x" "x AND M42 = take_bit 42 x" by (simp_all add: take_bit_eq_mask)
  then show "unat (x AND M44) = unat x mod 2 ^ 44" "unat (x AND M42) = unat x mod 2 ^ 42"
    by (simp_all only: unsigned_take_bit_eq) (rule take_bit_eq_mod)+
qed

lemma pair_shift:
  assumes "pv a < 2 ^ (64 + k)" "0 < k" "k \<le> 64"
  shows "unat (push_bit (64 - k) (p_hi a) OR drop_bit k (p_lo a)) = pv a div 2 ^ k"
proof -
  have k: "(2::nat) ^ 64 = 2 ^ (64 - k) * 2 ^ k" using assms(3) by (simp flip: power_add)
  have "2 ^ 64 * unat (p_hi a) < 2 ^ 64 * 2 ^ k"
    using assms(1) unfolding power_add pv_def by (rule le_less_trans [rotated]) simp
  then have "unat (p_hi a) < 2 ^ k" by simp
  then have "2 ^ (64 - k) * unat (p_hi a) < 2 ^ 64" by (subst k) (rule mult_strict_left_mono, simp_all)
  then have hi: "unat (p_hi a) * 2 ^ (64 - k) < 2 ^ LENGTH(64)" by (simp add: mult.commute)
  have lo: "unat (drop_bit k (p_lo a)) < 2 ^ (64 - k)"
    using unat_u64_less [of "p_lo a"] k by (simp add: unat_drop_bit_div less_mult_imp_div_less)
  have "pv a div 2 ^ k = unat (p_lo a) div 2 ^ k + 2 ^ (64 - k) * unat (p_hi a)"
    unfolding pv_def k by (simp add: div_mult_self3 mult.assoc mult.left_commute)
  with or_push_val [OF lo hi] show ?thesis by (simp add: unat_drop_bit_div or.commute)
qed

lemma pair_low:
  "k \<le> 64 \<Longrightarrow> unat (p_lo a) mod 2 ^ k = pv a mod 2 ^ k"
proof -
  assume "k \<le> 64"
  then have "(2 :: nat) ^ 64 * unat (p_hi a) = 2 ^ k * (2 ^ (64 - k) * unat (p_hi a))" by (simp flip: power_add mult.assoc)
  then show ?thesis unfolding pv_def by (simp only: mod_mult_self2)
qed

section \<open>Multiplication modulo \<open>2 ^ 130 - 5\<close>\<close>

definition polyP :: nat where
  "polyP = 2 ^ 130 - 5"

fun limbs_val :: "limbs \<Rightarrow> nat" where
  "limbs_val (h0, h1, h2) = unat h0 + 2 ^ 44 * unat h1 + 2 ^ 88 * unat h2"

text \<open>What every routine leaves, and what the multiplication accepts.\<close>

fun reduced :: "limbs \<Rightarrow> bool" where
  "reduced (h0, h1, h2) \<longleftrightarrow> unat h0 \<le> 2 ^ 44 + 2 ^ 10 \<and> unat h1 \<le> 2 ^ 44 \<and> unat h2 < 2 ^ 42"

fun small :: "limbs \<Rightarrow> bool" where
  "small (h0, h1, h2) \<longleftrightarrow> unat h0 < 2 ^ 46 \<and> unat h1 < 2 ^ 46 \<and> unat h2 < 2 ^ 44"

lemma unat_plus: "unat x + unat y < 2 ^ 64 \<Longrightarrow> unat (x + y :: u64) = unat x + unat y"
  by (simp add: unat_word_ariths)

lemma unat_plus5: "unat x + 5 * unat y < 2 ^ 64 \<Longrightarrow> unat (x + y * 5 :: u64) = unat x + 5 * unat y"
  by (simp add: unat_word_ariths mod_simps)

lemma carries_nat:
  fixes D0 D1 D2 :: nat
  assumes "D0 < 2 ^ 100" "D1 < 2 ^ 100" "D2 < 2 ^ 100"
  defines "B \<equiv> 2 ^ 44 :: nat" and "C \<equiv> 2 ^ 42 :: nat"
  defines "E1 \<equiv> D1 + D0 div B"
  defines "E2 \<equiv> D2 + E1 div B"
  defines "f0 \<equiv> D0 mod B + 5 * (E2 div C)"
  defines "f1 \<equiv> E1 mod B + f0 div B"
  defines "f2 \<equiv> E2 mod C + f1 div B"
  defines "g0 \<equiv> f0 mod B + 5 * (f2 div C)"
  defines "g1 \<equiv> f1 mod B + g0 div B"
  shows "g0 mod B + B * g1 + B * B * (f2 mod C) + (E2 div C + f2 div C) * polyP = D0 + B * D1 + B * B * D2"
    and "g1 \<le> B" and "f2 div C \<le> 1" and "f1 div B \<le> 1" and "E2 div C < 2 ^ 60"
proof -
  have q: "x div B * B + x mod B = x" "x mod B < B" for x by (simp_all add: B_def)
  have r: "x div C * C + x mod C = x" "x mod C < C" for x by (simp_all add: C_def)
  have le: "x div B < 2 ^ 56" if "x < 2 ^ 100" for x
    using that by (simp add: B_def less_mult_imp_div_less)
  have "E1 < 2 ^ 101" using le [OF assms(1)] assms(2) by (simp add: E1_def)
  then have "E1 div B < 2 ^ 57" by (simp add: B_def less_mult_imp_div_less)
  then have "E2 < 2 ^ 101" using assms(3) by (simp add: E2_def)
  then show c2: "E2 div C < 2 ^ 60" by (simp add: C_def less_mult_imp_div_less)
  then have "f0 < 2 ^ 64" using q(2) [of D0] by (simp add: f0_def B_def)
  then have c3: "f0 div B < 2 ^ 20" by (simp add: B_def less_mult_imp_div_less)
  then have "f1 < 2 * B" using q(2) [of E1] by (simp add: f1_def B_def)
  then show c4: "f1 div B \<le> 1" using less_mult_imp_div_less [of f1 2 B] by simp
  then have "f2 < 2 * C" using r(2) [of E2] by (simp add: f2_def C_def)
  then show c5: "f2 div C \<le> 1" using less_mult_imp_div_less [of f2 2 C] by simp
  show "g1 \<le> B"
  proof -
    have "g0 < 2 * B" using c5 q(2) [of f0] by (simp add: g0_def B_def)
    then have "g0 div B \<le> 1" using less_mult_imp_div_less [of g0 2 B] by simp
    then show ?thesis using q(2) [of f1] by (simp add: g1_def)
  qed
  have m: "k * x = k * (x mod n) + k * (n * (x div n))" for k x n :: nat
    by (simp only: distrib_left [symmetric] mod_mult_div_eq)
  have "B * B * C = polyP + 5" by (simp add: B_def C_def polyP_def)
  then have P: "B * B * C * x = polyP * x + 5 * x" for x by (simp only: distrib_right)
  have "D0 + B * D1 + B * B * D2 = D0 mod B + B * E1 + B * B * D2"
    using q(1) [of D0] by (simp add: E1_def algebra_simps)
  also have "\<dots> = D0 mod B + B * (E1 mod B) + B * B * E2"
    using m [of "B" E1 B] by (simp add: E2_def algebra_simps)
  also have "\<dots> = D0 mod B + B * (E1 mod B) + B * B * (E2 mod C) + B * B * C * (E2 div C)"
    using m [of "B * B" E2 C] by (simp add: algebra_simps)
  also have "\<dots> = f0 + B * (E1 mod B) + B * B * (E2 mod C) + E2 div C * polyP"
    by (simp only: P f0_def) (simp add: algebra_simps)
  also have "f0 + B * (E1 mod B) = f0 mod B + B * f1"
    using q(1) [of f0] by (simp add: f1_def algebra_simps)
  also have "f0 mod B + B * f1 + B * B * (E2 mod C) = f0 mod B + B * (f1 mod B) + B * B * f2"
    using m [of "B" f1 B] by (simp add: f2_def algebra_simps)
  also have "\<dots> = f0 mod B + B * (f1 mod B) + B * B * (f2 mod C) + B * B * C * (f2 div C)"
    using m [of "B * B" f2 C] by (simp add: algebra_simps)
  also have "\<dots> = g0 + B * (f1 mod B) + B * B * (f2 mod C) + f2 div C * polyP"
    by (simp only: P g0_def) (simp add: algebra_simps)
  also have "g0 + B * (f1 mod B) = g0 mod B + B * g1"
    using q(1) [of g0] by (simp add: g1_def algebra_simps)
  finally show "g0 mod B + B * g1 + B * B * (f2 mod C) + (E2 div C + f2 div C) * polyP = D0 + B * D1 + B * B * D2"
    by (simp add: algebra_simps)
qed

lemma poly_carries_val:
  assumes d: "pv d0 < 2 ^ 100" "pv d1 < 2 ^ 100" "pv d2 < 2 ^ 100"
  shows "\<exists>k. limbs_val (poly_carries (d0, d1, d2)) + k * polyP = pv d0 + 2 ^ 44 * pv d1 + 2 ^ 88 * pv d2"
    and "reduced (poly_carries (d0, d1, d2))"
proof -
  let ?B = "2 ^ 44 :: nat" and ?C = "2 ^ 42 :: nat"
  define E1 E2 where "E1 = pv d1 + pv d0 div ?B" and "E2 = pv d2 + E1 div ?B"
  define f0 f1 f2 where "f0 = pv d0 mod ?B + 5 * (E2 div ?C)" and "f1 = E1 mod ?B + f0 div ?B"
    and "f2 = E2 mod ?C + f1 div ?B"
  define g0 g1 where "g0 = f0 mod ?B + 5 * (f2 div ?C)" and "g1 = f1 mod ?B + g0 div ?B"
  note defs = E1_def E2_def f0_def f1_def f2_def g0_def g1_def
  note nat = carries_nat [OF d, folded E1_def, folded E2_def, folded f0_def, folded f1_def, folded f2_def,
      folded g0_def, folded g1_def]
  define c0 where "c0 = push_bit 20 (p_hi d0) OR drop_bit 44 (p_lo d0)"
  define e1 where "e1 = p128_add_u64 d1 c0"
  define c1 where "c1 = push_bit 20 (p_hi e1) OR drop_bit 44 (p_lo e1)"
  define e2 where "e2 = p128_add_u64 d2 c1"
  define c2 where "c2 = push_bit 22 (p_hi e2) OR drop_bit 42 (p_lo e2)"
  define x0 where "x0 = (p_lo d0 AND M44) + c2 * 5"
  define x1 where "x1 = (p_lo e1 AND M44) + drop_bit 44 x0"
  define x2 where "x2 = (p_lo e2 AND M42) + drop_bit 44 x1"
  define y0 where "y0 = (x0 AND M44) + drop_bit 42 x2 * 5"
  define y1 where "y1 = (x1 AND M44) + drop_bit 44 y0"
  have eq: "poly_carries (d0, d1, d2) = (y0 AND M44, y1, x2 AND M42)"
    by (simp add: poly_carries_def Let_def c0_def e1_def c1_def e2_def c2_def x0_def x1_def x2_def y0_def y1_def)
  have c0: "unat c0 = pv d0 div ?B" using pair_shift [of d0 44] d by (simp add: c0_def)
  have e1: "pv e1 = E1" using d c0 pv_add_u64 [of d1 c0] unat_u64_less [of c0] by (simp add: e1_def E1_def)
  have "E1 < 2 ^ 101" using d c0 unat_u64_less [of c0] by (simp add: E1_def)
  then have c1: "unat c1 = E1 div ?B" using pair_shift [of e1 44] e1 by (simp add: c1_def)
  have e2: "pv e2 = E2" using d c1 pv_add_u64 [of d2 c1] unat_u64_less [of c1] by (simp add: e2_def E2_def)
  have "E2 < 2 ^ 101" using d c1 unat_u64_less [of c1] by (simp add: E2_def)
  then have c2: "unat c2 = E2 div ?C" using pair_shift [of e2 42] e2 by (simp add: c2_def)
  note low = pair_low [of 44, simplified] pair_low [of 42, simplified]
  have x0: "unat x0 = f0"
    using nat(5) unat_plus5 [of "p_lo d0 AND M44" c2] by (simp add: x0_def and_M44 low c2 f0_def)
  have x1: "unat x1 = f1"
    using unat_u64_less [of x0] unat_plus [of "p_lo e1 AND M44" "drop_bit 44 x0"]
    by (simp add: x1_def and_M44 low e1 f1_def unat_drop_bit_div x0)
  have x2: "unat x2 = f2"
    using nat(4) unat_plus [of "p_lo e2 AND M42" "drop_bit 44 x1"]
    by (simp add: x2_def and_M42 low e2 f2_def unat_drop_bit_div x1)
  have y0: "unat y0 = g0"
    using nat(3) unat_plus5 [of "x0 AND M44" "drop_bit 42 x2"]
    by (simp add: y0_def and_M44 g0_def unat_drop_bit_div x0 x2)
  have y1: "unat y1 = g1"
    using unat_u64_less [of y0] unat_plus [of "x1 AND M44" "drop_bit 44 y0"]
    by (simp add: y1_def and_M44 g1_def unat_drop_bit_div x1 y0)
  have "limbs_val (poly_carries (d0, d1, d2)) + (E2 div ?C + f2 div ?C) * polyP
      = pv d0 + 2 ^ 44 * pv d1 + 2 ^ 88 * pv d2"
    using nat(1) by (simp add: eq and_M44 and_M42 y0 y1 x2)
  then show "\<exists>k. limbs_val (poly_carries (d0, d1, d2)) + k * polyP = pv d0 + 2 ^ 44 * pv d1 + 2 ^ 88 * pv d2" ..
  have "g0 mod ?B < ?B" "f2 mod ?C < ?C" by simp_all
  then show "reduced (poly_carries (d0, d1, d2))"
    using nat(2) by (simp add: eq and_M44 and_M42 y0 y1 x2)
qed

lemma poly_products_val:
  assumes "small h" "small r"
  obtains d0 d1 d2 k where "poly_products h r = (d0, d1, d2)"
    "pv d0 < 2 ^ 100" "pv d1 < 2 ^ 100" "pv d2 < 2 ^ 100"
    "pv d0 + 2 ^ 44 * pv d1 + 2 ^ 88 * pv d2 + k * polyP = limbs_val h * limbs_val r"
proof -
  obtain h0 h1 h2 r0 r1 r2 where hr: "h = (h0, h1, h2)" "r = (r0, r1, r2)" by (cases h, cases r) auto
  have b: "unat h0 * unat r0 < 2 ^ 46 * 2 ^ 46" "unat h0 * unat r1 < 2 ^ 46 * 2 ^ 46"
    "unat h1 * unat r0 < 2 ^ 46 * 2 ^ 46" "unat h0 * unat r2 < 2 ^ 46 * 2 ^ 44"
    "unat h1 * unat r1 < 2 ^ 46 * 2 ^ 46" "unat h2 * unat r0 < 2 ^ 44 * 2 ^ 46"
    "unat h1 * unat r2 < 2 ^ 46 * 2 ^ 44" "unat h2 * unat r1 < 2 ^ 44 * 2 ^ 46"
    "unat h2 * unat r2 < 2 ^ 44 * 2 ^ 44"
    using assms unfolding hr small.simps by - (rule mult_strict_mono; simp)+
  define p3 where "p3 = p128_add (p128_mul h1 r2) (p128_mul h2 r1)"
  define d0 where "d0 = p128_add (p128_mul h0 r0) (p128_mul_u64 p3 20)"
  define p1 where "p1 = p128_add (p128_mul h0 r1) (p128_mul h1 r0)"
  define d1 where "d1 = p128_add p1 (p128_mul_u64 (p128_mul h2 r2) 20)"
  define q2 where "q2 = p128_add (p128_mul h0 r2) (p128_mul h1 r1)"
  define d2 where "d2 = p128_add q2 (p128_mul h2 r0)"
  have p3: "pv p3 = unat h1 * unat r2 + unat h2 * unat r1" using b by (simp add: p3_def pv_add pv_mul)
  then have p3': "pv (p128_mul_u64 p3 20) = 20 * (unat h1 * unat r2 + unat h2 * unat r1)"
    using b pv_mul_u64 [of p3 20] by simp
  have d0: "pv d0 = unat h0 * unat r0 + 20 * (unat h1 * unat r2 + unat h2 * unat r1)"
    using b by (simp add: d0_def pv_add pv_mul p3')
  have p1: "pv p1 = unat h0 * unat r1 + unat h1 * unat r0" using b by (simp add: p1_def pv_add pv_mul)
  have p4: "pv (p128_mul_u64 (p128_mul h2 r2) 20) = 20 * (unat h2 * unat r2)"
    using b pv_mul_u64 [of "p128_mul h2 r2" 20] by (simp add: pv_mul)
  have d1: "pv d1 = unat h0 * unat r1 + unat h1 * unat r0 + 20 * (unat h2 * unat r2)"
    using b by (simp add: d1_def pv_add p1 p4)
  have q2: "pv q2 = unat h0 * unat r2 + unat h1 * unat r1" using b by (simp add: q2_def pv_add pv_mul)
  have d2: "pv d2 = unat h0 * unat r2 + unat h1 * unat r1 + unat h2 * unat r0"
    using b by (simp add: d2_def pv_add q2 pv_mul)
  define k where "k = 4 * (unat h1 * unat r2 + unat h2 * unat r1) + 2 ^ 46 * (unat h2 * unat r2)"
  have "pv d0 + 2 ^ 44 * pv d1 + 2 ^ 88 * pv d2 + k * polyP = limbs_val h * limbs_val r"
    by (simp add: hr d0 d1 d2 k_def polyP_def algebra_simps)
  moreover have "poly_products h r = (d0, d1, d2)"
    by (simp add: poly_products_def hr d0_def d1_def d2_def p3_def p1_def q2_def Let_def)
  moreover have "pv d0 < 2 ^ 100" "pv d1 < 2 ^ 100" "pv d2 < 2 ^ 100" using b by (simp_all add: d0 d1 d2)
  ultimately show ?thesis using that by blast
qed

lemma poly_mul3_val:
  assumes "small h" "small r"
  shows "limbs_val (poly_mul3 h r) mod polyP = limbs_val h * limbs_val r mod polyP" and "reduced (poly_mul3 h r)"
proof -
  from poly_products_val [OF assms] obtain d0 d1 d2 k where p: "poly_products h r = (d0, d1, d2)"
    "pv d0 < 2 ^ 100" "pv d1 < 2 ^ 100" "pv d2 < 2 ^ 100"
    "pv d0 + 2 ^ 44 * pv d1 + 2 ^ 88 * pv d2 + k * polyP = limbs_val h * limbs_val r" by metis
  from poly_carries_val(1) [OF p(2-4)] obtain l where
    "limbs_val (poly_mul3 h r) + l * polyP = pv d0 + 2 ^ 44 * pv d1 + 2 ^ 88 * pv d2"
    by (auto simp: poly_mul3_def p(1))
  with p(5) have "limbs_val h * limbs_val r = limbs_val (poly_mul3 h r) + (l + k) * polyP"
    by (simp add: algebra_simps)
  then show "limbs_val (poly_mul3 h r) mod polyP = limbs_val h * limbs_val r mod polyP" by simp
  show "reduced (poly_mul3 h r)" using poly_carries_val(2) [OF p(2-4)] by (simp add: poly_mul3_def p(1))
qed

section \<open>Loads and stores\<close>

lemma le_val_append: "le_val (a @ b) = le_val a + 256 ^ length a * le_val b"
  by (induction a) (simp_all add: algebra_simps)

lemma le_val_less: "le_val a < 256 ^ length a"
proof (induction a)
  case (Cons b a)
  have "unat b + 256 * le_val a < 256 * (le_val a + 1)" by simp
  also have "\<dots> \<le> 256 * 256 ^ length a" using Cons by (intro mult_le_mono2) simp
  finally show ?case by simp
qed simp

lemma length_le_bytes [simp, len_simps]: "length (le_bytes n x) = n"
  by (induction n arbitrary: x) simp_all

lemma le_val_replicate_0 [simp]: "le_val (replicate n 0) = 0"
  by (induction n) simp_all

lemma load_fold: "foldr (\<lambda>b v. ucast b OR push_bit 8 v) bs 0 = (word_of_nat (le_val bs) :: 'a::len word)"
proof (induction bs)
  case (Cons b bs)
  have "ucast b OR push_bit 8 (word_of_nat (le_val bs)) = (word_of_nat (le_val bs) * 256 + ucast b :: 'a word)"
    by (subst or.commute) (rule shift_or_byte)
  with Cons show ?case by (simp add: mult.commute add.commute)
qed simp

lemma poly_load64_val: "unat (poly_load64 p i) = le_val (take 8 (drop i p))"
proof -
  have "length (take 8 (drop i p)) \<le> 8" by simp
  then have "(256 :: nat) ^ length (take 8 (drop i p)) \<le> 256 ^ 8" by (intro power_increasing) simp_all
  then have "le_val (take 8 (drop i p)) < 2 ^ 64"
    using le_val_less [of "take 8 (drop i p)"] by simp
  then show ?thesis by (simp only: poly_load64_def load_fold) (simp add: unat_of_nat)
qed

lemma le_bytes_map: "le_bytes n x = map (\<lambda>k. word_of_nat (x div 2 ^ (8 * k))) [0..<n]"
proof (induction n arbitrary: x)
  case (Suc n)
  have "x div 256 div 2 ^ (8 * k) = x div 2 ^ (8 * Suc k)" for k :: nat
    by (simp add: power_add div_mult2_eq)
  with Suc show ?case by (simp only: le_bytes.simps upt_conv_Cons [OF zero_less_Suc] map_Suc_upt [symmetric]) simp
qed simp

lemma poly_store64_bytes: "poly_store64 v = le_bytes 8 (unat v)"
  by (simp add: poly_store64_def le_bytes_map byte_of_word)

lemma length_poly_store64 [simp, len_simps]: "length (poly_store64 v) = 8"
  by (simp add: poly_store64_bytes)

lemma le_bytes_append: "le_bytes (m + n) x = le_bytes m x @ le_bytes n (x div 256 ^ m)"
  by (induction m arbitrary: x) (simp_all add: div_mult2_eq)

lemma le_bytes_mod: "le_bytes n (x mod 256 ^ n) = le_bytes n x"
proof (induction n arbitrary: x)
  case (Suc n)
  have "(word_of_nat (x mod 256 ^ Suc n) :: u8) = word_of_nat x"
    by (rule word_unat_eq_iff [THEN iffD2]) (simp add: mod_mod_cancel)
  moreover have "x mod 256 ^ Suc n div 256 = x div 256 mod 256 ^ n"
    by (simp add: mod_mult2_eq)
  ultimately show ?case using Suc by simp
qed simp

lemma split44:
  defines "m1 w0 w1 \<equiv> (drop_bit 44 w0 OR push_bit 20 w1) AND M44"
  shows "unat (m1 w0 w1) = unat w0 div 2 ^ 44 + 2 ^ 20 * (unat w1 mod 2 ^ 24)"
proof -
  have M: "M44 = mask 44" by (simp add: M44_def mask_eq_exp_minus_1)
  have "m1 w0 w1 = drop_bit 44 w0 OR push_bit 20 (take_bit 24 w1)"
    unfolding m1_def M by (rule bit_word_eqI) (auto simp: bit_simps dest: bit_imp_le_length)
  moreover have "unat (drop_bit 44 w0) < 2 ^ 20"
    using unat_u64_less [of w0] by (simp add: unat_drop_bit_div less_mult_imp_div_less)
  moreover have "unat (take_bit 24 w1) = unat w1 mod 2 ^ 24"
    by (simp only: unsigned_take_bit_eq) (rule take_bit_eq_mod)
  moreover have "unat w1 mod 2 ^ 24 * 2 ^ 20 < 2 ^ LENGTH(64)"
    using mod_less_divisor [of "2 ^ 24" "unat w1"] by simp
  ultimately show ?thesis using or_push_val [of "drop_bit 44 w0" 20 "take_bit 24 w1"]
    by (simp add: unat_drop_bit_div)
qed

lemma limbs_of_words:
  "limbs_val (w0 AND M44, (drop_bit 44 w0 OR push_bit 20 w1) AND M44, drop_bit 24 w1 AND M42)
   = unat w0 + 2 ^ 64 * unat w1"
  "unat (drop_bit 24 w1 AND M42) < 2 ^ 40"
  "unat ((drop_bit 44 w0 OR push_bit 20 w1) AND M44) < 2 ^ 44"
proof -
  have hi: "unat w1 div 2 ^ 24 < 2 ^ 40" using unat_u64_less [of w1] by (simp add: less_mult_imp_div_less)
  then have m2: "unat (drop_bit 24 w1 AND M42) = unat w1 div 2 ^ 24" by (simp add: and_M42 unat_drop_bit_div)
  with hi show "unat (drop_bit 24 w1 AND M42) < 2 ^ 40" by simp
  show "unat ((drop_bit 44 w0 OR push_bit 20 w1) AND M44) < 2 ^ 44" by (simp add: and_M44)
  show "limbs_val (w0 AND M44, (drop_bit 44 w0 OR push_bit 20 w1) AND M44, drop_bit 24 w1 AND M42)
      = unat w0 + 2 ^ 64 * unat w1"
  proof -
    have "x = x mod 2 ^ k + 2 ^ k * (x div 2 ^ k)" for x k :: nat by simp
    moreover have "q + 2 ^ 44 * (b + 2 ^ 20 * d) + 2 ^ 88 * e = a + 2 ^ 64 * c"
      if "a = q + 2 ^ 44 * b" "c = d + 2 ^ 24 * e" for a b c d e q :: nat using that by simp
    ultimately show ?thesis unfolding limbs_val.simps m2 split44 and_M44 [of w0] by blast
  qed
qed

lemma load_block_val:
  assumes "16 \<le> length p"
  shows "limbs_val (poly_load_block p pad) = le_val (take 16 p) + (if pad then 2 ^ 128 else 0)"
    and "case poly_load_block p pad of (m0, m1, m2) \<Rightarrow> unat m0 < 2 ^ 44 \<and> unat m1 < 2 ^ 44 \<and> unat m2 < 2 ^ 41"
proof -
  let ?w0 = "poly_load64 p 0" and ?w1 = "poly_load64 p 8"
  have "take 16 p = take 8 p @ take 8 (drop 8 p)" using take_add [of 8 8 p] by simp
  then have v: "unat ?w0 + 2 ^ 64 * unat ?w1 = le_val (take 16 p)"
    using assms by (simp add: poly_load64_val le_val_append)
  have "unat (drop_bit 24 ?w1 AND M42) < 2 ^ 40" by (rule limbs_of_words)
  then have m2: "unat ((drop_bit 24 ?w1 AND M42) + push_bit 40 1) = unat (drop_bit 24 ?w1 AND M42) + 2 ^ 40"
    by (subst unat_plus) simp_all
  show "limbs_val (poly_load_block p pad) = le_val (take 16 p) + (if pad then 2 ^ 128 else 0)"
    using limbs_of_words(1) [of ?w0 ?w1] v m2 by (simp add: poly_load_block_def Let_def)
  show "case poly_load_block p pad of (m0, m1, m2) \<Rightarrow> unat m0 < 2 ^ 44 \<and> unat m1 < 2 ^ 44 \<and> unat m2 < 2 ^ 41"
    using limbs_of_words(2) [of ?w1] limbs_of_words(3) [of ?w0 ?w1] m2
    by (simp add: poly_load_block_def Let_def and_M44)
qed

section \<open>Blocks\<close>

lemma reduced_small: "reduced h \<Longrightarrow> small h"
  by (cases h) simp

lemma limbs_add_val:
  assumes "small a" "small b"
  shows "limbs_val (limbs_add a b) = limbs_val a + limbs_val b"
  using assms by (cases a, cases b) (simp add: unat_plus algebra_simps)

lemma load_block_small:
  assumes "16 \<le> length p"
  shows "small (poly_load_block p pad)"
    and "reduced h \<Longrightarrow> small (limbs_add h (poly_load_block p pad))"
    and "reduced h \<Longrightarrow> small (limbs_add (poly_load_block p pad) h)"
proof -
  obtain m0 m1 m2 where m: "poly_load_block p pad = (m0, m1, m2)" by (cases "poly_load_block p pad") auto
  obtain h0 h1 h2 where h: "h = (h0, h1, h2)" by (cases h) auto
  have b: "unat m0 < 2 ^ 44" "unat m1 < 2 ^ 44" "unat m2 < 2 ^ 41"
    using load_block_val(2) [OF assms, of pad] by (simp_all add: m)
  then show "small (poly_load_block p pad)" by (simp add: m)
  show "reduced h \<Longrightarrow> small (limbs_add h (poly_load_block p pad))"
    "reduced h \<Longrightarrow> small (limbs_add (poly_load_block p pad) h)"
    using b by (simp_all add: m h unat_plus)
qed

lemma add_block_val:
  assumes "16 \<le> length p" "reduced h" "small r"
  shows "limbs_val (poly_add_block3 h p r pad) mod polyP
      = (limbs_val h + (le_val (take 16 p) + (if pad then 2 ^ 128 else 0))) * limbs_val r mod polyP"
    and "reduced (poly_add_block3 h p r pad)"
  using poly_mul3_val [OF load_block_small(2) [OF assms(1,2), of pad] assms(3)]
    limbs_add_val [OF reduced_small [OF assms(2)] load_block_small(1) [OF assms(1), of pad]]
    load_block_val(1) [OF assms(1), of pad]
  by (simp_all add: poly_add_block3_def)

text \<open>The carries after the sum of four products.\<close>

lemma sum4_val:
  assumes "reduced A" "reduced b" "reduced c" "reduced d"
  defines "s \<equiv> limbs_add (limbs_add (limbs_add A b) c) d"
  shows "limbs_val s = limbs_val A + limbs_val b + limbs_val c + limbs_val d"
    and "case s of (s0, s1, s2) \<Rightarrow> unat s0 < 2 ^ 47 \<and> unat s1 < 2 ^ 47 \<and> unat s2 < 2 ^ 44"
  using assms(1-4) unfolding s_def
  by (cases A, cases b, cases c, cases d, simp add: unat_plus algebra_simps)+

lemma carry3_val:
  assumes "unat s0 < 2 ^ 47" "unat s1 < 2 ^ 47" "unat s2 < 2 ^ 44"
  defines "t1 \<equiv> s1 + drop_bit 44 s0"
  defines "t2 \<equiv> s2 + drop_bit 44 t1"
  defines "h \<equiv> ((s0 AND M44) + drop_bit 42 t2 * 5, t1 AND M44, t2 AND M42)"
  shows "limbs_val h mod polyP = limbs_val (s0, s1, s2) mod polyP" and "reduced h"
proof -
  have c0: "unat s0 div 2 ^ 44 < 8" using assms(1) by (simp add: less_mult_imp_div_less)
  then have t1: "unat t1 = unat s1 + unat s0 div 2 ^ 44"
    using assms(2) by (simp add: t1_def unat_plus unat_drop_bit_div)
  then have "unat t1 < 2 ^ 48" using assms(2) c0 by simp
  then have c1: "unat t1 div 2 ^ 44 < 16" by (simp add: less_mult_imp_div_less)
  then have t2: "unat t2 = unat s2 + unat t1 div 2 ^ 44"
    using assms(3) by (simp add: t2_def unat_plus unat_drop_bit_div)
  then have "unat t2 < 2 ^ 45" using assms(3) c1 by simp
  then have c2: "unat t2 div 2 ^ 42 < 8" by (simp add: less_mult_imp_div_less)
  moreover have lt: "unat s0 mod 2 ^ 44 < 2 ^ 44" "unat t2 mod 2 ^ 42 < 2 ^ 42" "unat t1 mod 2 ^ 44 < 2 ^ 44"
    by simp_all
  ultimately have h0: "unat ((s0 AND M44) + drop_bit 42 t2 * 5) = unat s0 mod 2 ^ 44 + 5 * (unat t2 div 2 ^ 42)"
    by (subst unat_plus5) (simp_all add: and_M44 unat_drop_bit_div)
  show "reduced h" unfolding h_def reduced.simps h0 and_M44 and_M42 using lt c2 by simp
  have dm: "x = x mod 2 ^ k + 2 ^ k * (x div 2 ^ k)" for x k :: nat by simp
  have "limbs_val (s0, s1, s2) = limbs_val h + (unat t2 div 2 ^ 42) * polyP"
  proof -
    have "s + 2 ^ 44 * (t - q) + 2 ^ 88 * (u - q') = r + 5 * q'' + 2 ^ 44 * r' + 2 ^ 88 * r'' + q'' * polyP"
      if "s = r + 2 ^ 44 * q" "t = r' + 2 ^ 44 * q'" "u = r'' + 2 ^ 42 * q''" "q \<le> t" "q' \<le> u" for s t u q q' q'' r r' r'' :: nat
      using that by (simp add: polyP_def)
    from this [OF dm [of "unat s0" 44] dm [of "unat t1" 44] dm [of "unat t2" 42]]
    have "unat s0 + 2 ^ 44 * (unat t1 - unat s0 div 2 ^ 44) + 2 ^ 88 * (unat t2 - unat t1 div 2 ^ 44)
      = unat s0 mod 2 ^ 44 + 5 * (unat t2 div 2 ^ 42) + 2 ^ 44 * (unat t1 mod 2 ^ 44) + 2 ^ 88 * (unat t2 mod 2 ^ 42)
        + unat t2 div 2 ^ 42 * polyP"
      by (simp only: t1 t2 le_add2)
    then show ?thesis unfolding h_def limbs_val.simps h0 and_M44 and_M42 by (simp only: t1 t2 diff_add_inverse2)
  qed
  then show "limbs_val h mod polyP = limbs_val (s0, s1, s2) mod polyP" by simp
qed

text \<open>Four blocks are four steps of Horner's rule.\<close>

definition horner :: "nat \<Rightarrow> nat \<Rightarrow> nat \<Rightarrow> nat" where
  "horner r a m = (a + m) * r mod polyP"

lemma horner_cong: "a mod polyP = b mod polyP \<Longrightarrow> horner r a m = horner r b m"
  unfolding horner_def by (metis mod_add_left_eq mod_mult_left_eq)

lemma horner4:
  fixes r a m0 m1 m2 m3 :: nat
  shows "horner r (horner r (horner r (horner r a m0) m1) m2) m3
    = ((a + m0) * (r * r * r * r) + m1 * (r * r * r) + m2 * (r * r) + m3 * r) mod polyP"
proof -
  have step: "horner r (x mod polyP) m = (x * r + m * r) mod polyP" for x m
    unfolding horner_def by (metis add_mult_distrib mod_add_left_eq mod_mult_left_eq)
  have "horner r a m0 = ((a + m0) * r) mod polyP" by (simp add: horner_def)
  then show ?thesis by (simp only: step) (simp add: algebra_simps)
qed

lemma blocks4_val:
  assumes "64 \<le> length p" "reduced h" "reduced r" "reduced r2" "reduced r3" "reduced r4"
    and r2: "limbs_val r2 mod polyP = limbs_val r * limbs_val r mod polyP"
    and r3: "limbs_val r3 mod polyP = limbs_val r * limbs_val r * limbs_val r mod polyP"
    and r4: "limbs_val r4 mod polyP = limbs_val r * limbs_val r * limbs_val r * limbs_val r mod polyP"
  defines "m k \<equiv> le_val (take 16 (drop (16 * k) p)) + 2 ^ 128"
  shows "limbs_val (poly_blocks4 h p r r2 r3 r4) mod polyP
      = horner (limbs_val r) (horner (limbs_val r) (horner (limbs_val r)
          (horner (limbs_val r) (limbs_val h) (m 0)) (m 1)) (m 2)) (m 3)"
    and "reduced (poly_blocks4 h p r r2 r3 r4)"
proof -
  let ?b = "\<lambda>k. poly_load_block (drop (16 * k) p) True"
  have len: "16 \<le> length (drop (16 * k) p)" if "k < 4" for k using assms(1) that by simp
  have val: "limbs_val (?b k) = m k" if "k < 4" for k using load_block_val(1) [OF len [OF that], of True] by (simp add: m_def)
  note sm = assms(3-6) [THEN reduced_small]
  define A where "A = poly_mul3 (limbs_add (?b 0) h) r4"
  define b where "b = poly_mul3 (?b 1) r3"
  define c where "c = poly_mul3 (?b 2) r2"
  define d where "d = poly_mul3 (?b 3) r"
  have red: "reduced A" "reduced b" "reduced c" "reduced d"
    unfolding A_def b_def c_def d_def using sm assms(1,2)
    by (auto intro!: poly_mul3_val(2) load_block_small len)
  have "limbs_val A mod polyP = limbs_val (limbs_add (?b 0) h) * limbs_val r4 mod polyP"
    unfolding A_def by (rule poly_mul3_val) (use sm assms(1,2) in \<open>auto intro!: load_block_small len\<close>)
  also have "limbs_val (limbs_add (?b 0) h) = limbs_val h + m 0"
    using limbs_add_val [of "?b 0" h] load_block_small(1) [OF len, of 0 True] reduced_small [OF assms(2)] val [of 0] by simp
  finally have A: "limbs_val A mod polyP
      = (limbs_val h + m 0) * (limbs_val r * limbs_val r * limbs_val r * limbs_val r) mod polyP"
    using r4 by (metis mod_mult_right_eq)
  have b: "limbs_val b mod polyP = m 1 * (limbs_val r * limbs_val r * limbs_val r) mod polyP"
    using poly_mul3_val(1) [of "?b 1" r3] load_block_small(1) [OF len, of 1 True] sm val [of 1] r3
    unfolding b_def by (metis mod_mult_right_eq one_less_numeral_iff semiring_norm(76))
  have c: "limbs_val c mod polyP = m 2 * (limbs_val r * limbs_val r) mod polyP"
    using poly_mul3_val(1) [of "?b 2" r2] load_block_small(1) [OF len, of 2 True] sm val [of 2] r2
    unfolding c_def by simp (metis mod_mult_right_eq)
  have d: "limbs_val d mod polyP = m 3 * limbs_val r mod polyP"
    using poly_mul3_val(1) [of "?b 3" r] load_block_small(1) [OF len, of 3 True] sm val [of 3]
    unfolding d_def by simp
  obtain s0 s1 s2 where s: "limbs_add (limbs_add (limbs_add A b) c) d = (s0, s1, s2)"
    by (cases "limbs_add (limbs_add (limbs_add A b) c) d") auto
  note sum = sum4_val [OF red, unfolded s]
  have eq: "poly_blocks4 h p r r2 r3 r4
      = ((s0 AND M44) + drop_bit 42 (s2 + drop_bit 44 (s1 + drop_bit 44 s0)) * 5,
         (s1 + drop_bit 44 s0) AND M44, (s2 + drop_bit 44 (s1 + drop_bit 44 s0)) AND M42)"
    using s unfolding A_def b_def c_def d_def by (simp add: poly_blocks4_def Let_def)
  have lt: "unat s0 < 2 ^ 47" "unat s1 < 2 ^ 47" "unat s2 < 2 ^ 44" using sum(2) by simp_all
  show "reduced (poly_blocks4 h p r r2 r3 r4)" unfolding eq by (rule carry3_val [OF lt])
  have "limbs_val (poly_blocks4 h p r r2 r3 r4) mod polyP = (limbs_val A + limbs_val b + limbs_val c + limbs_val d) mod polyP"
    unfolding eq carry3_val(1) [OF lt] sum(1) ..
  also have "\<dots> = ((limbs_val h + m 0) * (limbs_val r * limbs_val r * limbs_val r * limbs_val r)
       + m 1 * (limbs_val r * limbs_val r * limbs_val r) + m 2 * (limbs_val r * limbs_val r) + m 3 * limbs_val r) mod polyP"
    by (intro mod_add_cong A b c d)
  finally show "limbs_val (poly_blocks4 h p r r2 r3 r4) mod polyP
      = horner (limbs_val r) (horner (limbs_val r) (horner (limbs_val r)
          (horner (limbs_val r) (limbs_val h) (m 0)) (m 1)) (m 2)) (m 3)"
    unfolding horner4 .
qed

section \<open>The accumulator\<close>

text \<open>The blocks of a byte string, each with its bit \<open>2 ^ 128\<close>; the last one is padded with zeros.\<close>

function zero_padded_blocks :: "bytes \<Rightarrow> nat list" where
  "zero_padded_blocks p =
     (if p = [] then [] else (le_val (take 16 p) + 2 ^ 128) # zero_padded_blocks (drop 16 p))"
  by pat_completeness auto
termination
  by (relation "measure length") auto

declare zero_padded_blocks.simps [simp del]

definition key_r :: "bytes \<Rightarrow> nat" where
  "key_r key = le_val (poly1305_clamp (take 16 key))"

definition acc :: "nat \<Rightarrow> nat \<Rightarrow> nat list \<Rightarrow> nat" where
  "acc r a ms = foldl (horner r) a ms"

lemma acc_append: "acc r a (ms @ ns) = acc r (acc r a ms) ns"
  by (simp add: acc_def)

text \<open>The state holds the powers of \<open>r\<close> and an accumulator congruent to \<open>a\<close>.\<close>

definition powers_ok :: "nat \<Rightarrow> poly1305_state64 \<Rightarrow> bool" where
  "powers_ok r st \<longleftrightarrow> reduced (st_r st) \<and> reduced (st_r2 st) \<and> reduced (st_r3 st) \<and> reduced (st_r4 st)
     \<and> limbs_val (st_r st) = r \<and> limbs_val (st_r2 st) mod polyP = r * r mod polyP
     \<and> limbs_val (st_r3 st) mod polyP = r * r * r mod polyP
     \<and> limbs_val (st_r4 st) mod polyP = r * r * r * r mod polyP"

definition st_holds :: "nat \<Rightarrow> nat \<Rightarrow> poly1305_state64 \<Rightarrow> bool" where
  "st_holds r a st \<longleftrightarrow> powers_ok r st \<and> reduced (st_h st) \<and> limbs_val (st_h st) mod polyP = a mod polyP"

lemma length_clamp [simp]: "length (poly1305_clamp r) = length r"
  by (simp add: poly1305_clamp_def Let_def)

lemma key_r_val:
  assumes "16 \<le> length key"
  shows "limbs_val (poly1305_r key) = key_r key" and "reduced (poly1305_r key)"
proof -
  define rb where "rb = poly1305_clamp (take 16 key)"
  let ?w0 = "poly_load64 rb 0" and ?w1 = "poly_load64 rb 8"
  have len: "length rb = 16" using assms by (simp add: rb_def)
  then have "rb = take 8 rb @ take 8 (drop 8 rb)" by simp
  then have v: "unat ?w0 + 2 ^ 64 * unat ?w1 = le_val rb"
    using le_val_append [of "take 8 rb" "take 8 (drop 8 rb)"] len by (simp add: poly_load64_val)
  have eq: "poly1305_r key = (?w0 AND M44, (drop_bit 44 ?w0 OR push_bit 20 ?w1) AND M44, drop_bit 24 ?w1 AND M42)"
    by (simp add: poly1305_r_def rb_def Let_def)
  show "limbs_val (poly1305_r key) = key_r key"
    unfolding eq limbs_of_words(1) v by (simp add: key_r_def rb_def)
  have "unat ?w0 mod 2 ^ 44 < 2 ^ 44" by simp
  then show "reduced (poly1305_r key)"
    unfolding eq reduced.simps and_M44 [of ?w0] using limbs_of_words(2) [of ?w1] limbs_of_words(3) [of ?w0 ?w1] by simp
qed

lemma init_holds:
  assumes "16 \<le> length key"
  shows "st_holds (key_r key) 0 (poly1305_init64 key)"
proof -
  define r where "r = poly1305_r key"
  define r2 where "r2 = poly_mul3 r r"
  define r3 where "r3 = poly_mul3 r2 r"
  define r4 where "r4 = poly_mul3 r3 r"
  have r: "limbs_val r = key_r key" "reduced r" using key_r_val [OF assms] by (simp_all add: r_def)
  have r2: "limbs_val r2 mod polyP = limbs_val r * limbs_val r mod polyP" "reduced r2"
    unfolding r2_def using r by (simp_all add: poly_mul3_val reduced_small)
  have r3: "limbs_val r3 mod polyP = limbs_val r2 * limbs_val r mod polyP" "reduced r3"
    unfolding r3_def using r r2 by (simp_all add: poly_mul3_val reduced_small)
  have r4: "limbs_val r4 mod polyP = limbs_val r3 * limbs_val r mod polyP" "reduced r4"
    unfolding r4_def using r r3 by (simp_all add: poly_mul3_val reduced_small)
  have r3': "limbs_val r3 mod polyP = limbs_val r * limbs_val r * limbs_val r mod polyP"
    using r3(1) r2(1) by (metis mod_mult_left_eq)
  then have "limbs_val r4 mod polyP = limbs_val r * limbs_val r * limbs_val r * limbs_val r mod polyP"
    using r4(1) by (metis mod_mult_left_eq)
  then show ?thesis
    using r r2 r3(2) r3' r4(2)
    by (simp add: st_holds_def powers_ok_def poly1305_init64_def Let_def r_def [symmetric] r2_def [symmetric]
        r3_def [symmetric] r4_def [symmetric])
qed

lemma zero_padded_step:
  "p \<noteq> [] \<Longrightarrow> zero_padded_blocks p = (le_val (take 16 p) + 2 ^ 128) # zero_padded_blocks (drop 16 p)"
  by (simp add: zero_padded_blocks.simps [of p])

lemma zero_padded_Nil [simp]: "zero_padded_blocks [] = []"
  by (simp add: zero_padded_blocks.simps)

lemma zero_padded_4:
  assumes "64 \<le> length p"
  shows "zero_padded_blocks p = map (\<lambda>k. le_val (take 16 (drop (16 * k) p)) + 2 ^ 128) [0, 1, 2, 3] @ zero_padded_blocks (drop 64 p)"
proof -
  have "drop (16 * k) p \<noteq> []" if "k < 4" for k using assms that by simp
  from this [of 0] this [of 1] this [of 2] this [of 3] show ?thesis
    using zero_padded_step [of p] zero_padded_step [of "drop 16 p"] zero_padded_step [of "drop 32 p"]
      zero_padded_step [of "drop 48 p"] by simp
qed

lemma blocks64_holds:
  "st_holds r a st \<Longrightarrow> blocks64_loop st p = (st', p') \<Longrightarrow>
   \<exists>ms. zero_padded_blocks p = ms @ zero_padded_blocks p' \<and> st_holds r (acc r a ms) st' \<and> length p' < 64
     \<and> (\<exists>n. p' = drop (64 * n) p \<and> 64 * n \<le> length p)"
proof (induction st p arbitrary: a rule: blocks64_loop.induct)
  case (1 st p)
  show ?case
  proof (cases "64 \<le> length p")
    case False
    with 1(2,3) show ?thesis by (intro exI [of _ "[]"]) (simp add: blocks64_loop.simps acc_def exI [of _ 0])
  next
    case True
    let ?h = "poly_blocks4 (st_h st) p (st_r st) (st_r2 st) (st_r3 st) (st_r4 st)"
    let ?ms = "map (\<lambda>k. le_val (take 16 (drop (16 * k) p)) + 2 ^ 128) [0, 1, 2, 3]"
    from 1(2) have st: "powers_ok r st" "reduced (st_h st)" "limbs_val (st_h st) mod polyP = a mod polyP"
      by (simp_all add: st_holds_def)
    then have pw: "reduced (st_r st)" "reduced (st_r2 st)" "reduced (st_r3 st)" "reduced (st_r4 st)" "limbs_val (st_r st) = r"
      and p2: "limbs_val (st_r2 st) mod polyP = limbs_val (st_r st) * limbs_val (st_r st) mod polyP"
      "limbs_val (st_r3 st) mod polyP = limbs_val (st_r st) * limbs_val (st_r st) * limbs_val (st_r st) mod polyP"
      "limbs_val (st_r4 st) mod polyP = limbs_val (st_r st) * limbs_val (st_r st) * limbs_val (st_r st) * limbs_val (st_r st) mod polyP"
      by (simp_all add: powers_ok_def)
    note b4 = blocks4_val [OF True st(2) pw(1-4) p2]
    have "limbs_val ?h mod polyP = acc r a ?ms"
      unfolding b4(1) pw(5) by (simp add: acc_def horner_cong [OF st(3)])
    moreover have "acc r a ?ms mod polyP = acc r a ?ms" by (simp add: acc_def horner_def)
    ultimately have h: "st_holds r (acc r a ?ms) (st\<lparr>st_h := ?h\<rparr>)"
      using b4(2) st(1) by (simp add: st_holds_def powers_ok_def)
    have "blocks64_loop (st\<lparr>st_h := ?h\<rparr>) (drop 64 p) = (st', p')" using 1(3) True by (simp add: blocks64_loop.simps [of st p])
    from 1(1) [OF True h this] obtain ms n where
      ms: "zero_padded_blocks (drop 64 p) = ms @ zero_padded_blocks p'" "st_holds r (acc r (acc r a ?ms) ms) st'"
        "length p' < 64" "p' = drop (64 * n) (drop 64 p)" "64 * n \<le> length (drop 64 p)" by auto
    show ?thesis
    proof (intro exI conjI)
      show "zero_padded_blocks p = (?ms @ ms) @ zero_padded_blocks p'"
        unfolding zero_padded_4 [OF True] ms(1) by simp
      show "st_holds r (acc r a (?ms @ ms)) st'" using ms(2) by (simp only: acc_append)
      show "p' = drop (64 * Suc n) p" "64 * Suc n \<le> length p" using ms(4,5) True by (simp_all add: add.commute)
    qed (rule ms(3))
  qed
qed

lemma blocks16_holds:
  "st_holds r a st \<Longrightarrow> blocks16_loop st p = (st', p') \<Longrightarrow>
   \<exists>ms. zero_padded_blocks p = ms @ zero_padded_blocks p' \<and> st_holds r (acc r a ms) st' \<and> length p' < 16
     \<and> (\<exists>n. p' = drop (16 * n) p \<and> 16 * n \<le> length p)"
proof (induction st p arbitrary: a rule: blocks16_loop.induct)
  case (1 st p)
  show ?case
  proof (cases "16 \<le> length p")
    case False
    with 1(2,3) show ?thesis by (intro exI [of _ "[]"]) (simp add: blocks16_loop.simps acc_def exI [of _ 0])
  next
    case True
    let ?h = "poly_add_block3 (st_h st) p (st_r st) True" and ?m = "le_val (take 16 p) + 2 ^ 128"
    from 1(2) have st: "powers_ok r st" "reduced (st_h st)" "limbs_val (st_h st) mod polyP = a mod polyP"
      by (simp_all add: st_holds_def)
    then have pw: "small (st_r st)" "limbs_val (st_r st) = r" by (simp_all add: powers_ok_def reduced_small)
    note b = add_block_val [OF True st(2) pw(1), of True]
    have "limbs_val ?h mod polyP = horner r (limbs_val (st_h st)) ?m" unfolding b(1) pw(2) by (simp add: horner_def)
    also have "\<dots> = acc r a [?m]" by (simp add: acc_def horner_cong [OF st(3)])
    finally have "limbs_val ?h mod polyP = acc r a [?m]" .
    moreover have "acc r a [?m] mod polyP = acc r a [?m]" by (simp add: acc_def horner_def)
    ultimately have h: "st_holds r (acc r a [?m]) (st\<lparr>st_h := ?h\<rparr>)"
      using b(2) st(1) by (simp add: st_holds_def powers_ok_def)
    have "blocks16_loop (st\<lparr>st_h := ?h\<rparr>) (drop 16 p) = (st', p')" using 1(3) True by (simp add: blocks16_loop.simps [of st p])
    from 1(1) [OF True h this] obtain ms n where
      ms: "zero_padded_blocks (drop 16 p) = ms @ zero_padded_blocks p'" "st_holds r (acc r (acc r a [?m]) ms) st'"
        "length p' < 16" "p' = drop (16 * n) (drop 16 p)" "16 * n \<le> length (drop 16 p)" by auto
    have ne: "p \<noteq> []" using True by auto
    show ?thesis
    proof (intro exI conjI)
      show "zero_padded_blocks p = ([?m] @ ms) @ zero_padded_blocks p'"
        unfolding zero_padded_step [OF ne] ms(1) by simp
      show "st_holds r (acc r a ([?m] @ ms)) st'" using ms(2) by (simp only: acc_append)
      show "p' = drop (16 * Suc n) p" "16 * Suc n \<le> length p" using ms(4,5) True by (simp_all add: add.commute)
    qed (rule ms(3))
  qed
qed

text \<open>Both loops, and the tail.\<close>

lemma loops_hold:
  assumes "st_holds r a st" "blocks64_loop st p = (st1, p1)" "blocks16_loop st1 p1 = (st2, p2)"
  obtains ms n where "zero_padded_blocks p = ms @ zero_padded_blocks p2" "st_holds r (acc r a ms) st2"
    "length p2 < 16" "p2 = drop (16 * n) p" "16 * n \<le> length p"
proof -
  from blocks64_holds [OF assms(1,2)] obtain ms m where 1: "zero_padded_blocks p = ms @ zero_padded_blocks p1"
    "st_holds r (acc r a ms) st1" "p1 = drop (64 * m) p" "64 * m \<le> length p" by blast
  from blocks16_holds [OF 1(2) assms(3)] obtain ns n where 2: "zero_padded_blocks p1 = ns @ zero_padded_blocks p2"
    "st_holds r (acc r (acc r a ms) ns) st2" "length p2 < 16" "p2 = drop (16 * n) p1" "16 * n \<le> length p1" by blast
  show ?thesis
  proof (rule that [of "ms @ ns" "n + 4 * m"])
    show "zero_padded_blocks p = (ms @ ns) @ zero_padded_blocks p2" using 1(1) 2(1) by simp
    show "st_holds r (acc r a (ms @ ns)) st2" using 2(2) by (simp only: acc_append)
    show "p2 = drop (16 * (n + 4 * m)) p" "16 * (n + 4 * m) \<le> length p"
      using 1(3,4) 2(4,5) by (simp_all add: algebra_simps)
  qed (rule 2(3))
qed

lemma tail_val:
  assumes "length p < 16"
  shows "le_val (memcpy_at (replicate 16 0) 0 p) = le_val p"
  using assms by (simp add: memcpy_at_def le_val_append)

lemma tail_block_holds:
  assumes "st_holds r a st" "length t = 16"
  shows "st_holds r (horner r a (le_val t + (if pad then 2 ^ 128 else 0))) (st\<lparr>st_h := poly_add_block3 (st_h st) t (st_r st) pad\<rparr>)"
proof -
  from assms(1) have st: "powers_ok r st" "reduced (st_h st)" "limbs_val (st_h st) mod polyP = a mod polyP"
    by (simp_all add: st_holds_def)
  then have pw: "small (st_r st)" "limbs_val (st_r st) = r" by (simp_all add: powers_ok_def reduced_small)
  have len: "16 \<le> length t" using assms(2) by simp
  note b = add_block_val [OF len st(2) pw(1), of pad]
  have "limbs_val (poly_add_block3 (st_h st) t (st_r st) pad) mod polyP
      = horner r (limbs_val (st_h st)) (le_val t + (if pad then 2 ^ 128 else 0))"
    unfolding b(1) pw(2) using assms(2) by (simp add: horner_def)
  also have "\<dots> = horner r a (le_val t + (if pad then 2 ^ 128 else 0))" by (rule horner_cong [OF st(3)])
  finally show ?thesis using b(2) st(1) by (simp add: st_holds_def powers_ok_def horner_def)
qed

lemma feed_holds:
  assumes "st_holds r a st"
  shows "st_holds r (acc r a (zero_padded_blocks p)) (poly1305_feed64 st p)"
proof -
  obtain st1 p1 st2 p2 where l: "blocks64_loop st p = (st1, p1)" "blocks16_loop st1 p1 = (st2, p2)" by fastforce
  from loops_hold [OF assms l] obtain ms where ms: "zero_padded_blocks p = ms @ zero_padded_blocks p2"
    "st_holds r (acc r a ms) st2" "length p2 < 16" by metis
  show ?thesis
  proof (cases "p2 = []")
    case True
    with ms l show ?thesis by (simp add: poly1305_feed64_def)
  next
    case False
    let ?t = "memcpy_at (replicate 16 0) 0 p2 :: bytes"
    have "zero_padded_blocks p2 = [le_val p2 + 2 ^ 128]"
      using False ms(3) zero_padded_step [of p2] by simp
    then have "acc r a (zero_padded_blocks p) = horner r (acc r a ms) (le_val ?t + 2 ^ 128)"
      using ms(1) tail_val [OF ms(3)] by (simp add: acc_def)
    moreover have "length ?t = 16" using ms(3) by simp
    ultimately show ?thesis
      using False l tail_block_holds [OF ms(2), of ?t True] by (simp add: poly1305_feed64_def Let_def)
  qed
qed

end
