(* ===== verification/PolyTag.thy ===== *)
theory PolyTag
  imports Poly1305
begin

text \<open>
  The end of Poly1305, \<open>poly1305_finish3\<close>: the carries, the choice between \<open>h\<close> and \<open>h - p\<close>
  by masks and the 128-bit sum are the number modulo \<open>2 ^ 130 - 5\<close> plus the second half of the key. With it the
  authenticator of the code is the one of RFC 8439, section 2.5, stated here on its own.
\<close>

section \<open>The tag\<close>

lemma finish_nat:
  fixes h0 h1 h2 :: nat
  assumes "h0 \<le> 2 ^ 44 + 2 ^ 10" "h1 \<le> 2 ^ 44" "h2 < 2 ^ 42"
  defines "B \<equiv> 2 ^ 44 :: nat" and "C \<equiv> 2 ^ 42 :: nat"
  defines "e2 \<equiv> h2 + h1 div B"
  defines "f0 \<equiv> h0 + 5 * (e2 div C)"
  defines "f1 \<equiv> h1 mod B + f0 div B"
  defines "f2 \<equiv> e2 mod C + f1 div B"
  defines "g0 \<equiv> f0 mod B + 5 * (f2 div C)"
  defines "g1 \<equiv> f1 mod B + g0 div B"
  shows "g0 mod B + B * g1 + B * B * (f2 mod C) + (e2 div C + f2 div C) * polyP = h0 + B * h1 + B * B * h2"
    and "g1 < B" and "e2 div C \<le> 1" and "f0 div B \<le> 1" and "f1 div B \<le> 1" and "f2 div C \<le> 1" and "h1 div B \<le> 1"
proof -
  have B: "x mod B < B" and C: "x mod C < C" for x by (simp_all add: B_def C_def)
  have le1: "x div n \<le> 1" if "x < 2 * n" for x n :: nat
    using less_mult_imp_div_less [OF that] by simp
  show d1: "h1 div B \<le> 1" using assms(2) by (intro le1) (simp add: B_def)
  then show d2: "e2 div C \<le> 1" using assms(3) by (intro le1) (simp add: e2_def C_def)
  then show d3: "f0 div B \<le> 1" using assms(1) by (intro le1) (simp add: f0_def B_def)
  then have f1: "f1 \<le> B" using B [of h1] by (simp add: f1_def)
  then show d4: "f1 div B \<le> 1" by (intro le1) (simp add: B_def)
  then have f2: "f2 \<le> C" using C [of e2] by (simp add: f2_def)
  then show d5: "f2 div C \<le> 1" by (intro le1) (simp add: C_def)
  show "g1 < B"
  proof (cases "f2 div C = 0")
    case True
    then have "g0 div B = 0" using B [of f0] by (simp add: g0_def)
    then show ?thesis using B [of f1] by (simp add: g1_def)
  next
    case False
    with f2 have "f2 = C" by (metis div_less le_neq_implies_less)
    then have "f1 div B = 1" using C [of e2] d4 by (cases "f1 div B = 0") (simp_all add: f2_def)
    then have "f1 = B" using f1 by (metis div_less le_neq_implies_less zero_neq_one)
    then have "f1 mod B = 0" by simp
    moreover have "g0 div B \<le> 1" using B [of f0] d5 by (intro le1) (simp add: g0_def B_def)
    ultimately show ?thesis by (simp add: g1_def B_def)
  qed
  have m: "k * x = k * (x mod n) + k * (n * (x div n))" for k x n :: nat
    by (simp only: distrib_left [symmetric] mod_mult_div_eq)
  have "B * B * C = polyP + 5" by (simp add: B_def C_def polyP_def)
  then have P: "B * B * C * x = polyP * x + 5 * x" for x by (simp only: distrib_right)
  have "h0 + B * h1 + B * B * h2 = h0 + B * (h1 mod B) + B * B * e2"
    using m [of B h1 B] by (simp add: e2_def algebra_simps)
  also have "\<dots> = h0 + B * (h1 mod B) + B * B * (e2 mod C) + B * B * C * (e2 div C)"
    using m [of "B * B" e2 C] by (simp add: algebra_simps)
  also have "\<dots> = f0 + B * (h1 mod B) + B * B * (e2 mod C) + e2 div C * polyP"
    by (simp only: P f0_def) (simp add: algebra_simps)
  also have "f0 + B * (h1 mod B) = f0 mod B + B * f1"
    using m [of 1 f0 B] by (simp add: f1_def algebra_simps)
  also have "f0 mod B + B * f1 + B * B * (e2 mod C) = f0 mod B + B * (f1 mod B) + B * B * f2"
    using m [of B f1 B] by (simp add: f2_def algebra_simps)
  also have "\<dots> = f0 mod B + B * (f1 mod B) + B * B * (f2 mod C) + B * B * C * (f2 div C)"
    using m [of "B * B" f2 C] by (simp add: algebra_simps)
  also have "\<dots> = g0 + B * (f1 mod B) + B * B * (f2 mod C) + f2 div C * polyP"
    by (simp only: P g0_def) (simp add: algebra_simps)
  also have "g0 + B * (f1 mod B) = g0 mod B + B * g1"
    using m [of 1 g0 B] by (simp add: g1_def algebra_simps)
  finally show "g0 mod B + B * g1 + B * B * (f2 mod C) + (e2 div C + f2 div C) * polyP = h0 + B * h1 + B * B * h2"
    by (simp add: algebra_simps)
qed

text \<open>All limbs within their width: a number below \<open>2 ^ 130\<close>.\<close>

fun canonical :: "limbs \<Rightarrow> bool" where
  "canonical (h0, h1, h2) \<longleftrightarrow> unat h0 < 2 ^ 44 \<and> unat h1 < 2 ^ 44 \<and> unat h2 < 2 ^ 42"

lemma finish_carries_val:
  assumes "reduced h"
  shows "limbs_val (finish_carries h) mod polyP = limbs_val h mod polyP" and "canonical (finish_carries h)"
proof -
  let ?B = "2 ^ 44 :: nat" and ?C = "2 ^ 42 :: nat"
  obtain h0 h1 h2 where h: "h = (h0, h1, h2)" by (cases h) auto
  then have b: "unat h0 \<le> 2 ^ 44 + 2 ^ 10" "unat h1 \<le> 2 ^ 44" "unat h2 < 2 ^ 42" using assms by simp_all
  define E2 where "E2 = unat h2 + unat h1 div ?B"
  define f0 f1 f2 where "f0 = unat h0 + 5 * (E2 div ?C)" and "f1 = unat h1 mod ?B + f0 div ?B"
    and "f2 = E2 mod ?C + f1 div ?B"
  define g0 g1 where "g0 = f0 mod ?B + 5 * (f2 div ?C)" and "g1 = f1 mod ?B + g0 div ?B"
  note nat = finish_nat [OF b, folded E2_def, folded f0_def, folded f1_def, folded f2_def, folded g0_def, folded g1_def]
  define e2 where "e2 = h2 + drop_bit 44 h1"
  define x0 where "x0 = h0 + drop_bit 42 e2 * 5"
  define x1 where "x1 = (h1 AND M44) + drop_bit 44 x0"
  define x2 where "x2 = (e2 AND M42) + drop_bit 44 x1"
  define y0 where "y0 = (x0 AND M44) + drop_bit 42 x2 * 5"
  define y1 where "y1 = (x1 AND M44) + drop_bit 44 y0"
  have eq: "finish_carries h = (y0 AND M44, y1, x2 AND M42)"
    by (simp add: h finish_carries_def Let_def e2_def x0_def x1_def x2_def y0_def y1_def)
  have e2: "unat e2 = E2" using b nat(7) by (simp add: e2_def E2_def unat_plus unat_drop_bit_div)
  have x0: "unat x0 = f0" using b nat(3) e2 by (simp add: x0_def f0_def unat_plus5 unat_drop_bit_div)
  have lt: "n mod ?B < ?B" "n mod ?C < ?C" for n by simp_all
  have x1: "unat x1 = f1" using lt(1) [of "unat h1"] nat(4) x0
    by (simp add: x1_def f1_def unat_plus unat_drop_bit_div and_M44)
  have x2: "unat x2 = f2" using lt(2) [of "E2"] nat(5) x1 e2
    by (simp add: x2_def f2_def unat_plus unat_drop_bit_div and_M42)
  have y0: "unat y0 = g0" using lt(1) [of f0] nat(6) x0 x2
    by (simp add: y0_def g0_def unat_plus5 unat_drop_bit_div and_M44)
  have y1: "unat y1 = g1" using lt(1) [of f1] unat_u64_less [of y0] x1 y0 unat_plus [of "x1 AND M44" "drop_bit 44 y0"]
    by (simp add: y1_def g1_def unat_drop_bit_div and_M44)
  have v: "limbs_val (finish_carries h) + (E2 div ?C + f2 div ?C) * polyP = limbs_val h"
    unfolding eq using nat(1) by (simp add: h and_M44 and_M42 y0 y1 x2)
  show "limbs_val (finish_carries h) mod polyP = limbs_val h mod polyP" unfolding v [symmetric] by simp
  show "canonical (finish_carries h)" unfolding eq canonical.simps and_M44 and_M42 y0 y1 x2 using nat(2) by simp
qed


lemma finish_select_val:
  assumes "canonical h"
  shows "limbs_val (finish_select h) = limbs_val h mod polyP" and "canonical (finish_select h)"
proof -
  let ?B = "2 ^ 44 :: nat" and ?C = "2 ^ 42 :: nat"
  obtain h0 h1 h2 where h: "h = (h0, h1, h2)" by (cases h) auto
  then have b: "unat h0 < 2 ^ 44" "unat h1 < 2 ^ 44" "unat h2 < 2 ^ 42" using assms by simp_all
  define G0 where "G0 = unat h0 + 5"
  define G1 where "G1 = unat h1 + G0 div ?B"
  define S where "S = unat h2 + G1 div ?B"
  define g0 where "g0 = h0 + 5"
  define g1 where "g1 = h1 + drop_bit 44 g0"
  define s where "s = h2 + drop_bit 44 g1"
  define c where "c = drop_bit 63 (s - push_bit 42 1) - 1"
  have eq: "finish_select h = ((h0 AND NOT c) OR ((g0 AND M44) AND c), (h1 AND NOT c) OR ((g1 AND M44) AND c),
      (h2 AND NOT c) OR ((s - push_bit 42 1) AND c))"
    by (simp add: h finish_select_def Let_def g0_def g1_def s_def c_def)
  have le1: "x div ?B \<le> 1" if "x < 2 * ?B" for x using less_mult_imp_div_less [OF that] by simp
  have d0: "G0 div ?B \<le> 1" using b(1) by (intro le1) (simp add: G0_def)
  have d1: "G1 div ?B \<le> 1" using b(2) d0 by (intro le1) (simp add: G1_def)
  have g0: "unat g0 = G0" using b(1) by (simp add: g0_def G0_def unat_plus)
  have g1: "unat g1 = G1" using b(2) d0 g0 by (simp add: g1_def G1_def unat_plus unat_drop_bit_div)
  have s: "unat s = S" using b(3) d1 g1 by (simp add: s_def S_def unat_plus unat_drop_bit_div)
  have Sle: "S \<le> ?C" using b(3) d1 by (simp add: S_def)
  have C: "unat (push_bit 42 1 :: u64) = ?C" by simp
  have dm: "x = x mod 2 ^ k + 2 ^ k * (x div 2 ^ k)" for x k :: nat by simp
  have V: "limbs_val h + 5 = G0 mod ?B + 2 ^ 44 * (G1 mod ?B) + 2 ^ 88 * S"
  proof -
    have "a + 2 ^ 44 * x + 2 ^ 88 * y + 5 = p + 2 ^ 44 * r + 2 ^ 88 * (y + t)"
      if "a + 5 = p + 2 ^ 44 * q" "x + q = r + 2 ^ 44 * t" for a x y p q r t :: nat
      using that by simp
    from this [OF dm [of "unat h0 + 5" 44] dm [of "unat h1 + (unat h0 + 5) div 2 ^ 44" 44]] show ?thesis
      unfolding h limbs_val.simps G0_def G1_def S_def .
  qed
  have lt: "x mod ?B < ?B" for x by simp
  have max: "limbs_val h < 2 ^ 130" using b by (simp add: h)
  show "limbs_val (finish_select h) = limbs_val h mod polyP" "canonical (finish_select h)"
  proof (atomize (full), cases "S = ?C")
    case True
    then have "s = push_bit 42 1" using s C by (metis unat_u64_eq)
    then have c: "c = - 1" "s - push_bit 42 1 = 0" by (simp_all add: c_def)
    have "limbs_val (finish_select h) = G0 mod ?B + 2 ^ 44 * (G1 mod ?B)"
      unfolding eq c by (simp add: and_M44 g0 g1)
    with V True have v: "limbs_val (finish_select h) + polyP = limbs_val h" by (simp add: polyP_def)
    with max have "limbs_val (finish_select h) < polyP" by (simp add: polyP_def)
    then have "limbs_val (finish_select h) = limbs_val h mod polyP"
      by (metis v mod_add_self2 mod_less)
    moreover have "canonical (finish_select h)" unfolding eq c by (simp add: and_M44)
    ultimately show "limbs_val (finish_select h) = limbs_val h mod polyP \<and> canonical (finish_select h)" ..
  next
    case False
    with Sle have S: "S < ?C" by simp
    have "s < push_bit 42 1" unfolding word_less_nat_alt s C by (rule S)
    then have "unat (s - push_bit 42 1) = S + 2 ^ 64 - ?C"
      using C S unfolding unat_sub_if' s by (simp add: word_le_nat_alt s)
    then have "unat (s - push_bit 42 1) = S + (2 ^ 64 - 2 ^ 42)" by simp
    moreover have "(S + (2 ^ 64 - 2 ^ 42)) div 2 ^ 63 = 1" using S by (intro div_nat_eqI) simp_all
    ultimately have "unat (drop_bit 63 (s - push_bit 42 1)) = unat (1 :: u64)" by (simp add: unat_drop_bit_div)
    then have "drop_bit 63 (s - push_bit 42 1) = 1" by (simp only: unat_u64_eq)
    then have c: "c = 0" by (simp add: c_def)
    have "limbs_val h < polyP"
    proof -
      have "2 ^ 88 * S \<le> 2 ^ 88 * (?C - 1)" using S by simp
      with V lt [of G0] lt [of G1] show ?thesis by (simp add: polyP_def)
    qed
    moreover have "finish_select h = h" unfolding eq c by (simp add: h)
    ultimately show "limbs_val (finish_select h) = limbs_val h mod polyP \<and> canonical (finish_select h)"
      using assms by simp
  qed
qed


text \<open>The carry between the halves of a 128-bit sum, and the two stores.\<close>

lemma sum128:
  fixes lo hi k0 k1 :: u64
  defines "f0 \<equiv> lo + k0"
  shows "poly_store64 f0 @ poly_store64 (hi + k1 + (if f0 < lo then 1 else 0))
    = le_bytes 16 (unat lo + 2 ^ 64 * unat hi + (unat k0 + 2 ^ 64 * unat k1))"
proof -
  let ?c = "(unat lo + unat k0) div 2 ^ 64"
  have f0: "unat f0 = (unat lo + unat k0) mod 2 ^ 64" by (simp add: f0_def unat_word_ariths)
  have lt: "unat lo < 2 ^ 64" "unat k0 < 2 ^ 64" by (rule unat_u64_less)+
  have c: "unat (if f0 < lo then 1 else 0 :: u64) = ?c"
  proof (cases "unat lo + unat k0 < 2 ^ 64")
    case True
    then have "unat f0 = unat lo + unat k0" using f0 by simp
    with True show ?thesis by (simp add: word_less_nat_alt)
  next
    case False
    then have "?c = 1" using lt by (intro div_nat_eqI) simp_all
    moreover have "unat f0 = unat lo + unat k0 - 2 ^ 64" using f0 False lt by (simp add: le_mod_geq)
    ultimately show ?thesis using lt False by (simp add: word_less_nat_alt)
  qed
  let ?n = "unat lo + 2 ^ 64 * unat hi + (unat k0 + 2 ^ 64 * unat k1)"
  have n: "?n = (unat lo + unat k0) + 2 ^ 64 * (unat hi + unat k1)" by simp
  have "?n mod 256 ^ 8 = unat f0" unfolding n f0 by (simp del: distrib_left_numeral)
  moreover have "?n div 256 ^ 8 = unat hi + unat k1 + ?c" unfolding n by (simp del: distrib_left_numeral)
  moreover have "unat (hi + k1 + (if f0 < lo then 1 else 0)) = (unat hi + unat k1 + ?c) mod 256 ^ 8"
    by (simp only: word_sum c) simp
  moreover have "le_bytes 16 ?n = le_bytes 8 (?n mod 256 ^ 8) @ le_bytes 8 (?n div 256 ^ 8 mod 256 ^ 8)"
    using le_bytes_append [of 8 8 ?n] by (simp only: le_bytes_mod) simp
  ultimately show ?thesis by (simp only: poly_store64_bytes)
qed

lemma finish3_val:
  assumes "reduced h" "length key = 32"
  shows "poly1305_finish3 h key = le_bytes 16 (limbs_val h mod polyP + le_val (drop 16 key))"
proof -
  obtain h0 h1 h2 where h: "finish_select (finish_carries h) = (h0, h1, h2)"
    by (cases "finish_select (finish_carries h)") auto
  have v: "unat h0 + 2 ^ 44 * unat h1 + 2 ^ 88 * unat h2 = limbs_val h mod polyP"
    and b: "unat h0 < 2 ^ 44" "unat h1 < 2 ^ 44" "unat h2 < 2 ^ 42"
    using finish_select_val [OF finish_carries_val(2) [OF assms(1)]] finish_carries_val(1) [OF assms(1)] by (simp_all add: h)
  define lo where "lo = h0 OR push_bit 44 h1"
  define hi where "hi = drop_bit 20 h1 OR push_bit 24 h2"
  have lo: "unat lo = unat h0 + 2 ^ 44 * (unat h1 mod 2 ^ 20)"
  proof -
    have "lo = h0 OR push_bit 44 (take_bit 20 h1)" unfolding lo_def
      by (rule bit_word_eqI) (auto simp: bit_simps)
    moreover have t: "unat (take_bit 20 h1) = unat h1 mod 2 ^ 20"
      by (simp only: unsigned_take_bit_eq) (rule take_bit_eq_mod)
    moreover have "unat h1 mod 2 ^ 20 * 2 ^ 44 < 2 ^ LENGTH(64)"
      using mod_less_divisor [of "2 ^ 20" "unat h1"] by simp
    ultimately show ?thesis using or_push_val [of h0 44 "take_bit 20 h1"] b(1) by simp
  qed
  have hi: "unat hi = unat h1 div 2 ^ 20 + 2 ^ 24 * (unat h2 mod 2 ^ 40)"
  proof -
    have "hi = drop_bit 20 h1 OR push_bit 24 (take_bit 40 h2)" unfolding hi_def
      by (rule bit_word_eqI) (auto simp: bit_simps)
    moreover have t: "unat (take_bit 40 h2) = unat h2 mod 2 ^ 40"
      by (simp only: unsigned_take_bit_eq) (rule take_bit_eq_mod)
    moreover have "unat h2 mod 2 ^ 40 * 2 ^ 24 < 2 ^ LENGTH(64)"
      using mod_less_divisor [of "2 ^ 40" "unat h2"] by simp
    moreover have "unat (drop_bit 20 h1) < 2 ^ 24"
      using b(2) by (simp add: unat_drop_bit_div less_mult_imp_div_less)
    ultimately show ?thesis using or_push_val [of "drop_bit 20 h1" 24 "take_bit 40 h2"] by (simp add: unat_drop_bit_div)
  qed
  have k: "unat (poly_load64 key 16) + 2 ^ 64 * unat (poly_load64 key 24) = le_val (drop 16 key)"
  proof -
    have "drop 16 key = take 8 (drop 16 key) @ drop 8 (drop 16 key)" by (rule append_take_drop_id [symmetric])
    then show ?thesis using assms(2) le_val_append [of "take 8 (drop 16 key)" "drop 8 (drop 16 key)"]
      by (simp add: poly_load64_val)
  qed
  have dm: "x = x mod 2 ^ k + 2 ^ k * (x div 2 ^ k)" for x k :: nat by simp
  have "a + 2 ^ 44 * x + 2 ^ 88 * y = a + 2 ^ 44 * x0 + 2 ^ 64 * (x1 + 2 ^ 24 * y0) + 256 ^ 16 * y1"
    if "x = x0 + 2 ^ 20 * x1" "y = y0 + 2 ^ 40 * y1" for a x y x0 x1 y0 y1 :: nat using that by simp
  from this [OF dm [of "unat h1" 20] dm [of "unat h2" 40]]
  have V: "limbs_val h mod polyP = unat lo + 2 ^ 64 * unat hi + 256 ^ 16 * (unat h2 div 2 ^ 40)"
    unfolding v [symmetric] lo hi by blast
  have "poly1305_finish3 h key = le_bytes 16 (unat lo + 2 ^ 64 * unat hi + le_val (drop 16 key))"
    unfolding k [symmetric] sum128 [symmetric]
    by (simp only: poly1305_finish3_def h Let_def prod.case lo_def hi_def)
  also have "\<dots> = le_bytes 16 ((unat lo + 2 ^ 64 * unat hi + le_val (drop 16 key)) mod 256 ^ 16)"
    by (rule le_bytes_mod [symmetric])
  also have "(unat lo + 2 ^ 64 * unat hi + le_val (drop 16 key)) mod 256 ^ 16
      = (limbs_val h mod polyP + le_val (drop 16 key)) mod 256 ^ 16"
  proof -
    have "(n + m) mod M = (n + M * q + m) mod M" for n m q M :: nat
      by (metis add.assoc add.commute mod_mult_self2)
    then show ?thesis unfolding V .
  qed
  finally show ?thesis by (simp only: le_bytes_mod)
qed

section \<open>The authenticator of RFC 8439\<close>

text \<open>\<open>r\<close> is the first half of the key under the mask of section 2.5.\<close>

definition rfc_r :: "bytes \<Rightarrow> nat" where
  "rfc_r key = le_val (take 16 key) AND 0x0ffffffc0ffffffc0ffffffc0fffffff"

function rfc_blocks :: "bytes \<Rightarrow> nat list" where
  "rfc_blocks msg = (if msg = [] then [] else le_val (take 16 msg @ [1]) # rfc_blocks (drop 16 msg))"
  by pat_completeness auto
termination
  by (relation "measure length") auto

declare rfc_blocks.simps [simp del]

definition rfc_poly1305 :: "bytes \<Rightarrow> bytes \<Rightarrow> bytes" where
  "rfc_poly1305 key msg =
     le_bytes 16 (foldl (\<lambda>a n. (a + n) * rfc_r key mod (2 ^ 130 - 5)) 0 (rfc_blocks msg) + le_val (drop 16 key))"

lemma and_step:
  fixes b c v w :: nat
  assumes "b < 256" "c < 256"
  shows "(b + 256 * v) AND (c + 256 * w) = (b AND c) + 256 * (v AND w)"
proof -
  have or: "x + 256 * y = x OR push_bit 8 y" if "x < 256" for x y :: nat
    using nat_or_push [of x 8 y] that by simp
  have bits: "\<not> bit x n" if "x < 256" "8 \<le> n" for x n :: nat
  proof -
    have "take_bit 8 x = x" using that(1) by (simp add: take_bit_nat_eq_self)
    then show ?thesis using that(2) bit_take_bit_iff [of 8 x n] by simp
  qed
  have "b AND c = take_bit 8 (b AND c)"
    using assms by (simp add: take_bit_and take_bit_nat_eq_self)
  then have lt: "b AND c < 256" using take_bit_nat_less_exp [of 8 "b AND c"] by simp
  have "(b OR push_bit 8 v) AND (c OR push_bit 8 w) = (b AND c) OR push_bit 8 (v AND w)"
  proof (rule bit_eqI)
    fix n
    show "bit ((b OR push_bit 8 v) AND (c OR push_bit 8 w)) n = bit ((b AND c) OR push_bit 8 (v AND w)) n"
      using bits [OF assms(1), of n] bits [OF assms(2), of n]
      by (cases "8 \<le> n") (simp_all add: bit_and_iff bit_or_iff bit_push_bit_iff)
  qed
  then show ?thesis by (simp only: or assms lt)
qed

lemma le_val_and:
  "length a = length b \<Longrightarrow> le_val (map2 (AND) a b) = le_val a AND le_val b"
proof (induction a b rule: list_induct2)
  case (Cons x xs y ys)
  then show ?case using and_step [of "unat x" "unat y" "le_val xs" "le_val ys"] by (simp add: unsigned_and_eq)
qed simp

lemma length_16_cases:
  assumes "length xs = 16"
  obtains a b c d e f g h i j k l m n p q where "xs = [a, b, c, d, e, f, g, h, i, j, k, l, m, n, p, q]"
  using assms by (auto simp: numeral_eq_Suc length_Suc_conv)

lemma clamp_mask:
  assumes "length r = 16"
  shows "poly1305_clamp r = map2 (AND) r [255, 255, 255, 15, 252, 255, 255, 15, 252, 255, 255, 15, 252, 255, 255, 15]"
proof -
  have "(255 :: u8) = - 1" by simp
  then have "b AND 255 = b" for b :: u8 by (simp only: and.right_neutral)
  note and255 = this
  show ?thesis by (rule length_16_cases [OF assms]) (simp add: poly1305_clamp_def Let_def and255)
qed

lemma key_r_rfc: "16 \<le> length key \<Longrightarrow> key_r key = rfc_r key"
  by (simp add: key_r_def rfc_r_def clamp_mask le_val_and)

lemma rfc_step: "msg \<noteq> [] \<Longrightarrow> rfc_blocks msg = le_val (take 16 msg @ [1]) # rfc_blocks (drop 16 msg)"
  by (simp add: rfc_blocks.simps [of msg])

lemma rfc_Nil [simp]: "rfc_blocks [] = []"
  by (simp add: rfc_blocks.simps)

lemma full_block: "16 \<le> length msg \<Longrightarrow> le_val (take 16 msg @ [1]) = le_val (take 16 msg) + 2 ^ 128"
  by (simp add: le_val_append)

text \<open>The two paddings agree on whole blocks.\<close>

lemma whole_blocks:
  "16 * n \<le> length p \<Longrightarrow> zero_padded_blocks p = ms @ zero_padded_blocks (drop (16 * n) p) \<Longrightarrow>
   rfc_blocks p = ms @ rfc_blocks (drop (16 * n) p)"
proof (induction n arbitrary: p ms)
  case (Suc n)
  then have ne: "p \<noteq> []" and len: "16 \<le> length p" by auto
  have z: "zero_padded_blocks p = (le_val (take 16 p) + 2 ^ 128) # zero_padded_blocks (drop 16 p)"
    by (rule zero_padded_step [OF ne])
  have d: "drop (16 * Suc n) p = drop (16 * n) (drop 16 p)" by (simp add: add.commute)
  have len_z: "length (zero_padded_blocks x) = (length x + 15) div 16" for x
  proof (induction x rule: zero_padded_blocks.induct)
    case (1 p)
    show ?case
    proof (cases "p = []")
      case False
      then have "(length p + 15) div 16 = Suc ((length p - 16 + 15) div 16)"
        by (cases "16 \<le> length p") (auto simp: div_if not_le)
      then show ?thesis using 1 [OF False] zero_padded_step [OF False] by simp
    qed simp
  qed
  obtain ns where ns: "ms = (le_val (take 16 p) + 2 ^ 128) # ns"
    "zero_padded_blocks (drop 16 p) = ns @ zero_padded_blocks (drop (16 * n) (drop 16 p))"
  proof (cases ms)
    case Nil
    then have "length (zero_padded_blocks p) = length (zero_padded_blocks (drop (16 * Suc n) p))" using Suc.prems(2) by simp
    then show ?thesis using Suc.prems(1) by (simp add: len_z)
  next
    case (Cons m ns)
    with Suc.prems(2) z d that show ?thesis by simp
  qed
  have "rfc_blocks (drop 16 p) = ns @ rfc_blocks (drop (16 * n) (drop 16 p))"
    using Suc.prems(1) ns(2) by (intro Suc.IH) auto
  then show ?case unfolding d ns(1) using rfc_step [OF ne] full_block [OF len] by simp
qed simp

lemma poly1305_mac_rfc:
  assumes "length key = 32"
  shows "poly1305_mac key msg = rfc_poly1305 key msg"
proof -
  let ?r = "key_r key" and ?st = "poly1305_init64 key"
  obtain st1 p1 st p where l: "blocks64_loop ?st msg = (st1, p1)" "blocks16_loop st1 p1 = (st, p)" by fastforce
  have "st_holds ?r 0 ?st" using assms by (intro init_holds) simp
  from loops_hold [OF this l] obtain ms n where ms: "zero_padded_blocks msg = ms @ zero_padded_blocks p"
    "st_holds ?r (acc ?r 0 ms) st" "length p < 16" "p = drop (16 * n) msg" "16 * n \<le> length msg" by metis
  have blocks: "rfc_blocks msg = ms @ rfc_blocks p" using whole_blocks [of n msg ms] ms by simp
  define h where "h = (if p \<noteq> [] then poly_add_block3 (st_h st) ((memcpy_at (replicate 16 0) 0 p)[length p := 1]) (st_r st) False
      else st_h st)"
  have "reduced h \<and> limbs_val h mod polyP = acc ?r 0 (rfc_blocks msg) mod polyP"
  proof (cases "p = []")
    case True
    with ms(2) blocks show ?thesis by (simp add: h_def st_holds_def)
  next
    case False
    let ?t = "(memcpy_at (replicate 16 0) 0 p)[length p := 1] :: bytes"
    have "?t = p @ 1 # replicate (15 - length p) 0" (is "_ = ?u")
      using ms(3) by (intro nth_equalityI) (auto simp: memcpy_at_def nth_list_update nth_append nth_Cons split: nat.split)
    then have t: "le_val ?t = le_val (p @ [1])" by (simp add: le_val_append)
    have len: "length ?t = 16" using ms(3) by simp
    have "rfc_blocks p = [le_val (p @ [1])]" using False ms(3) rfc_step [OF False] by simp
    then have "acc ?r 0 (rfc_blocks msg) = horner ?r (acc ?r 0 ms) (le_val ?t)"
      using blocks t by (simp add: acc_def)
    then show ?thesis
      using tail_block_holds [OF ms(2) len, of False] False by (simp add: h_def st_holds_def)
  qed
  moreover have "acc ?r 0 (rfc_blocks msg) mod polyP = acc ?r 0 (rfc_blocks msg)"
    by (cases "rfc_blocks msg" rule: rev_cases) (simp_all add: acc_def horner_def)
  ultimately have h: "reduced h" "limbs_val h mod polyP = acc ?r 0 (rfc_blocks msg)" by simp_all
  have "poly1305_mac key msg = poly1305_finish3 h key" by (simp add: poly1305_mac_def l h_def Let_def)
  also have "\<dots> = rfc_poly1305 key msg"
  proof -
    have "horner ?r = (\<lambda>a n. (a + n) * rfc_r key mod (2 ^ 130 - 5))"
      using key_r_rfc [of key] assms by (simp add: horner_def polyP_def fun_eq_iff)
    then show ?thesis unfolding finish3_val [OF h(1) assms] h(2) by (simp only: rfc_poly1305_def acc_def)
  qed
  finally show ?thesis .
qed

end
