(* ===== verification/ChaChaPoly.thy ===== *)
theory ChaChaPoly
  imports ChaCha PolyTag
begin

text \<open>
  The AEAD ChaCha20-Poly1305, \<open>src/src/chacha20_poly1305.cpp\<close>: encryption that feeds each chunk of ciphertext
  to the authenticator one chunk late, decryption that checks the tag first, and their in-place forms. The
  pipeline is proved equal to one pass, and the whole to section 2.8 of RFC 8439.
\<close>

section \<open>The pipeline\<close>

definition CH :: nat where
  "CH = 4096"

text \<open>
  The span \<open>in\<close> is \<open>src out\<close> when the output buffer is \<open>out\<close>: the plaintext, or the buffer itself for
  the in-place calls. \<open>ct\<close> is the output buffer in every call.
\<close>

definition gen :: "bytes \<Rightarrow> bytes \<Rightarrow> (bytes \<Rightarrow> bytes) \<Rightarrow> nat \<Rightarrow> nat \<Rightarrow> bytes \<Rightarrow> bytes" where
  "gen key nonce src p len out =
     memcpy_at out p (chacha20_crypt key (1 + word_of_nat (p div 64)) nonce (take len (drop p (src out))))"

function pipeline ::
  "bytes \<Rightarrow> bytes \<Rightarrow> (bytes \<Rightarrow> bytes) \<Rightarrow> nat \<Rightarrow> nat \<Rightarrow> bytes \<Rightarrow> poly1305_state64 \<Rightarrow> nat \<times> bytes \<times> poly1305_state64" where
  "pipeline key nonce src n pos out st =
     (if pos + CH \<le> n
      then let out = gen key nonce src pos CH out;
               st = poly1305_feed64 st (take CH (drop (pos - CH) out))
           in pipeline key nonce src n (pos + CH) out st
      else (pos, out, st))"
  by pat_completeness auto
termination
  by (relation "measure (\<lambda>(_, _, _, n, pos, _, _). n - pos)") (auto simp: CH_def)

declare pipeline.simps [simp del]

definition chacha20_crypt_feed_poly ::
  "bytes \<Rightarrow> bytes \<Rightarrow> (bytes \<Rightarrow> bytes) \<Rightarrow> bytes \<Rightarrow> poly1305_state64 \<Rightarrow> bytes \<times> poly1305_state64" where
  "chacha20_crypt_feed_poly key nonce src out st =
     (let n = length (src out);
          (pos, out) = (if CH \<le> n then (CH, gen key nonce src 0 CH out) else (0, out));
          (pos, out, st) = (if CH \<le> n then pipeline key nonce src n pos out st else (pos, out, st));
          st = (if CH \<le> pos then poly1305_feed64 st (take CH (drop (pos - CH) out)) else st)
      in if pos < n
         then let out = gen key nonce src pos (n - pos) out
              in (out, poly1305_feed64 st (take (n - pos) (drop pos out)))
         else (out, st))"

section \<open>The operations\<close>

definition lenblock :: "nat \<Rightarrow> nat \<Rightarrow> bytes" where
  "lenblock a c = poly_store64 (word_of_nat a) @ poly_store64 (word_of_nat c)"

definition chacha20_poly1305_encrypt :: "bytes \<Rightarrow> bytes \<Rightarrow> bytes \<Rightarrow> bytes \<Rightarrow> bytes \<times> bytes" where
  "chacha20_poly1305_encrypt key nonce plaintext aad =
     (let poly_key = take 32 (chacha20_block key 0 nonce);
          ciphertext = replicate (length plaintext) 0;
          st = poly1305_init64 poly_key;
          st = poly1305_feed64 st aad;
          (ciphertext, st) = chacha20_crypt_feed_poly key nonce (\<lambda>_. plaintext) ciphertext st;
          st = poly1305_feed64 st (lenblock (length aad) (length plaintext))
      in (ciphertext, poly1305_finish3 (st_h st) poly_key))"

text \<open>The tag both forms of decryption expect, and the comparison without early exit.\<close>

definition expected_tag :: "bytes \<Rightarrow> bytes \<Rightarrow> bytes \<Rightarrow> bytes \<Rightarrow> bytes" where
  "expected_tag key nonce ciphertext aad =
     (let poly_key = take 32 (chacha20_block key 0 nonce);
          st = poly1305_init64 poly_key;
          st = poly1305_feed64 st aad;
          st = poly1305_feed64 st ciphertext;
          st = poly1305_feed64 st (lenblock (length aad) (length ciphertext))
      in poly1305_finish3 (st_h st) poly_key)"

definition tag_diff :: "bytes \<Rightarrow> bytes \<Rightarrow> u8" where
  "tag_diff tag expected = foldl (\<lambda>diff i. diff OR (tag ! i XOR expected ! i)) 0 [0..<16]"

text \<open>\<open>None\<close> when the function returns false; the plaintext is then untouched.\<close>

definition chacha20_poly1305_decrypt :: "bytes \<Rightarrow> bytes \<Rightarrow> bytes \<Rightarrow> bytes \<Rightarrow> bytes \<Rightarrow> bytes option" where
  "chacha20_poly1305_decrypt key nonce ciphertext aad tag =
     (if tag_diff tag (expected_tag key nonce ciphertext aad) \<noteq> 0 then None
      else Some (chacha20_crypt key 1 nonce ciphertext))"

text \<open>In place: the buffer and the tag, or the result and the buffer.\<close>

definition chacha20_poly1305_encrypt_inplace :: "bytes \<Rightarrow> bytes \<Rightarrow> bytes \<Rightarrow> bytes \<Rightarrow> bytes \<times> bytes" where
  "chacha20_poly1305_encrypt_inplace key nonce buf aad =
     (let poly_key = take 32 (chacha20_block key 0 nonce);
          st = poly1305_init64 poly_key;
          st = poly1305_feed64 st aad;
          data_len = length buf;
          (buf, st) = chacha20_crypt_feed_poly key nonce (\<lambda>out. out) buf st;
          st = poly1305_feed64 st (lenblock (length aad) data_len)
      in (buf, poly1305_finish3 (st_h st) poly_key))"

definition chacha20_poly1305_decrypt_inplace :: "bytes \<Rightarrow> bytes \<Rightarrow> bytes \<Rightarrow> bytes \<Rightarrow> bytes \<Rightarrow> bool \<times> bytes" where
  "chacha20_poly1305_decrypt_inplace key nonce buf aad tag =
     (if tag_diff tag (expected_tag key nonce buf aad) \<noteq> 0 then (False, buf)
      else (True, chacha20_crypt key 1 nonce buf))"

section \<open>One pass\<close>

lemma zero_padded_append:
  "16 dvd length a \<Longrightarrow> zero_padded_blocks (a @ b) = zero_padded_blocks a @ zero_padded_blocks b"
proof (induction a rule: zero_padded_blocks.induct)
  case (1 a)
  show ?case
  proof (cases "a = []")
    case False
    then have len: "16 \<le> length a" using 1(2) by (cases "length a") (auto dest: dvd_imp_le)
    then have "16 dvd length (drop 16 a)" using 1(2) by (simp add: dvd_diff_nat)
    from 1(1) [OF False this] show ?thesis
      using False len zero_padded_step [of "a @ b"] zero_padded_step [of a] by simp
  qed simp
qed

text \<open>What the pipeline needs of its input span: a write leaves what comes after it.\<close>

locale input_span =
  fixes src :: "bytes \<Rightarrow> bytes"
  assumes later: "p + length x \<le> length out \<Longrightarrow> length out = length (src out) \<Longrightarrow>
      drop (p + length x) (src (memcpy_at out p x)) = drop (p + length x) (src out)"
    and same_length: "p + length x \<le> length out \<Longrightarrow> length out = length (src out) \<Longrightarrow>
      length (src (memcpy_at out p x)) = length (src out)"
begin

text \<open>At \<open>pos\<close>: the first bytes of the output are ciphertext, the input from there on is untouched.\<close>

definition done_to :: "bytes \<Rightarrow> bytes \<Rightarrow> bytes \<Rightarrow> nat \<Rightarrow> bytes \<Rightarrow> bool" where
  "done_to key nonce input pos out \<longleftrightarrow> 64 dvd pos \<and> pos \<le> length input
     \<and> length out = length input \<and> length (src out) = length input
     \<and> drop pos (src out) = drop pos input
     \<and> take pos out = chacha20_crypt key 1 nonce (take pos input)"

lemma gen_step:
  assumes "done_to key nonce input pos out" "pos + len \<le> length input"
  shows "take (pos + len) (gen key nonce src pos len out) = chacha20_crypt key 1 nonce (take (pos + len) input)"
    and "take pos (gen key nonce src pos len out) = take pos out"
    and "64 dvd len \<Longrightarrow> done_to key nonce input (pos + len) (gen key nonce src pos len out)"
    and "length (gen key nonce src pos len out) = length input"
proof -
  from assms(1) have d: "64 dvd pos" "pos \<le> length input" "length out = length input" "length (src out) = length input"
    "drop pos (src out) = drop pos input" "take pos out = chacha20_crypt key 1 nonce (take pos input)"
    by (simp_all add: done_to_def)
  define x where "x = chacha20_crypt key (1 + word_of_nat (pos div 64)) nonce (take len (drop pos input))"
  have g: "gen key nonce src pos len out = memcpy_at out pos x" by (simp add: gen_def x_def d(5))
  have lx: "length x = len" using assms(2) by (simp add: x_def)
  have fits: "pos + length x \<le> length out" using assms(2) d(3) lx by simp
  then show len_g: "length (gen key nonce src pos len out) = length input" using d(3) by (simp add: g)
  have "take (pos + len) (gen key nonce src pos len out) = take pos out @ x"
    using take_memcpy_at [OF fits] by (simp add: g lx)
  also have "\<dots> = chacha20_crypt key 1 nonce (take pos input @ take len (drop pos input))"
    using chacha20_crypt_append [of "take pos input" "pos div 64"] d(1,2) by (simp add: d(6) x_def)
  finally show t: "take (pos + len) (gen key nonce src pos len out) = chacha20_crypt key 1 nonce (take (pos + len) input)"
    by (simp add: take_add)
  show "take pos (gen key nonce src pos len out) = take pos out"
    using fits by (simp add: g memcpy_at_def)
  have sl: "length (src (gen key nonce src pos len out)) = length input"
    using same_length [OF fits] d(3,4) by (simp add: g)
  have "drop (pos + len) (src (gen key nonce src pos len out)) = drop (pos + len) (src out)"
    using later [OF fits] d(3,4) by (simp add: g lx)
  also have "\<dots> = drop (pos + len) input" using arg_cong [OF d(5), of "drop len"] by (simp add: add.commute)
  finally show "64 dvd len \<Longrightarrow> done_to key nonce input (pos + len) (gen key nonce src pos len out)"
    using d(1) assms(2) len_g sl t by (simp add: done_to_def)
qed

lemma pipeline_holds:
  assumes "done_to key nonce input pos out" "CH dvd pos" "CH \<le> pos"
    and "st_holds r (acc r a (zero_padded_blocks (take (pos - CH) out))) st"
    and "pipeline key nonce src (length input) pos out st = (pos', out', st')"
  shows "done_to key nonce input pos' out' \<and> CH dvd pos' \<and> CH \<le> pos' \<and> length input < pos' + CH
     \<and> st_holds r (acc r a (zero_padded_blocks (take (pos' - CH) out'))) st'"
  using assms
proof (induction "length input - pos" arbitrary: pos out st rule: less_induct)
  case less
  show ?case
  proof (cases "pos + CH \<le> length input")
    case False
    with less.prems show ?thesis by (simp add: pipeline.simps)
  next
    case True
    let ?out = "gen key nonce src pos CH out"
    let ?st = "poly1305_feed64 st (take CH (drop (pos - CH) ?out))"
    note g = gen_step [OF less.prems(1) True]
    have "64 dvd CH" by (simp add: CH_def)
    then have d: "done_to key nonce input (pos + CH) ?out" by (rule g(3))
    have p: "pipeline key nonce src (length input) (pos + CH) ?out ?st = (pos', out', st')"
      using less.prems(5) True by (simp add: pipeline.simps [of key nonce src "length input" pos out st] Let_def)
    have eq: "take (pos - CH) ?out = take (pos - CH) out"
      using g(2) by (metis diff_le_self min_absorb1 take_take)
    have "take pos ?out = take (pos - CH) ?out @ take CH (drop (pos - CH) ?out)"
      using less.prems(3) by (metis le_add_diff_inverse2 take_add)
    moreover have "16 dvd length (take (pos - CH) ?out)"
    proof -
      have "16 dvd CH" by (simp add: CH_def)
      then have "16 dvd pos - CH" using less.prems(2) by (intro dvd_diff_nat) (auto intro: dvd_trans)
      then show ?thesis using True g(4) by (simp add: min_absorb2)
    qed
    ultimately have "zero_padded_blocks (take pos ?out)
        = zero_padded_blocks (take (pos - CH) out) @ zero_padded_blocks (take CH (drop (pos - CH) ?out))"
      by (simp add: zero_padded_append eq)
    then have "st_holds r (acc r a (zero_padded_blocks (take (pos + CH - CH) ?out))) ?st"
      using feed_holds [OF less.prems(4), of "take CH (drop (pos - CH) ?out)"] by (simp add: acc_append)
    moreover have "length input - (pos + CH) < length input - pos" using True by (simp add: CH_def)
    ultimately show ?thesis using less.hyps [OF _ d _ _ _ p] less.prems(2,3) by simp
  qed
qed

lemma feed_poly_holds:
  assumes "length out = length (src out)" "st_holds r a st"
  defines "input \<equiv> src out"
  shows "fst (chacha20_crypt_feed_poly key nonce src out st) = chacha20_crypt key 1 nonce input"
    and "st_holds r (acc r a (zero_padded_blocks (chacha20_crypt key 1 nonce input)))
           (snd (chacha20_crypt_feed_poly key nonce src out st))"
proof -
  let ?n = "length input" and ?c = "chacha20_crypt key 1 nonce input"
  have start: "done_to key nonce input 0 out" using assms(1) by (simp add: done_to_def input_def chacha20_crypt.simps)
  obtain pos out1 st1 where p: "(if CH \<le> ?n then pipeline key nonce src ?n CH (gen key nonce src 0 CH out) st
      else (0, out, st)) = (pos, out1, st1)" by (metis prod_cases3)
  define st2 where "st2 = (if CH \<le> pos then poly1305_feed64 st1 (take CH (drop (pos - CH) out1)) else st1)"
  have mid: "done_to key nonce input pos out1" "16 dvd pos" "st_holds r (acc r a (zero_padded_blocks (take pos out1))) st2"
  proof (atomize (full), cases "CH \<le> ?n")
    case False
    with p have "pos = 0" "out1 = out" "st1 = st" by auto
    with start assms(2) show "done_to key nonce input pos out1 \<and> 16 dvd pos
        \<and> st_holds r (acc r a (zero_padded_blocks (take pos out1))) st2"
      by (simp add: st2_def CH_def acc_def)
  next
    case True
    have g: "done_to key nonce input CH (gen key nonce src 0 CH out)"
      using gen_step(3) [OF start, of CH] True by (simp add: CH_def)
    have z: "st_holds r (acc r a (zero_padded_blocks (take (CH - CH) (gen key nonce src 0 CH out)))) st"
      using assms(2) by (simp add: acc_def)
    have "pipeline key nonce src ?n CH (gen key nonce src 0 CH out) st = (pos, out1, st1)" using p True by simp
    from pipeline_holds [OF g _ _ z this] have h: "done_to key nonce input pos out1" "CH dvd pos" "CH \<le> pos"
      "st_holds r (acc r a (zero_padded_blocks (take (pos - CH) out1))) st1" by auto
    have d16: "16 dvd CH" by (simp add: CH_def)
    then have "16 dvd pos" "16 dvd pos - CH" using h(2) by (auto intro: dvd_trans dvd_diff_nat)
    moreover have "take pos out1 = take (pos - CH) out1 @ take CH (drop (pos - CH) out1)"
      using h(3) by (metis le_add_diff_inverse2 take_add)
    moreover have "length (take (pos - CH) out1) = pos - CH" using h(1) by (auto simp: done_to_def)
    ultimately have "st_holds r (acc r a (zero_padded_blocks (take pos out1))) st2"
      using feed_holds [OF h(4), of "take CH (drop (pos - CH) out1)"] h(3)
      by (simp add: st2_def zero_padded_append acc_append)
    with h(1) \<open>16 dvd pos\<close> show "done_to key nonce input pos out1 \<and> 16 dvd pos
        \<and> st_holds r (acc r a (zero_padded_blocks (take pos out1))) st2" by blast
  qed
  have eq: "chacha20_crypt_feed_poly key nonce src out st
      = (if pos < ?n then (gen key nonce src pos (?n - pos) out1,
             poly1305_feed64 st2 (take (?n - pos) (drop pos (gen key nonce src pos (?n - pos) out1))))
         else (out1, st2))"
    using p unfolding chacha20_crypt_feed_poly_def input_def [symmetric] st2_def
    by (cases "CH \<le> ?n") (simp_all add: Let_def)
  have bounds: "pos \<le> ?n" "length out1 = ?n" "take pos out1 = chacha20_crypt key 1 nonce (take pos input)"
    using mid(1) by (simp_all add: done_to_def)
  have "fst (chacha20_crypt_feed_poly key nonce src out st) = ?c
     \<and> st_holds r (acc r a (zero_padded_blocks ?c)) (snd (chacha20_crypt_feed_poly key nonce src out st))"
  proof (cases "pos < ?n")
    case False
    then have "out1 = ?c" using bounds by simp
    with False mid(3) bounds show ?thesis by (simp add: eq)
  next
    case True
    let ?out = "gen key nonce src pos (?n - pos) out1"
    note g = gen_step [OF mid(1), of "?n - pos"]
    have out: "?out = ?c" using g(1,4) bounds(1) by simp
    have "?c = take pos out1 @ take (?n - pos) (drop pos ?out)"
      using g(2) bounds(1) by (metis append_take_drop_id le_add_diff_inverse out length_chacha20_crypt take_add take_all_iff le_refl)
    then have "zero_padded_blocks ?c = zero_padded_blocks (take pos out1) @ zero_padded_blocks (take (?n - pos) (drop pos ?out))"
      using zero_padded_append [of "take pos out1"] mid(2) bounds by simp
    then show ?thesis using feed_holds [OF mid(3), of "take (?n - pos) (drop pos ?out)"] True
      by (simp add: eq out acc_append)
  qed
  then show "fst (chacha20_crypt_feed_poly key nonce src out st) = ?c"
    "st_holds r (acc r a (zero_padded_blocks ?c)) (snd (chacha20_crypt_feed_poly key nonce src out st))" by simp_all
qed

end

interpretation separate: input_span "\<lambda>_. plaintext" for plaintext :: bytes
  by unfold_locales simp_all

interpretation inplace: input_span "\<lambda>out. out"
  by unfold_locales (simp_all add: memcpy_at_def)

section \<open>Section 2.8 of RFC 8439\<close>

definition pad16 :: "bytes \<Rightarrow> bytes" where
  "pad16 x = x @ replicate ((16 - length x mod 16) mod 16) 0"

definition rfc_mac_data :: "bytes \<Rightarrow> bytes \<Rightarrow> bytes" where
  "rfc_mac_data aad ct = pad16 aad @ pad16 ct @ le_bytes 8 (length aad) @ le_bytes 8 (length ct)"

definition rfc_tag :: "bytes \<Rightarrow> bytes \<Rightarrow> bytes \<Rightarrow> bytes \<Rightarrow> bytes" where
  "rfc_tag key nonce aad ct = rfc_poly1305 (take 32 (chacha20_block key 0 nonce)) (rfc_mac_data aad ct)"

lemma rfc_blocks_append:
  "16 dvd length a \<Longrightarrow> rfc_blocks (a @ b) = rfc_blocks a @ rfc_blocks b"
proof (induction a rule: rfc_blocks.induct)
  case (1 a)
  show ?case
  proof (cases "a = []")
    case False
    then have len: "16 \<le> length a" using 1(2) by (cases "length a") (auto dest: dvd_imp_le)
    then have "16 dvd length (drop 16 a)" using 1(2) by (simp add: dvd_diff_nat)
    from 1(1) [OF False this] show ?thesis
      using False len rfc_step [of "a @ b"] rfc_step [of a] by simp
  qed simp
qed

lemma dvd_pad16: "16 dvd length (pad16 x)"
proof -
  have "(n + (16 - n mod 16) mod 16) mod 16 = 0" for n :: nat
  proof -
    have "(n + (16 - n mod 16) mod 16) mod 16 = (n mod 16 + (16 - n mod 16)) mod 16" by (simp only: mod_add_eq mod_add_left_eq mod_add_right_eq)
    also have "n mod 16 + (16 - n mod 16) = 16" using mod_less_divisor [of 16 n] by linarith
    finally show ?thesis by simp
  qed
  then show ?thesis unfolding pad16_def length_append length_replicate by (rule mod_0_imp_dvd)
qed

lemma zero_padded_rfc: "zero_padded_blocks x = rfc_blocks (pad16 x)"
proof (induction x rule: zero_padded_blocks.induct)
  case (1 x)
  show ?case
  proof (cases "x = []")
    case True
    then show ?thesis by (simp add: pad16_def)
  next
    case False
    show ?thesis
    proof (cases "16 \<le> length x")
      case True
      then have "(length x - 16) mod 16 = length x mod 16" by (simp add: le_mod_geq)
      then have "pad16 x = take 16 x @ pad16 (drop 16 x)" by (simp add: pad16_def)
      then have "rfc_blocks (pad16 x) = rfc_blocks (take 16 x) @ rfc_blocks (pad16 (drop 16 x))"
        using rfc_blocks_append [of "take 16 x"] True by simp
      moreover have "rfc_blocks (take 16 x) = [le_val (take 16 x) + 2 ^ 128]"
        using rfc_step [of "take 16 x"] False full_block [OF True] True by simp
      ultimately show ?thesis using 1 [OF False] zero_padded_step [OF False] by simp
    next
      case short: False
      then have "length (pad16 x) = 16" using False by (cases "length x") (auto simp: pad16_def)
      moreover have "le_val (pad16 x) = le_val x" by (simp add: pad16_def le_val_append)
      moreover have "pad16 x \<noteq> []" using False by (simp add: pad16_def)
      ultimately have "rfc_blocks (pad16 x) = [le_val x + 2 ^ 128]"
        using rfc_step [of "pad16 x"] full_block [of "pad16 x"] by simp
      then show ?thesis using short False zero_padded_step [OF False] by simp
    qed
  qed
qed

lemma lenblock_bytes: "lenblock a c = le_bytes 8 a @ le_bytes 8 c"
proof -
  have "le_bytes 8 (unat (word_of_nat n :: u64)) = le_bytes 8 n" for n
    using le_bytes_mod [of 8 n] by (simp add: unat_of_nat)
  then show ?thesis by (simp add: lenblock_def poly_store64_bytes)
qed

text \<open>Any state fed with both parts and the lengths gives the tag of the RFC.\<close>

lemma finish_tag:
  assumes "st_holds (key_r (take 32 (chacha20_block key 0 nonce)))
      (acc (key_r (take 32 (chacha20_block key 0 nonce))) 0 (zero_padded_blocks aad @ zero_padded_blocks ct)) st"
  shows "poly1305_finish3 (st_h (poly1305_feed64 st (lenblock (length aad) (length ct)))) (take 32 (chacha20_block key 0 nonce))
    = rfc_tag key nonce aad ct"
proof -
  let ?k = "take 32 (chacha20_block key 0 nonce)"
  let ?st = "poly1305_feed64 st (lenblock (length aad) (length ct))"
  have len: "length ?k = 32" by simp
  have blocks: "zero_padded_blocks aad @ zero_padded_blocks ct @ zero_padded_blocks (lenblock (length aad) (length ct))
      = rfc_blocks (rfc_mac_data aad ct)"
  proof -
    have "pad16 (lenblock (length aad) (length ct)) = lenblock (length aad) (length ct)"
      by (simp add: pad16_def lenblock_bytes)
    then show ?thesis
      by (simp only: zero_padded_rfc rfc_mac_data_def rfc_blocks_append dvd_pad16 lenblock_bytes)
  qed
  have h: "st_holds (key_r ?k) (acc (key_r ?k) 0 (rfc_blocks (rfc_mac_data aad ct))) ?st"
    using feed_holds [OF assms, of "lenblock (length aad) (length ct)"] blocks by (simp flip: acc_append)
  then have red: "reduced (st_h ?st)"
    and v: "limbs_val (st_h ?st) mod polyP = acc (key_r ?k) 0 (rfc_blocks (rfc_mac_data aad ct)) mod polyP"
    by (simp_all add: st_holds_def)
  have m: "acc r 0 ms mod polyP = acc r 0 ms" for r ms
    by (cases ms rule: rev_cases) (simp_all add: acc_def horner_def)
  have "horner (key_r ?k) = (\<lambda>a n. (a + n) * rfc_r ?k mod (2 ^ 130 - 5))"
    using key_r_rfc [of ?k] len by (simp add: horner_def polyP_def fun_eq_iff)
  then show ?thesis
    unfolding finish3_val [OF red len] v m by (simp only: rfc_tag_def rfc_poly1305_def acc_def)
qed

lemma start_holds:
  "st_holds (key_r (take 32 (chacha20_block key 0 nonce))) (acc (key_r (take 32 (chacha20_block key 0 nonce))) 0 (zero_padded_blocks aad))
     (poly1305_feed64 (poly1305_init64 (take 32 (chacha20_block key 0 nonce))) aad)"
  by (rule feed_holds, rule init_holds) simp

lemma expected_tag_rfc: "expected_tag key nonce ct aad = rfc_tag key nonce aad ct"
  unfolding expected_tag_def Let_def
  by (rule finish_tag) (simp only: acc_append feed_holds start_holds)

lemma encrypt_rfc:
  "chacha20_poly1305_encrypt key nonce plaintext aad
   = (chacha20_crypt key 1 nonce plaintext, rfc_tag key nonce aad (chacha20_crypt key 1 nonce plaintext))"
proof -
  let ?k = "take 32 (chacha20_block key 0 nonce)" and ?c = "chacha20_crypt key 1 nonce plaintext"
  obtain ct st where r: "chacha20_crypt_feed_poly key nonce (\<lambda>_. plaintext) (replicate (length plaintext) 0)
      (poly1305_feed64 (poly1305_init64 ?k) aad) = (ct, st)" by fastforce
  have "length (replicate (length plaintext) (0 :: u8)) = length plaintext" by simp
  from separate.feed_poly_holds [OF this start_holds [of key nonce aad], of key nonce] r
  have "ct = ?c" "st_holds (key_r ?k) (acc (key_r ?k) 0 (zero_padded_blocks aad @ zero_padded_blocks ?c)) st"
    by (simp_all add: acc_append)
  with finish_tag [OF this(2)] r show ?thesis by (simp add: chacha20_poly1305_encrypt_def Let_def)
qed

lemma encrypt_inplace_rfc:
  "chacha20_poly1305_encrypt_inplace key nonce buf aad = chacha20_poly1305_encrypt key nonce buf aad"
proof -
  let ?k = "take 32 (chacha20_block key 0 nonce)" and ?c = "chacha20_crypt key 1 nonce buf"
  obtain ct st where r: "chacha20_crypt_feed_poly key nonce (\<lambda>out. out) buf
      (poly1305_feed64 (poly1305_init64 ?k) aad) = (ct, st)" by fastforce
  from inplace.feed_poly_holds [of buf, OF refl start_holds [of key nonce aad], of key nonce] r
  have "ct = ?c" "st_holds (key_r ?k) (acc (key_r ?k) 0 (zero_padded_blocks aad @ zero_padded_blocks ?c)) st"
    by (simp_all add: acc_append)
  with finish_tag [OF this(2)] r show ?thesis by (simp add: chacha20_poly1305_encrypt_inplace_def encrypt_rfc Let_def)
qed

section \<open>The comparison of tags\<close>

lemma or0: "x OR y = 0 \<longleftrightarrow> x = 0 \<and> y = (0 :: 'a::len word)"
  by (metis or_eq_0_iff)

lemma xor0: "x XOR y = 0 \<longleftrightarrow> x = (y :: 'a::len word)"
proof
  assume "x XOR y = 0"
  then have "(x XOR y) XOR y = 0 XOR y" by (rule arg_cong)
  then show "x = y" by (simp add: xor.assoc)
qed simp

lemma foldl_or_xor: "foldl (\<lambda>d i. d OR (a i XOR b i)) x is = 0 \<longleftrightarrow> x = 0 \<and> (\<forall>i\<in>set is. a i = (b i :: u8))"
  by (induction "is" arbitrary: x) (simp_all add: or0 xor0 conj_assoc)

lemma length_rfc_tag [simp]: "length (rfc_tag key nonce aad ct) = 16"
  by (simp add: rfc_tag_def rfc_poly1305_def)

lemma tag_diff_0: "length tag = 16 \<Longrightarrow> length e = 16 \<Longrightarrow> tag_diff tag e = 0 \<longleftrightarrow> tag = e"
  unfolding tag_diff_def foldl_or_xor by (auto intro: nth_equalityI)

lemma decrypt_iff:
  assumes "length tag = 16"
  shows "chacha20_poly1305_decrypt key nonce ct aad tag
    = (if tag = rfc_tag key nonce aad ct then Some (chacha20_crypt key 1 nonce ct) else None)"
  using assms by (simp add: chacha20_poly1305_decrypt_def expected_tag_rfc tag_diff_0)

lemma decrypt_encrypt:
  assumes "chacha20_poly1305_encrypt key nonce pt aad = (ct, tag)"
  shows "chacha20_poly1305_decrypt key nonce ct aad tag = Some pt"
  using assms by (auto simp: encrypt_rfc decrypt_iff chacha20_crypt_involution)

lemma decrypt_inplace_eq:
  "chacha20_poly1305_decrypt_inplace key nonce buf aad tag
   = (case chacha20_poly1305_decrypt key nonce buf aad tag of None \<Rightarrow> (False, buf) | Some pt \<Rightarrow> (True, pt))"
  by (simp add: chacha20_poly1305_decrypt_inplace_def chacha20_poly1305_decrypt_def)

section \<open>Properties\<close>

text \<open>
  C13. The three-limb authenticator \<open>poly1305_mac\<close>, which processes four blocks at a time with precomputed powers of
  the key and folds carries by masks, is the Poly1305 of RFC 8439: the polynomial in the clamped key modulo
  \<open>2 ^ 130 - 5\<close>, plus the second half of the key, modulo \<open>2 ^ 128\<close>. No intermediate word overflows.
\<close>

theorem poly1305_is_rfc8439:
  assumes "length key = 32"
  shows "poly1305_mac key msg
    = le_bytes 16 (foldl (\<lambda>a n. (a + n) * rfc_r key mod (2 ^ 130 - 5)) 0 (rfc_blocks msg) + le_val (drop 16 key))"
  using poly1305_mac_rfc [OF assms] by (simp only: rfc_poly1305_def)

theorem poly1305_is_rfc8439_witness:
  "poly1305_mac (replicate 32 7) (ascii ''Cryptographic Forum Research Group'')
    = le_bytes 16 (foldl (\<lambda>a n. (a + n) * rfc_r (replicate 32 7) mod (2 ^ 130 - 5)) 0
        (rfc_blocks (ascii ''Cryptographic Forum Research Group'')) + le_val (replicate 16 7))"
  using poly1305_is_rfc8439 [of "replicate 32 7" "ascii ''Cryptographic Forum Research Group''"] by simp

text \<open>
  C14. \<open>chacha20_poly1305_encrypt\<close>, which encrypts in chunks of 4096 bytes and authenticates each one a chunk late,
  gives for every key, nonce, message and additional data the ciphertext and the tag of RFC 8439, section 2.8; the
  in-place form gives the same although it reads the message from the buffer it overwrites.
\<close>

theorem aead_encrypt_is_rfc8439:
  "chacha20_poly1305_encrypt key nonce plaintext aad
     = (map (\<lambda>i. plaintext ! i XOR chacha20_block key (1 + word_of_nat (i div 64)) nonce ! (i mod 64)) [0..<length plaintext],
        rfc_poly1305 (take 32 (chacha20_block key 0 nonce))
          (pad16 aad @ pad16 (fst (chacha20_poly1305_encrypt key nonce plaintext aad))
           @ le_bytes 8 (length aad) @ le_bytes 8 (length plaintext)))
   \<and> chacha20_poly1305_encrypt_inplace key nonce plaintext aad = chacha20_poly1305_encrypt key nonce plaintext aad"
  by (simp add: encrypt_rfc encrypt_inplace_rfc rfc_tag_def rfc_mac_data_def)
    (simp add: chacha20_crypt_keystream keystream_byte_def)

text \<open>
  C15. Decryption accepts a ciphertext with a tag of 16 bytes, and returns a plaintext, exactly when encryption of that
  plaintext gives that ciphertext and tag; in place, a refused buffer is left as it was.
\<close>

theorem aead_decrypt_iff:
  assumes "length tag = 16"
  shows "(chacha20_poly1305_decrypt key nonce ct aad tag = Some pt
            \<longleftrightarrow> chacha20_poly1305_encrypt key nonce pt aad = (ct, tag))
    \<and> chacha20_poly1305_decrypt_inplace key nonce ct aad tag
        = (case chacha20_poly1305_decrypt key nonce ct aad tag of None \<Rightarrow> (False, ct) | Some pt \<Rightarrow> (True, pt))"
  using assms by (auto simp: decrypt_iff encrypt_rfc chacha20_crypt_involution decrypt_inplace_eq)

theorem aead_decrypt_iff_witness:
  "\<exists>tag. length tag = 16 \<and> chacha20_poly1305_encrypt [] [] (ascii ''attack'') [1] = (chacha20_crypt [] 1 [] (ascii ''attack''), tag)
    \<and> chacha20_poly1305_decrypt [] [] (chacha20_crypt [] 1 [] (ascii ''attack'')) [1] tag = Some (ascii ''attack'')"
  using aead_decrypt_iff [of "rfc_tag [] [] [1] (chacha20_crypt [] 1 [] (ascii ''attack''))" "[]" "[]"
      "chacha20_crypt [] 1 [] (ascii ''attack'')" "[1]" "ascii ''attack''"]
  by (intro exI [of _ "rfc_tag [] [] [1] (chacha20_crypt [] 1 [] (ascii ''attack''))"]) (simp add: encrypt_rfc)

text \<open>
  The 32-bit counter wraps without a check: from byte \<open>64 (2 ^ 32 - 1)\<close> of a message on, encryption uses first
  block 0, whose first half is the one-time key of the authenticator, and then the keystream of the beginning again.
\<close>

theorem keystream_wraps:
  assumes "64 * 2 ^ 32 + 64 \<le> length plaintext" "i < 64"
  shows "fst (chacha20_poly1305_encrypt key nonce plaintext aad) ! (64 * (2 ^ 32 - 1) + i)
      = plaintext ! (64 * (2 ^ 32 - 1) + i) XOR chacha20_block key 0 nonce ! i
    \<and> fst (chacha20_poly1305_encrypt key nonce plaintext aad) ! (64 * 2 ^ 32 + i)
        XOR fst (chacha20_poly1305_encrypt key nonce plaintext aad) ! i
      = plaintext ! (64 * 2 ^ 32 + i) XOR plaintext ! i"
proof
  have wrap: "(word_of_nat (2 ^ 32) :: u32) = 0" by simp
  have zero: "(4294967296 :: u32) = 0" by simp
  show "fst (chacha20_poly1305_encrypt key nonce plaintext aad) ! (64 * (2 ^ 32 - 1) + i)
      = plaintext ! (64 * (2 ^ 32 - 1) + i) XOR chacha20_block key 0 nonce ! i"
    using assms keystream_skip [of key 1 nonce "2 ^ 32 - 1" i]
    by (simp add: encrypt_rfc chacha20_crypt_keystream keystream_byte_def zero)
  have rep: "keystream_byte key 1 nonce (64 * 2 ^ 32 + i) = keystream_byte key 1 nonce i"
    using keystream_skip [of key 1 nonce "2 ^ 32" i] by (simp only: wrap add_0_right)
  have "(x XOR k) XOR (y XOR k) = x XOR y" for x y k :: u8
    by (simp add: xor.assoc xor.left_commute xor.commute)
  moreover have "64 * 2 ^ 32 + i < length plaintext" "i < length plaintext" using assms by simp_all
  ultimately show "fst (chacha20_poly1305_encrypt key nonce plaintext aad) ! (64 * 2 ^ 32 + i)
        XOR fst (chacha20_poly1305_encrypt key nonce plaintext aad) ! i
      = plaintext ! (64 * 2 ^ 32 + i) XOR plaintext ! i"
    unfolding encrypt_rfc fst_conv chacha20_crypt_keystream by (simp only: nth_map length_upt minus_nat.diff_0 nth_upt add_0_left rep)
qed

theorem keystream_wraps_witness:
  "fst (chacha20_poly1305_encrypt [] [] (replicate (64 * 2 ^ 32 + 64) 5) []) ! (64 * (2 ^ 32 - 1) + 5)
    = 5 XOR chacha20_block [] 0 [] ! 5"
  using keystream_wraps [of "replicate (64 * 2 ^ 32 + 64) 5" 5 "[]" "[]" "[]"] by (simp add: nth_replicate)

end
