(* ===== verification/DtlsRecord.thy ===== *)
theory DtlsRecord
  imports ChaChaPoly Hkdf TlsCert
begin

text \<open>
  DTLS 1.2 and 1.3, \<open>src/src/dtls.cpp\<close>: the session state of \<open>include/dtls.hpp\<close>, the key schedules and the
  record layers. ChaCha20-Poly1305, HMAC, HKDF, the hashes and the signature schemes are the ones of the development; AES
  and the curves are fields of \<open>dtls_env\<close>.

  \<open>os_random\<close>, a field the C++ session does not have, holds the bytes the operating system's generator will
  return; when they run out \<open>rand_bytes\<close> gives zeros, as it does when the generator fails. \<open>stack12\<close> is what
  an uninitialised array of twelve bytes holds.
\<close>

section \<open>Parameters and state\<close>

record dtls_env =
  aes_gcm_seal :: "bytes \<Rightarrow> bytes \<Rightarrow> bytes \<Rightarrow> bytes \<Rightarrow> bytes \<times> bytes"
  aes_gcm_open :: "bytes \<Rightarrow> bytes \<Rightarrow> bytes \<Rightarrow> bytes \<Rightarrow> bytes \<Rightarrow> bytes option"
  aes_encrypt_block :: "bytes \<Rightarrow> bytes \<Rightarrow> bytes"
  x448_mult :: "bytes \<Rightarrow> bytes \<Rightarrow> bytes"
  x25519_mult :: "bytes \<Rightarrow> bytes \<Rightarrow> bytes"
  p256_ecdh :: "bytes \<Rightarrow> bytes \<Rightarrow> bytes option"
  keygen :: "u16 \<Rightarrow> bytes \<Rightarrow> bytes \<times> bytes \<times> bytes"
  make_x509_self_signed :: "tls_certificate \<Rightarrow> bytes"
  stack12 :: bytes

text \<open>
  Arguments: the AEAD takes key, nonce, additional data and text (\<open>aes_gcm_open\<close> then the tag); the curves the
  private and the peer's public key; \<open>keygen\<close> the group and the random bytes, and gives private and public key and the
  random bytes it leaves.
\<close>

datatype DTLSVersion = V12 | V13

datatype DtlsClientPhase = Idle | ChSent | HvrReceived | FlightSent | Done
datatype DtlsServerPhase = SIdle | HvrSent | HelloOk | SDone

record dtls_session =
  ver :: DTLSVersion
  is_server :: bool
  server_name :: bytes
  cipher_suite :: u16
  ks_group :: u16
  sig_algs :: "u16 list"
  client_random :: bytes
  server_random :: bytes
  client_write_key :: bytes
  server_write_key :: bytes
  client_write_iv :: bytes
  server_write_iv :: bytes
  key_len :: nat
  iv_len :: nat
  master_secret :: bytes
  handshake_secret :: bytes
  client_hs_traffic :: bytes
  server_hs_traffic :: bytes
  client_app_traffic :: bytes
  server_app_traffic :: bytes
  ks_priv :: bytes
  ks_pub :: bytes
  ks_pub_len :: u8
  send_epoch :: u16
  recv_epoch :: u16
  send_seq :: u64
  recv_seq :: u64
  send_msg_seq :: u16
  recv_msg_seq :: u16
  client_phase :: DtlsClientPhase
  server_phase :: DtlsServerPhase
  cookie :: bytes
  cookie_secret :: bytes
  reassembly_buf :: bytes
  reassembly_received :: "bool list"
  reassembly_remaining :: nat
  reassembly_msg_seq :: u16
  reassembly_total_len :: u32
  received_records :: "(u64 \<times> u64) list"
  last_sent :: bytes
  transcript_buf :: bytes
  transcript_hash :: bytes
  selected_sig_alg :: u16
  handshake_done :: bool
  server_finished_received :: bool
  require_cookie :: bool
  retransmit_requested :: bool
  have_server_cert :: bool
  server_chain :: "x509_cert list"
  server_cert_parsed :: "tls_certificate option"
  os_random :: bytes

definition dtls_session_default :: "bytes \<Rightarrow> dtls_session" where
  "dtls_session_default random =
     \<lparr>ver = V12, is_server = False, server_name = [], cipher_suite = 0x1301, ks_group = 0x001d, sig_algs = [],
      client_random = replicate 32 0, server_random = replicate 32 0,
      client_write_key = replicate 32 0, server_write_key = replicate 32 0,
      client_write_iv = replicate 16 0, server_write_iv = replicate 16 0, key_len = 0, iv_len = 0,
      master_secret = replicate 48 0, handshake_secret = replicate 48 0,
      client_hs_traffic = replicate 48 0, server_hs_traffic = replicate 48 0,
      client_app_traffic = replicate 48 0, server_app_traffic = replicate 48 0,
      ks_priv = replicate 56 0, ks_pub = replicate 96 0, ks_pub_len = 0,
      send_epoch = 0, recv_epoch = 0, send_seq = 0, recv_seq = 0, send_msg_seq = 0, recv_msg_seq = 0,
      client_phase = Idle, server_phase = SIdle, cookie = [], cookie_secret = [],
      reassembly_buf = [], reassembly_received = [], reassembly_remaining = 0, reassembly_msg_seq = 0,
      reassembly_total_len = 0, received_records = [], last_sent = [], transcript_buf = [],
      transcript_hash = replicate 48 0, selected_sig_alg = 0, handshake_done = False,
      server_finished_received = False, require_cookie = False, retransmit_requested = False,
      have_server_cert = False, server_chain = [], server_cert_parsed = None, os_random = random\<rparr>"

section \<open>Basic helpers\<close>

definition rand_bytes :: "nat \<Rightarrow> dtls_session \<Rightarrow> bytes \<times> dtls_session" where
  "rand_bytes n s =
     (if n \<le> length (os_random s) then (take n (os_random s), s\<lparr>os_random := drop n (os_random s)\<rparr>)
      else (replicate n 0, s\<lparr>os_random := []\<rparr>))"

definition put16 :: "u16 \<Rightarrow> bytes" where
  "put16 x = [ucast (drop_bit 8 x), ucast x]"

definition put24 :: "u32 \<Rightarrow> bytes" where
  "put24 x = [ucast (drop_bit 16 x), ucast (drop_bit 8 x), ucast x]"

definition put64 :: "u64 \<Rightarrow> bytes" where
  "put64 x = map (\<lambda>i. ucast (drop_bit (8 * i) x)) (rev [0..<8])"

definition get16 :: "bytes \<Rightarrow> nat \<Rightarrow> u16" where
  "get16 p i = push_bit 8 (ucast (p ! i)) OR ucast (p ! (i + 1))"

definition get24 :: "bytes \<Rightarrow> nat \<Rightarrow> u32" where
  "get24 p i = push_bit 16 (ucast (p ! i)) OR push_bit 8 (ucast (p ! (i + 1))) OR ucast (p ! (i + 2))"

definition get48 :: "bytes \<Rightarrow> nat \<Rightarrow> u64" where
  "get48 p i = foldl (\<lambda>v b. push_bit 8 v OR ucast b) 0 (take 6 (drop i p))"

section \<open>Cipher suites\<close>

text \<open>The numbers are those of \<open>enum class CipherSuite\<close> in \<open>include/tls.hpp\<close>.\<close>

definition tls_use_sha384 :: "u16 \<Rightarrow> bool" where
  "tls_use_sha384 cs \<longleftrightarrow> cs \<in> {0x1302, 0xC02C, 0xC030, 0x009D, 0x009F, 0x00A9, 0x00AB, 0x00AF, 0x00B3}"

definition suite_hash_len :: "u16 \<Rightarrow> nat" where
  "suite_hash_len cs = (if tls_use_sha384 cs then 48 else 32)"

definition suite_key_len :: "u16 \<Rightarrow> nat" where
  "suite_key_len cs = (if cs \<in> {0x1302, 0x1303, 0xCCA8, 0xCCA9} then 32 else 16)"

definition dtls12_iv_len :: "u16 \<Rightarrow> nat" where
  "dtls12_iv_len cs = (if cs \<in> {0xCCA8, 0xCCA9} then 12 else 4)"

definition suite_is_chacha20 :: "u16 \<Rightarrow> bool" where
  "suite_is_chacha20 cs \<longleftrightarrow> cs \<in> {0x1303, 0xCCA8, 0xCCA9}"

definition select_cipher_suite :: "u16 \<Rightarrow> u16" where
  "select_cipher_suite i = (if i \<in> {0x1301, 0x1302, 0x1303, 0xC02B, 0xC02F, 0xCCA9, 0xCCA8} then i else 0x1301)"

section \<open>Key derivation\<close>

text \<open>The PRF of TLS 1.2; \<open>mac\<close> is HMAC with the secret, over a hash of \<open>hl\<close> bytes.\<close>

function prf12_loop :: "(bytes \<Rightarrow> bytes) \<Rightarrow> nat \<Rightarrow> bytes \<Rightarrow> bytes \<Rightarrow> nat \<Rightarrow> bytes" where
  "prf12_loop mac hl lseed a out_len =
     (if 0 < out_len \<and> 0 < hl
      then let b = mac (a @ lseed); n = min hl out_len
           in take n b @ prf12_loop mac hl lseed (mac a) (out_len - n)
      else [])"
  by pat_completeness auto
termination
  by (relation "measure (\<lambda>(_, _, _, _, out_len). out_len)") auto

declare prf12_loop.simps [simp del]

definition prf12 :: "bytes \<Rightarrow> string \<Rightarrow> bytes \<Rightarrow> nat \<Rightarrow> bool \<Rightarrow> bytes" where
  "prf12 secret label seed out_len h384 =
     (let lseed = ascii label @ seed
      in if h384 then prf12_loop (hmac_sha384 sha512_raw secret) 48 lseed (hmac_sha384 sha512_raw secret lseed) out_len
         else prf12_loop (hmac_sha256 ctx64 secret) 32 lseed (hmac_sha256 ctx64 secret lseed) out_len)"

definition expand_label13 :: "bytes \<Rightarrow> string \<Rightarrow> bytes \<Rightarrow> nat \<Rightarrow> bool \<Rightarrow> bytes" where
  "expand_label13 secret label ctx out_len h384 =
     (let info = [word_of_nat (out_len div 256), word_of_nat out_len]
            @ [word_of_nat (length (''dtls13'' @ label))] @ ascii ''dtls13'' @ ascii label
            @ [word_of_nat (length ctx)] @ ctx
      in if h384 then hkdf_expand_sha384 (take 48 secret) info out_len
         else hkdf_expand (take 32 secret) info out_len)"

definition transcript_add :: "bytes \<Rightarrow> dtls_session \<Rightarrow> dtls_session" where
  "transcript_add msg s = s\<lparr>transcript_buf := transcript_buf s @ msg\<rparr>"

definition transcript_reset :: "dtls_session \<Rightarrow> dtls_session" where
  "transcript_reset s = s\<lparr>transcript_buf := []\<rparr>"

definition transcript_compute :: "dtls_session \<Rightarrow> dtls_session" where
  "transcript_compute s =
     s\<lparr>transcript_hash := memcpy_at (transcript_hash s) 0
         (if tls_use_sha384 (cipher_suite s) then sha384 (transcript_buf s) else sha256 (transcript_buf s))\<rparr>"

definition dtls12_derive_keys :: "bytes \<Rightarrow> dtls_session \<Rightarrow> dtls_session" where
  "dtls12_derive_keys premaster s =
     (let h384 = tls_use_sha384 (cipher_suite s);
          seed = client_random s @ server_random s;
          s = s\<lparr>master_secret := prf12 premaster ''master secret'' seed 48 h384\<rparr>;
          seed2 = server_random s @ client_random s;
          kl = suite_key_len (cipher_suite s);
          il = dtls12_iv_len (cipher_suite s);
          kb = prf12 (master_secret s) ''key expansion'' seed2 (2 * kl + 2 * il) h384
      in s\<lparr>key_len := kl, iv_len := il,
           client_write_key := memcpy_at (client_write_key s) 0 (take kl kb),
           server_write_key := memcpy_at (server_write_key s) 0 (take kl (drop kl kb)),
           client_write_iv := memcpy_at (client_write_iv s) 0 (take il (drop (2 * kl) kb)),
           server_write_iv := memcpy_at (server_write_iv s) 0 (take il (drop (2 * kl + il) kb))\<rparr>)"

text \<open>\<open>Hash("")\<close> and the zero keys of the DTLS 1.3 key schedule.\<close>

definition empty_hash :: "bool \<Rightarrow> bytes" where
  "empty_hash h384 = (if h384 then sha384 [] else sha256 [])"

definition extract13 :: "bool \<Rightarrow> bytes \<Rightarrow> bytes \<Rightarrow> bytes" where
  "extract13 h384 salt ikm = (if h384 then hkdf_extract_sha384 salt ikm else hkdf_extract salt ikm)"

definition dtls13_derive_handshake :: "bytes \<Rightarrow> dtls_session \<Rightarrow> dtls_session" where
  "dtls13_derive_handshake shared_secret s =
     (let h384 = tls_use_sha384 (cipher_suite s);
          hl = suite_hash_len (cipher_suite s);
          early_secret = extract13 h384 (replicate hl 0) (replicate hl 0);
          derived = expand_label13 early_secret ''derived'' (empty_hash h384) hl h384;
          s = s\<lparr>handshake_secret := memcpy_at (handshake_secret s) 0 (extract13 h384 derived shared_secret)\<rparr>;
          s = transcript_compute s;
          th = take hl (transcript_hash s)
      in s\<lparr>client_hs_traffic := memcpy_at (client_hs_traffic s) 0 (expand_label13 (handshake_secret s) ''c hs traffic'' th hl h384),
           server_hs_traffic := memcpy_at (server_hs_traffic s) 0 (expand_label13 (handshake_secret s) ''s hs traffic'' th hl h384)\<rparr>)"

definition dtls13_derive_application :: "dtls_session \<Rightarrow> dtls_session" where
  "dtls13_derive_application s =
     (let h384 = tls_use_sha384 (cipher_suite s);
          hl = suite_hash_len (cipher_suite s);
          derived = expand_label13 (handshake_secret s) ''derived'' (empty_hash h384) hl h384;
          s = s\<lparr>master_secret := memcpy_at (master_secret s) 0 (extract13 h384 derived (replicate hl 0))\<rparr>;
          s = transcript_compute s;
          th = take hl (transcript_hash s)
      in s\<lparr>client_app_traffic := memcpy_at (client_app_traffic s) 0 (expand_label13 (master_secret s) ''c ap traffic'' th hl h384),
           server_app_traffic := memcpy_at (server_app_traffic s) 0 (expand_label13 (master_secret s) ''s ap traffic'' th hl h384)\<rparr>)"

text \<open>Key, IV and sequence-number key of a traffic secret.\<close>

definition dtls13_record_keys :: "u16 \<Rightarrow> bytes \<Rightarrow> bool \<Rightarrow> bytes \<times> bytes \<times> bytes" where
  "dtls13_record_keys cs traffic h384 =
     (expand_label13 traffic ''key'' [] (suite_key_len cs) h384,
      expand_label13 traffic ''iv'' [] 12 h384,
      expand_label13 traffic ''sn'' [] (suite_key_len cs) h384)"

section \<open>AEAD\<close>

definition aes_key :: "nat \<Rightarrow> bytes \<Rightarrow> bytes" where
  "aes_key klen key = (if klen = 32 then take 32 key else take 16 key)"

definition aead_encrypt :: "dtls_env \<Rightarrow> u16 \<Rightarrow> bytes \<Rightarrow> nat \<Rightarrow> bytes \<Rightarrow> bytes \<Rightarrow> bytes \<Rightarrow> bytes \<times> bytes" where
  "aead_encrypt E cs key klen nonce aad pt =
     (if suite_is_chacha20 cs then chacha20_poly1305_encrypt key nonce pt aad
      else aes_gcm_seal E (aes_key klen key) nonce aad pt)"

definition aead_decrypt :: "dtls_env \<Rightarrow> u16 \<Rightarrow> bytes \<Rightarrow> nat \<Rightarrow> bytes \<Rightarrow> bytes \<Rightarrow> bytes \<Rightarrow> bytes \<Rightarrow> bytes option" where
  "aead_decrypt E cs key klen nonce aad ct tag =
     (if suite_is_chacha20 cs then chacha20_poly1305_decrypt key nonce ct aad tag
      else aes_gcm_open E (aes_key klen key) nonce aad ct tag)"

section \<open>The record layer of DTLS 1.2\<close>

definition put48 :: "u64 \<Rightarrow> bytes" where
  "put48 seq = map (\<lambda>i. ucast (drop_bit (40 - 8 * i) seq)) [0..<6]"

definition dtls12_header :: "u8 \<Rightarrow> u16 \<Rightarrow> u64 \<Rightarrow> u16 \<Rightarrow> bytes" where
  "dtls12_header ty epoch seq len = [ty, 0xfe, 0xfd] @ put16 epoch @ put48 seq @ put16 len"

definition dtls12_ad :: "u8 \<Rightarrow> u16 \<Rightarrow> u64 \<Rightarrow> u16 \<Rightarrow> bytes" where
  "dtls12_ad ty epoch seq len = put16 epoch @ put48 seq @ [ty, 0xfe, 0xfd] @ put16 len"

definition plaintext_record :: "u8 \<Rightarrow> u16 \<Rightarrow> u64 \<Rightarrow> bytes \<Rightarrow> bytes" where
  "plaintext_record ty epoch seq payload = dtls12_header ty epoch seq (word_of_nat (length payload)) @ payload"

text \<open>Only an IV of twelve bytes makes a nonce; otherwise the caller's array stays as it was.\<close>

definition dtls12_nonce :: "bytes \<Rightarrow> nat \<Rightarrow> u16 \<Rightarrow> u64 \<Rightarrow> bytes \<Rightarrow> bytes" where
  "dtls12_nonce iv ilen epoch seq nonce =
     (if ilen = 12
      then take 4 iv @ map (\<lambda>i. iv ! (4 + i) XOR
             (if i < 2 then ucast (drop_bit (8 * (1 - i)) epoch) else ucast (drop_bit (8 * (7 - i)) seq))) [0..<8]
      else nonce)"

definition dtls12_protect :: "dtls_env \<Rightarrow> u8 \<Rightarrow> bytes \<Rightarrow> dtls_session \<Rightarrow> bytes \<times> dtls_session" where
  "dtls12_protect E ty data s =
     (let epoch = send_epoch s;
          seq = send_seq s;
          s = s\<lparr>send_seq := send_seq s + 1\<rparr>;
          iv = (if is_server s then server_write_iv s else client_write_iv s);
          key = (if is_server s then server_write_key s else client_write_key s);
          gcm = iv_len s = 4;
          (explicit_nonce, s) = (if gcm then rand_bytes 8 s else (replicate 8 0, s));
          nonce = (if gcm then take 4 iv @ explicit_nonce else dtls12_nonce iv (iv_len s) epoch seq (stack12 E));
          ad = dtls12_ad ty epoch seq (word_of_nat (length data));
          (ct, tag) = aead_encrypt E (cipher_suite s) key (key_len s) nonce ad data;
          wire_len = word_of_nat ((if gcm then 8 else 0) + length data + 16)
      in (dtls12_header ty epoch seq wire_len @ (if gcm then explicit_nonce else []) @ ct @ take 16 tag, s))"

text \<open>Type, epoch, sequence number and payload of the record at the front.\<close>

definition dtls12_parse_header :: "bytes \<Rightarrow> (u8 \<times> u16 \<times> u64 \<times> bytes) option" where
  "dtls12_parse_header rec =
     (if length rec < 13 then None
      else let plen = unat (get16 rec 11)
           in if 13 + plen > length rec then None
              else Some (rec ! 0, get16 rec 3, get48 rec 5, take plen (drop 13 rec)))"

definition dtls12_unprotect_record :: "dtls_env \<Rightarrow> dtls_session \<Rightarrow> u8 \<Rightarrow> u16 \<Rightarrow> u64 \<Rightarrow> bytes \<Rightarrow> bytes option" where
  "dtls12_unprotect_record E s ty epoch seq payload =
     (let gcm = iv_len s = 4; pre = (if gcm then 8 else 0)
      in if length payload < 16 + pre then None
         else let ct_len = length payload - 16 - pre;
                  ct = take ct_len (drop pre payload);
                  tag = take 16 (drop (pre + ct_len) payload);
                  iv = (if is_server s then client_write_iv s else server_write_iv s);
                  nonce = (if gcm then take 4 iv @ take 8 payload else dtls12_nonce iv (iv_len s) epoch seq (stack12 E));
                  ad = dtls12_ad ty epoch seq (word_of_nat ct_len);
                  key = (if is_server s then client_write_key s else server_write_key s)
              in aead_decrypt E (cipher_suite s) key (key_len s) nonce ad ct tag)"

section \<open>The record layer of DTLS 1.3\<close>

definition dtls13_send_secret :: "dtls_session \<Rightarrow> bytes option" where
  "dtls13_send_secret s =
     (let e = send_epoch s AND 3
      in if e = 2 then Some (if is_server s then server_hs_traffic s else client_hs_traffic s)
         else if e = 3 then Some (if is_server s then server_app_traffic s else client_app_traffic s)
         else None)"

definition dtls13_recv_traffic :: "dtls_session \<Rightarrow> u8 \<Rightarrow> bytes option" where
  "dtls13_recv_traffic s epoch_bits =
     (if epoch_bits = 2 then Some (if is_server s then client_hs_traffic s else server_hs_traffic s)
      else if epoch_bits = 3 then Some (if is_server s then client_app_traffic s else server_app_traffic s)
      else None)"

text \<open>The mask of sixteen bytes, from the first sixteen bytes at \<open>ct\<close>.\<close>

definition dtls13_sn_mask :: "dtls_env \<Rightarrow> u16 \<Rightarrow> bytes \<Rightarrow> bytes \<Rightarrow> bytes" where
  "dtls13_sn_mask E cs sn_key ct =
     (if suite_is_chacha20 cs
      then take 16 (chacha20_block sn_key (load32_le ct 0) (take 12 (drop 4 ct)))
      else aes_encrypt_block E (aes_key (length sn_key) sn_key) (take 16 ct))"

text \<open>\<open>nonce[4 + i] ^= (uint8_t)(seq >> (56 - 8 * i))\<close> for the eight \<open>i\<close>.\<close>

definition dtls13_nonce :: "bytes \<Rightarrow> u64 \<Rightarrow> bytes" where
  "dtls13_nonce iv seq = take 4 iv @ map (\<lambda>i. iv ! (4 + i) XOR ucast (drop_bit (56 - 8 * i) seq)) [0..<8]"

definition dtls13_ad :: "u8 \<Rightarrow> u16 \<Rightarrow> u16 \<Rightarrow> bytes" where
  "dtls13_ad byte0 seq16 wire_len = [byte0] @ put16 seq16 @ put16 wire_len"

definition dtls13_inner :: "u8 \<Rightarrow> bytes \<Rightarrow> bytes" where
  "dtls13_inner ty data = (let inner = data @ [ty] in inner @ replicate (16 - length inner) 0)"

definition dtls13_protect :: "dtls_env \<Rightarrow> u8 \<Rightarrow> bytes \<Rightarrow> dtls_session \<Rightarrow> bytes \<times> dtls_session" where
  "dtls13_protect E ty data s =
     (let epoch_bits = ucast (send_epoch s AND 3) :: u8;
          seq = send_seq s;
          s' = s\<lparr>send_seq := send_seq s + 1\<rparr>;
          inner = dtls13_inner ty data
      in case dtls13_send_secret s' of
           None \<Rightarrow> ([], s')
         | Some traffic \<Rightarrow>
             let (key, iv, sn) = dtls13_record_keys (cipher_suite s') traffic (tls_use_sha384 (cipher_suite s'));
                 byte0 = 0x20 OR 0x08 OR 0x04 OR epoch_bits;
                 wire_seq = ucast (seq AND 0xffff) :: u16;
                 wire_len = word_of_nat (length inner + 16);
                 nonce = dtls13_nonce iv seq;
                 ad = dtls13_ad byte0 wire_seq wire_len;
                 (ct, tag) = aead_encrypt E (cipher_suite s') key (length key) nonce ad inner;
                 mask = dtls13_sn_mask E (cipher_suite s') sn ct;
                 hi = ucast (drop_bit 8 wire_seq) XOR mask ! 0;
                 lo = ucast wire_seq XOR mask ! 1
             in ([byte0, hi, lo] @ put16 wire_len @ ct @ take 16 tag, s'))"

text \<open>The sequence number nearest to \<open>recv_seq\<close> with the given low sixteen bits, in 64-bit arithmetic.\<close>

definition dtls13_full_seq :: "u64 \<Rightarrow> u16 \<Rightarrow> u64" where
  "dtls13_full_seq rseq wire_seq =
     (let base = rseq AND NOT 0xffff;
          cand = base OR ucast wire_seq
      in if cand + 0x8000 < rseq then cand + 0x10000
         else if cand > rseq + 0x8000 then cand - 0x10000
         else cand)"

text \<open>The header: flags, encrypted sequence number, offset of the ciphertext and its length field.\<close>

definition dtls13_parse_unified :: "bytes \<Rightarrow> (u8 \<times> bool \<times> bytes \<times> nat \<times> u16) option" where
  "dtls13_parse_unified rec =
     (if length rec < 5 + 16 + 1 then None
      else let byte0 = rec ! 0
           in if byte0 AND 0xe0 \<noteq> 0x20 then None
              else if byte0 AND 0x10 \<noteq> 0 then None
              else let seq16 = (byte0 AND 0x08 \<noteq> 0);
                       has_len = (byte0 AND 0x04 \<noteq> 0);
                       seq_bytes = (if seq16 then 2 else 1);
                       seq_enc = memcpy_at [0, 0] 0 (take seq_bytes (drop 1 rec));
                       off = 1 + seq_bytes
                   in if has_len \<and> off + 2 > length rec then None
                      else let wire_len = (if has_len then get16 rec off else word_of_nat (length rec - off));
                               off = (if has_len then off + 2 else off)
                           in if off + unat wire_len > length rec \<or> unat wire_len < 16 then None
                              else Some (byte0, seq16, seq_enc, off, wire_len))"

definition strip_padding :: "bytes \<Rightarrow> bytes" where
  "strip_padding inner = rev (dropWhile (\<lambda>b. b = 0) (rev inner))"

text \<open>Type, content, sequence number and the session with its new receive state.\<close>

definition dtls13_unprotect :: "dtls_env \<Rightarrow> bytes \<Rightarrow> dtls_session \<Rightarrow> (u8 \<times> bytes \<times> u64 \<times> dtls_session) option" where
  "dtls13_unprotect E rec s =
     (case dtls13_parse_unified rec of
        None \<Rightarrow> None
      | Some (byte0, seq16, seq_enc, off, wire_len) \<Rightarrow>
          let epoch_bits = byte0 AND 0x03;
              ct_len = unat wire_len - 16;
              ct = take ct_len (drop off rec);
              tag = take 16 (drop (off + ct_len) rec)
          in if ct_len = 0 then None
             else (case dtls13_recv_traffic s epoch_bits of
                     None \<Rightarrow> None
                   | Some traffic \<Rightarrow>
                       let (key, iv, sn) = dtls13_record_keys (cipher_suite s) traffic (tls_use_sha384 (cipher_suite s));
                           mask = dtls13_sn_mask E (cipher_suite s) sn (drop off rec);
                           wire_seq = (if seq16 then push_bit 8 (ucast (seq_enc ! 0 XOR mask ! 0)) OR ucast (seq_enc ! 1 XOR mask ! 1)
                                       else ucast (seq_enc ! 0 XOR mask ! 0));
                           full_seq = dtls13_full_seq (recv_seq s) wire_seq;
                           nonce = dtls13_nonce iv full_seq;
                           ad = dtls13_ad byte0 (ucast full_seq) wire_len
                       in case aead_decrypt E (cipher_suite s) key (length key) nonce ad ct tag of
                            None \<Rightarrow> None
                          | Some inner \<Rightarrow>
                              let inner = strip_padding inner
                              in if inner = [] then None
                                 else Some (last inner, butlast inner, full_seq,
                                   if epoch_bits \<noteq> ucast (recv_epoch s AND 3)
                                   then s\<lparr>recv_epoch := ucast epoch_bits, recv_seq := full_seq + 1\<rparr>
                                   else if full_seq + 1 > recv_seq s then s\<lparr>recv_seq := full_seq + 1\<rparr> else s)))"

section \<open>Application data\<close>

function dtls_protect_application :: "dtls_env \<Rightarrow> bytes \<Rightarrow> dtls_session \<Rightarrow> bytes \<times> dtls_session" where
  "dtls_protect_application E data s =
     (if data = [] then ([], s)
      else let n = min (length data) 1200;
               (rec, s) = (if ver s = V12 then dtls12_protect E 23 (take n data) s
                           else dtls13_protect E 23 (take n data) s);
               (out, s) = dtls_protect_application E (drop n data) s
           in (rec @ out, s))"
  by pat_completeness auto
termination
  by (relation "measure (\<lambda>(_, data, _). length data)") auto

declare dtls_protect_application.simps [simp del]

section \<open>Datagrams\<close>

record dtls_event =
  ev_type :: u8
  ev_epoch :: u16
  ev_seq :: u64
  ev_payload :: bytes

text \<open>
  The records of a datagram: the session, the events, the records that could not be decrypted yet, and
  whether the whole datagram was well formed. What was parsed before a malformed record keeps its effect.
\<close>

function parse_dtls12_datagram ::
  "dtls_env \<Rightarrow> bytes \<Rightarrow> dtls_session \<Rightarrow> dtls_event list \<Rightarrow> bytes \<Rightarrow> bool \<times> dtls_session \<times> dtls_event list \<times> bytes" where
  "parse_dtls12_datagram E dg s events pend =
     (if dg = [] then (True, s, events, pend)
      else case dtls12_parse_header dg of
             None \<Rightarrow> (False, s, events, pend)
           | Some (ty, epoch, seq, payload) \<Rightarrow>
               let next = drop (13 + length payload) dg;
                   ev = \<lparr>ev_type = ty, ev_epoch = epoch, ev_seq = seq, ev_payload = payload\<rparr>
               in if epoch \<noteq> recv_epoch s then parse_dtls12_datagram E next s events pend
                  else if ty = 20 then parse_dtls12_datagram E next (s\<lparr>recv_epoch := epoch + 1\<rparr>) (events @ [ev]) pend
                  else if epoch = 0 then parse_dtls12_datagram E next s (events @ [ev]) pend
                  else (case dtls12_unprotect_record E s ty epoch seq payload of
                          Some pt \<Rightarrow> parse_dtls12_datagram E next s (events @ [ev\<lparr>ev_payload := pt\<rparr>]) pend
                        | None \<Rightarrow> parse_dtls12_datagram E next s events (pend @ take (13 + length payload) dg)))"
  by pat_completeness auto
termination
  by (relation "measure (\<lambda>(_, dg, _). length dg)") auto

function parse_dtls13_datagram ::
  "dtls_env \<Rightarrow> bytes \<Rightarrow> dtls_session \<Rightarrow> dtls_event list \<Rightarrow> bytes \<Rightarrow> bool \<times> dtls_session \<times> dtls_event list \<times> bytes" where
  "parse_dtls13_datagram E dg s events pend =
     (if dg = [] then (True, s, events, pend)
      else let b0 = dg ! 0
           in if b0 = 22 \<or> b0 = 26 \<or> b0 = 20 \<or> b0 = 21
              then (case dtls12_parse_header dg of
                      None \<Rightarrow> (False, s, events, pend)
                    | Some (ty, epoch, seq, payload) \<Rightarrow>
                        parse_dtls13_datagram E (drop (13 + length payload) dg) s
                          (if epoch = 0
                           then events @ [\<lparr>ev_type = ty, ev_epoch = epoch, ev_seq = seq, ev_payload = payload\<rparr>]
                           else events) pend)
              else if b0 AND 0xe0 = 0x20
              then let hdr = 1 + (if b0 AND 0x08 \<noteq> 0 then 2 else 1) + (if b0 AND 0x04 \<noteq> 0 then 2 else 0)
                   in if hdr > length dg then (False, s, events, pend)
                      else let wire_len = (if b0 AND 0x04 \<noteq> 0 then get16 dg (hdr - 2) else word_of_nat (length dg - hdr))
                           in if hdr + unat wire_len > length dg then (False, s, events, pend)
                              else let rec = take (hdr + unat wire_len) dg; next = drop (hdr + unat wire_len) dg
                                   in case dtls13_unprotect E rec s of
                                        Some (ty, pt, seq, s') \<Rightarrow>
                                          parse_dtls13_datagram E next s'
                                            (events @ [\<lparr>ev_type = ty, ev_epoch = ucast (b0 AND 3), ev_seq = seq, ev_payload = pt\<rparr>]) pend
                                      | None \<Rightarrow> parse_dtls13_datagram E next s events (pend @ rec)
              else (False, s, events, pend))"
  by pat_completeness auto
termination
  by (relation "measure (\<lambda>(_, dg, _). length dg)") auto

declare parse_dtls12_datagram.simps [simp del] parse_dtls13_datagram.simps [simp del]

definition dtls_unprotect_application :: "dtls_env \<Rightarrow> bytes \<Rightarrow> dtls_session \<Rightarrow> bool \<times> bytes \<times> dtls_session" where
  "dtls_unprotect_application E dg s =
     (let (parsed, s, events, _) = (if ver s = V12 then parse_dtls12_datagram E dg s [] []
                                    else parse_dtls13_datagram E dg s [] []);
          apps = filter (\<lambda>ev. ev_type ev = 23) events
      in if \<not> parsed then (False, [], s)
         else (apps \<noteq> [], concat (map ev_payload apps), s))"

end
