(* ===== verification/DtlsRound.thy ===== *)
theory DtlsRound
  imports DtlsRecord
begin

text \<open>
  What the record layers of DTLS compute: integers and headers on the wire, records that one end protects and the
  other reads, the reconstruction of sequence numbers, whole datagrams of application data, and what the missing
  replay window and the unauthenticated ChangeCipherSpec allow.
\<close>


section \<open>Integers on the wire\<close>

lemma length_puts [simp, len_simps]:
  "length (put16 x) = 2" "length (put24 y) = 3" "length (put64 z) = 8" "length (put48 z) = 6"
  by (simp_all add: put16_def put24_def put64_def put48_def)

lemma put16_be: "put16 x = be_bytes 2 (unat x)"
  using encode_u16_be [of x] by (simp add: put16_def encode_u16_def)

lemma unat_byte_or: "unat (push_bit 8 (ucast a) OR ucast (b :: u8) :: u16) = unat (a :: u8) * 256 + unat b"
proof -
  have u: "unat (ucast x :: u16) = unat x" for x :: u8
  proof -
    have "unat x < 2 ^ 16" by (rule less_trans [OF unat_u8_less]) simp
    then show ?thesis by (simp add: unsigned_ucast_eq take_bit_nat_eq_self)
  qed
  have "m * 256 + n < 2 ^ 16" if "m < 256" "n < 256" for m n :: nat using that by simp
  from this [OF unat_u8_less unat_u8_less] have "unat a * 256 + unat b < 2 ^ 16" .
  then show ?thesis unfolding shift_or_byte unat_word_ariths u by simp
qed

lemma get16_val: "i + 2 \<le> length p \<Longrightarrow> unat (get16 p i) = be_val (take 2 (drop i p))"
proof -
  assume "i + 2 \<le> length p"
  then have "take 2 (drop i p) = [p ! i] @ [p ! (i + 1)]"
    by (simp add: numeral_2_eq_2 take_Suc_conv_app_nth)
  then show ?thesis by (simp add: get16_def unat_byte_or be_val_def)
qed

lemma be_val_put16: "be_val (put16 x) = unat x"
proof -
  have "unat x < 2 ^ 16" using unsigned_less [of x] by simp
  then show ?thesis by (simp add: put16_be be_val_be_bytes)
qed

lemma get16_put16: "get16 (pre @ put16 x @ post) (length pre) = x"
  by (rule word_unat_eq_iff [THEN iffD2]) (simp add: get16_val be_val_put16)

lemma be_bytes_rev: "be_bytes n x = rev (le_bytes n x)"
  by (induction n arbitrary: x) simp_all

lemma put48_be: "put48 x = be_bytes 6 (unat x)"
proof (rule nth_equalityI)
  fix i assume "i < length (put48 x)"
  then have i: "i < 6" by simp
  have "[0..<6] ! (5 - i) = 5 - i" by (subst nth_upt) simp_all
  moreover from i have "8 * (5 - i) = 40 - 8 * i" by simp
  ultimately show "put48 x ! i = be_bytes 6 (unat x) ! i"
    using i by (simp add: put48_def be_bytes_rev le_bytes_map rev_nth byte_of_word nth_upt del: upt_rec_numeral)
qed simp

lemma get48_val: "i + 6 \<le> length p \<Longrightarrow> unat (get48 p i) = be_val (take 6 (drop i p))"
proof -
  assume len: "i + 6 \<le> length p"
  have "be_val (take 6 (drop i p)) < 256 ^ 6" using be_val_less [of "take 6 (drop i p)"] len by simp
  then have "be_val (take 6 (drop i p)) < 2 ^ 64" by simp
  then show ?thesis by (simp add: get48_def fold_bytes unat_of_nat)
qed

lemma get48_put48: "unat (get48 (pre @ put48 x @ post) (length pre)) = unat x mod 2 ^ 48"
  by (simp add: get48_val put48_be be_val_be_bytes)

lemma put48_mod: "unat x mod 2 ^ 48 = unat y mod 2 ^ 48 \<Longrightarrow> put48 x = put48 y"
proof -
  have "be_bytes 6 n = be_bytes 6 (n mod 2 ^ 48)" for n
    using be_bytes_be_val [of "be_bytes 6 n"] by (simp add: be_val_be_bytes)
  then show "unat x mod 2 ^ 48 = unat y mod 2 ^ 48 \<Longrightarrow> put48 x = put48 y"
    unfolding put48_be by metis
qed

section \<open>Headers\<close>

lemma length_dtls12_header [simp, len_simps]: "length (dtls12_header ty epoch seq len) = 13"
  by (simp add: dtls12_header_def)

lemma parse_dtls12_header:
  assumes "length payload < 2 ^ 16"
  shows "\<exists>q. dtls12_parse_header (dtls12_header ty epoch seq (word_of_nat (length payload)) @ payload @ rest)
      = Some (ty, epoch, q, payload) \<and> unat q = unat seq mod 2 ^ 48"
proof -
  let ?l = "word_of_nat (length payload) :: u16"
  let ?r = "dtls12_header ty epoch seq ?l @ payload @ rest"
  have "get16 ?r 11 = ?l"
    using get16_put16 [of "[ty, 0xfe, 0xfd] @ put16 epoch @ put48 seq" ?l "payload @ rest"] by (simp add: dtls12_header_def)
  moreover have "get16 ?r 3 = epoch"
    using get16_put16 [of "[ty, 0xfe, 0xfd]" epoch "put48 seq @ put16 ?l @ payload @ rest"]
    by (simp add: dtls12_header_def numeral_3_eq_3)
  moreover have "unat (get48 ?r 5) = unat seq mod 2 ^ 48"
    using get48_put48 [of "[ty, 0xfe, 0xfd] @ put16 epoch" seq "put16 ?l @ payload @ rest"] by (simp add: dtls12_header_def)
  moreover have "unat ?l = length payload" using assms by (simp add: unat_of_nat)
  moreover have "?r ! 0 = ty" by (simp add: dtls12_header_def)
  ultimately show ?thesis by (simp add: dtls12_parse_header_def)
qed

text \<open>A nonce and additional data depend on the low 48 bits of the sequence number only.\<close>

lemma byte_mod48:
  fixes x y :: u64
  assumes "unat x mod 2 ^ 48 = unat y mod 2 ^ 48" "k \<le> 40"
  shows "(ucast (drop_bit k x) :: u8) = ucast (drop_bit k (y :: u64))"
proof (rule bit_word_eqI)
  fix n assume n: "n < LENGTH(8)"
  have "unat (take_bit 48 z) = unat z mod 2 ^ 48" for z :: u64
    by (simp only: unsigned_take_bit_eq) (rule take_bit_eq_mod)
  then have "take_bit 48 x = take_bit 48 y" using assms(1) by (intro word_unat_eq_iff [THEN iffD2]) simp
  then have "bit (take_bit 48 x) (k + n) = bit (take_bit 48 y) (k + n)" by simp
  then have "bit x (k + n) = bit y (k + n)" using n assms(2) by (simp add: bit_take_bit_iff)
  then show "bit (ucast (drop_bit k x) :: u8) n = bit (ucast (drop_bit k y) :: u8) n"
    using n by (simp add: bit_simps)
qed

lemma dtls12_low48:
  assumes "unat q = unat seq mod 2 ^ 48"
  shows "dtls12_ad ty epoch q len = dtls12_ad ty epoch seq len"
    and "dtls12_nonce iv n epoch q z = dtls12_nonce iv n epoch seq z"
proof -
  have m: "unat q mod 2 ^ 48 = unat seq mod 2 ^ 48" by (simp add: assms)
  then show "dtls12_ad ty epoch q len = dtls12_ad ty epoch seq len" by (simp add: dtls12_ad_def put48_mod [OF m])
  have "(ucast (drop_bit (8 * (7 - i)) q) :: u8) = ucast (drop_bit (8 * (7 - i)) seq)" if "\<not> i < 2" for i
    using that by (intro byte_mod48 [OF m]) simp
  then show "dtls12_nonce iv n epoch q z = dtls12_nonce iv n epoch seq z" by (simp add: dtls12_nonce_def)
qed

section \<open>AEADs\<close>

text \<open>What the record layers rely on.\<close>

locale aead =
  fixes seal :: "bytes \<Rightarrow> bytes \<Rightarrow> bytes \<Rightarrow> bytes \<Rightarrow> bytes \<times> bytes"
    and unseal :: "bytes \<Rightarrow> bytes \<Rightarrow> bytes \<Rightarrow> bytes \<Rightarrow> bytes \<Rightarrow> bytes option"
  assumes opens: "seal k n a p = (ct, tag) \<Longrightarrow> unseal k n a ct tag = Some p"
    and lengths: "seal k n a p = (ct, tag) \<Longrightarrow> length ct = length p \<and> length tag = 16"
begin

lemma sealed: "\<exists>ct tag. seal k n a p = (ct, tag) \<and> length ct = length p \<and> length tag = 16 \<and> unseal k n a ct tag = Some p"
  by (cases "seal k n a p") (metis opens lengths)

lemma seal_inj: "seal k n a p = seal k n a q \<Longrightarrow> p = q"
  by (cases "seal k n a q") (metis opens option.inject)

end

interpretation chacha: aead "\<lambda>k n a p. chacha20_poly1305_encrypt k n p a" "\<lambda>k n a ct tag. chacha20_poly1305_decrypt k n ct a tag"
  by unfold_locales (auto simp: encrypt_rfc decrypt_iff chacha20_crypt_involution)

definition gcm_laws :: "dtls_env \<Rightarrow> bool" where
  "gcm_laws E \<longleftrightarrow> (\<forall>k n a p ct tag. aes_gcm_seal E k n a p = (ct, tag) \<longrightarrow>
     aes_gcm_open E k n a ct tag = Some p \<and> length ct = length p \<and> length tag = 16)"

lemma suite_sealed:
  assumes "suite_is_chacha20 cs \<or> gcm_laws E"
  shows "\<exists>ct tag. aead_encrypt E cs key klen nonce ad pt = (ct, tag) \<and> length ct = length pt \<and> length tag = 16
    \<and> aead_decrypt E cs key klen nonce ad ct tag = Some pt"
proof (cases "suite_is_chacha20 cs")
  case True
  then show ?thesis using chacha.sealed [of key nonce pt ad] by (simp add: aead_encrypt_def aead_decrypt_def)
next
  case False
  with assms have "aead (aes_gcm_seal E) (aes_gcm_open E)" by (auto simp: gcm_laws_def aead_def)
  from aead.sealed [OF this] show ?thesis using False by (simp add: aead_encrypt_def aead_decrypt_def)
qed

section \<open>DTLS 1.2: what one end protects the other reads\<close>

definition peers12 :: "dtls_session \<Rightarrow> dtls_session \<Rightarrow> bool" where
  "peers12 s r \<longleftrightarrow> is_server r = (\<not> is_server s) \<and> cipher_suite r = cipher_suite s
     \<and> key_len r = key_len s \<and> iv_len r = iv_len s
     \<and> (if is_server s then server_write_key r = server_write_key s \<and> server_write_iv r = server_write_iv s
        else client_write_key r = client_write_key s \<and> client_write_iv r = client_write_iv s)"

lemma dtls12_protect_opens:
  assumes "peers12 s r" "suite_is_chacha20 (cipher_suite s) \<or> gcm_laws E" "length data \<le> 2 ^ 16 - 25"
    and "length (if is_server s then server_write_iv s else client_write_iv s) \<ge> 4"
    and "dtls12_protect E ty data s = (rec, s')"
  shows "\<exists>q payload. dtls12_parse_header (rec @ rest) = Some (ty, send_epoch s, q, payload) \<and> length rec = 13 + length payload
    \<and> unat q = unat (send_seq s) mod 2 ^ 48 \<and> dtls12_unprotect_record E r ty (send_epoch s) q payload = Some data"
    and "s' = s\<lparr>send_seq := send_seq s + 1, os_random := os_random s'\<rparr>"
proof -
  let ?iv = "if is_server s then server_write_iv s else client_write_iv s"
  let ?key = "if is_server s then server_write_key s else client_write_key s"
  let ?gcm = "iv_len s = 4"
  define ex where "ex = (if ?gcm then fst (rand_bytes 8 s) else [])"
  define nonce where "nonce = (if ?gcm then take 4 ?iv @ ex else dtls12_nonce ?iv (iv_len s) (send_epoch s) (send_seq s) (stack12 E))"
  define ad where "ad = dtls12_ad ty (send_epoch s) (send_seq s) (word_of_nat (length data))"
  obtain ct tag where seal: "aead_encrypt E (cipher_suite s) ?key (key_len s) nonce ad data = (ct, tag)"
    "length ct = length data" "length tag = 16"
    "aead_decrypt E (cipher_suite s) ?key (key_len s) nonce ad ct tag = Some data"
    using suite_sealed [OF assms(2)] by blast
  have lex: "length ex = (if ?gcm then 8 else 0)" by (simp add: ex_def rand_bytes_def min_def)
  let ?payload = "ex @ ct @ tag"
  have lp: "length ?payload = (if ?gcm then 8 else 0) + length data + 16" by (simp add: lex seal(2,3))
  have rec: "rec = dtls12_header ty (send_epoch s) (send_seq s) (word_of_nat (length ?payload)) @ ?payload"
  proof -
    have "rec = fst (dtls12_protect E ty data s)" using assms(5) by simp
    also have "\<dots> = dtls12_header ty (send_epoch s) (send_seq s) (word_of_nat (length ?payload)) @ ?payload"
      unfolding lp using seal(1,3) unfolding nonce_def ad_def ex_def
      by (cases ?gcm; cases "is_server s"; cases "8 \<le> length (os_random s)") (simp_all add: dtls12_protect_def Let_def rand_bytes_def)
    finally show ?thesis .
  qed
  have "length ?payload < 2 ^ 16" using assms(3) lp by simp
  from parse_dtls12_header [OF this] obtain q where
    q: "dtls12_parse_header (rec @ rest) = Some (ty, send_epoch s, q, ?payload)" "unat q = unat (send_seq s) mod 2 ^ 48"
    unfolding rec by (metis append.assoc)
  have "dtls12_unprotect_record E r ty (send_epoch s) q ?payload
      = aead_decrypt E (cipher_suite s) ?key (key_len s) nonce ad ct tag"
    using assms(1) lex seal(2,3)
    by (cases ?gcm; cases "is_server s")
      (simp_all add: dtls12_unprotect_record_def Let_def peers12_def nonce_def ad_def dtls12_low48 [OF q(2)])
  with q rec seal(4) show "\<exists>q payload. dtls12_parse_header (rec @ rest) = Some (ty, send_epoch s, q, payload)
    \<and> length rec = 13 + length payload
    \<and> unat q = unat (send_seq s) mod 2 ^ 48 \<and> dtls12_unprotect_record E r ty (send_epoch s) q payload = Some data"
    by (intro exI [of _ q] exI [of _ ?payload]) simp
  show "s' = s\<lparr>send_seq := send_seq s + 1, os_random := os_random s'\<rparr>"
    using assms(5) by (auto simp: dtls12_protect_def Let_def rand_bytes_def split: prod.splits if_splits)
qed

section \<open>Sequence numbers of DTLS 1.3\<close>

lemma full_seq_val:
  fixes seq rseq :: u64
  assumes "unat seq < unat rseq + 2 ^ 15" "unat rseq < unat seq + 2 ^ 15" "unat rseq < 2 ^ 64 - 2 ^ 17"
  shows "dtls13_full_seq rseq (ucast seq) = seq"
proof -
  let ?M = "2 ^ 16 :: nat"
  define b where "b = unat rseq div ?M"
  define w where "w = unat seq mod ?M"
  define cand where "cand = (rseq AND NOT 0xffff) OR ucast (ucast seq :: u16)"
  have "cand = push_bit 16 (drop_bit 16 rseq) OR take_bit 16 seq"
  proof (rule bit_word_eqI)
    fix n assume n: "n < LENGTH(64)"
    have "(0xffff :: u64) = mask 16" by (simp add: mask_eq_exp_minus_1)
    then have "rseq AND NOT 0xffff = rseq AND NOT (mask 16)" by simp
    then show "bit cand n = bit (push_bit 16 (drop_bit 16 rseq) OR take_bit 16 seq) n"
      unfolding cand_def using n by (auto simp: bit_simps)
  qed
  moreover have tw: "unat (take_bit 16 seq) = w" unfolding w_def
    by (simp only: unsigned_take_bit_eq) (rule take_bit_eq_mod)
  moreover have wl: "w < ?M" by (simp add: w_def)
  moreover have bl: "b * ?M < 2 ^ 64"
  proof -
    have "b * ?M \<le> unat rseq" unfolding b_def by simp
    then show ?thesis using assms(3) by linarith
  qed
  ultimately have cand: "unat cand = w + ?M * b"
    using or_push_val [of "take_bit 16 seq" 16 "drop_bit 16 rseq"] by (simp add: or.commute unat_drop_bit_div b_def)
  have r: "unat rseq = ?M * b + unat rseq mod ?M" by (simp add: b_def)
  have s: "unat seq = ?M * (unat seq div ?M) + w" by (simp add: w_def)
  have rm: "unat rseq mod ?M < ?M" by simp
  have "?M * b \<le> unat rseq" unfolding b_def by simp
  then have big: "unat cand < 2 ^ 64 - 2 ^ 16" using cand wl assms(3) by simp
  have c8: "unat (cand + 0x8000) = unat cand + 2 ^ 15" using big by (simp add: unat_plus)
  have r8: "unat (rseq + 0x8000) = unat rseq + 2 ^ 15" using assms(3) by (simp add: unat_plus)
  have c16: "unat (cand + 0x10000) = unat cand + ?M" using big by (simp add: unat_plus)
  have lt: "cand + 0x8000 < rseq \<longleftrightarrow> unat cand + 2 ^ 15 < unat rseq" by (simp only: word_less_nat_alt c8)
  have gt: "cand > rseq + 0x8000 \<longleftrightarrow> unat rseq + 2 ^ 15 < unat cand" by (simp only: word_less_nat_alt r8)
  have full: "dtls13_full_seq rseq (ucast seq)
      = (if unat cand + 2 ^ 15 < unat rseq then cand + 0x10000
         else if unat rseq + 2 ^ 15 < unat cand then cand - 0x10000 else cand)"
    unfolding dtls13_full_seq_def Let_def cand_def [symmetric] lt gt ..
  consider (below) "unat seq div ?M < b" | (same) "unat seq div ?M = b" | (above) "b < unat seq div ?M" by linarith
  then have "unat (dtls13_full_seq rseq (ucast seq)) = unat seq"
  proof cases
    case same
    then have eq: "unat cand = unat seq" using cand s by simp
    then show ?thesis unfolding full using assms by simp
  next
    case below
    have q: "unat seq div ?M = b - 1"
    proof (rule ccontr)
      assume "unat seq div ?M \<noteq> b - 1"
      with below have "unat seq div ?M + 2 \<le> b" by linarith
      then have "?M * (unat seq div ?M + 2) \<le> ?M * b" by (rule mult_le_mono2)
      with s wl r assms(2) show False by simp
    qed
    then have "unat cand = unat seq + ?M" using cand s below by (simp add: algebra_simps diff_mult_distrib2)
    moreover then have "unat (cand - 0x10000) = unat seq"
      using unat_sub [of "0x10000" cand] by (simp add: word_le_nat_alt)
    ultimately show ?thesis unfolding full using assms by simp
  next
    case above
    have q: "unat seq div ?M = b + 1"
    proof (rule ccontr)
      assume "unat seq div ?M \<noteq> b + 1"
      with above have "b + 2 \<le> unat seq div ?M" by linarith
      then have "?M * (b + 2) \<le> ?M * (unat seq div ?M)" by (rule mult_le_mono2)
      with s r rm assms(1) show False by simp
    qed
    then have "unat cand + ?M = unat seq" using cand s by simp
    then show ?thesis unfolding full using assms c16 by simp
  qed
  then show ?thesis by (simp only: unat_u64_eq)
qed

section \<open>DTLS 1.3: what one end protects the other reads\<close>

definition peers13 :: "dtls_session \<Rightarrow> dtls_session \<Rightarrow> bool" where
  "peers13 s r \<longleftrightarrow> cipher_suite r = cipher_suite s
     \<and> (\<exists>traffic. dtls13_send_secret s = Some traffic \<and> dtls13_recv_traffic r (ucast (send_epoch s AND 3)) = Some traffic)"

text \<open>The sequence number of the next record is within the window of the receiver.\<close>

definition in_window :: "u64 \<Rightarrow> u64 \<Rightarrow> bool" where
  "in_window rseq seq \<longleftrightarrow> unat seq < unat rseq + 2 ^ 15 \<and> unat rseq < unat seq + 2 ^ 15 \<and> unat rseq < 2 ^ 64 - 2 ^ 17"

text \<open>The receive state after a record of epoch \<open>e\<close> with number \<open>seq\<close>.\<close>

definition received13 :: "u8 \<Rightarrow> u64 \<Rightarrow> dtls_session \<Rightarrow> dtls_session" where
  "received13 e seq r =
     (if e \<noteq> ucast (recv_epoch r AND 3) then r\<lparr>recv_epoch := ucast e, recv_seq := seq + 1\<rparr>
      else if seq + 1 > recv_seq r then r\<lparr>recv_seq := seq + 1\<rparr> else r)"

lemma sn_mask_prefix: "16 \<le> length ct \<Longrightarrow> dtls13_sn_mask E cs sn (ct @ rest) = dtls13_sn_mask E cs sn ct"
  by (cases ct) (auto simp: dtls13_sn_mask_def load32_le_def nth_append)

lemma xor_cancel: "(x XOR m) XOR m = (x :: u8)"
  by (simp add: xor.assoc)

lemma strip_inner: "ty \<noteq> 0 \<Longrightarrow> strip_padding (dtls13_inner ty data) = data @ [ty]"
proof -
  have "dropWhile (\<lambda>b. b = 0) (replicate n 0 @ ty # xs) = ty # xs" if "ty \<noteq> 0" for n xs
    using that by (induction n) simp_all
  then show "ty \<noteq> 0 \<Longrightarrow> strip_padding (dtls13_inner ty data) = data @ [ty]"
    by (simp add: dtls13_inner_def Let_def strip_padding_def)
qed

lemma length_inner: "length (dtls13_inner ty data) = max 16 (length data + 1)"
  by (simp add: dtls13_inner_def Let_def)

lemma bytes_u16: "push_bit 8 (ucast (ucast (drop_bit 8 x) :: u8)) OR ucast (ucast x :: u8) = (x :: u16)"
  by (rule bit_word_eqI) (auto simp: bit_simps)

lemma send_epoch_cases:
  assumes "dtls13_send_secret s = Some traffic"
  shows "ucast (send_epoch s AND 3) = (2 :: u8) \<or> ucast (send_epoch s AND 3) = (3 :: u8)"
proof -
  have "send_epoch s AND 3 = 2 \<or> send_epoch s AND 3 = 3"
    using assms by (auto simp: dtls13_send_secret_def Let_def split: if_splits)
  then show ?thesis by auto
qed

lemma send_secret_seq: "dtls13_send_secret (s\<lparr>send_seq := q\<rparr>) = dtls13_send_secret s"
  by (simp add: dtls13_send_secret_def Let_def)

lemma low16: "(ucast (x AND 0xffff) :: u16) = ucast (x :: u64)"
proof -
  have m: "(0xffff :: u64) = mask 16" by (simp add: mask_eq_exp_minus_1)
  show ?thesis unfolding m by (rule bit_word_eqI) (auto simp: bit_simps)
qed

lemma dtls13_protect_opens:
  assumes "peers13 s r" "suite_is_chacha20 (cipher_suite s) \<or> gcm_laws E"
    and "length data < 65519" "ty \<noteq> 0" "in_window (recv_seq r) (send_seq s)"
    and "dtls13_protect E ty data s = (rec, s')"
  defines "e \<equiv> ucast (send_epoch s AND 3) :: u8"
  shows "dtls13_unprotect E rec r = Some (ty, data, send_seq s, received13 e (send_seq s) r)"
    and "s' = s\<lparr>send_seq := send_seq s + 1\<rparr>"
    and "\<exists>hi lo wl body. rec = [0x2c OR e, hi, lo] @ put16 wl @ body \<and> length body = unat wl \<and> 32 \<le> length body"
proof -
  obtain traffic where tr: "dtls13_send_secret s = Some traffic" "dtls13_recv_traffic r e = Some traffic"
    and cs: "cipher_suite r = cipher_suite s" using assms(1) by (auto simp: peers13_def e_def)
  from tr(1) have tr': "dtls13_send_secret (s\<lparr>send_seq := send_seq s + 1\<rparr>) = Some traffic"
    by (simp only: send_secret_seq)
  obtain key iv sn where keys: "dtls13_record_keys (cipher_suite s) traffic (tls_use_sha384 (cipher_suite s)) = (key, iv, sn)"
    by (metis prod_cases3)
  let ?inner = "dtls13_inner ty data" and ?seq = "send_seq s"
  define lw where "lw = (word_of_nat (length ?inner + 16) :: u16)"
  let ?ws = "ucast (?seq AND 0xffff) :: u16"
  have ws: "?ws = ucast ?seq" by (rule low16)
  have "length ?inner + 16 < 2 ^ 16" using assms(3) by (simp add: length_inner)
  then have wl: "unat lw = length ?inner + 16" unfolding lw_def unat_of_nat by simp
  define b0 where "b0 = 0x20 OR 0x08 OR 0x04 OR e"
  have e: "e = 2 \<or> e = 3" using send_epoch_cases [OF tr(1)] by (simp add: e_def)
  then have b0: "b0 = 0x2c OR e" "b0 AND 0xe0 = 0x20" "b0 AND 0x10 = 0" "b0 AND 0x08 \<noteq> 0" "b0 AND 0x04 \<noteq> 0" "b0 AND 3 = e"
    by (auto simp: b0_def)
  define ad where "ad = dtls13_ad b0 ?ws lw"
  obtain ct tag where seal: "aead_encrypt E (cipher_suite s) key (length key) (dtls13_nonce iv ?seq) ad ?inner = (ct, tag)"
    "length ct = length ?inner" "length tag = 16"
    "aead_decrypt E (cipher_suite s) key (length key) (dtls13_nonce iv ?seq) ad ct tag = Some ?inner"
    using suite_sealed [OF assms(2)] by blast
  define mask where "mask = dtls13_sn_mask E (cipher_suite s) sn ct"
  let ?hi = "ucast (drop_bit 8 ?ws) XOR mask ! 0" and ?lo = "ucast ?ws XOR mask ! 1"
  have p: "dtls13_protect E ty data s = ([b0, ?hi, ?lo] @ put16 lw @ ct @ tag, s\<lparr>send_seq := send_seq s + 1\<rparr>)"
    using seal(1,3) by (simp add: dtls13_protect_def Let_def tr' keys b0_def e_def ad_def mask_def lw_def)
  then show "s' = s\<lparr>send_seq := send_seq s + 1\<rparr>" using assms(6) by simp
  have rec: "rec = [b0, ?hi, ?lo] @ put16 lw @ ct @ tag" using p assms(6) by simp
  have lct: "16 \<le> length ct" by (simp add: seal(2) length_inner)
  then show "\<exists>hi lo wl body. rec = [0x2c OR e, hi, lo] @ put16 wl @ body \<and> length body = unat wl \<and> 32 \<le> length body"
    using rec b0(1) wl seal(2,3) by (metis (no_types, lifting) add_le_mono1 length_append nat_add_left_cancel_le numeral_Bit0)
  have "get16 rec 3 = lw" using get16_put16 [of "[b0, ?hi, ?lo]" lw "ct @ tag"] by (simp add: rec numeral_3_eq_3)
  moreover have len: "length rec = 5 + length ?inner + 16" by (simp add: rec seal(2,3))
  moreover have "rec ! 0 = b0" "take 2 (drop 1 rec) = [?hi, ?lo]" by (simp_all add: rec)
  ultimately have parse: "dtls13_parse_unified rec = Some (b0, True, [?hi, ?lo], 5, lw)"
    using b0 lct seal(2) wl by (auto simp: dtls13_parse_unified_def Let_def memcpy_at_def)
  have drop5: "drop 5 rec = ct @ tag" by (simp add: rec put16_def)
  have mask_r: "dtls13_sn_mask E (cipher_suite s) sn (drop 5 rec) = mask"
    unfolding drop5 mask_def by (rule sn_mask_prefix [OF lct])
  have n: "unat lw - 16 = length ct" using wl seal(2) by simp
  have "drop (5 + length ct) rec = drop (length ct) (drop 5 rec)" by (simp add: add.commute)
  then have ctag: "take (unat lw - 16) (drop 5 rec) = ct" "take 16 (drop (5 + (unat lw - 16)) rec) = tag"
    unfolding n drop5 using seal(3) by simp_all
  have seq: "push_bit 8 (ucast (?hi XOR mask ! 0)) OR ucast (?lo XOR mask ! 1) = ?ws"
    by (simp only: xor_cancel bytes_u16)
  have full: "dtls13_full_seq (recv_seq r) ?ws = ?seq"
    unfolding ws using assms(5) by (intro full_seq_val) (simp_all add: in_window_def)
  have nths: "[?hi, ?lo] ! 0 = ?hi" "[?hi, ?lo] ! 1 = ?lo" by simp_all
  have ct0: "unat lw - 16 \<noteq> 0" using wl by (simp add: length_inner)
  show "dtls13_unprotect E rec r = Some (ty, data, ?seq, received13 e ?seq r)"
    unfolding dtls13_unprotect_def parse option.case prod.case Let_def b0(6) ctag tr(2) cs keys mask_r if_True nths seq full
    using ct0 seal(4) strip_inner [OF assms(4), of data]
    by (simp add: ws ad_def received13_def)
qed

end
