(* ===== verification/DtlsApp.thy ===== *)
theory DtlsApp
  imports DtlsRound
begin

text \<open>
  Application data over DTLS, \<open>dtls_protect_application\<close> and \<open>dtls_unprotect_application\<close>: what one end sends
  the other gets, in order, whatever the number of records; and what happens to repeated records and to a
  ChangeCipherSpec from an attacker.
\<close>

section \<open>One record of a datagram\<close>

lemma parse12_step:
  assumes "peers12 s r" "suite_is_chacha20 (cipher_suite s) \<or> gcm_laws E" "length data \<le> 2 ^ 16 - 25"
    and "length (if is_server s then server_write_iv s else client_write_iv s) \<ge> 4"
    and "send_epoch s = recv_epoch r" "recv_epoch r \<noteq> 0" "ty \<noteq> 20"
    and "dtls12_protect E ty data s = (rec, s')"
  shows "\<exists>q. parse_dtls12_datagram E (rec @ rest) r events pend
     = parse_dtls12_datagram E rest r (events @ [\<lparr>ev_type = ty, ev_epoch = send_epoch s, ev_seq = q, ev_payload = data\<rparr>]) pend"
proof -
  from dtls12_protect_opens(1) [OF assms(1-4,8), of rest] obtain q payload where
    h: "dtls12_parse_header (rec @ rest) = Some (ty, send_epoch s, q, payload)" "length rec = 13 + length payload"
      "dtls12_unprotect_record E r ty (send_epoch s) q payload = Some data" by blast
  have "rec \<noteq> []" using h(2) by auto
  moreover have "drop (13 + length payload) (rec @ rest) = rest" using h(2) by simp
  ultimately show ?thesis using h assms(5-7)
    by (intro exI [of _ q]) (simp add: parse_dtls12_datagram.simps [of E "rec @ rest"] Let_def)
qed

lemma parse13_step:
  assumes "peers13 s r" "suite_is_chacha20 (cipher_suite s) \<or> gcm_laws E"
    and "length data < 65519" "ty \<noteq> 0" "in_window (recv_seq r) (send_seq s)"
    and "dtls13_protect E ty data s = (rec, s')"
  defines "e \<equiv> ucast (send_epoch s AND 3) :: u8"
  shows "parse_dtls13_datagram E (rec @ rest) r events pend
     = parse_dtls13_datagram E rest (received13 e (send_seq s) r)
         (events @ [\<lparr>ev_type = ty, ev_epoch = ucast e, ev_seq = send_seq s, ev_payload = data\<rparr>]) pend"
proof -
  note o = dtls13_protect_opens [OF assms(1-6), folded e_def]
  from o(3) obtain hi lo wl body where rec: "rec = [0x2c OR e, hi, lo] @ put16 wl @ body" "length body = unat wl" by blast
  have e: "e = 2 \<or> e = 3" using assms(1) send_epoch_cases unfolding e_def peers13_def by blast
  have g: "get16 (rec @ rest) 3 = wl"
    using get16_put16 [of "[0x2c OR e, hi, lo]" wl "body @ rest"] by (simp add: rec numeral_3_eq_3)
  have b0: "(rec @ rest) ! 0 = 0x2c OR e" "rec @ rest \<noteq> []" by (simp_all add: rec)
  have cut: "take (5 + unat wl) (rec @ rest) = rec" "drop (5 + unat wl) (rec @ rest) = rest" "5 + unat wl \<le> length (rec @ rest)"
  proof -
    have len: "5 + unat wl = length rec" by (simp add: rec)
    show "take (5 + unat wl) (rec @ rest) = rec" "drop (5 + unat wl) (rec @ rest) = rest" "5 + unat wl \<le> length (rec @ rest)"
      unfolding len by simp_all
  qed
  have nb: "(0x2c OR e = 22) = False" "(0x2c OR e = 26) = False" "(0x2c OR e = 20) = False" "(0x2c OR e = 21) = False"
    "((0x2c OR e) AND 0xe0 = 0x20) = True" "((0x2c OR e) AND 0x08 = 0) = False" "((0x2c OR e) AND 0x04 = 0) = False"
    using e by auto
  have hdr: "5 - 2 = (3 :: nat)" "1 + 2 + 2 = (5 :: nat)" by simp_all
  have nl: "(5 > length (rec @ rest)) = False" "(5 + unat wl > length (rec @ rest)) = False" using cut(3) by auto
  have step: "parse_dtls13_datagram E (rec @ rest) r events pend
    = (case dtls13_unprotect E rec r of
         Some (ty, pt, seq, s') \<Rightarrow> parse_dtls13_datagram E rest s'
            (events @ [\<lparr>ev_type = ty, ev_epoch = ucast ((0x2c OR e) AND 3), ev_seq = seq, ev_payload = pt\<rparr>]) pend
       | None \<Rightarrow> parse_dtls13_datagram E rest r events (pend @ rec))"
    unfolding parse_dtls13_datagram.simps [of E "rec @ rest"] b0(1) Let_def
    by (simp only: nb b0(2) g cut(1,2) nl if_True if_False simp_thms hdr)
  have "(0x2c OR e) AND 3 = e" using e by auto
  with o(1) step show ?thesis by simp
qed

section \<open>Application data\<close>

lemma parse12_done [simp]: "parse_dtls12_datagram E [] r events pend = (True, r, events, pend)"
  by (simp add: parse_dtls12_datagram.simps)

lemma parse13_done [simp]: "parse_dtls13_datagram E [] r events pend = (True, r, events, pend)"
  by (simp add: parse_dtls13_datagram.simps)

lemma protect_application_step:
  "data \<noteq> [] \<Longrightarrow> dtls_protect_application E data s =
     (let (rec, s) = (if ver s = V12 then dtls12_protect E 23 (take 1200 data) s else dtls13_protect E 23 (take 1200 data) s);
          (out, s) = dtls_protect_application E (drop 1200 data) s
      in (rec @ out, s))"
  by (simp add: dtls_protect_application.simps [of E data s] Let_def min_def split: prod.splits)

lemma protect_application_Nil [simp]: "dtls_protect_application E [] s = ([], s)"
  by (simp add: dtls_protect_application.simps)

lemma application12:
  "peers12 s r \<Longrightarrow> suite_is_chacha20 (cipher_suite s) \<or> gcm_laws E \<Longrightarrow>
   length (if is_server s then server_write_iv s else client_write_iv s) \<ge> 4 \<Longrightarrow>
   send_epoch s = recv_epoch r \<Longrightarrow> recv_epoch r \<noteq> 0 \<Longrightarrow> ver s = V12 \<Longrightarrow>
   \<exists>evs. parse_dtls12_datagram E (fst (dtls_protect_application E data s) @ rest) r events pend
       = parse_dtls12_datagram E rest r (events @ evs) pend
     \<and> concat (map ev_payload evs) = data \<and> (\<forall>ev\<in>set evs. ev_type ev = 23) \<and> (evs = [] \<longleftrightarrow> data = [])"
proof (induction "length data" arbitrary: data s events rule: less_induct)
  case less
  show ?case
  proof (cases "data = []")
    case False
    obtain rec s1 where p: "dtls12_protect E 23 (take 1200 data) s = (rec, s1)" by fastforce
    have "length (take 1200 data) \<le> 2 ^ 16 - 25" by simp
    note step = parse12_step [OF less.prems(1,2) this less.prems(3,4,5) _ p]
    have s1: "s1 = s\<lparr>send_seq := send_seq s + 1, os_random := os_random s1\<rparr>"
      using dtls12_protect_opens(2) [OF less.prems(1,2) \<open>length (take 1200 data) \<le> 2 ^ 16 - 25\<close> less.prems(3) p] .
    obtain out s2 where q: "dtls_protect_application E (drop 1200 data) s1 = (out, s2)" by fastforce
    have pre: "peers12 s1 r" "cipher_suite s1 = cipher_suite s" "ver s1 = V12" "send_epoch s1 = send_epoch s"
      "is_server s1 = is_server s" "server_write_iv s1 = server_write_iv s" "client_write_iv s1 = client_write_iv s"
      using less.prems(1,6) by (subst s1, simp add: peers12_def)+
    obtain q1 where st: "parse_dtls12_datagram E (rec @ out @ rest) r events pend
      = parse_dtls12_datagram E (out @ rest) r
          (events @ [\<lparr>ev_type = 23, ev_epoch = send_epoch s, ev_seq = q1, ev_payload = take 1200 data\<rparr>]) pend"
      using step [of "out @ rest" events pend] by auto
    let ?ev = "\<lparr>ev_type = 23, ev_epoch = send_epoch s, ev_seq = q1, ev_payload = take 1200 data\<rparr>"
    have "length (drop 1200 data) < length data" using False by simp
    moreover have "suite_is_chacha20 (cipher_suite s1) \<or> gcm_laws E" using less.prems(2) by (simp add: pre)
    moreover have "length (if is_server s1 then server_write_iv s1 else client_write_iv s1) \<ge> 4"
      using less.prems(3) by (cases "is_server s") (simp_all add: pre)
    moreover have "send_epoch s1 = recv_epoch r" using less.prems(4) by (simp add: pre)
    ultimately obtain evs where evs: "parse_dtls12_datagram E (out @ rest) r (events @ [?ev]) pend
        = parse_dtls12_datagram E rest r ((events @ [?ev]) @ evs) pend"
      "concat (map ev_payload evs) = drop 1200 data" "\<forall>ev\<in>set evs. ev_type ev = 23"
      using less.hyps [OF _ pre(1) _ _ _ less.prems(5) pre(3), of "drop 1200 data" "events @ [?ev]"] q by auto
    let ?evs = "?ev # evs"
    have "fst (dtls_protect_application E data s) = rec @ out"
      using protect_application_step [OF False, of E s] p q less.prems(6) by simp
    then show ?thesis using st evs False by (intro exI [of _ ?evs]) simp
  qed (auto intro: exI [of _ "[]"])
qed

text \<open>DTLS 1.3: each record moves the receiver's number on.\<close>

lemma received13_simps [simp]:
  "cipher_suite (received13 e q r) = cipher_suite r" "ver (received13 e q r) = ver r"
  "dtls13_recv_traffic (received13 e q r) b = dtls13_recv_traffic r b"
  by (simp_all add: received13_def dtls13_recv_traffic_def)

lemma received13_window:
  assumes "in_window (recv_seq r) q" "unat q + 1 < 2 ^ 64 - 2 ^ 17"
  shows "in_window (recv_seq (received13 e q r)) (q + 1)"
proof -
  have q1: "unat (q + 1) = unat q + 1" using assms(2) by (simp add: unat_plus)
  have "recv_seq (received13 e q r) = q + 1 \<or> recv_seq (received13 e q r) = recv_seq r \<and> q + 1 \<le> recv_seq r"
    by (auto simp: received13_def not_less)
  then show ?thesis
  proof
    assume "recv_seq (received13 e q r) = q + 1"
    then show ?thesis using assms(2) q1 by (simp add: in_window_def)
  next
    assume a: "recv_seq (received13 e q r) = recv_seq r \<and> q + 1 \<le> recv_seq r"
    then have "unat q + 1 \<le> unat (recv_seq r)" by (simp add: word_le_nat_alt q1)
    with a assms(1) q1 show ?thesis by (simp add: in_window_def)
  qed
qed

lemma application13:
  "peers13 s r \<Longrightarrow> suite_is_chacha20 (cipher_suite s) \<or> gcm_laws E \<Longrightarrow> in_window (recv_seq r) (send_seq s) \<Longrightarrow>
   unat (send_seq s) + length data < 2 ^ 64 - 2 ^ 17 \<Longrightarrow> ver s = V13 \<Longrightarrow>
   \<exists>evs r'. parse_dtls13_datagram E (fst (dtls_protect_application E data s) @ rest) r events pend
       = parse_dtls13_datagram E rest r' (events @ evs) pend
     \<and> concat (map ev_payload evs) = data \<and> (\<forall>ev\<in>set evs. ev_type ev = 23) \<and> (evs = [] \<longleftrightarrow> data = [])"
proof (induction "length data" arbitrary: data s r events rule: less_induct)
  case less
  show ?case
  proof (cases "data = []")
    case False
    let ?e = "ucast (send_epoch s AND 3) :: u8" and ?r = "received13 (ucast (send_epoch s AND 3)) (send_seq s) r"
    let ?ev = "\<lparr>ev_type = 23, ev_epoch = ucast ?e, ev_seq = send_seq s, ev_payload = take 1200 data\<rparr>"
    obtain rec s1 where p: "dtls13_protect E 23 (take 1200 data) s = (rec, s1)" by fastforce
    have len: "length (take 1200 data) < 65519" by simp
    have s1: "s1 = s\<lparr>send_seq := send_seq s + 1\<rparr>"
      using dtls13_protect_opens(2) [OF less.prems(1,2) len _ less.prems(3) p] by simp
    obtain out s2 where q: "dtls_protect_application E (drop 1200 data) s1 = (out, s2)" by fastforce
    have st: "parse_dtls13_datagram E (rec @ out @ rest) r events pend
        = parse_dtls13_datagram E (out @ rest) ?r (events @ [?ev]) pend"
      using parse13_step [OF less.prems(1,2) len _ less.prems(3) p] by simp
    have pos: "0 < length data" using False by simp
    then have bound: "unat (send_seq s) + 1 < 2 ^ 64 - 2 ^ 17" using less.prems(4) by linarith
    have "peers13 s1 ?r" using less.prems(1) by (simp add: s1 peers13_def send_secret_seq)
    moreover have "suite_is_chacha20 (cipher_suite s1) \<or> gcm_laws E" using less.prems(2) by (simp add: s1)
    moreover have "in_window (recv_seq ?r) (send_seq s1)" using received13_window [OF less.prems(3) bound] by (simp add: s1)
    moreover have "unat (send_seq s1) + length (drop 1200 data) < 2 ^ 64 - 2 ^ 17"
    proof -
      have "unat (send_seq s + 1) = unat (send_seq s) + 1" using bound by (simp add: unat_plus)
      moreover have "length (drop 1200 data) + 1 \<le> length data" unfolding length_drop using pos by linarith
      ultimately show ?thesis using less.prems(4) unfolding s1 by simp
    qed
    moreover have "ver s1 = V13" using less.prems(5) by (simp add: s1)
    moreover have "length (drop 1200 data) < length data" using False by simp
    ultimately obtain evs r' where evs: "parse_dtls13_datagram E (out @ rest) ?r (events @ [?ev]) pend
        = parse_dtls13_datagram E rest r' ((events @ [?ev]) @ evs) pend"
      "concat (map ev_payload evs) = drop 1200 data" "\<forall>ev\<in>set evs. ev_type ev = 23"
      using less.hyps [of "drop 1200 data" s1 ?r "events @ [?ev]"] q by auto
    have "fst (dtls_protect_application E data s) = rec @ out"
      using protect_application_step [OF False, of E s] p q less.prems(5) by simp
    then show ?thesis using st evs False by (intro exI [of _ "?ev # evs"] exI [of _ r']) simp
  qed (auto intro: exI [of _ "[]"])
qed

section \<open>Properties\<close>

text \<open>\<open>r\<close> can read what \<open>s\<close> sends: mirrored keys, the same epoch, and for DTLS 1.3 a number within the window.\<close>

definition connected :: "dtls_session \<Rightarrow> dtls_session \<Rightarrow> bool" where
  "connected s r \<longleftrightarrow> ver r = ver s
     \<and> (if ver s = V12
        then peers12 s r \<and> 4 \<le> length (if is_server s then server_write_iv s else client_write_iv s)
          \<and> send_epoch s = recv_epoch r \<and> recv_epoch r \<noteq> 0
        else peers13 s r \<and> in_window (recv_seq r) (send_seq s))"

lemma application_arrives:
  assumes "connected s r" "suite_is_chacha20 (cipher_suite s) \<or> gcm_laws E"
    and "unat (send_seq s) + length data < 2 ^ 64 - 2 ^ 17"
  shows "\<exists>r'. dtls_unprotect_application E (fst (dtls_protect_application E data s)) r = (data \<noteq> [], data, r')"
proof (cases "ver s")
  case V12
  with assms(1) have "peers12 s r" "4 \<le> length (if is_server s then server_write_iv s else client_write_iv s)"
    "send_epoch s = recv_epoch r" "recv_epoch r \<noteq> 0" "ver r = V12" by (simp_all add: connected_def)
  from application12 [OF this(1) assms(2) this(2-4) V12, where rest = "[]" and events = "[]" and pend = "[]"] this(5)
  obtain evs where "parse_dtls12_datagram E (fst (dtls_protect_application E data s)) r [] [] = (True, r, evs, [])"
    "concat (map ev_payload evs) = data" "\<forall>ev\<in>set evs. ev_type ev = 23" "evs = [] \<longleftrightarrow> data = []" by auto
  moreover from this(3) have "filter (\<lambda>ev. ev_type ev = 23) evs = evs" by simp
  ultimately show ?thesis using \<open>ver r = V12\<close> by (simp add: dtls_unprotect_application_def)
next
  case V13
  with assms(1) have "peers13 s r" "in_window (recv_seq r) (send_seq s)" "ver r = V13" by (simp_all add: connected_def)
  from application13 [OF this(1) assms(2) this(2) assms(3) V13, where rest = "[]" and events = "[]" and pend = "[]"] this(3)
  obtain evs r' where "parse_dtls13_datagram E (fst (dtls_protect_application E data s)) r [] [] = (True, r', evs, [])"
    "concat (map ev_payload evs) = data" "\<forall>ev\<in>set evs. ev_type ev = 23" "evs = [] \<longleftrightarrow> data = []" by auto
  moreover from this(3) have "filter (\<lambda>ev. ev_type ev = 23) evs = evs" by simp
  ultimately show ?thesis using \<open>ver r = V13\<close> by (simp add: dtls_unprotect_application_def)
qed

text \<open>A record twice in a row.\<close>

lemma replay_arrives:
  assumes "connected s r" "suite_is_chacha20 (cipher_suite s) \<or> gcm_laws E" "data \<noteq> []" "length data \<le> 1200"
    and "unat (send_seq s) + 1 < 2 ^ 64 - 2 ^ 17"
  defines "rec \<equiv> fst (dtls_protect_application E data s)"
  shows "\<exists>r'. dtls_unprotect_application E (rec @ rec) r = (True, data @ data, r')"
proof (cases "ver s")
  case V12
  with assms(1) have c: "peers12 s r" "4 \<le> length (if is_server s then server_write_iv s else client_write_iv s)"
    "send_epoch s = recv_epoch r" "recv_epoch r \<noteq> 0" "ver r = V12" by (simp_all add: connected_def)
  note a = application12 [OF c(1) assms(2) c(2-4) V12]
  obtain evs where e: "parse_dtls12_datagram E (rec @ rec) r [] [] = parse_dtls12_datagram E rec r evs []"
    "concat (map ev_payload evs) = data" "\<forall>ev\<in>set evs. ev_type ev = 23" "evs = [] \<longleftrightarrow> data = []"
    using a [of data rec "[]" "[]"] by (auto simp: rec_def)
  obtain evs' where "parse_dtls12_datagram E rec r evs [] = (True, r, evs @ evs', [])"
    "concat (map ev_payload evs') = data" "\<forall>ev\<in>set evs'. ev_type ev = 23"
    using a [of data "[]" evs "[]"] by (auto simp: rec_def)
  moreover from this(3) e(3) have "filter (\<lambda>ev. ev_type ev = 23) (evs @ evs') = evs @ evs'" by simp
  ultimately show ?thesis using c(5) e assms(3) by (simp add: dtls_unprotect_application_def)
next
  case V13
  with assms(1) have c: "peers13 s r" "in_window (recv_seq r) (send_seq s)" "ver r = V13" by (simp_all add: connected_def)
  obtain x s1 where p: "dtls13_protect E 23 data s = (x, s1)" by fastforce
  have rec: "rec = x" using protect_application_step [OF assms(3), of E s] V13 p assms(4) by (simp add: rec_def)
  have len: "length data < 65519" using assms(4) by simp
  let ?r = "received13 (ucast (send_epoch s AND 3)) (send_seq s) r"
  have step: "parse_dtls13_datagram E (rec @ rec) r [] [] = parse_dtls13_datagram E rec ?r
      [\<lparr>ev_type = 23, ev_epoch = ucast (ucast (send_epoch s AND 3) :: u8), ev_seq = send_seq s, ev_payload = data\<rparr>] []"
    unfolding rec using parse13_step [OF c(1) assms(2) len _ c(2) p, of rec "[]" "[]"] rec by simp
  have "in_window (recv_seq ?r) (send_seq s + 1)" by (rule received13_window [OF c(2) assms(5)])
  moreover have "unat (send_seq s + 1) = unat (send_seq s) + 1" using assms(5) by (simp add: unat_plus)
  moreover have "send_seq s + 1 = recv_seq ?r \<or> recv_seq ?r = recv_seq r" by (auto simp: received13_def)
  ultimately have w: "in_window (recv_seq ?r) (send_seq s)" using c(2) by (auto simp: in_window_def)
  have "peers13 s ?r" using c(1) by (simp add: peers13_def)
  from parse13_step [OF this assms(2) len _ w p, of "[]"]
  have "\<exists>r' evs. parse_dtls13_datagram E (rec @ rec) r [] [] = (True, r', evs, []) \<and> concat (map ev_payload evs) = data @ data
      \<and> (\<forall>ev\<in>set evs. ev_type ev = 23) \<and> evs \<noteq> []"
    unfolding step by (simp add: rec)
  then obtain r' evs where e: "parse_dtls13_datagram E (rec @ rec) r [] [] = (True, r', evs, [])"
    "concat (map ev_payload evs) = data @ data" "\<forall>ev\<in>set evs. ev_type ev = 23" "evs \<noteq> []" by blast
  moreover from e(3) have "filter (\<lambda>ev. ev_type ev = 23) evs = evs" by simp
  ultimately show ?thesis using c(3) by (simp add: dtls_unprotect_application_def)
qed

text \<open>A ChangeCipherSpec that nobody authenticated.\<close>

lemma plaintext_ccs:
  assumes "ver r = V12"
  shows "dtls_unprotect_application E (plaintext_record 20 (recv_epoch r) q [1]) r = (False, [], r\<lparr>recv_epoch := recv_epoch r + 1\<rparr>)"
proof -
  have "length [1 :: u8] < 2 ^ 16" by simp
  from parse_dtls12_header [OF this, of 20 "recv_epoch r" q "[]"] obtain q' where
    h: "dtls12_parse_header (plaintext_record 20 (recv_epoch r) q [1]) = Some (20, recv_epoch r, q', [1])"
    by (auto simp: plaintext_record_def)
  have l: "length (plaintext_record 20 (recv_epoch r) q [1]) = 14" by (simp add: plaintext_record_def)
  then have ne: "plaintext_record 20 (recv_epoch r) q [1] \<noteq> []" by auto
  have "parse_dtls12_datagram E (plaintext_record 20 (recv_epoch r) q [1]) r [] []
      = (True, r\<lparr>recv_epoch := recv_epoch r + 1\<rparr>, [\<lparr>ev_type = 20, ev_epoch = recv_epoch r, ev_seq = q', ev_payload = [1]\<rparr>], [])"
    using h l ne by (subst parse_dtls12_datagram.simps) (simp add: Let_def)
  with assms show ?thesis by (simp add: dtls_unprotect_application_def)
qed

lemma skipped12:
  "peers12 s r \<Longrightarrow> suite_is_chacha20 (cipher_suite s) \<or> gcm_laws E \<Longrightarrow>
   length (if is_server s then server_write_iv s else client_write_iv s) \<ge> 4 \<Longrightarrow>
   send_epoch s \<noteq> recv_epoch r' \<Longrightarrow> ver s = V12 \<Longrightarrow>
   parse_dtls12_datagram E (fst (dtls_protect_application E data s)) r' events pend = (True, r', events, pend)"
proof (induction "length data" arbitrary: data s rule: less_induct)
  case less
  show ?case
  proof (cases "data = []")
    case False
    obtain rec s1 where p: "dtls12_protect E 23 (take 1200 data) s = (rec, s1)" by fastforce
    obtain out s2 where q: "dtls_protect_application E (drop 1200 data) s1 = (out, s2)" by fastforce
    have len: "length (take 1200 data) \<le> 2 ^ 16 - 25" by simp
    note o = dtls12_protect_opens [OF less.prems(1,2) len less.prems(3) p]
    have pre: "peers12 s1 r" "cipher_suite s1 = cipher_suite s" "ver s1 = V12" "send_epoch s1 = send_epoch s"
      "is_server s1 = is_server s" "server_write_iv s1 = server_write_iv s" "client_write_iv s1 = client_write_iv s"
      using less.prems(1,5) by (subst o(2), simp add: peers12_def)+
    from o(1) [of out] obtain n payload where h: "dtls12_parse_header (rec @ out) = Some (23, send_epoch s, n, payload)"
      "length rec = 13 + length payload" by blast
    have "rec \<noteq> []" using h(2) by auto
    then have "parse_dtls12_datagram E (rec @ out) r' events pend = parse_dtls12_datagram E out r' events pend"
      using h less.prems(4) by (subst parse_dtls12_datagram.simps) (simp add: Let_def)
    moreover have "length (drop 1200 data) < length data" using False by simp
    moreover have "length (if is_server s1 then server_write_iv s1 else client_write_iv s1) \<ge> 4"
      using less.prems(3) by (cases "is_server s") (simp_all add: pre)
    ultimately have "parse_dtls12_datagram E (rec @ out) r' events pend = (True, r', events, pend)"
      using less.hyps [of "drop 1200 data" s1] pre less.prems q by simp
    moreover have "fst (dtls_protect_application E data s) = rec @ out"
      using protect_application_step [OF False, of E s] p q less.prems(5) by simp
    ultimately show ?thesis by simp
  qed simp
qed

text \<open>Two connected sessions of each version, for the instances below; with ChaCha20 they use none of the parameters.\<close>

definition example_env :: dtls_env where
  "example_env = \<lparr>aes_gcm_seal = \<lambda>_ _ _ p. (p, replicate 16 0), aes_gcm_open = \<lambda>_ _ _ ct _. Some ct,
     aes_encrypt_block = \<lambda>_ b. b, x448_mult = \<lambda>_ p. p, x25519_mult = \<lambda>_ p. p, p256_ecdh = \<lambda>_ p. Some p,
     keygen = \<lambda>_ r. (replicate 32 0, replicate 32 0, r), make_x509_self_signed = \<lambda>_. [], stack12 = replicate 12 0\<rparr>"

definition example_session :: "DTLSVersion \<Rightarrow> bool \<Rightarrow> dtls_session" where
  "example_session v srv = (dtls_session_default [])
     \<lparr>ver := v, is_server := srv, cipher_suite := (if v = V12 then 0xCCA8 else 0x1303), key_len := 32, iv_len := 12,
      send_epoch := 3, recv_epoch := 3\<rparr>"

lemma example_connected:
  "connected (example_session v False) (example_session v True)"
  "suite_is_chacha20 (cipher_suite (example_session v b))" "send_seq (example_session v b) = 0"
  "ver (example_session v b) = v" "recv_epoch (example_session v b) = 3"
  by (cases v; simp add: connected_def peers12_def peers13_def in_window_def example_session_def dtls_session_default_def
      dtls13_send_secret_def dtls13_recv_traffic_def suite_is_chacha20_def)+

text \<open>
  C10. Whatever application data one end of a connection protects, in as many records of 1200 bytes as it takes, the
  other end gets back whole and in order: for DTLS 1.2 and 1.3, with ChaCha20-Poly1305 of the library, and with
  AES-GCM when that is an AEAD.
\<close>

theorem application_data_arrives:
  assumes "connected s r" "suite_is_chacha20 (cipher_suite s) \<or> gcm_laws E"
    and "unat (send_seq s) + length data < 2 ^ 64 - 2 ^ 17"
  shows "\<exists>r'. dtls_unprotect_application E (fst (dtls_protect_application E data s)) r = (data \<noteq> [], data, r')"
  by (rule application_arrives [OF assms])

theorem application_data_arrives_witness:
  "\<exists>r'. dtls_unprotect_application example_env
      (fst (dtls_protect_application example_env (replicate 3000 7) (example_session V13 False))) (example_session V13 True)
    = (True, replicate 3000 7, r')"
  using application_data_arrives [of "example_session V13 False" "example_session V13 True" example_env "replicate 3000 7"]
    example_connected by simp

text \<open>
  C25. There is no replay protection: a datagram that carries the same record twice delivers its data twice, for both
  versions, although RFC 6347 and RFC 9147 describe a sliding window and the header of the module claims one.
\<close>

theorem replayed_record_is_delivered_again:
  assumes "connected s r" "suite_is_chacha20 (cipher_suite s) \<or> gcm_laws E" "data \<noteq> []" "length data \<le> 1200"
    and "unat (send_seq s) + 1 < 2 ^ 64 - 2 ^ 17"
  shows "\<exists>r'. dtls_unprotect_application E
      (fst (dtls_protect_application E data s) @ fst (dtls_protect_application E data s)) r = (True, data @ data, r')"
  by (rule replay_arrives [OF assms])

theorem replayed_record_is_delivered_again_witness:
  "\<exists>r'. dtls_unprotect_application example_env
      (fst (dtls_protect_application example_env (ascii ''pay 10'') (example_session V12 False))
       @ fst (dtls_protect_application example_env (ascii ''pay 10'') (example_session V12 False))) (example_session V12 True)
    = (True, ascii ''pay 10'' @ ascii ''pay 10'', r')"
  using replayed_record_is_delivered_again [of "example_session V12 False" "example_session V12 True" example_env "ascii ''pay 10''"]
    example_connected by (simp add: ascii_def)

text \<open>
  C27. An attacker who knows no key cuts a DTLS 1.2 connection with one datagram of fourteen bytes: a plaintext
  ChangeCipherSpec of the current epoch makes the receiver move to the next epoch, and nothing the peer sends from
  then on is delivered.
\<close>

theorem plaintext_ccs_cuts_connection:
  assumes "connected s r" "ver s = V12" "suite_is_chacha20 (cipher_suite s) \<or> gcm_laws E"
  shows "\<exists>r'. dtls_unprotect_application E (plaintext_record 20 (recv_epoch r) q [1]) r = (False, [], r')
    \<and> length (plaintext_record 20 (recv_epoch r) q [1]) = 14 \<and> recv_epoch r' = recv_epoch r + 1
    \<and> dtls_unprotect_application E (fst (dtls_protect_application E data s)) r' = (False, [], r')"
proof -
  let ?r = "r\<lparr>recv_epoch := recv_epoch r + 1\<rparr>"
  have v: "ver r = V12" using assms(1,2) by (simp add: connected_def)
  have c: "peers12 s r" "4 \<le> length (if is_server s then server_write_iv s else client_write_iv s)"
    "send_epoch s = recv_epoch r" using assms(1,2) by (simp_all add: connected_def)
  have "send_epoch s \<noteq> recv_epoch ?r" by (simp add: c(3))
  from skipped12 [OF c(1) assms(3) c(2) this assms(2), of data "[]" "[]"] have
    "dtls_unprotect_application E (fst (dtls_protect_application E data s)) ?r = (False, [], ?r)"
    by (simp add: dtls_unprotect_application_def v)
  then show ?thesis using plaintext_ccs [OF v, of E q] by (auto simp: plaintext_record_def dtls12_header_def put16_def put48_def)
qed

theorem plaintext_ccs_cuts_connection_witness:
  "\<exists>r'. dtls_unprotect_application example_env (fst (dtls_protect_application example_env (ascii ''hello'') (example_session V12 False))) r'
      = (False, [], r') \<and> recv_epoch r' = 4"
  using plaintext_ccs_cuts_connection [of "example_session V12 False" "example_session V12 True" example_env 9 "ascii ''hello''"]
    example_connected by auto

end
