(* ===== verification/DtlsHello.thy ===== *)
theory DtlsHello
  imports DtlsRecord "HOL-Library.Product_Lexorder"
begin

text \<open>
  The handshake messages of \<open>src/src/dtls.cpp\<close>: framing, the bodies both sides build, the parser of the
  ClientHello, the key exchange, the certificates of the server and the cookie.
\<close>

section \<open>Framing\<close>

definition frame_handshake :: "dtls_session \<Rightarrow> u8 \<Rightarrow> bytes \<Rightarrow> nat \<Rightarrow> nat \<Rightarrow> bytes" where
  "frame_handshake s ty body frag_offset frag_len =
     [ty] @ put24 (word_of_nat (length body)) @ put16 (send_msg_seq s)
     @ put24 (word_of_nat frag_offset) @ put24 (word_of_nat frag_len) @ take frag_len (drop frag_offset body)"

definition inner_handshake :: "u8 \<Rightarrow> bytes \<Rightarrow> bytes" where
  "inner_handshake ty body = [ty] @ put24 (word_of_nat (length body)) @ body"

definition frame_inner :: "dtls_session \<Rightarrow> bytes \<Rightarrow> nat \<Rightarrow> nat \<Rightarrow> bytes" where
  "frame_inner s inner frag_offset frag_len =
     [inner ! 0] @ put24 (word_of_nat (length inner - 4)) @ put16 (send_msg_seq s)
     @ put24 (word_of_nat frag_offset) @ put24 (word_of_nat frag_len) @ take frag_len (drop (4 + frag_offset) inner)"

definition transcript_add_msg :: "u8 \<Rightarrow> u16 \<Rightarrow> bytes \<Rightarrow> bool \<Rightarrow> dtls_session \<Rightarrow> dtls_session" where
  "transcript_add_msg mtype msg_seq body dtls13 s =
     (if dtls13 then transcript_add (inner_handshake mtype body) s
      else transcript_add
             ([mtype] @ put24 (word_of_nat (length body)) @ put16 msg_seq @ put24 0
              @ put24 (word_of_nat (length body)) @ body) s)"

function find_extension :: "bytes \<Rightarrow> u16 \<Rightarrow> bytes option" where
  "find_extension ext want =
     (if 4 \<le> length ext
      then let elen = unat (get16 ext 2)
           in if 4 + elen > length ext then None
              else if get16 ext 0 = want then Some (take elen (drop 4 ext))
              else find_extension (drop (4 + elen) ext) want
      else None)"
  by pat_completeness auto
termination
  by (relation "measure (\<lambda>(ext, _). length ext)") auto

declare find_extension.simps [simp del]

section \<open>The hellos\<close>

definition put16s :: "u16 list \<Rightarrow> bytes" where
  "put16s xs = concat (map put16 xs)"

definition sni_extension :: "bytes \<Rightarrow> bytes" where
  "sni_extension name =
     (if name = [] then []
      else [0x00, 0x00] @ put16 (word_of_nat (5 + length name)) @ put16 (word_of_nat (3 + length name))
           @ [0] @ put16 (word_of_nat (length name)) @ name)"

text \<open>A list of 16-bit values, after its length and the length of the extension.\<close>

definition list_extension :: "u16 \<Rightarrow> u16 list \<Rightarrow> bytes" where
  "list_extension ty xs =
     put16 ty @ put16 (word_of_nat (2 + length xs * 2)) @ put16 (word_of_nat (length xs * 2)) @ put16s xs"

definition effective_algs :: "dtls_session \<Rightarrow> u16 list" where
  "effective_algs s = (if sig_algs s = [] then tls_default_signature_algorithms else sig_algs s)"

definition build_ch12_body :: "dtls_session \<Rightarrow> u16 list \<Rightarrow> bytes" where
  "build_ch12_body s suites =
     (let groups = (if ks_group s = 0x0017 then [0x0017, 0x001d] else [0x001d, 0x0017]);
          algs = filter (\<lambda>a. a \<noteq> SM2_SM3) (effective_algs s);
          ext = sni_extension (server_name s)
                @ list_extension 0x000a groups @ [0x00, 0x0b, 0x00, 0x02, 0x01, 0x00]
                @ [0xff, 0x01, 0x00, 0x01, 0x00]
                @ list_extension 0x000d algs
      in put16 0xfefd @ client_random s @ [0] @ [word_of_nat (length (cookie s))] @ cookie s
         @ put16 (word_of_nat (length suites * 2)) @ put16s suites @ [1, 0]
         @ put16 (word_of_nat (length ext)) @ ext)"

text \<open>The entry of a key share: group, length and key; a P-256 key as an uncompressed point.\<close>

definition key_share_entry :: "dtls_session \<Rightarrow> bytes" where
  "key_share_entry s =
     (if ks_group s = 0x001e then put16 0x001e @ put16 56 @ take 56 (ks_pub s)
      else if ks_group s = 0x0017 then put16 0x0017 @ put16 65 @ [0x04] @ take 64 (ks_pub s)
      else put16 0x001d @ put16 32 @ take 32 (ks_pub s))"

definition build_ch13_body :: "dtls_session \<Rightarrow> u16 list \<Rightarrow> bytes" where
  "build_ch13_body s suites =
     (let groups = (if ks_group s = 0x001e then [0x001e, 0x001d]
                    else if ks_group s = 0x0017 then [0x0017, 0x001d] else [0x001d]);
          shares = key_share_entry s;
          ext = sni_extension (server_name s)
                @ [0x00, 0x2b, 0x00, 0x03, 0x02, 0xfe, 0xfc]
                @ list_extension 0x000a groups
                @ list_extension 0x000d (effective_algs s)
                @ [0x00, 0x33] @ put16 (word_of_nat (2 + length shares)) @ put16 (word_of_nat (length shares)) @ shares
      in put16 0xfefd @ client_random s @ [0, 0]
         @ put16 (word_of_nat (length suites * 2)) @ put16s suites @ [1, 0]
         @ put16 (word_of_nat (length ext)) @ ext)"

definition build_sh_body :: "dtls_session \<Rightarrow> bool \<Rightarrow> bytes" where
  "build_sh_body s dtls13 =
     (let ks = key_share_entry s;
          ext = (if dtls13
                 then [0x00, 0x2b, 0x00, 0x02, 0xfe, 0xfc] @ [0x00, 0x33] @ put16 (word_of_nat (length ks)) @ ks
                 else [0xff, 0x01, 0x00, 0x01, 0x00])
      in put16 0xfefd @ server_random s @ [0] @ put16 (cipher_suite s) @ [0]
         @ put16 (word_of_nat (length ext)) @ ext)"

record ch_info =
  ch_legacy_version :: u16
  ch_sni :: bytes
  ch_suites :: "u16 list"
  ch_cookie_field :: bytes
  ch_has_key_share :: bool
  ch_ks_group :: u16
  ch_ks_pub :: bytes
  ch_sig_algs :: "u16 list"

text \<open>\<open>for (i = 0; i + 1 < n; i += 2) push(get16(p + i))\<close>\<close>

fun get16s :: "bytes \<Rightarrow> u16 list" where
  "get16s (a # b # p) = get16 [a, b] 0 # get16s p"
| "get16s _ = []"

text \<open>The first share that fits, from \<open>d + p\<close> up to \<open>end\<close>.\<close>

function key_share_loop :: "bytes \<Rightarrow> (u16 \<times> bytes) option" where
  "key_share_loop d =
     (if 4 \<le> length d
      then let klen = unat (get16 d 2)
           in if 4 + klen \<le> length d then Some (get16 d 0, take klen (drop 4 d))
              else key_share_loop (drop (4 + klen) d)
      else None)"
  by pat_completeness auto
termination
  by (relation "measure length") auto

declare key_share_loop.simps [simp del]

definition parse_ch_sni :: "bytes \<Rightarrow> bytes" where
  "parse_ch_sni ext =
     (case find_extension ext 0x0000 of None \<Rightarrow> []
      | Some d \<Rightarrow>
          if length d \<ge> 5 \<and> 5 + unat (get16 d 3) \<le> length d then take (unat (get16 d 3)) (drop 5 d) else [])"

definition parse_ch_sig_algs :: "bytes \<Rightarrow> u16 list" where
  "parse_ch_sig_algs ext =
     (case find_extension ext 0x000d of None \<Rightarrow> []
      | Some d \<Rightarrow>
          if length d \<ge> 2
          then let ll = unat (get16 d 0)
               in if 2 + ll \<le> length d \<and> even ll then get16s (take ll (drop 2 d)) else []
          else [])"

definition parse_ch_key_share :: "bytes \<Rightarrow> (u16 \<times> bytes) option" where
  "parse_ch_key_share ext =
     (case find_extension ext 0x0033 of None \<Rightarrow> None
      | Some d \<Rightarrow>
          if length d \<ge> 6 then key_share_loop (drop 2 (take (min (2 + unat (get16 d 0)) (length d)) d)) else None)"

text \<open>The offsets are those of the code, named after the field they lie behind.\<close>

definition parse_client_hello :: "bytes \<Rightarrow> ch_info option" where
  "parse_client_hello body =
     (if length body < 2 + 32 then None
      else let off = 34 in if off + 1 > length body then None
      else let off = off + 1 + unat (body ! off) in if off + 1 > length body then None
      else let cookie_len = unat (body ! off) in if off + 1 + cookie_len > length body then None
      else let cookie_field = take (1 + cookie_len) (drop off body);
               off = off + 1 + cookie_len
           in if off + 2 > length body then None
      else let cs_len = unat (get16 body off);
               off = off + 2
           in if off + cs_len > length body \<or> odd cs_len then None
      else let suites = get16s (take cs_len (drop off body));
               off = off + cs_len
           in if off + 1 > length body then None
      else let off = off + 1 + unat (body ! off) in if off + 2 > length body then None
      else let ext_total = unat (get16 body off);
               off = off + 2
           in if off + ext_total > length body then None
      else let ext = take ext_total (drop off body);
               share = parse_ch_key_share ext
           in Some \<lparr>ch_legacy_version = get16 body 0, ch_sni = parse_ch_sni ext, ch_suites = suites,
                    ch_cookie_field = cookie_field, ch_has_key_share = share \<noteq> None,
                    ch_ks_group = (case share of None \<Rightarrow> 0 | Some (g, _) \<Rightarrow> g),
                    ch_ks_pub = (case share of None \<Rightarrow> [] | Some (_, k) \<Rightarrow> k),
                    ch_sig_algs = parse_ch_sig_algs ext\<rparr>)"

section \<open>Other bodies\<close>

definition build_hvr_body :: "u16 \<Rightarrow> bytes \<Rightarrow> bytes" where
  "build_hvr_body v ck = put16 v @ [word_of_nat (length ck)] @ ck"

definition cert_der :: "dtls_env \<Rightarrow> tls_certificate \<Rightarrow> bytes" where
  "cert_der E cert = (if cert_data cert = [] then make_x509_self_signed E cert else cert_data cert)"

definition build_cert_body12 :: "dtls_env \<Rightarrow> tls_certificate \<Rightarrow> bytes" where
  "build_cert_body12 E cert =
     (let der = cert_der E cert
      in put24 (word_of_nat (3 + length der)) @ put24 (word_of_nat (length der)) @ der)"

definition build_cert_body13 :: "dtls_env \<Rightarrow> tls_certificate \<Rightarrow> bytes" where
  "build_cert_body13 E cert =
     (let der = cert_der E cert
      in [0] @ put24 (word_of_nat (3 + length der + 2)) @ put24 (word_of_nat (length der)) @ der @ put16 0)"

text \<open>The salt \<open>os_rand_bytes\<close> gives to a PSS scheme; other schemes ask for none.\<close>

definition sign_salt :: "u16 \<Rightarrow> dtls_session \<Rightarrow> bytes option \<times> dtls_session" where
  "sign_salt scheme s =
     (case pss_hash_of_scheme scheme of None \<Rightarrow> (None, s)
      | Some h \<Rightarrow>
          let n = pss_hash_size h
          in if n \<le> length (os_random s) then (Some (take n (os_random s)), s\<lparr>os_random := drop n (os_random s)\<rparr>)
             else (None, s\<lparr>os_random := []\<rparr>))"

definition build_skx_body :: "crypto \<Rightarrow> tls_certificate \<Rightarrow> dtls_session \<Rightarrow> bytes \<times> dtls_session" where
  "build_skx_body C cert s =
     (let params = [3] @ put16 (ks_group s)
            @ (if ks_group s = 0x0017 then [65, 0x04] @ take 64 (ks_pub s) else [32] @ take 32 (ks_pub s));
          to_sign = client_random s @ server_random s @ params;
          sa = cert_sig_alg cert;
          scheme = (if sa = ECDSA_SECP256R1_SHA256 \<or> sa = SIG_ED25519 \<or> sa = RSA_PSS_RSAE_SHA256 then sa
                    else RSA_PKCS1_SHA256);
          (salt, s) = sign_salt scheme s
      in case sign_scheme C cert scheme to_sign [] salt of
           None \<Rightarrow> ([], s)
         | Some sig \<Rightarrow> (params @ put16 scheme @ put16 (word_of_nat (length sig)) @ sig, s))"

definition build_cke_body :: "dtls_session \<Rightarrow> bytes" where
  "build_cke_body s =
     (if ks_group s = 0x0017 then [65, 0x04] @ take 64 (ks_pub s) else [32] @ take 32 (ks_pub s))"

definition build_ee_body :: bytes where
  "build_ee_body = put16 0"

text \<open>\<open>64 * 0x20 || context || 0 || transcript hash\<close>\<close>

definition cv_content :: "string \<Rightarrow> dtls_session \<Rightarrow> bytes" where
  "cv_content ctx s =
     replicate 64 0x20 @ ascii ctx @ [0] @ take (suite_hash_len (cipher_suite s)) (transcript_hash s)"

definition build_cv_body13 :: "crypto \<Rightarrow> tls_certificate \<Rightarrow> dtls_session \<Rightarrow> bytes \<times> dtls_session" where
  "build_cv_body13 C cert s =
     (let ctx = (if is_server s then ''TLS 1.3, server CertificateVerify'' else ''TLS 1.3, client CertificateVerify'');
          s = transcript_compute s;
          content = cv_content ctx s;
          scheme = selected_sig_alg s;
          za = (if scheme = SM2_SM3
                then sm2_compute_za C (ascii ''TLSv1.3+GM+Cipher+Suite'') (take 32 (pub_raw cert)) (take 32 (drop 32 (pub_raw cert)))
                else []);
          (salt, s) = sign_salt scheme s
      in case sign_scheme C cert scheme content za salt of
           None \<Rightarrow> ([], s)
         | Some sig \<Rightarrow> (put16 scheme @ put16 (word_of_nat (length sig)) @ sig, s))"

definition build_finished12 :: "bool \<Rightarrow> dtls_session \<Rightarrow> bytes \<times> dtls_session" where
  "build_finished12 for_server s =
     (let s = transcript_compute s
      in (prf12 (master_secret s) (if for_server then ''server finished'' else ''client finished'')
            (take (suite_hash_len (cipher_suite s)) (transcript_hash s)) 12 (tls_use_sha384 (cipher_suite s)), s))"

definition finished_mac13 :: "bytes \<Rightarrow> dtls_session \<Rightarrow> bytes" where
  "finished_mac13 base_key s =
     (let h384 = tls_use_sha384 (cipher_suite s);
          hl = suite_hash_len (cipher_suite s);
          finished_key = expand_label13 base_key ''finished'' [] hl h384;
          th = take hl (transcript_hash s)
      in if h384 then hmac_sha384 sha512_raw finished_key th else hmac_sha256 ctx64 finished_key th)"

definition build_finished13 :: "bool \<Rightarrow> dtls_session \<Rightarrow> bytes \<times> dtls_session" where
  "build_finished13 for_server s =
     (let base_key = (if for_server then server_hs_traffic s else client_hs_traffic s);
          s = transcript_compute s
      in (finished_mac13 base_key s, s))"

definition build_ack_body :: "dtls_session \<Rightarrow> bytes" where
  "build_ack_body s =
     (let recs = take 64 (remdups_adj (sort (received_records s)))
      in put16 (word_of_nat (length recs * 16)) @ concat (map (\<lambda>(e, q). put64 e @ put64 q) recs))"

section \<open>Key exchange\<close>

definition generate_ecdh_keypair :: "dtls_env \<Rightarrow> dtls_session \<Rightarrow> dtls_session" where
  "generate_ecdh_keypair E s =
     (let g = (if ks_group s = 0x001e then 0x001e else if ks_group s = 0x0017 then 0x0017 else 0x001d);
          (priv, pub, random) = keygen E g (os_random s)
      in s\<lparr>os_random := random, ks_priv := memcpy_at (ks_priv s) 0 priv, ks_pub := memcpy_at (ks_pub s) 0 pub,
           ks_pub_len := (if g = 0x001e then 56 else if g = 0x0017 then 64 else 32)\<rparr>)"

definition ecdh_shared :: "dtls_env \<Rightarrow> dtls_session \<Rightarrow> bytes \<Rightarrow> bytes option" where
  "ecdh_shared E s peer =
     (if ks_group s = 0x001e then
        (if length peer < 56 then None else Some (x448_mult E (take 56 (ks_priv s)) (take 56 peer)))
      else if ks_group s = 0x0017 then
        (let pp = (if length peer = 65 \<and> peer ! 0 = 0x04 then drop 1 peer else peer)
         in if length peer < 64 then None else p256_ecdh E (take 32 (ks_priv s)) (take 64 pp))
      else (if length peer < 32 then None else Some (x25519_mult E (take 32 (ks_priv s)) (take 32 peer))))"

definition ecdh_derive :: "dtls_env \<Rightarrow> bytes \<Rightarrow> dtls_session \<Rightarrow> bool \<times> dtls_session" where
  "ecdh_derive E peer s =
     (case ecdh_shared E s peer of
        None \<Rightarrow> (False, s)
      | Some shared \<Rightarrow> (True, if ver s = V12 then dtls12_derive_keys shared s else dtls13_derive_handshake shared s))"

section \<open>Certificates\<close>

definition tls_certificate_default :: tls_certificate where
  "tls_certificate_default =
     \<lparr>subject_name = [], cert_data = [], pub_rsa = \<lparr>rsa_n = [], rsa_e = []\<rparr>, pub_raw = [],
      priv_rsa = \<lparr>ck_n = [], ck_e = [], ck_d = [], ck_p = [], ck_q = [], ck_dP = [], ck_dQ = [], ck_qInv = []\<rparr>,
      priv_raw = [], rsa4096 = False, cert_sig_alg = 0, rsa_bits = 0\<rparr>"

definition cert_from_x509 :: "x509_cert \<Rightarrow> tls_certificate option" where
  "cert_from_x509 leaf =
     (let out = tls_certificate_default\<lparr>subject_name := common_name leaf, cert_sig_alg := tls_key_type_to_sig_alg (key_type leaf)\<rparr>;
          pk = public_key leaf;
          rsa = (\<lambda>K. \<lparr>rsa_n = from_bytes K (take (8 * K) pk), rsa_e = from_bytes K (take 3 (drop (8 * K) pk))\<rparr>);
          raw = (\<lambda>n. if length pk < n then None else Some (out\<lparr>pub_raw := take n pk\<rparr>))
      in case key_type leaf of
           RSA_2048 \<Rightarrow> if length pk < 259 then None else Some (out\<lparr>pub_rsa := rsa 32, rsa_bits := 2048\<rparr>)
         | RSA_3072 \<Rightarrow> if length pk < 387 then None else Some (out\<lparr>pub_rsa := rsa 48, rsa_bits := 3072\<rparr>)
         | RSA_4096 \<Rightarrow> if length pk < 515 then None else Some (out\<lparr>rsa4096 := True, pub_rsa := rsa 64, rsa_bits := 4096\<rparr>)
         | Ed25519 \<Rightarrow> raw 32
         | Ed448 \<Rightarrow> raw 57
         | ECDSA_P256 \<Rightarrow> raw 64
         | ECDSA_P384 \<Rightarrow> raw 96
         | ECDSA_P521 \<Rightarrow> raw 132
         | SM2 \<Rightarrow> raw 64)"

fun dns_match :: "bytes list \<Rightarrow> bytes \<Rightarrow> bool" where
  "dns_match [] host = False"
| "dns_match (dns # names) host =
     (if dns = host then True
      else if length dns > 2 \<and> dns ! 0 = 0x2a \<and> dns ! 1 = 0x2e
              \<and> length host > length (drop 1 dns)
              \<and> drop (length host - length (drop 1 dns)) host = drop 1 dns
      then True
      else dns_match names host)"

definition hostname_matches :: "x509_cert \<Rightarrow> bytes \<Rightarrow> bool" where
  "hostname_matches leaf host =
     (if host = [] then True
      else if dns_match (cert_dns_names leaf) host then True
      else common_name leaf = host)"

text \<open>The chain with each root behind it, up to the first that verifies; the last result otherwise.\<close>

fun try_roots :: "crypto \<Rightarrow> u64 \<Rightarrow> x509_cert list \<Rightarrow> verify_result \<Rightarrow> x509_cert list \<Rightarrow> verify_result run" where
  "try_roots C now chain r [] = Ret r"
| "try_roots C now chain r (root # roots) =
     run_bind (x509_verify_chain C now (chain @ [root]) 0) (\<lambda>r.
       if r = None then Ret r else try_roots C now chain r roots)"

definition verify_server_chain :: "crypto \<Rightarrow> u64 \<Rightarrow> x509_cert list \<Rightarrow> x509_cert list \<Rightarrow> bytes \<Rightarrow> bool run" where
  "verify_server_chain C now chain roots host =
     (if chain = [] then Ret False
      else run_bind (x509_verify_chain C now chain 0) (\<lambda>r.
           run_bind (if r = None then Ret r else try_roots C now chain r roots) (\<lambda>r.
             Ret (if r \<noteq> None then False else hostname_matches (hd chain) host))))"

text \<open>What was parsed, and whether the whole list was; the argument is the list up to its end.\<close>

function parse_cert_loop :: "bytes \<Rightarrow> x509_cert list \<Rightarrow> (bool \<times> x509_cert list) run" where
  "parse_cert_loop body chain =
     (if 3 \<le> length body
      then let clen = unat (get24 body 0); body' = drop 3 body
           in if clen > length body' then Ret (False, chain)
              else run_bind (from_der (take clen body')) (\<lambda>cert.
                     case cert of None \<Rightarrow> Ret (False, chain)
                     | Some cert \<Rightarrow>
                         let chain = chain @ [cert]; body' = drop clen body'
                         in parse_cert_loop
                              (if 2 \<le> length body' then drop (2 + unat (get16 body' 0)) body' else body') chain)
      else Ret (chain \<noteq> [], chain))"
  by pat_completeness auto
termination
  by (relation "measure (\<lambda>(body, _). length body)") auto

declare parse_cert_loop.simps [simp del]

definition parse_cert_list :: "bytes \<Rightarrow> (bool \<times> x509_cert list) run" where
  "parse_cert_list body =
     (if length body < 3 then Ret (False, [])
      else parse_cert_loop (drop 3 (take (min (3 + unat (get24 body 0)) (length body)) body)) [])"

section \<open>Cookies and signature schemes\<close>

definition make_cookie :: "bytes \<Rightarrow> dtls_session \<Rightarrow> bytes \<times> dtls_session" where
  "make_cookie random s =
     (let s = (if cookie_secret s = []
               then let (k, s) = rand_bytes 32 s in s\<lparr>cookie_secret := k\<rparr> else s)
      in (hmac_sha256 ctx64 (cookie_secret s) (take 32 random), s))"

definition extract_cookie :: "ch_info \<Rightarrow> bytes" where
  "extract_cookie ch =
     (let f = ch_cookie_field ch
      in if length f < 2 then []
         else if 1 + unat (f ! 0) > length f then [] else take (unat (f ! 0)) (drop 1 f))"

definition sig_candidates :: "u16 \<Rightarrow> bool \<Rightarrow> u16 list" where
  "sig_candidates sa dtls13 =
     (if sa \<in> {SIG_ED25519, SIG_ED448, ECDSA_SECP256R1_SHA256, ECDSA_SECP384R1_SHA384, ECDSA_SECP521R1_SHA512, SM2_SM3} then [sa]
      else if sa \<in> {RSA_PKCS1_SHA256, RSA_PSS_RSAE_SHA256} then
        (if dtls13 then [RSA_PSS_RSAE_SHA256, RSA_PSS_RSAE_SHA384, RSA_PSS_RSAE_SHA512]
         else [RSA_PKCS1_SHA256, RSA_PKCS1_SHA384, RSA_PKCS1_SHA512, RSA_PSS_RSAE_SHA256])
      else [])"

fun first_in :: "u16 list \<Rightarrow> u16 list \<Rightarrow> u16" where
  "first_in [] cand = 0"
| "first_in (a # peer) cand = (if a \<in> set cand then a else first_in peer cand)"

definition select_sig_scheme :: "u16 list \<Rightarrow> tls_certificate \<Rightarrow> bool \<Rightarrow> u16" where
  "select_sig_scheme peer cert dtls13 = first_in peer (sig_candidates (cert_sig_alg cert) dtls13)"

end
