(* ===== verification/DtlsStep.thy ===== *)
theory DtlsStep
  imports DtlsHello
begin

text \<open>
  The handshake of \<open>src/src/dtls.cpp\<close>: reassembly of handshake messages from their fragments and the two state machines,
  \<open>client_step\<close> and \<open>server_step\<close>. \<open>step_state\<close> holds the session and the local variables the handlers share;
  \<open>now\<close> is the time the chain verifier reads. \<open>Throw\<close> is an exception of the certificate parser.
\<close>

section \<open>What a step keeps\<close>

record step_state =
  st_session :: dtls_session
  st_response :: bytes
  st_build :: bool
  st_done :: bool
  st_got_shd :: bool
  st_error :: bytes

record dtls_step_result =
  step_ok :: bool
  step_done :: bool
  step_out :: bytes
  step_error :: bytes

definition start_state :: "dtls_session \<Rightarrow> step_state" where
  "start_state s = \<lparr>st_session = s, st_response = [], st_build = False, st_done = False, st_got_shd = False, st_error = []\<rparr>"

definition upd :: "(dtls_session \<Rightarrow> dtls_session) \<Rightarrow> step_state \<Rightarrow> step_state" where
  "upd f st = st\<lparr>st_session := f (st_session st)\<rparr>"

definition respond :: "bytes \<Rightarrow> step_state \<Rightarrow> step_state" where
  "respond out st = st\<lparr>st_response := out, st_build := True\<rparr>"

type_synonym handler = "u8 \<Rightarrow> u16 \<Rightarrow> bytes \<Rightarrow> step_state \<Rightarrow> (bool \<times> step_state) run"

section \<open>Reassembly\<close>

text \<open>The loop over the bytes of a fragment from position \<open>i\<close> on: buffer, received flags, bytes still missing.\<close>

fun store_fragment :: "nat \<Rightarrow> bytes \<Rightarrow> bytes \<times> bool list \<times> nat \<Rightarrow> bytes \<times> bool list \<times> nat" where
  "store_fragment i [] r = r"
| "store_fragment i (b # frag) (buf, rcv, left) =
     store_fragment (Suc i) frag (if \<not> rcv ! i then (buf[i := b], rcv[i := True], left - 1) else (buf, rcv, left))"

definition reassembly_start :: "u16 \<Rightarrow> u32 \<Rightarrow> dtls_session \<Rightarrow> dtls_session" where
  "reassembly_start mseq tot s =
     (if reassembly_buf s = []
      then s\<lparr>reassembly_msg_seq := mseq, reassembly_total_len := tot, reassembly_buf := replicate (unat tot) 0,
             reassembly_received := replicate (unat tot) False, reassembly_remaining := unat tot\<rparr>
      else s)"

definition reassembly_store :: "nat \<Rightarrow> bytes \<Rightarrow> dtls_session \<Rightarrow> dtls_session" where
  "reassembly_store foff frag s =
     (let (buf, rcv, left) = store_fragment foff frag (reassembly_buf s, reassembly_received s, reassembly_remaining s)
      in s\<lparr>reassembly_buf := buf, reassembly_received := rcv, reassembly_remaining := left\<rparr>)"

definition reassembly_clear :: "dtls_session \<Rightarrow> dtls_session" where
  "reassembly_clear s = s\<lparr>reassembly_buf := [], reassembly_received := [], reassembly_remaining := 0\<rparr>"

definition next_msg :: "dtls_session \<Rightarrow> dtls_session" where
  "next_msg s = s\<lparr>recv_msg_seq := recv_msg_seq s + 1\<rparr>"

text \<open>One fragment: type, total length, message number, offset and bytes. \<open>False\<close> where the handler fails.\<close>

definition deliver :: "handler \<Rightarrow> (dtls_session \<Rightarrow> dtls_session) \<Rightarrow> u8 \<Rightarrow> u16 \<Rightarrow> bytes \<Rightarrow> step_state \<Rightarrow> (bool \<times> step_state) run" where
  "deliver process after mtype mseq body st =
     run_bind (process mtype mseq body st) (\<lambda>(ok, st). Ret (if ok then (True, upd after st) else (False, st)))"

definition collect_fragment :: "handler \<Rightarrow> u8 \<Rightarrow> u32 \<Rightarrow> u16 \<Rightarrow> nat \<Rightarrow> bytes \<Rightarrow> step_state \<Rightarrow> (bool \<times> step_state) run" where
  "collect_fragment process mtype tot mseq foff frag st =
     (let s = st_session st; flen = length frag
      in if mseq < recv_msg_seq s then Ret (True, upd (\<lambda>s. s\<lparr>retransmit_requested := True\<rparr>) st)
         else if mseq > recv_msg_seq s then Ret (True, st)
         else if foff = 0 \<and> flen = unat tot \<and> reassembly_buf s = [] then deliver process next_msg mtype mseq frag st
         else let st = upd (reassembly_start mseq tot) st; s = st_session st
              in if reassembly_msg_seq s = mseq \<and> reassembly_total_len s = tot \<and> foff + flen \<le> unat tot
                 then let st = upd (reassembly_store foff frag) st; s = st_session st
                      in if reassembly_remaining s = 0
                         then deliver process (\<lambda>s. reassembly_clear (next_msg s)) mtype mseq (reassembly_buf s) st
                         else Ret (True, st)
                 else Ret (True, st))"

function collect_handshake :: "handler \<Rightarrow> bytes \<Rightarrow> step_state \<Rightarrow> (bool \<times> step_state) run" where
  "collect_handshake process hb st =
     (if 12 \<le> length hb
      then let flen = unat (get24 hb 9)
           in if 12 + flen > length hb then Ret (False, st)
              else run_bind (collect_fragment process (hb ! 0) (get24 hb 1) (get16 hb 4) (unat (get24 hb 6)) (take flen (drop 12 hb)) st)
                     (\<lambda>(ok, st). if ok then collect_handshake process (drop (12 + flen) hb) st else Ret (False, st))
      else Ret (True, st))"
  by pat_completeness auto
termination
  by (relation "measure (\<lambda>(_, hb, _). length hb)") auto

declare collect_handshake.simps [simp del]

section \<open>Flights\<close>

text \<open>\<open>plaintext_record(22, 0, s.send_seq++, ...)\<close>\<close>

definition send_plain :: "u8 \<Rightarrow> bytes \<Rightarrow> dtls_session \<Rightarrow> bytes \<times> dtls_session" where
  "send_plain ty m s = (plaintext_record ty 0 (send_seq s) m, s\<lparr>send_seq := send_seq s + 1\<rparr>)"

text \<open>A whole message framed, counted and added to the transcript of DTLS 1.2.\<close>

definition add_framed :: "u8 \<Rightarrow> bytes \<Rightarrow> dtls_session \<Rightarrow> bytes \<times> dtls_session" where
  "add_framed ty body s =
     (let framed = frame_handshake s ty body 0 (length body)
      in (framed, transcript_add framed (s\<lparr>send_msg_seq := send_msg_seq s + 1\<rparr>)))"

definition client_flight12 :: "dtls_env \<Rightarrow> dtls_session \<Rightarrow> bytes \<times> dtls_session" where
  "client_flight12 E s =
     (let (cke_framed, s) = add_framed 16 (build_cke_body s) s;
          (cke_rec, s) = send_plain 22 cke_framed s;
          (ccs_rec, s) = send_plain 20 [1] s;
          s = s\<lparr>send_epoch := 1, send_seq := 0\<rparr>;
          (fin_body, s) = build_finished12 False s;
          (fin_framed, s) = add_framed 20 fin_body s;
          (fin_rec, s) = dtls12_protect E 22 fin_framed s
      in (cke_rec @ ccs_rec @ fin_rec, s))"

definition protect_inner :: "dtls_env \<Rightarrow> bytes \<Rightarrow> dtls_session \<Rightarrow> bytes \<times> dtls_session" where
  "protect_inner E inner s =
     (let framed = frame_inner s inner 0 (length inner - 4)
      in dtls13_protect E 22 framed (s\<lparr>send_msg_seq := send_msg_seq s + 1\<rparr>))"

definition client_flight13 :: "dtls_env \<Rightarrow> dtls_session \<Rightarrow> bytes \<times> dtls_session" where
  "client_flight13 E s =
     (let (fin, s) = build_finished13 False s;
          fin_inner = inner_handshake 20 fin;
          s = transcript_add fin_inner s;
          (fin_rec, s) = protect_inner E fin_inner s;
          (ack_rec, s) = dtls13_protect E 26 (build_ack_body s) s
      in (fin_rec @ ack_rec, s))"

section \<open>The client\<close>

definition client_suites :: "bool \<Rightarrow> u16 \<Rightarrow> u16 list" where
  "client_suites dtls13 cs =
     (if dtls13
      then (if cs = 0x1302 then [0x1302, 0x1301, 0x1303]
            else if cs = 0x1303 then [0x1303, 0x1301, 0x1302] else [0x1301, 0x1302, 0x1303])
      else (if cs = 0xC02F then [0xC02F, 0xC02B, 0xCCA8, 0xCCA9]
            else if cs = 0xCCA9 then [0xCCA9, 0xCCA8, 0xC02B]
            else if cs = 0xCCA8 then [0xCCA8, 0xCCA9, 0xC02F] else [0xC02B, 0xC02F, 0xCCA9, 0xCCA8]))"

definition client_start :: "dtls_env \<Rightarrow> dtls_session \<Rightarrow> dtls_session \<times> dtls_step_result" where
  "client_start E s =
     (let dtls13 = (ver s = V13);
          (random, s) = rand_bytes 32 s;
          s = generate_ecdh_keypair E (s\<lparr>client_random := random\<rparr>);
          suites = client_suites dtls13 (cipher_suite s);
          body = (if dtls13 then build_ch13_body s suites else build_ch12_body s suites);
          s = s\<lparr>client_phase := ChSent\<rparr>;
          (framed, s) =
            (if dtls13
             then let inner = inner_handshake 1 body; s = transcript_add inner s
                  in (frame_inner s inner 0 (length body), s\<lparr>send_msg_seq := send_msg_seq s + 1\<rparr>)
             else add_framed 1 body s);
          (out, s) = send_plain 22 framed s
      in (s\<lparr>last_sent := out\<rparr>, \<lparr>step_ok = True, step_done = False, step_out = out, step_error = []\<rparr>))"

definition hello_verify_request :: "bytes \<Rightarrow> step_state \<Rightarrow> bool \<times> step_state" where
  "hello_verify_request body st =
     (if length body < 3 then (False, st)
      else let cl = unat (body ! 2)
           in if length body < 3 + cl then (False, st)
              else let s = transcript_reset ((st_session st)\<lparr>cookie := take cl (drop 3 body), client_phase := HvrReceived\<rparr>);
                       chb = build_ch12_body s [0xC02B, 0xC02F, 0xCCA9, 0xCCA8];
                       (framed, s) = add_framed 1 chb s;
                       (out, s) = send_plain 22 framed s
                   in (True, respond out (st\<lparr>st_session := s\<rparr>)))"

text \<open>The key share of a DTLS 1.3 ServerHello, with \<open>off\<close> behind the compression method.\<close>

definition server_key_share :: "dtls_env \<Rightarrow> bytes \<Rightarrow> nat \<Rightarrow> dtls_session \<Rightarrow> bool \<times> dtls_session" where
  "server_key_share E body off s =
     (if off + 2 > length body then (False, s)
      else let ext_total = unat (get16 body off); off = off + 2
           in if off + ext_total > length body then (False, s)
              else case find_extension (take ext_total (drop off body)) 0x0033 of
                     None \<Rightarrow> (True, s)
                   | Some d \<Rightarrow>
                       if length d < 4 then (True, s)
                       else let klen = unat (get16 d 2)
                            in if 4 + klen > length d then (True, s)
                               else let (ok, s) = ecdh_derive E (take klen (drop 4 d)) (s\<lparr>ks_group := get16 d 0\<rparr>)
                                    in if ok then (True, s\<lparr>send_epoch := 2, send_seq := 0\<rparr>) else (False, s))"

definition server_hello :: "dtls_env \<Rightarrow> u8 \<Rightarrow> u16 \<Rightarrow> bytes \<Rightarrow> dtls_session \<Rightarrow> bool \<times> dtls_session" where
  "server_hello E mtype mseq body s =
     (if length body < 2 + 32 + 1 + 2 + 1 then (False, s)
      else let s = s\<lparr>server_random := take 32 (drop 2 body)\<rparr>;
               off = 34 + 1 + unat (body ! 34)
           in if off + 3 > length body then (False, s)
              else let s = s\<lparr>cipher_suite := select_cipher_suite (get16 body off)\<rparr>;
                       off = off + 2 + 1;
                       s = transcript_add_msg mtype mseq body (ver s = V13) s
                   in if ver s = V13 then server_key_share E body off s else (True, s))"

definition server_certificate ::
  "crypto \<Rightarrow> u64 \<Rightarrow> x509_cert list option \<Rightarrow> u8 \<Rightarrow> u16 \<Rightarrow> bytes \<Rightarrow> step_state \<Rightarrow> (bool \<times> step_state) run" where
  "server_certificate C now trust mtype mseq body st =
     (let s = st_session st;
          dtls13 = (ver s = V13);
          s = transcript_add_msg mtype mseq body dtls13 s;
          cskip = (if dtls13 then 1 else 0)
      in if length body \<le> cskip then Ret (False, st\<lparr>st_session := s\<rparr>)
         else run_bind (parse_cert_list (drop cskip body)) (\<lambda>(ok, chain).
                let s = s\<lparr>server_chain := chain\<rparr>
                in if \<not> ok then Ret (False, st\<lparr>st_session := s\<rparr>)
                   else case cert_from_x509 (hd chain) of
                          None \<Rightarrow> Ret (False, st\<lparr>st_session := s\<rparr>)
                        | Some sc \<Rightarrow>
                            let s = s\<lparr>server_cert_parsed := Some sc, have_server_cert := True\<rparr>; st = st\<lparr>st_session := s\<rparr>
                            in case trust of None \<Rightarrow> Ret (True, st)
                               | Some roots \<Rightarrow>
                                   run_bind (verify_server_chain C now chain roots (server_name s)) (\<lambda>ok.
                                     Ret (if ok then (True, st)
                                          else (False, st\<lparr>st_error := ascii ''cert chain verify failed''\<rparr>)))))"

definition server_cert :: "dtls_session \<Rightarrow> tls_certificate option" where
  "server_cert s = (if have_server_cert s then server_cert_parsed s else None)"

definition server_key_exchange :: "crypto \<Rightarrow> dtls_env \<Rightarrow> u8 \<Rightarrow> u16 \<Rightarrow> bytes \<Rightarrow> dtls_session \<Rightarrow> bool \<times> dtls_session" where
  "server_key_exchange C E mtype mseq body s =
     (if length body < 4 \<or> body ! 0 \<noteq> 3 then (False, s)
      else let group = get16 body 1; pub_len = unat (body ! 3)
           in if 4 + pub_len + 4 > length body then (False, s)
              else let scheme = get16 body (4 + pub_len); sig_len = unat (get16 body (4 + pub_len + 2))
                   in if 4 + pub_len + 4 + sig_len > length body then (False, s)
                      else let sig = take sig_len (drop (4 + pub_len + 4) body);
                               to_sign = client_random s @ server_random s @ take (4 + pub_len) body
                           in case server_cert s of None \<Rightarrow> (False, s)
                              | Some cert \<Rightarrow>
                                  if \<not> verify_scheme C cert scheme to_sign sig [] then (False, s)
                                  else let s = generate_ecdh_keypair E (s\<lparr>ks_group := group\<rparr>);
                                           (ok, s) = ecdh_derive E (take pub_len (drop 4 body)) s
                                       in if ok then (True, transcript_add_msg mtype mseq body False s) else (False, s))"

definition certificate_verify :: "crypto \<Rightarrow> u8 \<Rightarrow> u16 \<Rightarrow> bytes \<Rightarrow> dtls_session \<Rightarrow> bool \<times> dtls_session" where
  "certificate_verify C mtype mseq body s =
     (case server_cert s of None \<Rightarrow> (False, s)
      | Some cert \<Rightarrow>
          if length body < 4 then (False, s)
          else let scheme = get16 body 0; sig_len = unat (get16 body 2)
               in if 4 + sig_len > length body then (False, s)
                  else let s = transcript_compute s;
                           content = cv_content ''TLS 1.3, server CertificateVerify'' s
                       in if \<not> verify_scheme C cert scheme content (take sig_len (drop 4 body)) [] then (False, s)
                          else (True, transcript_add_msg mtype mseq body True s))"

definition client_finished :: "dtls_env \<Rightarrow> u8 \<Rightarrow> u16 \<Rightarrow> bytes \<Rightarrow> step_state \<Rightarrow> bool \<times> step_state" where
  "client_finished E mtype mseq body st =
     (let s = st_session st
      in if ver s = V13
         then if length body \<noteq> suite_hash_len (cipher_suite s) then (False, st)
              else let s = transcript_compute s
                   in if finished_mac13 (server_hs_traffic s) s \<noteq> body then (False, st\<lparr>st_session := s\<rparr>)
                      else let s = dtls13_derive_application (transcript_add_msg mtype mseq body True s);
                               (out, s) = client_flight13 E s;
                               s = s\<lparr>server_finished_received := True, handshake_done := True, client_phase := Done,
                                     send_epoch := 3, send_seq := 0\<rparr>
                           in (True, (respond out (st\<lparr>st_session := s\<rparr>))\<lparr>st_done := True\<rparr>)
         else if length body \<noteq> 12 then (False, st)
              else let (expected, s) = build_finished12 True s
                   in if expected \<noteq> body then (False, st\<lparr>st_session := s\<rparr>)
                      else let s = transcript_add_msg mtype mseq body False s;
                               s = s\<lparr>server_finished_received := True, handshake_done := True, client_phase := Done\<rparr>
                           in (True, st\<lparr>st_session := s, st_done := True\<rparr>))"

text \<open>A handler of the session alone, as one of the step.\<close>

definition on_session :: "(dtls_session \<Rightarrow> bool \<times> dtls_session) \<Rightarrow> step_state \<Rightarrow> bool \<times> step_state" where
  "on_session f st = (let (ok, s) = f (st_session st) in (ok, st\<lparr>st_session := s\<rparr>))"

definition client_process :: "crypto \<Rightarrow> dtls_env \<Rightarrow> u64 \<Rightarrow> x509_cert list option \<Rightarrow> handler" where
  "client_process C E now trust mtype mseq body st =
     (let dtls13 = (ver (st_session st) = V13)
      in if mtype = 3 then Ret (if dtls13 then (False, st) else hello_verify_request body st)
         else if mtype = 2 then Ret (on_session (server_hello E mtype mseq body) st)
         else if mtype = 11 then server_certificate C now trust mtype mseq body st
         else if mtype = 12 then
           Ret (if dtls13 then (False, st) else on_session (server_key_exchange C E mtype mseq body) st)
         else if mtype = 14 then
           Ret (if dtls13 then (False, st)
                else (True, (upd (transcript_add_msg mtype mseq body False) st)\<lparr>st_got_shd := True\<rparr>))
         else if mtype = 8 then
           Ret (if \<not> dtls13 then (False, st) else (True, upd (transcript_add_msg mtype mseq body True) st))
         else if mtype = 15 then
           Ret (if \<not> dtls13 then (False, st) else on_session (certificate_verify C mtype mseq body) st)
         else if mtype = 20 then Ret (client_finished E mtype mseq body st)
         else Ret (True, st))"

section \<open>Feeding datagrams\<close>

definition feed :: "handler \<Rightarrow> dtls_event list \<Rightarrow> step_state \<Rightarrow> (bool \<times> step_state) run" where
  "feed process evs st =
     (let hs = filter (\<lambda>ev. ev_type ev = 22) evs;
          st = (if ver (st_session st) = V13
                then upd (\<lambda>s. s\<lparr>received_records := received_records s @ map (\<lambda>ev. (ucast (ev_epoch ev), ev_seq ev)) hs\<rparr>) st
                else st)
      in collect_handshake process (concat (map ev_payload hs)) st)"

definition parse_datagram ::
  "dtls_env \<Rightarrow> bytes \<Rightarrow> dtls_session \<Rightarrow> bool \<times> dtls_session \<times> dtls_event list \<times> bytes" where
  "parse_datagram E dg s = (if ver s = V13 then parse_dtls13_datagram E dg s [] [] else parse_dtls12_datagram E dg s [] [])"

text \<open>The retry of records that could not be decrypted, with the rounds the code still allows.\<close>

fun retry_pending :: "dtls_env \<Rightarrow> handler \<Rightarrow> nat \<Rightarrow> bytes \<Rightarrow> step_state \<Rightarrow> (bool \<times> step_state) run" where
  "retry_pending E process 0 pending st = Ret (True, st)"
| "retry_pending E process (Suc n) pending st =
     (if pending = [] then Ret (True, st)
      else let (okp, s, more_evs, pending2) = parse_datagram E pending (st_session st); st = st\<lparr>st_session := s\<rparr>
           in if \<not> okp then Ret (True, st)
              else run_bind (feed process more_evs st) (\<lambda>(ok, st).
                     if \<not> ok then Ret (False, st) else retry_pending E process n pending2 st))"

text \<open>The end of a step: what to send, and the flag of the retransmission.\<close>

definition step_finish :: "step_state \<Rightarrow> dtls_session \<times> dtls_step_result" where
  "step_finish st =
     (let s = st_session st;
          out = (if st_build st then st_response st
                 else if retransmit_requested s \<and> last_sent s \<noteq> [] then last_sent s else []);
          s = (if st_build st then s\<lparr>last_sent := st_response st\<rparr> else s)
      in (s\<lparr>retransmit_requested := False\<rparr>, \<lparr>step_ok = True, step_done = st_done st, step_out = out, step_error = []\<rparr>))"

definition step_fail :: "bytes \<Rightarrow> dtls_session \<Rightarrow> dtls_session \<times> dtls_step_result" where
  "step_fail e s = (s, \<lparr>step_ok = False, step_done = False, step_out = [], step_error = e\<rparr>)"

definition run_step ::
  "dtls_env \<Rightarrow> handler \<Rightarrow> (step_state \<Rightarrow> step_state) \<Rightarrow> bytes \<Rightarrow> dtls_session \<Rightarrow> (dtls_session \<times> dtls_step_result) run" where
  "run_step E process fin dg s =
     (let (parsed, s, events, pending) = parse_datagram E dg s
      in if \<not> parsed then Ret (step_fail (ascii ''malformed datagram'') s)
         else run_bind (feed process events (start_state s)) (\<lambda>(ok, st).
              run_bind (if ok then retry_pending E process 10 pending st else Ret (False, st)) (\<lambda>(ok, st).
                Ret (if ok then step_finish (fin st)
                     else step_fail (if st_error st = [] then ascii ''handshake message error'' else st_error st) (st_session st)))))"

definition client_fin :: "dtls_env \<Rightarrow> step_state \<Rightarrow> step_state" where
  "client_fin E st =
     (if \<not> st_build st \<and> st_got_shd st \<and> ver (st_session st) \<noteq> V13
      then let (out, s) = client_flight12 E (st_session st) in respond out (st\<lparr>st_session := s\<rparr>)
      else st)"

definition client_step ::
  "crypto \<Rightarrow> dtls_env \<Rightarrow> u64 \<Rightarrow> x509_cert list option \<Rightarrow> bytes \<Rightarrow> dtls_session \<Rightarrow> (dtls_session \<times> dtls_step_result) run" where
  "client_step C E now trust dg s =
     (if client_phase s = Idle then Ret (client_start E s)
      else if dg = [] then Ret (step_fail (ascii ''empty datagram'') s)
      else run_step E (client_process C E now trust) (client_fin E) dg s)"

section \<open>The server\<close>

text \<open>The cookie exchange: \<open>None\<close> when the ClientHello may go on, the HelloVerifyRequest otherwise.\<close>

definition hello_verify :: "bytes \<Rightarrow> ch_info \<Rightarrow> dtls_session \<Rightarrow> bytes option \<times> dtls_session" where
  "hello_verify body ch s =
     (let (cookie_ok, s) =
            (if ver s = V12 \<and> require_cookie s
             then let ck = extract_cookie ch; (expect, s) = make_cookie (drop 2 body) s
                  in (\<not> (ck = [] \<or> ck \<noteq> expect), s)
             else (True, s))
      in if cookie_ok then (None, s)
         else let (expect, s) = make_cookie (drop 2 body) s;
                  hvr_body = build_hvr_body 0xfeff expect;
                  framed = frame_handshake s 3 hvr_body 0 (length hvr_body);
                  (out, s) = send_plain 22 framed (s\<lparr>send_msg_seq := send_msg_seq s + 1\<rparr>)
              in (Some out, s))"

definition choose_suite :: "u16 list \<Rightarrow> u16 \<Rightarrow> u16" where
  "choose_suite suites want =
     (if suites = [] \<or> want \<in> set suites then want else select_cipher_suite (hd suites))"

definition server_flight13 :: "crypto \<Rightarrow> dtls_env \<Rightarrow> tls_certificate \<Rightarrow> ch_info \<Rightarrow> dtls_session \<Rightarrow> bytes option \<times> dtls_session" where
  "server_flight13 C E cert ch s =
     (let s = generate_ecdh_keypair E (s\<lparr>ks_group := ch_ks_group ch\<rparr>);
          sh_inner = inner_handshake 2 (build_sh_body s True);
          s = transcript_add sh_inner s;
          (ok, s) = ecdh_derive E (ch_ks_pub ch) s
      in if \<not> ok then (None, s)
         else
           let s = s\<lparr>send_epoch := 2, send_seq := 0\<rparr>;
               ee_inner = inner_handshake 8 build_ee_body;
               s = transcript_add ee_inner s;
               cert_inner = inner_handshake 11 (build_cert_body13 E cert);
               s = transcript_add cert_inner s;
               (cv_body, s) = build_cv_body13 C cert s;
               cv_inner = inner_handshake 15 cv_body;
               s = transcript_add cv_inner s;
               (sf_body, s) = build_finished13 True s;
               sf_inner = inner_handshake 20 sf_body;
               s = dtls13_derive_application (transcript_add sf_inner s);
               sh_framed = frame_inner s sh_inner 0 (length sh_inner - 4);
               (sh_rec, s) = send_plain 22 sh_framed (s\<lparr>send_msg_seq := send_msg_seq s + 1\<rparr>);
               (ee_rec, s) = protect_inner E ee_inner s;
               (cert_rec, s) = protect_inner E cert_inner s;
               (cv_rec, s) = protect_inner E cv_inner s;
               (sf_rec, s) = protect_inner E sf_inner s
           in (Some (sh_rec @ ee_rec @ cert_rec @ cv_rec @ sf_rec), s))"

definition server_flight12 :: "crypto \<Rightarrow> dtls_env \<Rightarrow> tls_certificate \<Rightarrow> dtls_session \<Rightarrow> bytes \<times> dtls_session" where
  "server_flight12 C E cert s =
     (let s = generate_ecdh_keypair E s;
          (sh, s) = add_framed 2 (build_sh_body s False) s;
          (crt, s) = add_framed 11 (build_cert_body12 E cert) s;
          (skx_body, s) = build_skx_body C cert s;
          (skx, s) = add_framed 12 skx_body s;
          (shd, s) = add_framed 14 [] s;
          (r1, s) = send_plain 22 sh s;
          (r2, s) = send_plain 22 crt s;
          (r3, s) = send_plain 22 skx s;
          (r4, s) = send_plain 22 shd s
      in (r1 @ r2 @ r3 @ r4, s))"

definition client_hello ::
  "crypto \<Rightarrow> dtls_env \<Rightarrow> tls_certificate_manager \<Rightarrow> u8 \<Rightarrow> u16 \<Rightarrow> bytes \<Rightarrow> step_state \<Rightarrow> bool \<times> step_state" where
  "client_hello C E mgr mtype mseq body st =
     (case parse_client_hello body of None \<Rightarrow> (False, st)
      | Some ch \<Rightarrow>
          let s = (st_session st)\<lparr>server_name := ch_sni ch\<rparr>;
              dtls13 = (ver s = V13);
              (hvr, s) = hello_verify body ch s
          in case hvr of
               Some out \<Rightarrow> (True, respond out (st\<lparr>st_session := s\<rparr>))
             | None \<Rightarrow>
                 let s = transcript_add_msg mtype mseq body dtls13 s;
                     s = s\<lparr>server_phase := HelloOk, client_random := take 32 (drop 2 body),
                           cipher_suite := choose_suite (ch_suites ch) (cipher_suite s)\<rparr>
                 in case get_certificate mgr (server_name s) of
                      None \<Rightarrow> (False, st\<lparr>st_session := s, st_error := ascii ''no cert for SNI: '' @ server_name s\<rparr>)
                    | Some cert \<Rightarrow>
                        let peer_algs = (if ch_sig_algs ch = [] then tls_default_signature_algorithms else ch_sig_algs ch);
                            s = s\<lparr>selected_sig_alg := select_sig_scheme peer_algs cert dtls13\<rparr>
                        in if selected_sig_alg s = 0 then (False, st\<lparr>st_session := s\<rparr>)
                           else let (random, s) = rand_bytes 32 s; s = s\<lparr>server_random := random\<rparr>
                                in if dtls13
                                   then if \<not> ch_has_key_share ch then (False, st\<lparr>st_session := s\<rparr>)
                                        else (case server_flight13 C E cert ch s of
                                                (None, s) \<Rightarrow> (False, st\<lparr>st_session := s\<rparr>)
                                              | (Some out, s) \<Rightarrow> (True, respond out (st\<lparr>st_session := s\<rparr>)))
                                   else let (out, s) = server_flight12 C E cert s
                                        in (True, respond out (st\<lparr>st_session := s\<rparr>)))"

definition client_key_exchange :: "dtls_env \<Rightarrow> u8 \<Rightarrow> u16 \<Rightarrow> bytes \<Rightarrow> dtls_session \<Rightarrow> bool \<times> dtls_session" where
  "client_key_exchange E mtype mseq body s =
     (if length body < 1 then (False, s)
      else let pub_len = unat (body ! 0)
           in if length body < 1 + pub_len then (False, s)
              else let (ok, s) = ecdh_derive E (take pub_len (drop 1 body)) s
                   in if ok then (True, transcript_add_msg mtype mseq body False s) else (False, s))"

definition server_finished :: "dtls_env \<Rightarrow> u8 \<Rightarrow> u16 \<Rightarrow> bytes \<Rightarrow> step_state \<Rightarrow> bool \<times> step_state" where
  "server_finished E mtype mseq body st =
     (let s = st_session st
      in if ver s = V13
         then if length body \<noteq> suite_hash_len (cipher_suite s) then (False, st)
              else let s = transcript_compute s
                   in if finished_mac13 (client_hs_traffic s) s \<noteq> body then (False, st\<lparr>st_session := s\<rparr>)
                      else let s = transcript_add_msg mtype mseq body True s;
                               (out, s) = dtls13_protect E 26 (build_ack_body s) s;
                               s = s\<lparr>handshake_done := True, server_phase := SDone, send_epoch := 3, send_seq := 0\<rparr>
                           in (True, (respond out (st\<lparr>st_session := s\<rparr>))\<lparr>st_done := True\<rparr>)
         else if length body \<noteq> 12 then (False, st)
              else let (expected, s) = build_finished12 False s
                   in if expected \<noteq> body then (False, st\<lparr>st_session := s\<rparr>)
                      else let s = transcript_add_msg mtype mseq body False s;
                               (ccs_rec, s) = send_plain 20 [1] s;
                               s = s\<lparr>send_epoch := 1, send_seq := 0\<rparr>;
                               (fin_body, s) = build_finished12 True s;
                               (fin_framed, s) = add_framed 20 fin_body s;
                               (fin_rec, s) = dtls12_protect E 22 fin_framed s;
                               s = s\<lparr>handshake_done := True, server_phase := SDone\<rparr>
                           in (True, (respond (ccs_rec @ fin_rec) (st\<lparr>st_session := s\<rparr>))\<lparr>st_done := True\<rparr>))"

definition server_process :: "crypto \<Rightarrow> dtls_env \<Rightarrow> tls_certificate_manager \<Rightarrow> handler" where
  "server_process C E mgr mtype mseq body st =
     Ret (if mtype = 1 then client_hello C E mgr mtype mseq body st
          else if mtype = 16 then
            (if ver (st_session st) = V13 then (False, st) else on_session (client_key_exchange E mtype mseq body) st)
          else if mtype = 20 then server_finished E mtype mseq body st
          else (True, st))"

definition server_step ::
  "crypto \<Rightarrow> dtls_env \<Rightarrow> tls_certificate_manager option \<Rightarrow> bytes \<Rightarrow> dtls_session \<Rightarrow> (dtls_session \<times> dtls_step_result) run" where
  "server_step C E mgr dg s =
     (if dg = [] then Ret (step_fail (ascii ''empty datagram'') s)
      else case mgr of None \<Rightarrow> Ret (step_fail (ascii ''no cert manager'') s)
           | Some mgr \<Rightarrow> run_step E (server_process C E mgr) (\<lambda>st. st) dg s)"

record dtls_handshake_input =
  in_datagram :: bytes
  in_cert_manager :: "tls_certificate_manager option"
  in_trust_store :: "x509_cert list option"

definition dtls_handshake_step ::
  "crypto \<Rightarrow> dtls_env \<Rightarrow> u64 \<Rightarrow> dtls_handshake_input \<Rightarrow> dtls_session \<Rightarrow> (dtls_session \<times> dtls_step_result) run" where
  "dtls_handshake_step C E now inp s =
     (if is_server s then server_step C E (in_cert_manager inp) (in_datagram inp) s
      else client_step C E now (in_trust_store inp) (in_datagram inp) s)"

end
