(* ===== verification/DtlsForge.thy ===== *)
theory DtlsForge
  imports DtlsStep DtlsApp TlsSign
begin

text \<open>
  What the handshake of \<open>src/src/dtls.cpp\<close> promises and does not: reassembly of a message from any fragments that cover it,
  the fragment that blocks it, the Finished message a client accepts before any key exchange, and the certificate chain that needs no
  trusted root. \<open>fragment\<close> is the frame of a part of a message, \<open>assembling\<close> the invariant of the reassembly buffer.
\<close>


section \<open>Frames\<close>

text \<open>A fragment of message number \<open>mseq\<close>: the bytes of \<open>m\<close> from \<open>foff\<close> on, \<open>flen\<close> of them.\<close>

definition fragment :: "u8 \<Rightarrow> u16 \<Rightarrow> bytes \<Rightarrow> nat \<times> nat \<Rightarrow> bytes" where
  "fragment ty mseq m = (\<lambda>(foff, flen).
     [ty] @ put24 (word_of_nat (length m)) @ put16 mseq @ put24 (word_of_nat foff) @ put24 (word_of_nat flen)
     @ take flen (drop foff m))"

lemma frame_handshake_fragment:
  "frame_handshake s ty body foff flen = fragment ty (send_msg_seq s) body (foff, flen)"
  by (simp add: frame_handshake_def fragment_def)

lemma put24_list: "put24 x = [put24 x ! 0, put24 x ! 1, put24 x ! 2]"
  by (simp add: put24_def)

lemma get24_put24:
  assumes "n < 2 ^ 24" "p ! i = put24 (word_of_nat n) ! 0" "p ! (i + 1) = put24 (word_of_nat n) ! 1"
    "p ! (i + 2) = put24 (word_of_nat n) ! 2"
  shows "get24 p i = word_of_nat n"
proof -
  define w where "w = (word_of_nat n :: u32)"
  have top: "\<not> bit w k" if "24 \<le> k" for k
  proof -
    have "n < 2 ^ k" using assms(1) power_increasing [OF that, of "2 :: nat"] by simp
    then have "\<not> bit n k" by (simp add: bit_iff_odd)
    then show ?thesis by (simp add: w_def bit_simps)
  qed
  have p: "p ! i = ucast (drop_bit 16 w)" "p ! (i + 1) = ucast (drop_bit 8 w)" "p ! (i + 2) = ucast w"
    using assms(2-4) by (simp_all add: put24_def w_def)
  have g: "get24 p i = push_bit 16 (ucast (p ! i)) OR push_bit 8 (ucast (p ! (i + 1))) OR ucast (p ! (i + 2))"
    by (simp only: get24_def)
  have "bit (get24 p i) k = bit w k" if "k < 32" for k
  proof -
    have e: "bit (get24 p i) k \<longleftrightarrow> (16 \<le> k \<and> k - 16 < 8 \<and> bit w (16 + (k - 16))) \<or> (8 \<le> k \<and> k - 8 < 8 \<and> bit w (8 + (k - 8))) \<or> (k < 8 \<and> bit w k)"
      using that unfolding g p by (auto simp: bit_or_iff bit_push_bit_iff bit_ucast_iff bit_drop_bit_eq)
    consider "k < 8" | "8 \<le> k" "k < 16" | "16 \<le> k" "k < 24" | "24 \<le> k" by linarith
    then show ?thesis using e top [of k] by cases auto
  qed
  then show ?thesis by (intro bit_word_eqI) (simp add: w_def)
qed

lemma split_parts: "length h = k \<Longrightarrow> length x = n \<Longrightarrow> drop (k + n) (h @ x @ r) = r \<and> take n (drop k (h @ x @ r)) = x"
  by auto

lemma fragment_fields:
  fixes ty mseq rest
  assumes "length m < 2 ^ 24" "foff + flen \<le> length m"
  defines "f \<equiv> fragment ty mseq m (foff, flen) @ rest"
  shows "f ! 0 = ty" "get24 f 1 = word_of_nat (length m)" "get16 f 4 = mseq" "get24 f 6 = word_of_nat foff"
    "get24 f 9 = word_of_nat flen" "take flen (drop 12 f) = take flen (drop foff m)" "drop (12 + flen) f = rest" "12 + flen \<le> length f"
proof -
  have l: "length (take flen (drop foff m)) = flen" using assms(2) by simp
  have f: "f = [ty] @ put24 (word_of_nat (length m)) @ put16 mseq @ put24 (word_of_nat foff) @ put24 (word_of_nat flen)
     @ take flen (drop foff m) @ rest" by (simp add: f_def fragment_def)
  show "f ! 0 = ty" by (simp add: f)
  have n: "f ! 1 = put24 (word_of_nat (length m)) ! 0" "f ! 2 = put24 (word_of_nat (length m)) ! 1" "f ! 3 = put24 (word_of_nat (length m)) ! 2"
    "f ! 6 = put24 (word_of_nat foff) ! 0" "f ! 7 = put24 (word_of_nat foff) ! 1" "f ! 8 = put24 (word_of_nat foff) ! 2"
    "f ! 9 = put24 (word_of_nat flen) ! 0" "f ! 10 = put24 (word_of_nat flen) ! 1" "f ! 11 = put24 (word_of_nat flen) ! 2"
    by (simp_all add: f put24_def put16_def)
  show "get24 f 1 = word_of_nat (length m)" by (rule get24_put24) (use assms(1) n in \<open>simp_all add: numeral_2_eq_2 numeral_3_eq_3\<close>)
  show "get24 f 6 = word_of_nat foff" by (rule get24_put24) (use assms(1,2) n in simp_all)
  show "get24 f 9 = word_of_nat flen" by (rule get24_put24) (use assms(1,2) n in simp_all)
  show "get16 f 4 = mseq"
  proof -
    have "length ([ty] @ put24 (word_of_nat (length m))) = 4" by (simp add: put24_def)
    moreover have "f = ([ty] @ put24 (word_of_nat (length m))) @ put16 mseq @ put24 (word_of_nat foff) @ put24 (word_of_nat flen)
       @ take flen (drop foff m) @ rest" by (simp add: f)
    ultimately show ?thesis using get16_put16 by metis
  qed
  let ?h = "[ty] @ put24 (word_of_nat (length m)) @ put16 mseq @ put24 (word_of_nat foff) @ put24 (word_of_nat flen)"
  have h: "length ?h = 12" "f = ?h @ take flen (drop foff m) @ rest" by (simp_all add: f put24_def put16_def)
  show "drop (12 + flen) f = rest" "take flen (drop 12 f) = take flen (drop foff m)"
    unfolding h(2) by (simp_all only: split_parts [OF h(1) l])
  show "12 + flen \<le> length f" using h l by simp
qed

lemma collect_step:
  assumes "length m < 2 ^ 24" "foff + flen \<le> length m"
  shows "collect_handshake process (fragment ty mseq m (foff, flen) @ rest) st =
    run_bind (collect_fragment process ty (word_of_nat (length m)) mseq foff (take flen (drop foff m)) st)
      (\<lambda>(ok, st). if ok then collect_handshake process rest st else Ret (False, st))"
proof -
  define f where "f = fragment ty mseq m (foff, flen) @ rest"
  note F = fragment_fields [OF assms, of ty mseq rest, folded f_def]
  have u: "unat (word_of_nat flen :: u32) = flen" "unat (word_of_nat foff :: u32) = foff"
    using assms by (simp_all add: unat_of_nat)
  have "12 \<le> length f" "\<not> length f < 12 + flen" using F(8) by simp_all
  then show ?thesis unfolding f_def [symmetric]
    by (subst collect_handshake.simps) (simp only: F u Let_def if_True if_False)
qed

lemma collect_Nil [simp]: "collect_handshake process [] st = Ret (True, st)"
  by (subst collect_handshake.simps) simp


lemma run_bind_ok: "run_bind m (\<lambda>(ok, st). if ok then collect_handshake process [] st else Ret (False, st)) = m"
proof (cases m)
  case (Ret r)
  then show ?thesis by (cases r) simp
qed simp

section \<open>Reassembly\<close>

text \<open>
  The abstract state of a reassembly is the set \<open>R\<close> of positions of the message \<open>m\<close> that have arrived; \<open>holds\<close> relates
  it to the buffer, the flags and the counter of the code.
\<close>

definition holds :: "bytes \<Rightarrow> nat set \<Rightarrow> bytes \<times> bool list \<times> nat \<Rightarrow> bool" where
  "holds m R = (\<lambda>(buf, rcv, left).
     length buf = length m \<and> length rcv = length m \<and> R \<subseteq> {..<length m} \<and> (\<forall>i<length m. rcv ! i \<longleftrightarrow> i \<in> R)
     \<and> (\<forall>i\<in>R. buf ! i = m ! i) \<and> left = card ({..<length m} - R))"

lemma holds_start: "holds m {} (replicate (length m) 0, replicate (length m) False, length m)"
  by (simp add: holds_def)

lemma holds_complete:
  assumes "holds m R (buf, rcv, left)"
  shows "left = 0 \<longleftrightarrow> R = {..<length m}" "R = {..<length m} \<Longrightarrow> buf = m"
proof -
  have R: "R \<subseteq> {..<length m}" "left = card ({..<length m} - R)" using assms by (simp_all add: holds_def)
  then show "left = 0 \<longleftrightarrow> R = {..<length m}" by auto
  show "buf = m" if "R = {..<length m}" using assms that by (intro nth_equalityI) (auto simp: holds_def)
qed

lemma store_byte_holds:
  assumes "holds m R (buf, rcv, left)" "i < length m" "b = m ! i"
  shows "holds m (insert i R) (if \<not> rcv ! i then (buf[i := b], rcv[i := True], left - 1) else (buf, rcv, left))"
proof (cases "i \<in> R")
  case True
  then show ?thesis using assms by (auto simp: holds_def insert_absorb)
next
  case False
  have "card ({..<length m} - insert i R) = card ({..<length m} - R) - 1"
    using False assms(2) by (metis Diff_insert card_Diff_singleton DiffI finite_Diff finite_lessThan lessThan_iff)
  then show ?thesis using assms False by (auto simp: holds_def nth_list_update)
qed

lemma store_fragment_holds:
  "holds m R r \<Longrightarrow> i + length frag \<le> length m \<Longrightarrow> frag = take (length frag) (drop i m) \<Longrightarrow>
   holds m (R \<union> {i..<i + length frag}) (store_fragment i frag r)"
proof (induction i frag r arbitrary: R rule: store_fragment.induct)
  case (1 i r)
  then show ?case by simp
next
  case (2 i b frag buf rcv left)
  have i: "i < length m" using 2(3) by simp
  then have d: "drop i m = m ! i # drop (Suc i) m" by (simp add: Cons_nth_drop_Suc)
  have b: "b = m ! i" "frag = take (length frag) (drop (Suc i) m)" using 2(4) by (simp_all add: d)
  note s = store_byte_holds [OF 2(2) i b(1)]
  have "insert i R \<union> {Suc i..<Suc i + length frag} = R \<union> {i..<i + length (b # frag)}" by auto
  with 2(1) [OF s _ b(2)] 2(3) show ?case by simp
qed

text \<open>Everything of a session but the reassembly.\<close>

definition unassembled :: "dtls_session \<Rightarrow> dtls_session" where
  "unassembled s = s\<lparr>reassembly_buf := [], reassembly_received := [], reassembly_remaining := 0, reassembly_msg_seq := 0,
     reassembly_total_len := 0\<rparr>"

definition assembling :: "step_state \<Rightarrow> u16 \<Rightarrow> bytes \<Rightarrow> nat set \<Rightarrow> step_state \<Rightarrow> bool" where
  "assembling st0 mseq m R st \<longleftrightarrow>
     upd unassembled st = upd unassembled st0 \<and> recv_msg_seq (st_session st) = mseq
     \<and> reassembly_msg_seq (st_session st) = mseq \<and> reassembly_total_len (st_session st) = word_of_nat (length m)
     \<and> holds m R (reassembly_buf (st_session st), reassembly_received (st_session st), reassembly_remaining (st_session st))"

lemma assembling_fragment:
  assumes "assembling st0 mseq m R st" "0 < length m" "length m < 2 ^ 24" "foff + flen \<le> length m"
  defines "R' \<equiv> R \<union> {foff..<foff + flen}"
  shows "\<exists>st'. assembling st0 mseq m R' st' \<and>
    collect_fragment process ty (word_of_nat (length m)) mseq foff (take flen (drop foff m)) st =
      (if R' = {..<length m} then deliver process (\<lambda>s. reassembly_clear (next_msg s)) ty mseq m st' else Ret (True, st'))"
proof -
  let ?s = "st_session st" and ?frag = "take flen (drop foff m)"
  have u: "unat (word_of_nat (length m) :: u32) = length m" using assms(3) by (simp add: unat_of_nat)
  have l: "length ?frag = flen" using assms(4) by simp
  have h: "holds m R (reassembly_buf ?s, reassembly_received ?s, reassembly_remaining ?s)" and
    s: "recv_msg_seq ?s = mseq" "reassembly_msg_seq ?s = mseq" "reassembly_total_len ?s = word_of_nat (length m)"
    and eq: "upd unassembled st = upd unassembled st0"
    using assms(1) by (simp_all add: assembling_def)
  have ne: "reassembly_buf ?s \<noteq> []" using h assms(2) by (auto simp: holds_def)
  define st' where "st' = upd (reassembly_store foff ?frag) st"
  obtain buf rcv left where r: "store_fragment foff ?frag (reassembly_buf ?s, reassembly_received ?s, reassembly_remaining ?s) = (buf, rcv, left)"
    by (metis prod_cases3)
  have h': "holds m R' (buf, rcv, left)"
    using store_fragment_holds [OF h, of foff ?frag] assms(4) r l by (simp add: R'_def)
  have st': "st_session st' = ?s\<lparr>reassembly_buf := buf, reassembly_received := rcv, reassembly_remaining := left\<rparr>"
    by (simp add: st'_def upd_def reassembly_store_def r)
  have "upd unassembled st' = upd unassembled st" by (simp add: st'_def upd_def unassembled_def reassembly_store_def r)
  with eq have a: "assembling st0 mseq m R' st'" using s h' by (simp add: assembling_def st')
  have step: "upd (reassembly_start mseq (word_of_nat (length m))) st = st"
    using ne by (simp add: upd_def reassembly_start_def)
  have "collect_fragment process ty (word_of_nat (length m)) mseq foff ?frag st =
     (if left = 0 then deliver process (\<lambda>s. reassembly_clear (next_msg s)) ty mseq buf st' else Ret (True, st'))"
    using s ne assms(4) by (simp add: collect_fragment_def Let_def step l u st' flip: st'_def)
  with holds_complete [OF h'] a show ?thesis by auto
qed


text \<open>The positions that a list of fragments, as offset and length, covers.\<close>

fun covered :: "(nat \<times> nat) list \<Rightarrow> nat set" where
  "covered [] = {}"
| "covered ((foff, flen) # frs) = {foff..<foff + flen} \<union> covered frs"

lemma covered_below: "\<forall>(foff, flen)\<in>set frs. foff + flen \<le> n \<Longrightarrow> covered frs \<subseteq> {..<n}"
  by (induction frs rule: covered.induct) auto

lemma assembling_fragments:
  "assembling st0 mseq m R st \<Longrightarrow> 0 < length m \<Longrightarrow> length m < 2 ^ 24 \<Longrightarrow> frs \<noteq> [] \<Longrightarrow>
   \<forall>(foff, flen)\<in>set frs. foff + flen \<le> length m \<Longrightarrow>
   R \<union> covered (butlast frs) \<noteq> {..<length m} \<Longrightarrow>
   R \<union> covered frs = {..<length m} \<Longrightarrow>
   \<exists>st'. upd unassembled st' = upd unassembled st0 \<and>
     collect_handshake process (concat (map (fragment ty mseq m) frs)) st =
       deliver process (\<lambda>s. reassembly_clear (next_msg s)) ty mseq m st'"
proof (induction frs arbitrary: R st)
  case (Cons fr frs)
  obtain foff flen where fr: "fr = (foff, flen)" by fastforce
  have le: "foff + flen \<le> length m" using Cons.prems(5) by (simp add: fr)
  let ?R = "R \<union> {foff..<foff + flen}"
  obtain st' where st': "assembling st0 mseq m ?R st'"
    "collect_fragment process ty (word_of_nat (length m)) mseq foff (take flen (drop foff m)) st =
      (if ?R = {..<length m} then deliver process (\<lambda>s. reassembly_clear (next_msg s)) ty mseq m st' else Ret (True, st'))"
    using assembling_fragment [OF Cons.prems(1-3) le] by blast
  have c: "collect_handshake process (concat (map (fragment ty mseq m) (fr # frs))) st =
    run_bind (collect_fragment process ty (word_of_nat (length m)) mseq foff (take flen (drop foff m)) st)
      (\<lambda>(ok, st). if ok then collect_handshake process (concat (map (fragment ty mseq m) frs)) st else Ret (False, st))"
    using collect_step [OF Cons.prems(3) le] by (simp add: fr)
  show ?case
  proof (cases "frs = []")
    case True
    then have "?R = {..<length m}" using Cons.prems(7) by (simp add: fr)
    then have "collect_fragment process ty (word_of_nat (length m)) mseq foff (take flen (drop foff m)) st
        = deliver process (\<lambda>s. reassembly_clear (next_msg s)) ty mseq m st'"
      using st'(2) by presburger
    then have "collect_handshake process (concat (map (fragment ty mseq m) (fr # frs))) st
        = deliver process (\<lambda>s. reassembly_clear (next_msg s)) ty mseq m st'"
      using c unfolding True list.map concat.simps run_bind_ok by simp
    with st'(1) show ?thesis unfolding assembling_def by blast
  next
    case False
    have nb: "?R \<union> covered (butlast frs) \<noteq> {..<length m}"
      using Cons.prems(6) False by (simp add: fr Un_assoc)
    have ub: "?R \<union> covered frs = {..<length m}"
      using Cons.prems(7) by (simp add: fr Un_assoc)
    have "holds m ?R (reassembly_buf (st_session st'), reassembly_received (st_session st'), reassembly_remaining (st_session st'))"
      using st'(1) by (simp add: assembling_def)
    then have sub: "?R \<subseteq> {..<length m}" by (simp add: holds_def)
    have all: "\<forall>(foff, flen)\<in>set (butlast frs). foff + flen \<le> length m" using Cons.prems(5) in_set_butlastD by fastforce
    have "?R \<noteq> {..<length m}"
    proof
      assume "?R = {..<length m}"
      moreover have "covered (butlast frs) \<subseteq> {..<length m}" by (rule covered_below [OF all])
      ultimately show False using nb by blast
    qed
    then have "collect_handshake process (concat (map (fragment ty mseq m) (fr # frs))) st
        = collect_handshake process (concat (map (fragment ty mseq m) frs)) st'"
      unfolding c st'(2) by simp
    moreover have "\<forall>(foff, flen)\<in>set frs. foff + flen \<le> length m" using Cons.prems(5) by simp
    ultimately show ?thesis using Cons.IH [OF st'(1) Cons.prems(2,3) False _ nb ub] by simp
  qed
qed simp

lemma fragments_deliver:
  assumes "reassembly_buf (st_session st) = []" "recv_msg_seq (st_session st) = mseq" "0 < length m" "length m < 2 ^ 24"
    "\<forall>(foff, flen)\<in>set frs. foff + flen \<le> length m"
    "covered (butlast frs) \<noteq> {..<length m}"
    "covered frs = {..<length m}"
  shows "\<exists>st' after. upd unassembled st' = upd unassembled st \<and> after \<in> {next_msg, \<lambda>s. reassembly_clear (next_msg s)} \<and>
     collect_handshake process (concat (map (fragment ty mseq m) frs)) st = deliver process after ty mseq m st'"
proof (cases "frs = [(0, length m)]")
  case True
  have "unat (word_of_nat (length m) :: u32) = length m" using assms(4) by (simp add: unat_of_nat)
  then have "collect_fragment process ty (word_of_nat (length m)) mseq 0 (take (length m) (drop 0 m)) st = deliver process next_msg ty mseq m st"
    using assms(1,2) by (simp add: collect_fragment_def Let_def)
  moreover have "collect_handshake process (fragment ty mseq m (0, length m) @ []) st =
    run_bind (collect_fragment process ty (word_of_nat (length m)) mseq 0 (take (length m) (drop 0 m)) st)
      (\<lambda>(ok, st). if ok then collect_handshake process [] st else Ret (False, st))"
    by (rule collect_step [OF assms(4)]) simp
  ultimately have "collect_handshake process (concat (map (fragment ty mseq m) frs)) st = deliver process next_msg ty mseq m st"
    unfolding True by (simp add: run_bind_ok)
  then show ?thesis by blast
next
  case False
  have ne: "frs \<noteq> []"
  proof
    assume "frs = []"
    with assms(7) have "0 \<notin> {..<length m}" by simp
    with assms(3) show False by simp
  qed
  then obtain foff flen frs' where frs: "frs = (foff, flen) # frs'" by (cases frs) auto
  have le: "foff + flen \<le> length m" using assms(5) by (simp add: frs)
  have nw: "\<not> (foff = 0 \<and> flen = length m)"
  proof
    assume w: "foff = 0 \<and> flen = length m"
    with False have "frs' \<noteq> []" by (auto simp: frs)
    then have "{..<length m} \<subseteq> covered (butlast frs)" using w by (auto simp: frs)
    moreover have "covered (butlast frs) \<subseteq> {..<length m}"
      by (rule covered_below) (use assms(5) in_set_butlastD in fastforce)
    ultimately show False using assms(6) by blast
  qed
  have u: "unat (word_of_nat (length m) :: u32) = length m" using assms(4) by (simp add: unat_of_nat)
  define st1 where "st1 = upd (reassembly_start mseq (word_of_nat (length m))) st"
  have a: "assembling st mseq m {} st1"
    using assms(1,2) holds_start by (simp add: assembling_def st1_def upd_def reassembly_start_def unassembled_def u)
  have buf: "reassembly_buf (st_session st1) \<noteq> []" using assms(1,3) by (simp add: st1_def upd_def reassembly_start_def u)
  have l: "length (take flen (drop foff m)) = flen" using le by simp
  have "upd (reassembly_start mseq (word_of_nat (length m))) st1 = st1"
    using buf by (simp add: upd_def reassembly_start_def)
  then have "collect_fragment process ty (word_of_nat (length m)) mseq foff (take flen (drop foff m)) st
      = collect_fragment process ty (word_of_nat (length m)) mseq foff (take flen (drop foff m)) st1"
    using assms(1,2) nw l u buf a
    by (auto simp: collect_fragment_def Let_def st1_def [symmetric] assembling_def)
  then have "collect_handshake process (concat (map (fragment ty mseq m) frs)) st
      = collect_handshake process (concat (map (fragment ty mseq m) frs)) st1"
    using collect_step [OF assms(4) le] by (simp add: frs)
  moreover obtain st' where "upd unassembled st' = upd unassembled st"
    "collect_handshake process (concat (map (fragment ty mseq m) frs)) st1 = deliver process (\<lambda>s. reassembly_clear (next_msg s)) ty mseq m st'"
    using assembling_fragments [OF a assms(3,4) ne assms(5), of process ty] assms(6,7) unfolding Un_empty_left by blast
  ultimately show ?thesis by auto
qed


section \<open>One datagram\<close>

lemma parse_plain_handshake:
  assumes "length m < 2 ^ 16" "recv_epoch s = 0"
  shows "\<exists>q'. parse_datagram E (plaintext_record 22 0 q m) s
     = (True, s, [\<lparr>ev_type = 22, ev_epoch = 0, ev_seq = q', ev_payload = m\<rparr>], [])"
proof -
  let ?dg = "plaintext_record 22 0 q m"
  obtain q' where h: "dtls12_parse_header ?dg = Some (22, 0, q', m)"
    using parse_dtls12_header [OF assms(1), of 22 0 q "[]"] by (auto simp: plaintext_record_def)
  have l: "length ?dg = 13 + length m" "?dg \<noteq> []" "?dg ! 0 = 22"
    by (simp_all add: plaintext_record_def dtls12_header_def put16_def put48_def)
  let ?ev = "\<lparr>ev_type = 22, ev_epoch = 0, ev_seq = q', ev_payload = m\<rparr>"
  have e: "parse_dtls12_datagram E [] s [?ev] [] = (True, s, [?ev], [])" "parse_dtls13_datagram E [] s [?ev] [] = (True, s, [?ev], [])"
    by (subst parse_dtls12_datagram.simps, simp) (subst parse_dtls13_datagram.simps, simp)
  have "parse_dtls12_datagram E ?dg s [] [] = (True, s, [?ev], [])"
    using e(1) by (subst parse_dtls12_datagram.simps) (simp add: h l assms(2) Let_def)
  moreover have "parse_dtls13_datagram E ?dg s [] [] = (True, s, [?ev], [])"
    using e(2) by (subst parse_dtls13_datagram.simps) (simp add: h l Let_def)
  ultimately show ?thesis by (auto simp: parse_datagram_def)
qed

text \<open>A step on one plaintext record with one whole message of the expected number.\<close>

definition received_at :: "u64 \<Rightarrow> dtls_session \<Rightarrow> dtls_session" where
  "received_at q s = (if ver s = V13 then s\<lparr>received_records := received_records s @ [(0, q)]\<rparr> else s)"

lemma run_step_single:
  assumes "length m < 2 ^ 15" "recv_epoch s = 0" "reassembly_buf s = []"
  shows "\<exists>q'. run_step E process fin (plaintext_record 22 0 q (fragment ty (recv_msg_seq s) m (0, length m))) s =
    run_bind (process ty (recv_msg_seq s) m (start_state (received_at q' s))) (\<lambda>(ok, st).
      Ret (if ok then step_finish (fin (upd next_msg st))
           else step_fail (if st_error st = [] then ascii ''handshake message error'' else st_error st) (st_session st)))"
proof -
  let ?m = "fragment ty (recv_msg_seq s) m (0, length m)"
  have "length ?m = 12 + length m" by (simp add: fragment_def put24_def put16_def)
  then have "length ?m < 2 ^ 16" using assms(1) by simp
  from parse_plain_handshake [OF this assms(2)] obtain q' where
    p: "parse_datagram E (plaintext_record 22 0 q ?m) s = (True, s, [\<lparr>ev_type = 22, ev_epoch = 0, ev_seq = q', ev_payload = ?m\<rparr>], [])"
    by blast
  let ?st = "start_state (received_at q' s)"
  have u: "unat (word_of_nat (length m) :: u32) = length m" using assms(1) by (simp add: unat_of_nat)
  have r: "reassembly_buf (received_at q' s) = []" "recv_msg_seq (received_at q' s) = recv_msg_seq s"
    using assms(3) by (simp_all add: received_at_def)
  have "collect_fragment process ty (word_of_nat (length m)) (recv_msg_seq s) 0 m ?st = deliver process next_msg ty (recv_msg_seq s) m ?st"
    using r u by (simp add: collect_fragment_def Let_def start_state_def)
  moreover have "collect_handshake process (?m @ []) ?st =
    run_bind (collect_fragment process ty (word_of_nat (length m)) (recv_msg_seq s) 0 (take (length m) (drop 0 m)) ?st)
      (\<lambda>(ok, st). if ok then collect_handshake process [] st else Ret (False, st))"
    by (rule collect_step) (use assms(1) in simp_all)
  ultimately have c: "collect_handshake process ?m ?st = deliver process next_msg ty (recv_msg_seq s) m ?st"
    by (simp add: run_bind_ok)
  have f: "feed process [\<lparr>ev_type = 22, ev_epoch = 0, ev_seq = q', ev_payload = ?m\<rparr>] (start_state s) = collect_handshake process ?m ?st"
    by (simp add: feed_def start_state_def received_at_def upd_def Let_def)
  have "retry_pending E process 10 [] st = Ret (True, st)" for st by (simp add: numeral_eq_Suc)
  then have "run_step E process fin (plaintext_record 22 0 q ?m) s =
    run_bind (process ty (recv_msg_seq s) m ?st) (\<lambda>(ok, st).
      Ret (if ok then step_finish (fin (upd next_msg st))
           else step_fail (if st_error st = [] then ascii ''handshake message error'' else st_error st) (st_session st)))"
    by (cases "process ty (recv_msg_seq s) m ?st") (auto simp: run_step_def p f c deliver_def)
  then show ?thesis by blast
qed


section \<open>A Finished message before the keys\<close>

text \<open>
  What an attacker who reads the first datagram of a client computes: the secrets of a fresh session are zeros, the
  transcript holds the ClientHello alone.
\<close>

definition forged_finished :: "DTLSVersion \<Rightarrow> u16 \<Rightarrow> bytes \<Rightarrow> bytes" where
  "forged_finished v cs hello =
     (let h384 = tls_use_sha384 cs; hl = suite_hash_len cs;
          framed = drop 13 hello;
          transcript = (if v = V13 then take 4 framed @ drop 12 framed else framed);
          th = (if h384 then sha384 transcript else sha256 transcript)
      in if v = V13
         then (let key = expand_label13 (replicate 48 0) ''finished'' [] hl h384
               in if h384 then hmac_sha384 sha512_raw key th else hmac_sha256 ctx64 key th)
         else prf12 (replicate 48 0) ''server finished'' th 12 h384)"

definition forged_datagram :: "DTLSVersion \<Rightarrow> u16 \<Rightarrow> u64 \<Rightarrow> bytes \<Rightarrow> bytes" where
  "forged_datagram v cs q hello =
     plaintext_record 22 0 q (fragment 20 0 (forged_finished v cs hello) (0, length (forged_finished v cs hello)))"

lemma length_forged_finished:
  "length (forged_finished v cs hello) = (if v = V13 then suite_hash_len cs else 12)"
  by (simp add: forged_finished_def Let_def suite_hash_len_def prf12_def prf12_loop.simps [of _ _ _ _ 12] prf12_loop.simps [of _ _ _ _ 0]
      length_hmac hmac_sha256_eq hmac_sha384_eq length_sha512_raw length_ctx64)

definition fresh_client :: "DTLSVersion \<Rightarrow> u16 \<Rightarrow> u16 \<Rightarrow> bytes \<Rightarrow> bytes \<Rightarrow> dtls_session" where
  "fresh_client v cs grp host random =
     (dtls_session_default random)\<lparr>ver := v, cipher_suite := cs, ks_group := grp, server_name := host\<rparr>"

lemma generate_shape:
  "\<exists>w x y z. generate_ecdh_keypair E s = s\<lparr>os_random := w, ks_priv := x, ks_pub := y, ks_pub_len := z\<rparr>"
  unfolding generate_ecdh_keypair_def Let_def by (split prod.split)+ (intro allI impI exI, rule refl)

lemma rand_shape: "\<exists>x w. rand_bytes n s = (x, s\<lparr>os_random := w\<rparr>)"
  by (cases "n \<le> length (os_random s)") (auto simp: rand_bytes_def)

lemma protect13_keeps:
  "snd (dtls13_protect E ty data s) = s\<lparr>send_seq := send_seq s + 1\<rparr>"
  by (simp add: dtls13_protect_def Let_def split: option.split prod.split)

lemma client_hello_sent:
  assumes "client_start E (fresh_client v cs grp host random) = (s, r)"
  shows "ver s = v" "cipher_suite s = cs" "is_server s = False" "client_phase s = ChSent" "have_server_cert s = False" "server_cert_parsed s = None"
    "master_secret s = replicate 48 0" "server_hs_traffic s = replicate 48 0" "transcript_hash s = replicate 48 0"
    "recv_epoch s = 0" "recv_msg_seq s = 0" "reassembly_buf s = []" "handshake_done s = False"
    "transcript_buf s = (if v = V13 then take 4 (drop 13 (step_out r)) @ drop 12 (drop 13 (step_out r)) else drop 13 (step_out r))"
proof -
  define s1 where "s1 = (snd (rand_bytes 32 (fresh_client v cs grp host random)))\<lparr>client_random := fst (rand_bytes 32 (fresh_client v cs grp host random))\<rparr>"
  obtain cr o1 where rb: "rand_bytes 32 (fresh_client v cs grp host random) = (cr, (fresh_client v cs grp host random)\<lparr>os_random := o1\<rparr>)"
    using rand_shape by blast
  have k: "s1 = (fresh_client v cs grp host random)\<lparr>os_random := o1, client_random := cr\<rparr>"
    by (simp add: s1_def rb)
  define s2 where "s2 = generate_ecdh_keypair E s1"
  obtain w x y z where "generate_ecdh_keypair E s1 = s1\<lparr>os_random := w, ks_priv := x, ks_pub := y, ks_pub_len := z\<rparr>"
    using generate_shape by blast
  then have s2: "s2 = (fresh_client v cs grp host random)\<lparr>os_random := o1, client_random := cr,
      os_random := w, ks_priv := x, ks_pub := y, ks_pub_len := z\<rparr>"
    by (simp add: s2_def k)
  define body where "body = (if v = V13 then build_ch13_body s2 (client_suites True cs) else build_ch12_body s2 (client_suites False cs))"
  have f: "ver s2 = v" "cipher_suite s2 = cs" "is_server s2 = False" "have_server_cert s2 = False" "server_cert_parsed s2 = None"
    "master_secret s2 = replicate 48 0" "server_hs_traffic s2 = replicate 48 0" "transcript_hash s2 = replicate 48 0"
    "recv_epoch s2 = 0" "recv_msg_seq s2 = 0" "reassembly_buf s2 = []" "handshake_done s2 = False" "transcript_buf s2 = []"
    by (simp_all add: s2 fresh_client_def dtls_session_default_def)
  have c: "ver (fresh_client v cs grp host random) = v" by (simp add: fresh_client_def)
  have s2': "generate_ecdh_keypair E ((fresh_client v cs grp host random)\<lparr>os_random := o1, client_random := cr\<rparr>) = s2"
    by (simp add: s2_def k)
  have "client_start E (fresh_client v cs grp host random) =
    (let s = s2\<lparr>client_phase := ChSent\<rparr>;
          (framed, s) =
            (if v = V13
             then let inner = inner_handshake 1 body; s = transcript_add inner s
                  in (frame_inner s inner 0 (length body), s\<lparr>send_msg_seq := send_msg_seq s + 1\<rparr>)
             else add_framed 1 body s);
          (out, s) = send_plain 22 framed s
      in (s\<lparr>last_sent := out\<rparr>, \<lparr>step_ok = True, step_done = False, step_out = out, step_error = []\<rparr>))"
    using rb s2' f(1,2) c body_def by (cases v) (simp_all add: client_start_def Let_def)
  then show "ver s = v" "cipher_suite s = cs" "is_server s = False" "client_phase s = ChSent" "have_server_cert s = False" "server_cert_parsed s = None"
    "master_secret s = replicate 48 0" "server_hs_traffic s = replicate 48 0" "transcript_hash s = replicate 48 0"
    "recv_epoch s = 0" "recv_msg_seq s = 0" "reassembly_buf s = []" "handshake_done s = False"
    "transcript_buf s = (if v = V13 then take 4 (drop 13 (step_out r)) @ drop 12 (drop 13 (step_out r)) else drop 13 (step_out r))"
    using assms f by (auto simp: Let_def send_plain_def add_framed_def transcript_add_def frame_inner_def inner_handshake_def plaintext_record_def
      put24_def put16_def split: if_splits)
qed

lemma transcript_digest:
  assumes "length (transcript_hash s) = 48"
  shows "take (suite_hash_len (cipher_suite s)) (transcript_hash (transcript_compute s))
    = (if tls_use_sha384 (cipher_suite s) then sha384 (transcript_buf s) else sha256 (transcript_buf s))"
  using assms by (simp add: transcript_compute_def suite_hash_len_def memcpy_at_def length_scheme_hashes)

lemma forged_finished_expected:
  assumes "master_secret s = replicate 48 0" "server_hs_traffic s = replicate 48 0" "length (transcript_hash s) = 48"
    "cipher_suite s = cs"
    "transcript_buf s = (if ver s = V13 then take 4 (drop 13 hello) @ drop 12 (drop 13 hello) else drop 13 hello)"
  shows "ver s = V12 \<Longrightarrow> build_finished12 True s = (forged_finished V12 cs hello, transcript_compute s)"
    "ver s = V13 \<Longrightarrow> finished_mac13 (server_hs_traffic s) (transcript_compute s) = forged_finished V13 cs hello"
proof -
  note th = transcript_digest [OF assms(3)]
  have k: "cipher_suite (transcript_compute s) = cs" "master_secret (transcript_compute s) = replicate 48 0"
    using assms by (simp_all add: transcript_compute_def)
  have s: "suite_hash_len cs = (if tls_use_sha384 cs then 48 else 32)" by (simp add: suite_hash_len_def)
  show "ver s = V12 \<Longrightarrow> build_finished12 True s = (forged_finished V12 cs hello, transcript_compute s)"
    using th k assms by (simp add: build_finished12_def forged_finished_def Let_def)
  show "ver s = V13 \<Longrightarrow> finished_mac13 (server_hs_traffic s) (transcript_compute s) = forged_finished V13 cs hello"
    using th k assms by (simp add: finished_mac13_def forged_finished_def Let_def)
qed

lemma keeps_cert [simp]:
  "have_server_cert (transcript_add m s) = have_server_cert s" "have_server_cert (transcript_compute s) = have_server_cert s"
  "have_server_cert (transcript_add_msg ty q m b s) = have_server_cert s"
  "have_server_cert (dtls13_derive_application s) = have_server_cert s"
  by (simp_all add: transcript_add_def transcript_compute_def transcript_add_msg_def dtls13_derive_application_def Let_def)

lemma flight13_keeps_cert: "have_server_cert (snd (client_flight13 E s)) = have_server_cert s"
proof -
  have p: "have_server_cert s' = have_server_cert s" if "dtls13_protect E ty data s = (x, s')" for ty data s x s'
    using protect13_keeps [of E ty data s] that by simp
  show ?thesis
    by (simp add: client_flight13_def protect_inner_def build_finished13_def Let_def split: prod.split) (auto dest!: p)
qed

lemma client_finished_forged:
  assumes "client_start E (fresh_client v cs grp host random) = (s, r)"
  shows "\<exists>st'. client_finished E 20 0 (forged_finished v cs (step_out r)) (start_state (received_at q s)) = (True, st')
    \<and> st_done st' \<and> handshake_done (st_session st') \<and> client_phase (st_session st') = Done \<and> \<not> have_server_cert (st_session st')"
proof -
  note H = client_hello_sent [OF assms]
  let ?s = "received_at q s"
  let ?m = "forged_finished v cs (step_out r)"
  have h: "ver ?s = v" "cipher_suite ?s = cs" "master_secret ?s = replicate 48 0" "server_hs_traffic ?s = replicate 48 0"
    "length (transcript_hash ?s) = 48" "have_server_cert ?s = False"
    "transcript_buf ?s = (if ver ?s = V13 then take 4 (drop 13 (step_out r)) @ drop 12 (drop 13 (step_out r)) else drop 13 (step_out r))"
    using H by (simp_all add: received_at_def)
  note F = forged_finished_expected [OF h(3,4,5,2,7)]
  have c: "cipher_suite (transcript_compute ?s) = cs" "server_hs_traffic (transcript_compute ?s) = server_hs_traffic ?s"
    "ver (transcript_compute ?s) = v"
    using h by (simp_all add: transcript_compute_def)
  have l: "length ?m = (if v = V13 then suite_hash_len cs else 12)" by (rule length_forged_finished)
  show ?thesis
  proof (cases v)
    case V12
    then show ?thesis
      using F(1) h(1,6) l by (simp add: client_finished_def start_state_def Let_def)
  next
    case V13
    define s4 where "s4 = dtls13_derive_application (transcript_add_msg 20 0 ?m True (transcript_compute ?s))"
    obtain out s5 where f: "client_flight13 E s4 = (out, s5)" by fastforce
    have "have_server_cert s5 = False" using flight13_keeps_cert [of E s4] f h(6) by (simp add: s4_def)
    then show ?thesis
      using F(2) h(1,2) c l V13 f [unfolded s4_def]
      by (simp add: client_finished_def start_state_def Let_def respond_def)
  qed
qed

lemma forged_finished_step:
  assumes "client_start E (fresh_client v cs grp host random) = (s, r)"
  shows "\<exists>s' r'. client_step C E now trust (forged_datagram v cs q (step_out r)) s = Ret (s', r')
    \<and> step_ok r' \<and> step_done r' \<and> handshake_done s' \<and> client_phase s' = Done \<and> \<not> have_server_cert s'"
proof -
  note H = client_hello_sent [OF assms]
  let ?m = "forged_finished v cs (step_out r)"
  have "length ?m < 2 ^ 15" by (simp add: length_forged_finished suite_hash_len_def)
  from run_step_single [OF this H(10,12), of E "client_process C E now trust" "client_fin E" q 20]
  obtain q' where R: "run_step E (client_process C E now trust) (client_fin E) (forged_datagram v cs q (step_out r)) s =
    run_bind (client_process C E now trust 20 0 ?m (start_state (received_at q' s))) (\<lambda>(ok, st).
      Ret (if ok then step_finish (client_fin E (upd next_msg st))
           else step_fail (if st_error st = [] then ascii ''handshake message error'' else st_error st) (st_session st)))"
    using H(11) by (auto simp: forged_datagram_def)
  obtain st' where f: "client_finished E 20 0 ?m (start_state (received_at q' s)) = (True, st')"
    and d: "st_done st'" "handshake_done (st_session st')" "client_phase (st_session st') = Done" "\<not> have_server_cert (st_session st')"
    using client_finished_forged [OF assms] by blast
  have g: "st_build st' \<or> \<not> st_got_shd st'"
    using f by (auto simp: client_finished_def start_state_def respond_def Let_def split: if_splits prod.splits)
  have "forged_datagram v cs q (step_out r) \<noteq> []" by (simp add: forged_datagram_def plaintext_record_def dtls12_header_def)
  then show ?thesis
    using R f d g H(4) by (auto simp: client_step_def client_process_def client_fin_def upd_def next_msg_def step_finish_def Let_def)
qed

text \<open>
  C7. A client accepts a Finished message before any other: whoever reads its ClientHello can answer with one datagram of a
  plaintext Finished, computed from zero keys, and the step reports a finished handshake with no certificate received, in DTLS 1.2 and 1.3,
  whatever the trust store holds.
\<close>

theorem forged_finished_completes_handshake:
  "case client_start E (fresh_client v cs grp host random) of (s, r) \<Rightarrow>
     (case client_step C E now trust (forged_datagram v cs q (step_out r)) s of
        Throw \<Rightarrow> False
      | Ret (s', r') \<Rightarrow> step_ok r' \<and> step_done r' \<and> handshake_done s' \<and> client_phase s' = Done \<and> \<not> have_server_cert s')"
proof -
  obtain s r where s: "client_start E (fresh_client v cs grp host random) = (s, r)" by fastforce
  then show ?thesis using forged_finished_step [OF s, of C now trust q] by auto
qed

section \<open>Fragments\<close>

text \<open>
  C9. A handshake message reaches its handler whole, once and in its turn, however it was cut: the fragments may overlap, repeat
  and come in any order, as long as the last one completes the message. The rest of the step's state is untouched.
\<close>

theorem fragments_reassemble:
  assumes "reassembly_buf (st_session st) = []" "recv_msg_seq (st_session st) = mseq" "0 < length m" "length m < 2 ^ 24"
    "\<forall>(foff, flen)\<in>set frs. foff + flen \<le> length m"
    "covered (butlast frs) \<noteq> {..<length m}"
    "covered frs = {..<length m}"
  shows "\<exists>st' after. upd unassembled st' = upd unassembled st \<and> after \<in> {next_msg, \<lambda>s. reassembly_clear (next_msg s)} \<and>
     collect_handshake process (concat (map (fragment ty mseq m) frs)) st = deliver process after ty mseq m st'"
  by (rule fragments_deliver [OF assms])

theorem fragments_reassemble_witness:
  "\<exists>st' after. upd unassembled st' = upd unassembled (start_state (dtls_session_default [])) \<and>
     after \<in> {next_msg, \<lambda>s. reassembly_clear (next_msg s)} \<and>
     collect_handshake (\<lambda>_ _ m st. Ret (True, respond m st)) (concat (map (fragment 1 0 [5, 6, 7]) [(2, 1), (0, 1), (0, 2)])) (start_state (dtls_session_default []))
       = deliver (\<lambda>_ _ m st. Ret (True, respond m st)) after 1 0 [5, 6, 7] st'"
proof (rule fragments_reassemble)
  have "1 \<in> {..<length [5, 6, 7 :: u8]}" "1 \<notin> covered (butlast [(2, 1), (0, 1), (0, 2)])" by simp_all
  then show "covered (butlast [(2, 1), (0, 1), (0, 2)]) \<noteq> {..<length [5, 6, 7 :: u8]}" by metis
  show "covered [(2, 1), (0, 1), (0, 2)] = {..<length [5, 6, 7 :: u8]}" by (rule set_eqI) (simp, presburger)
qed (simp_all add: start_state_def dtls_session_default_def)

lemma other_total_ignored:
  assumes "reassembly_buf (st_session st) \<noteq> []" "recv_msg_seq (st_session st) = mseq"
    "reassembly_total_len (st_session st) \<noteq> word_of_nat (length m)" "length m < 2 ^ 24"
    "\<forall>(foff, flen)\<in>set frs. foff + flen \<le> length m"
  shows "collect_handshake process (concat (map (fragment ty mseq m) frs)) st = Ret (True, st)"
  using assms(5)
proof (induction frs)
  case (Cons fr frs)
  obtain foff flen where fr: "fr = (foff, flen)" by fastforce
  have le: "foff + flen \<le> length m" using Cons.prems by (simp add: fr)
  have "upd (reassembly_start mseq (word_of_nat (length m))) st = st"
    using assms(1) by (simp add: upd_def reassembly_start_def)
  then have "collect_fragment process ty (word_of_nat (length m)) mseq foff (take flen (drop foff m)) st = Ret (True, st)"
    using assms(1-3) by (simp add: collect_fragment_def Let_def)
  then show ?case using Cons collect_step [OF assms(4) le, of process ty mseq _ st] by (simp add: fr)
qed simp

lemma wrong_total_blocks:
  assumes "reassembly_buf (st_session st) = []" "recv_msg_seq (st_session st) = mseq"
    "length f < 2 ^ 24" "foff + flen \<le> length f" "flen < length f" "length m < 2 ^ 24" "length f \<noteq> length m"
    "\<forall>(foff, flen)\<in>set frs. foff + flen \<le> length m"
  shows "\<exists>st'. collect_handshake process (fragment ty mseq f (foff, flen) @ concat (map (fragment ty' mseq m) frs)) st = Ret (True, st')
     \<and> upd unassembled st' = upd unassembled st"
proof -
  have u: "unat (word_of_nat (length f) :: u32) = length f" using assms(3) by (simp add: unat_of_nat)
  define st1 where "st1 = upd (reassembly_start mseq (word_of_nat (length f))) st"
  have a: "assembling st mseq f {} st1"
    using assms(1,2) holds_start by (simp add: assembling_def st1_def upd_def reassembly_start_def unassembled_def u)
  have buf: "reassembly_buf (st_session st1) \<noteq> []" using assms(1,5) by (auto simp: st1_def upd_def reassembly_start_def u)
  have l: "length (take flen (drop foff f)) = flen" using assms(4) by simp
  have "upd (reassembly_start mseq (word_of_nat (length f))) st1 = st1" using buf by (simp add: upd_def reassembly_start_def)
  then have e: "collect_fragment process ty (word_of_nat (length f)) mseq foff (take flen (drop foff f)) st
      = collect_fragment process ty (word_of_nat (length f)) mseq foff (take flen (drop foff f)) st1"
    using assms(1,2,5) l u buf a by (auto simp: collect_fragment_def Let_def st1_def [symmetric] assembling_def)
  have nf: "{foff..<foff + flen} \<noteq> {..<length f}"
  proof
    assume "{foff..<foff + flen} = {..<length f}"
    then have "card {foff..<foff + flen} = card {..<length f}" by simp
    with assms(5) show False by simp
  qed
  have "0 < length f" using assms(5) by linarith
  from assembling_fragment [OF a this assms(3,4)] obtain st' where st': "assembling st mseq f ({} \<union> {foff..<foff + flen}) st'"
    "collect_fragment process ty (word_of_nat (length f)) mseq foff (take flen (drop foff f)) st1
      = (if {} \<union> {foff..<foff + flen} = {..<length f} then deliver process (\<lambda>s. reassembly_clear (next_msg s)) ty mseq f st' else Ret (True, st'))"
    by blast
  have b: "reassembly_buf (st_session st') \<noteq> []" "recv_msg_seq (st_session st') = mseq"
    "reassembly_total_len (st_session st') \<noteq> word_of_nat (length m)"
  proof -
    have "length (reassembly_buf (st_session st')) = length f" using st'(1) by (auto simp: assembling_def holds_def)
    then show "reassembly_buf (st_session st') \<noteq> []" using assms(5) by force
    show "recv_msg_seq (st_session st') = mseq" using st'(1) by (auto simp: assembling_def)
    have "reassembly_total_len (st_session st') = word_of_nat (length f)" using st'(1) by (auto simp: assembling_def)
    moreover have "unat (word_of_nat (length m) :: u32) = length m" using assms(6) by (simp add: unat_of_nat)
    ultimately show "reassembly_total_len (st_session st') \<noteq> word_of_nat (length m)" using u assms(7) by metis
  qed
  have "collect_handshake process (fragment ty mseq f (foff, flen) @ concat (map (fragment ty' mseq m) frs)) st
     = collect_handshake process (concat (map (fragment ty' mseq m) frs)) st'"
    using collect_step [OF assms(3,4), of process ty mseq _ st] e st'(2) nf by simp
  then show ?thesis using other_total_ignored [OF b assms(6,8), of process ty'] st'(1) by (auto simp: assembling_def)
qed

text \<open>
  C26. One forged fragment blocks the handshake: after a partial fragment of the expected number that states another total length, every
  fragment of the genuine message is dropped, no handler runs and the expected number does not move.
\<close>

theorem forged_fragment_blocks_message:
  assumes "reassembly_buf (st_session st) = []" "recv_msg_seq (st_session st) = mseq"
    "length f < 2 ^ 24" "foff + flen \<le> length f" "flen < length f" "length m < 2 ^ 24" "length f \<noteq> length m"
    "\<forall>(foff, flen)\<in>set frs. foff + flen \<le> length m"
  shows "\<exists>st'. collect_handshake process (fragment ty mseq f (foff, flen) @ concat (map (fragment ty' mseq m) frs)) st = Ret (True, st')
     \<and> upd unassembled st' = upd unassembled st"
  by (rule wrong_total_blocks [OF assms])

theorem forged_fragment_blocks_message_witness:
  "\<exists>st'. collect_handshake (\<lambda>_ _ m st. Ret (True, respond m st)) (fragment 1 0 [0, 0] (0, 0) @ concat (map (fragment 1 0 [5, 6, 7]) [(0, 3)]))
       (start_state (dtls_session_default [])) = Ret (True, st')
     \<and> upd unassembled st' = upd unassembled (start_state (dtls_session_default []))"
  by (rule forged_fragment_blocks_message) (auto simp: start_state_def dtls_session_default_def)

section \<open>The chain of the server\<close>

text \<open>
  C24. The trust store of a DTLS client does not anchor the chain: any chain whose hops hold and whose last certificate is a CA signed
  by itself passes, with whatever roots, even none, and the answer is that of the host name alone.
\<close>

theorem self_made_chain_needs_no_root:
  assumes "chain \<noteq> []" "hops_ok C now chain" "is_ca (last chain)" "verify_signature C (last chain) (last chain) = Ret True"
  shows "verify_server_chain C now chain roots host = Ret (hostname_matches (hd chain) host)"
proof -
  have "x509_verify_chain C now chain 0 = Ret None" using assms by (simp add: x509_verify_chain_def chain_loop_iff)
  then show ?thesis using assms(1) by (simp add: verify_server_chain_def)
qed

theorem self_made_chain_needs_no_root_witness:
  "verify_server_chain toy_crypto 50 [toy_cert False 1, toy_cert True 2] [] [] = Ret True"
proof -
  have "hops_ok toy_crypto 50 [toy_cert False 1, toy_cert True 2]" by (simp add: toy_cert_valid toy_cert_verifies)
  then show ?thesis
    using self_made_chain_needs_no_root [of "[toy_cert False 1, toy_cert True 2]" toy_crypto 50 "[]" "[]"]
    by (simp add: toy_cert_valid toy_cert_verifies hostname_matches_def)
qed

end
