(* ===== verification/DtlsWf.thy ===== *)
theory DtlsWf
  imports DtlsForge
begin

text \<open>
  Well-formed sessions of \<open>src/src/dtls.cpp\<close>: the fixed arrays of \<open>dtls_session\<close> keep their sizes and the reassembly state agrees
  with itself under every operation, handler and step. \<open>keeps\<close> and \<open>returns\<close> are what the reassembly needs of a handler.
\<close>


section \<open>The invariant\<close>

definition wf_arrays :: "dtls_session \<Rightarrow> bool" where
  "wf_arrays s \<longleftrightarrow>
     length (client_random s) = 32 \<and> length (server_random s) = 32
     \<and> length (client_write_key s) = 32 \<and> length (server_write_key s) = 32
     \<and> length (client_write_iv s) = 16 \<and> length (server_write_iv s) = 16
     \<and> length (master_secret s) = 48 \<and> length (handshake_secret s) = 48
     \<and> length (client_hs_traffic s) = 48 \<and> length (server_hs_traffic s) = 48
     \<and> length (client_app_traffic s) = 48 \<and> length (server_app_traffic s) = 48
     \<and> length (ks_priv s) = 56 \<and> length (ks_pub s) = 96 \<and> length (transcript_hash s) = 48"

definition wf_reassembly :: "dtls_session \<Rightarrow> bool" where
  "wf_reassembly s \<longleftrightarrow>
     length (reassembly_received s) = length (reassembly_buf s)
     \<and> reassembly_remaining s = length (filter Not (reassembly_received s))
     \<and> (if reassembly_buf s = [] then True else length (reassembly_buf s) = unat (reassembly_total_len s))"

definition wf_session :: "dtls_session \<Rightarrow> bool" where
  "wf_session s \<longleftrightarrow> wf_arrays s \<and> wf_reassembly s"

text \<open>What the generators of the key pairs write fits \<open>ks_priv\<close> and \<open>ks_pub\<close>.\<close>

definition wf_env :: "dtls_env \<Rightarrow> bool" where
  "wf_env E \<longleftrightarrow> (\<forall>g r. length (fst (keygen E g r)) \<le> 56 \<and> length (fst (snd (keygen E g r))) \<le> 96)"

named_theorems wf_ops

lemmas wf_defs = wf_session_def wf_arrays_def wf_reassembly_def

lemma wf_frame [simp]:
  "wf_session (s\<lparr>ver := v\<rparr>) = wf_session s" "wf_session (s\<lparr>server_name := n\<rparr>) = wf_session s"
  "wf_session (s\<lparr>cipher_suite := c\<rparr>) = wf_session s" "wf_session (s\<lparr>ks_group := c\<rparr>) = wf_session s"
  "wf_session (s\<lparr>key_len := k\<rparr>) = wf_session s" "wf_session (s\<lparr>iv_len := k\<rparr>) = wf_session s"
  "wf_session (s\<lparr>ks_pub_len := l\<rparr>) = wf_session s" "wf_session (s\<lparr>send_epoch := c\<rparr>) = wf_session s"
  "wf_session (s\<lparr>recv_epoch := c\<rparr>) = wf_session s" "wf_session (s\<lparr>send_seq := q\<rparr>) = wf_session s"
  "wf_session (s\<lparr>recv_seq := q\<rparr>) = wf_session s" "wf_session (s\<lparr>send_msg_seq := c\<rparr>) = wf_session s"
  "wf_session (s\<lparr>recv_msg_seq := c\<rparr>) = wf_session s" "wf_session (s\<lparr>client_phase := cp\<rparr>) = wf_session s"
  "wf_session (s\<lparr>server_phase := sp\<rparr>) = wf_session s" "wf_session (s\<lparr>cookie := n\<rparr>) = wf_session s"
  "wf_session (s\<lparr>cookie_secret := n\<rparr>) = wf_session s" "wf_session (s\<lparr>received_records := rr\<rparr>) = wf_session s"
  "wf_session (s\<lparr>last_sent := n\<rparr>) = wf_session s" "wf_session (s\<lparr>transcript_buf := n\<rparr>) = wf_session s"
  "wf_session (s\<lparr>selected_sig_alg := c\<rparr>) = wf_session s" "wf_session (s\<lparr>handshake_done := b\<rparr>) = wf_session s"
  "wf_session (s\<lparr>server_finished_received := b\<rparr>) = wf_session s" "wf_session (s\<lparr>retransmit_requested := b\<rparr>) = wf_session s"
  "wf_session (s\<lparr>have_server_cert := b\<rparr>) = wf_session s" "wf_session (s\<lparr>server_chain := ch\<rparr>) = wf_session s"
  "wf_session (s\<lparr>server_cert_parsed := sc\<rparr>) = wf_session s" "wf_session (s\<lparr>os_random := n\<rparr>) = wf_session s"
  by (simp_all add: wf_defs)

lemma wf_random [simp]:
  "wf_session s \<Longrightarrow> wf_session (s\<lparr>client_random := r\<rparr>) \<longleftrightarrow> length r = 32"
  "wf_session s \<Longrightarrow> wf_session (s\<lparr>server_random := r\<rparr>) \<longleftrightarrow> length r = 32"
  by (simp_all add: wf_defs)

lemma wf_default: "wf_session (dtls_session_default random)"
  by (simp add: wf_defs dtls_session_default_def)

section \<open>The operations\<close>

lemma length_expand_label13 [simp]: "length (expand_label13 secret label ctx n h384) = n"
  by (simp add: expand_label13_def Let_def hkdf_expand_def hkdf_expand_sha384_def hkdf256.length_loop hkdf384.length_loop)

lemma length_extract13 [simp]: "length (extract13 h384 salt ikm) = (if h384 then 48 else 32)"
  by (simp add: extract13_def hkdf_extract_def hkdf_extract_sha384_def hmac_sha256_eq hmac_sha384_eq length_hmac length_sha512_raw length_ctx64)

lemma length_prf12_loop: "0 < hl \<Longrightarrow> (\<And>x. length (mac x) = hl) \<Longrightarrow> length (prf12_loop mac hl lseed a n) = n"
  by (induction mac hl lseed a n rule: prf12_loop.induct) (subst prf12_loop.simps, simp add: Let_def)

lemma length_prf12 [simp]: "length (prf12 secret label seed n h384) = n"
  by (simp add: prf12_def Let_def length_prf12_loop length_hmac hmac_sha256_eq hmac_sha384_eq length_sha512_raw length_ctx64)

lemma wf_rand [wf_ops]: "rand_bytes n s = (x, s') \<Longrightarrow> wf_session s \<Longrightarrow> wf_session s' \<and> length x = n"
  by (auto simp: rand_bytes_def split: if_splits)

lemma wf_transcript_add [simp]: "wf_session (transcript_add m s) = wf_session s"
  "wf_session (transcript_reset s) = wf_session s" "wf_session (transcript_add_msg ty q m b s) = wf_session s"
  by (simp_all add: transcript_add_def transcript_reset_def transcript_add_msg_def)

lemma wf_transcript_compute [simp]: "wf_session s \<Longrightarrow> wf_session (transcript_compute s)"
  by (simp add: wf_defs transcript_compute_def length_scheme_hashes)

lemma wf_derive12 [simp]: "wf_session s \<Longrightarrow> wf_session (dtls12_derive_keys pm s)"
  by (simp add: wf_defs dtls12_derive_keys_def Let_def suite_key_len_def dtls12_iv_len_def)

lemma wf_derive13 [simp]: "wf_session s \<Longrightarrow> wf_session (dtls13_derive_handshake sec s)"
  by (simp add: wf_defs dtls13_derive_handshake_def Let_def transcript_compute_def length_scheme_hashes suite_hash_len_def)

lemma wf_application13 [simp]: "wf_session s \<Longrightarrow> wf_session (dtls13_derive_application s)"
  by (simp add: wf_defs dtls13_derive_application_def Let_def transcript_compute_def length_scheme_hashes suite_hash_len_def)

lemma wf_keypair [simp]:
  assumes "wf_env E" "wf_session s"
  shows "wf_session (generate_ecdh_keypair E s)"
proof -
  define g :: u16 where "g = (if ks_group s = 0x001e then 0x001e else if ks_group s = 0x0017 then 0x0017 else 0x001d)"
  obtain priv pub r where k: "keygen E g (os_random s) = (priv, pub, r)" by (metis prod.exhaust)
  then have "length priv \<le> 56 \<and> length pub \<le> 96" using assms(1) unfolding wf_env_def by (metis fst_conv snd_conv)
  then show ?thesis
    using assms(2) k by (simp add: generate_ecdh_keypair_def g_def [symmetric] wf_defs)
qed

lemma wf_derive [wf_ops]: "ecdh_derive E peer s = (ok, s') \<Longrightarrow> wf_session s \<Longrightarrow> wf_session s'"
  by (auto simp: ecdh_derive_def split: option.splits if_splits)

lemma wf_protect12 [wf_ops]: "dtls12_protect E ty data s = (x, s') \<Longrightarrow> wf_session s \<Longrightarrow> wf_session s'"
  by (auto simp: dtls12_protect_def Let_def rand_bytes_def split: prod.splits if_splits)

lemma wf_protect13 [wf_ops]: "dtls13_protect E ty data s = (x, s') \<Longrightarrow> wf_session s \<Longrightarrow> wf_session s'"
  using protect13_keeps [of E ty data s] by simp

lemma wf_send_plain [wf_ops]: "send_plain ty m s = (x, s') \<Longrightarrow> wf_session s \<Longrightarrow> wf_session s'"
  by (auto simp: send_plain_def)

lemma wf_add_framed [wf_ops]: "add_framed ty m s = (x, s') \<Longrightarrow> wf_session s \<Longrightarrow> wf_session s'"
  by (auto simp: add_framed_def Let_def)

lemma wf_finished12 [wf_ops]: "build_finished12 b s = (x, s') \<Longrightarrow> wf_session s \<Longrightarrow> wf_session s'"
  by (auto simp: build_finished12_def Let_def)

lemma wf_finished13 [wf_ops]: "build_finished13 b s = (x, s') \<Longrightarrow> wf_session s \<Longrightarrow> wf_session s'"
  by (auto simp: build_finished13_def Let_def)

lemma wf_protect_inner [wf_ops]: "protect_inner E m s = (x, s') \<Longrightarrow> wf_session s \<Longrightarrow> wf_session s'"
  by (auto simp: protect_inner_def Let_def dest!: wf_protect13)

lemma wf_sign_salt [wf_ops]: "sign_salt sch s = (x, s') \<Longrightarrow> wf_session s \<Longrightarrow> wf_session s'"
  by (auto simp: sign_salt_def Let_def split: option.splits if_splits)

lemma wf_skx [wf_ops]: "build_skx_body C cert s = (x, s') \<Longrightarrow> wf_session s \<Longrightarrow> wf_session s'"
  by (auto simp: build_skx_body_def Let_def split: prod.splits option.splits dest: wf_sign_salt)

lemma wf_cv13 [wf_ops]: "build_cv_body13 C cert s = (x, s') \<Longrightarrow> wf_session s \<Longrightarrow> wf_session s'"
  by (auto simp: build_cv_body13_def Let_def split: prod.splits option.splits dest: wf_sign_salt)

lemma wf_flight12 [wf_ops]: "client_flight12 E s = (x, s') \<Longrightarrow> wf_session s \<Longrightarrow> wf_session s'"
  by (simp add: client_flight12_def Let_def split: prod.splits) (auto dest!: wf_ops)

lemma wf_flight13 [wf_ops]: "client_flight13 E s = (x, s') \<Longrightarrow> wf_session s \<Longrightarrow> wf_session s'"
  by (simp add: client_flight13_def Let_def split: prod.splits) (auto dest!: wf_ops)

section \<open>Reassembly\<close>

lemma filter_update: "i < length r \<Longrightarrow> \<not> r ! i \<Longrightarrow> Suc (length (filter Not (r[i := True]))) = length (filter Not r)"
  by (induction r arbitrary: i) (auto split: nat.splits simp: nth_Cons)

lemma store_fragment_wf:
  "store_fragment i frag (buf, rcv, left) = (buf', rcv', left') \<Longrightarrow> length rcv = length buf \<Longrightarrow> left = length (filter Not rcv) \<Longrightarrow>
   i + length frag \<le> length buf \<Longrightarrow>
   length buf' = length buf \<and> length rcv' = length buf \<and> left' = length (filter Not rcv')"
proof (induction frag arbitrary: i buf rcv left)
  case (Cons b frag)
  show ?case
  proof (cases "rcv ! i")
    case True
    then have "store_fragment (Suc i) frag (buf, rcv, left) = (buf', rcv', left')" using Cons.prems(1) by simp
    from Cons.IH [OF this Cons.prems(2,3)] Cons.prems(4) show ?thesis by simp
  next
    case False
    then have e: "store_fragment (Suc i) frag (buf[i := b], rcv[i := True], left - 1) = (buf', rcv', left')"
      using Cons.prems(1) by simp
    have "left - 1 = length (filter Not (rcv[i := True]))"
      using filter_update [of i rcv] False Cons.prems(2-4) by (simp only: length_Cons) simp
    from Cons.IH [OF e _ this] Cons.prems(2,4) show ?thesis by simp
  qed
qed simp

definition wf_step :: "step_state \<Rightarrow> bool" where
  "wf_step st = wf_session (st_session st)"

lemma wf_step_frame [simp]:
  "wf_step (st\<lparr>st_response := r\<rparr>) = wf_step st" "wf_step (st\<lparr>st_build := b\<rparr>) = wf_step st" "wf_step (st\<lparr>st_done := b\<rparr>) = wf_step st"
  "wf_step (st\<lparr>st_got_shd := b\<rparr>) = wf_step st" "wf_step (st\<lparr>st_error := r\<rparr>) = wf_step st"
  "wf_step (st\<lparr>st_session := s\<rparr>) = wf_session s" "wf_step (respond r st) = wf_step st" "wf_step (start_state s) = wf_session s"
  "wf_step (upd f st) = wf_session (f (st_session st))"
  by (simp_all add: wf_step_def respond_def start_state_def upd_def)

lemma wf_start: "wf_session s \<Longrightarrow> wf_session (reassembly_start q t s)"
  by (simp add: wf_defs reassembly_start_def)

lemma wf_clear: "wf_session s \<Longrightarrow> wf_session (reassembly_clear (next_msg s))" "wf_session (next_msg s) = wf_session s"
  by (simp_all add: wf_defs reassembly_clear_def next_msg_def)

lemma wf_store:
  assumes "wf_session s" "foff + length frag \<le> length (reassembly_buf s)"
  shows "wf_session (reassembly_store foff frag s)"
proof -
  obtain buf rcv left where "store_fragment foff frag (reassembly_buf s, reassembly_received s, reassembly_remaining s) = (buf, rcv, left)"
    using prod_cases3 by blast
  moreover from store_fragment_wf [OF this] assms have "length buf = length (reassembly_buf s)" "length rcv = length (reassembly_buf s)"
    "left = length (filter Not rcv)" by (simp_all add: wf_defs)
  ultimately show ?thesis using assms(1) by (auto simp: wf_defs reassembly_store_def split: if_splits)
qed

text \<open>A handler that keeps the invariant.\<close>

definition keeps :: "handler \<Rightarrow> bool" where
  "keeps process \<longleftrightarrow> (\<forall>ty q m st ok st'. process ty q m st = Ret (ok, st') \<longrightarrow> wf_step st \<longrightarrow> wf_step st')"

lemma keepsD: "keeps process \<Longrightarrow> process ty q m st = Ret (ok, st') \<Longrightarrow> wf_step st \<Longrightarrow> wf_step st'"
  unfolding keeps_def by blast

lemma deliver_wf:
  assumes "keeps process" "deliver process after ty q m st = Ret (ok, st')" "wf_step st"
    "\<And>s. wf_session s \<Longrightarrow> wf_session (after s)"
  shows "wf_step st'"
proof (cases "process ty q m st")
  case (Ret r)
  then obtain ok1 st1 where r: "process ty q m st = Ret (ok1, st1)" by (cases r) simp
  moreover have "wf_step st1" by (rule keepsD [OF assms(1) r assms(3)])
  ultimately show ?thesis using assms(2,4) by (auto simp: deliver_def wf_step_def upd_def split: if_splits)
qed (use assms(2) in \<open>simp add: deliver_def\<close>)

lemma collect_fragment_wf:
  assumes "keeps process" "collect_fragment process ty t q foff frag st = Ret (ok, st')" "wf_step st"
  shows "wf_step st'"
proof -
  define st1 where "st1 = upd (reassembly_start q t) st"
  define st2 where "st2 = upd (reassembly_store foff frag) st1"
  have w1: "wf_step st1" using assms(3) wf_start unfolding st1_def wf_step_frame by (simp only: wf_step_def)
  have w2: "wf_step st2" if "reassembly_total_len (st_session st1) = t" "foff + length frag \<le> unat t"
  proof (cases "reassembly_buf (st_session st1) = []")
    case True
    then have "unat t = 0" by (auto simp: st1_def upd_def reassembly_start_def split: if_splits)
    with that True show ?thesis using w1 by (auto simp: st2_def wf_step_def upd_def intro!: wf_store)
  next
    case False
    then have "length (reassembly_buf (st_session st1)) = unat t" using w1 that by (auto simp: wf_step_def wf_defs)
    with that show ?thesis using w1 by (auto simp: st2_def wf_step_def upd_def intro!: wf_store)
  qed
  have d: "wf_step st'" if "deliver process after ty q m st0 = Ret (ok, st')" "wf_step st0"
    "after \<in> {next_msg, \<lambda>s. reassembly_clear (next_msg s)}" for after m st0
    by (rule deliver_wf [OF assms(1) that(1,2)]) (use that(3) wf_clear in auto)
  have "collect_fragment process ty t q foff frag st =
    (if q < recv_msg_seq (st_session st) then Ret (True, upd (\<lambda>s. s\<lparr>retransmit_requested := True\<rparr>) st)
     else if q > recv_msg_seq (st_session st) then Ret (True, st)
     else if foff = 0 \<and> length frag = unat t \<and> reassembly_buf (st_session st) = [] then deliver process next_msg ty q frag st
     else if reassembly_msg_seq (st_session st1) = q \<and> reassembly_total_len (st_session st1) = t \<and> foff + length frag \<le> unat t
     then if reassembly_remaining (st_session st2) = 0
          then deliver process (\<lambda>s. reassembly_clear (next_msg s)) ty q (reassembly_buf (st_session st2)) st2
          else Ret (True, st2)
     else Ret (True, st1))"
    unfolding collect_fragment_def Let_def st1_def st2_def by (rule refl)
  then show ?thesis
    using assms(2,3) w1 w2 by (auto simp: wf_step_def upd_def split: if_splits intro: d [unfolded wf_step_def])
qed

lemma collect_wf:
  "keeps process \<Longrightarrow> collect_handshake process hb st = Ret (ok, st') \<Longrightarrow> wf_step st \<Longrightarrow> wf_step st'"
proof (induction process hb st rule: collect_handshake.induct)
  case (1 process hb st)
  show ?case
  proof (cases "12 \<le> length hb \<and> \<not> 12 + unat (get24 hb 9) > length hb")
    case False
    then show ?thesis using 1(3,4) by (subst (asm) collect_handshake.simps) (auto simp: Let_def split: if_splits)
  next
    case True
    define n where "n = unat (get24 hb 9)"
    have c: "collect_handshake process hb st = run_bind (collect_fragment process (hb ! 0) (get24 hb 1) (get16 hb 4) (unat (get24 hb 6)) (take n (drop 12 hb)) st)
        (\<lambda>(ok, st). if ok then collect_handshake process (drop (12 + n) hb) st else Ret (False, st))"
      unfolding n_def using True by (subst collect_handshake.simps) (simp add: Let_def)
    with 1(3) obtain ok1 st1 where f: "collect_fragment process (hb ! 0) (get24 hb 1) (get16 hb 4) (unat (get24 hb 6)) (take n (drop 12 hb)) st = Ret (ok1, st1)"
      by (cases "collect_fragment process (hb ! 0) (get24 hb 1) (get16 hb 4) (unat (get24 hb 6)) (take n (drop 12 hb)) st") auto
    have w: "wf_step st1" by (rule collect_fragment_wf [OF 1(2) f 1(4)])
    show ?thesis
    proof (cases ok1)
      case True
      then have "collect_handshake process (drop (12 + n) hb) st1 = Ret (ok, st')" using c f 1(3) by simp
      then show ?thesis using 1(1) \<open>12 \<le> length hb \<and> \<not> 12 + unat (get24 hb 9) > length hb\<close> f True 1(2) w n_def by fastforce
    next
      case False
      then show ?thesis using c f 1(3) w by simp
    qed
  qed
qed

section \<open>The handlers\<close>

lemma on_session_wf:
  "on_session f st = (ok, st') \<Longrightarrow> wf_step st \<Longrightarrow> (\<And>s ok s'. f s = (ok, s') \<Longrightarrow> wf_session s \<Longrightarrow> wf_session s') \<Longrightarrow> wf_step st'"
  by (auto simp: on_session_def wf_step_def Let_def split: prod.splits)

lemma wf_key_share [wf_ops]: "server_key_share E body off s = (ok, s') \<Longrightarrow> wf_session s \<Longrightarrow> wf_session s'"
  by (auto simp: server_key_share_def Let_def split: if_splits option.splits prod.splits dest!: wf_derive)

lemma wf_server_hello [wf_ops]: "server_hello E ty q body s = (ok, s') \<Longrightarrow> wf_session s \<Longrightarrow> wf_session s'"
  by (auto simp: server_hello_def Let_def split: if_splits dest!: wf_key_share)

lemma wf_server_key_exchange:
  "wf_env E \<Longrightarrow> server_key_exchange C E ty q body s = (ok, s') \<Longrightarrow> wf_session s \<Longrightarrow> wf_session s'"
  by (auto simp: server_key_exchange_def Let_def split: if_splits option.splits prod.splits dest!: wf_derive)

lemma wf_certificate_verify [wf_ops]: "certificate_verify C ty q body s = (ok, s') \<Longrightarrow> wf_session s \<Longrightarrow> wf_session s'"
  by (auto simp: certificate_verify_def Let_def split: if_splits option.splits)

lemma wf_hello_verify_request: "hello_verify_request body st = (ok, st') \<Longrightarrow> wf_step st \<Longrightarrow> wf_step st'"
  by (auto simp: hello_verify_request_def Let_def wf_step_def respond_def split: if_splits prod.splits dest!: wf_ops)

lemma wf_client_finished: "client_finished E ty q body st = (ok, st') \<Longrightarrow> wf_step st \<Longrightarrow> wf_step st'"
  by (simp add: client_finished_def Let_def wf_step_def split: if_splits prod.splits) (auto simp: respond_def dest!: wf_ops)

lemma wf_server_certificate:
  assumes "server_certificate C now trust ty q body st = Ret (ok, st')" "wf_step st"
  shows "wf_step st'"
  using assms by (auto simp: server_certificate_def Let_def wf_step_def [of st] run_bind_Ret split: if_splits option.splits)

lemma client_keeps: "wf_env E \<Longrightarrow> keeps (client_process C E now trust)"
  unfolding keeps_def client_process_def Let_def
  by (auto simp: run_bind_Ret split: if_splits
      intro: wf_hello_verify_request wf_client_finished wf_server_certificate
      elim!: on_session_wf dest: wf_server_hello wf_certificate_verify wf_server_key_exchange simp: wf_step_def [symmetric])


lemma wf_make_cookie [wf_ops]: "make_cookie r s = (x, s') \<Longrightarrow> wf_session s \<Longrightarrow> wf_session s'"
  by (auto simp: make_cookie_def Let_def split: if_splits prod.splits dest!: wf_rand)

lemma wf_hello_verify [wf_ops]: "hello_verify body ch s = (x, s') \<Longrightarrow> wf_session s \<Longrightarrow> wf_session s'"
  by (simp add: hello_verify_def Let_def split: if_splits prod.splits) (auto dest!: wf_ops)

lemma wf_server_flight12: "wf_env E \<Longrightarrow> server_flight12 C E cert s = (x, s') \<Longrightarrow> wf_session s \<Longrightarrow> wf_session s'"
  by (simp add: server_flight12_def Let_def split: prod.splits) (auto dest!: wf_ops)

lemma wf_server_flight13: "wf_env E \<Longrightarrow> server_flight13 C E cert ch s = (x, s') \<Longrightarrow> wf_session s \<Longrightarrow> wf_session s'"
  by (simp add: server_flight13_def Let_def split: prod.splits if_splits) (auto dest!: wf_ops)

lemma parsed_hello_length: "parse_client_hello body = Some ch \<Longrightarrow> 34 \<le> length body"
  by (simp add: parse_client_hello_def split: if_splits)

lemma wf_client_key_exchange [wf_ops]: "client_key_exchange E ty q body s = (ok, s') \<Longrightarrow> wf_session s \<Longrightarrow> wf_session s'"
  by (auto simp: client_key_exchange_def Let_def split: if_splits prod.splits dest!: wf_derive)

lemma wf_server_finished: "server_finished E ty q body st = (ok, st') \<Longrightarrow> wf_step st \<Longrightarrow> wf_step st'"
  by (simp add: server_finished_def Let_def wf_step_def split: if_splits prod.splits) (auto simp: respond_def dest!: wf_ops)

lemma wf_client_hello: "wf_env E \<Longrightarrow> client_hello C E mgr ty q body st = (ok, st') \<Longrightarrow> wf_step st \<Longrightarrow> wf_step st'"
  by (simp add: client_hello_def Let_def wf_step_def split: option.splits if_splits prod.splits)
    (auto simp: respond_def dest!: wf_ops dest: parsed_hello_length wf_server_flight12 wf_server_flight13)

lemma server_keeps: "wf_env E \<Longrightarrow> keeps (server_process C E mgr)"
  unfolding keeps_def server_process_def
  by (auto split: if_splits intro: wf_client_hello wf_server_finished elim!: on_session_wf dest: wf_client_key_exchange)

section \<open>The step\<close>

lemma wf_unprotect13: "dtls13_unprotect E rec s = Some (ty, pt, q, s') \<Longrightarrow> wf_session s \<Longrightarrow> wf_session s'"
  by (simp add: dtls13_unprotect_def Let_def split: option.splits prod.splits if_splits) auto

lemma wf_parse12: "parse_dtls12_datagram E dg s evs pend = (ok, s', evs', pend') \<Longrightarrow> wf_session s \<Longrightarrow> wf_session s'"
proof (induction E dg s evs pend rule: parse_dtls12_datagram.induct)
  case (1 E dg s evs pend)
  then show ?case
    by (subst (asm) (4) parse_dtls12_datagram.simps) (simp add: Let_def split: if_splits option.splits prod.splits)
qed

lemma wf_parse13: "parse_dtls13_datagram E dg s evs pend = (ok, s', evs', pend') \<Longrightarrow> wf_session s \<Longrightarrow> wf_session s'"
proof (induction "length dg" arbitrary: dg s evs pend rule: less_induct)
  case less
  have r: "wf_session s'" if "parse_dtls13_datagram E (drop n dg) t es p = (ok, s', evs', pend')" "0 < n" "dg \<noteq> []" "wf_session t" for n t es p
    using less(1) [OF _ that(1,4)] that(2,3) by simp
  show ?case
  proof (cases "dg = [] \<or> (case dtls12_parse_header dg of None \<Rightarrow> dg ! 0 = 22 \<or> dg ! 0 = 26 \<or> dg ! 0 = 20 \<or> dg ! 0 = 21 | Some _ \<Rightarrow> False)")
    case True
    then show ?thesis using less(2,3) by (subst (asm) parse_dtls13_datagram.simps) (auto split: if_splits option.splits)
  next
    case False
    have u: "wf_session t" if "dtls13_unprotect E rec s = Some (ty, pt, q, t)" for rec ty pt q t
      using wf_unprotect13 [OF that less(3)] .
    from False less(2,3) show ?thesis
      by (subst (asm) parse_dtls13_datagram.simps)
        (simp add: Let_def split: if_splits option.splits, auto intro: r u)
  qed
qed

lemma parse_datagram_wf: "parse_datagram E dg s = (ok, s', evs, pend) \<Longrightarrow> wf_session s \<Longrightarrow> wf_session s'"
  by (auto simp: parse_datagram_def split: if_splits intro: wf_parse12 wf_parse13)

lemma feed_wf: "keeps process \<Longrightarrow> feed process evs st = Ret (ok, st') \<Longrightarrow> wf_step st \<Longrightarrow> wf_step st'"
  by (auto simp: feed_def Let_def wf_step_def upd_def split: if_splits dest!: collect_wf [unfolded wf_step_def])

lemma retry_wf: "keeps process \<Longrightarrow> retry_pending E process n pend st = Ret (ok, st') \<Longrightarrow> wf_step st \<Longrightarrow> wf_step st'"
proof (induction n arbitrary: pend st)
  case (Suc n)
  obtain okp s more pend2 where p: "parse_datagram E pend (st_session st) = (okp, s, more, pend2)" by (metis prod.exhaust)
  have "wf_session s" using parse_datagram_wf [OF p] Suc.prems(3) by (simp add: wf_step_def)
  then have w: "wf_step (st\<lparr>st_session := s\<rparr>)" by simp
  show ?case
    using Suc.prems Suc.IH [OF Suc.prems(1)] feed_wf [OF Suc.prems(1) _ w] w p
    by (auto simp: Let_def run_bind_Ret split: if_splits)
qed simp

lemma step_finish_wf: "step_finish st = (s', r) \<Longrightarrow> wf_step st \<Longrightarrow> wf_session s'"
  by (auto simp: step_finish_def Let_def wf_step_def split: if_splits)

lemma run_step_wf:
  assumes "keeps process" "run_step E process fin dg s = Ret (s', r)" "wf_session s" "\<And>st. wf_step st \<Longrightarrow> wf_step (fin st)"
  shows "wf_session s'"
proof -
  obtain parsed s1 evs pend where p: "parse_datagram E dg s = (parsed, s1, evs, pend)" by (metis prod.exhaust)
  have w1: "wf_step (start_state s1)" using parse_datagram_wf [OF p assms(3)] by simp
  show ?thesis
  proof (cases parsed)
    case False
    then show ?thesis using assms(2) p w1 by (simp add: run_step_def step_fail_def)
  next
    case True
    with assms(2) p obtain ok1 st1 ok2 st2 where f: "feed process evs (start_state s1) = Ret (ok1, st1)"
      "(if ok1 then retry_pending E process 10 pend st1 else Ret (False, st1)) = Ret (ok2, st2)"
      "(s', r) = (if ok2 then step_finish (fin st2)
         else step_fail (if st_error st2 = [] then ascii ''handshake message error'' else st_error st2) (st_session st2))"
      by (auto simp: run_step_def run_bind_Ret)
    have "wf_step st1" by (rule feed_wf [OF assms(1) f(1) w1])
    then have "wf_step st2" using f(2) retry_wf [OF assms(1)] by (auto split: if_splits)
    then show ?thesis using f(3) step_finish_wf [of "fin st2" s' r] assms(4) [of st2]
      by (auto simp: step_fail_def wf_step_def split: if_splits)
  qed
qed

lemma client_fin_wf: "wf_step st \<Longrightarrow> wf_step (client_fin E st)"
  by (auto simp: client_fin_def wf_step_def respond_def split: prod.splits dest: wf_flight12)

lemma client_start_wf: "wf_env E \<Longrightarrow> client_start E s = (s', r) \<Longrightarrow> wf_session s \<Longrightarrow> wf_session s'"
  by (simp add: client_start_def Let_def split: prod.splits if_splits) (auto dest!: wf_ops)

lemma client_step_wf: "wf_env E \<Longrightarrow> client_step C E now trust dg s = Ret (s', r) \<Longrightarrow> wf_session s \<Longrightarrow> wf_session s'"
  by (auto simp: client_step_def step_fail_def split: if_splits intro: client_start_wf run_step_wf [OF client_keeps] client_fin_wf)

lemma server_step_wf: "wf_env E \<Longrightarrow> server_step C E mgr dg s = Ret (s', r) \<Longrightarrow> wf_session s \<Longrightarrow> wf_session s'"
  by (auto simp: server_step_def step_fail_def split: if_splits option.splits intro: run_step_wf [OF server_keeps])

lemma handshake_step_wf:
  "wf_env E \<Longrightarrow> wf_session s \<Longrightarrow> dtls_handshake_step C E now inp s = Ret (s', r) \<Longrightarrow> wf_session s'"
  by (auto simp: dtls_handshake_step_def split: if_splits intro: client_step_wf server_step_wf)

section \<open>Steps that return\<close>

definition returns :: "handler \<Rightarrow> bool" where
  "returns process \<longleftrightarrow> (\<forall>ty q m st. process ty q m st \<noteq> Throw)"

lemma run_bind_Throw: "run_bind m f = Throw \<longleftrightarrow> m = Throw \<or> (\<exists>x. m = Ret x \<and> f x = Throw)"
  by (cases m) simp_all

lemma collect_returns: "returns process \<Longrightarrow> collect_handshake process hb st \<noteq> Throw"
proof (induction "length hb" arbitrary: hb st rule: less_induct)
  case less
  have "deliver process after ty q m st \<noteq> Throw" for after ty q m st
    using less(2) by (auto simp: deliver_def run_bind_Throw returns_def)
  then have c: "collect_fragment process ty t q foff frag st \<noteq> Throw" for ty t q foff frag
    by (simp add: collect_fragment_def Let_def)
  have r: "collect_handshake process (drop (12 + n) hb) st \<noteq> Throw" if "12 \<le> length hb" for n st
    by (rule less(1) [OF _ less(2)]) (use that in simp)
  show ?case
    by (subst collect_handshake.simps) (auto simp: Let_def c r run_bind_Throw)
qed

lemma feed_returns: "returns process \<Longrightarrow> feed process evs st \<noteq> Throw"
  by (simp add: feed_def Let_def collect_returns)

lemma retry_returns: "returns process \<Longrightarrow> retry_pending E process n pend st \<noteq> Throw"
  by (induction n arbitrary: pend st) (auto simp: Let_def feed_returns run_bind_Throw split: prod.splits)

lemma run_step_returns: "returns process \<Longrightarrow> run_step E process fin dg s \<noteq> Throw"
  by (auto simp: run_step_def feed_returns retry_returns run_bind_Throw split: prod.splits if_splits)

lemma server_returns: "server_step C E mgr dg s \<noteq> Throw"
proof -
  have "returns (server_process C E m)" for m by (simp add: returns_def server_process_def)
  then show ?thesis by (auto simp: server_step_def run_step_returns split: option.split)
qed

section \<open>Properties\<close>

text \<open>
  C8. A handshake step keeps the session well formed: whatever arrives, every fixed array keeps its size, so that the
  copies into them are in bounds, and the reassembly buffer, its flags and the count of missing bytes agree.
\<close>

theorem handshake_step_keeps_session:
  assumes "wf_env E" "wf_session s" "dtls_handshake_step C E now inp s = Ret (s', r)"
  shows "wf_session s'"
  by (rule handshake_step_wf [OF assms])

definition zero_env :: dtls_env where
  "zero_env = \<lparr>aes_gcm_seal = \<lambda>_ _ _ p. (p, replicate 16 0), aes_gcm_open = \<lambda>_ _ _ c _. Some c, aes_encrypt_block = \<lambda>_ b. b,
     x448_mult = \<lambda>_ p. p, x25519_mult = \<lambda>_ p. p, p256_ecdh = \<lambda>_ p. Some (take 32 p),
     keygen = \<lambda>_ r. (take 56 r, take 56 r, drop 56 r), make_x509_self_signed = \<lambda>_. [], stack12 = replicate 12 0\<rparr>"

theorem handshake_step_keeps_session_witness:
  "wf_session (fst (client_start zero_env (dtls_session_default (replicate 88 7))))"
proof -
  obtain s' r where c: "client_start zero_env (dtls_session_default (replicate 88 7)) = (s', r)" by fastforce
  then have "dtls_handshake_step toy_crypto zero_env 0 \<lparr>in_datagram = [], in_cert_manager = None, in_trust_store = None\<rparr>
      (dtls_session_default (replicate 88 7)) = Ret (s', r)"
    by (simp add: dtls_handshake_step_def client_step_def) (simp add: dtls_session_default_def)
  moreover have "wf_env zero_env" by (simp add: wf_env_def zero_env_def min_def)
  ultimately have "wf_session s'" using handshake_step_keeps_session wf_default by blast
  then show ?thesis by (simp add: c)
qed


end
