(* ===== verification/Fe25519.thy ===== *)
theory Fe25519
  imports Poly1305
begin

text \<open>
  The field of \<open>2 ^ 255 - 19\<close> elements, \<open>src/src/fe_25519_r51.hpp\<close>, in the portable representation: five limbs of 51 bits, products of
  128 bits (the ADX assembler of the same file is not modelled). \<open>tight\<close> limbs are what the multiplication leaves, \<open>loose\<close> ones
  what it accepts; within these bounds no word overflows and the result is the product modulo the prime.
\<close>

type_synonym fe51 = "u64 \<times> u64 \<times> u64 \<times> u64 \<times> u64"

definition MASK51 :: u64 where
  "MASK51 = 0x7FFFFFFFFFFFF"

definition P51 :: fe51 where
  "P51 = (0x7FFFFFFFFFFED, 0x7FFFFFFFFFFFF, 0x7FFFFFFFFFFFF, 0x7FFFFFFFFFFFF, 0x7FFFFFFFFFFFF)"

definition TWO_P :: fe51 where
  "TWO_P = (0x0FFFFFFFFFFFDA, 0xFFFFFFFFFFFFE, 0xFFFFFFFFFFFFE, 0xFFFFFFFFFFFFE, 0xFFFFFFFFFFFFE)"

section \<open>Bytes\<close>

definition load8 :: "bytes \<Rightarrow> nat \<Rightarrow> u64" where
  "load8 s i = foldr (\<lambda>b v. ucast b OR push_bit 8 v) (take 8 (drop i s)) 0"

definition store8 :: "u64 \<Rightarrow> bytes" where
  "store8 v = map (\<lambda>k. ucast (drop_bit (8 * k) v)) [0..<8]"

definition fe51_0 :: fe51 where
  "fe51_0 = (0, 0, 0, 0, 0)"

definition fe51_1 :: fe51 where
  "fe51_1 = (1, 0, 0, 0, 0)"

definition fe51_frombytes :: "bytes \<Rightarrow> fe51" where
  "fe51_frombytes s =
     (let w0 = load8 s 0; w1 = load8 s 8; w2 = load8 s 16; w3 = load8 s 24
      in (w0 AND MASK51,
          drop_bit 51 w0 OR push_bit 13 (w1 AND 0x3FFFFFFFFF),
          drop_bit 38 w1 OR push_bit 26 (w2 AND 0x1FFFFFF),
          drop_bit 25 w2 OR push_bit 39 (w3 AND 0xFFF),
          drop_bit 12 w3 AND MASK51))"

text \<open>One pass of carries, from limb to limb and from the last, times 19, to the first.\<close>

definition carry_pass :: "fe51 \<Rightarrow> fe51" where
  "carry_pass t =
     (let (t0, t1, t2, t3, t4) = t;
          c = drop_bit 51 t0; t1 = t1 + c; t0 = t0 AND MASK51;
          c = drop_bit 51 t1; t2 = t2 + c; t1 = t1 AND MASK51;
          c = drop_bit 51 t2; t3 = t3 + c; t2 = t2 AND MASK51;
          c = drop_bit 51 t3; t4 = t4 + c; t3 = t3 AND MASK51;
          c = drop_bit 51 t4; t4 = t4 AND MASK51;
          t0 = t0 + c * 19
      in (t0, t1, t2, t3, t4))"

definition carry_low :: "fe51 \<Rightarrow> fe51" where
  "carry_low t =
     (let (t0, t1, t2, t3, t4) = t;
          c = drop_bit 51 t0; t0 = t0 AND MASK51; t1 = t1 + c
      in (t0, t1, t2, t3, t4))"

text \<open>\<open>t - p\<close> with borrows where \<open>t\<close> is at least \<open>p\<close>, chosen with a mask.\<close>

definition subtract_p :: "fe51 \<Rightarrow> fe51" where
  "subtract_p t =
     (let (t0, t1, t2, t3, t4) = t; (p0, p1, p2, p3, p4) = P51;
          q0 = t0 - p0; b0 = of_bool (t0 < p0);
          q1 = t1 - p1 - b0; b1 = of_bool (t1 < p1 + b0);
          q2 = t2 - p2 - b1; b2 = of_bool (t2 < p2 + b1);
          q3 = t3 - p3 - b2; b3 = of_bool (t3 < p3 + b2);
          q4 = t4 - p4 - b3; b4 = of_bool (t4 < p4 + b3);
          m = b4 - 1
      in ((t0 AND NOT m) OR (q0 AND m), (t1 AND NOT m) OR (q1 AND m), (t2 AND NOT m) OR (q2 AND m),
          (t3 AND NOT m) OR (q3 AND m), (t4 AND NOT m) OR (q4 AND m)))"

definition fe51_freeze :: "fe51 \<Rightarrow> fe51" where
  "fe51_freeze h = subtract_p (carry_low (carry_pass (carry_pass (carry_pass (carry_pass (carry_pass h))))))"

definition fe51_tobytes :: "fe51 \<Rightarrow> bytes" where
  "fe51_tobytes h =
     (let (t0, t1, t2, t3, t4) = fe51_freeze h;
          w0 = t0 OR push_bit 51 (t1 AND 0x1FFF);
          w1 = drop_bit 13 t1 OR push_bit 38 (t2 AND 0x3FFFFFF);
          w2 = drop_bit 26 t2 OR push_bit 25 (t3 AND 0x7FFFFFFFFF);
          w3 = drop_bit 39 t3 OR push_bit 12 t4
      in store8 w0 @ store8 w1 @ store8 w2 @ store8 w3)"

section \<open>Arithmetic\<close>

fun fe51_add :: "fe51 \<Rightarrow> fe51 \<Rightarrow> fe51" where
  "fe51_add (a0, a1, a2, a3, a4) (b0, b1, b2, b3, b4) = (a0 + b0, a1 + b1, a2 + b2, a3 + b3, a4 + b4)"

definition fe51_carry :: "fe51 \<Rightarrow> fe51" where
  "fe51_carry a = carry_low (carry_pass a)"

text \<open>\<open>r = a + 2 p - b\<close> limb by limb.\<close>

definition ladder_sub :: "fe51 \<Rightarrow> fe51 \<Rightarrow> fe51" where
  "ladder_sub a b =
     (let (a0, a1, a2, a3, a4) = a; (p0, p1, p2, p3, p4) = TWO_P; (b0, b1, b2, b3, b4) = b
      in (a0 + p0 - b0, a1 + p1 - b1, a2 + p2 - b2, a3 + p3 - b3, a4 + p4 - b4))"

definition fe51_sub :: "fe51 \<Rightarrow> fe51 \<Rightarrow> fe51" where
  "fe51_sub a b = ladder_sub (fe51_carry a) (fe51_carry b)"

type_synonym columns = "128 word \<times> 128 word \<times> 128 word \<times> 128 word \<times> 128 word"

definition wide_mul :: "u64 \<Rightarrow> u64 \<Rightarrow> 128 word" where
  "wide_mul a b = ucast a * ucast b"

definition fe51_products :: "fe51 \<Rightarrow> fe51 \<Rightarrow> columns" where
  "fe51_products a b =
     (let (a0, a1, a2, a3, a4) = a; (b0, b1, b2, b3, b4) = b;
          t0 = wide_mul a0 b0;
          t1 = wide_mul a0 b1 + wide_mul a1 b0;
          t2 = wide_mul a0 b2 + wide_mul a1 b1 + wide_mul a2 b0;
          t3 = wide_mul a0 b3 + wide_mul a1 b2 + wide_mul a2 b1 + wide_mul a3 b0;
          t4 = wide_mul a0 b4 + wide_mul a1 b3 + wide_mul a2 b2 + wide_mul a3 b1 + wide_mul a4 b0;
          t5 = wide_mul a1 b4 + wide_mul a2 b3 + wide_mul a3 b2 + wide_mul a4 b1;
          t6 = wide_mul a2 b4 + wide_mul a3 b3 + wide_mul a4 b2;
          t7 = wide_mul a3 b4 + wide_mul a4 b3;
          t8 = wide_mul a4 b4
      in (t0 + 19 * t5, t1 + 19 * t6, t2 + 19 * t7, t3 + 19 * t8, t4))"

definition fe51_reduce :: "columns \<Rightarrow> fe51" where
  "fe51_reduce t =
     (let (t0, t1, t2, t3, t4) = t;
          c = drop_bit 51 t0; t0 = t0 AND ucast MASK51; t1 = t1 + c;
          c = drop_bit 51 t1; t1 = t1 AND ucast MASK51; t2 = t2 + c;
          c = drop_bit 51 t2; t2 = t2 AND ucast MASK51; t3 = t3 + c;
          c = drop_bit 51 t3; t3 = t3 AND ucast MASK51; t4 = t4 + c;
          c = drop_bit 51 t4; t4 = t4 AND ucast MASK51;
          t0 = t0 + c * 19;
          c = drop_bit 51 t0; t0 = t0 AND ucast MASK51; t1 = t1 + c
      in (ucast t0, ucast t1, ucast t2, ucast t3, ucast t4))"

definition fe51_mul :: "fe51 \<Rightarrow> fe51 \<Rightarrow> fe51" where
  "fe51_mul a b = fe51_reduce (fe51_products a b)"

definition fe51_sq :: "fe51 \<Rightarrow> fe51" where
  "fe51_sq a = fe51_mul a a"

definition fe51_cswap :: "fe51 \<Rightarrow> fe51 \<Rightarrow> u64 \<Rightarrow> fe51 \<times> fe51" where
  "fe51_cswap p q b =
     (let m = (if b \<noteq> 0 then - 1 else 0);
          (p0, p1, p2, p3, p4) = p; (q0, q1, q2, q3, q4) = q;
          t0 = m AND (p0 XOR q0); t1 = m AND (p1 XOR q1); t2 = m AND (p2 XOR q2);
          t3 = m AND (p3 XOR q3); t4 = m AND (p4 XOR q4)
      in ((p0 XOR t0, p1 XOR t1, p2 XOR t2, p3 XOR t3, p4 XOR t4),
          (q0 XOR t0, q1 XOR t1, q2 XOR t2, q3 XOR t3, q4 XOR t4)))"

text \<open>\<open>n\<close> squarings.\<close>

definition fe51_sqn :: "nat \<Rightarrow> fe51 \<Rightarrow> fe51" where
  "fe51_sqn n a = (fe51_sq ^^ n) a"

definition fe51_invert :: "fe51 \<Rightarrow> fe51" where
  "fe51_invert z =
     (let t0 = fe51_sq z; t1 = fe51_sq (fe51_sq t0);
          t1 = fe51_mul z t1; t0 = fe51_mul t0 t1;
          t2 = fe51_sq t0; t1 = fe51_mul t1 t2;
          t2 = fe51_sqn 5 t1; t1 = fe51_mul t2 t1;
          t2 = fe51_sqn 10 t1; t2 = fe51_mul t2 t1;
          t3 = fe51_sqn 20 t2; t2 = fe51_mul t3 t2;
          t2 = fe51_sqn 10 t2; t1 = fe51_mul t2 t1;
          t2 = fe51_sqn 50 t1; t2 = fe51_mul t2 t1;
          t3 = fe51_sqn 100 t2; t2 = fe51_mul t3 t2;
          t2 = fe51_sqn 50 t2; t1 = fe51_mul t2 t1;
          t1 = fe51_sqn 5 t1
      in fe51_mul t1 t0)"

section \<open>Signs, comparison and square roots\<close>

definition fe51_neg :: "fe51 \<Rightarrow> fe51" where
  "fe51_neg f =
     (let (p0, p1, p2, p3, p4) = TWO_P; (b0, b1, b2, b3, b4) = fe51_carry f
      in (p0 - b0, p1 - b1, p2 - b2, p3 - b3, p4 - b4))"

definition fe51_sq2 :: "fe51 \<Rightarrow> fe51" where
  "fe51_sq2 f = (let h = fe51_sq f in fe51_add h h)"

definition fe51_isnegative :: "fe51 \<Rightarrow> bool" where
  "fe51_isnegative f \<longleftrightarrow> fe51_tobytes f ! 0 AND 1 \<noteq> 0"

definition fe51_isnonzero :: "fe51 \<Rightarrow> bool" where
  "fe51_isnonzero f \<longleftrightarrow> foldl (OR) 0 (fe51_tobytes f) \<noteq> (0 :: u8)"

definition fe51_equal :: "fe51 \<Rightarrow> fe51 \<Rightarrow> bool" where
  "fe51_equal f g \<longleftrightarrow> \<not> fe51_isnonzero (fe51_sub f g)"

definition fe51_pow22523 :: "fe51 \<Rightarrow> fe51" where
  "fe51_pow22523 z =
     (let t0 = fe51_sq z; t1 = fe51_sqn 2 t0;
          t1 = fe51_mul z t1; t0 = fe51_mul t0 t1;
          t0 = fe51_sq t0; t0 = fe51_mul t1 t0;
          t1 = fe51_sqn 5 t0; t0 = fe51_mul t1 t0;
          t1 = fe51_sqn 10 t0; t1 = fe51_mul t1 t0;
          t2 = fe51_sqn 20 t1; t1 = fe51_mul t2 t1;
          t1 = fe51_sqn 10 t1; t0 = fe51_mul t1 t0;
          t1 = fe51_sqn 50 t0; t1 = fe51_mul t1 t0;
          t2 = fe51_sqn 100 t1; t1 = fe51_mul t2 t1;
          t1 = fe51_sqn 50 t1; t0 = fe51_mul t1 t0;
          t0 = fe51_sqn 2 t0
      in fe51_mul t0 z)"

definition sqrtm1 :: fe51 where
  "sqrtm1 = fe51_frombytes [176, 160, 14, 74, 39, 27, 238, 196, 120, 228, 47, 173, 6, 24, 67, 47,
     167, 215, 251, 61, 153, 0, 77, 43, 11, 223, 193, 79, 128, 36, 131, 43]"

definition fe51_sqrt_ratio :: "fe51 \<Rightarrow> fe51 \<Rightarrow> fe51 \<times> nat" where
  "fe51_sqrt_ratio u v =
     (let uv3 = fe51_mul (fe51_sq v) v;
          uv7 = fe51_mul (fe51_mul (fe51_sq uv3) v) u;
          uv3 = fe51_mul u uv3;
          r = fe51_mul (fe51_pow22523 uv7) uv3;
          s = fe51_mul (fe51_sq r) v
      in if fe51_equal s u then (r, 1)
         else let r = fe51_mul r sqrtm1; s = fe51_mul (fe51_sq r) v
              in if fe51_equal s u then (r, 2) else (fe51_0, 0))"

section \<open>Values\<close>

definition p25519 :: nat where
  "p25519 = 2 ^ 255 - 19"

fun fe51_val :: "fe51 \<Rightarrow> nat" where
  "fe51_val (a0, a1, a2, a3, a4) = unat a0 + 2 ^ 51 * unat a1 + 2 ^ 102 * unat a2 + 2 ^ 153 * unat a3 + 2 ^ 204 * unat a4"

text \<open>Limbs as the multiplication leaves them, and as it accepts them.\<close>

fun tight :: "fe51 \<Rightarrow> bool" where
  "tight (a0, a1, a2, a3, a4) \<longleftrightarrow> unat a0 < 2 ^ 51 + 2 ^ 20 \<and> unat a1 < 2 ^ 51 + 2 ^ 20 \<and> unat a2 < 2 ^ 51 + 2 ^ 20
     \<and> unat a3 < 2 ^ 51 + 2 ^ 20 \<and> unat a4 < 2 ^ 51 + 2 ^ 20"

fun loose :: "fe51 \<Rightarrow> bool" where
  "loose (a0, a1, a2, a3, a4) \<longleftrightarrow> unat a0 < 2 ^ 54 \<and> unat a1 < 2 ^ 54 \<and> unat a2 < 2 ^ 54 \<and> unat a3 < 2 ^ 54 \<and> unat a4 < 2 ^ 54"

lemma tight_loose: "tight a \<Longrightarrow> loose a"
  by (cases a) auto

lemma and_MASK51: "unat (x AND MASK51) = unat x mod 2 ^ 51"
proof -
  have "MASK51 = mask 51" by (simp add: MASK51_def mask_eq_exp_minus_1)
  then have "x AND MASK51 = take_bit 51 x" by (simp add: take_bit_eq_mask)
  then show ?thesis by (simp only: unsigned_take_bit_eq) (rule take_bit_eq_mod)
qed

lemma and_MASK51_wide: "unat (x AND ucast MASK51) = unat (x :: 128 word) mod 2 ^ 51"
proof -
  have "(ucast MASK51 :: 128 word) = mask 51" by (simp add: MASK51_def mask_eq_exp_minus_1)
  then have "x AND ucast MASK51 = take_bit 51 x" by (simp add: take_bit_eq_mask)
  then show ?thesis by (simp only: unsigned_take_bit_eq) (rule take_bit_eq_mod)
qed

lemma mod51_less: "x mod 2251799813685248 < (2251799814733824 :: nat)"
  using mod_less_divisor [of 2251799813685248 x] by linarith

lemma reduce_nat:
  fixes T0 T1 T2 T3 T4 :: nat
  assumes "T0 < 2 ^ 116" "T1 < 2 ^ 116" "T2 < 2 ^ 116" "T3 < 2 ^ 116" "T4 < 2 ^ 112"
  defines "B \<equiv> 2 ^ 51 :: nat"
  defines "E1 \<equiv> T1 + T0 div B"
  defines "E2 \<equiv> T2 + E1 div B"
  defines "E3 \<equiv> T3 + E2 div B"
  defines "E4 \<equiv> T4 + E3 div B"
  defines "f0 \<equiv> T0 mod B + 19 * (E4 div B)"
  defines "g1 \<equiv> E1 mod B + f0 div B"
  shows "f0 mod B + B * g1 + B * B * (E2 mod B) + B * B * B * (E3 mod B) + B * B * B * B * (E4 mod B) + (E4 div B) * p25519
      = T0 + B * T1 + B * B * T2 + B * B * B * T3 + B * B * B * B * T4"
    and "E1 < 2 ^ 117" "E2 < 2 ^ 117" "E3 < 2 ^ 117" "E4 < 2 ^ 113" "f0 < 2 ^ 70" "g1 < B + 2 ^ 20"
proof -
  have q: "x mod B < B" for x by (simp add: B_def)
  have le: "x div B < 2 ^ 66" if "x < 2 ^ 117" for x
    using that by (simp add: B_def less_mult_imp_div_less)
  show e1: "E1 < 2 ^ 117" using le [of T0] assms(1,2) by (simp add: E1_def)
  show e2: "E2 < 2 ^ 117" using le [OF e1] assms(3) by (simp add: E2_def)
  show e3: "E3 < 2 ^ 117" using le [OF e2] assms(4) by (simp add: E3_def)
  show e4: "E4 < 2 ^ 113" using le [OF e3] assms(5) by (simp add: E4_def)
  then have c: "E4 div B < 2 ^ 62" by (simp add: B_def less_mult_imp_div_less)
  then show f: "f0 < 2 ^ 70" using q [of T0] by (simp add: f0_def B_def)
  then have "f0 div B < 2 ^ 19" by (simp add: B_def less_mult_imp_div_less)
  then show "g1 < B + 2 ^ 20" using q [of E1] by (simp add: g1_def)
  have m: "k * x = k * (x mod B) + k * (B * (x div B))" for k x :: nat
    by (simp only: distrib_left [symmetric] mod_mult_div_eq)
  have "B * B * B * B * B = p25519 + 19" by (simp add: B_def p25519_def)
  then have P: "B * B * B * B * B * x = p25519 * x + 19 * x" for x by (simp only: distrib_right)
  have "T0 + B * T1 + B * B * T2 + B * B * B * T3 + B * B * B * B * T4
      = T0 mod B + B * E1 + B * B * T2 + B * B * B * T3 + B * B * B * B * T4"
    using m [of 1 T0] by (simp add: E1_def algebra_simps)
  also have "\<dots> = T0 mod B + B * (E1 mod B) + B * B * E2 + B * B * B * T3 + B * B * B * B * T4"
    using m [of B E1] by (simp add: E2_def algebra_simps)
  also have "\<dots> = T0 mod B + B * (E1 mod B) + B * B * (E2 mod B) + B * B * B * E3 + B * B * B * B * T4"
    using m [of "B * B" E2] by (simp add: E3_def algebra_simps)
  also have "\<dots> = T0 mod B + B * (E1 mod B) + B * B * (E2 mod B) + B * B * B * (E3 mod B) + B * B * B * B * E4"
    using m [of "B * B * B" E3] by (simp add: E4_def algebra_simps)
  also have "\<dots> = T0 mod B + B * (E1 mod B) + B * B * (E2 mod B) + B * B * B * (E3 mod B)
      + B * B * B * B * (E4 mod B) + B * B * B * B * B * (E4 div B)"
    using m [of "B * B * B * B" E4] by (simp add: algebra_simps)
  also have "\<dots> = f0 + B * (E1 mod B) + B * B * (E2 mod B) + B * B * B * (E3 mod B) + B * B * B * B * (E4 mod B) + E4 div B * p25519"
    by (simp only: P f0_def) (simp add: algebra_simps)
  also have "f0 + B * (E1 mod B) = f0 mod B + B * g1"
    using m [of 1 f0] by (simp add: g1_def algebra_simps)
  finally show "f0 mod B + B * g1 + B * B * (E2 mod B) + B * B * B * (E3 mod B) + B * B * B * B * (E4 mod B) + (E4 div B) * p25519
      = T0 + B * T1 + B * B * T2 + B * B * B * T3 + B * B * B * B * T4" by simp
qed

lemma plus128: "unat x + unat y < 2 ^ 128 \<Longrightarrow> unat (x + y :: 128 word) = unat x + unat y"
  by (simp add: unat_word_ariths)

lemma fe51_reduce_val:
  assumes "unat t0 < 2 ^ 116" "unat t1 < 2 ^ 116" "unat t2 < 2 ^ 116" "unat t3 < 2 ^ 116" "unat t4 < 2 ^ 112"
  shows "\<exists>k. fe51_val (fe51_reduce (t0, t1, t2, t3, t4)) + k * p25519
      = unat t0 + 2 ^ 51 * unat t1 + 2 ^ 102 * unat t2 + 2 ^ 153 * unat t3 + 2 ^ 204 * unat t4"
    and "tight (fe51_reduce (t0, t1, t2, t3, t4))"
proof -
  let ?B = "2 ^ 51 :: nat"
  define E1 E2 E3 E4 where "E1 = unat t1 + unat t0 div ?B" and "E2 = unat t2 + E1 div ?B"
    and "E3 = unat t3 + E2 div ?B" and "E4 = unat t4 + E3 div ?B"
  define f0 g1 where "f0 = unat t0 mod ?B + 19 * (E4 div ?B)" and "g1 = E1 mod ?B + f0 div ?B"
  note N = reduce_nat [OF assms, folded E1_def, folded E2_def, folded E3_def, folded E4_def, folded f0_def, folded g1_def]
  define e1 where "e1 = t1 + drop_bit 51 t0"
  define e2 where "e2 = t2 + drop_bit 51 e1"
  define e3 where "e3 = t3 + drop_bit 51 e2"
  define e4 where "e4 = t4 + drop_bit 51 e3"
  define x0 where "x0 = (t0 AND ucast MASK51) + drop_bit 51 e4 * 19"
  define x1 where "x1 = (e1 AND ucast MASK51) + drop_bit 51 x0"
  have eq: "fe51_reduce (t0, t1, t2, t3, t4) =
    (ucast (x0 AND ucast MASK51), ucast x1, ucast (e2 AND ucast MASK51), ucast (e3 AND ucast MASK51), ucast (e4 AND ucast MASK51))"
    by (simp add: fe51_reduce_def Let_def e1_def e2_def e3_def e4_def x0_def x1_def)
  have e1: "unat e1 = E1" using N(2) plus128 [of t1 "drop_bit 51 t0"] by (simp add: e1_def E1_def unat_drop_bit_div)
  have e2: "unat e2 = E2" using N(3) plus128 [of t2 "drop_bit 51 e1"] by (simp add: e2_def E2_def unat_drop_bit_div e1)
  have e3: "unat e3 = E3" using N(4) plus128 [of t3 "drop_bit 51 e2"] by (simp add: e3_def E3_def unat_drop_bit_div e2)
  have e4: "unat e4 = E4" using N(5) plus128 [of t4 "drop_bit 51 e3"] by (simp add: e4_def E4_def unat_drop_bit_div e3)
  have x0: "unat x0 = f0"
    using N(6) by (simp add: x0_def f0_def unat_word_ariths and_MASK51_wide unat_drop_bit_div e4 mod_simps)
  have "f0 div ?B < 2 ^ 19" using N(6) by (simp add: less_mult_imp_div_less)
  then have x1: "unat x1 = g1"
    using N(7) plus128 [of "e1 AND ucast MASK51" "drop_bit 51 x0"]
    by (simp add: x1_def g1_def unat_drop_bit_div and_MASK51_wide e1 x0)
  have lim: "x mod ?B < 2 ^ 51" for x by simp
  have u: "unat (ucast (w AND ucast MASK51 :: 128 word) :: u64) = unat w mod ?B" for w
    using lim [of "unat w"] by (simp add: unat_ucast_u64 and_MASK51_wide)
  have u1: "unat (ucast x1 :: u64) = g1" using N(7) by (simp add: unat_ucast_u64 x1)
  show "\<exists>k. fe51_val (fe51_reduce (t0, t1, t2, t3, t4)) + k * p25519
      = unat t0 + 2 ^ 51 * unat t1 + 2 ^ 102 * unat t2 + 2 ^ 153 * unat t3 + 2 ^ 204 * unat t4"
    using N(1) by (intro exI [of _ "E4 div ?B"]) (simp add: eq u u1 x0 e2 e3 e4)
  show "tight (fe51_reduce (t0, t1, t2, t3, t4))"
    using N(7) mod51_less by (simp add: eq u u1 x0 e2 e3 e4)
qed

section \<open>Field operations\<close>

lemma mult54: "unat a < 2 ^ 54 \<Longrightarrow> unat b < 2 ^ 54 \<Longrightarrow> unat (wide_mul a b) = unat a * unat b \<and> unat a * unat b < 2 ^ 108"
proof -
  assume "unat a < 2 ^ 54" "unat b < 2 ^ 54"
  then have "unat a * unat b < 2 ^ 54 * 2 ^ 54" by (intro mult_strict_mono) auto
  then show ?thesis by (simp add: wide_mul_def unat_word_ariths unat_ucast_128)
qed

lemma fe51_mul_val:
  assumes "loose a" "loose b"
  shows "\<exists>k. fe51_val (fe51_mul a b) + k * p25519 = fe51_val a * fe51_val b" and "tight (fe51_mul a b)"
proof -
  obtain a0 a1 a2 a3 a4 b0 b1 b2 b3 b4 where ab: "a = (a0, a1, a2, a3, a4)" "b = (b0, b1, b2, b3, b4)"
    by (cases a, cases b) auto
  have l: "unat a0 < 2 ^ 54" "unat a1 < 2 ^ 54" "unat a2 < 2 ^ 54" "unat a3 < 2 ^ 54" "unat a4 < 2 ^ 54"
    "unat b0 < 2 ^ 54" "unat b1 < 2 ^ 54" "unat b2 < 2 ^ 54" "unat b3 < 2 ^ 54" "unat b4 < 2 ^ 54"
    using assms by (simp_all add: ab)
  note m0 = mult54 [OF l(1)] and m1 = mult54 [OF l(2)] and m2 = mult54 [OF l(3)] and m3 = mult54 [OF l(4)] and m4 = mult54 [OF l(5)]
  note M = m0 [OF l(6)] m0 [OF l(7)] m0 [OF l(8)] m0 [OF l(9)] m0 [OF l(10)] m1 [OF l(6)] m1 [OF l(7)] m1 [OF l(8)] m1 [OF l(9)] m1 [OF l(10)]
    m2 [OF l(6)] m2 [OF l(7)] m2 [OF l(8)] m2 [OF l(9)] m2 [OF l(10)] m3 [OF l(6)] m3 [OF l(7)] m3 [OF l(8)] m3 [OF l(9)] m3 [OF l(10)]
    m4 [OF l(6)] m4 [OF l(7)] m4 [OF l(8)] m4 [OF l(9)] m4 [OF l(10)]
  define t0 where "t0 = wide_mul a0 b0 + 19 * (wide_mul a1 b4 + wide_mul a2 b3 + wide_mul a3 b2 + wide_mul a4 b1)"
  define t1 where "t1 = wide_mul a0 b1 + wide_mul a1 b0 + 19 * (wide_mul a2 b4 + wide_mul a3 b3 + wide_mul a4 b2)"
  define t2 where "t2 = wide_mul a0 b2 + wide_mul a1 b1 + wide_mul a2 b0 + 19 * (wide_mul a3 b4 + wide_mul a4 b3)"
  define t3 where "t3 = wide_mul a0 b3 + wide_mul a1 b2 + wide_mul a2 b1 + wide_mul a3 b0 + 19 * (wide_mul a4 b4)"
  define t4 where "t4 = wide_mul a0 b4 + wide_mul a1 b3 + wide_mul a2 b2 + wide_mul a3 b1 + wide_mul a4 b0"
  have t: "fe51_products a b = (t0, t1, t2, t3, t4)"
    by (simp add: fe51_products_def ab Let_def t0_def t1_def t2_def t3_def t4_def)
  have t4: "unat t4 = unat a0 * unat b4 + unat a1 * unat b3 + unat a2 * unat b2 + unat a3 * unat b1 + unat a4 * unat b0"
    using M by (simp add: t4_def unat_word_ariths)
  have t3: "unat t3 = unat a0 * unat b3 + unat a1 * unat b2 + unat a2 * unat b1 + unat a3 * unat b0 + 19 * (unat a4 * unat b4)"
    using M by (simp add: t3_def unat_word_ariths)
  have t2: "unat t2 = unat a0 * unat b2 + unat a1 * unat b1 + unat a2 * unat b0 + 19 * (unat a3 * unat b4 + unat a4 * unat b3)"
    using M by (simp add: t2_def unat_word_ariths)
  have t1: "unat t1 = unat a0 * unat b1 + unat a1 * unat b0 + 19 * (unat a2 * unat b4 + unat a3 * unat b3 + unat a4 * unat b2)"
    using M by (simp add: t1_def unat_word_ariths)
  have t0: "unat t0 = unat a0 * unat b0 + 19 * (unat a1 * unat b4 + unat a2 * unat b3 + unat a3 * unat b2 + unat a4 * unat b1)"
    using M by (simp add: t0_def unat_word_ariths)
  have bd: "unat t0 < 2 ^ 116" "unat t1 < 2 ^ 116" "unat t2 < 2 ^ 116" "unat t3 < 2 ^ 116" "unat t4 < 2 ^ 112"
    using M by (simp_all add: t0 t1 t2 t3 t4)
  define k where "k = unat a1 * unat b4 + unat a2 * unat b3 + unat a3 * unat b2 + unat a4 * unat b1
     + 2 ^ 51 * (unat a2 * unat b4 + unat a3 * unat b3 + unat a4 * unat b2)
     + 2 ^ 102 * (unat a3 * unat b4 + unat a4 * unat b3) + 2 ^ 153 * (unat a4 * unat b4)"
  have s: "unat t0 + 2 ^ 51 * unat t1 + 2 ^ 102 * unat t2 + 2 ^ 153 * unat t3 + 2 ^ 204 * unat t4 + k * p25519 = fe51_val a * fe51_val b"
    by (simp add: ab t0 t1 t2 t3 t4 k_def p25519_def algebra_simps)
  from fe51_reduce_val [OF bd] obtain l where
    "fe51_val (fe51_mul a b) + l * p25519 = unat t0 + 2 ^ 51 * unat t1 + 2 ^ 102 * unat t2 + 2 ^ 153 * unat t3 + 2 ^ 204 * unat t4"
    by (auto simp: fe51_mul_def t)
  with s have "fe51_val (fe51_mul a b) + (l + k) * p25519 = fe51_val a * fe51_val b" by (simp add: algebra_simps)
  then show "\<exists>k. fe51_val (fe51_mul a b) + k * p25519 = fe51_val a * fe51_val b" ..
  show "tight (fe51_mul a b)" using fe51_reduce_val(2) [OF bd] by (simp add: fe51_mul_def t)
qed


end
