(* ===== verification/Fe25519Val.thy ===== *)
theory Fe25519Val
  imports Fe25519
begin

text \<open>
  What the field operations of \<open>src/src/fe_25519_r51.hpp\<close> compute beyond the product: sums and differences, the conditional swap, the
  canonical form (\<open>fe51_tobytes\<close> writes the value modulo the prime, the decoder reads the low 255 bits), the addition chains of the
  inverse and of the square root's exponent, all as integers modulo \<open>2 ^ 255 - 19\<close>.
\<close>


section \<open>Sums and differences\<close>

lemma plus64: "unat x + unat y < 2 ^ 64 \<Longrightarrow> unat (x + y :: u64) = unat x + unat y"
  by (simp add: unat_word_ariths)

lemma minus64: "unat y \<le> unat x \<Longrightarrow> unat (x - y :: u64) = unat x - unat y"
  by (metis unat_sub_if')

lemma fe51_add_val:
  assumes "tight a" "tight b"
  shows "fe51_val (fe51_add a b) = fe51_val a + fe51_val b" and "loose (fe51_add a b)"
proof -
  obtain a0 a1 a2 a3 a4 b0 b1 b2 b3 b4 where ab: "a = (a0, a1, a2, a3, a4)" "b = (b0, b1, b2, b3, b4)"
    by (cases a, cases b) auto
  have s: "unat (a0 + b0) = unat a0 + unat b0" "unat (a1 + b1) = unat a1 + unat b1" "unat (a2 + b2) = unat a2 + unat b2"
    "unat (a3 + b3) = unat a3 + unat b3" "unat (a4 + b4) = unat a4 + unat b4"
    using assms by (simp_all add: ab plus64)
  show "fe51_val (fe51_add a b) = fe51_val a + fe51_val b" by (simp add: ab s)
  show "loose (fe51_add a b)" using assms by (simp add: ab s)
qed

lemma sub_limb:
  assumes "unat a < 2 ^ 51 + 2 ^ 20" "unat b < 2 ^ 51 + 2 ^ 20" "2 ^ 52 - 38 \<le> unat p" "unat p < 2 ^ 52"
  shows "unat (a + p - b :: u64) + unat b = unat a + unat p"
proof -
  have s: "unat (a + p) = unat a + unat p" using assms by (subst plus64) simp_all
  have "unat b \<le> unat (a + p)" using assms by (simp add: s)
  from minus64 [OF this] s \<open>unat b \<le> unat (a + p)\<close> show ?thesis by simp
qed

lemma ladder_sub_val:
  assumes "tight a" "tight b"
  shows "fe51_val (ladder_sub a b) + fe51_val b = fe51_val a + 2 * p25519" and "loose (ladder_sub a b)"
proof -
  obtain a0 a1 a2 a3 a4 b0 b1 b2 b3 b4 where ab: "a = (a0, a1, a2, a3, a4)" "b = (b0, b1, b2, b3, b4)"
    by (cases a, cases b) auto
  have l: "unat a0 < 2 ^ 51 + 2 ^ 20" "unat a1 < 2 ^ 51 + 2 ^ 20" "unat a2 < 2 ^ 51 + 2 ^ 20" "unat a3 < 2 ^ 51 + 2 ^ 20"
    "unat a4 < 2 ^ 51 + 2 ^ 20" "unat b0 < 2 ^ 51 + 2 ^ 20" "unat b1 < 2 ^ 51 + 2 ^ 20" "unat b2 < 2 ^ 51 + 2 ^ 20"
    "unat b3 < 2 ^ 51 + 2 ^ 20" "unat b4 < 2 ^ 51 + 2 ^ 20" using assms by (simp_all add: ab)
  define x0 x1 x2 x3 x4 where x: "x0 = a0 + 0xFFFFFFFFFFFDA - b0" "x1 = a1 + 0xFFFFFFFFFFFFE - b1" "x2 = a2 + 0xFFFFFFFFFFFFE - b2"
    "x3 = a3 + 0xFFFFFFFFFFFFE - b3" "x4 = a4 + 0xFFFFFFFFFFFFE - b4"
  have s: "unat x0 + unat b0 = unat a0 + 0xFFFFFFFFFFFDA" "unat x1 + unat b1 = unat a1 + 0xFFFFFFFFFFFFE"
    "unat x2 + unat b2 = unat a2 + 0xFFFFFFFFFFFFE" "unat x3 + unat b3 = unat a3 + 0xFFFFFFFFFFFFE"
    "unat x4 + unat b4 = unat a4 + 0xFFFFFFFFFFFFE"
    using sub_limb [OF l(1) l(6), of "0xFFFFFFFFFFFDA"] sub_limb [OF l(2) l(7), of "0xFFFFFFFFFFFFE"] sub_limb [OF l(3) l(8), of "0xFFFFFFFFFFFFE"]
      sub_limb [OF l(4) l(9), of "0xFFFFFFFFFFFFE"] sub_limb [OF l(5) l(10), of "0xFFFFFFFFFFFFE"] by (simp_all add: x)
  have eq: "ladder_sub (a0, a1, a2, a3, a4) (b0, b1, b2, b3, b4) = (x0, x1, x2, x3, x4)" by (simp add: ladder_sub_def TWO_P_def x)
  show "fe51_val (ladder_sub a b) + fe51_val b = fe51_val a + 2 * p25519"
    using s by (simp add: eq ab p25519_def)
  show "loose (ladder_sub a b)" using s l by (simp add: eq ab)
qed

lemma fe51_cswap_val: "fe51_cswap p q b = (if b \<noteq> 0 then (q, p) else (p, q))"
proof -
  have x: "a XOR (a XOR b) = b" "b XOR (a XOR b) = a" for a b :: u64
    by (rule bit_word_eqI; auto simp: bit_xor_iff)+
  show ?thesis by (cases p, cases q) (simp add: fe51_cswap_def Let_def x)
qed

section \<open>Canonical form\<close>

fun norm :: "fe51 \<Rightarrow> bool" where
  "norm (a0, a1, a2, a3, a4) \<longleftrightarrow> unat a0 < 2 ^ 51 \<and> unat a1 < 2 ^ 51 \<and> unat a2 < 2 ^ 51 \<and> unat a3 < 2 ^ 51 \<and> unat a4 < 2 ^ 51"

lemma norm_tight: "norm a \<Longrightarrow> tight a"
  by (cases a) auto

lemma small_limb:
  assumes "unat (a :: u64) < 2 ^ 51"
  shows "drop_bit 51 a = 0" "a AND MASK51 = a"
proof -
  have "unat (drop_bit 51 a) = 0" using assms by (simp add: unat_drop_bit_div)
  then show "drop_bit 51 a = 0" using word_unat_eq_iff by force
  have "unat (a AND MASK51) = unat a" using assms by (simp add: and_MASK51)
  then show "a AND MASK51 = a" using word_unat_eq_iff by blast
qed

lemma carry_pass_norm: "norm a \<Longrightarrow> carry_pass a = a"
  by (cases a) (simp add: carry_pass_def small_limb)

lemma carry_low_norm: "norm a \<Longrightarrow> carry_low a = a"
  by (cases a) (simp add: carry_low_def small_limb)

lemma carry_pass_val:
  assumes "loose a"
  obtains c x0 x1 x2 x3 x4 where "carry_pass a = (x0, x1, x2, x3, x4)" "fe51_val (carry_pass a) + c * p25519 = fe51_val a"
    "c < 16" "unat x0 < 2 ^ 51 + 19 * c" "19 * c \<le> unat x0" "unat x1 < 2 ^ 51" "unat x2 < 2 ^ 51" "unat x3 < 2 ^ 51" "unat x4 < 2 ^ 51"
proof -
  obtain t0 t1 t2 t3 t4 where a: "a = (t0, t1, t2, t3, t4)" by (cases a) auto
  have l: "unat t0 < 2 ^ 54" "unat t1 < 2 ^ 54" "unat t2 < 2 ^ 54" "unat t3 < 2 ^ 54" "unat t4 < 2 ^ 54"
    using assms by (simp_all add: a)
  have lt: "unat t0 < 2 ^ 116" "unat t1 < 2 ^ 116" "unat t2 < 2 ^ 116" "unat t3 < 2 ^ 116" "unat t4 < 2 ^ 112"
    using l by simp_all
  let ?B = "2 ^ 51 :: nat"
  define E1 E2 E3 E4 where "E1 = unat t1 + unat t0 div ?B" and "E2 = unat t2 + E1 div ?B"
    and "E3 = unat t3 + E2 div ?B" and "E4 = unat t4 + E3 div ?B"
  define f0 where "f0 = unat t0 mod ?B + 19 * (E4 div ?B)"
  note N = reduce_nat(1) [OF lt, folded E1_def, folded E2_def, folded E3_def, folded E4_def, folded f0_def]
  have le: "x div ?B < 16" if "x < 2 ^ 55" for x using that by (simp add: less_mult_imp_div_less)
  have b1: "E1 < 2 ^ 55" using l le [of "unat t0"] by (simp add: E1_def)
  have b2: "E2 < 2 ^ 55" using l le [OF b1] by (simp add: E2_def)
  have b3: "E3 < 2 ^ 55" using l le [OF b2] by (simp add: E3_def)
  have b4: "E4 < 2 ^ 55" using l le [OF b3] by (simp add: E4_def)
  define e1 where "e1 = t1 + drop_bit 51 t0"
  define e2 where "e2 = t2 + drop_bit 51 e1"
  define e3 where "e3 = t3 + drop_bit 51 e2"
  define e4 where "e4 = t4 + drop_bit 51 e3"
  define x0 where "x0 = (t0 AND MASK51) + drop_bit 51 e4 * 19"
  have e1: "unat e1 = E1" using b1 plus64 [of t1 "drop_bit 51 t0"] by (simp add: e1_def E1_def unat_drop_bit_div)
  have e2: "unat e2 = E2" using b2 plus64 [of t2 "drop_bit 51 e1"] by (simp add: e2_def E2_def unat_drop_bit_div e1)
  have e3: "unat e3 = E3" using b3 plus64 [of t3 "drop_bit 51 e2"] by (simp add: e3_def E3_def unat_drop_bit_div e2)
  have e4: "unat e4 = E4" using b4 plus64 [of t4 "drop_bit 51 e3"] by (simp add: e4_def E4_def unat_drop_bit_div e3)
  have c: "E4 div ?B < 16" by (rule le [OF b4])
  have lim: "unat t0 mod ?B < ?B" by simp
  then have f: "f0 < 2 ^ 60" using c by (simp add: f0_def)
  have x0: "unat x0 = f0" using f by (simp add: x0_def f0_def unat_word_ariths and_MASK51 unat_drop_bit_div e4 mod_simps)
  have p: "carry_pass a = (x0, e1 AND MASK51, e2 AND MASK51, e3 AND MASK51, e4 AND MASK51)"
    by (simp add: a carry_pass_def Let_def e1_def e2_def e3_def e4_def x0_def)
  have v: "f0 + ?B * (E1 mod ?B) + ?B * ?B * (E2 mod ?B) + ?B * ?B * ?B * (E3 mod ?B) + ?B * ?B * ?B * ?B * (E4 mod ?B) + E4 div ?B * p25519
      = unat t0 + ?B * unat t1 + ?B * ?B * unat t2 + ?B * ?B * ?B * unat t3 + ?B * ?B * ?B * ?B * unat t4"
    using N div_mult_mod_eq [of f0 ?B] by (simp add: algebra_simps)
  have "fe51_val (carry_pass a) + E4 div ?B * p25519 = fe51_val a"
    using v unfolding p by (simp add: a x0 and_MASK51 e1 e2 e3 e4)
  from that [OF p this c] lim show ?thesis by (simp add: x0 and_MASK51 e1 e2 e3 e4 f0_def)
qed


text \<open>Two passes normalise.\<close>

lemma carry_twice:
  assumes "loose a"
  shows "norm (carry_pass (carry_pass a))" and "\<exists>k. fe51_val (carry_pass (carry_pass a)) + k * p25519 = fe51_val a"
proof -
  obtain c x0 x1 x2 x3 x4 where p: "carry_pass a = (x0, x1, x2, x3, x4)" "fe51_val (carry_pass a) + c * p25519 = fe51_val a"
    "c < 16" "unat x0 < 2 ^ 51 + 19 * c" "19 * c \<le> unat x0" "unat x1 < 2 ^ 51" "unat x2 < 2 ^ 51" "unat x3 < 2 ^ 51" "unat x4 < 2 ^ 51"
    using carry_pass_val [OF assms] by metis
  have lo: "loose (carry_pass a)" using p by (simp add: p(1))
  have v1: "fe51_val (carry_pass a) < 2 ^ 255 + 19 * 16" using p by (simp add: p(1))
  obtain d y0 y1 y2 y3 y4 where q: "carry_pass (carry_pass a) = (y0, y1, y2, y3, y4)"
    "fe51_val (carry_pass (carry_pass a)) + d * p25519 = fe51_val (carry_pass a)"
    "unat y0 < 2 ^ 51 + 19 * d" "unat y1 < 2 ^ 51" "unat y2 < 2 ^ 51" "unat y3 < 2 ^ 51" "unat y4 < 2 ^ 51"
    using carry_pass_val [OF lo] by metis
  show "norm (carry_pass (carry_pass a))"
  proof (cases "d = 0")
    case True
    then show ?thesis using q by (simp add: q(1))
  next
    case False
    then have "p25519 \<le> d * p25519" by simp
    then have "fe51_val (carry_pass (carry_pass a)) \<le> 2 ^ 255 + 19 * 16 - p25519" using q(2) v1 by linarith
    also have "\<dots> < 1000" by (simp add: p25519_def)
    finally have "unat y0 < 1000" unfolding q(1) by simp
    then show ?thesis using q by (simp add: q(1))
  qed
  have "fe51_val (carry_pass (carry_pass a)) + (d + c) * p25519 = fe51_val a"
    using p(2) q(2) by (simp add: algebra_simps)
  then show "\<exists>k. fe51_val (carry_pass (carry_pass a)) + k * p25519 = fe51_val a" ..
qed

text \<open>The last subtraction: \<open>t - p\<close> borrows out of the top limb unless \<open>t\<close> is at least \<open>p\<close>.\<close>

lemma subtract_p_eq:
  assumes "norm (t0, t1, t2, t3, t4)"
  defines "M \<equiv> 0x7FFFFFFFFFFFF :: u64"
  shows "subtract_p (t0, t1, t2, t3, t4) =
    (if t1 = M \<and> t2 = M \<and> t3 = M \<and> t4 = M \<and> 0x7FFFFFFFFFFED \<le> t0 then (t0 - 0x7FFFFFFFFFFED, 0, 0, 0, 0) else (t0, t1, t2, t3, t4))"
proof -
  have l: "t1 \<le> M" "t2 \<le> M" "t3 \<le> M" "t4 \<le> M"
    using assms(1) by (simp_all add: M_def word_le_nat_alt)
  have b: "(t < M + 1) = True" "(t < M) = (t \<noteq> M)" if "t \<le> M" for t
    using that by (auto simp: M_def word_less_nat_alt word_le_nat_alt word_unat_eq_iff)
  show ?thesis
  proof (cases "t1 = M \<and> t2 = M \<and> t3 = M \<and> t4 = M \<and> 0x7FFFFFFFFFFED \<le> t0")
    case True
    then have "\<not> t0 < 0x7FFFFFFFFFFED" by (simp only: linorder_not_less)
    with True show ?thesis by (simp add: subtract_p_def P51_def M_def Let_def)
  next
    case False
    then show ?thesis
      using l b by (auto simp add: subtract_p_def P51_def Let_def simp flip: M_def split: if_splits)
  qed
qed

lemma subtract_p_val:
  assumes "norm t"
  shows "fe51_val (subtract_p t) = fe51_val t mod p25519" and "norm (subtract_p t)"
proof -
  obtain t0 t1 t2 t3 t4 where t: "t = (t0, t1, t2, t3, t4)" by (cases t) auto
  have l: "unat t0 < 2 ^ 51" "unat t1 < 2 ^ 51" "unat t2 < 2 ^ 51" "unat t3 < 2 ^ 51" "unat t4 < 2 ^ 51"
    using assms by (simp_all add: t)
  let ?c = "t1 = 0x7FFFFFFFFFFFF \<and> t2 = 0x7FFFFFFFFFFFF \<and> t3 = 0x7FFFFFFFFFFFF \<and> t4 = 0x7FFFFFFFFFFFF \<and> 0x7FFFFFFFFFFED \<le> t0"
  note eq = subtract_p_eq [OF assms [unfolded t]]
  show "norm (subtract_p t)"
  proof (cases ?c)
    case True
    then have "unat (t0 - 0x7FFFFFFFFFFED) < 2 ^ 51"
      using l by (subst minus64) (simp_all add: word_le_nat_alt)
    with True show ?thesis unfolding t eq by simp
  next
    case False
    then show ?thesis using assms unfolding t eq by auto
  qed
  have lim: "fe51_val t < p25519 + 19" using l by (simp add: t p25519_def)
  show "fe51_val (subtract_p t) = fe51_val t mod p25519"
  proof (cases ?c)
    case True
    then have d2: "0x7FFFFFFFFFFED \<le> unat t0" by (simp add: word_le_nat_alt)
    then have d: "unat (t0 - 0x7FFFFFFFFFFED) = unat t0 - 0x7FFFFFFFFFFED" by (subst minus64) simp_all
    have v: "fe51_val t = p25519 + (unat t0 - 0x7FFFFFFFFFFED)" using True d2 by (simp add: t p25519_def)
    have s: "unat t0 - 0x7FFFFFFFFFFED < p25519" using lim v by (simp add: p25519_def)
    have "fe51_val (subtract_p t) = unat t0 - 0x7FFFFFFFFFFED" using True unfolding t eq by (simp add: d)
    then show ?thesis using s by (simp add: v)
  next
    case False
    have ne: "unat x \<noteq> 0x7FFFFFFFFFFFF" if "x \<noteq> 0x7FFFFFFFFFFFF" for x :: u64
      using that by (simp add: word_unat_eq_iff)
    have "fe51_val t < p25519"
    proof (rule ccontr)
      assume "\<not> ?thesis"
      then have "p25519 \<le> fe51_val t" by simp
      then have "unat t4 = 0x7FFFFFFFFFFFF \<and> unat t3 = 0x7FFFFFFFFFFFF \<and> unat t2 = 0x7FFFFFFFFFFFF \<and> unat t1 = 0x7FFFFFFFFFFFF \<and> 0x7FFFFFFFFFFED \<le> unat t0"
        using l by (simp add: t p25519_def)
      then show False using False ne by (auto simp: word_le_nat_alt)
    qed
    with False show ?thesis unfolding t eq by auto
  qed
qed

lemma fe51_freeze_val:
  assumes "loose h"
  shows "fe51_val (fe51_freeze h) = fe51_val h mod p25519" and "norm (fe51_freeze h)"
proof -
  note c = carry_twice [OF assms]
  have eq: "fe51_freeze h = subtract_p (carry_pass (carry_pass h))"
    by (simp add: fe51_freeze_def carry_pass_norm carry_low_norm c(1))
  obtain k where "fe51_val (carry_pass (carry_pass h)) + k * p25519 = fe51_val h" using c(2) by blast
  then have "fe51_val (carry_pass (carry_pass h)) mod p25519 = fe51_val h mod p25519" by (metis mod_mult_self1)
  then show "fe51_val (fe51_freeze h) = fe51_val h mod p25519" by (simp add: eq subtract_p_val [OF c(1)])
  show "norm (fe51_freeze h)" by (simp add: eq subtract_p_val [OF c(1)])
qed

text \<open>The words the encoder stores are the base \<open>2 ^ 64\<close> digits of the value.\<close>

lemma le_bytes_words:
  assumes "w0 < 2 ^ 64" "w1 < 2 ^ 64" "w2 < 2 ^ 64"
  shows "le_bytes 8 w0 @ le_bytes 8 w1 @ le_bytes 8 w2 @ le_bytes 8 w3 = le_bytes 32 (w0 + 2 ^ 64 * (w1 + 2 ^ 64 * (w2 + 2 ^ 64 * w3)))"
proof -
  have step: "le_bytes (8 + n) (w + 2 ^ 64 * r) = le_bytes 8 w @ le_bytes n r" if "w < 2 ^ 64" for w r n
  proof -
    have "(w + 2 ^ 64 * r) mod 256 ^ 8 = w" "(w + 2 ^ 64 * r) div 256 ^ 8 = r" using that by simp_all
    then show ?thesis unfolding le_bytes_append by (metis le_bytes_mod)
  qed
  show ?thesis
    using step [OF assms(1), of 24 "w1 + 2 ^ 64 * (w2 + 2 ^ 64 * w3)"] step [OF assms(2), of 16 "w2 + 2 ^ 64 * w3"]
      step [OF assms(3), of 8 w3] by simp
qed

lemma and_low:
  assumes "m = mask k"
  shows "unat (x AND m) = unat x mod 2 ^ k"
proof -
  have "x AND m = take_bit k x" by (simp add: assms take_bit_eq_mask)
  then show ?thesis by (simp only: unsigned_take_bit_eq) (rule take_bit_eq_mod)
qed

lemma store8_poly: "store8 v = poly_store64 v"
  by (simp add: store8_def poly_store64_def)

lemma scale_split: "c * (x mod k) + c * k * (x div k) = c * (x :: nat)"
  by (metis distrib_left mod_mult_div_eq mult.assoc)

lemma words_of_limbs:
  fixes a0 a1 a2 a3 a4 :: nat
  shows "a0 + 2 ^ 51 * (a1 mod 2 ^ 13) + 2 ^ 64 * (a1 div 2 ^ 13 + 2 ^ 38 * (a2 mod 2 ^ 26) + 2 ^ 64 * (a2 div 2 ^ 26 + 2 ^ 25 * (a3 mod 2 ^ 39)
     + 2 ^ 64 * (a3 div 2 ^ 39 + 2 ^ 12 * a4))) = a0 + 2 ^ 51 * a1 + 2 ^ 102 * a2 + 2 ^ 153 * a3 + 2 ^ 204 * a4"
proof -
  show ?thesis
    using scale_split [of "2 ^ 51" a1 "2 ^ 13"] scale_split [of "2 ^ 102" a2 "2 ^ 26"] scale_split [of "2 ^ 153" a3 "2 ^ 39"]
    by (simp add: distrib_left)
qed

theorem fe51_tobytes_val:
  assumes "loose h"
  shows "fe51_tobytes h = le_bytes 32 (fe51_val h mod p25519)"
proof -
  obtain t0 t1 t2 t3 t4 where t: "fe51_freeze h = (t0, t1, t2, t3, t4)" by (cases "fe51_freeze h") auto
  note f = fe51_freeze_val [OF assms, unfolded t]
  have l: "unat t0 < 2 ^ 51" "unat t1 < 2 ^ 51" "unat t2 < 2 ^ 51" "unat t3 < 2 ^ 51" "unat t4 < 2 ^ 51"
    using f(2) by simp_all
  have m: "unat (t1 AND 0x1FFF) = unat t1 mod 2 ^ 13" "unat (t2 AND 0x3FFFFFF) = unat t2 mod 2 ^ 26"
    "unat (t3 AND 0x7FFFFFFFFF) = unat t3 mod 2 ^ 39" 
    using and_low [of "0x1FFF" 13 t1] and_low [of "0x3FFFFFF" 26 t2] and_low [of "0x7FFFFFFFFF" 39 t3]
    by (simp_all add: mask_eq_exp_minus_1)
  have ml: "unat t1 mod 2 ^ 13 < 2 ^ 13" "unat t2 mod 2 ^ 26 < 2 ^ 26" "unat t3 mod 2 ^ 39 < 2 ^ 39" by simp_all
  have dl: "unat t1 div 2 ^ 13 < 2 ^ 38" "unat t2 div 2 ^ 26 < 2 ^ 25" "unat t3 div 2 ^ 39 < 2 ^ 12" using l by simp_all
  have w: "unat (t0 OR push_bit 51 (t1 AND 0x1FFF)) = unat t0 + 2 ^ 51 * (unat t1 mod 2 ^ 13)"
    "unat (drop_bit 13 t1 OR push_bit 38 (t2 AND 0x3FFFFFF)) = unat t1 div 2 ^ 13 + 2 ^ 38 * (unat t2 mod 2 ^ 26)"
    "unat (drop_bit 26 t2 OR push_bit 25 (t3 AND 0x7FFFFFFFFF)) = unat t2 div 2 ^ 26 + 2 ^ 25 * (unat t3 mod 2 ^ 39)"
    "unat (drop_bit 39 t3 OR push_bit 12 t4) = unat t3 div 2 ^ 39 + 2 ^ 12 * unat t4"
    using l ml dl by (subst or_push_val; simp add: m unat_drop_bit_div)+
  have "fe51_tobytes h = le_bytes 32 (fe51_val (t0, t1, t2, t3, t4))"
    unfolding fe51_tobytes_def t Let_def prod.case store8_poly poly_store64_bytes w
    using l ml dl by (subst le_bytes_words) (simp_all only: words_of_limbs fe51_val.simps, simp_all)
  then show ?thesis by (simp only: f(1))
qed

section \<open>Decoding\<close>

lemma load8_val: "unat (load8 s i) = le_val (take 8 (drop i s))"
  using poly_load64_val [of s i] by (simp add: load8_def poly_load64_def)

lemma fe51_of_words:
  fixes w0 w1 w2 w3 :: nat
  assumes "w0 < 2 ^ 64" "w1 < 2 ^ 64" "w2 < 2 ^ 64"
  shows "w0 mod 2 ^ 51 + 2 ^ 51 * (w0 div 2 ^ 51 + 2 ^ 13 * (w1 mod 2 ^ 38)) + 2 ^ 102 * (w1 div 2 ^ 38 + 2 ^ 26 * (w2 mod 2 ^ 25))
      + 2 ^ 153 * (w2 div 2 ^ 25 + 2 ^ 39 * (w3 mod 2 ^ 12)) + 2 ^ 204 * (w3 div 2 ^ 12 mod 2 ^ 51)
    = (w0 + 2 ^ 64 * (w1 + 2 ^ 64 * (w2 + 2 ^ 64 * w3))) mod 2 ^ 255"
proof -
  have m: "w3 mod 2 ^ 63 = w3 mod 2 ^ 12 + 2 ^ 12 * (w3 div 2 ^ 12 mod 2 ^ 51)"
    using mod_mult2_eq [of w3 "2 ^ 12" "2 ^ 51"] by simp
  have q: "w3 = w3 mod 2 ^ 63 + 2 ^ 63 * (w3 div 2 ^ 63)" by (simp only: mod_mult_div_eq)
  have "w3 mod 2 ^ 63 < 2 ^ 63" by simp
  then have lim: "w0 + 2 ^ 64 * (w1 + 2 ^ 64 * (w2 + 2 ^ 64 * (w3 mod 2 ^ 63))) < 2 ^ 255" using assms by simp
  have "w0 + 2 ^ 64 * (w1 + 2 ^ 64 * (w2 + 2 ^ 64 * w3))
      = w0 + 2 ^ 64 * (w1 + 2 ^ 64 * (w2 + 2 ^ 64 * (w3 mod 2 ^ 63))) + 2 ^ 255 * (w3 div 2 ^ 63)"
    by (subst q) (simp only: distrib_left, simp)
  then have "(w0 + 2 ^ 64 * (w1 + 2 ^ 64 * (w2 + 2 ^ 64 * w3))) mod 2 ^ 255
      = w0 + 2 ^ 64 * (w1 + 2 ^ 64 * (w2 + 2 ^ 64 * (w3 mod 2 ^ 63)))"
    using lim by (simp only: mod_mult_self2 mod_less)
  then show ?thesis
    using scale_split [of 1 w0 "2 ^ 51"] scale_split [of "2 ^ 64" w1 "2 ^ 38"] scale_split [of "2 ^ 128" w2 "2 ^ 25"] m
    by (simp only: distrib_left) simp
qed

theorem fe51_frombytes_val:
  assumes "length s = 32"
  shows "fe51_val (fe51_frombytes s) = le_val s mod 2 ^ 255" and "norm (fe51_frombytes s)"
proof -
  define w0 w1 w2 w3 where w: "w0 = load8 s 0" "w1 = load8 s 8" "w2 = load8 s 16" "w3 = load8 s 24"
  have lt: "unat x < 2 ^ 64" for x :: u64 using unsigned_less [of x] by simp
  have b: "x mod 2 ^ k < 2 ^ k" for x k :: nat by simp
  have m: "unat (w1 AND 0x3FFFFFFFFF) = unat w1 mod 2 ^ 38" "unat (w2 AND 0x1FFFFFF) = unat w2 mod 2 ^ 25"
    "unat (w3 AND 0xFFF) = unat w3 mod 2 ^ 12"
    using and_low [of "0x3FFFFFFFFF" 38 w1] and_low [of "0x1FFFFFF" 25 w2] and_low [of "0xFFF" 12 w3] by (simp_all add: mask_eq_exp_minus_1)
  have dl: "unat w0 div 2 ^ 51 < 2 ^ 13" "unat w1 div 2 ^ 38 < 2 ^ 26" "unat w2 div 2 ^ 25 < 2 ^ 39"
    using lt [of w0] lt [of w1] lt [of w2] by simp_all
  have l: "unat (drop_bit 51 w0 OR push_bit 13 (w1 AND 0x3FFFFFFFFF)) = unat w0 div 2 ^ 51 + 2 ^ 13 * (unat w1 mod 2 ^ 38)"
    "unat (drop_bit 38 w1 OR push_bit 26 (w2 AND 0x1FFFFFF)) = unat w1 div 2 ^ 38 + 2 ^ 26 * (unat w2 mod 2 ^ 25)"
    "unat (drop_bit 25 w2 OR push_bit 39 (w3 AND 0xFFF)) = unat w2 div 2 ^ 25 + 2 ^ 39 * (unat w3 mod 2 ^ 12)"
    using dl b [of "unat w1" 38] b [of "unat w2" 25] b [of "unat w3" 12] by (subst or_push_val; simp add: m unat_drop_bit_div)+
  have f: "fe51_frombytes s = (w0 AND MASK51, drop_bit 51 w0 OR push_bit 13 (w1 AND 0x3FFFFFFFFF),
      drop_bit 38 w1 OR push_bit 26 (w2 AND 0x1FFFFFF), drop_bit 25 w2 OR push_bit 39 (w3 AND 0xFFF), drop_bit 12 w3 AND MASK51)"
    by (simp add: fe51_frombytes_def w Let_def)
  have v: "unat w0 = le_val (take 8 s)" "unat w1 = le_val (take 8 (drop 8 s))" "unat w2 = le_val (take 8 (drop 16 s))"
    "unat w3 = le_val (take 8 (drop 24 s))" by (simp_all only: w load8_val drop_0)
  have "s = take 8 s @ take 8 (drop 8 s) @ take 8 (drop 16 s) @ take 8 (drop 24 s)"
    using assms append_take_drop_id [of 8 s] append_take_drop_id [of 8 "drop 8 s"] append_take_drop_id [of 8 "drop 16 s"] by simp
  then have "le_val s = le_val (take 8 s @ take 8 (drop 8 s) @ take 8 (drop 16 s) @ take 8 (drop 24 s))" by simp
  also have "\<dots> = unat w0 + 2 ^ 64 * (unat w1 + 2 ^ 64 * (unat w2 + 2 ^ 64 * unat w3))"
    using assms by (simp add: le_val_append v)
  finally have s: "le_val s = unat w0 + 2 ^ 64 * (unat w1 + 2 ^ 64 * (unat w2 + 2 ^ 64 * unat w3))" .
  show "fe51_val (fe51_frombytes s) = le_val s mod 2 ^ 255"
    unfolding s fe51_of_words [OF lt lt lt, symmetric] f fe51_val.simps l and_MASK51 unat_drop_bit_div ..
  have lim: "x + 2 ^ 13 * y < 2 ^ 51" if "x < 2 ^ 13" "y < 2 ^ 38" for x y :: nat using that by simp
  have lim': "x + 2 ^ 26 * y < 2 ^ 51" if "x < 2 ^ 26" "y < 2 ^ 25" for x y :: nat using that by simp
  have lim'': "x + 2 ^ 39 * y < 2 ^ 51" if "x < 2 ^ 39" "y < 2 ^ 12" for x y :: nat using that by simp
  show "norm (fe51_frombytes s)"
    unfolding f norm.simps l and_MASK51 unat_drop_bit_div
    by (intro conjI lim [OF dl(1) b] lim' [OF dl(2) b] lim'' [OF dl(3) b] b)
qed

section \<open>Integers modulo the prime\<close>

definition pp :: int where
  "pp = int p25519"

definition fe_int :: "fe51 \<Rightarrow> int" where
  "fe_int a = int (fe51_val a) mod pp"

lemma fe_int_mod [simp]: "fe_int a mod pp = fe_int a"
  by (simp add: fe_int_def)

lemma fe51_mul_int:
  assumes "loose a" "loose b"
  shows "fe_int (fe51_mul a b) = fe_int a * fe_int b mod pp"
proof -
  obtain k where "fe51_val (fe51_mul a b) + k * p25519 = fe51_val a * fe51_val b" using fe51_mul_val [OF assms] by blast
  then have "int (fe51_val (fe51_mul a b)) + int k * pp = int (fe51_val a) * int (fe51_val b)"
    unfolding pp_def by (metis of_nat_add of_nat_mult)
  then have "int (fe51_val (fe51_mul a b)) mod pp = (int (fe51_val a) * int (fe51_val b)) mod pp" by (metis mod_mult_self1)
  then show ?thesis by (simp add: fe_int_def mod_mult_eq)
qed

lemma fe51_add_int:
  assumes "tight a" "tight b"
  shows "fe_int (fe51_add a b) = (fe_int a + fe_int b) mod pp"
  by (simp add: fe_int_def fe51_add_val(1) [OF assms] mod_add_eq)

lemma ladder_sub_int:
  assumes "tight a" "tight b"
  shows "fe_int (ladder_sub a b) = (fe_int a - fe_int b) mod pp"
proof -
  have "int (fe51_val (ladder_sub a b)) = int (fe51_val a) - int (fe51_val b) + 2 * pp"
    using ladder_sub_val(1) [OF assms] unfolding pp_def by linarith
  then have "int (fe51_val (ladder_sub a b)) mod pp = (int (fe51_val a) - int (fe51_val b)) mod pp" by simp
  then show ?thesis by (simp add: fe_int_def mod_diff_eq)
qed

lemma fe51_sq_int: "loose a \<Longrightarrow> fe_int (fe51_sq a) = fe_int a * fe_int a mod pp"
  by (simp add: fe51_sq_def fe51_mul_int)

lemma fe51_sq_tight: "loose a \<Longrightarrow> tight (fe51_sq a)"
  by (simp add: fe51_sq_def fe51_mul_val)

section \<open>Addition chains\<close>

text \<open>\<open>holds_pow z e x\<close>: \<open>x\<close> is \<open>z ^ e\<close> modulo the prime, in limbs the next product accepts.\<close>

definition holds_pow :: "fe51 \<Rightarrow> nat \<Rightarrow> fe51 \<Rightarrow> bool" where
  "holds_pow z e x \<longleftrightarrow> tight x \<and> fe_int x = fe_int z ^ e mod pp"

lemma holds_pow_self: "tight z \<Longrightarrow> holds_pow z 1 z"
  by (simp add: holds_pow_def)

lemma holds_pow_mul: "holds_pow z e x \<Longrightarrow> holds_pow z f y \<Longrightarrow> holds_pow z (e + f) (fe51_mul x y)"
  by (auto simp: holds_pow_def fe51_mul_int fe51_mul_val tight_loose power_add mod_mult_eq)

lemma holds_pow_sq: "holds_pow z e x \<Longrightarrow> holds_pow z (2 * e) (fe51_sq x)"
  using holds_pow_mul [of z e x e x] by (simp add: fe51_sq_def mult_2)

lemma holds_pow_sqn: "holds_pow z e x \<Longrightarrow> holds_pow z (2 ^ n * e) (fe51_sqn n x)"
proof (induction n)
  case (Suc n)
  then show ?case using holds_pow_sq [of z "2 ^ n * e" "fe51_sqn n x"] by (simp add: fe51_sqn_def mult.assoc)
qed (simp add: fe51_sqn_def)

lemma fe51_invert_pow:
  assumes "tight z"
  shows "holds_pow z (2 ^ 255 - 21) (fe51_invert z)"
proof -
  note m = holds_pow_mul and q = holds_pow_sq and n = holds_pow_sqn
  note z = holds_pow_self [OF assms]
  define a2 where "a2 = fe51_sq z"
  define a9 where "a9 = fe51_mul z (fe51_sq (fe51_sq a2))"
  define a11 where "a11 = fe51_mul a2 a9"
  define b5 where "b5 = fe51_mul a9 (fe51_sq a11)"
  define b10 where "b10 = fe51_mul (fe51_sqn 5 b5) b5"
  define b20 where "b20 = fe51_mul (fe51_sqn 10 b10) b10"
  define b40 where "b40 = fe51_mul (fe51_sqn 20 b20) b20"
  define b50 where "b50 = fe51_mul (fe51_sqn 10 b40) b10"
  define b100 where "b100 = fe51_mul (fe51_sqn 50 b50) b50"
  define b200 where "b200 = fe51_mul (fe51_sqn 100 b100) b100"
  define b250 where "b250 = fe51_mul (fe51_sqn 50 b200) b50"
  have 2: "holds_pow z 2 a2" using q [OF z] by (simp add: a2_def)
  have 9: "holds_pow z 9 a9" using m [OF z q [OF q [OF 2]]] by (simp add: a9_def)
  have 11: "holds_pow z 11 a11" using m [OF 2 9] by (simp add: a11_def)
  have 5: "holds_pow z (2 ^ 5 - 1) b5" using m [OF 9 q [OF 11]] by (simp add: b5_def)
  have 10: "holds_pow z (2 ^ 10 - 1) b10" using m [OF n [OF 5, of 5] 5] by (simp add: b10_def)
  have 20: "holds_pow z (2 ^ 20 - 1) b20" using m [OF n [OF 10, of 10] 10] by (simp add: b20_def)
  have 40: "holds_pow z (2 ^ 40 - 1) b40" using m [OF n [OF 20, of 20] 20] by (simp add: b40_def)
  have 50: "holds_pow z (2 ^ 50 - 1) b50" using m [OF n [OF 40, of 10] 10] by (simp add: b50_def)
  have 100: "holds_pow z (2 ^ 100 - 1) b100" using m [OF n [OF 50, of 50] 50] by (simp add: b100_def)
  have 200: "holds_pow z (2 ^ 200 - 1) b200" using m [OF n [OF 100, of 100] 100] by (simp add: b200_def)
  have 250: "holds_pow z (2 ^ 250 - 1) b250" using m [OF n [OF 200, of 50] 50] by (simp add: b250_def)
  have "fe51_invert z = fe51_mul (fe51_sqn 5 b250) a11"
    by (simp only: fe51_invert_def Let_def a2_def a9_def a11_def b5_def b10_def b20_def b40_def b50_def b100_def b200_def b250_def)
  then show ?thesis using m [OF n [OF 250, of 5] 11] by simp
qed

lemma fe51_pow22523_pow:
  assumes "tight z"
  shows "holds_pow z (2 ^ 252 - 3) (fe51_pow22523 z)"
proof -
  note m = holds_pow_mul and q = holds_pow_sq and n = holds_pow_sqn
  note z = holds_pow_self [OF assms]
  define a2 where "a2 = fe51_sq z"
  define a9 where "a9 = fe51_mul z (fe51_sqn 2 a2)"
  define b5 where "b5 = fe51_mul a9 (fe51_sq (fe51_mul a2 a9))"
  define b10 where "b10 = fe51_mul (fe51_sqn 5 b5) b5"
  define b20 where "b20 = fe51_mul (fe51_sqn 10 b10) b10"
  define b40 where "b40 = fe51_mul (fe51_sqn 20 b20) b20"
  define b50 where "b50 = fe51_mul (fe51_sqn 10 b40) b10"
  define b100 where "b100 = fe51_mul (fe51_sqn 50 b50) b50"
  define b200 where "b200 = fe51_mul (fe51_sqn 100 b100) b100"
  define b250 where "b250 = fe51_mul (fe51_sqn 50 b200) b50"
  have 2: "holds_pow z 2 a2" using q [OF z] by (simp add: a2_def)
  have 9: "holds_pow z 9 a9" using m [OF z n [OF 2, of 2]] by (simp add: a9_def)
  have 5: "holds_pow z (2 ^ 5 - 1) b5" using m [OF 9 q [OF m [OF 2 9]]] by (simp add: b5_def)
  have 10: "holds_pow z (2 ^ 10 - 1) b10" using m [OF n [OF 5, of 5] 5] by (simp add: b10_def)
  have 20: "holds_pow z (2 ^ 20 - 1) b20" using m [OF n [OF 10, of 10] 10] by (simp add: b20_def)
  have 40: "holds_pow z (2 ^ 40 - 1) b40" using m [OF n [OF 20, of 20] 20] by (simp add: b40_def)
  have 50: "holds_pow z (2 ^ 50 - 1) b50" using m [OF n [OF 40, of 10] 10] by (simp add: b50_def)
  have 100: "holds_pow z (2 ^ 100 - 1) b100" using m [OF n [OF 50, of 50] 50] by (simp add: b100_def)
  have 200: "holds_pow z (2 ^ 200 - 1) b200" using m [OF n [OF 100, of 100] 100] by (simp add: b200_def)
  have 250: "holds_pow z (2 ^ 250 - 1) b250" using m [OF n [OF 200, of 50] 50] by (simp add: b250_def)
  have "fe51_pow22523 z = fe51_mul (fe51_sqn 2 b250) z"
    by (simp only: fe51_pow22523_def Let_def a2_def a9_def b5_def b10_def b20_def b40_def b50_def b100_def b200_def b250_def)
  then show ?thesis using m [OF n [OF 250, of 2] z] by simp
qed

section \<open>Comparison and square roots\<close>

lemma fe51_carry_tight:
  assumes "loose a"
  shows "tight (fe51_carry a)" and "fe_int (fe51_carry a) = fe_int a"
proof -
  obtain c x0 x1 x2 x3 x4 where p: "carry_pass a = (x0, x1, x2, x3, x4)" "fe51_val (carry_pass a) + c * p25519 = fe51_val a"
    "c < 16" "unat x0 < 2 ^ 51 + 19 * c" "19 * c \<le> unat x0" "unat x1 < 2 ^ 51" "unat x2 < 2 ^ 51" "unat x3 < 2 ^ 51" "unat x4 < 2 ^ 51"
    using carry_pass_val [OF assms] by metis
  have d: "unat x0 div 2 ^ 51 \<le> 1" using p(3,4) by simp
  then have y1: "unat (x1 + drop_bit 51 x0) = unat x1 + unat x0 div 2 ^ 51"
    using p(6) by (subst plus64) (simp_all add: unat_drop_bit_div)
  have eq: "fe51_carry a = (x0 AND MASK51, x1 + drop_bit 51 x0, x2, x3, x4)"
    by (simp add: fe51_carry_def carry_low_def p(1) Let_def)
  show "tight (fe51_carry a)" using p d by (simp add: eq y1 and_MASK51 mod51_less)
  have m: "x mod 2 ^ 51 + 2 ^ 51 * (y + x div 2 ^ 51) = x + 2 ^ 51 * y" for x y :: nat
    using mod_mult_div_eq [of x "2 ^ 51"] by (simp add: distrib_left)
  have "fe51_val (fe51_carry a) = fe51_val (carry_pass a)"
    using m [of "unat x0" "unat x1"] by (simp add: eq y1 and_MASK51 p(1))
  with p(2) have "int (fe51_val (fe51_carry a)) + int c * pp = int (fe51_val a)"
    unfolding pp_def by (metis of_nat_add of_nat_mult)
  then show "fe_int (fe51_carry a) = fe_int a" unfolding fe_int_def by (metis mod_mult_self1)
qed

lemma fe51_sub_int:
  assumes "loose a" "loose b"
  shows "fe_int (fe51_sub a b) = (fe_int a - fe_int b) mod pp" and "loose (fe51_sub a b)"
  using ladder_sub_int [OF fe51_carry_tight(1) fe51_carry_tight(1), OF assms] ladder_sub_val(2) [OF fe51_carry_tight(1) fe51_carry_tight(1), OF assms]
  by (simp_all add: fe51_sub_def fe51_carry_tight(2) assms)

lemma foldl_or_bytes: "foldl (OR) x bs = 0 \<longleftrightarrow> x = 0 \<and> (\<forall>b\<in>set bs. b = (0 :: u8))"
  by (induction bs arbitrary: x) (auto simp: or_eq_0_iff)


lemma le_val_le_bytes: "le_val (le_bytes n x) = x mod 256 ^ n"
proof (induction n arbitrary: x)
  case (Suc n)
  then show ?case using mod_mult2_eq [of x 256 "256 ^ n"] by simp
qed simp

lemma le_bytes_0: "le_bytes n 0 = replicate n 0"
  by (induction n) simp_all

lemma all_zero_replicate: "length xs = n \<Longrightarrow> (\<forall>b\<in>set xs. b = 0) \<longleftrightarrow> xs = replicate n 0"
  by (metis replicate_eqI in_set_replicate)

lemma tobytes_zero:
  assumes "loose f"
  shows "fe51_isnonzero f \<longleftrightarrow> fe_int f \<noteq> 0"
proof -
  have lt: "fe51_val f mod p25519 < 256 ^ 32" using mod_less_divisor [of p25519 "fe51_val f"] by (simp add: p25519_def)
  have "(\<forall>b\<in>set (fe51_tobytes f). b = 0) \<longleftrightarrow> fe51_tobytes f = replicate 32 0"
    by (rule all_zero_replicate) (simp only: fe51_tobytes_val [OF assms] length_le_bytes)
  also have "\<dots> \<longleftrightarrow> fe51_val f mod p25519 = 0"
  proof
    assume "fe51_tobytes f = replicate 32 0"
    then have "le_val (le_bytes 32 (fe51_val f mod p25519)) = 0" by (simp only: fe51_tobytes_val [OF assms] le_val_replicate_0)
    then show "fe51_val f mod p25519 = 0" unfolding le_val_le_bytes mod_less [OF lt] .
  next
    assume "fe51_val f mod p25519 = 0"
    then have "fe51_tobytes f = le_bytes 32 0" by (simp only: fe51_tobytes_val [OF assms])
    then show "fe51_tobytes f = replicate 32 0" by (simp only: le_bytes_0)
  qed
  also have "\<dots> \<longleftrightarrow> fe_int f = 0" unfolding fe_int_def pp_def by (metis of_nat_eq_0_iff of_nat_mod)
  finally show ?thesis by (simp add: fe51_isnonzero_def foldl_or_bytes)
qed

lemma fe51_equal_int:
  assumes "loose f" "loose g"
  shows "fe51_equal f g \<longleftrightarrow> fe_int f = fe_int g"
proof -
  have "(fe_int f - fe_int g) mod pp = 0 \<longleftrightarrow> fe_int f = fe_int g"
    by (metis fe_int_mod mod_eq_dvd_iff dvd_eq_mod_eq_0)
  then show ?thesis by (simp add: fe51_equal_def tobytes_zero fe51_sub_int assms)
qed

lemma fe51_sqrt_ratio_root:
  assumes "tight u" "tight v" "fe51_sqrt_ratio u v = (r, k)"
  shows "if k = 0 then r = fe51_0 else fe_int v * fe_int r ^ 2 mod pp = fe_int u"
proof -
  have tm: "tight sqrtm1" by (simp add: sqrtm1_def norm_tight fe51_frombytes_val)
  note t = tight_loose fe51_mul_val(2) fe51_sq_tight assms(1,2) tm
  define uv3 where "uv3 = fe51_mul (fe51_sq v) v"
  define uv7 where "uv7 = fe51_mul (fe51_mul (fe51_sq uv3) v) u"
  define s where "s = fe51_mul (fe51_pow22523 uv7) (fe51_mul u uv3)"
  have t3: "tight uv3" by (simp add: uv3_def t)
  then have "tight uv7" by (simp add: uv7_def t)
  then have "tight (fe51_pow22523 uv7)" using fe51_pow22523_pow by (simp add: holds_pow_def)
  with t3 have ts: "tight s" by (simp add: s_def t)
  have chk: "fe51_equal (fe51_mul (fe51_sq x) v) u \<longleftrightarrow> fe_int v * fe_int x ^ 2 mod pp = fe_int u" if "tight x" for x
    using that by (simp add: fe51_equal_int t fe51_mul_int fe51_sq_int mod_simps power2_eq_square mult.commute)
  have "fe51_sqrt_ratio u v = (if fe51_equal (fe51_mul (fe51_sq s) v) u then (s, 1)
     else if fe51_equal (fe51_mul (fe51_sq (fe51_mul s sqrtm1)) v) u then (fe51_mul s sqrtm1, 2) else (fe51_0, 0))"
    unfolding fe51_sqrt_ratio_def Let_def s_def uv7_def uv3_def by (rule refl)
  then show ?thesis
    using assms(3) chk [OF ts] chk [of "fe51_mul s sqrtm1"] ts by (auto simp: t split: if_splits)
qed

end
