(* ===== verification/X25519.thy ===== *)
theory X25519
  imports Fe25519Val
begin

text \<open>
  X25519, \<open>src/src/x25519_body.inc\<close> and \<open>src/src/x25519.cpp\<close>: the clamped scalar, the Montgomery ladder with its deferred
  conditional swaps over the limbs of \<open>Fe25519\<close>, the final inversion and encoding; and the function of RFC 7748 it computes, a
  recursion over the scalar with integers modulo the prime.
\<close>

record ladder_state =
  l_x2 :: fe51
  l_z2 :: fe51
  l_x3 :: fe51
  l_z3 :: fe51
  l_swap :: u64

definition ladder_step :: "fe51 \<Rightarrow> u64 \<Rightarrow> ladder_state \<Rightarrow> ladder_state" where
  "ladder_step x1 b st =
     (let swap = l_swap st XOR b;
          (x2, x3) = fe51_cswap (l_x2 st) (l_x3 st) swap;
          (z2, z3) = fe51_cswap (l_z2 st) (l_z3 st) swap;
          a = fe51_add x2 z2; bb = ladder_sub x2 z2;
          c = fe51_add x3 z3; d = ladder_sub x3 z3;
          da = fe51_mul d a; cb = fe51_mul c bb;
          x3 = fe51_sq (fe51_add da cb);
          z3 = fe51_mul (fe51_sq (ladder_sub da cb)) x1;
          a = fe51_sq a; z2 = fe51_sq bb;
          t = ladder_sub a z2;
          x2 = fe51_mul a z2;
          z2 = fe51_mul (fe51_add (fe51_mul t (121665, 0, 0, 0, 0)) a) t
      in \<lparr>l_x2 = x2, l_z2 = z2, l_x3 = x3, l_z3 = z3, l_swap = b\<rparr>)"

definition clamp_scalar :: "bytes \<Rightarrow> bytes" where
  "clamp_scalar scalar =
     (let e = scalar[0 := scalar ! 0 AND 248]; e = e[31 := e ! 31 AND 127] in e[31 := e ! 31 OR 64])"

definition scalar_bit :: "bytes \<Rightarrow> nat \<Rightarrow> u64" where
  "scalar_bit e i = ucast (drop_bit (i mod 8) (e ! (i div 8)) AND 1)"

text \<open>\<open>point = None\<close> is the base point 9.\<close>

definition x25519_scalar_mult :: "bytes \<Rightarrow> bytes option \<Rightarrow> bytes" where
  "x25519_scalar_mult scalar point =
     (let e = clamp_scalar scalar;
          u = (case point of Some p \<Rightarrow> p | None \<Rightarrow> 9 # replicate 31 0);
          x1 = fe51_frombytes u;
          st = foldl (\<lambda>st i. ladder_step x1 (scalar_bit e i) st)
                 \<lparr>l_x2 = fe51_1, l_z2 = fe51_0, l_x3 = x1, l_z3 = fe51_1, l_swap = 0\<rparr> (rev [0..<255]);
          (x2, x3) = fe51_cswap (l_x2 st) (l_x3 st) (l_swap st);
          (z2, z3) = fe51_cswap (l_z2 st) (l_z3 st) (l_swap st)
      in fe51_tobytes (fe51_mul x2 (fe51_invert z2)))"

text \<open>The private key is what four outputs of the generator spell, stored as the machine stores them and clamped.\<close>

definition x25519_generate_keypair :: "(nat \<Rightarrow> u64) \<Rightarrow> bytes \<times> bytes" where
  "x25519_generate_keypair gen =
     (let priv = clamp_scalar (concat (map (\<lambda>i. store8 (gen i)) [0..<4])) in (x25519_scalar_mult priv None, priv))"

section \<open>The function of RFC 7748\<close>

definition x_double :: "int \<times> int \<Rightarrow> int \<times> int" where
  "x_double q =
     (let (x, z) = q; aa = (x + z) ^ 2; bb = (x - z) ^ 2; e = aa - bb
      in (aa * bb mod pp, e * (aa + 121665 * e) mod pp))"

definition x_add :: "int \<Rightarrow> int \<times> int \<Rightarrow> int \<times> int \<Rightarrow> int \<times> int" where
  "x_add x1 q r =
     (let (x2, z2) = q; (x3, z3) = r; da = (x3 - z3) * (x2 + z2); cb = (x3 + z3) * (x2 - z2)
      in ((da + cb) ^ 2 mod pp, x1 * (da - cb) ^ 2 mod pp))"

text \<open>The projective abscissas of \<open>n P\<close> and \<open>(n + 1) P\<close>, for \<open>P\<close> of abscissa \<open>x1\<close>.\<close>

fun x_mult :: "int \<Rightarrow> nat \<Rightarrow> (int \<times> int) \<times> (int \<times> int)" where
  "x_mult x1 n =
     (if n = 0 then ((1, 0), (x1, 1))
      else let (q, r) = x_mult x1 (n div 2)
        in if even n then (x_double q, x_add x1 q r) else (x_add x1 q r, x_double r))"

declare x_mult.simps [simp del]

definition decode_scalar :: "bytes \<Rightarrow> nat" where
  "decode_scalar k = 2 ^ 254 + 8 * (le_val k div 8 mod 2 ^ 251)"

definition x25519_rfc :: "bytes \<Rightarrow> bytes \<Rightarrow> bytes" where
  "x25519_rfc k u =
     (let ((x, z), _) = x_mult (int (le_val u mod 2 ^ 255) mod pp) (decode_scalar k)
      in le_bytes 32 (nat (x * z ^ (p25519 - 2) mod pp)))"

section \<open>The scalar\<close>

lemma clamp_low: "unat (b AND 248 :: u8) = 8 * (unat b div 8)"
proof -
  have "b AND 248 = 0 OR push_bit 3 (drop_bit 3 b)" by (rule u8_eqI; simp add: bit_simps)
  also have "unat \<dots> = unat (0 :: u8) + 2 ^ 3 * unat (drop_bit 3 b)"
  proof (rule or_push_val)
    have "unat b div 8 < 32" using unat_u8_less [of b] by (intro less_mult_imp_div_less) simp
    then show "unat (drop_bit 3 b) * 2 ^ 3 < 2 ^ LENGTH(8)" by (simp add: unat_drop_bit_div)
  qed simp
  finally show ?thesis by (simp add: unat_drop_bit_div)
qed

lemma clamp_high: "unat ((b AND 127) OR 64 :: u8) = 64 + unat b mod 64"
proof -
  have m: "unat (b AND 63) = unat b mod 64" using and_low [of "63 :: u8" 6 b] by (simp add: mask_eq_exp_minus_1)
  have "(b AND 127) OR 64 = (b AND 63) OR push_bit 6 1" by (rule u8_eqI; simp add: bit_simps)
  also have "unat \<dots> = unat (b AND 63) + 2 ^ 6 * unat (1 :: u8)" by (rule or_push_val) (simp_all add: m)
  finally show ?thesis by (simp add: m)
qed

lemma le_val_drop: "le_val bs div 256 ^ k = le_val (drop k bs)"
proof (induction k arbitrary: bs)
  case (Suc k)
  show ?case
  proof (cases bs)
    case (Cons b bs')
    have "(unat b + 256 * le_val bs') div 256 = le_val bs'" by simp
    then show ?thesis by (simp add: Cons div_mult2_eq Suc)
  qed simp
qed simp

lemma bit_le_val: "i < 8 * length bs \<Longrightarrow> bit (le_val bs) i = bit (bs ! (i div 8)) (i mod 8)"
proof -
  assume i: "i < 8 * length bs"
  then have l: "i div 8 < length bs" by (simp add: less_mult_imp_div_less mult.commute)
  have "bit (le_val bs) i = bit (drop_bit (8 * (i div 8)) (le_val bs)) (i mod 8)" by (simp add: bit_drop_bit_eq)
  also have "drop_bit (8 * (i div 8)) (le_val bs) = le_val (drop (i div 8) bs)"
    by (simp add: drop_bit_eq_div power_mult le_val_drop)
  also have "\<dots> = unat (bs ! (i div 8)) + 256 * le_val (drop (Suc (i div 8)) bs)"
    using l by (subst Cons_nth_drop_Suc [symmetric]) simp_all
  also have "bit \<dots> (i mod 8) = bit (take_bit 8 (unat (bs ! (i div 8)) + 256 * le_val (drop (Suc (i div 8)) bs))) (i mod 8)"
    by (simp add: bit_take_bit_iff)
  also have "take_bit 8 (unat (bs ! (i div 8)) + 256 * le_val (drop (Suc (i div 8)) bs)) = unat (bs ! (i div 8))"
    by (simp add: take_bit_eq_mod)
  finally show ?thesis by (simp add: bit_unsigned_iff)
qed

lemma scalar_bit_val: "i < 8 * length e \<Longrightarrow> scalar_bit e i = of_bool (odd (le_val e div 2 ^ i))"
proof -
  assume "i < 8 * length e"
  then have "bit (e ! (i div 8)) (i mod 8) = odd (le_val e div 2 ^ i)" using bit_le_val [of i e] by (simp only: bit_iff_odd [of "le_val e"])
  moreover have "(drop_bit k b AND 1 :: u8) = of_bool (bit b k)" for b k
    by (simp add: and_one_eq bit_iff_odd_drop_bit mod_2_eq_odd)
  ultimately show ?thesis unfolding scalar_bit_def by (auto simp only: of_bool_def ucast_0 ucast_1 split: if_splits)
qed

lemma clamp_scalar_val:
  assumes "length k = 32"
  shows "le_val (clamp_scalar k) = decode_scalar k" and "length (clamp_scalar k) = 32"
proof -
  obtain b0 ks where k: "k = b0 # ks" "length ks = 31" using assms by (cases k) auto
  obtain m b31 where ks: "ks = m @ [b31]" "length m = 30" using k(2) by (cases ks rule: rev_cases) auto
  have c: "clamp_scalar k = (b0 AND 248) # m @ [(b31 AND 127) OR 64]"
    using ks(2) by (simp add: clamp_scalar_def k ks Let_def nth_append list_update_append)
  show "length (clamp_scalar k) = 32" by (simp add: c ks)
  have "le_val k = unat b0 + 256 * (le_val m + 2 ^ 240 * unat b31)" by (simp add: k ks le_val_append)
  then have d: "le_val k div 8 = unat b0 div 8 + 32 * le_val m + 2 ^ 245 * unat b31" by simp
  have lm: "le_val m < 2 ^ 240" using le_val_less [of m] by (simp add: ks)
  have s: "unat b0 div 8 + 32 * le_val m + 2 ^ 245 * unat b31
      = unat b0 div 8 + 32 * le_val m + 2 ^ 245 * (unat b31 mod 64) + 2 ^ 251 * (unat b31 div 64)"
    using scale_split [of "2 ^ 245" "unat b31" 64] by simp
  have "unat b0 div 8 < 32" "unat b31 mod 64 < 64" by (simp_all add: less_mult_imp_div_less)
  then have "unat b0 div 8 + 32 * le_val m + 2 ^ 245 * (unat b31 mod 64) < 2 ^ 251" using lm by simp
  then have "le_val k div 8 mod 2 ^ 251 = unat b0 div 8 + 32 * le_val m + 2 ^ 245 * (unat b31 mod 64)"
    unfolding d s by (simp only: mod_mult_self2 mod_less)
  then show "le_val (clamp_scalar k) = decode_scalar k"
    by (simp add: c decode_scalar_def le_val_append clamp_low clamp_high ks)
qed

section \<open>The ladder\<close>

text \<open>A limb vector holds an integer modulo the prime, in limbs the additions accept, or in limbs the products accept.\<close>

definition fe_holds :: "fe51 \<Rightarrow> int \<Rightarrow> bool" where
  "fe_holds a x \<longleftrightarrow> tight a \<and> fe_int a = x mod pp"

definition wide_holds :: "fe51 \<Rightarrow> int \<Rightarrow> bool" where
  "wide_holds a x \<longleftrightarrow> loose a \<and> fe_int a = x mod pp"

lemma fe_holds_wide: "fe_holds a x \<Longrightarrow> wide_holds a x"
  by (simp add: fe_holds_def wide_holds_def tight_loose)

lemma fe_holds_mul: "wide_holds a x \<Longrightarrow> wide_holds b y \<Longrightarrow> fe_holds (fe51_mul a b) (x * y)"
  by (simp add: fe_holds_def wide_holds_def fe51_mul_val(2) fe51_mul_int mod_mult_eq)

lemma fe_holds_sq: "wide_holds a x \<Longrightarrow> fe_holds (fe51_sq a) (x ^ 2)"
  by (simp add: fe51_sq_def fe_holds_mul power2_eq_square)

lemma wide_holds_add: "fe_holds a x \<Longrightarrow> fe_holds b y \<Longrightarrow> wide_holds (fe51_add a b) (x + y)"
  by (simp add: fe_holds_def wide_holds_def fe51_add_val(2) fe51_add_int mod_add_eq)

lemma wide_holds_sub: "fe_holds a x \<Longrightarrow> fe_holds b y \<Longrightarrow> wide_holds (ladder_sub a b) (x - y)"
  by (simp add: fe_holds_def wide_holds_def ladder_sub_val(2) ladder_sub_int mod_diff_eq)

lemma fe_holds_mod [simp]: "fe_holds a (x mod pp) \<longleftrightarrow> fe_holds a x"
  by (simp add: fe_holds_def)

lemma a24_holds: "fe_holds (121665, 0, 0, 0, 0) 121665"
  by (simp add: fe_holds_def fe_int_def pp_def p25519_def)

lemmas field_rules = fe_holds_mul fe_holds_sq wide_holds_add wide_holds_sub a24_holds

definition pt_holds :: "fe51 \<times> fe51 \<Rightarrow> int \<times> int \<Rightarrow> bool" where
  "pt_holds a q \<longleftrightarrow> fe_holds (fst a) (fst q) \<and> fe_holds (snd a) (snd q)"

text \<open>The state between two steps: the swap the last one deferred is applied.\<close>

definition ladder_points :: "ladder_state \<Rightarrow> (fe51 \<times> fe51) \<times> (fe51 \<times> fe51)" where
  "ladder_points st =
     (if l_swap st = 0 then ((l_x2 st, l_z2 st), (l_x3 st, l_z3 st)) else ((l_x3 st, l_z3 st), (l_x2 st, l_z2 st)))"

definition ladder_holds :: "ladder_state \<Rightarrow> (int \<times> int) \<times> (int \<times> int) \<Rightarrow> bool" where
  "ladder_holds st qr \<longleftrightarrow>
     pt_holds (fst (ladder_points st)) (fst qr) \<and> pt_holds (snd (ladder_points st)) (snd qr) \<and> l_swap st \<in> {0, 1}"

definition double_add :: "fe51 \<Rightarrow> fe51 \<times> fe51 \<Rightarrow> fe51 \<times> fe51 \<Rightarrow> (fe51 \<times> fe51) \<times> (fe51 \<times> fe51)" where
  "double_add x1 q r =
     (let (x2, z2) = q; (x3, z3) = r;
          a = fe51_add x2 z2; bb = ladder_sub x2 z2;
          c = fe51_add x3 z3; d = ladder_sub x3 z3;
          da = fe51_mul d a; cb = fe51_mul c bb;
          aa = fe51_sq a; b2 = fe51_sq bb; t = ladder_sub aa b2
      in ((fe51_mul aa b2, fe51_mul (fe51_add (fe51_mul t (121665, 0, 0, 0, 0)) aa) t),
          (fe51_sq (fe51_add da cb), fe51_mul (fe51_sq (ladder_sub da cb)) x1)))"

lemma ladder_step_eq:
  assumes "l_swap st \<in> {0, 1}" "b \<in> {0, 1}"
  shows "ladder_step x1 b st =
    (let (q, r) = ladder_points st; (q', r') = (if b = 0 then double_add x1 q r else double_add x1 r q)
     in \<lparr>l_x2 = fst q', l_z2 = snd q', l_x3 = fst r', l_z3 = snd r', l_swap = b\<rparr>)"
  using assms by (auto simp: ladder_step_def ladder_points_def double_add_def fe51_cswap_val Let_def)

lemma ladder_step_points:
  assumes "l_swap st \<in> {0, 1}" "b \<in> {0, 1}" "ladder_points st = (q, r)"
  shows "ladder_points (ladder_step x1 b st)
      = (if b = 0 then double_add x1 q r else (snd (double_add x1 r q), fst (double_add x1 r q)))"
    and "l_swap (ladder_step x1 b st) = b"
  unfolding ladder_step_eq [OF assms(1,2)] assms(3) by (auto simp: Let_def ladder_points_def case_prod_beta)

lemma double_add_holds:
  assumes "pt_holds q (xq, zq)" "pt_holds r (xr, zr)" "fe_holds x1 u"
  shows "pt_holds (fst (double_add x1 q r)) (x_double (xq, zq))" and "pt_holds (snd (double_add x1 q r)) (x_add u (xq, zq) (xr, zr))"
proof -
  obtain x2 z2 x3 z3 where qr: "q = (x2, z2)" "r = (x3, z3)" by (cases q, cases r) auto
  have h: "fe_holds x2 xq" "fe_holds z2 zq" "fe_holds x3 xr" "fe_holds z3 zr" using assms(1,2) by (simp_all add: qr pt_holds_def)
  note k = field_rules h assms(3) fe_holds_wide
  define aa bb where "aa = fe51_sq (fe51_add x2 z2)" and "bb = fe51_sq (ladder_sub x2 z2)"
  have a: "fe_holds aa ((xq + zq)\<^sup>2)" "fe_holds bb ((xq - zq)\<^sup>2)" unfolding aa_def bb_def by (intro k)+
  define e where "e = ladder_sub aa bb"
  have e: "wide_holds e ((xq + zq)\<^sup>2 - (xq - zq)\<^sup>2)" unfolding e_def by (intro k a)
  have s: "wide_holds (fe51_add (fe51_mul e (121665, 0, 0, 0, 0)) aa)
      (((xq + zq)\<^sup>2 - (xq - zq)\<^sup>2) * 121665 + (xq + zq)\<^sup>2)"
    by (intro wide_holds_add fe_holds_mul e fe_holds_wide a24_holds a)
  have "fst (double_add x1 q r) = (fe51_mul aa bb, fe51_mul (fe51_add (fe51_mul e (121665, 0, 0, 0, 0)) aa) e)"
    by (simp add: double_add_def qr Let_def aa_def bb_def e_def)
  then show "pt_holds (fst (double_add x1 q r)) (x_double (xq, zq))"
    using fe_holds_mul [OF fe_holds_wide fe_holds_wide, OF a] fe_holds_mul [OF s e]
    by (simp add: pt_holds_def x_double_def Let_def ac_simps)
  define da cb where "da = fe51_mul (ladder_sub x3 z3) (fe51_add x2 z2)" and "cb = fe51_mul (fe51_add x3 z3) (ladder_sub x2 z2)"
  have d: "fe_holds da ((xr - zr) * (xq + zq))" "fe_holds cb ((xr + zr) * (xq - zq))" unfolding da_def cb_def by (intro k)+
  have "snd (double_add x1 q r) = (fe51_sq (fe51_add da cb), fe51_mul (fe51_sq (ladder_sub da cb)) x1)"
    by (simp add: double_add_def qr Let_def da_def cb_def)
  then show "pt_holds (snd (double_add x1 q r)) (x_add u (xq, zq) (xr, zr))"
    using fe_holds_sq [OF wide_holds_add, OF d]
      fe_holds_mul [OF fe_holds_wide fe_holds_wide, OF fe_holds_sq [OF wide_holds_sub, OF d] assms(3)]
    by (simp add: pt_holds_def x_add_def Let_def ac_simps)
qed

lemma x_add_sym: "x_add u q r = x_add u r q"
  by (cases q, cases r) (simp add: x_add_def Let_def power2_eq_square algebra_simps)

lemma ladder_step_holds:
  assumes "ladder_holds st (x_mult u n)" "fe_holds x1 u" "b \<in> {0, 1}" "n = 0 \<Longrightarrow> b = 1"
  shows "ladder_holds (ladder_step x1 b st) (x_mult u (2 * n + unat b))"
proof -
  obtain q r where qr: "x_mult u n = (q, r)" by (cases "x_mult u n") auto
  obtain xq zq xr zr where c: "q = (xq, zq)" "r = (xr, zr)" by (cases q, cases r) auto
  obtain fq fr where f: "ladder_points st = (fq, fr)" by (cases "ladder_points st") auto
  have h: "pt_holds fq (xq, zq)" "pt_holds fr (xr, zr)" "l_swap st \<in> {0, 1}"
    using assms(1) by (simp_all add: ladder_holds_def f qr c)
  have n: "(2 * n + 1) div 2 = n" by simp
  have m0: "x_mult u (2 * n) = (x_double q, x_add u q r)" if "b = 0"
    using that assms(4) by (subst x_mult.simps) (auto simp: qr)
  have m1: "x_mult u (2 * n + 1) = (x_add u q r, x_double r)"
    by (subst x_mult.simps) (simp add: n qr)
  note p = ladder_step_points [OF h(3) assms(3) f]
  show ?thesis
  proof (cases "b = 0")
    case True
    then show ?thesis
      using double_add_holds [OF h(1,2) assms(2)] m0 [OF True] unfolding ladder_holds_def p by (simp add: c)
  next
    case False
    then have "b = 1" using assms(3) by simp
    then show ?thesis
      using double_add_holds [OF h(2,1) assms(2)] m1 unfolding ladder_holds_def p by (simp add: c x_add_sym [of u "(xq, zq)"])
  qed
qed

text \<open>Folded over the bits from the top one, which is set, the steps multiply by the number they spell.\<close>

lemma ladder_fold_holds:
  assumes "fe_holds x1 u" "length e = 32" "le_val e div 2 ^ 254 = 1" "m \<le> 254"
    and start: "ladder_holds st (x_mult u 0)"
  shows "ladder_holds (foldl (\<lambda>st i. ladder_step x1 (scalar_bit e i) st) st (rev [254 - m..<255])) (x_mult u (le_val e div 2 ^ (254 - m)))"
  using assms(4)
proof (induction m)
  case 0
  have "scalar_bit e 254 = 1" using assms(2,3) by (simp add: scalar_bit_val)
  then show ?case using ladder_step_holds [OF start assms(1), of 1] assms(3) by simp
next
  case (Suc m)
  define k where "k = 254 - Suc m"
  have k: "254 - m = Suc k" "k < 254" using Suc.prems by (simp_all add: k_def)
  define n where "n = le_val e div 2 ^ Suc k"
  have "le_val e div 2 ^ 254 = n div 2 ^ (253 - k)"
    using k(2) by (simp only: n_def div_mult2_eq [symmetric] power_add [symmetric]) simp
  then have n0: "n \<noteq> 0" using assms(3) by (intro notI) simp
  have b: "scalar_bit e k = of_bool (odd (le_val e div 2 ^ k))" using k(2) by (intro scalar_bit_val) (simp add: assms(2))
  have d: "le_val e div 2 ^ k = 2 * n + of_bool (odd (le_val e div 2 ^ k))"
    using n_def by (simp add: div_mult2_eq mult.commute [of 2] odd_two_times_div_two_succ flip: mod_2_eq_odd)
  have "rev [k..<255] = rev [Suc k..<255] @ [k]" using k(2) by (simp add: upt_conv_Cons)
  moreover have "ladder_holds (foldl (\<lambda>st i. ladder_step x1 (scalar_bit e i) st) st (rev [Suc k..<255])) (x_mult u n)"
    using Suc k by (simp add: n_def)
  from ladder_step_holds [OF this assms(1), of "scalar_bit e k"] n0
  have "ladder_holds (ladder_step x1 (scalar_bit e k) (foldl (\<lambda>st i. ladder_step x1 (scalar_bit e i) st) st (rev [Suc k..<255])))
      (x_mult u (2 * n + unat (scalar_bit e k)))" by (simp add: b)
  moreover have "2 * n + unat (scalar_bit e k) = le_val e div 2 ^ k" unfolding b by (subst d) simp
  ultimately show ?case by (simp only: k_def [symmetric] foldl_append foldl.simps)
qed

lemma decode_scalar_top: "decode_scalar k div 2 ^ 254 = 1"
proof -
  have "le_val k div 8 mod 2 ^ 251 < 2 ^ 251" by simp
  then have "decode_scalar k < 2 * 2 ^ 254" "2 ^ 254 \<le> decode_scalar k" unfolding decode_scalar_def by simp_all
  then show ?thesis by simp
qed

lemma x25519_ladder:
  assumes "length scalar = 32" "length u = 32"
  shows "x25519_scalar_mult scalar (Some u) = x25519_rfc scalar u"
proof -
  define e where "e = clamp_scalar scalar"
  define x1 where "x1 = fe51_frombytes u"
  define v where "v = int (le_val u mod 2 ^ 255) mod pp"
  define s0 where "s0 = \<lparr>l_x2 = fe51_1, l_z2 = fe51_0, l_x3 = x1, l_z3 = fe51_1, l_swap = 0\<rparr>"
  define st where "st = foldl (\<lambda>st i. ladder_step x1 (scalar_bit e i) st) s0 (rev [0..<255])"
  have x1: "fe_holds x1 v" by (simp add: fe_holds_def x1_def v_def fe_int_def fe51_frombytes_val [OF assms(2)] norm_tight)
  have c: "fe_holds fe51_0 0" "fe_holds fe51_1 1" by (simp_all add: fe_holds_def fe51_0_def fe51_1_def fe_int_def)
  have "ladder_holds s0 (x_mult v 0)"
    using x1 c by (simp add: s0_def ladder_holds_def ladder_points_def pt_holds_def x_mult.simps)
  from ladder_fold_holds [OF x1 _ _ _ this, of e 254] have
    st: "ladder_holds st (x_mult v (decode_scalar scalar))"
    using clamp_scalar_val [OF assms(1)] decode_scalar_top [of scalar] by (simp add: e_def st_def)
  obtain x z r where m: "x_mult v (decode_scalar scalar) = ((x, z), r)" by (metis surj_pair)
  obtain a b where ab: "fst (ladder_points st) = (a, b)" by (metis surj_pair)
  have h: "fe_holds a x" "fe_holds b z" using st by (simp_all add: ladder_holds_def m ab pt_holds_def)
  have "fe_holds (fe51_invert b) (z ^ (p25519 - 2))"
    using fe51_invert_pow [of b] h(2) by (simp add: holds_pow_def fe_holds_def p25519_def power_mod)
  from fe_holds_mul [OF fe_holds_wide fe_holds_wide, OF h(1) this]
  have o: "tight (fe51_mul a (fe51_invert b))" "fe_int (fe51_mul a (fe51_invert b)) = x * z ^ (p25519 - 2) mod pp"
    by (simp_all add: fe_holds_def)
  have "x25519_scalar_mult scalar (Some u) = fe51_tobytes (fe51_mul a (fe51_invert b))"
    using ab by (simp add: x25519_scalar_mult_def Let_def e_def [symmetric] x1_def [symmetric] s0_def [symmetric] st_def [symmetric]
        fe51_cswap_val ladder_points_def split: if_splits)
  also have "\<dots> = le_bytes 32 (nat (fe_int (fe51_mul a (fe51_invert b))))"
    by (simp add: fe51_tobytes_val tight_loose o(1) fe_int_def pp_def flip: of_nat_mod)
  finally show ?thesis unfolding x25519_rfc_def v_def [symmetric] m o(2) by simp
qed

section \<open>Properties\<close>

text \<open>
  C16. The function the code computes is the X25519 of RFC 7748: for every scalar and every coordinate of 32 bytes, the limbs of 51
  bits, their lazy carries, the deferred swaps, the addition chain of the inverse and the final freezing give the bytes of
  \<open>x * z ^ (p - 2)\<close> modulo the prime, for the projective abscissa the ladder's recursion over the clamped scalar defines. No point is
  the base point 9.
\<close>

theorem x25519_is_rfc7748:
  assumes "length scalar = 32" "\<And>u. point = Some u \<Longrightarrow> length u = 32"
  shows "x25519_scalar_mult scalar point = x25519_rfc scalar (case point of Some u \<Rightarrow> u | None \<Rightarrow> 9 # replicate 31 0)"
proof (cases point)
  case None
  have "x25519_scalar_mult scalar None = x25519_scalar_mult scalar (Some (9 # replicate 31 0))" by (simp add: x25519_scalar_mult_def)
  then show ?thesis by (simp add: None x25519_ladder [OF assms(1)])
qed (simp add: x25519_ladder assms)

theorem x25519_is_rfc7748_witness:
  "x25519_scalar_mult (replicate 32 5) None = x25519_rfc (replicate 32 5) (9 # replicate 31 0)"
  using x25519_is_rfc7748 [of "replicate 32 5" None] by simp

text \<open>With a zero coordinate, the ladder never leaves the points whose \<open>z\<close> is zero.\<close>

lemma x_mult_zero:
  assumes "n \<noteq> 0"
  shows "snd (fst (x_mult 0 n)) = 0 \<and> (snd (snd (x_mult 0 n)) = 0)"
  using assms
proof (induction n rule: less_induct)
  case (less n)
  have d: "snd (x_double (x, 0)) = 0" "snd (x_double (0, z)) = 0" for x z by (simp_all add: x_double_def Let_def)
  have a: "snd (x_add 0 q r) = 0" for q r by (simp add: x_add_def Let_def case_prod_beta)
  show ?case
  proof (cases "n = 1")
    case True
    have "x_mult 0 0 = ((1, 0), (0, 1))" by (simp add: x_mult.simps)
    then show ?thesis by (simp add: True x_mult.simps [of 0 "Suc 0"] d a)
  next
    case False
    then have "n div 2 < n" "n div 2 \<noteq> 0" using less.prems by auto
    from less.IH [OF this] obtain xq xr where "x_mult 0 (n div 2) = ((xq, 0), (xr, 0))" by (metis prod.collapse)
    then show ?thesis using less.prems by (simp add: x_mult.simps [of 0 n] d a)
  qed
qed

text \<open>
  C34. A peer's coordinate that is zero modulo the prime (the bytes of 0, of \<open>p\<close>, either with the top bit set) gives 32 zero bytes
  whatever the private key: the function neither fails nor reports it, so the all-zero check of RFC 7748 is the caller's.
\<close>

theorem x25519_zero_point:
  assumes "length scalar = 32" "length u = 32" "le_val u mod 2 ^ 255 mod p25519 = 0"
  shows "x25519_scalar_mult scalar (Some u) = replicate 32 0"
proof -
  have u: "int (le_val u mod 2 ^ 255) mod pp = 0" 
    by (simp only: pp_def of_nat_mod [symmetric] assms(3) of_nat_0)
  have "decode_scalar scalar \<noteq> 0" by (simp add: decode_scalar_def)
  from x_mult_zero [OF this] obtain x r where m: "x_mult 0 (decode_scalar scalar) = ((x, 0), r)" by (metis prod.collapse)
  have "0 < p25519 - 2" by (simp add: p25519_def)
  then have "x25519_rfc scalar u = le_bytes 32 0" unfolding x25519_rfc_def u m by (simp add: zero_power)
  then show ?thesis by (simp add: x25519_ladder [OF assms(1,2)] le_bytes_0)
qed

theorem x25519_zero_point_witness:
  "x25519_scalar_mult (replicate 32 7) (Some (replicate 31 0 @ [128])) = replicate 32 0"
  by (rule x25519_zero_point) (simp_all add: le_val_append p25519_def)
end
