(* ===== verification/Sm4.thy ===== *)
theory Sm4
  imports Der
begin

text \<open>
  The block cipher SM4, \<open>src/src/sm4.cpp\<close> and \<open>src/include/sm4.hpp\<close>: the key schedule, the table-driven rounds, one block, ECB
  and CBC with PKCS#7 padding (the ARM hardware hooks, null by default, are left out). The theorems: the tables are the round
  transformation of the standard, decryption inverts encryption, and CBC decryption gives exactly the messages whose encryption
  it was given.
\<close>

section \<open>The round function\<close>

definition SM4_SBOX :: "u8 list" where
  "SM4_SBOX =
    [0xd6, 0x90, 0xe9, 0xfe, 0xcc, 0xe1, 0x3d, 0xb7, 0x16, 0xb6, 0x14, 0xc2, 0x28, 0xfb, 0x2c, 0x05,
     0x2b, 0x67, 0x9a, 0x76, 0x2a, 0xbe, 0x04, 0xc3, 0xaa, 0x44, 0x13, 0x26, 0x49, 0x86, 0x06, 0x99,
     0x9c, 0x42, 0x50, 0xf4, 0x91, 0xef, 0x98, 0x7a, 0x33, 0x54, 0x0b, 0x43, 0xed, 0xcf, 0xac, 0x62,
     0xe4, 0xb3, 0x1c, 0xa9, 0xc9, 0x08, 0xe8, 0x95, 0x80, 0xdf, 0x94, 0xfa, 0x75, 0x8f, 0x3f, 0xa6,
     0x47, 0x07, 0xa7, 0xfc, 0xf3, 0x73, 0x17, 0xba, 0x83, 0x59, 0x3c, 0x19, 0xe6, 0x85, 0x4f, 0xa8,
     0x68, 0x6b, 0x81, 0xb2, 0x71, 0x64, 0xda, 0x8b, 0xf8, 0xeb, 0x0f, 0x4b, 0x70, 0x56, 0x9d, 0x35,
     0x1e, 0x24, 0x0e, 0x5e, 0x63, 0x58, 0xd1, 0xa2, 0x25, 0x22, 0x7c, 0x3b, 0x01, 0x21, 0x78, 0x87,
     0xd4, 0x00, 0x46, 0x57, 0x9f, 0xd3, 0x27, 0x52, 0x4c, 0x36, 0x02, 0xe7, 0xa0, 0xc4, 0xc8, 0x9e,
     0xea, 0xbf, 0x8a, 0xd2, 0x40, 0xc7, 0x38, 0xb5, 0xa3, 0xf7, 0xf2, 0xce, 0xf9, 0x61, 0x15, 0xa1,
     0xe0, 0xae, 0x5d, 0xa4, 0x9b, 0x34, 0x1a, 0x55, 0xad, 0x93, 0x32, 0x30, 0xf5, 0x8c, 0xb1, 0xe3,
     0x1d, 0xf6, 0xe2, 0x2e, 0x82, 0x66, 0xca, 0x60, 0xc0, 0x29, 0x23, 0xab, 0x0d, 0x53, 0x4e, 0x6f,
     0xd5, 0xdb, 0x37, 0x45, 0xde, 0xfd, 0x8e, 0x2f, 0x03, 0xff, 0x6a, 0x72, 0x6d, 0x6c, 0x5b, 0x51,
     0x8d, 0x1b, 0xaf, 0x92, 0xbb, 0xdd, 0xbc, 0x7f, 0x11, 0xd9, 0x5c, 0x41, 0x1f, 0x10, 0x5a, 0xd8,
     0x0a, 0xc1, 0x31, 0x88, 0xa5, 0xcd, 0x7b, 0xbd, 0x2d, 0x74, 0xd0, 0x12, 0xb8, 0xe5, 0xb4, 0xb0,
     0x89, 0x69, 0x97, 0x4a, 0x0c, 0x96, 0x77, 0x7e, 0x65, 0xb9, 0xf1, 0x09, 0xc5, 0x6e, 0xc6, 0x84,
     0x18, 0xf0, 0x7d, 0xec, 0x3a, 0xdc, 0x4d, 0x20, 0x79, 0xee, 0x5f, 0x3e, 0xd7, 0xcb, 0x39, 0x48]"

definition FK :: "u32 list" where
  "FK = [0xa3b1bac6, 0x56aa3350, 0x677d9197, 0xb27022dc]"

definition CK :: "u32 list" where
  "CK =
    [0x00070e15, 0x1c232a31, 0x383f464d, 0x545b6269, 0x70777e85, 0x8c939aa1, 0xa8afb6bd, 0xc4cbd2d9,
     0xe0e7eef5, 0xfc030a11, 0x181f262d, 0x343b4249, 0x50575e65, 0x6c737a81, 0x888f969d, 0xa4abb2b9,
     0xc0c7ced5, 0xdce3eaf1, 0xf8ff060d, 0x141b2229, 0x30373e45, 0x4c535a61, 0x686f767d, 0x848b9299,
     0xa0a7aeb5, 0xbcc3cad1, 0xd8dfe6ed, 0xf4fb0209, 0x10171e25, 0x2c333a41, 0x484f565d, 0x646b7279]"

definition sm4_sub :: "u32 \<Rightarrow> u8" where
  "sm4_sub a = SM4_SBOX ! unat (a AND 0xFF)"

definition sm4_tau :: "u32 \<Rightarrow> u32" where
  "sm4_tau a = push_bit 24 (ucast (sm4_sub (drop_bit 24 a))) OR push_bit 16 (ucast (sm4_sub (drop_bit 16 a)))
     OR push_bit 8 (ucast (sm4_sub (drop_bit 8 a))) OR ucast (sm4_sub a)"

definition sm4_L :: "u32 \<Rightarrow> u32" where
  "sm4_L b = b XOR rol32 b 2 XOR rol32 b 10 XOR rol32 b 18 XOR rol32 b 24"

definition sm4_Lp :: "u32 \<Rightarrow> u32" where
  "sm4_Lp b = b XOR rol32 b 13 XOR rol32 b 23"

definition sm4_Tp :: "u32 \<Rightarrow> u32" where
  "sm4_Tp a = sm4_Lp (sm4_tau a)"

text \<open>\<open>Sm4TBox\<close>: the table of one byte position.\<close>

definition sm4_te :: "nat \<Rightarrow> u32 list" where
  "sm4_te sh = map (\<lambda>s. sm4_L (push_bit sh (ucast s))) SM4_SBOX"

definition sm4_TT :: "u32 \<Rightarrow> u32" where
  "sm4_TT a = sm4_te 24 ! unat (drop_bit 24 a AND 0xFF) XOR sm4_te 16 ! unat (drop_bit 16 a AND 0xFF)
     XOR sm4_te 8 ! unat (drop_bit 8 a AND 0xFF) XOR sm4_te 0 ! unat (a AND 0xFF)"

section \<open>Keys and blocks\<close>

record sm4_ctx =
  sm4_rk :: "u32 list"

definition load_be32_x4 :: "bytes \<Rightarrow> u32 \<times> u32 \<times> u32 \<times> u32" where
  "load_be32_x4 b = (load_be32 b 0, load_be32 b 4, load_be32 b 8, load_be32 b 12)"

fun store_be32_x4 :: "u32 \<times> u32 \<times> u32 \<times> u32 \<Rightarrow> bytes" where
  "store_be32_x4 (a, b, c, d) = store_be32 a @ store_be32 b @ store_be32 c @ store_be32 d"

definition sm4_init :: "bytes \<Rightarrow> sm4_ctx" where
  "sm4_init key =
     (let (m0, m1, m2, m3) = load_be32_x4 key;
          k = [m0 XOR FK ! 0, m1 XOR FK ! 1, m2 XOR FK ! 2, m3 XOR FK ! 3];
          k = foldl (\<lambda>k i. k @ [k ! i XOR sm4_Tp (k ! (i + 1) XOR k ! (i + 2) XOR k ! (i + 3) XOR CK ! i)]) k [0..<32]
      in \<lparr>sm4_rk = drop 4 k\<rparr>)"

fun sm4_round :: "u32 \<times> u32 \<times> u32 \<times> u32 \<Rightarrow> u32 \<Rightarrow> u32 \<times> u32 \<times> u32 \<times> u32" where
  "sm4_round (x0, x1, x2, x3) k = (x1, x2, x3, x0 XOR sm4_TT (x1 XOR x2 XOR x3 XOR k))"

fun reverse4 :: "u32 \<times> u32 \<times> u32 \<times> u32 \<Rightarrow> u32 \<times> u32 \<times> u32 \<times> u32" where
  "reverse4 (x0, x1, x2, x3) = (x3, x2, x1, x0)"

definition sm4_transform :: "u32 list \<Rightarrow> bytes \<Rightarrow> bytes" where
  "sm4_transform rk b =
     store_be32_x4 (reverse4 (foldl (\<lambda>x i. sm4_round x (rk ! i)) (load_be32_x4 b) [0..<32]))"

definition sm4_transform_decrypt :: "u32 list \<Rightarrow> bytes \<Rightarrow> bytes" where
  "sm4_transform_decrypt rk b =
     store_be32_x4 (reverse4 (foldl (\<lambda>x i. sm4_round x (rk ! (31 - i))) (load_be32_x4 b) [0..<32]))"

definition sm4_encrypt_block :: "sm4_ctx \<Rightarrow> bytes \<Rightarrow> bytes" where
  "sm4_encrypt_block ctx plain = sm4_transform (sm4_rk ctx) plain"

definition sm4_decrypt_block :: "sm4_ctx \<Rightarrow> bytes \<Rightarrow> bytes" where
  "sm4_decrypt_block ctx cipher = sm4_transform_decrypt (sm4_rk ctx) cipher"

section \<open>Modes\<close>

text \<open>Messages of a multiple of 16 bytes, as the callers give.\<close>

function sm4_ecb_encrypt :: "sm4_ctx \<Rightarrow> bytes \<Rightarrow> bytes" where
  "sm4_ecb_encrypt ctx plain =
     (if plain = [] then [] else sm4_encrypt_block ctx (take 16 plain) @ sm4_ecb_encrypt ctx (drop 16 plain))"
  by pat_completeness auto
termination by (relation "measure (length \<circ> snd)") auto

function sm4_ecb_decrypt :: "sm4_ctx \<Rightarrow> bytes \<Rightarrow> bytes" where
  "sm4_ecb_decrypt ctx cipher =
     (if cipher = [] then [] else sm4_decrypt_block ctx (take 16 cipher) @ sm4_ecb_decrypt ctx (drop 16 cipher))"
  by pat_completeness auto
termination by (relation "measure (length \<circ> snd)") auto

text \<open>
  The loop over the blocks from the one at the head of \<open>plain\<close>: the last is the one with fewer than 16 bytes left, which are
  padded. \<open>pad\<close> is computed once, from the whole length.
\<close>

function cbc_encrypt_loop :: "sm4_ctx \<Rightarrow> nat \<Rightarrow> bytes \<Rightarrow> bytes \<Rightarrow> bytes" where
  "cbc_encrypt_loop ctx pad prev plain =
     (let last = length plain < 16;
          block = (if last then plain @ replicate (16 - length plain) (word_of_nat pad) else take 16 plain);
          out = sm4_encrypt_block ctx (map2 (XOR) block prev)
      in if last then out else out @ cbc_encrypt_loop ctx pad out (drop 16 plain))"
  by pat_completeness auto
termination by (relation "measure (length \<circ> snd \<circ> snd \<circ> snd)") auto

definition sm4_cbc_encrypt :: "sm4_ctx \<Rightarrow> bytes \<Rightarrow> bytes \<Rightarrow> bytes" where
  "sm4_cbc_encrypt ctx iv plain = cbc_encrypt_loop ctx (16 - length plain mod 16) iv plain"

function cbc_decrypt_loop :: "sm4_ctx \<Rightarrow> bytes \<Rightarrow> bytes \<Rightarrow> bytes" where
  "cbc_decrypt_loop ctx prev cipher =
     (if cipher = [] then []
      else map2 (XOR) (sm4_decrypt_block ctx (take 16 cipher)) prev @ cbc_decrypt_loop ctx (take 16 cipher) (drop 16 cipher))"
  by pat_completeness auto
termination by (relation "measure (length \<circ> snd \<circ> snd)") auto

definition sm4_cbc_decrypt :: "sm4_ctx \<Rightarrow> bytes \<Rightarrow> bytes \<Rightarrow> bytes run" where
  "sm4_cbc_decrypt ctx iv cipher =
     (let n = length cipher
      in if n = 0 \<or> n mod 16 \<noteq> 0 then Throw
         else let plain = cbc_decrypt_loop ctx iv cipher; pad = unat (last plain)
           in if pad = 0 \<or> 16 < pad then Throw
              else if \<exists>b\<in>set (drop (n - pad) plain). b \<noteq> last plain then Throw
              else Ret (take (n - pad) plain))"

declare sm4_ecb_encrypt.simps [simp del] sm4_ecb_decrypt.simps [simp del]
declare cbc_encrypt_loop.simps [simp del] cbc_decrypt_loop.simps [simp del]


section \<open>The rounds\<close>

lemma length_SBOX [simp]: "length SM4_SBOX = 256"
  by (simp add: SM4_SBOX_def)

lemma unat_and_255: "unat (a AND 0xFF :: u32) < 256"
  using word_and_le1 [of a "0xFF"] by (simp add: word_le_nat_alt)

lemma rol32_xor: "rol32 (a XOR b) n = rol32 a n XOR rol32 b n" if "n < 32"
  by (rule bit_word_eqI) (use that in \<open>auto simp: rol32_def bit_simps\<close>)

lemma sm4_L_xor: "sm4_L (a XOR b) = sm4_L a XOR sm4_L b"
  by (simp add: sm4_L_def rol32_xor xor.assoc xor.commute xor.left_commute)

theorem sm4_TT_eq: "sm4_TT a = sm4_L (sm4_tau a)"
proof -
  have te: "sm4_te sh ! unat (x AND 0xFF) = sm4_L (push_bit sh (ucast (sm4_sub x)))" for sh x
    by (simp add: sm4_te_def sm4_sub_def unat_and_255)
  have t: "sm4_tau a = push_bit 24 (ucast (sm4_sub (drop_bit 24 a))) XOR push_bit 16 (ucast (sm4_sub (drop_bit 16 a)))
     XOR push_bit 8 (ucast (sm4_sub (drop_bit 8 a))) XOR push_bit 0 (ucast (sm4_sub a))"
    unfolding sm4_tau_def by (rule bit_word_eqI) (auto simp: bit_simps)
  show ?thesis unfolding t sm4_L_xor sm4_TT_def te ..
qed

lemma sm4_round_inverse: "sm4_round (reverse4 (sm4_round x k)) k = reverse4 x"
proof -
  obtain a b c d where x: "x = (a, b, c, d)" by (cases x) auto
  have "(a XOR t) XOR t = a" for a t :: u32 by (simp add: xor.assoc)
  then show ?thesis by (simp add: x xor.assoc xor.commute xor.left_commute)
qed

lemma sm4_rounds_inverse: "foldl sm4_round (reverse4 (foldl sm4_round x ks)) (rev ks) = reverse4 x"
  by (induction ks rule: rev_induct) (simp_all add: sm4_round_inverse)

lemma foldl_index: "foldl (\<lambda>x i. f x (g i)) a is = foldl f a (map g is)"
  by (induction "is" arbitrary: a) simp_all

lemma reverse4_twice [simp]: "reverse4 (reverse4 x) = x"
  by (cases x) simp

lemma rev_keys: "length rk = 32 \<Longrightarrow> map (\<lambda>i. rk ! (31 - i)) [0..<32] = rev (map (\<lambda>i. rk ! i) [0..<32])"
  by (rule nth_equalityI) (simp_all add: rev_nth)

lemma load_store_be32_x4: "load_be32_x4 (store_be32_x4 x) = x"
proof -
  have w: "push_bit 24 (ucast (ucast (drop_bit 24 v) :: u8)) OR push_bit 16 (ucast (ucast (drop_bit 16 v) :: u8))
     OR push_bit 8 (ucast (ucast (drop_bit 8 v) :: u8)) OR ucast (ucast v :: u8) = v" for v :: u32
  proof (rule bit_word_eqI)
    fix n
    assume "n < LENGTH(32)"
    then show "bit (push_bit 24 (ucast (ucast (drop_bit 24 v) :: u8)) OR push_bit 16 (ucast (ucast (drop_bit 16 v) :: u8))
       OR push_bit 8 (ucast (ucast (drop_bit 8 v) :: u8)) OR ucast (ucast v :: u8) :: u32) n = bit v n"
      by (cases "24 \<le> n"; cases "16 \<le> n"; cases "8 \<le> n") (auto simp: bit_simps)
  qed
  show ?thesis by (cases x) (simp add: load_be32_x4_def load_be32_def store_be32_def w)
qed


lemma store_load_be32_x4: "length b = 16 \<Longrightarrow> store_be32_x4 (load_be32_x4 b) = b"
proof -
  assume "length b = 16"
  then have b: "b = [b!0, b!1, b!2, b!3, b!4, b!5, b!6, b!7, b!8, b!9, b!10, b!11, b!12, b!13, b!14, b!15]"
    using map_nth [of b] by (simp add: upt_rec numeral_eq_Suc)
  have w: "store_be32 (push_bit 24 (ucast x) OR push_bit 16 (ucast y) OR push_bit 8 (ucast z) OR ucast w) = [x, y, z, w]" for x y z w :: u8
    unfolding store_be32_def by (intro list.inject [THEN iffD2] conjI refl; rule u8_eqI; simp add: bit_simps)
  have "store_be32_x4 (load_be32_x4 b) = [b!0, b!1, b!2, b!3, b!4, b!5, b!6, b!7, b!8, b!9, b!10, b!11, b!12, b!13, b!14, b!15]"
    unfolding load_be32_x4_def load_be32_def store_be32_x4.simps w by (simp add: numeral_2_eq_2)
  then show ?thesis using b by simp
qed

lemma length_transform [simp]:
  "length (store_be32_x4 x) = 16" "length (sm4_encrypt_block ctx b) = 16" "length (sm4_decrypt_block ctx b) = 16"
proof -
  show l: "length (store_be32_x4 x) = 16" for x by (cases x) simp
  show "length (sm4_encrypt_block ctx b) = 16" "length (sm4_decrypt_block ctx b) = 16"
    by (simp_all add: sm4_encrypt_block_def sm4_transform_def sm4_decrypt_block_def sm4_transform_decrypt_def l)
qed

lemma sm4_decrypt_encrypt:
  assumes "length (sm4_rk ctx) = 32" "length b = 16"
  shows "sm4_decrypt_block ctx (sm4_encrypt_block ctx b) = b" and "sm4_encrypt_block ctx (sm4_decrypt_block ctx b) = b"
proof -
  define ks where "ks = map (\<lambda>i. sm4_rk ctx ! i) [0..<32]"
  have e: "sm4_encrypt_block ctx c = store_be32_x4 (reverse4 (foldl sm4_round (load_be32_x4 c) ks))"
    and d: "sm4_decrypt_block ctx c = store_be32_x4 (reverse4 (foldl sm4_round (load_be32_x4 c) (rev ks)))" for c
    using foldl_index [of sm4_round "\<lambda>i. sm4_rk ctx ! i"] foldl_index [of sm4_round "\<lambda>i. sm4_rk ctx ! (31 - i)"] rev_keys [OF assms(1)]
    by (simp_all add: sm4_encrypt_block_def sm4_transform_def sm4_decrypt_block_def sm4_transform_decrypt_def ks_def)
  show "sm4_decrypt_block ctx (sm4_encrypt_block ctx b) = b"
    by (simp add: d load_store_be32_x4 e sm4_rounds_inverse store_load_be32_x4 assms(2))
  show "sm4_encrypt_block ctx (sm4_decrypt_block ctx b) = b"
    using sm4_rounds_inverse [of "load_be32_x4 b" "rev ks"]
    by (simp add: d load_store_be32_x4 e store_load_be32_x4 assms(2))
qed

lemma length_sm4_init [simp]: "length (sm4_rk (sm4_init key)) = 32"
proof -
  have "length (foldl (\<lambda>k i. k @ [f k i]) k is) = length k + length is" for f :: "u32 list \<Rightarrow> nat \<Rightarrow> u32" and k "is"
    by (induction "is" arbitrary: k) simp_all
  then show ?thesis by (simp add: sm4_init_def load_be32_x4_def Let_def)
qed


section \<open>CBC\<close>

text \<open>CBC over a padded message.\<close>

function cbc_blocks :: "sm4_ctx \<Rightarrow> bytes \<Rightarrow> bytes \<Rightarrow> bytes" where
  "cbc_blocks ctx prev m =
     (if m = [] then []
      else let out = sm4_encrypt_block ctx (map2 (XOR) (take 16 m) prev) in out @ cbc_blocks ctx out (drop 16 m))"
  by pat_completeness auto
termination by (relation "measure (length \<circ> snd \<circ> snd)") auto

declare cbc_blocks.simps [simp del]

definition pkcs7 :: "bytes \<Rightarrow> bytes" where
  "pkcs7 m = m @ replicate (16 - length m mod 16) (word_of_nat (16 - length m mod 16))"

lemma dvd_length_pkcs7: "16 dvd length (pkcs7 m)"
proof -
  have "16 * q + r = n \<Longrightarrow> r < 16 \<Longrightarrow> n + (16 - r) = 16 * (q + 1)" for q r n :: nat by simp
  from this [OF mult_div_mod_eq mod_less_divisor]
  have "length m + (16 - length m mod 16) = 16 * (length m div 16 + 1)" by simp
  then show ?thesis by (simp only: pkcs7_def length_append length_replicate dvd_triv_left)
qed

lemma cbc_encrypt_padded:
  "cbc_encrypt_loop ctx pad prev m = cbc_blocks ctx prev (m @ replicate (16 - length m mod 16) (word_of_nat pad))"
proof (induction ctx pad prev m rule: cbc_encrypt_loop.induct)
  case (1 ctx pad prev m)
  show ?case
  proof (cases "length m < 16")
    case True
    then show ?thesis by (subst cbc_encrypt_loop.simps, subst cbc_blocks.simps) (simp add: cbc_blocks.simps Let_def)
  next
    case False
    then have "length (drop 16 m) mod 16 = length m mod 16" by (simp add: le_mod_geq)
    with 1 [OF refl refl refl] False show ?thesis
      by (subst cbc_encrypt_loop.simps, subst cbc_blocks.simps) (auto simp: Let_def)
  qed
qed

lemma map2_xor_twice: "length a = length b \<Longrightarrow> map2 (XOR) (map2 (XOR) a b) b = (a :: bytes)"
  by (rule nth_equalityI) (simp_all add: xor.assoc)

lemma cbc_decrypt_blocks:
  assumes "length (sm4_rk ctx) = 32" "length prev = 16" "16 dvd length m"
  shows "cbc_decrypt_loop ctx prev (cbc_blocks ctx prev m) = m"
  using assms
proof (induction ctx prev m rule: cbc_blocks.induct)
  case (1 ctx prev m)
  show ?case
  proof (cases "m = []")
    case True
    then show ?thesis by (simp add: cbc_blocks.simps cbc_decrypt_loop.simps)
  next
    case False
    then have l: "16 \<le> length m" using 1(4) by (simp add: dvd_imp_le)
    define out where "out = sm4_encrypt_block ctx (map2 (XOR) (take 16 m) prev)"
    have "cbc_blocks ctx prev m = out @ cbc_blocks ctx out (drop 16 m)"
      using False by (subst cbc_blocks.simps) (simp add: out_def Let_def)
    moreover have "cbc_decrypt_loop ctx out (cbc_blocks ctx out (drop 16 m)) = drop 16 m"
      unfolding out_def by (rule 1(1)) (use False l 1 in \<open>auto simp: dvd_diff_nat\<close>)
    moreover have "length out = 16" by (simp add: out_def)
    moreover from this have "out \<noteq> []" by auto
    ultimately show ?thesis
      using 1(2,3) l by (subst cbc_decrypt_loop.simps) (simp add: out_def sm4_decrypt_encrypt map2_xor_twice)
  qed
qed

lemma cbc_blocks_decrypt:
  assumes "length (sm4_rk ctx) = 32" "length prev = 16" "16 dvd length c"
  shows "cbc_blocks ctx prev (cbc_decrypt_loop ctx prev c) = c \<and> length (cbc_decrypt_loop ctx prev c) = length c"
  using assms
proof (induction ctx prev c rule: cbc_decrypt_loop.induct)
  case (1 ctx prev c)
  show ?case
  proof (cases "c = []")
    case True
    then show ?thesis by (simp add: cbc_blocks.simps cbc_decrypt_loop.simps)
  next
    case False
    then have l: "16 \<le> length c" using 1(4) by (simp add: dvd_imp_le)
    have d: "16 dvd length (drop 16 c)" using 1(4) by (simp add: dvd_diff_nat)
    define p where "p = map2 (XOR) (sm4_decrypt_block ctx (take 16 c)) prev"
    have p: "length p = 16" "map2 (XOR) p prev = sm4_decrypt_block ctx (take 16 c)"
      using 1(3) by (simp_all add: p_def map2_xor_twice)
    then have ne: "p \<noteq> []" by auto
    have s: "cbc_decrypt_loop ctx prev c = p @ cbc_decrypt_loop ctx (take 16 c) (drop 16 c)"
      using False by (subst cbc_decrypt_loop.simps) (simp add: p_def)
    have i: "cbc_blocks ctx (take 16 c) (cbc_decrypt_loop ctx (take 16 c) (drop 16 c)) = drop 16 c
      \<and> length (cbc_decrypt_loop ctx (take 16 c) (drop 16 c)) = length (drop 16 c)"
      by (rule 1(1)) (use False 1(2) l d in simp_all)
    show ?thesis using p ne i l 1(2) unfolding s by (subst cbc_blocks.simps) (simp add: sm4_decrypt_encrypt Let_def)
  qed
qed

lemma length_cbc_blocks: "16 dvd length m \<Longrightarrow> length (cbc_blocks ctx prev m) = length m"
proof (induction ctx prev m rule: cbc_blocks.induct)
  case (1 ctx prev m)
  show ?case
  proof (cases "m = []")
    case False
    then have "16 \<le> length m" using 1(2) by (simp add: dvd_imp_le)
    then show ?thesis using 1 False by (subst cbc_blocks.simps) (simp add: Let_def dvd_diff_nat)
  qed (simp add: cbc_blocks.simps)
qed

lemma sm4_cbc_encrypt_eq: "sm4_cbc_encrypt ctx iv m = cbc_blocks ctx iv (pkcs7 m)"
  by (simp add: sm4_cbc_encrypt_def cbc_encrypt_padded pkcs7_def)

text \<open>What the padding check accepts is a padded message.\<close>

lemma unpad_iff:
  assumes "16 dvd length m" "m \<noteq> []"
  defines "pad \<equiv> unat (last m)"
  shows "(pad \<noteq> 0 \<and> pad \<le> 16 \<and> (\<forall>b\<in>set (drop (length m - pad) m). b = last m) \<and> p = take (length m - pad) m) \<longleftrightarrow> m = pkcs7 p"
proof
  assume *: "pad \<noteq> 0 \<and> pad \<le> 16 \<and> (\<forall>b\<in>set (drop (length m - pad) m). b = last m) \<and> p = take (length m - pad) m"
  have l: "16 \<le> length m" using assms(1,2) by (simp add: dvd_imp_le)
  then have "length p + pad = length m" using * by auto
  with assms(1) have s: "(length p mod 16 + pad) mod 16 = 0" by (simp add: mod_simps)
  have fill: "16 - a = pad" if "(a + pad) mod 16 = 0" "a < 16" for a
  proof -
    have "a + pad < 32" "0 < a + pad" using that(2) * by linarith+
    then have "a + pad = 16" using that(1) by presburger
    then show ?thesis by simp
  qed
  have pad: "16 - length p mod 16 = pad" by (rule fill [OF s]) simp
  have d: "drop (length m - pad) m = replicate pad (last m)"
    using * l by (intro replicate_eqI) auto
  have w: "word_of_nat pad = last m" by (simp add: pad_def)
  have pd: "p = take (length m - pad) m" using * by simp
  have "pkcs7 p = p @ replicate pad (word_of_nat pad)" by (simp only: pkcs7_def pad)
  also have "\<dots> = take (length m - pad) m @ drop (length m - pad) m" by (simp only: d w pd)
  finally show "m = pkcs7 p" by simp
next
  assume m: "m = pkcs7 p"
  define k where "k = 16 - length p mod 16"
  have r: "0 < k" "k \<le> 16" by (simp_all add: k_def)
  have m: "m = p @ replicate k (word_of_nat k)" by (simp only: m pkcs7_def k_def)
  have "last m = word_of_nat k" using r by (simp add: m)
  moreover from this r have "pad = k" by (simp add: pad_def)
  ultimately show "pad \<noteq> 0 \<and> pad \<le> 16 \<and> (\<forall>b\<in>set (drop (length m - pad) m). b = last m) \<and> p = take (length m - pad) m"
    using r by (simp add: m)
qed

lemma sm4_cbc_iff:
  assumes "length (sm4_rk ctx) = 32" "length iv = 16"
  shows "sm4_cbc_decrypt ctx iv c = Ret p \<longleftrightarrow> c = sm4_cbc_encrypt ctx iv p"
proof
  assume d: "sm4_cbc_decrypt ctx iv c = Ret p"
  then have c: "16 dvd length c" "c \<noteq> []" by (auto simp: sm4_cbc_decrypt_def Let_def split: if_splits)
  define m where "m = cbc_decrypt_loop ctx iv c"
  have m: "cbc_blocks ctx iv m = c" "length m = length c" using cbc_blocks_decrypt [OF assms c(1)] by (simp_all add: m_def)
  have "m = pkcs7 p"
    using d c m(2) by (subst unpad_iff [symmetric]) (auto simp: sm4_cbc_decrypt_def Let_def m_def split: if_splits)
  then show "c = sm4_cbc_encrypt ctx iv p" using m(1) by (simp add: sm4_cbc_encrypt_eq)
next
  assume c: "c = sm4_cbc_encrypt ctx iv p"
  have d: "cbc_decrypt_loop ctx iv c = pkcs7 p"
    by (simp add: c sm4_cbc_encrypt_eq cbc_decrypt_blocks assms dvd_length_pkcs7)
  have l: "length c = length (pkcs7 p)" by (simp add: c sm4_cbc_encrypt_eq length_cbc_blocks dvd_length_pkcs7)
  have ne: "pkcs7 p \<noteq> []" by (simp add: pkcs7_def)
  have "16 dvd length (pkcs7 p)" by (rule dvd_length_pkcs7)
  then show "sm4_cbc_decrypt ctx iv c = Ret p"
    using unpad_iff [of "pkcs7 p" p] ne by (auto simp: sm4_cbc_decrypt_def Let_def d l)
qed

section \<open>Properties\<close>

text \<open>
  C19. CBC decryption under SM4 is the exact inverse of encryption: for every key and initial vector, decryption returns a message
  exactly when the ciphertext is that message's encryption, of whatever length, and throws for every other input: an empty one, one
  whose length is no multiple of 16, one whose last bytes are no padding.
\<close>

theorem sm4_cbc_decrypt_iff:
  assumes "length iv = 16"
  shows "sm4_cbc_decrypt (sm4_init key) iv c = Ret p \<longleftrightarrow> c = sm4_cbc_encrypt (sm4_init key) iv p"
  by (rule sm4_cbc_iff [OF length_sm4_init assms])

theorem sm4_cbc_decrypt_iff_witness:
  "sm4_cbc_decrypt (sm4_init (replicate 16 1)) (replicate 16 2) (sm4_cbc_encrypt (sm4_init (replicate 16 1)) (replicate 16 2) [1, 2, 3])
     = Ret [1, 2, 3]"
  using sm4_cbc_decrypt_iff [of "replicate 16 2"] by simp

text \<open>
  The four tables compute the round transformation of GM/T 0002: the S-box on each byte, then the linear map; and with a key
  schedule of any key, decrypting a block inverts encrypting it, and the other way round.
\<close>

theorem sm4_block_correct:
  assumes "length b = 16"
  shows "sm4_TT a = sm4_L (sm4_tau a)
    \<and> sm4_decrypt_block (sm4_init key) (sm4_encrypt_block (sm4_init key) b) = b
    \<and> sm4_encrypt_block (sm4_init key) (sm4_decrypt_block (sm4_init key) b) = b"
  by (simp add: sm4_TT_eq sm4_decrypt_encrypt assms)

theorem sm4_block_correct_witness:
  "sm4_decrypt_block (sm4_init (replicate 16 1)) (sm4_encrypt_block (sm4_init (replicate 16 1)) (replicate 16 9)) = replicate 16 9"
  using sm4_block_correct [of "replicate 16 9"] by simp

end
