(* ===== verification/Ctr.thy ===== *)
theory Ctr
  imports Prelude
begin

text \<open>
  Counter mode, as \<open>src/src/sm4_ccm.cpp\<close> and \<open>src/src/sm4_gcm.cpp\<close> write it: the big-endian increment with its early exit, on the
  whole block or on a field of it, and the loop over the message, for any block cipher \<open>E\<close>. The lemmas give the value of an
  incremented counter and the closed form of the key stream.
\<close>

text \<open>\<open>for (i = lo + k - 1; i >= lo; --i) if (++c[i] != 0) break;\<close>\<close>

fun ctr_inc :: "nat \<Rightarrow> nat \<Rightarrow> bytes \<Rightarrow> bytes" where
  "ctr_inc lo 0 c = c"
| "ctr_inc lo (Suc k) c =
     (let c' = c[lo + k := c ! (lo + k) + 1] in if c' ! (lo + k) \<noteq> 0 then c' else ctr_inc lo k c')"

function ctr_crypt :: "(bytes \<Rightarrow> bytes) \<Rightarrow> bytes \<Rightarrow> bytes \<Rightarrow> bytes" where
  "ctr_crypt E counter input =
     (if input = [] then []
      else map2 (XOR) (take 16 input) (E counter) @ ctr_crypt E (ctr_inc 0 16 counter) (drop 16 input))"
  by pat_completeness auto
termination by (relation "measure (length \<circ> snd \<circ> snd)") auto

declare ctr_crypt.simps [simp del]

lemma length_ctr_inc [simp]: "length (ctr_inc lo k c) = length c"
  by (induction k arbitrary: c) (simp_all add: Let_def)

lemma ctr_inc_bytes:
  assumes "length pre = lo"
  shows "ctr_inc lo k (pre @ be_bytes k x @ post) = pre @ be_bytes k (x + 1) @ post"
proof (induction k arbitrary: x post)
  case (Suc k)
  have i: "(pre @ be_bytes (Suc k) x @ post) ! (lo + k) = word_of_nat x"
    "(pre @ be_bytes (Suc k) x @ post)[lo + k := v] = pre @ be_bytes k (x div 256) @ v # post" for v
    using assms by (simp_all add: nth_append list_update_append)
  have w: "(word_of_nat x :: u8) + 1 = word_of_nat (x + 1)" by simp
  show ?case
  proof (cases "(word_of_nat (x + 1) :: u8) = 0")
    case True
    then have m: "(x + 1) mod 256 = 0" by (metis unat_0 unat_u8_of_nat)
    then have d: "(x + 1) div 256 = x div 256 + 1" using div_Suc [of x 256] by simp
    have "ctr_inc lo (Suc k) (pre @ be_bytes (Suc k) x @ post) = ctr_inc lo k (pre @ be_bytes k (x div 256) @ (0 # post))"
      using True assms unfolding ctr_inc.simps Let_def i w by (simp add: nth_append)
    then show ?thesis using Suc [of "x div 256" "0 # post"] True d by simp
  next
    case False
    then have "(x + 1) mod 256 \<noteq> 0" by (metis unat_u8_of_nat unat_eq_zero)
    then have d: "(x + 1) div 256 = x div 256" using div_Suc [of x 256] by simp
    have "ctr_inc lo (Suc k) (pre @ be_bytes (Suc k) x @ post) = pre @ be_bytes k (x div 256) @ word_of_nat (x + 1) # post"
      using False assms unfolding ctr_inc.simps Let_def i w by (simp add: nth_append)
    then show ?thesis using d by simp
  qed
qed simp

lemma ctr_inc_block: "length c = 16 \<Longrightarrow> ctr_inc 0 16 c = be_bytes 16 (be_val c + 1)"
  using ctr_inc_bytes [of "[]" 0 16 "be_val c" "[]"] be_bytes_be_val [of c] by simp

lemma ctr_crypt_Nil [simp]: "ctr_crypt E c [] = []"
  by (simp add: ctr_crypt.simps)

lemma length_ctr_crypt [simp]: "(\<And>c. length (E c) = 16) \<Longrightarrow> length (ctr_crypt E c m) = length m"
proof (induction E c m rule: ctr_crypt.induct)
  case (1 E c m)
  then show ?case by (cases "m = []") (simp_all add: ctr_crypt.simps [of E c m] min_def)
qed

text \<open>The key stream: the counters from \<open>c\<close> on, encrypted.\<close>

primrec ctr_stream :: "(bytes \<Rightarrow> bytes) \<Rightarrow> bytes \<Rightarrow> nat \<Rightarrow> bytes" where
  "ctr_stream E c 0 = []"
| "ctr_stream E c (Suc n) = E c @ ctr_stream E (ctr_inc 0 16 c) n"

lemma ctr_crypt_stream:
  assumes "\<And>c. length (E c) = 16" "length m \<le> 16 * n"
  shows "ctr_crypt E c m = map2 (XOR) m (ctr_stream E c n)"
  using assms(2)
proof (induction n arbitrary: c m)
  case (Suc n)
  show ?case
  proof (cases "m = []")
    case False
    have "ctr_crypt E c m = map2 (XOR) (take 16 m) (E c) @ map2 (XOR) (drop 16 m) (ctr_stream E (ctr_inc 0 16 c) n)"
      using False Suc by (subst ctr_crypt.simps) simp
    moreover have "zip m (E c @ s) = zip (take 16 m) (E c) @ zip (drop 16 m) s" for s :: bytes
      using zip_append2 [of m "E c" s] assms(1) by simp
    ultimately show ?thesis by simp
  qed simp
qed simp

lemma length_ctr_stream: "(\<And>c. length (E c) = 16) \<Longrightarrow> length (ctr_stream E c n) = 16 * n"
  by (induction n arbitrary: c) simp_all

lemma map2_xor_cancel: "length a \<le> length b \<Longrightarrow> map2 (XOR) (map2 (XOR) a b) b = (a :: bytes)"
  by (rule nth_equalityI) (simp_all add: xor.assoc)

lemma ctr_crypt_twice:
  assumes "\<And>c. length (E c) = 16"
  shows "ctr_crypt E c (ctr_crypt E c m) = m"
proof -
  have "length m \<le> 16 * length m" by simp
  then show ?thesis
    using ctr_crypt_stream [where E = E and c = c and m = m and n = "length m"]
      ctr_crypt_stream [where E = E and c = c and m = "ctr_crypt E c m" and n = "length m"]
      length_ctr_stream [where E = E and c = c and n = "length m"] by (simp add: assms map2_xor_cancel)
qed

text \<open>While no counter wraps, the stream is that of the numbers from the first counter's on.\<close>

lemma ctr_stream_numbers:
  "ctr_stream E (be_bytes 16 x) n = concat (map (\<lambda>i. E (be_bytes 16 (x + i))) [0..<n])"
proof (induction n arbitrary: x)
  case (Suc n)
  have "ctr_inc 0 16 (be_bytes 16 x) = be_bytes 16 (x + 1)" using ctr_inc_bytes [of "[]" 0 16 x "[]"] by simp
  then show ?case using Suc [of "x + 1"] by (simp add: upt_conv_Cons comp_def del: upt_Suc flip: map_Suc_upt)
qed simp
lemma be_bytes_append: "be_bytes (a + b) x = be_bytes a (x div 256 ^ b) @ be_bytes b x"
  by (induction b arbitrary: x) (simp_all add: div_mult2_eq)

lemma be_bytes_less: "x < 256 ^ b \<Longrightarrow> be_bytes (a + b) (v * 256 ^ b + x) = be_bytes a v @ be_bytes b x"
  unfolding be_bytes_append
  by (metis (no_types) add.commute be_bytes_be_val be_val_be_bytes div_less div_mult_self1 length_be_bytes mod_less mod_mult_self1
      mult.commute power_not_zero zero_neq_numeral add_0)

text \<open>So are they in a field of the block that does not wrap.\<close>

lemma ctr_stream_field:
  assumes "length pre + q = 16" "x + N \<le> 256 ^ q"
  shows "ctr_stream E (pre @ be_bytes q x) N = concat (map (\<lambda>i. E (pre @ be_bytes q i)) [x..<x + N])"
proof (cases "N = 0")
  case False
  define v where "v = be_val pre"
  have b: "be_bytes 16 (v * 256 ^ q + y) = pre @ be_bytes q y" if "y < 256 ^ q" for y
    using be_bytes_less [OF that, of "length pre" v] be_bytes_be_val [of pre] by (simp add: assms(1) v_def)
  have "pre @ be_bytes q x = be_bytes 16 (v * 256 ^ q + x)" using b [of x] assms(2) False by simp
  then have "ctr_stream E (pre @ be_bytes q x) N = concat (map (\<lambda>i. E (be_bytes 16 (v * 256 ^ q + x + i))) [0..<N])"
    by (simp only: ctr_stream_numbers)
  also have "map (\<lambda>i. E (be_bytes 16 (v * 256 ^ q + x + i))) [0..<N] = map (\<lambda>i. E (pre @ be_bytes q (i + x))) [0..<N]"
    using assms(2) by (intro map_cong refl) (subst b [symmetric]; simp add: add.assoc add.commute [of x])
  also have "\<dots> = map (\<lambda>i. E (pre @ be_bytes q i)) [x..<x + N]"
    using map_add_upt [of x N] by (simp add: comp_def add.commute flip: map_map [of "\<lambda>i. E (pre @ be_bytes q i)" "\<lambda>i. i + x", unfolded comp_def])
  finally show ?thesis .
qed simp

end
