(* ===== verification/Sm4Ccm.thy ===== *)
theory Sm4Ccm
  imports Sm4 Ctr
begin

text \<open>
  SM4-CCM, \<open>src/src/sm4_ccm.cpp\<close>: the formatted first block, CBC-MAC over a padded buffer and as a stream, counter mode, the public
  functions and the ones on the record layer's buffer. The theorems: the two routes agree, tags of 16 bytes are those of NIST SP
  800-38C, shorter ones are not, and decryption accepts exactly what encryption makes.
\<close>

section \<open>The functions\<close>

function cbc_mac_loop :: "sm4_ctx \<Rightarrow> bytes \<Rightarrow> bytes \<Rightarrow> bytes" where
  "cbc_mac_loop ctx mac data =
     (if 16 \<le> length data then cbc_mac_loop ctx (sm4_encrypt_block ctx (map2 (XOR) mac (take 16 data))) (drop 16 data)
      else if data \<noteq> [] then sm4_encrypt_block ctx (map2 (XOR) (take (length data) mac) data @ drop (length data) mac)
      else mac)"
  by pat_completeness auto
termination by (relation "measure (length \<circ> snd \<circ> snd)") auto

definition sm4_cbc_mac :: "sm4_ctx \<Rightarrow> bytes \<Rightarrow> bytes" where
  "sm4_cbc_mac ctx data = cbc_mac_loop ctx (replicate 16 0) data"

definition sm4_ctr_crypt :: "sm4_ctx \<Rightarrow> bytes \<Rightarrow> bytes \<Rightarrow> bytes" where
  "sm4_ctr_crypt ctx ctr_block input = ctr_crypt (sm4_encrypt_block ctx) ctr_block input"

text \<open>The nonce has at most 15 bytes, so all 16 bytes of the block are written. The length is stored modulo \<open>256 ^ (15 - n)\<close>.\<close>

definition sm4_ccm_format_b0 :: "bool \<Rightarrow> nat \<Rightarrow> nat \<Rightarrow> bytes \<Rightarrow> bytes" where
  "sm4_ccm_format_b0 has_aad m_len l_val nonce =
     (let L = word_of_nat l_val - 1; M_enc = (16 - 2) div 2
      in ((if has_aad then 0x40 else 0) OR push_bit 3 (M_enc AND 7) OR (L AND 7)) # nonce @ be_bytes (15 - length nonce) m_len)"

definition sm4_ccm_format_aad_len :: "nat \<Rightarrow> bytes" where
  "sm4_ccm_format_aad_len aad_len =
     (if aad_len = 0 then [] else if aad_len < 65280 then be_bytes 2 aad_len else 0xFF # 0xFE # be_bytes 4 aad_len)"

definition sm4_ccm_ctr_inc :: "bytes \<Rightarrow> nat \<Rightarrow> bytes" where
  "sm4_ccm_ctr_inc ctr nonce_len = ctr_inc (nonce_len + 1) (15 - nonce_len) ctr"

record sm4_mac_stream =
  ms_mac :: bytes
  ms_buf :: bytes
  ms_n :: nat

definition ms_init :: sm4_mac_stream where
  "ms_init = \<lparr>ms_mac = replicate 16 0, ms_buf = replicate 16 0, ms_n = 0\<rparr>"

text \<open>The buffer is never full between calls, so a round of the loop takes at least one byte.\<close>

function ms_feed :: "sm4_ctx \<Rightarrow> sm4_mac_stream \<Rightarrow> bytes \<Rightarrow> sm4_mac_stream" where
  "ms_feed ctx s p =
     (if p = [] \<or> 16 \<le> ms_n s then s
      else let k = min (length p) (16 - ms_n s);
               s = s\<lparr>ms_buf := memcpy_at (ms_buf s) (ms_n s) (take k p), ms_n := ms_n s + k\<rparr>
           in ms_feed ctx
                (if ms_n s = 16 then s\<lparr>ms_mac := sm4_encrypt_block ctx (map2 (XOR) (ms_mac s) (ms_buf s)), ms_n := 0\<rparr> else s)
                (drop k p))"
  by pat_completeness auto
termination by (relation "measure (length \<circ> snd \<circ> snd)") auto

definition ms_finish :: "sm4_ctx \<Rightarrow> sm4_mac_stream \<Rightarrow> sm4_mac_stream" where
  "ms_finish ctx s =
     (if ms_n s \<noteq> 0
      then s\<lparr>ms_mac := sm4_encrypt_block ctx (map2 (XOR) (take (ms_n s) (ms_mac s)) (take (ms_n s) (ms_buf s)) @ drop (ms_n s) (ms_mac s)),
             ms_n := 0\<rparr>
      else s)"

text \<open>The part the two routes on a buffer share: \<open>B0\<close>, the associated data and the message through the stream.\<close>

definition ms_message :: "sm4_ctx \<Rightarrow> bytes \<Rightarrow> bytes \<Rightarrow> bytes \<Rightarrow> sm4_mac_stream" where
  "ms_message ctx b0 aad pt =
     (let ms = ms_feed ctx ms_init b0;
          ms = (if aad \<noteq> [] then ms_feed ctx (ms_feed ctx ms (sm4_ccm_format_aad_len (length aad))) aad else ms);
          ms = ms_finish ctx ms
      in ms_finish ctx (ms_feed ctx ms pt))"

definition ccm_ctr0 :: "bytes \<Rightarrow> bytes" where
  "ccm_ctr0 nonce = (let c = sm4_ccm_format_b0 False 0 (15 - length nonce) nonce in c[0 := c ! 0 AND 7])"

definition sm4_ccm_encrypt_impl :: "sm4_ctx \<Rightarrow> bytes \<Rightarrow> bytes \<Rightarrow> bytes \<Rightarrow> nat \<Rightarrow> bytes \<times> bytes" where
  "sm4_ccm_encrypt_impl ctx nonce pt aad tag_len =
     (let b0 = sm4_ccm_format_b0 (aad \<noteq> []) (length pt) (15 - length nonce) nonce;
          ctr0 = ccm_ctr0 nonce;
          ms = ms_message ctx b0 aad pt;
          enc_mac = sm4_encrypt_block ctx ctr0;
          tag = map (\<lambda>i. ms_mac ms ! i XOR enc_mac ! i) [0..<tag_len]
      in (sm4_ctr_crypt ctx (sm4_ccm_ctr_inc ctr0 (length nonce)) pt, tag))"

text \<open>The verdict and what is then in the buffer: the decryption, whatever the verdict.\<close>

definition sm4_ccm_decrypt_impl :: "sm4_ctx \<Rightarrow> bytes \<Rightarrow> bytes \<Rightarrow> bytes \<Rightarrow> bytes \<Rightarrow> bool \<times> bytes" where
  "sm4_ccm_decrypt_impl ctx nonce ct aad tag =
     (let b0 = sm4_ccm_format_b0 (aad \<noteq> []) (length ct) (15 - length nonce) nonce;
          ctr0 = ccm_ctr0 nonce;
          out = sm4_ctr_crypt ctx (sm4_ccm_ctr_inc ctr0 (length nonce)) ct;
          ms = ms_message ctx b0 aad out;
          enc_mac = sm4_encrypt_block ctx ctr0;
          diff = foldl (\<lambda>d i. d OR (tag ! i XOR (ms_mac ms ! i XOR enc_mac ! i))) 0 [0..<length tag]
      in (diff = 0, out))"

definition sm4_ccm_encrypt_inplace :: "sm4_ctx \<Rightarrow> bytes \<Rightarrow> bytes \<Rightarrow> bytes \<Rightarrow> nat \<Rightarrow> bytes \<times> bytes" where
  "sm4_ccm_encrypt_inplace ctx nonce buf aad tag_len = sm4_ccm_encrypt_impl ctx nonce buf aad tag_len"

definition sm4_ccm_decrypt_inplace :: "sm4_ctx \<Rightarrow> bytes \<Rightarrow> bytes \<Rightarrow> bytes \<Rightarrow> bytes \<Rightarrow> bool \<times> bytes" where
  "sm4_ccm_decrypt_inplace ctx nonce buf aad tag = sm4_ccm_decrypt_impl ctx nonce buf aad tag"

definition pad_block :: "bytes \<Rightarrow> bytes" where
  "pad_block m = m @ replicate ((16 - length m mod 16) mod 16) 0"

definition ccm_mac_input :: "bytes \<Rightarrow> bytes \<Rightarrow> bytes \<Rightarrow> bytes" where
  "ccm_mac_input b0 aad plaintext =
     (let m = b0; m = (if aad \<noteq> [] then m @ sm4_ccm_format_aad_len (length aad) @ aad else m); m = pad_block m
      in pad_block (m @ plaintext))"

definition sm4_ccm_encrypt :: "sm4_ctx \<Rightarrow> bytes \<Rightarrow> bytes \<Rightarrow> bytes \<Rightarrow> nat \<Rightarrow> bytes \<times> bytes" where
  "sm4_ccm_encrypt ctx nonce plaintext aad tag_len =
     (let b0 = sm4_ccm_format_b0 (aad \<noteq> []) (length plaintext) (15 - length nonce) nonce;
          mac = sm4_cbc_mac ctx (ccm_mac_input b0 aad plaintext);
          ctr0 = ccm_ctr0 nonce;
          enc_mac = sm4_encrypt_block ctx ctr0;
          tag = map (\<lambda>i. mac ! i XOR enc_mac ! i) [0..<tag_len]
      in (sm4_ctr_crypt ctx (sm4_ccm_ctr_inc ctr0 (length nonce)) plaintext, tag))"

definition sm4_ccm_decrypt :: "sm4_ctx \<Rightarrow> bytes \<Rightarrow> bytes \<Rightarrow> bytes \<Rightarrow> bytes \<Rightarrow> bool \<times> bytes" where
  "sm4_ccm_decrypt ctx nonce ciphertext aad tag =
     (let ctr0 = ccm_ctr0 nonce;
          plaintext = sm4_ctr_crypt ctx (sm4_ccm_ctr_inc ctr0 (length nonce)) ciphertext;
          b0 = sm4_ccm_format_b0 (aad \<noteq> []) (length ciphertext) (15 - length nonce) nonce;
          expected_mac = sm4_cbc_mac ctx (ccm_mac_input b0 aad plaintext);
          enc_mac = sm4_encrypt_block ctx (ccm_ctr0 nonce);
          diff = foldl (\<lambda>d i. d OR (expected_mac ! i XOR enc_mac ! i XOR tag ! i)) 0 [0..<length tag]
      in (diff = 0, plaintext))"

declare cbc_mac_loop.simps [simp del] ms_feed.simps [simp del]

section \<open>The stream and the buffer\<close>

lemma cbc_mac_loop_Nil [simp]: "cbc_mac_loop ctx m [] = m"
  by (simp add: cbc_mac_loop.simps)

lemma cbc_mac_loop_step:
  "16 \<le> length d \<Longrightarrow> cbc_mac_loop ctx m d = cbc_mac_loop ctx (sm4_encrypt_block ctx (map2 (XOR) m (take 16 d))) (drop 16 d)"
  by (subst cbc_mac_loop.simps) simp

lemma cbc_mac_loop_append:
  "16 dvd length a \<Longrightarrow> cbc_mac_loop ctx m (a @ b) = cbc_mac_loop ctx (cbc_mac_loop ctx m a) b"
proof (induction ctx m a rule: cbc_mac_loop.induct)
  case (1 ctx m a)
  show ?case
  proof (cases "a = []")
    case False
    then have l: "16 \<le> length a" using 1(2) by (simp add: dvd_imp_le)
    moreover have "16 dvd length (drop 16 a)" using 1(2) by (simp add: dvd_diff_nat)
    ultimately show ?thesis
      using 1(1) cbc_mac_loop_step [of a ctx m] cbc_mac_loop_step [of "a @ b" ctx m] by simp
  qed simp
qed

lemma cbc_mac_loop_block:
  "length b = 16 \<Longrightarrow> cbc_mac_loop ctx m b = sm4_encrypt_block ctx (map2 (XOR) m b)"
  by (subst cbc_mac_loop.simps) simp

lemma length_cbc_mac_loop: "length m = 16 \<Longrightarrow> length (cbc_mac_loop ctx m d) = 16"
proof (induction ctx m d rule: cbc_mac_loop.induct)
  case (1 ctx m d)
  then show ?case by (subst cbc_mac_loop.simps) auto
qed

text \<open>Zeros to the end of the block change nothing.\<close>

lemma cbc_mac_loop_zeros:
  assumes "length m = 16" "length b + n = 16" "b \<noteq> []"
  shows "cbc_mac_loop ctx m (b @ replicate n 0) = cbc_mac_loop ctx m b"
proof (cases "n = 0")
  case False
  have "map2 (XOR) m (b @ replicate n 0) = map2 (XOR) (take (length b) m) b @ drop (length b) m"
    using assms(1,2) by (intro nth_equalityI) (auto simp: nth_append min_def)
  then show ?thesis
    using assms False by (simp add: cbc_mac_loop_block) (subst cbc_mac_loop.simps, simp)
qed simp

lemma cbc_mac_loop_pad:
  assumes "length m = 16"
  shows "cbc_mac_loop ctx m (pad_block d) = cbc_mac_loop ctx m d"
proof -
  define q where "q = 16 * (length d div 16)"
  have ml: "length d mod 16 < 16" by simp
  have d: "d = take q d @ drop q d" by simp
  have "q \<le> length d" by (simp add: q_def)
  then have q: "16 dvd length (take q d)" "length (drop q d) = length d mod 16"
    by (simp_all add: min_absorb2, simp_all add: q_def minus_mult_div_eq_mod)
  show ?thesis
  proof (cases "length d mod 16 = 0")
    case True
    then show ?thesis by (simp add: pad_block_def)
  next
    case False
    then have n: "(16 - length d mod 16) mod 16 = 16 - length d mod 16" by simp
    have ne: "drop q d \<noteq> []" using q(2) False by force
    have "cbc_mac_loop ctx m (pad_block d)
        = cbc_mac_loop ctx (cbc_mac_loop ctx m (take q d)) (drop q d @ replicate (16 - length d mod 16) 0)"
      unfolding pad_block_def n using cbc_mac_loop_append [OF q(1), of ctx m "drop q d @ replicate (16 - length d mod 16) 0"]
      by (metis append.assoc d)
    also have "\<dots> = cbc_mac_loop ctx (cbc_mac_loop ctx m (take q d)) (drop q d)"
      using q(2) ml ne by (intro cbc_mac_loop_zeros) (simp_all add: length_cbc_mac_loop assms)
    also have "\<dots> = cbc_mac_loop ctx m d" using cbc_mac_loop_append [OF q(1)] d by metis
    finally show ?thesis .
  qed
qed

lemma dvd_pad_block: "16 dvd length (pad_block d)"
proof -
  have "16 * q + r = n \<Longrightarrow> r < 16 \<Longrightarrow> 16 dvd n + (16 - r) mod 16" for q r n :: nat
    by (cases "r = 0") auto
  from this [OF mult_div_mod_eq mod_less_divisor] show ?thesis by (simp add: pad_block_def)
qed

text \<open>The stream has taken \<open>d\<close> since its state was \<open>m\<close>.\<close>

definition fed :: "sm4_ctx \<Rightarrow> bytes \<Rightarrow> bytes \<Rightarrow> sm4_mac_stream \<Rightarrow> bool" where
  "fed ctx m d s \<longleftrightarrow> (\<exists>a b. d = a @ b \<and> 16 dvd length a \<and> length b < 16 \<and> ms_mac s = cbc_mac_loop ctx m a
     \<and> ms_n s = length b \<and> take (length b) (ms_buf s) = b \<and> length (ms_buf s) = 16)"

lemma ms_feed_fed: "fed ctx m d s \<Longrightarrow> fed ctx m (d @ p) (ms_feed ctx s p)"
proof (induction ctx s p arbitrary: d rule: ms_feed.induct)
  case (1 ctx s p)
  obtain a b where ab: "d = a @ b" "16 dvd length a" "length b < 16" "ms_mac s = cbc_mac_loop ctx m a"
    "ms_n s = length b" "take (length b) (ms_buf s) = b" "length (ms_buf s) = 16"
    using 1(2) by (auto simp: fed_def)
  show ?case
  proof (cases "p = []")
    case True
    then show ?thesis using 1(2) by (simp add: ms_feed.simps)
  next
    case False
    then have c: "\<not> (p = [] \<or> 16 \<le> ms_n s)" using ab by simp
    define k where "k = min (length p) (16 - ms_n s)"
    define s1 where "s1 = s\<lparr>ms_buf := memcpy_at (ms_buf s) (ms_n s) (take k p), ms_n := ms_n s + k\<rparr>"
    define s2 where "s2 = (if ms_n s1 = 16 then s1\<lparr>ms_mac := sm4_encrypt_block ctx (map2 (XOR) (ms_mac s1) (ms_buf s1)), ms_n := 0\<rparr> else s1)"
    have k: "k \<le> length p" "length b + k \<le> 16" using ab(3,5) by (auto simp: k_def)
    have lk: "length (take k p) = k" using k by simp
    have b1: "take (length b + k) (memcpy_at (ms_buf s) (length b) (take k p)) = b @ take k p"
      "length (memcpy_at (ms_buf s) (length b) (take k p)) = 16"
      using take_memcpy_at [of "length b" "take k p" "ms_buf s"] length_memcpy_at [of "length b" "take k p" "ms_buf s"] ab k
      unfolding lk by simp_all
    have "fed ctx m (d @ take k p) s2"
    proof (cases "length b + k = 16")
      case True
      have "cbc_mac_loop ctx m (d @ take k p) = sm4_encrypt_block ctx (map2 (XOR) (cbc_mac_loop ctx m a) (b @ take k p))"
        using cbc_mac_loop_append [OF ab(2), of ctx m "b @ take k p"] lk True by (simp add: ab(1) cbc_mac_loop_block)
      moreover have "16 dvd length (d @ take k p)" using ab(1,2) lk True by (simp add: add.assoc)
      ultimately show ?thesis
        using b1 True ab unfolding fed_def by (intro exI [of _ "d @ take k p"] exI [of _ "[]"]) (simp add: s2_def s1_def)
    next
      case False
      then have "length b + k < 16" using k by simp
      then show ?thesis
        using b1 ab k unfolding fed_def by (intro exI [of _ a] exI [of _ "b @ take k p"]) (simp add: s2_def s1_def lk)
    qed
    from 1(1) [OF c k_def s1_def this [unfolded s2_def]]
    have "fed ctx m ((d @ take k p) @ drop k p) (ms_feed ctx s2 (drop k p))" by (simp only: s2_def)
    moreover have "ms_feed ctx s p = ms_feed ctx s2 (drop k p)"
      using c by (subst ms_feed.simps) (simp add: Let_def s2_def s1_def k_def)
    ultimately show ?thesis by simp
  qed
qed

lemma ms_finish_fed:
  assumes "fed ctx m d s"
  shows "ms_mac (ms_finish ctx s) = cbc_mac_loop ctx m d" and "fed ctx (cbc_mac_loop ctx m d) [] (ms_finish ctx s)"
proof -
  obtain a b where ab: "d = a @ b" "16 dvd length a" "length b < 16" "ms_mac s = cbc_mac_loop ctx m a"
    "ms_n s = length b" "take (length b) (ms_buf s) = b" "length (ms_buf s) = 16"
    using assms by (auto simp: fed_def)
  have "cbc_mac_loop ctx m d = cbc_mac_loop ctx (ms_mac s) b" by (simp add: ab(1,4) cbc_mac_loop_append [OF ab(2)])
  also have "\<dots> = ms_mac (ms_finish ctx s)"
    using ab(3,5,6) by (subst cbc_mac_loop.simps) (auto simp: ms_finish_def)
  finally show *: "ms_mac (ms_finish ctx s) = cbc_mac_loop ctx m d" by simp
  show "fed ctx (cbc_mac_loop ctx m d) [] (ms_finish ctx s)"
    using * ab(7) ab(5) by (simp add: fed_def ms_finish_def split: if_splits)
qed

lemma ms_message_mac:
  assumes "length b0 = 16"
  shows "ms_mac (ms_message ctx b0 aad pt) = sm4_cbc_mac ctx (ccm_mac_input b0 aad pt)"
proof -
  define h where "h = (if aad \<noteq> [] then b0 @ sm4_ccm_format_aad_len (length aad) @ aad else b0)"
  let ?z = "replicate 16 0 :: bytes"
  have "fed ctx ?z [] ms_init" by (simp add: fed_def ms_init_def)
  from ms_feed_fed [OF this, of b0] have 1: "fed ctx ?z b0 (ms_feed ctx ms_init b0)" by simp
  define ms where "ms = (if aad \<noteq> [] then ms_feed ctx (ms_feed ctx (ms_feed ctx ms_init b0) (sm4_ccm_format_aad_len (length aad))) aad
     else ms_feed ctx ms_init b0)"
  have "fed ctx ?z h ms"
    using ms_feed_fed [OF ms_feed_fed [OF 1], of "sm4_ccm_format_aad_len (length aad)" aad] 1 by (simp add: h_def ms_def)
  from ms_feed_fed [OF ms_finish_fed(2) [OF this], of pt] have "fed ctx (cbc_mac_loop ctx ?z h) pt (ms_feed ctx (ms_finish ctx ms) pt)"
    by simp
  from ms_finish_fed(1) [OF this] have "ms_mac (ms_message ctx b0 aad pt) = cbc_mac_loop ctx (cbc_mac_loop ctx ?z h) pt"
    by (simp add: ms_message_def Let_def ms_def)
  also have "\<dots> = cbc_mac_loop ctx ?z (pad_block (pad_block h @ pt))"
    by (simp add: cbc_mac_loop_pad cbc_mac_loop_append [OF dvd_pad_block])
  finally show ?thesis by (simp add: sm4_cbc_mac_def ccm_mac_input_def Let_def h_def if_distrib)
qed

section \<open>The routes and the verdict\<close>

lemma length_b0: "length nonce \<le> 15 \<Longrightarrow> length (sm4_ccm_format_b0 h m l nonce) = 16"
  by (simp add: sm4_ccm_format_b0_def Let_def)

lemma ccm_encrypt_routes:
  "length nonce \<le> 15 \<Longrightarrow> sm4_ccm_encrypt_inplace ctx nonce p aad t = sm4_ccm_encrypt ctx nonce p aad t"
  by (simp add: sm4_ccm_encrypt_inplace_def sm4_ccm_encrypt_impl_def sm4_ccm_encrypt_def Let_def ms_message_mac length_b0)

lemma ccm_decrypt_routes:
  "length nonce \<le> 15 \<Longrightarrow> sm4_ccm_decrypt_inplace ctx nonce c aad tag = sm4_ccm_decrypt ctx nonce c aad tag"
  by (simp add: sm4_ccm_decrypt_inplace_def sm4_ccm_decrypt_impl_def sm4_ccm_decrypt_def Let_def ms_message_mac length_b0
      xor.assoc xor.commute xor.left_commute)

lemma foldl_or_zero: "foldl (\<lambda>d i. d OR f i) x is = 0 \<longleftrightarrow> x = 0 \<and> (\<forall>i\<in>set is. f i = (0 :: u8))"
  by (induction "is" arbitrary: x) (auto simp: or_eq_0_iff)

lemma xor3_zero: "a XOR b XOR c = 0 \<longleftrightarrow> c = a XOR (b :: u8)"
proof -
  have "a XOR b XOR c = (a XOR b) XOR c" by (simp add: xor.assoc)
  also have "\<dots> = 0 \<longleftrightarrow> a XOR b = c" by (auto simp: bit_eq_iff bit_xor_iff)
  finally show ?thesis by auto
qed

lemma map_upt_eq: "map f [0..<length xs] = xs \<longleftrightarrow> (\<forall>i<length xs. xs ! i = f i)"
proof
  assume "map f [0..<length xs] = xs"
  then have "map f [0..<length xs] ! i = xs ! i" for i by simp
  then show "\<forall>i<length xs. xs ! i = f i" by (metis nth_map_upt add_0 diff_zero)
qed (auto intro: nth_equalityI)

lemma ccm_decrypt_iff:
  "sm4_ccm_decrypt ctx nonce c aad tag = (True, p) \<longleftrightarrow> sm4_ccm_encrypt ctx nonce p aad (length tag) = (c, tag)"
proof -
  define k where "k = sm4_ccm_ctr_inc (ccm_ctr0 nonce) (length nonce)"
  have twice: "sm4_ctr_crypt ctx k (sm4_ctr_crypt ctx k m) = m" for m by (simp add: sm4_ctr_crypt_def ctr_crypt_twice)
  have len: "length (sm4_ctr_crypt ctx k m) = length m" for m by (simp add: sm4_ctr_crypt_def)
  have p: "sm4_ctr_crypt ctx k c = p \<longleftrightarrow> sm4_ctr_crypt ctx k p = c" using twice by metis
  define mac where "mac = sm4_cbc_mac ctx (ccm_mac_input (sm4_ccm_format_b0 (aad \<noteq> []) (length p) (15 - length nonce) nonce) aad p)"
  let ?e = "sm4_encrypt_block ctx (ccm_ctr0 nonce)"
  have t: "(\<forall>i<length tag. tag ! i = mac ! i XOR ?e ! i) \<longleftrightarrow> map (\<lambda>i. mac ! i XOR ?e ! i) [0..<length tag] = tag"
    by (rule map_upt_eq [symmetric])
  show ?thesis
  proof (cases "sm4_ctr_crypt ctx k c = p")
    case True
    then have "length c = length p" using len by metis
    with True show ?thesis
      using p t by (auto simp: sm4_ccm_decrypt_def sm4_ccm_encrypt_def Let_def k_def [symmetric] mac_def [symmetric] foldl_or_zero xor3_zero)
  next
    case False
    then show ?thesis using p by (auto simp: sm4_ccm_decrypt_def sm4_ccm_encrypt_def Let_def k_def [symmetric])
  qed
qed

section \<open>NIST SP 800-38C\<close>

definition ccm_blocks :: "bytes \<Rightarrow> bytes list" where
  "ccm_blocks d = map (\<lambda>k. take 16 (drop (16 * k) d)) [0..<length d div 16]"

text \<open>\<open>t\<close> the length of the tag; associated data of less than \<open>2 ^ 32\<close> bytes.\<close>

definition ccm_ref :: "(bytes \<Rightarrow> bytes) \<Rightarrow> nat \<Rightarrow> bytes \<Rightarrow> bytes \<Rightarrow> bytes \<Rightarrow> bytes \<times> bytes" where
  "ccm_ref E t nonce p aad =
     (let q = 15 - length nonce;
          b0 = word_of_nat ((if aad \<noteq> [] then 64 else 0) + 8 * ((t - 2) div 2) + (q - 1)) # nonce @ be_bytes q (length p);
          a = (if aad = [] then [] else if length aad < 2 ^ 16 - 2 ^ 8 then be_bytes 2 (length aad) @ aad
               else 0xFF # 0xFE # be_bytes 4 (length aad) @ aad);
          y = foldl (\<lambda>y b. E (map2 (XOR) y b)) (replicate 16 0) (ccm_blocks (b0 @ pad_block a @ pad_block p));
          s = (\<lambda>i. E (word_of_nat (q - 1) # nonce @ be_bytes q i))
      in (map2 (XOR) p (concat (map s [1..<(length p + 15) div 16 + 1])), take t (map2 (XOR) y (s 0))))"

lemma cbc_mac_loop_foldl:
  "16 dvd length d \<Longrightarrow> cbc_mac_loop ctx m d = foldl (\<lambda>y b. sm4_encrypt_block ctx (map2 (XOR) y b)) m (ccm_blocks d)"
proof (induction ctx m d rule: cbc_mac_loop.induct)
  case (1 ctx m d)
  show ?case
  proof (cases "d = []")
    case True
    then show ?thesis by (simp add: ccm_blocks_def)
  next
    case False
    then have l: "16 \<le> length d" using 1(2) by (simp add: dvd_imp_le)
    then have "length d div 16 = Suc (length (drop 16 d) div 16)" by (simp add: le_div_geq)
    then have "ccm_blocks d = take 16 d # ccm_blocks (drop 16 d)"
      by (simp add: ccm_blocks_def upt_conv_Cons comp_def add.commute del: upt_Suc flip: map_Suc_upt)
    then show ?thesis using 1 l by (simp add: cbc_mac_loop_step dvd_diff_nat)
  qed
qed

lemma pad_block_append: "16 dvd length x \<Longrightarrow> pad_block (x @ y) = x @ pad_block y"
proof -
  assume "16 dvd length x"
  then have "(length x + length y) mod 16 = length y mod 16" by (metis mod_add_left_eq dvd_imp_mod_0 add_0)
  then show ?thesis by (simp add: pad_block_def)
qed

lemma ccm_flags:
  assumes "2 \<le> q" "q \<le> 8"
  shows "(if h then 0x40 else 0) OR push_bit 3 ((16 - 2) div 2 AND 7) OR ((word_of_nat q - 1) AND 7)
      = (word_of_nat ((if h then 64 else 0) + 8 * ((16 - 2) div 2) + (q - 1)) :: u8)"
    and "((if False then 0x40 else 0) OR push_bit 3 ((16 - 2) div 2 AND 7) OR ((word_of_nat q - 1) AND 7)) AND 7 = (word_of_nat (q - 1) :: u8)"
proof -
  have "q = 2 \<or> q = 3 \<or> q = 4 \<or> q = 5 \<or> q = 6 \<or> q = 7 \<or> q = 8" using assms by linarith
  then show "(if h then 0x40 else 0) OR push_bit 3 ((16 - 2) div 2 AND 7) OR ((word_of_nat q - 1) AND 7)
      = (word_of_nat ((if h then 64 else 0) + 8 * ((16 - 2) div 2) + (q - 1)) :: u8)"
    "((if False then 0x40 else 0) OR push_bit 3 ((16 - 2) div 2 AND 7) OR ((word_of_nat q - 1) AND 7)) AND 7 = (word_of_nat (q - 1) :: u8)"
    by (elim disjE; cases h; simp)+
qed

lemma ccm_is_ref:
  assumes "7 \<le> length nonce" "length nonce \<le> 13" "length p < 256 ^ (15 - length nonce)"
  shows "sm4_ccm_encrypt ctx nonce p aad 16 = ccm_ref (sm4_encrypt_block ctx) 16 nonce p aad"
proof -
  define q where "q = 15 - length nonce"
  have q: "2 \<le> q" "q \<le> 8" "length nonce + q = 15" using assms(1,2) by (simp_all add: q_def)
  define h :: u8 where "h = word_of_nat (q - 1)"
  let ?E = "sm4_encrypt_block ctx"
  have ctr0: "ccm_ctr0 nonce = (h # nonce) @ be_bytes q 0"
    using ccm_flags(2) [OF q(1,2)] by (simp add: ccm_ctr0_def sm4_ccm_format_b0_def Let_def q_def [symmetric] h_def)
  have "ctr_inc (length nonce + 1) q (((h # nonce) @ be_bytes q 0) @ []) = (h # nonce) @ be_bytes q 1"
    using ctr_inc_bytes [of "h # nonce" "length nonce + 1" q 0 "[]"] by simp
  then have c1: "sm4_ccm_ctr_inc (ccm_ctr0 nonce) (length nonce) = (h # nonce) @ be_bytes q 1"
    by (simp only: sm4_ccm_ctr_inc_def ctr0 q_def [symmetric] append_Nil2)
  define N where "N = (length p + 15) div 16"
  have N: "N < 256 ^ q" "length p \<le> 16 * N"
  proof -
    have "N \<le> length p" by (cases "length p") (simp_all add: N_def)
    then show "N < 256 ^ q" using assms(3) by (simp add: q_def)
    show "length p \<le> 16 * N" unfolding N_def by linarith
  qed
  have stream: "sm4_ctr_crypt ctx (sm4_ccm_ctr_inc (ccm_ctr0 nonce) (length nonce)) p
      = map2 (XOR) p (concat (map (\<lambda>i. ?E (h # nonce @ be_bytes q i)) [1..<N + 1]))"
    unfolding c1 sm4_ctr_crypt_def
    using ctr_stream_field [of "h # nonce" q 1 N ?E] ctr_crypt_stream [where E = ?E and m = p and n = N] N q(3) by simp
  define b0 where "b0 = sm4_ccm_format_b0 (aad \<noteq> []) (length p) (15 - length nonce) nonce"
  have b0: "b0 = word_of_nat ((if aad \<noteq> [] then 64 else 0) + 8 * ((16 - 2) div 2) + (q - 1)) # nonce @ be_bytes q (length p)"
    using ccm_flags(1) [OF q(1,2), of "aad \<noteq> []"] by (simp add: b0_def sm4_ccm_format_b0_def Let_def q_def [symmetric])
  have l0: "length b0 = 16" using assms(2) by (simp add: b0_def length_b0)
  define a where "a = (if aad = [] then [] else sm4_ccm_format_aad_len (length aad) @ aad)"
  have "ccm_mac_input b0 aad p = b0 @ pad_block a @ pad_block p"
    using l0 by (simp add: ccm_mac_input_def Let_def a_def pad_block_append dvd_pad_block) (simp add: pad_block_def)
  then have mac: "sm4_cbc_mac ctx (ccm_mac_input b0 aad p)
      = foldl (\<lambda>y b. ?E (map2 (XOR) y b)) (replicate 16 0) (ccm_blocks (b0 @ pad_block a @ pad_block p))"
    by (simp add: sm4_cbc_mac_def cbc_mac_loop_foldl l0 dvd_pad_block)
  have a: "a = (if aad = [] then [] else if length aad < 2 ^ 16 - 2 ^ 8 then be_bytes 2 (length aad) @ aad
      else 0xFF # 0xFE # be_bytes 4 (length aad) @ aad)"
    by (simp add: a_def sm4_ccm_format_aad_len_def)
  have tag: "map (\<lambda>i. y ! i XOR e ! i) [0..<16] = take 16 (map2 (XOR) y e)" if "length y = 16" "length e = 16" for y e :: bytes
    using that by (intro nth_equalityI) simp_all
  have ly: "length (sm4_cbc_mac ctx d) = 16" for d by (simp add: sm4_cbc_mac_def length_cbc_mac_loop)
  define out where "out = (map2 (XOR) p (concat (map (\<lambda>i. ?E (h # nonce @ be_bytes q i)) [1..<N + 1])),
     take 16 (map2 (XOR) (foldl (\<lambda>y b. ?E (map2 (XOR) y b)) (replicate 16 0) (ccm_blocks (b0 @ pad_block a @ pad_block p)))
       (?E (h # nonce @ be_bytes q 0))))"
  have "sm4_ccm_encrypt ctx nonce p aad 16 = out"
    unfolding sm4_ccm_encrypt_def Let_def b0_def [symmetric] unfolding stream unfolding tag [OF ly length_transform(2)]
    unfolding mac unfolding ctr0 out_def by simp
  moreover have "ccm_ref ?E 16 nonce p aad = out"
    unfolding ccm_ref_def Let_def q_def [symmetric] unfolding h_def [symmetric] N_def [symmetric] unfolding b0 [symmetric] a [symmetric]
    unfolding out_def ..
  ultimately show ?thesis by simp
qed

section \<open>Properties\<close>

text \<open>
  C18. SM4-CCM encryption, by the public function and by the one on the record layer's buffer (which streams the MAC instead of
  assembling its input), gives the ciphertext and the tag of NIST SP 800-38C for tags of 16 bytes: nonces of 7 to 13 bytes, messages
  shorter than the length field allows, any associated data.
\<close>

theorem sm4_ccm_is_sp800_38c:
  assumes "7 \<le> length nonce" "length nonce \<le> 13" "length p < 256 ^ (15 - length nonce)"
  shows "sm4_ccm_encrypt (sm4_init key) nonce p aad 16 = ccm_ref (sm4_encrypt_block (sm4_init key)) 16 nonce p aad
    \<and> sm4_ccm_encrypt_inplace (sm4_init key) nonce p aad 16 = ccm_ref (sm4_encrypt_block (sm4_init key)) 16 nonce p aad"
  using assms by (simp add: ccm_is_ref ccm_encrypt_routes)

theorem sm4_ccm_is_sp800_38c_witness:
  "sm4_ccm_encrypt (sm4_init (replicate 16 1)) (replicate 12 7) [1, 2, 3] [4] 16
     = ccm_ref (sm4_encrypt_block (sm4_init (replicate 16 1))) 16 (replicate 12 7) [1, 2, 3] [4]"
  using sm4_ccm_is_sp800_38c [of "replicate 12 7" "[1, 2, 3]" "replicate 16 1" "[4]"] by simp

text \<open>
  Decryption accepts, on both routes, exactly the ciphertexts and tags that encryption makes of the message it returns, for every
  key, nonce, associated data and tag length.
\<close>

theorem sm4_ccm_decrypt_iff:
  assumes "length nonce \<le> 13" "length tag \<le> 16"
  shows "(sm4_ccm_decrypt (sm4_init key) nonce c aad tag = (True, p)
      \<longleftrightarrow> sm4_ccm_encrypt (sm4_init key) nonce p aad (length tag) = (c, tag))
    \<and> sm4_ccm_decrypt_inplace (sm4_init key) nonce c aad tag = sm4_ccm_decrypt (sm4_init key) nonce c aad tag"
  using assms by (simp add: ccm_decrypt_iff ccm_decrypt_routes)

theorem sm4_ccm_decrypt_iff_witness:
  "\<exists>c tag. sm4_ccm_encrypt (sm4_init (replicate 16 1)) (replicate 12 7) [1, 2, 3] [4] 16 = (c, tag)
     \<and> sm4_ccm_decrypt (sm4_init (replicate 16 1)) (replicate 12 7) c [4] tag = (True, [1, 2, 3])"
proof -
  obtain c tag where e: "sm4_ccm_encrypt (sm4_init (replicate 16 1)) (replicate 12 7) [1, 2, 3] [4] 16 = (c, tag)"
    by (metis surj_pair)
  then have "length tag = 16" by (auto simp: sm4_ccm_encrypt_def Let_def)
  then have "sm4_ccm_decrypt (sm4_init (replicate 16 1)) (replicate 12 7) c [4] tag = (True, [1, 2, 3])"
    using sm4_ccm_decrypt_iff [of "replicate 12 7" tag "replicate 16 1" c "[4]" "[1, 2, 3]"] e by simp
  with e show ?thesis by blast
qed

text \<open>
  C20. Every prefix of a valid tag is a valid tag: the first block says 16 bytes whatever length is asked for (SP 800-38C encodes the
  length there so that tags of different lengths are unrelated), so whoever checks a tag of \<open>t\<close> bytes accepts a message
  authenticated with 16, cut to \<open>t\<close>; with an empty tag, every ciphertext.
\<close>

theorem sm4_ccm_cut_tag_accepted:
  assumes "length nonce \<le> 13" "t \<le> 16" "sm4_ccm_encrypt (sm4_init key) nonce p aad 16 = (c, tag)"
  shows "sm4_ccm_decrypt (sm4_init key) nonce c aad (take t tag) = (True, p)"
proof -
  have "sm4_ccm_encrypt (sm4_init key) nonce p aad t = (c, take t tag)"
    using assms(2,3) by (auto simp: sm4_ccm_encrypt_def Let_def take_map)
  moreover have "length tag = 16" using assms(3) by (auto simp: sm4_ccm_encrypt_def Let_def)
  ultimately show ?thesis using assms(2) by (simp add: ccm_decrypt_iff)
qed

theorem sm4_ccm_cut_tag_accepted_witness:
  "\<exists>c tag. sm4_ccm_decrypt (sm4_init (replicate 16 1)) (replicate 12 7) c [4] (take 8 tag) = (True, [1, 2, 3])"
proof -
  obtain c tag where "sm4_ccm_encrypt (sm4_init (replicate 16 1)) (replicate 12 7) [1, 2, 3] [4] 16 = (c, tag)"
    by (metis surj_pair)
  then have "sm4_ccm_decrypt (sm4_init (replicate 16 1)) (replicate 12 7) c [4] (take 8 tag) = (True, [1, 2, 3])"
    using sm4_ccm_cut_tag_accepted [of "replicate 12 7" 8] by simp
  then show ?thesis by blast
qed

end
