(* ===== verification/Ghash.thy ===== *)
theory Ghash
  imports Prelude
begin

text \<open>
  The software route of GHASH, \<open>gf128_mul\<close> and \<open>ghash\<close> of \<open>src/src/aes_cpu.cpp\<close> (the PCLMULQDQ routes are not modelled), and that it
  is the function of NIST SP 800-38D over 128-bit blocks read as numbers.
\<close>

definition xor128 :: "bytes \<Rightarrow> bytes \<Rightarrow> bytes" where
  "xor128 dst src = map2 (XOR) dst src"

text \<open>The loop that shifts \<open>V\<close> right by a bit, from byte to byte, and the reduction.\<close>

definition gf128_shift :: "bytes \<Rightarrow> bytes \<times> u8" where
  "gf128_shift V = foldl (\<lambda>(v, carry) b. (v @ [drop_bit 1 b OR carry], push_bit 7 (b AND 1))) ([], 0) V"

definition gf128_times_x :: "bytes \<Rightarrow> bytes" where
  "gf128_times_x V = (let (v, carry) = gf128_shift V in if carry \<noteq> 0 then v[0 := v ! 0 XOR 0xE1] else v)"

definition gf128_mul :: "bytes \<Rightarrow> bytes \<Rightarrow> bytes" where
  "gf128_mul x y =
     fst (foldl (\<lambda>(Z, V) k. (if x ! (k div 8) AND drop_bit (k mod 8) 0x80 \<noteq> 0 then xor128 Z V else Z, gf128_times_x V))
            (replicate 16 0, y) [0..<128])"

definition ghash :: "bytes \<Rightarrow> bytes \<Rightarrow> bytes" where
  "ghash H d =
     foldl (\<lambda>out i. let k = min 16 (length d - i * 16); block = memcpy_at (replicate 16 0) 0 (take k (drop (i * 16) d))
                   in gf128_mul (xor128 out block) H)
       (replicate 16 0) [0..<(length d + 15) div 16]"

section \<open>SP 800-38D\<close>

text \<open>A block is the number its 128 bits spell; the first bit is the coefficient of \<open>x ^ 0\<close>.\<close>

definition gf_times_x :: "nat \<Rightarrow> nat" where
  "gf_times_x v = v div 2 XOR (if odd v then 0xE1 * 2 ^ 120 else 0)"

definition gf_mul :: "nat \<Rightarrow> nat \<Rightarrow> nat" where
  "gf_mul x y = fst (foldl (\<lambda>(z, v) k. (if bit x (127 - k) then z XOR v else z, gf_times_x v)) (0, y) [0..<128])"

definition ghash_ref :: "nat \<Rightarrow> nat list \<Rightarrow> nat" where
  "ghash_ref h xs = foldl (\<lambda>y x. gf_mul (y XOR x) h) 0 xs"

section \<open>Bytes and numbers\<close>

lemma bit_byte_step:
  fixes A a :: nat
  assumes "a < 256"
  shows "bit (A * 256 + a) i = (if i < 8 then bit a i else bit A (i - 8))"
proof -
  have t: "take_bit 8 (A * 256 + a) = a" and d: "drop_bit 8 (A * 256 + a) = A"
    using assms by (simp_all add: take_bit_eq_mod drop_bit_eq_div)
  show ?thesis
  proof (cases "i < 8")
    case True
    then have "bit (A * 256 + a) i = bit (take_bit 8 (A * 256 + a)) i" by (simp add: bit_take_bit_iff)
    then show ?thesis using True t by simp
  next
    case False
    then have "bit (A * 256 + a) i = bit (drop_bit 8 (A * 256 + a)) (i - 8)" by (simp add: bit_drop_bit_eq)
    then show ?thesis using False d by simp
  qed
qed

lemma be_val_xor: "length a = length b \<Longrightarrow> be_val (map2 (XOR) a b) = be_val a XOR be_val b"
proof (induction a arbitrary: b rule: rev_induct)
  case (snoc x a)
  then obtain c y where b: "b = c @ [y]" "length c = length a" by (cases b rule: rev_cases) auto
  have u: "unat (x XOR y) = unat x XOR unat y" by (simp add: unsigned_xor_eq)
  have l: "unat x < 256" "unat y < 256" "unat (x XOR y) < 256" by simp_all
  have "be_val (map2 (XOR) (a @ [x]) b) = (be_val a XOR be_val c) * 256 + unat (x XOR y)" using snoc b by simp
  also have "\<dots> = (be_val a * 256 + unat x) XOR (be_val c * 256 + unat y)"
    by (rule bit_eqI) (simp add: bit_byte_step [OF l(3)] bit_byte_step [OF l(1)] bit_byte_step [OF l(2)] bit_xor_iff u [symmetric],
        simp add: u bit_xor_iff)
  finally show ?case by (simp add: b)
qed simp

lemma be_val_append: "be_val (a @ b) = be_val a * 256 ^ length b + be_val b"
  by (induction b rule: rev_induct) (simp_all add: algebra_simps flip: append_assoc)

lemma be_val_zeros [simp]: "be_val (replicate n 0) = 0"
proof (induction n)
  case (Suc n)
  have "replicate (Suc n) 0 = replicate n 0 @ [0 :: u8]" by (simp add: replicate_append_same)
  then show ?case using Suc by (simp only: be_val_snoc) simp
qed simp

lemma unat_half: "unat (drop_bit 1 b) = unat (b :: u8) div 2"
  by (subst unat_drop_bit_eq) (simp only: drop_bit_eq_div power_one_right)

lemma shift_val:
  "length (fst (gf128_shift V)) = length V \<and> be_val (fst (gf128_shift V)) = be_val V div 2
    \<and> snd (gf128_shift V) = (if odd (be_val V) then 128 else 0)"
proof (induction V rule: rev_induct)
  case (snoc b V)
  obtain v c where vc: "gf128_shift V = (v, c)" by (cases "gf128_shift V") auto
  have s: "gf128_shift (V @ [b]) = (v @ [drop_bit 1 b OR c], push_bit 7 (b AND 1))" using vc by (simp add: gf128_shift_def)
  define P where "P = be_val V"
  have ih: "be_val v = P div 2" "c = (if odd P then 128 else 0)" "length v = length V" using snoc vc by (simp_all add: P_def)
  have "unat (drop_bit 1 b OR (if q then 128 else 0)) = unat b div 2 + (if q then 128 else 0)" for q
  proof -
    have "unat b div 2 < 128" using unat_u8_less [of b] by linarith
    have "drop_bit 1 b OR 128 = drop_bit 1 b + 128"
      by (rule disjunctive_add_eq_or [symmetric]) (rule u8_eqI; simp add: bit_simps)
    moreover have "unat (drop_bit 1 b + 128) = unat b div 2 + 128"
      using \<open>unat b div 2 < 128\<close> by (simp only: unat_word_ariths unat_half) simp
    ultimately show ?thesis by (cases q) (simp, simp only: if_False or.right_neutral unat_half add_0_right)
  qed
  then have u: "unat (drop_bit 1 b OR c) = unat b div 2 + 128 * (P mod 2)" by (simp add: ih(2) mod_2_eq_odd)
  have h: "P div 2 * 256 + (unat b div 2 + 128 * (P mod 2)) = (P * 256 + unat b) div 2"
  proof -
    have "(P * 256 + unat b) div 2 = (unat b + 2 * (128 * P)) div 2" by (simp add: mult.commute)
    also have "\<dots> = 128 * P + unat b div 2" by simp
    finally show ?thesis using mult_div_mod_eq [of 2 P] by linarith
  qed
  have carry: "push_bit 7 (b AND 1) = (if odd (P * 256 + unat b) then 128 else 0)"
  proof -
    have "odd (unat b) \<longleftrightarrow> odd b" using bit_unsigned_iff [of b 0] by (simp add: bit_0)
    then show ?thesis by (simp add: and_one_eq mod_2_eq_odd)
  qed
  show ?case unfolding s fst_conv snd_conv be_val_snoc u ih(1) P_def [symmetric] h carry by (simp add: ih(3))
qed (simp add: gf128_shift_def)

lemma times_x_val:
  assumes "length V = 16"
  shows "be_val (gf128_times_x V) = gf_times_x (be_val V)" and "length (gf128_times_x V) = 16"
proof -
  obtain v c where vc: "gf128_shift V = (v, c)" by (cases "gf128_shift V") auto
  have s: "length v = 16" "be_val v = be_val V div 2" "c = (if odd (be_val V) then 128 else 0)" using shift_val [of V] vc assms by simp_all
  obtain v0 vs where v: "v = v0 # vs" "length vs = 15" using s(1) by (cases v) auto
  have "v[0 := v ! 0 XOR 0xE1] = map2 (XOR) v (0xE1 # replicate 15 0)"
    using v by (auto intro: nth_equalityI)
  moreover have "be_val (0xE1 # replicate 15 0) = 0xE1 * 2 ^ 120"
    using be_val_append [of "[0xE1]" "replicate 15 0"] be_val_snoc [of "[]" "0xE1"] by simp
  ultimately have r: "be_val (v[0 := v ! 0 XOR 0xE1]) = be_val v XOR (0xE1 * 2 ^ 120)"
    using be_val_xor [of v "0xE1 # replicate 15 0"] s(1) by simp
  then show "be_val (gf128_times_x V) = gf_times_x (be_val V)"
    by (simp add: gf128_times_x_def vc gf_times_x_def s)
  show "length (gf128_times_x V) = 16" by (simp add: gf128_times_x_def vc s)
qed

lemma bit_be_val_block: "k < 8 * length b \<Longrightarrow> bit (be_val b) (8 * length b - 1 - k) = bit (b ! (k div 8)) (7 - k mod 8)"
proof (induction b arbitrary: k rule: rev_induct)
  case (snoc x b)
  note step = bit_byte_step [OF unat_u8_less, of "be_val b" x]
  show ?case
  proof (cases "k < 8 * length b")
    case True
    then have i: "8 * length (b @ [x]) - 1 - k = 8 + (8 * length b - 1 - k)" by simp
    have "bit (be_val (b @ [x])) (8 * length (b @ [x]) - 1 - k) = bit (be_val b) (8 * length b - 1 - k)"
      by (simp only: i be_val_snoc step) simp
    moreover have "k div 8 < length b" using True by (simp add: less_mult_imp_div_less mult.commute)
    ultimately show ?thesis using snoc.IH [OF True] by (simp add: nth_append)
  next
    case False
    define j where "j = k - 8 * length b"
    have j: "k = 8 * length b + j" "j < 8" using False snoc.prems by (simp_all add: j_def)
    then have i: "8 * length (b @ [x]) - 1 - k = 7 - j" by simp
    have "k div 8 = length b" "k mod 8 = j" using j by simp_all
    moreover have "7 - j < 8" by simp
    ultimately show ?thesis using j(2) by (simp only: i be_val_snoc step) (simp add: bit_unsigned_iff nth_append)
  qed
qed simp

lemma mask_bit: "j < 8 \<Longrightarrow> b AND drop_bit j 0x80 \<noteq> 0 \<longleftrightarrow> bit (b :: u8) (7 - j)"
proof -
  assume "j < 8"
  then have "j \<in> {0, 1, 2, 3, 4, 5, 6, 7}" by auto
  then have "drop_bit j 0x80 = (push_bit (7 - j) 1 :: u8)" by (elim insertE emptyE) simp_all
  then show ?thesis by (simp add: and_exp_eq_0_iff_not_bit push_bit_eq_mult)
qed

lemma gf128_mul_val:
  assumes "length x = 16" "length y = 16"
  shows "be_val (gf128_mul x y) = gf_mul (be_val x) (be_val y)" and "length (gf128_mul x y) = 16"
proof -
  define f where "f = (\<lambda>(Z, V) k. (if x ! (k div 8) AND drop_bit (k mod 8) 0x80 \<noteq> 0 then xor128 Z V else Z, gf128_times_x V))"
  define g where "g = (\<lambda>(z, v) k. (if bit (be_val x) (127 - k) then z XOR v else z, gf_times_x v))"
  have "length (fst (foldl f (z, v) ks)) = 16 \<and> length (snd (foldl f (z, v) ks)) = 16
      \<and> foldl g (be_val z, be_val v) ks = map_prod be_val be_val (foldl f (z, v) ks)"
    if "length z = 16" "length v = 16" "\<forall>k\<in>set ks. k < 128" for z v ks
    using that
  proof (induction ks rule: rev_induct)
    case (snoc k ks)
    obtain z' v' where zv: "foldl f (z, v) ks = (z', v')" by (metis surj_pair)
    have ih: "length z' = 16" "length v' = 16" "foldl g (be_val z, be_val v) ks = (be_val z', be_val v')"
      using snoc zv by simp_all
    have k: "k < 128" using snoc.prems by simp
    have "bit (be_val x) (127 - k) = bit (x ! (k div 8)) (7 - k mod 8)" using bit_be_val_block [of k x] k assms(1) by simp
    then have b: "(x ! (k div 8) AND drop_bit (k mod 8) 0x80 \<noteq> 0) = bit (be_val x) (127 - k)" by (simp add: mask_bit)
    show ?case
      using ih times_x_val [OF ih(2)] be_val_xor [of z' v'] by (simp add: zv) (simp add: f_def g_def b xor128_def)
  qed simp
  from this [of "replicate 16 0" y "[0..<128]"] assms(2)
  have *: "length (fst (foldl f (replicate 16 0, y) [0..<128])) = 16"
    "foldl g (0, be_val y) [0..<128] = map_prod be_val be_val (foldl f (replicate 16 0, y) [0..<128])" by simp_all
  show "length (gf128_mul x y) = 16" using *(1) by (simp add: gf128_mul_def f_def)
  show "be_val (gf128_mul x y) = gf_mul (be_val x) (be_val y)"
    unfolding gf128_mul_def gf_mul_def using *(2) by (simp add: f_def g_def case_prod_beta)
qed

text \<open>The blocks of the data, the last one filled with zeros.\<close>

definition gh_blocks :: "bytes \<Rightarrow> nat list" where
  "gh_blocks d = map (\<lambda>i. be_val (take 16 (drop (16 * i) (d @ replicate 15 0)))) [0..<(length d + 15) div 16]"

lemma ghash_val:
  assumes "length H = 16"
  shows "be_val (ghash H d) = ghash_ref (be_val H) (gh_blocks d)" and "length (ghash H d) = 16"
proof -
  define blk where "blk = (\<lambda>i. memcpy_at (replicate 16 0) 0 (take (min 16 (length d - i * 16)) (drop (i * 16) d)) :: bytes)"
  have blk: "blk i = take 16 (drop (16 * i) (d @ replicate 15 0))" if "i < (length d + 15) div 16" for i
  proof -
    have "16 * i < length d + 15" "16 * i < length d" using that by linarith+
    then show ?thesis
      by (simp add: blk_def memcpy_at_def mult.commute [of i] min_def) arith
  qed
  have lb: "length (blk i) = 16" for i by (simp add: blk_def memcpy_at_def)
  have "length (foldl (\<lambda>out i. gf128_mul (xor128 out (blk i)) H) z is) = 16
      \<and> be_val (foldl (\<lambda>out i. gf128_mul (xor128 out (blk i)) H) z is)
        = foldl (\<lambda>y x. gf_mul (y XOR x) (be_val H)) (be_val z) (map (\<lambda>i. be_val (blk i)) is)"
    if "length z = 16" for z "is"
    using that by (induction "is" arbitrary: z) (simp_all add: gf128_mul_val assms lb xor128_def be_val_xor)
  from this [of "replicate 16 0" "[0..<(length d + 15) div 16]"]
  have f: "length (foldl (\<lambda>out i. gf128_mul (xor128 out (blk i)) H) (replicate 16 0) [0..<(length d + 15) div 16]) = 16"
    "be_val (foldl (\<lambda>out i. gf128_mul (xor128 out (blk i)) H) (replicate 16 0) [0..<(length d + 15) div 16])
       = ghash_ref (be_val H) (map (\<lambda>i. be_val (blk i)) [0..<(length d + 15) div 16])" by (simp_all add: ghash_ref_def)
  have "gh_blocks d = map (\<lambda>i. be_val (blk i)) [0..<(length d + 15) div 16]"
    unfolding gh_blocks_def by (intro map_cong refl) (simp only: blk set_upt atLeastLessThan_iff)
  moreover have "ghash H d = foldl (\<lambda>out i. gf128_mul (xor128 out (blk i)) H) (replicate 16 0) [0..<(length d + 15) div 16]"
    by (simp only: ghash_def Let_def blk_def)
  ultimately show "be_val (ghash H d) = ghash_ref (be_val H) (gh_blocks d)" "length (ghash H d) = 16" using f by simp_all
qed
end
