(* ===== verification/Sm4Gcm.thy ===== *)
theory Sm4Gcm
  imports Sm4Ccm Ghash
begin

text \<open>
  SM4-GCM, \<open>src/src/sm4_gcm.cpp\<close>, on the portable route: the first counter block, GHASH of the padded input, encryption and
  verified decryption, and the same on the record layer's buffer. The theorems: decryption accepts exactly what encryption makes, and
  where the 32-bit counter does not wrap the result is that of NIST SP 800-38D.
\<close>

section \<open>The functions\<close>

text \<open>The function of this file is the one of \<open>sm4_ccm.cpp\<close> under another name.\<close>

definition sm4_ctr_xor :: "sm4_ctx \<Rightarrow> bytes \<Rightarrow> bytes \<Rightarrow> bytes" where
  "sm4_ctr_xor ctx ctr_block input = ctr_crypt (sm4_encrypt_block ctx) ctr_block input"

definition sm4_gcm_make_j0 :: "bytes \<Rightarrow> bytes \<Rightarrow> bytes" where
  "sm4_gcm_make_j0 H iv =
     (if length iv = 12 then iv @ [0, 0, 0, 1]
      else let iv_bits = length iv * 8; s = 128 * ((iv_bits + 127) div 128) - iv_bits
        in ghash H (iv @ replicate ((s + 64) div 8) 0 @ be_bytes 8 iv_bits))"

definition sm4_gcm_ghash :: "bytes \<Rightarrow> bytes \<Rightarrow> bytes \<Rightarrow> bytes" where
  "sm4_gcm_ghash H aad ct =
     (let aad_bits = length aad * 8; ct_bits = length ct * 8
      in ghash H (aad @ replicate ((16 - length aad mod 16) mod 16) 0 @ ct @ replicate ((16 - length ct mod 16) mod 16) 0
           @ be_bytes 8 aad_bits @ be_bytes 8 ct_bits))"

text \<open>The counter after \<open>J0\<close>: on the last four bytes for a 12-byte vector, on all sixteen otherwise.\<close>

definition gcm_next_counter :: "bytes \<Rightarrow> nat \<Rightarrow> bytes" where
  "gcm_next_counter j0 iv_len = (if iv_len = 12 then take 12 j0 @ store_be32 (load_be32 j0 12 + 1) else ctr_inc 0 16 j0)"

definition gcm_tag :: "sm4_ctx \<Rightarrow> bytes \<Rightarrow> bytes \<Rightarrow> bytes \<Rightarrow> bytes \<Rightarrow> nat \<Rightarrow> bytes" where
  "gcm_tag ctx H j0 aad ct tag_len =
     (let gh_result = sm4_gcm_ghash H aad ct; enc_j0 = sm4_encrypt_block ctx j0
      in map (\<lambda>i. gh_result ! i XOR enc_j0 ! i) [0..<tag_len])"

definition sm4_gcm_encrypt :: "sm4_ctx \<Rightarrow> bytes \<Rightarrow> bytes \<Rightarrow> bytes \<Rightarrow> nat \<Rightarrow> bytes \<times> bytes" where
  "sm4_gcm_encrypt ctx iv plaintext aad tag_len =
     (let H = sm4_encrypt_block ctx (replicate 16 0);
          j0 = sm4_gcm_make_j0 H iv;
          ciphertext = sm4_ctr_xor ctx (gcm_next_counter j0 (length iv)) plaintext
      in (ciphertext, gcm_tag ctx H j0 aad ciphertext tag_len))"

definition sm4_gcm_decrypt :: "sm4_ctx \<Rightarrow> bytes \<Rightarrow> bytes \<Rightarrow> bytes \<Rightarrow> bytes \<Rightarrow> bytes option" where
  "sm4_gcm_decrypt ctx iv ciphertext aad tag =
     (let H = sm4_encrypt_block ctx (replicate 16 0);
          j0 = sm4_gcm_make_j0 H iv;
          expected_tag = gcm_tag ctx H j0 aad ciphertext (length tag);
          diff = foldl (\<lambda>d i. d OR (expected_tag ! i XOR tag ! i)) 0 [0..<length tag]
      in if diff \<noteq> 0 then None else Some (sm4_ctr_xor ctx (gcm_next_counter j0 (length iv)) ciphertext))"

text \<open>On the buffer: what is in it afterwards, and the tag or the verdict. A rejected ciphertext stays.\<close>

definition sm4_gcm_encrypt_inplace :: "sm4_ctx \<Rightarrow> bytes \<Rightarrow> bytes \<Rightarrow> bytes \<Rightarrow> nat \<Rightarrow> bytes \<times> bytes" where
  "sm4_gcm_encrypt_inplace ctx iv buf aad tag_len =
     (let H = sm4_encrypt_block ctx (replicate 16 0);
          j0 = sm4_gcm_make_j0 H iv;
          buf = sm4_ctr_xor ctx (gcm_next_counter j0 (length iv)) buf
      in (buf, gcm_tag ctx H j0 aad buf tag_len))"

definition sm4_gcm_decrypt_inplace :: "sm4_ctx \<Rightarrow> bytes \<Rightarrow> bytes \<Rightarrow> bytes \<Rightarrow> bytes \<Rightarrow> bool \<times> bytes" where
  "sm4_gcm_decrypt_inplace ctx iv buf aad tag =
     (let H = sm4_encrypt_block ctx (replicate 16 0);
          j0 = sm4_gcm_make_j0 H iv;
          expected_tag = gcm_tag ctx H j0 aad buf (length tag);
          diff = foldl (\<lambda>d i. d OR (expected_tag ! i XOR tag ! i)) 0 [0..<length tag]
      in if diff \<noteq> 0 then (False, buf) else (True, sm4_ctr_xor ctx (gcm_next_counter j0 (length iv)) buf))"

section \<open>NIST SP 800-38D\<close>

definition inc32 :: "bytes \<Rightarrow> bytes" where
  "inc32 c = take 12 c @ be_bytes 4 ((be_val (drop 12 c) + 1) mod 2 ^ 32)"

definition gctr :: "(bytes \<Rightarrow> bytes) \<Rightarrow> bytes \<Rightarrow> bytes \<Rightarrow> bytes" where
  "gctr E icb x = map2 (XOR) x (concat (map (\<lambda>i. E ((inc32 ^^ i) icb)) [0..<(length x + 15) div 16]))"

text \<open>GHASH of whole blocks.\<close>

definition ghash_bytes :: "bytes \<Rightarrow> bytes \<Rightarrow> bytes" where
  "ghash_bytes H x = be_bytes 16 (ghash_ref (be_val H) (map be_val (ccm_blocks x)))"

definition gcm_j0 :: "bytes \<Rightarrow> bytes \<Rightarrow> bytes" where
  "gcm_j0 H iv =
     (if length iv = 12 then iv @ be_bytes 4 1 else ghash_bytes H (pad_block iv @ replicate 8 0 @ be_bytes 8 (8 * length iv)))"

definition gcm_ref :: "(bytes \<Rightarrow> bytes) \<Rightarrow> nat \<Rightarrow> bytes \<Rightarrow> bytes \<Rightarrow> bytes \<Rightarrow> bytes \<times> bytes" where
  "gcm_ref E t iv p aad =
     (let H = E (replicate 16 0); j0 = gcm_j0 H iv;
          c = gctr E (inc32 j0) p;
          s = ghash_bytes H (pad_block aad @ pad_block c @ be_bytes 8 (8 * length aad) @ be_bytes 8 (8 * length c))
      in (c, take t (gctr E j0 s)))"

section \<open>The verdict\<close>

lemma gcm_decrypt_ok:
  "foldl (\<lambda>d i. d OR (e ! i XOR tag ! i)) 0 [0..<length tag] = (0 :: u8) \<longleftrightarrow> (\<forall>i<length tag. tag ! i = e ! i)"
proof -
  have "a XOR b = 0 \<longleftrightarrow> b = a" for a b :: u8 by (auto simp: bit_eq_iff bit_xor_iff)
  then show ?thesis by (auto simp: foldl_or_zero)
qed

lemma gcm_decrypt_iff:
  "sm4_gcm_decrypt ctx iv c aad tag = Some p \<longleftrightarrow> sm4_gcm_encrypt ctx iv p aad (length tag) = (c, tag)"
proof -
  define k where "k = gcm_next_counter (sm4_gcm_make_j0 (sm4_encrypt_block ctx (replicate 16 0)) iv) (length iv)"
  define e where "e = gcm_tag ctx (sm4_encrypt_block ctx (replicate 16 0)) (sm4_gcm_make_j0 (sm4_encrypt_block ctx (replicate 16 0)) iv) aad c (length tag)"
  have "length e = length tag" by (simp add: e_def gcm_tag_def Let_def)
  then have t: "(\<forall>i<length tag. tag ! i = e ! i) \<longleftrightarrow> e = tag" by (auto intro: nth_equalityI)
  have twice: "sm4_ctr_xor ctx k (sm4_ctr_xor ctx k m) = m" for m by (simp add: sm4_ctr_xor_def ctr_crypt_twice)
  have p: "sm4_ctr_xor ctx k c = p \<longleftrightarrow> sm4_ctr_xor ctx k p = c" using twice by metis
  show ?thesis
    using p t unfolding sm4_gcm_decrypt_def sm4_gcm_encrypt_def Let_def k_def [symmetric] e_def [symmetric] gcm_decrypt_ok
    by (auto simp: e_def)
qed

section \<open>The standard\<close>

lemma ghash_whole:
  assumes "length H = 16" "16 dvd length d"
  shows "ghash H d = ghash_bytes H d"
proof -
  obtain n where n: "length d = 16 * n" using assms(2) by (elim dvdE)
  have "take 16 (drop (16 * i) (d @ replicate 15 0)) = take 16 (drop (16 * i) d)" if "i < n" for i
    using that n by simp
  then have "gh_blocks d = map be_val (ccm_blocks d)"
    unfolding gh_blocks_def ccm_blocks_def n by simp
  then show ?thesis using ghash_val [OF assms(1), of d] be_bytes_be_val [of "ghash H d"] by (simp add: ghash_bytes_def)
qed

lemma counter_bytes: "be_bytes 4 (Suc 0) = [0, 0, 0, 1]" "be_bytes 4 (Suc (Suc 0)) = [0, 0, 0, 2]" "store_be32 2 = [0, 0, 0, 2]"
  by code_simp+

lemma make_j0_eq:
  assumes "length H = 16"
  shows "sm4_gcm_make_j0 H iv = gcm_j0 H iv"
proof (cases "length iv = 12")
  case True
  then show ?thesis by (simp add: sm4_gcm_make_j0_def gcm_j0_def counter_bytes)
next
  case False
  define n where "n = (length iv + 15) div 16"
  have r: "16 * n - length iv = (16 - length iv mod 16) mod 16" "length iv \<le> 16 * n"
  proof -
    have fill: "16 * ((16 * q + r + 15) div 16) - (16 * q + r) = (16 - r) mod 16" if "r < 16" for q r :: nat
    proof -
      have "(16 * q + r + 15) div 16 = q + (r + 15) div 16" by (simp add: add.assoc)
      moreover have "(r + 15) div 16 = (if r = 0 then 0 else 1)" using that by (auto simp: div_nat_eqI)
      ultimately show ?thesis using that by auto
    qed
    show "16 * n - length iv = (16 - length iv mod 16) mod 16"
      using fill [where q = "length iv div 16" and r = "length iv mod 16"] by (simp add: n_def)
    show "length iv \<le> 16 * n" unfolding n_def by linarith
  qed
  have "(length iv * 8 + 127) div 128 = (length iv * 8 + 127) div 8 div 16" by (simp add: div_mult2_eq [symmetric])
  also have "(length iv * 8 + 127) div 8 = length iv + 15" by simp
  finally have d: "(length iv * 8 + 127) div 128 = n" by (simp add: n_def)
  have s: "(128 * n - length iv * 8 + 64) div 8 = (16 - length iv mod 16) mod 16 + 8"
  proof -
    have "128 * n - length iv * 8 + 64 = (16 * n - length iv + 8) * 8" using r(2) by simp
    then show ?thesis by (simp add: r(1))
  qed
  have l: "16 dvd length (pad_block iv @ replicate 8 0 @ be_bytes 8 (8 * length iv))" using dvd_pad_block [of iv] by simp
  have j: "iv @ replicate ((16 - length iv mod 16) mod 16 + 8) 0 @ x = pad_block iv @ replicate 8 0 @ x" for x
    by (simp add: pad_block_def replicate_add)
  have "sm4_gcm_make_j0 H iv = ghash H (pad_block iv @ replicate 8 0 @ be_bytes 8 (8 * length iv))"
    unfolding sm4_gcm_make_j0_def Let_def d s j mult.commute [of 8] using False by simp
  then show ?thesis using False ghash_whole [OF assms l] by (simp only: gcm_j0_def if_False)
qed

lemma gcm_ghash_eq:
  assumes "length H = 16"
  shows "sm4_gcm_ghash H aad c = ghash_bytes H (pad_block aad @ pad_block c @ be_bytes 8 (8 * length aad) @ be_bytes 8 (8 * length c))"
proof -
  have "16 dvd length (pad_block aad @ pad_block c @ be_bytes 8 (8 * length aad) @ be_bytes 8 (8 * length c))"
    using dvd_pad_block [of aad] dvd_pad_block [of c] by simp
  from ghash_whole [OF assms this] show ?thesis
    by (simp add: sm4_gcm_ghash_def Let_def mult.commute [of 8]) (simp add: pad_block_def)
qed

lemma be_bytes_modulo: "be_bytes n (x mod 256 ^ n) = be_bytes n x"
  using be_bytes_be_val [of "be_bytes n x"] by (simp add: be_val_be_bytes)

lemma inc32_iter:
  assumes "length pre = 12"
  shows "(inc32 ^^ i) (pre @ be_bytes 4 x) = pre @ be_bytes 4 (x + i)"
proof (induction i)
  case (Suc i)
  have "be_bytes 4 ((x + i) mod 256 ^ 4 + 1) = be_bytes 4 (x + i + 1)"
    by (metis be_bytes_modulo mod_add_left_eq)
  moreover have "be_bytes 4 (((x + i) mod 256 ^ 4 + 1) mod 2 ^ 32) = be_bytes 4 ((x + i) mod 256 ^ 4 + 1)"
    using be_bytes_modulo [of 4 "(x + i) mod 256 ^ 4 + 1"] by simp
  ultimately show ?case using Suc assms by (simp add: inc32_def be_val_be_bytes)
qed simp

lemma ctr_inc_field:
  assumes "length pre + q = 16" "x + 1 < 256 ^ q"
  shows "ctr_inc 0 16 (pre @ be_bytes q x) = pre @ be_bytes q (x + 1)"
proof -
  have b: "be_bytes 16 (be_val pre * 256 ^ q + y) = pre @ be_bytes q y" if "y < 256 ^ q" for y
    using be_bytes_less [OF that, of "length pre" "be_val pre"] be_bytes_be_val [of pre] by (simp add: assms(1))
  have "pre @ be_bytes q x = be_bytes 16 (be_val pre * 256 ^ q + x)" using b [of x] assms(2) by simp
  then have "ctr_inc 0 16 (pre @ be_bytes q x) = be_bytes 16 (be_val pre * 256 ^ q + x + 1)"
    using ctr_inc_bytes [of "[]" 0 16 "be_val pre * 256 ^ q + x" "[]"] by simp
  then show ?thesis using b [of "x + 1"] assms(2) by (simp add: add.assoc)
qed

lemma gcm_is_ref:
  assumes "t \<le> 16" "be_val (drop 12 (gcm_j0 (sm4_encrypt_block ctx (replicate 16 0)) iv)) + (length p + 15) div 16 < 2 ^ 32"
  shows "sm4_gcm_encrypt ctx iv p aad t = gcm_ref (sm4_encrypt_block ctx) t iv p aad"
proof -
  let ?E = "sm4_encrypt_block ctx"
  define H where "H = ?E (replicate 16 0)"
  define j0 where "j0 = gcm_j0 H iv"
  define N where "N = (length p + 15) div 16"
  define pre where "pre = take 12 j0"
  define low where "low = be_val (drop 12 j0)"
  have H: "length H = 16" by (simp add: H_def)
  have "length j0 = 16"
    by (simp add: j0_def gcm_j0_def ghash_bytes_def)
  then have pre: "length pre = 12" and j0: "j0 = pre @ be_bytes 4 low"
    using be_bytes_be_val [of "drop 12 j0"] by (simp_all add: pre_def low_def)
  have low: "low + N < 2 ^ 32" using assms(2) by (simp add: low_def j0_def H_def N_def)
  have nc: "ctr_crypt ?E (gcm_next_counter j0 (length iv)) p = ctr_crypt ?E (pre @ be_bytes 4 (low + 1)) p"
  proof (cases "p = []")
    case False
    then have "N \<noteq> 0" by (cases "length p") (simp_all add: N_def)
    then have l1: "low + 1 < 256 ^ 4" using low by simp
    show ?thesis
    proof (cases "length iv = 12")
      case True
      then have j: "j0 = iv @ [0, 0, 0, 1]" by (simp add: j0_def gcm_j0_def counter_bytes)
      then have "pre = iv" using True by (simp add: pre_def)
      moreover have "low = 1" using True by (simp add: low_def j be_val_def)
      moreover have "load_be32 j0 12 = 1" using True by (simp add: load_be32_def j nth_append)
      ultimately show ?thesis using True by (simp add: gcm_next_counter_def j counter_bytes)
    next
      case False
      then show ?thesis using ctr_inc_field [of pre 4 low] pre l1 by (simp add: gcm_next_counter_def j0)
    qed
  qed simp
  have "length p \<le> 16 * N" unfolding N_def by linarith
  then have "ctr_crypt ?E (pre @ be_bytes 4 (low + 1)) p = map2 (XOR) p (ctr_stream ?E (pre @ be_bytes 4 (low + 1)) N)"
    by (intro ctr_crypt_stream) simp_all
  also have "ctr_stream ?E (pre @ be_bytes 4 (low + 1)) N = concat (map (\<lambda>i. ?E (pre @ be_bytes 4 i)) [low + 1..<low + 1 + N])"
    using pre low by (intro ctr_stream_field) simp_all
  also have "map (\<lambda>i. ?E (pre @ be_bytes 4 i)) [low + 1..<low + 1 + N] = map (\<lambda>i. ?E ((inc32 ^^ i) (inc32 j0))) [0..<N]"
  proof -
    have "inc32 j0 = pre @ be_bytes 4 (low + 1)" using inc32_iter [OF pre, of 1 low] by (simp add: j0)
    then have "(inc32 ^^ i) (inc32 j0) = pre @ be_bytes 4 (i + (low + 1))" for i
      using inc32_iter [OF pre, of i "low + 1"] by (simp add: add.commute)
    moreover have "[low + 1..<low + 1 + N] = map (\<lambda>i. i + (low + 1)) [0..<N]"
      using map_add_upt [of "low + 1" N] by (simp add: add.commute del: upt_Suc)
    ultimately show ?thesis by (simp only: map_map comp_def)
  qed
  finally have c: "sm4_ctr_xor ctx (gcm_next_counter j0 (length iv)) p = gctr ?E (inc32 j0) p"
    using nc by (simp add: sm4_ctr_xor_def gctr_def N_def)
  have tag: "map (\<lambda>i. y ! i XOR e ! i) [0..<t] = take t (map2 (XOR) y e)" if "length y = 16" "length e = 16" for y e :: bytes
    using that assms(1) by (intro nth_equalityI) simp_all
  have g: "gctr ?E j0 (ghash_bytes H x) = map2 (XOR) (ghash_bytes H x) (?E j0)" for x
    by (simp add: gctr_def ghash_bytes_def)
  have lg: "length (ghash_bytes H x) = 16" for x by (simp add: ghash_bytes_def)
  show ?thesis
    unfolding sm4_gcm_encrypt_def gcm_ref_def Let_def H_def [symmetric] make_j0_eq [OF H] unfolding j0_def [symmetric]
    unfolding c gcm_tag_def gcm_ghash_eq [OF H] Let_def g tag [OF lg length_transform(2)] ..
qed


section \<open>Properties\<close>

text \<open>
  C17. SM4-GCM encryption, by the public function and on the record layer's buffer, gives the ciphertext and tag of NIST SP 800-38D,
  with GHASH over the field of \<open>2 ^ 128\<close> elements, for initial vectors of any length, as long as the last 32 bits of the first
  counter block plus the number of blocks stay below \<open>2 ^ 32\<close> (for a 12-byte vector: messages of less than about 64 GiB).
\<close>

theorem sm4_gcm_is_sp800_38d:
  assumes "t \<le> 16"
    "be_val (drop 12 (gcm_j0 (sm4_encrypt_block (sm4_init key) (replicate 16 0)) iv)) + (length p + 15) div 16 < 2 ^ 32"
  shows "sm4_gcm_encrypt (sm4_init key) iv p aad t = gcm_ref (sm4_encrypt_block (sm4_init key)) t iv p aad
    \<and> sm4_gcm_encrypt_inplace (sm4_init key) iv p aad t = gcm_ref (sm4_encrypt_block (sm4_init key)) t iv p aad"
  using gcm_is_ref [OF assms, of aad] by (simp add: sm4_gcm_encrypt_inplace_def sm4_gcm_encrypt_def)

theorem sm4_gcm_is_sp800_38d_witness:
  "sm4_gcm_encrypt (sm4_init (replicate 16 1)) (replicate 12 7) [1, 2, 3] [4] 16
     = gcm_ref (sm4_encrypt_block (sm4_init (replicate 16 1))) 16 (replicate 12 7) [1, 2, 3] [4]"
proof -
  have "drop 12 (gcm_j0 H (replicate 12 7)) = [0, 0, 0, 1]" for H by (simp add: gcm_j0_def counter_bytes)
  then have "be_val (drop 12 (gcm_j0 H (replicate 12 7))) = 1" for H by (simp add: be_val_def)
  then show ?thesis using sm4_gcm_is_sp800_38d [of 16 "replicate 16 1" "replicate 12 7" "[1, 2, 3]" "[4]"] by simp
qed

text \<open>
  Verified decryption accepts exactly what encryption makes of the message it returns, for every key, vector, associated data and
  tag length; on the buffer the verdict is the same, and a rejected ciphertext is left untouched.
\<close>

theorem sm4_gcm_decrypt_iff:
  assumes "length tag \<le> 16"
  shows "(sm4_gcm_decrypt (sm4_init key) iv c aad tag = Some p
      \<longleftrightarrow> sm4_gcm_encrypt (sm4_init key) iv p aad (length tag) = (c, tag))
    \<and> sm4_gcm_decrypt_inplace (sm4_init key) iv c aad tag
      = (case sm4_gcm_decrypt (sm4_init key) iv c aad tag of None \<Rightarrow> (False, c) | Some m \<Rightarrow> (True, m))"
  by (simp add: gcm_decrypt_iff) (simp add: sm4_gcm_decrypt_inplace_def sm4_gcm_decrypt_def Let_def)

theorem sm4_gcm_decrypt_iff_witness:
  "\<exists>c tag. sm4_gcm_encrypt (sm4_init (replicate 16 1)) (replicate 12 7) [1, 2, 3] [4] 16 = (c, tag)
     \<and> sm4_gcm_decrypt (sm4_init (replicate 16 1)) (replicate 12 7) c [4] tag = Some [1, 2, 3]"
proof -
  obtain c tag where e: "sm4_gcm_encrypt (sm4_init (replicate 16 1)) (replicate 12 7) [1, 2, 3] [4] 16 = (c, tag)"
    by (metis surj_pair)
  then have "length tag = 16" by (auto simp: sm4_gcm_encrypt_def gcm_tag_def Let_def)
  then have "sm4_gcm_decrypt (sm4_init (replicate 16 1)) (replicate 12 7) c [4] tag = Some [1, 2, 3]"
    using sm4_gcm_decrypt_iff [of tag "replicate 16 1" "replicate 12 7" c "[4]" "[1, 2, 3]"] e by simp
  with e show ?thesis by blast
qed

text \<open>
  Where the low word of \<open>J0\<close> is all ones, which a vector of another length than 12 bytes can reach, the code carries into the upper
  bytes and the standard does not.
\<close>

lemma gcm_counter_carries:
  assumes "length pre = 15" "n \<noteq> 12"
  shows "gcm_next_counter (take 12 pre @ [255, 255, 255, 255]) n \<noteq> inc32 (take 12 pre @ [255, 255, 255, 255])"
proof -
  define q where "q = take 12 pre"
  have q: "length q = 12" using assms(1) by (simp add: q_def)
  have f: "[255, 255, 255, 255] = be_bytes 4 (2 ^ 32 - 1)"
  proof -
    have "be_val [255, 255, 255, 255] = 2 ^ 32 - 1" "length [255, 255, 255, 255 :: u8] = 4" by (simp_all add: be_val_def)
    then show ?thesis using be_bytes_be_val [of "[255, 255, 255, 255]"] by (simp only:)
  qed
  have "take 12 (inc32 (q @ [255, 255, 255, 255])) = q" using q by (simp add: inc32_def)
  moreover have "take 12 (ctr_inc 0 16 (q @ [255, 255, 255, 255])) = be_bytes 12 (be_val q + 1)"
  proof -
    have "q @ [255, 255, 255, 255] = be_bytes 16 (be_val q * 256 ^ 4 + (2 ^ 32 - 1))"
      using be_bytes_less [of "2 ^ 32 - 1" 4 12 "be_val q"] be_bytes_be_val [of q] q f by simp
    then have "ctr_inc 0 16 (q @ [255, 255, 255, 255]) = be_bytes 16 ((be_val q + 1) * 256 ^ 4 + 0)"
      using ctr_inc_bytes [of "[]" 0 16 "be_val q * 256 ^ 4 + (2 ^ 32 - 1)" "[]"] by (simp add: algebra_simps)
    also have "\<dots> = be_bytes 12 (be_val q + 1) @ be_bytes 4 0"
      using be_bytes_less [of 0 4 12 "be_val q + 1"] by simp
    finally show ?thesis by simp
  qed
  moreover have "be_bytes 12 (be_val q + 1) \<noteq> q"
  proof
    assume "be_bytes 12 (be_val q + 1) = q"
    then have "(be_val q + 1) mod 256 ^ 12 = be_val q" by (metis be_val_be_bytes)
    moreover have "be_val q < 256 ^ 12" using be_val_less [of q] q by simp
    ultimately show False by (cases "be_val q + 1 = 256 ^ 12") simp_all
  qed
  ultimately show ?thesis using assms(2) by (auto simp: gcm_next_counter_def q_def)
qed

end
