(* ===== verification/Spec2Isabelle.thy ===== *)
theory Spec2Isabelle
  imports Base64 Sha1 Sha3 Hkdf CtMerkle CtX509 EcdsaDer TlsSign Rsa CtRun ChaChaPoly DtlsApp DtlsWf X25519 Sm4Gcm
begin

text \<open>
  JPSSL, a TLS and certificate library in C++ (\<open>src/src/*.cpp\<close>, \<open>src/include/*.hpp\<close>): a verification of its
  hashes, key derivation, block ciphers, authenticated encryption, X25519, RSA, DER and X.509 code, its certificate transparency log and its DTLS.

  Conventions. Bytes are \<open>8 word\<close>, byte vectors lists of them; \<open>uint32_t\<close> and \<open>uint64_t\<close> are words, \<open>int\<close> is
  \<open>int\<close>, sizes and offsets are \<open>nat\<close> with the wrap-around of \<open>size_t\<close> written out where the code can reach it
  (\<open>Der.decode_tlv\<close>). \<open>std::optional\<close> is \<open>option\<close>; where the code can also throw or read out of bounds the
  result is \<open>'a run\<close>, with \<open>Throw\<close> for that outcome. Loops are recursive functions, all of them terminating.

  Parts, and the theories that hold them, in the order of their dependencies.

  Shared: \<open>Prelude\<close> (word and list lemmas, loads and stores), \<open>MdStream\<close> (the block buffering shared by the
  Merkle-Damgard hashes, as a locale with a reference hash), \<open>Codec\<close> (TLS vectors).

  Hashes: \<open>Sha1\<close>, \<open>Sha256\<close>, \<open>Sha512\<close>, \<open>Sm3\<close>, \<open>Sha3\<close> model \<open>sha1.cpp\<close>, \<open>sha256.cpp\<close>, \<open>sha512_cpu.cpp\<close>, \<open>sm3.cpp\<close>,
  \<open>sha3.cpp\<close>: the portable compression functions and the streaming interfaces \<open>init\<close>, \<open>update\<close>, \<open>final\<close>. The
  theorems: any split of a message into updates, from any contents of the context, gives the hash of the
  padded message. \<open>Hmac\<close> and \<open>Hkdf\<close> model \<open>hmac.cpp\<close> and \<open>hkdf.cpp\<close> and prove them equal to RFC 2104 and 5869.

  Text: \<open>Base64\<close> models \<open>base64.cpp\<close>: round trip and the exact language of the decoder.

  DER and X.509 (\<open>x509.cpp\<close>, \<open>x509.hpp\<close>): \<open>Der\<close> the element encoders and the decoder; \<open>X509Time\<close> the UTCTime
  conversions, with \<open>gmtime\<close> and \<open>timegm\<close> of the C library written out; \<open>X509Cert\<close> the certificate record, the
  object identifiers and \<open>to_der\<close>; \<open>X509Parse\<close> \<open>from_der\<close>; \<open>X509Round\<close> that \<open>from_der\<close> inverts \<open>to_der\<close>;
  \<open>Crypto\<close> the record of public-key primitives over which the rest is parametric; \<open>X509Verify\<close> signature
  formats, \<open>verify_signature\<close>, \<open>x509_builder\<close> and the chain verifiers; \<open>X509Chain\<close> what these accept, and that
  an issued certificate, sent as DER and parsed, verifies. \<open>EcdsaDer\<close> models the signature encoding of
  \<open>tls_router.cpp\<close>.

  RSA (\<open>rsa_body.inc\<close>, \<open>rsa_prim.cpp\<close>, \<open>rsa_schemes.cpp\<close>, \<open>rsa_oaep.cpp\<close>, \<open>rsa_pss.cpp\<close>): \<open>Bignum\<close> the fixed-width limb
  arithmetic, with its value as a natural number; \<open>Rsa\<close> the primitives with the Chinese remainder, the octet strings, MGF1
  and the three schemes, where what is signed verifies and what is encrypted decrypts. Montgomery exponentiation is a
  parameter with its law as a hypothesis.

  Certificate transparency (\<open>ct.cpp\<close>, \<open>ct.hpp\<close>): \<open>CtMerkle\<close> the Merkle tree, its proofs and their verifiers,
  sound up to a hash collision that the theorems compute; \<open>CtCodec\<close> the wire formats; \<open>CtX509\<close> the surgery on
  certificates between precertificate and final certificate; \<open>CtLog\<close> the signed objects and the class \<open>ct_log\<close>; \<open>Lts\<close> step
  relations in general; \<open>CtRun\<close> the log as one, refined to an abstract append-only list.

  ChaCha20-Poly1305 (\<open>chacha20_poly1305.cpp\<close>): \<open>ChaCha\<close> the stream cipher, \<open>Poly1305\<close> the limb arithmetic modulo
  \<open>2^130 - 5\<close> and its block loops, \<open>PolyTag\<close> the final reduction, \<open>ChaChaPoly\<close> the AEAD: equal to RFC 8439.

  SM4 (\<open>sm4.cpp\<close>, \<open>sm4_ccm.cpp\<close>, \<open>sm4_gcm.cpp\<close>): \<open>Sm4\<close> the block cipher, its tables and CBC, where decryption inverts encryption; \<open>Ctr\<close> counter
  mode for any block cipher; \<open>Sm4Ccm\<close> CCM, equal to SP 800-38C for full tags; \<open>Ghash\<close> the software GHASH of \<open>aes_cpu.cpp\<close>, equal to
  SP 800-38D's; \<open>Sm4Gcm\<close> GCM, equal to SP 800-38D while its counter does not wrap.

  X25519 (\<open>fe_25519_r51.hpp\<close>, \<open>x25519_body.inc\<close>, \<open>x25519.cpp\<close>): \<open>Fe25519\<close> the field of five 51-bit limbs and its product,
  \<open>Fe25519Val\<close> what its other operations compute (carries, canonical bytes, inverse, square roots), \<open>X25519\<close> the ladder, equal to
  RFC 7748's function over the integers modulo the prime. That this function is a group's scalar multiplication is not shown.

  TLS certificates (\<open>tls_router.cpp\<close>): \<open>TlsCert\<close> keys, signature schemes and their selection, \<open>TlsSign\<close> that signatures verify.

  DTLS 1.2 and 1.3 (\<open>dtls.cpp\<close>, \<open>dtls.hpp\<close>): \<open>DtlsRecord\<close> the session state, key schedules and record layers, with
  \<open>DtlsRound\<close> (one record opens again, the AEAD as a locale) and \<open>DtlsApp\<close> (application data arrives, replays and forged
  ChangeCipherSpecs included); \<open>DtlsHello\<close> the handshake messages; \<open>DtlsStep\<close> reassembly and the two state machines, whose
  locals are the record \<open>step_state\<close> and whose handlers are one definition each; \<open>DtlsForge\<close> what reassembly guarantees, and the
  handshakes an attacker finishes or blocks; \<open>DtlsWf\<close> the invariant of the session under every step, and termination.

  Fuel: none; every loop of the modelled code has a measure. The one loop with a fixed number of rounds is the retry of
  undecrypted records, which the code itself bounds by ten (\<open>retry_pending\<close>).

  Not modelled: key generation and Montgomery arithmetic of RSA, the other curves and AES (parameters, where a modelled part
  calls them); the TLS 1.2 and 1.3 clients and servers over sockets, and the socket class of DTLS; SIMD, assembler and GPU variants,
  whose language the kernel does not know; files, the operating system's random numbers and the command line.
\<close>

end
